(* ===== verification/Prelude.thy ===== *)
theory Prelude
  imports Complex_Main "HOL-Library.Word" "HOL-Library.RBT" "HOL-Library.Multiset"
    "HOL-Library.Product_Lexorder" "HOL-Library.Code_Target_Nat"
begin

unbundle bit_operations_syntax

text \<open>
  Shared vocabulary of the development: the machine integer types, the error type of
  \<^verbatim>\<open>copc-core/src/error.rs\<close> with the result type and its combinators, checked integer
  arithmetic, little-endian byte codes and slices of byte buffers.
\<close>

section \<open>Machine types\<close>

type_synonym u8 = "8 word"
type_synonym u16 = "16 word"
type_synonym u32 = "32 word"
type_synonym u64 = "64 word"
type_synonym i16 = "16 word" \<comment> \<open>two's complement, read with \<open>sint\<close>\<close>
type_synonym i32 = "32 word" \<comment> \<open>two's complement, read with \<open>sint\<close>\<close>
type_synonym f32 = "32 word" \<comment> \<open>an IEEE 754 bit pattern\<close>
type_synonym f64 = "64 word" \<comment> \<open>an IEEE 754 bit pattern\<close>

section \<open>Errors and results\<close>

text \<open>
  The variants of \<open>copc_core::Error\<close>. A message keeps the literal of the source's
  \<^verbatim>\<open>format!\<close> string, the interpolated values replaced by their \<^verbatim>\<open>{}\<close> holes. \<open>Panic\<close> is no
  variant of the source: it stands for a Rust panic (an index out of range), so that a
  panicking branch is a value of the model.
\<close>

datatype copc_error =
    InvalidInput string
  | InvalidData string
  | Las string
  | Io string
  | Cancelled
  | Unsupported string
  | Panic string

type_synonym 'a result = "copc_error + 'a"

abbreviation Ok :: "'a \<Rightarrow> 'a result" where
  "Ok \<equiv> Inr"

abbreviation Err :: "copc_error \<Rightarrow> 'a result" where
  "Err \<equiv> Inl"

text \<open>The \<^verbatim>\<open>?\<close> operator: continue with the value, or return the error.\<close>

definition bind_res :: "'a result \<Rightarrow> ('a \<Rightarrow> 'b result) \<Rightarrow> 'b result" where
  "bind_res m f = (case m of Inl e \<Rightarrow> Inl e | Inr x \<Rightarrow> f x)"

lemma bind_res_simps [simp]:
  "bind_res (Inr x) f = f x"
  "bind_res (Inl e) f = Inl e"
  by (simp_all add: bind_res_def)

lemma bind_res_cong [fundef_cong]:
  "m = m' \<Longrightarrow> (\<And>x. m' = Inr x \<Longrightarrow> f x = f' x) \<Longrightarrow> bind_res m f = bind_res m' f'"
  by (simp add: bind_res_def split: sum.splits)

lemma bind_res_Ok_iff: "bind_res m f = Inr y \<longleftrightarrow> (\<exists>x. m = Inr x \<and> f x = Inr y)"
  by (cases m) simp_all

lemma bind_res_Err_iff:
  "bind_res m f = Inl e \<longleftrightarrow> m = Inl e \<or> (\<exists>x. m = Inr x \<and> f x = Inl e)"
  by (cases m) simp_all

lemma bind_res_OkE:
  assumes "bind_res m f = Inr y"
  obtains x where "m = Inr x" "f x = Inr y"
  using assms by (auto simp: bind_res_Ok_iff)

definition is_ok :: "'a result \<Rightarrow> bool" where
  "is_ok r = (case r of Inl _ \<Rightarrow> False | Inr _ \<Rightarrow> True)"

lemma is_ok_simps [simp]: "is_ok (Inr x)" "\<not> is_ok (Inl e)"
  by (simp_all add: is_ok_def)

lemma is_ok_iff: "is_ok r \<longleftrightarrow> (\<exists>x. r = Inr x)"
  by (cases r) simp_all

text \<open>\<open>Option::ok_or_else\<close> and a guard that returns early with an error.\<close>

definition ok_or :: "'a option \<Rightarrow> copc_error \<Rightarrow> 'a result" where
  "ok_or x e = (case x of None \<Rightarrow> Inl e | Some y \<Rightarrow> Inr y)"

lemma ok_or_simps [simp]: "ok_or (Some x) e = Inr x" "ok_or None e = Inl e"
  by (simp_all add: ok_or_def)

lemma ok_or_Ok_iff [simp]: "ok_or x e = Inr y \<longleftrightarrow> x = Some y"
  by (cases x) simp_all

definition ensure :: "bool \<Rightarrow> copc_error \<Rightarrow> unit result" where
  "ensure b e = (if b then Inr () else Inl e)"

lemma ensure_simps [simp]: "ensure True e = Inr ()" "ensure False e = Inl e"
  by (simp_all add: ensure_def)

lemma ensure_Ok_iff [simp]: "ensure b e = Inr u \<longleftrightarrow> b"
  by (simp add: ensure_def)

lemma ensure_Err_iff [simp]: "ensure b e = Inl e' \<longleftrightarrow> \<not> b \<and> e' = e"
  by (auto simp: ensure_def)

text \<open>Loops whose body may return early: \<open>try_fold\<close> and \<open>collect::<Result<Vec<_>>>\<close>.\<close>

fun fold_res :: "('a \<Rightarrow> 's \<Rightarrow> 's result) \<Rightarrow> 'a list \<Rightarrow> 's \<Rightarrow> 's result" where
  "fold_res f [] s = Inr s"
| "fold_res f (x # xs) s = bind_res (f x s) (fold_res f xs)"

fun map_res :: "('a \<Rightarrow> 'b result) \<Rightarrow> 'a list \<Rightarrow> 'b list result" where
  "map_res f [] = Inr []"
| "map_res f (x # xs) = bind_res (f x) (\<lambda>y. bind_res (map_res f xs) (\<lambda>ys. Inr (y # ys)))"

lemma fold_res_cong [fundef_cong]:
  "xs = xs' \<Longrightarrow> s = s' \<Longrightarrow> (\<And>x t. x \<in> set xs' \<Longrightarrow> f x t = f' x t) \<Longrightarrow>
    fold_res f xs s = fold_res f' xs' s'"
proof (induction xs arbitrary: xs' s s')
  case Nil
  then show ?case by simp
next
  case (Cons x xs)
  have "fold_res f xs = fold_res f' xs"
    using Cons.IH [OF refl refl] Cons.prems(1,3) by fastforce
  then show ?case using Cons.prems by (simp add: Cons.prems(1) [symmetric])
qed

lemma map_res_cong [fundef_cong]:
  "xs = xs' \<Longrightarrow> (\<And>x. x \<in> set xs' \<Longrightarrow> f x = f' x) \<Longrightarrow> map_res f xs = map_res f' xs'"
proof (induction xs arbitrary: xs')
  case Nil
  then show ?case by simp
next
  case (Cons x xs)
  have "map_res f xs = map_res f' xs"
    using Cons.IH [OF refl] Cons.prems by auto
  then show ?case using Cons.prems by (simp add: Cons.prems(1) [symmetric])
qed

lemma fold_res_append:
  "fold_res f (xs @ ys) s = bind_res (fold_res f xs s) (fold_res f ys)"
proof (induction xs arbitrary: s)
  case Nil
  then show ?case by simp
next
  case (Cons x xs)
  then show ?case by (cases "f x s") simp_all
qed

text \<open>An invariant of a \<open>try_fold\<close>: what every completed step keeps holds at the end.\<close>

lemma fold_res_invariant:
  assumes "fold_res f xs s = Inr t" and "P s"
    and "\<And>x u v. x \<in> set xs \<Longrightarrow> P u \<Longrightarrow> f x u = Inr v \<Longrightarrow> P v"
  shows "P t"
  using assms
proof (induction xs arbitrary: s)
  case Nil
  then show ?case by simp
next
  case (Cons x xs)
  from Cons.prems(1) obtain u where u: "f x s = Inr u" "fold_res f xs u = Inr t"
    by (auto simp: bind_res_Ok_iff)
  then have "P u" using Cons.prems by (meson list.set_intros(1))
  with u Cons.IH Cons.prems(3) show ?case by (meson list.set_intros(2))
qed

lemma map_res_Ok_iff:
  "map_res f xs = Inr ys \<longleftrightarrow> list_all2 (\<lambda>x y. f x = Inr y) xs ys"
proof (induction xs arbitrary: ys)
  case Nil
  then show ?case by auto
next
  case (Cons x xs)
  then show ?case by (cases ys) (auto simp: bind_res_Ok_iff)
qed

lemma map_res_length: "map_res f xs = Inr ys \<Longrightarrow> length ys = length xs"
  by (simp add: map_res_Ok_iff list_all2_lengthD)

lemma map_res_all_Ok:
  assumes "\<And>x. x \<in> set xs \<Longrightarrow> f x = Inr (g x)"
  shows "map_res f xs = Inr (map g xs)"
  using assms by (induction xs) simp_all

section \<open>Specifications of results\<close>

text \<open>
  \<open>res_spec E P r\<close>: the result is a value with \<open>P\<close>, or an error with \<open>E\<close>. The rules follow the
  combinators, so that the specification of an operation is put together from those of its parts.
\<close>

definition res_spec :: "(copc_error \<Rightarrow> bool) \<Rightarrow> ('a \<Rightarrow> bool) \<Rightarrow> 'a result \<Rightarrow> bool" where
  "res_spec E P r = (case r of Inl e \<Rightarrow> E e | Inr x \<Rightarrow> P x)"

lemma res_spec_simps [simp]: "res_spec E P (Inr x) = P x" "res_spec E P (Inl e) = E e"
  by (simp_all add: res_spec_def)

lemma res_spec_Ok: "res_spec E P r \<Longrightarrow> r = Inr x \<Longrightarrow> P x"
  by simp

lemma res_spec_Err: "res_spec E P r \<Longrightarrow> r = Inl e \<Longrightarrow> E e"
  by simp

lemma res_spec_cases:
  assumes "res_spec E P r"
  obtains (ok) x where "r = Inr x" "P x" | (err) e where "r = Inl e" "E e"
  using assms by (cases r) auto

lemma res_spec_bind:
  assumes "res_spec E P m" "\<And>x. P x \<Longrightarrow> m = Inr x \<Longrightarrow> res_spec E Q (f x)"
  shows "res_spec E Q (bind_res m f)"
  using assms by (cases m) auto

lemma res_spec_mono:
  assumes "res_spec E P r" "\<And>x. P x \<Longrightarrow> Q x" "\<And>e. E e \<Longrightarrow> F e"
  shows "res_spec F Q r"
  using assms by (cases r) auto

lemma res_spec_ensure [simp]: "res_spec E P (ensure b e) \<longleftrightarrow> (if b then P () else E e)"
  by (simp add: ensure_def)

lemma res_spec_ok_or [simp]:
  "res_spec E P (ok_or m e) \<longleftrightarrow> (case m of None \<Rightarrow> E e | Some x \<Rightarrow> P x)"
  by (cases m) simp_all

lemma res_spec_fold:
  assumes "I [] s"
    and "\<And>xs' x rest u. xs = xs' @ x # rest \<Longrightarrow> I xs' u \<Longrightarrow> res_spec E (I (xs' @ [x])) (f x u)"
  shows "res_spec E (I xs) (fold_res f xs s)"
proof -
  have "res_spec E (I (xs' @ rest)) (fold_res f rest u)" if "xs = xs' @ rest" "I xs' u" for xs' rest u
    using that
  proof (induction rest arbitrary: xs' u)
    case Nil
    then show ?case by simp
  next
    case (Cons x rest)
    have "res_spec E (I (xs' @ [x])) (f x u)" using assms(2) Cons.prems by blast
    then show ?case using Cons.IH [of "xs' @ [x]"] Cons.prems(1)
      by (auto intro!: res_spec_bind)
  qed
  from this [of "[]"] assms(1) show ?thesis by simp
qed

text \<open>The same for a loop over an interval, with the index reached as the ghost state.\<close>

lemma res_spec_fold_upt:
  assumes "I 0 s" and "\<And>i u. i < n \<Longrightarrow> I i u \<Longrightarrow> res_spec E (I (Suc i)) (f i u)"
  shows "res_spec E (I n) (fold_res f [0..<n] s)"
proof -
  have "res_spec E (\<lambda>u. I (length [0..<n]) u) (fold_res f [0..<n] s)"
  proof (rule res_spec_fold [where I = "\<lambda>xs. I (length xs)"])
    fix xs' x rest u assume x: "[0..<n] = xs' @ x # rest" and u: "I (length xs') u"
    have l: "length xs' < n" using arg_cong [OF x, of length] by simp
    then have "[0..<n] ! length xs' = length xs'" by simp
    then have "x = length xs'" unfolding x by simp
    with l show "res_spec E (I (length (xs' @ [x]))) (f x u)" using assms(2) [of x u] u by simp
  qed (use assms(1) in simp)
  then show ?thesis by simp
qed

section \<open>Lists\<close>

lemma concat_map_concat: "concat (map f (concat xss)) = concat (map (\<lambda>xs. concat (map f xs)) xss)"
  by (induction xss) simp_all

text \<open>Grouping a list by the value of a function only reorders it.\<close>

lemma mset_group_by:
  assumes "\<forall>x \<in> set xs. g x < N"
  shows "mset (concat (map (\<lambda>n. filter (\<lambda>x. g x = n) xs) [0..<N])) = mset xs"
  using assms
proof (induction xs)
  case Nil
  have "concat (map (\<lambda>n. []) ns) = []" for ns :: "nat list" by (induction ns) simp_all
  then show ?case by simp
next
  case (Cons x xs)
  have add: "mset (concat (map (\<lambda>n. filter (\<lambda>y. g y = n) (x # xs)) ns)) =
      mset (concat (map (\<lambda>n. filter (\<lambda>y. g y = n) xs) ns)) + (if g x \<in> set ns then {#x#} else {#})"
    if "distinct ns" for ns
    using that by (induction ns) auto
  show ?case using add [of "[0..<N]"] Cons by simp
qed

section \<open>Checked integer arithmetic\<close>

text \<open>\<open>usize\<close> is 64 bits wide; lengths and in-memory indexes are \<open>nat\<close>.\<close>

definition usize_max :: nat where
  "usize_max = 2 ^ 64 - 1"

definition checked_add_usize :: "nat \<Rightarrow> nat \<Rightarrow> nat option" where
  "checked_add_usize a b = (if a + b \<le> usize_max then Some (a + b) else None)"

definition checked_mul_usize :: "nat \<Rightarrow> nat \<Rightarrow> nat option" where
  "checked_mul_usize a b = (if a * b \<le> usize_max then Some (a * b) else None)"

definition checked_add :: "'a::len word \<Rightarrow> 'a word \<Rightarrow> 'a word option" where
  "checked_add a b = (if unat a + unat b < 2 ^ LENGTH('a) then Some (a + b) else None)"

definition checked_sub :: "'a::len word \<Rightarrow> 'a word \<Rightarrow> 'a word option" where
  "checked_sub a b = (if b \<le> a then Some (a - b) else None)"

definition saturating_add :: "'a::len word \<Rightarrow> 'a word \<Rightarrow> 'a word" where
  "saturating_add a b = (if unat a + unat b < 2 ^ LENGTH('a) then a + b else - 1)"

definition saturating_sub :: "'a::len word \<Rightarrow> 'a word \<Rightarrow> 'a word" where
  "saturating_sub a b = (if b \<le> a then a - b else 0)"

lemma unat_bound: "unat (w :: 'a::len word) < 2 ^ LENGTH('a)"
  by simp

lemma unat_of_nat_small: "n < 2 ^ LENGTH('a) \<Longrightarrow> unat (of_nat n :: 'a::len word) = n"
  by (simp add: unat_of_nat)

lemma checked_add_Some:
  "checked_add a b = Some c \<Longrightarrow> unat c = unat a + unat b"
  by (auto simp: checked_add_def unat_word_ariths split: if_splits)

lemma checked_add_Some_iff:
  fixes a b :: "'a::len word"
  shows "checked_add a b = Some c \<longleftrightarrow>
    unat a + unat b < 2 ^ LENGTH('a) \<and> unat c = unat a + unat b"
  by (auto simp: checked_add_def unat_word_ariths word_unat_eq_iff)

lemma checked_sub_Some_iff:
  "checked_sub a b = Some c \<longleftrightarrow> unat b \<le> unat a \<and> unat c = unat a - unat b"
  by (auto simp: checked_sub_def word_le_nat_alt unat_sub word_unat_eq_iff)

definition checked_add_i32 :: "i32 \<Rightarrow> i32 \<Rightarrow> i32 option" where
  "checked_add_i32 a b =
     (let r = sint a + sint b in if - (2 ^ 31) \<le> r \<and> r < 2 ^ 31 then Some (a + b) else None)"

definition checked_mul_i32 :: "i32 \<Rightarrow> i32 \<Rightarrow> i32 option" where
  "checked_mul_i32 a b =
     (let r = sint a * sint b in if - (2 ^ 31) \<le> r \<and> r < 2 ^ 31 then Some (a * b) else None)"

lemma sint_in_range_i32: "- (2 ^ 31) \<le> sint (x :: i32) \<and> sint x < 2 ^ 31"
  using sint_range_size [of x] by (simp add: word_size)

lemma sint_eqI: "sint v = sint w \<Longrightarrow> v = w"
  by (rule signed_word_eqI)

lemma sint_eq_take:
  fixes x :: i32
  assumes "- (2 ^ 31) \<le> r" "r < 2 ^ 31"
  shows "sint (word_of_int r :: i32) = r"
  using assms signed_take_bit_int_eq_self [of 31 r] by (simp add: sint_sbintrunc')

lemma checked_add_i32_Some_iff:
  "checked_add_i32 a b = Some c \<longleftrightarrow>
    - (2 ^ 31) \<le> sint a + sint b \<and> sint a + sint b < 2 ^ 31 \<and> sint c = sint a + sint b"
proof -
  have eq: "a + b = word_of_int (sint a + sint b)" by simp
  show ?thesis
  proof (cases "- (2 ^ 31) \<le> sint a + sint b \<and> sint a + sint b < 2 ^ 31")
    case True
    then have "sint (a + b) = sint a + sint b"
      unfolding eq by (intro sint_eq_take) auto
    with True show ?thesis
      unfolding checked_add_i32_def Let_def by (metis option.inject sint_eqI)
  next
    case False
    then show ?thesis unfolding checked_add_i32_def Let_def by auto
  qed
qed

lemma checked_mul_i32_Some_iff:
  "checked_mul_i32 a b = Some c \<longleftrightarrow>
    - (2 ^ 31) \<le> sint a * sint b \<and> sint a * sint b < 2 ^ 31 \<and> sint c = sint a * sint b"
proof -
  have eq: "a * b = word_of_int (sint a * sint b)" by simp
  show ?thesis
  proof (cases "- (2 ^ 31) \<le> sint a * sint b \<and> sint a * sint b < 2 ^ 31")
    case True
    then have "sint (a * b) = sint a * sint b"
      unfolding eq by (intro sint_eq_take) auto
    with True show ?thesis
      unfolding checked_mul_i32_def Let_def by (metis option.inject sint_eqI)
  next
    case False
    then show ?thesis unfolding checked_mul_i32_def Let_def by auto
  qed
qed

text \<open>Conversions between the integer types.\<close>

definition i32_of_u8 :: "u8 \<Rightarrow> i32" where
  "i32_of_u8 b = of_nat (unat b)"

definition u32_try_from_i32 :: "i32 \<Rightarrow> u32 option" where
  "u32_try_from_i32 x = (if 0 \<le> sint x then Some x else None)"

text \<open>\<open>u64::try_from(i32)\<close> and \<open>i32::try_from(u64)\<close>.\<close>

definition u64_try_from_i32 :: "i32 \<Rightarrow> u64 option" where
  "u64_try_from_i32 x = (if 0 \<le> sint x then Some (word_of_int (sint x)) else None)"

definition i32_try_from_u64 :: "u64 \<Rightarrow> i32 option" where
  "i32_try_from_u64 x = (if unat x < 2 ^ 31 then Some (of_nat (unat x)) else None)"

lemma u64_try_from_i32_Some_iff:
  "u64_try_from_i32 x = Some y \<longleftrightarrow> 0 \<le> sint x \<and> unat y = nat (sint x)"
proof -
  have "0 \<le> sint x \<Longrightarrow> unat (word_of_int (sint x) :: u64) = nat (sint x)"
    using sint_in_range_i32 [of x] unat_of_nat_small [of "nat (sint x)", where 'a = 64]
    by (simp add: of_nat_nat)
  then show ?thesis
    by (auto simp: u64_try_from_i32_def word_unat_eq_iff)
qed

lemma sint_of_small_nat:
  assumes "n < 2 ^ 31"
  shows "sint (of_nat n :: i32) = int n"
proof -
  have "sint (word_of_int (int n) :: i32) = int n"
    using assms by (intro sint_eq_take) auto
  then show ?thesis by simp
qed

lemma i32_try_from_u64_Some_iff:
  "i32_try_from_u64 x = Some y \<longleftrightarrow> unat x < 2 ^ 31 \<and> sint y = int (unat x)"
proof -
  have "unat x < 2 ^ 31 \<Longrightarrow> sint (of_nat (unat x) :: i32) = int (unat x)"
    by (rule sint_of_small_nat)
  then show ?thesis
    unfolding i32_try_from_u64_def by (metis option.inject option.distinct(1) sint_eqI)
qed

section \<open>Little-endian bytes\<close>

fun le_bytes :: "nat \<Rightarrow> nat \<Rightarrow> u8 list" where
  "le_bytes 0 v = []"
| "le_bytes (Suc n) v = of_nat (v mod 256) # le_bytes n (v div 256)"

fun le_nat :: "u8 list \<Rightarrow> nat" where
  "le_nat [] = 0"
| "le_nat (b # bs) = unat b + 256 * le_nat bs"

lemma length_le_bytes [simp]: "length (le_bytes n v) = n"
  by (induction n arbitrary: v) simp_all

lemma le_nat_le_bytes: "le_nat (le_bytes n v) = v mod 256 ^ n"
proof (induction n arbitrary: v)
  case 0
  then show ?case by simp
next
  case (Suc n)
  have "unat (of_nat (v mod 256) :: u8) = v mod 256"
    by (simp add: unat_of_nat)
  with Suc show ?case by (simp add: mod_mult2_eq)
qed

lemma le_nat_bound: "le_nat bs < 256 ^ length bs"
proof (induction bs)
  case Nil
  then show ?case by simp
next
  case (Cons b bs)
  have "unat b < 256" using unat_bound [of b] by simp
  with Cons show ?case by simp
qed

lemma le_bytes_le_nat: "le_bytes (length bs) (le_nat bs) = bs"
proof (induction bs)
  case Nil
  then show ?case by simp
next
  case (Cons b bs)
  have b: "unat b < 256" using unat_bound [of b] by simp
  then have "(unat b + 256 * le_nat bs) mod 256 = unat b"
    and "(unat b + 256 * le_nat bs) div 256 = le_nat bs" by simp_all
  with Cons show ?case by simp
qed

definition u16_to_le :: "u16 \<Rightarrow> u8 list" where
  "u16_to_le w = le_bytes 2 (unat w)"

definition u32_to_le :: "u32 \<Rightarrow> u8 list" where
  "u32_to_le w = le_bytes 4 (unat w)"

definition u64_to_le :: "u64 \<Rightarrow> u8 list" where
  "u64_to_le w = le_bytes 8 (unat w)"

definition u16_from_le :: "u8 list \<Rightarrow> u16" where
  "u16_from_le bs = of_nat (le_nat bs)"

definition u32_from_le :: "u8 list \<Rightarrow> u32" where
  "u32_from_le bs = of_nat (le_nat bs)"

definition u64_from_le :: "u8 list \<Rightarrow> u64" where
  "u64_from_le bs = of_nat (le_nat bs)"

lemma length_to_le [simp]:
  "length (u16_to_le a) = 2" "length (u32_to_le b) = 4" "length (u64_to_le c) = 8"
  by (simp_all add: u16_to_le_def u32_to_le_def u64_to_le_def)

lemma le_nat_to_le_unat:
  fixes w :: "'a::len word"
  assumes "256 ^ n = (2 ^ LENGTH('a) :: nat)"
  shows "le_nat (le_bytes n (unat w)) = unat w"
  using unat_bound [of w] assms by (simp add: le_nat_le_bytes)

lemma from_to_le [simp]:
  "u16_from_le (u16_to_le a) = a" "u32_from_le (u32_to_le b) = b" "u64_from_le (u64_to_le c) = c"
  by (simp_all add: u16_from_le_def u16_to_le_def u32_from_le_def u32_to_le_def u64_from_le_def
      u64_to_le_def le_nat_to_le_unat)

lemma to_from_le:
  "length bs = 2 \<Longrightarrow> u16_to_le (u16_from_le bs) = bs"
  "length bs = 4 \<Longrightarrow> u32_to_le (u32_from_le bs) = bs"
  "length bs = 8 \<Longrightarrow> u64_to_le (u64_from_le bs) = bs"
  using le_bytes_le_nat [of bs] le_nat_bound [of bs]
  by (auto simp: u16_from_le_def u16_to_le_def u32_from_le_def u32_to_le_def u64_from_le_def
      u64_to_le_def unat_of_nat)

section \<open>Slices of byte buffers\<close>

text \<open>
  \<open>bslice xs a n\<close> is \<^verbatim>\<open>&xs[a..a + n]\<close>; \<open>put_at xs a ys\<close> is
  \<^verbatim>\<open>xs[a..a + ys.len()].copy_from_slice(ys)\<close>. The callers check the range first, as the code
  does.
\<close>

definition bslice :: "'a list \<Rightarrow> nat \<Rightarrow> nat \<Rightarrow> 'a list" where
  "bslice xs a n = take n (drop a xs)"

definition put_at :: "'a list \<Rightarrow> nat \<Rightarrow> 'a list \<Rightarrow> 'a list" where
  "put_at xs a ys = take a xs @ ys @ drop (a + length ys) xs"

lemma put_at_append:
  "length pre = a \<Longrightarrow> put_at (pre @ rest) a ys = pre @ ys @ drop (length ys) rest"
  by (simp add: put_at_def)

lemma length_bslice [simp]: "length (bslice xs a n) = min n (length xs - a)"
  by (simp add: bslice_def)

lemma length_put_at [simp]: "a + length ys \<le> length xs \<Longrightarrow> length (put_at xs a ys) = length xs"
  by (simp add: put_at_def)

lemma bslice_put_at_same:
  assumes "a + length ys \<le> length xs" "n = length ys"
  shows "bslice (put_at xs a ys) a n = ys"
  using assms by (simp add: bslice_def put_at_def)

lemma bslice_put_at_before:
  assumes "a + length ys \<le> length xs" "b + n \<le> a"
  shows "bslice (put_at xs a ys) b n = bslice xs b n"
proof -
  have "take n (drop b (take a xs @ ys @ drop (a + length ys) xs)) =
      take n (drop b (take a xs))"
    using assms by simp
  also have "\<dots> = take n (drop b xs)"
    using assms by (simp add: drop_take min_def)
  finally show ?thesis by (simp add: bslice_def put_at_def)
qed

lemma bslice_put_at_after:
  assumes "a + length ys \<le> length xs" "a + length ys \<le> b"
  shows "bslice (put_at xs a ys) b n = bslice xs b n"
proof -
  have "drop b (take a xs @ ys @ drop (a + length ys) xs) = drop b xs"
    using assms by (simp add: min_def)
  then show ?thesis by (simp add: bslice_def put_at_def)
qed

lemma bslice_append_left: "a + n \<le> length xs \<Longrightarrow> bslice (xs @ ys) a n = bslice xs a n"
  by (simp add: bslice_def)

lemma bslice_append_right: "length xs \<le> a \<Longrightarrow> bslice (xs @ ys) a n = bslice ys (a - length xs) n"
  by (simp add: bslice_def)

lemma bslice_bslice: "b + m \<le> n \<Longrightarrow> bslice (bslice xs a n) b m = bslice xs (a + b) m"
  by (simp add: bslice_def drop_take min_def add.commute)

lemma nth_bslice: "i < n \<Longrightarrow> a + n \<le> length xs \<Longrightarrow> bslice xs a n ! i = xs ! (a + i)"
  by (simp add: bslice_def)

lemma bslice_sub:
  assumes "bslice f p (length bs) = bs" "a + n \<le> length bs" "q = p + a"
  shows "bslice f q n = bslice bs a n"
  using assms bslice_bslice [of a n "length bs" f p] by simp

lemma bslice_all: "n = length xs \<Longrightarrow> bslice xs 0 n = xs"
  by (simp add: bslice_def)

lemma bslice_concat:
  "b = a + m \<Longrightarrow> bslice xs a m @ bslice xs b n = bslice xs a (m + n)"
  "b = a + m \<Longrightarrow> bslice xs a m @ bslice xs b n @ ys = bslice xs a (m + n) @ ys"
  by (simp_all add: bslice_def take_add add.commute)

lemma bslice_append_exact: "length xs = a \<Longrightarrow> length ys = n \<Longrightarrow> bslice (xs @ ys @ zs) a n = ys"
  by (simp add: bslice_def)

end
