(* ===== verification/Floats.thy ===== *)
theory Floats
  imports Prelude "HOL-Library.Log_Nat"
begin

text \<open>
  IEEE 754 binary floating point, as far as the code computes with \<^verbatim>\<open>f64\<close> and \<^verbatim>\<open>f32\<close>. A float is
  its bit pattern; its finite value is a rational number, and every operation rounds the exact
  rational result to nearest, ties to even. A bit pattern without its sign is its magnitude, a
  natural number, and the magnitudes are ordered as the values are, so the comparisons need no
  arithmetic. Everything computes.

  Where Rust leaves the result open the model picks one: a NaN result is the positive quiet NaN
  with an empty payload, and \<^verbatim>\<open>min\<close>/\<^verbatim>\<open>max\<close> of two equal zeros is the first.
\<close>

section \<open>Formats and magnitudes\<close>

record float_format =
  mant_bits :: nat
  exp_bits :: nat

definition binary64 :: float_format where
  "binary64 = \<lparr>mant_bits = 52, exp_bits = 11\<rparr>"

definition binary32 :: float_format where
  "binary32 = \<lparr>mant_bits = 23, exp_bits = 8\<rparr>"

text \<open>The exponent of the smallest positive value: every finite value is a multiple of it.\<close>

definition emin :: "float_format \<Rightarrow> int" where
  "emin f = 2 - 2 ^ (exp_bits f - 1) - int (mant_bits f)"

definition inf_mag :: "float_format \<Rightarrow> nat" where
  "inf_mag f = (2 ^ exp_bits f - 1) * 2 ^ mant_bits f"

definition mag_val :: "float_format \<Rightarrow> nat \<Rightarrow> rat" where
  "mag_val f m =
     (let p = 2 ^ mant_bits f
      in if m < p then of_nat m * 2 powi emin f
         else of_nat (p + m mod p) * 2 powi (emin f + int (m div p) - 1))"

section \<open>Rounding\<close>

text \<open>The binary exponent of a positive rational, and rounding to an integer, ties to even.\<close>

definition ilog2 :: "rat \<Rightarrow> int" where
  "ilog2 r =
     (let (n, d) = quotient_of r;
          k = int (floorlog 2 (nat n)) - int (floorlog 2 (nat d))
      in if 2 powi k \<le> r then k else k - 1)"

definition rne :: "rat \<Rightarrow> int" where
  "rne r =
     (let k = \<lfloor>r\<rfloor>; d = r - of_int k
      in if d < 1 / 2 then k else if 1 / 2 < d then k + 1 else if even k then k else k + 1)"

definition round_mag :: "float_format \<Rightarrow> rat \<Rightarrow> nat" where
  "round_mag f r =
     (if r \<le> 0 then 0
      else let t = max (emin f) (ilog2 r - int (mant_bits f))
           in min (inf_mag f) (nat ((t - emin f) * 2 ^ mant_bits f + rne (r / 2 powi t))))"

lemma rne_of_int_le: "of_int k \<le> r \<Longrightarrow> k \<le> rne r"
  using le_floor_iff [of k r] by (auto simp: rne_def Let_def)

lemma rne_le_of_int: "r \<le> of_int k \<Longrightarrow> rne r \<le> k"
proof -
  assume r: "r \<le> of_int k"
  show ?thesis
  proof (cases "\<lfloor>r\<rfloor> < k")
    case True
    then show ?thesis by (auto simp: rne_def Let_def)
  next
    case False
    with r have "\<lfloor>r\<rfloor> = k" and "r = of_int k"
      by (smt (verit) floor_mono floor_of_int, smt (verit) floor_less_iff floor_of_int floor_mono
          dual_order.antisym le_floor_iff linorder_not_less)
    then show ?thesis by (simp add: rne_def)
  qed
qed

lemma rne_of_int [simp]: "rne (of_int k) = k"
  by (simp add: rne_def)

lemma rne_mono: "r \<le> s \<Longrightarrow> rne r \<le> rne s"
proof -
  assume rs: "r \<le> s"
  consider "\<lfloor>r\<rfloor> < \<lfloor>s\<rfloor>" | "\<lfloor>r\<rfloor> = \<lfloor>s\<rfloor>"
    using floor_mono [OF rs] by linarith
  then show ?thesis
  proof cases
    case 1
    have "r \<le> of_int \<lfloor>s\<rfloor>" using 1 by (simp add: floor_less_iff order_less_imp_le)
    then have "rne r \<le> \<lfloor>s\<rfloor>" by (rule rne_le_of_int)
    also have "\<dots> \<le> rne s" by (rule rne_of_int_le) simp
    finally show ?thesis .
  next
    case 2
    with rs show ?thesis by (auto simp: rne_def Let_def)
  qed
qed

lemma powi_add_rat: "(2::rat) powi (a + b) = 2 powi a * 2 powi b"
  by (simp add: power_int_add)

lemma powi_Suc_rat: "(2::rat) powi (1 + a) = 2 * 2 powi a"
  by (simp add: power_int_add)

lemma powi_pos_rat [simp]: "0 < (2::rat) powi a"
  by (simp add: zero_less_power_int)

lemma powi_mono_rat: "a \<le> b \<Longrightarrow> (2::rat) powi a \<le> 2 powi b"
  by (simp add: power_int_increasing)

lemma powi_of_nat_rat: "(2::rat) powi (int n) = 2 ^ n"
  by simp

lemma floorlog_bounds_rat:
  assumes "0 < n"
  shows "(2::rat) powi (int (floorlog 2 n) - 1) \<le> of_nat n" and "(of_nat n :: rat) < 2 powi int (floorlog 2 n)"
proof -
  have f: "0 < floorlog 2 n" using assms by (simp add: floorlog_def)
  have lo: "2 ^ (floorlog 2 n - 1) \<le> n" and hi: "n < 2 ^ floorlog 2 n"
    using floorlog_bounds [of n 2] assms by auto
  have "(of_nat (2 ^ (floorlog 2 n - 1)) :: rat) \<le> of_nat n" using lo by (simp only: of_nat_le_iff)
  moreover have "(2::rat) powi (int (floorlog 2 n) - 1) = of_nat (2 ^ (floorlog 2 n - 1))"
    using f powi_of_nat_rat [of "floorlog 2 n - 1"] by (simp add: of_nat_diff)
  ultimately show "(2::rat) powi (int (floorlog 2 n) - 1) \<le> of_nat n" by simp
  have "(of_nat n :: rat) < of_nat (2 ^ floorlog 2 n)" using hi by (simp only: of_nat_less_iff)
  then show "(of_nat n :: rat) < 2 powi int (floorlog 2 n)" by simp
qed

lemma ilog2_bounds:
  assumes r: "0 < r"
  shows "2 powi ilog2 r \<le> r" and "r < 2 powi (ilog2 r + 1)"
proof -
  obtain n d where q: "quotient_of r = (n, d)" by (cases "quotient_of r")
  have d: "0 < d" using quotient_of_denom_pos [OF q] .
  have rq: "r = of_int n / of_int d" using quotient_of_div [OF q] .
  have n: "0 < n" using r d by (simp add: rq zero_less_divide_iff)
  define a where "a = int (floorlog 2 (nat n))"
  define b where "b = int (floorlog 2 (nat d))"
  have na: "2 powi (a - 1) \<le> (of_int n :: rat)" "(of_int n :: rat) < 2 powi a"
    using floorlog_bounds_rat [of "nat n"] n by (simp_all add: a_def)
  have db: "2 powi (b - 1) \<le> (of_int d :: rat)" "(of_int d :: rat) < 2 powi b"
    using floorlog_bounds_rat [of "nat d"] d by (simp_all add: b_def)
  have dpos: "(0::rat) < of_int d" using d by simp
  have lo: "2 powi (a - b - 1) \<le> r"
  proof -
    have "2 powi (a - b - 1) * (of_int d :: rat) \<le> 2 powi (a - b - 1) * 2 powi b"
      using db(2) by (intro mult_left_mono) (simp_all add: less_imp_le)
    also have "\<dots> = 2 powi (a - 1)" by (simp flip: powi_add_rat)
    also have "\<dots> \<le> of_int n" by (rule na(1))
    finally show ?thesis using dpos by (simp add: rq pos_le_divide_eq)
  qed
  have hi: "r < 2 powi (a - b + 1)"
  proof -
    have "(of_int n :: rat) < 2 powi (a - b + 1) * 2 powi (b - 1)"
      using na(2) by (simp flip: powi_add_rat)
    also have "\<dots> \<le> 2 powi (a - b + 1) * of_int d"
      using db(1) by (intro mult_left_mono) (simp_all add: less_imp_le)
    finally show ?thesis using dpos by (simp add: rq pos_divide_less_eq)
  qed
  have eq: "ilog2 r = (if 2 powi (a - b) \<le> r then a - b else a - b - 1)"
    by (simp add: ilog2_def q a_def b_def)
  show "2 powi ilog2 r \<le> r" using lo by (auto simp: eq)
  show "r < 2 powi (ilog2 r + 1)" using hi by (auto simp: eq)
qed

lemma powi_less_cancel_rat: "(2::rat) powi a < 2 powi b \<Longrightarrow> a < b"
  using powi_mono_rat [of b a] by fastforce

lemma ilog2_unique:
  assumes "2 powi k \<le> r" "r < 2 powi (k + 1)"
  shows "ilog2 r = k"
proof -
  have r: "0 < r" using assms(1) powi_pos_rat [of k] by linarith
  have "(2::rat) powi k < 2 powi (ilog2 r + 1)" using assms(1) ilog2_bounds(2) [OF r] by linarith
  then have "k < ilog2 r + 1" by (rule powi_less_cancel_rat)
  moreover have "(2::rat) powi ilog2 r < 2 powi (k + 1)" using assms(2) ilog2_bounds(1) [OF r] by linarith
  then have "ilog2 r < k + 1" by (rule powi_less_cancel_rat)
  ultimately show ?thesis by linarith
qed

lemma ilog2_mono:
  assumes "0 < r" "r \<le> s"
  shows "ilog2 r \<le> ilog2 s"
proof -
  have "(2::rat) powi ilog2 r < 2 powi (ilog2 s + 1)"
    using ilog2_bounds(1) [OF assms(1)] ilog2_bounds(2) [of s] assms by linarith
  then show ?thesis using powi_less_cancel_rat by fastforce
qed

text \<open>The significand before the final carry, and the two facts that make rounding monotone.\<close>

definition round_exp :: "float_format \<Rightarrow> rat \<Rightarrow> int" where
  "round_exp f r = max (emin f) (ilog2 r - int (mant_bits f))"

lemma round_mag_pos:
  "0 < r \<Longrightarrow> round_mag f r = min (inf_mag f)
     (nat ((round_exp f r - emin f) * 2 ^ mant_bits f + rne (r / 2 powi round_exp f r)))"
  by (simp add: round_mag_def round_exp_def Let_def)

lemma significand_upper:
  assumes "0 < r"
  shows "rne (r / 2 powi round_exp f r) \<le> 2 * 2 ^ mant_bits f"
proof (rule rne_le_of_int)
  have "ilog2 r + 1 \<le> 1 + int (mant_bits f) + round_exp f r"
    by (simp add: round_exp_def)
  then have "r \<le> 2 powi (1 + int (mant_bits f) + round_exp f r)"
    using ilog2_bounds(2) [OF assms] powi_mono_rat by (meson less_imp_le order_trans)
  also have "\<dots> = of_int (2 * 2 ^ mant_bits f) * 2 powi round_exp f r"
    by (simp add: power_int_add)
  finally show "r / 2 powi round_exp f r \<le> of_int (2 * 2 ^ mant_bits f)"
    by (simp add: pos_divide_le_eq)
qed

lemma significand_lower:
  assumes "0 < r" "emin f < round_exp f r"
  shows "2 ^ mant_bits f \<le> rne (r / 2 powi round_exp f r)"
proof (rule rne_of_int_le)
  have eq: "ilog2 r = int (mant_bits f) + round_exp f r"
    using assms(2) by (simp add: round_exp_def split: if_splits)
  have "(2::rat) powi ilog2 r = of_int (2 ^ mant_bits f) * 2 powi round_exp f r"
    by (simp add: eq power_int_add)
  then show "of_int (2 ^ mant_bits f) \<le> r / 2 powi round_exp f r"
    using ilog2_bounds(1) [OF assms(1)] by (simp add: pos_le_divide_eq)
qed

lemma significand_nonneg: "0 < r \<Longrightarrow> 0 \<le> rne (r / 2 powi round_exp f r)"
  by (rule rne_of_int_le) simp

lemma round_exp_ge: "emin f \<le> round_exp f r"
  by (simp add: round_exp_def)

lemma round_mag_mono:
  assumes "r \<le> s"
  shows "round_mag f r \<le> round_mag f s"
proof (cases "0 < r")
  case False
  then show ?thesis by (simp add: round_mag_def)
next
  case True
  then have s: "0 < s" using assms by linarith
  let ?p = "2 ^ mant_bits f :: int"
  let ?tr = "round_exp f r" let ?ts = "round_exp f s"
  have t: "?tr \<le> ?ts"
    using ilog2_mono [OF True assms] by (simp add: round_exp_def max.coboundedI2)
  have "(?tr - emin f) * ?p + rne (r / 2 powi ?tr) \<le> (?ts - emin f) * ?p + rne (s / 2 powi ?ts)"
  proof (cases "?tr = ?ts")
    case True
    have "r / 2 powi ?ts \<le> s / 2 powi ?ts"
      using assms by (simp add: divide_right_mono less_imp_le)
    then show ?thesis using rne_mono True by simp
  next
    case False
    with t have lt: "?tr < ?ts" by simp
    then have "?p * 1 \<le> ?p * (?ts - ?tr)" by (intro mult_left_mono) auto
    moreover have "rne (r / 2 powi ?tr) \<le> 2 * ?p" by (rule significand_upper [OF True])
    moreover have "?p \<le> rne (s / 2 powi ?ts)"
      using lt round_exp_ge [of f r] by (intro significand_lower [OF s]) simp
    ultimately show ?thesis by (simp add: algebra_simps)
  qed
  then show ?thesis
    using True s by (simp add: round_mag_pos nat_mono min.coboundedI2)
qed

lemma round_mag_le_inf: "round_mag f r \<le> inf_mag f"
  by (simp add: round_mag_def Let_def)

lemma mag_val_nonneg: "0 \<le> mag_val f m"
  by (simp add: mag_val_def Let_def less_imp_le)

lemma mag_val_0 [simp]: "mag_val f 0 = 0"
  by (simp add: mag_val_def)

text \<open>Rounding is exact on representable values.\<close>

lemma round_mag_mag_val: "round_mag f (mag_val f m) = min (inf_mag f) m"
proof -
  let ?p = "2 ^ mant_bits f :: nat"
  consider "m = 0" | "0 < m" "m < ?p" | "?p \<le> m" by linarith
  then show ?thesis
  proof cases
    case 1
    then show ?thesis by (simp add: round_mag_def)
  next
    case 2
    have v: "mag_val f m = of_nat m * 2 powi emin f" using 2 by (simp add: mag_val_def)
    then have pos: "0 < mag_val f m" using 2 by simp
    have "mag_val f m < 2 powi (int (mant_bits f) + emin f)"
    proof -
      have "(of_nat m :: rat) < of_nat ?p" using 2 by (simp only: of_nat_less_iff)
      then show ?thesis by (simp add: v power_int_add)
    qed
    then have "(2::rat) powi ilog2 (mag_val f m) < 2 powi (int (mant_bits f) + emin f)"
      using ilog2_bounds(1) [OF pos] by linarith
    then have "ilog2 (mag_val f m) < int (mant_bits f) + emin f" by (rule powi_less_cancel_rat)
    then have t: "round_exp f (mag_val f m) = emin f" by (simp add: round_exp_def)
    have "mag_val f m / 2 powi emin f = of_int (int m)" by (simp add: v)
    then show ?thesis using pos by (simp add: round_mag_pos t del: of_int_of_nat_eq)
  next
    case 3
    define q where "q = m div ?p"
    define r where "r = m mod ?p"
    have m: "m = q * ?p + r" unfolding q_def r_def by (rule div_mult_mod_eq [symmetric])
    have r: "r < ?p" by (simp add: r_def)
    have q: "1 \<le> q" using 3 by (simp add: q_def div_greater_zero_iff Suc_le_eq)
    have v: "mag_val f m = of_nat (?p + r) * 2 powi (emin f + int q - 1)"
      using 3 by (simp add: mag_val_def Let_def q_def r_def)
    then have pos: "0 < mag_val f m" by (simp add: add_pos_nonneg)
    have "ilog2 (mag_val f m) = int (mant_bits f) + (emin f + int q - 1)"
    proof (rule ilog2_unique)
      have "(of_nat ?p :: rat) \<le> of_nat (?p + r)" by (simp only: of_nat_le_iff)
      then show "2 powi (int (mant_bits f) + (emin f + int q - 1)) \<le> mag_val f m"
        unfolding v powi_add_rat [of "int (mant_bits f)"] powi_of_nat_rat
        by (intro mult_right_mono) (simp_all add: less_imp_le)
      have "(of_nat (?p + r) :: rat) < of_nat (2 * ?p)" using r by (simp only: of_nat_less_iff)
      then have "mag_val f m < (2 * 2 ^ mant_bits f) * 2 powi (emin f + int q - 1)"
        unfolding v by (intro mult_strict_right_mono) simp_all
      also have "\<dots> = 2 powi (int (mant_bits f) + (1 + (emin f + int q - 1)))"
        unfolding powi_add_rat [of "int (mant_bits f)"] powi_Suc_rat by simp
      also have "\<dots> = 2 powi (int (mant_bits f) + (emin f + int q - 1) + 1)"
        by (simp add: add_ac)
      finally show "mag_val f m < 2 powi (int (mant_bits f) + (emin f + int q - 1) + 1)" .
    qed
    then have t: "round_exp f (mag_val f m) = emin f + int q - 1"
      using q by (simp add: round_exp_def)
    have "mag_val f m / 2 powi (emin f + int q - 1) = of_int (int (?p + r))" by (simp add: v)
    then have "round_mag f (mag_val f m) =
        min (inf_mag f) (nat ((int q - 1) * 2 ^ mant_bits f + int (?p + r)))"
      using pos by (simp add: round_mag_pos t del: of_int_of_nat_eq of_nat_add)
    also have "(int q - 1) * 2 ^ mant_bits f + int (?p + r) = int m"
      by (simp add: m algebra_simps)
    finally show ?thesis by simp
  qed
qed

lemma mag_val_inj:
  assumes "mag_val f m = mag_val f n" "m \<le> inf_mag f" "n \<le> inf_mag f"
  shows "m = n"
  using assms by (metis min.absorb2 round_mag_mag_val)

lemma mag_val_mono:
  assumes "m \<le> n"
  shows "mag_val f m \<le> mag_val f n"
proof -
  let ?p = "2 ^ mant_bits f :: nat"
  have lin: "of_nat a * (2::rat) powi e \<le> of_nat b * 2 powi e" if "a \<le> b" for a b e
    using that by (intro mult_right_mono) (simp_all add: less_imp_le)
  consider "n < ?p" | "m < ?p" "?p \<le> n" | "?p \<le> m" using assms by linarith
  then show ?thesis
  proof cases
    case 1
    then show ?thesis using assms lin [of m n] by (simp add: mag_val_def)
  next
    case 2
    then have q: "1 \<le> n div ?p" by (simp add: div_greater_zero_iff Suc_le_eq)
    have "of_nat m * (2::rat) powi emin f \<le> of_nat (?p + n mod ?p) * 2 powi emin f"
      using 2 by (intro lin) simp
    also have "\<dots> \<le> of_nat (?p + n mod ?p) * 2 powi (emin f + int (n div ?p) - 1)"
      using q by (intro mult_left_mono powi_mono_rat) simp_all
    finally show ?thesis using 2 by (simp add: mag_val_def Let_def)
  next
    case 3
    let ?a = "emin f + int (m div ?p) - 1" let ?b = "emin f + int (n div ?p) - 1"
    have v: "mag_val f m = of_nat (?p + m mod ?p) * 2 powi ?a"
      "mag_val f n = of_nat (?p + n mod ?p) * 2 powi ?b"
      using 3 assms by (simp_all add: mag_val_def Let_def)
    have "m div ?p \<le> n div ?p" using assms by (rule div_le_mono)
    then consider "m div ?p = n div ?p" | "m div ?p < n div ?p" by linarith
    then show ?thesis
    proof cases
      case 1
      have "m mod ?p \<le> n mod ?p"
        using assms 1 div_mult_mod_eq [of m ?p] div_mult_mod_eq [of n ?p] by simp
      then show ?thesis unfolding v 1 by (intro lin) simp
    next
      case 2
      have "m mod ?p \<le> ?p" by (simp add: less_imp_le)
      then have "mag_val f m \<le> of_nat (2 * ?p) * 2 powi ?a" unfolding v by (intro lin) simp
      also have "\<dots> = of_nat ?p * 2 powi (1 + ?a)" unfolding powi_Suc_rat by simp
      also have "\<dots> \<le> of_nat ?p * 2 powi ?b" using 2 by (intro mult_left_mono powi_mono_rat) simp_all
      also have "\<dots> \<le> mag_val f n" unfolding v by (intro lin) simp
      finally show ?thesis .
    qed
  qed
qed

section \<open>Bit patterns\<close>

definition sign_weight :: "float_format \<Rightarrow> nat" where
  "sign_weight f = 2 ^ (mant_bits f + exp_bits f)"

definition fl_mag :: "float_format \<Rightarrow> 'a::len word \<Rightarrow> nat" where
  "fl_mag f w = unat w mod sign_weight f"

definition fl_sign :: "float_format \<Rightarrow> 'a::len word \<Rightarrow> bool" where
  "fl_sign f w = (sign_weight f \<le> unat w)"

definition fl_make :: "float_format \<Rightarrow> bool \<Rightarrow> nat \<Rightarrow> 'a::len word" where
  "fl_make f s m = of_nat (m + (if s then sign_weight f else 0))"

definition fl_is_nan :: "float_format \<Rightarrow> 'a::len word \<Rightarrow> bool" where
  "fl_is_nan f w = (inf_mag f < fl_mag f w)"

definition fl_is_inf :: "float_format \<Rightarrow> 'a::len word \<Rightarrow> bool" where
  "fl_is_inf f w = (fl_mag f w = inf_mag f)"

definition fl_is_finite :: "float_format \<Rightarrow> 'a::len word \<Rightarrow> bool" where
  "fl_is_finite f w = (fl_mag f w < inf_mag f)"

definition fl_val :: "float_format \<Rightarrow> 'a::len word \<Rightarrow> rat" where
  "fl_val f w = (if fl_sign f w then - mag_val f (fl_mag f w) else mag_val f (fl_mag f w))"

text \<open>The comparisons, on the signed magnitude (both zeros are 0).\<close>

definition fl_ord :: "float_format \<Rightarrow> 'a::len word \<Rightarrow> int" where
  "fl_ord f w = (if fl_sign f w then - int (fl_mag f w) else int (fl_mag f w))"

definition fl_le :: "float_format \<Rightarrow> 'a::len word \<Rightarrow> 'a word \<Rightarrow> bool" where
  "fl_le f a b = (\<not> fl_is_nan f a \<and> \<not> fl_is_nan f b \<and> fl_ord f a \<le> fl_ord f b)"

definition fl_lt :: "float_format \<Rightarrow> 'a::len word \<Rightarrow> 'a word \<Rightarrow> bool" where
  "fl_lt f a b = (\<not> fl_is_nan f a \<and> \<not> fl_is_nan f b \<and> fl_ord f a < fl_ord f b)"

definition fl_eq :: "float_format \<Rightarrow> 'a::len word \<Rightarrow> 'a word \<Rightarrow> bool" where
  "fl_eq f a b = (\<not> fl_is_nan f a \<and> \<not> fl_is_nan f b \<and> fl_ord f a = fl_ord f b)"

definition fl_min :: "float_format \<Rightarrow> 'a::len word \<Rightarrow> 'a word \<Rightarrow> 'a word" where
  "fl_min f a b = (if fl_is_nan f a then b else if fl_is_nan f b then a
     else if fl_ord f a \<le> fl_ord f b then a else b)"

definition fl_max :: "float_format \<Rightarrow> 'a::len word \<Rightarrow> 'a word \<Rightarrow> 'a word" where
  "fl_max f a b = (if fl_is_nan f a then b else if fl_is_nan f b then a
     else if fl_ord f b \<le> fl_ord f a then a else b)"

section \<open>Arithmetic\<close>

definition fl_nan :: "float_format \<Rightarrow> 'a::len word" where
  "fl_nan f = fl_make f False (inf_mag f + 2 ^ (mant_bits f - 1))"

definition fl_inf :: "float_format \<Rightarrow> bool \<Rightarrow> 'a::len word" where
  "fl_inf f s = fl_make f s (inf_mag f)"

text \<open>Round a rational; \<open>s\<close> is the sign of an exact zero.\<close>

definition fl_round :: "float_format \<Rightarrow> bool \<Rightarrow> rat \<Rightarrow> 'a::len word" where
  "fl_round f s r =
     (if r < 0 then fl_make f True (round_mag f (- r))
      else if 0 < r then fl_make f False (round_mag f r)
      else fl_make f s 0)"

definition fl_neg :: "float_format \<Rightarrow> 'a::len word \<Rightarrow> 'a word" where
  "fl_neg f w = fl_make f (\<not> fl_sign f w) (fl_mag f w)"

definition fl_add :: "float_format \<Rightarrow> 'a::len word \<Rightarrow> 'a word \<Rightarrow> 'a word" where
  "fl_add f a b =
     (if fl_is_nan f a \<or> fl_is_nan f b then fl_nan f
      else if fl_is_inf f a then
        (if fl_is_inf f b \<and> fl_sign f a \<noteq> fl_sign f b then fl_nan f else a)
      else if fl_is_inf f b then b
      else fl_round f (fl_sign f a \<and> fl_sign f b) (fl_val f a + fl_val f b))"

definition fl_sub :: "float_format \<Rightarrow> 'a::len word \<Rightarrow> 'a word \<Rightarrow> 'a word" where
  "fl_sub f a b = fl_add f a (fl_neg f b)"

definition fl_mul :: "float_format \<Rightarrow> 'a::len word \<Rightarrow> 'a word \<Rightarrow> 'a word" where
  "fl_mul f a b =
     (let s = (fl_sign f a \<noteq> fl_sign f b)
      in if fl_is_nan f a \<or> fl_is_nan f b then fl_nan f
         else if fl_is_inf f a \<or> fl_is_inf f b then
           (if fl_mag f a = 0 \<or> fl_mag f b = 0 then fl_nan f else fl_inf f s)
         else fl_round f s (fl_val f a * fl_val f b))"

definition fl_div :: "float_format \<Rightarrow> 'a::len word \<Rightarrow> 'a word \<Rightarrow> 'a word" where
  "fl_div f a b =
     (let s = (fl_sign f a \<noteq> fl_sign f b)
      in if fl_is_nan f a \<or> fl_is_nan f b then fl_nan f
         else if fl_is_inf f a then (if fl_is_inf f b then fl_nan f else fl_inf f s)
         else if fl_is_inf f b then fl_make f s 0
         else if fl_mag f b = 0 then (if fl_mag f a = 0 then fl_nan f else fl_inf f s)
         else fl_round f s (fl_val f a / fl_val f b))"

text \<open>\<^verbatim>\<open>round\<close> (half away from zero) and \<^verbatim>\<open>ceil\<close> give integral floats.\<close>

definition round_away :: "rat \<Rightarrow> int" where
  "round_away r = (if 0 \<le> r then \<lfloor>r + 1 / 2\<rfloor> else - \<lfloor>1 / 2 - r\<rfloor>)"

definition fl_round_int :: "float_format \<Rightarrow> 'a::len word \<Rightarrow> 'a word" where
  "fl_round_int f a =
     (if fl_is_nan f a then fl_nan f else if fl_is_inf f a then a
      else fl_round f (fl_sign f a) (of_int (round_away (fl_val f a))))"

definition fl_ceil :: "float_format \<Rightarrow> 'a::len word \<Rightarrow> 'a word" where
  "fl_ceil f a =
     (if fl_is_nan f a then fl_nan f else if fl_is_inf f a then a
      else fl_round f (fl_sign f a) (of_int \<lceil>fl_val f a\<rceil>))"

text \<open>\<^verbatim>\<open>x as iN\<close>: truncation towards zero, saturating, and 0 for NaN.\<close>

definition trunc_rat :: "rat \<Rightarrow> int" where
  "trunc_rat r = (if 0 \<le> r then \<lfloor>r\<rfloor> else \<lceil>r\<rceil>)"

definition fl_to_int :: "float_format \<Rightarrow> int \<Rightarrow> int \<Rightarrow> 'a::len word \<Rightarrow> int" where
  "fl_to_int f lo hi a =
     (if fl_is_nan f a then 0
      else if fl_is_inf f a then (if fl_sign f a then lo else hi)
      else max lo (min hi (trunc_rat (fl_val f a))))"

definition fl_of_int :: "float_format \<Rightarrow> int \<Rightarrow> 'a::len word" where
  "fl_of_int f k = fl_round f False (of_int k)"

text \<open>The two formats of the code.\<close>

abbreviation f64_le :: "f64 \<Rightarrow> f64 \<Rightarrow> bool" where "f64_le \<equiv> fl_le binary64"
abbreviation f64_lt :: "f64 \<Rightarrow> f64 \<Rightarrow> bool" where "f64_lt \<equiv> fl_lt binary64"
abbreviation f64_eq :: "f64 \<Rightarrow> f64 \<Rightarrow> bool" where "f64_eq \<equiv> fl_eq binary64"
abbreviation f64_min :: "f64 \<Rightarrow> f64 \<Rightarrow> f64" where "f64_min \<equiv> fl_min binary64"
abbreviation f64_max :: "f64 \<Rightarrow> f64 \<Rightarrow> f64" where "f64_max \<equiv> fl_max binary64"
abbreviation f64_add :: "f64 \<Rightarrow> f64 \<Rightarrow> f64" where "f64_add \<equiv> fl_add binary64"
abbreviation f64_sub :: "f64 \<Rightarrow> f64 \<Rightarrow> f64" where "f64_sub \<equiv> fl_sub binary64"
abbreviation f64_mul :: "f64 \<Rightarrow> f64 \<Rightarrow> f64" where "f64_mul \<equiv> fl_mul binary64"
abbreviation f64_div :: "f64 \<Rightarrow> f64 \<Rightarrow> f64" where "f64_div \<equiv> fl_div binary64"
abbreviation f64_round :: "f64 \<Rightarrow> f64" where "f64_round \<equiv> fl_round_int binary64"
abbreviation f64_is_finite :: "f64 \<Rightarrow> bool" where "f64_is_finite \<equiv> fl_is_finite binary64"
abbreviation f64_of_int :: "int \<Rightarrow> f64" where "f64_of_int \<equiv> fl_of_int binary64"
abbreviation f64_val :: "f64 \<Rightarrow> rat" where "f64_val \<equiv> fl_val binary64"

abbreviation f64_zero :: f64 where "f64_zero \<equiv> 0"
abbreviation f64_one :: f64 where "f64_one \<equiv> 0x3FF0000000000000"
abbreviation f64_half :: f64 where "f64_half \<equiv> 0x3FE0000000000000"
abbreviation f64_two :: f64 where "f64_two \<equiv> 0x4000000000000000"

text \<open>
  \<^verbatim>\<open>2.0_f64.powi(n)\<close> for \<open>0 \<le> n\<close>: the power of two, or infinity. (The standard library leaves
  the precision of \<^verbatim>\<open>powi\<close> open; powers of two are exact on every target.)
\<close>

definition f64_powi2 :: "int \<Rightarrow> f64" where
  "f64_powi2 n = (if n < 1024 then fl_round binary64 False (2 powi n) else fl_inf binary64 False)"

section \<open>Order\<close>

text \<open>On floats that are no NaN, \<open>fl_le\<close> is a total preorder; its order is the order of the values.\<close>

lemma fl_le_trans: "fl_le f a b \<Longrightarrow> fl_le f b c \<Longrightarrow> fl_le f a c"
  by (auto simp: fl_le_def)

lemma fl_le_refl: "\<not> fl_is_nan f a \<Longrightarrow> fl_le f a a"
  by (simp add: fl_le_def)

lemma fl_le_linear: "\<not> fl_is_nan f a \<Longrightarrow> \<not> fl_is_nan f b \<Longrightarrow> fl_le f a b \<or> fl_le f b a"
  by (auto simp: fl_le_def)

lemma fl_not_le_lt: "\<not> fl_is_nan f a \<Longrightarrow> \<not> fl_is_nan f b \<Longrightarrow> \<not> fl_le f a b \<Longrightarrow> fl_le f b a"
  by (auto simp: fl_le_def)

lemma fl_lt_le: "fl_lt f a b \<Longrightarrow> fl_le f a b"
  by (simp add: fl_lt_def fl_le_def)

lemma fl_le_not_nan: "fl_le f a b \<Longrightarrow> \<not> fl_is_nan f a \<and> \<not> fl_is_nan f b"
  by (simp add: fl_le_def)

lemma fl_finite_not_nan: "fl_is_finite f a \<Longrightarrow> \<not> fl_is_nan f a"
  by (simp add: fl_is_finite_def fl_is_nan_def)

lemma fl_finite_not_inf: "fl_is_finite f a \<Longrightarrow> \<not> fl_is_inf f a"
  by (simp add: fl_is_finite_def fl_is_inf_def)

lemma fl_min_le:
  "\<not> fl_is_nan f a \<Longrightarrow> \<not> fl_is_nan f b \<Longrightarrow> fl_le f (fl_min f a b) a \<and> fl_le f (fl_min f a b) b"
  by (auto simp: fl_min_def fl_le_def)

lemma fl_max_ge:
  "\<not> fl_is_nan f a \<Longrightarrow> \<not> fl_is_nan f b \<Longrightarrow> fl_le f a (fl_max f a b) \<and> fl_le f b (fl_max f a b)"
  by (auto simp: fl_max_def fl_le_def)

lemma fl_min_max_cases: "fl_min f a b \<in> {a, b}" "fl_max f a b \<in> {a, b}"
  by (auto simp: fl_min_def fl_max_def)

section \<open>Words of a format\<close>

text \<open>A word type has room for exactly the format's bits.\<close>

definition fits :: "float_format \<Rightarrow> 'a::len itself \<Rightarrow> bool" where
  "fits f t = (LENGTH('a) = mant_bits f + exp_bits f + 1 \<and> 1 \<le> mant_bits f \<and> 1 \<le> exp_bits f)"

lemma fits_binary64 [simp]: "fits binary64 TYPE(64)"
  by (simp add: fits_def binary64_def)

lemma fits_binary32 [simp]: "fits binary32 TYPE(32)"
  by (simp add: fits_def binary32_def)

lemma inf_mag_lt_sign_weight: "inf_mag f < sign_weight f"
  by (simp add: inf_mag_def sign_weight_def power_add)

lemma fl_make_props:
  assumes "fits f TYPE('a::len)" "m < sign_weight f"
  shows "fl_mag f (fl_make f s m :: 'a word) = m"
    and "fl_sign f (fl_make f s m :: 'a word) = s"
proof -
  have len: "(2::nat) ^ LENGTH('a) = 2 * sign_weight f"
    using assms(1) by (simp add: fits_def sign_weight_def)
  have u: "unat (fl_make f s m :: 'a word) = m + (if s then sign_weight f else 0)"
    unfolding fl_make_def using assms(2) len by (intro unat_of_nat_small) auto
  show "fl_mag f (fl_make f s m :: 'a word) = m"
    using assms(2) by (simp add: fl_mag_def u)
  show "fl_sign f (fl_make f s m :: 'a word) = s"
    using assms(2) by (simp add: fl_sign_def u)
qed

lemma fl_round_mag:
  assumes "fits f TYPE('a::len)"
  shows "fl_mag f (fl_round f s r :: 'a word) = round_mag f \<bar>r\<bar>"
proof -
  have "round_mag f \<bar>r\<bar> < sign_weight f"
    using round_mag_le_inf inf_mag_lt_sign_weight by (rule order_le_less_trans)
  then show ?thesis
    using fl_make_props [OF assms]
    by (auto simp: fl_round_def round_mag_def [of f 0] zero_less_power sign_weight_def)
qed

lemma fl_round_not_nan:
  assumes "fits f TYPE('a::len)"
  shows "\<not> fl_is_nan f (fl_round f s r :: 'a word)"
  using round_mag_le_inf [of f "\<bar>r\<bar>"] by (simp add: fl_is_nan_def fl_round_mag [OF assms])

lemma fl_val_abs: "\<bar>fl_val f w\<bar> = mag_val f (fl_mag f w)"
  using mag_val_nonneg [of f "fl_mag f w"] by (simp add: fl_val_def)

lemma fl_ord_le_val:
  assumes "fl_le f a b"
  shows "fl_val f a \<le> fl_val f b"
proof -
  have o: "fl_ord f a \<le> fl_ord f b" using assms by (simp add: fl_le_def)
  have nn: "0 \<le> mag_val f (fl_mag f a)" "0 \<le> mag_val f (fl_mag f b)" by (rule mag_val_nonneg)+
  have z: "int (fl_mag f a) \<le> - int (fl_mag f b) \<longleftrightarrow> fl_mag f a = 0 \<and> fl_mag f b = 0" by auto
  show ?thesis
    using o nn mag_val_mono [of "fl_mag f a" "fl_mag f b" f] mag_val_mono [of "fl_mag f b" "fl_mag f a" f]
    by (cases "fl_sign f a"; cases "fl_sign f b") (auto simp: fl_ord_def fl_val_def z)
qed

text \<open>A rational whose magnitude is at most a finite float's rounds to a finite float.\<close>

lemma fl_round_finite:
  assumes "fits f TYPE('a::len)" "\<bar>r\<bar> \<le> mag_val f m" "m < inf_mag f"
  shows "fl_is_finite f (fl_round f s r :: 'a word)"
proof -
  have "round_mag f \<bar>r\<bar> \<le> round_mag f (mag_val f m)" by (rule round_mag_mono) (rule assms(2))
  also have "\<dots> = m" using assms(3) by (simp add: round_mag_mag_val)
  finally show ?thesis using assms(3) by (simp add: fl_is_finite_def fl_round_mag [OF assms(1)])
qed

lemma fl_round_val_bound:
  assumes "fits f TYPE('a::len)" "\<bar>r\<bar> \<le> mag_val f m" "m \<le> inf_mag f"
  shows "\<bar>fl_val f (fl_round f s r :: 'a word)\<bar> \<le> mag_val f m"
proof -
  have "round_mag f \<bar>r\<bar> \<le> round_mag f (mag_val f m)" by (rule round_mag_mono) (rule assms(2))
  also have "\<dots> = m" using assms(3) by (simp add: round_mag_mag_val)
  finally show ?thesis by (simp add: fl_val_abs fl_round_mag [OF assms(1)] mag_val_mono)
qed

text \<open>A finite float other than a zero is the rounding of its value; adding it to zero gives it back.\<close>

lemma fl_make_parts:
  assumes "fits f TYPE('a::len)"
  shows "fl_make f (fl_sign f w) (fl_mag f w) = (w :: 'a word)"
proof -
  have "(2::nat) ^ LENGTH('a) = 2 * sign_weight f" using assms by (simp add: fits_def sign_weight_def)
  then have "unat w < 2 * sign_weight f" using unat_bound [of w] by simp
  then have "fl_mag f w + (if fl_sign f w then sign_weight f else 0) = unat w"
    by (auto simp: fl_mag_def fl_sign_def mod_if)
  then show ?thesis by (simp add: fl_make_def)
qed

lemma mag_val_pos: "0 < m \<Longrightarrow> m < inf_mag f \<Longrightarrow> 0 < mag_val f m"
proof -
  assume m: "0 < m" "m < inf_mag f"
  then have "mag_val f m \<noteq> mag_val f 0" using mag_val_inj [of f m 0] by linarith
  then show ?thesis using mag_val_nonneg [of f m] by simp
qed

lemma fl_round_val:
  assumes "fits f TYPE('a::len)" "fl_is_finite f (w :: 'a word)" "fl_mag f w \<noteq> 0"
  shows "fl_round f s (fl_val f w) = w"
proof -
  have m: "fl_mag f w < inf_mag f" using assms(2) by (simp add: fl_is_finite_def)
  have "0 < mag_val f (fl_mag f w)" using mag_val_pos assms(3) m by simp
  then show ?thesis using m fl_make_parts [OF assms(1), of w]
    by (auto simp: fl_round_def fl_val_def round_mag_mag_val)
qed

lemma fl_val_zero [simp]: "fl_val f 0 = 0"
  by (simp add: fl_val_def fl_mag_def)

lemma fl_add_zero:
  assumes "fits f TYPE('a::len)" "fl_is_finite f (w :: 'a word)" "fl_mag f w \<noteq> 0"
  shows "fl_add f 0 w = w"
proof -
  have "fl_is_finite f (0 :: 'a word)"
    using assms(2) by (simp add: fl_is_finite_def fl_mag_def)
  then show ?thesis using assms fl_round_val [OF assms]
    by (simp add: fl_add_def fl_finite_not_nan fl_finite_not_inf)
qed

text \<open>Integers of at most as many bits as the significand has are floats.\<close>

definition wide_range :: "float_format \<Rightarrow> bool" where
  "wide_range f \<longleftrightarrow> emin f + int (mant_bits f) \<le> 0 \<and> emin f + 2 ^ exp_bits f \<ge> 3"

lemma wide_range_formats [simp]: "wide_range binary64" "wide_range binary32"
  by (simp_all add: wide_range_def emin_def binary64_def binary32_def)

lemma mag_val_nat:
  assumes "0 < k" "k < 2 ^ (mant_bits f + 1)" "wide_range f"
  shows "\<exists>m < inf_mag f. mag_val f m = of_nat k"
proof -
  define e where "e = floorlog 2 k - 1"
  have "floorlog 2 k \<noteq> 0" using assms(1) by (simp add: floorlog_eq_zero_iff)
  then have "floorlog 2 k = e + 1" by (simp add: e_def)
  then have e: "2 ^ e \<le> k" "k < 2 ^ (e + 1)"
    using floorlog_bounds [of k 2] assms(1) by simp_all
  let ?p = "2 ^ mant_bits f :: nat"
  have em: "e \<le> mant_bits f"
  proof (rule ccontr)
    assume "\<not> e \<le> mant_bits f"
    then have "(2::nat) ^ (mant_bits f + 1) \<le> 2 ^ e" by (intro power_increasing) auto
    then show False using e(1) assms(2) by linarith
  qed
  define q where "q = k * 2 ^ (mant_bits f - e)"
  have q: "?p \<le> q" "q < 2 * ?p"
  proof -
    have split: "?p = 2 ^ e * 2 ^ (mant_bits f - e)" using em by (simp flip: power_add)
    show "?p \<le> q" unfolding q_def split using e(1) by simp
    show "q < 2 * ?p" unfolding q_def split using e(2) by simp
  qed
  define E where "E = nat (int e - int (mant_bits f) + 1 - emin f)"
  have E: "1 \<le> E" "int E = int e - int (mant_bits f) + 1 - emin f"
    using assms(3) by (auto simp: E_def wide_range_def)
  have Elt: "E < 2 ^ exp_bits f - 1"
  proof -
    have "int E \<le> 1 - emin f" using E(2) em by simp
    also have "\<dots> < int (2 ^ exp_bits f - 1)" using assms(3) by (simp add: wide_range_def of_nat_diff)
    finally show ?thesis by (simp only: of_nat_less_iff)
  qed
  define r where "r = q - ?p"
  have r: "r < ?p" "?p + r = q" using q by (simp_all add: r_def)
  define m where "m = E * ?p + r"
  have md: "m div ?p = E" "m mod ?p = r" using r(1) by (simp_all add: m_def)
  have "m < (E + 1) * ?p" using r(1) by (simp add: m_def)
  also have "\<dots> \<le> inf_mag f" unfolding inf_mag_def using Elt by (intro mult_right_mono) auto
  finally have lt: "m < inf_mag f" .
  have "?p \<le> E * ?p" using E(1) by simp
  then have "\<not> m < ?p" unfolding m_def by linarith
  then have "mag_val f m = of_nat (?p + r) * 2 powi (emin f + int E - 1)"
    unfolding mag_val_def Let_def md by simp
  also have "?p + r = q" by (rule r(2))
  also have "emin f + int E - 1 = - int (mant_bits f - e)" using E(2) em by simp
  also have "of_nat q * (2::rat) powi (- int (mant_bits f - e)) = of_nat k"
    by (simp add: q_def power_int_minus divide_simps)
  finally show ?thesis using lt by blast
qed

lemma fl_round_int_exact:
  assumes "fits f TYPE('a::len)" "\<bar>k\<bar> < 2 ^ (mant_bits f + 1)" "wide_range f"
  shows "fl_val f (fl_round f s (of_int k) :: 'a word) = of_int k"
    and "fl_is_finite f (fl_round f s (of_int k) :: 'a word)"
proof -
  have *: "mag_val f (round_mag f \<bar>of_int k\<bar>) = \<bar>of_int k\<bar> \<and> round_mag f \<bar>of_int k\<bar> < inf_mag f"
  proof (cases "k = 0")
    case True
    then show ?thesis by (simp add: round_mag_def inf_mag_def zero_less_mult_iff)
        (use assms(1) one_less_power [of "2::nat" "exp_bits f"] in \<open>auto simp: fits_def\<close>)
  next
    case False
    then obtain m where m: "m < inf_mag f" "mag_val f m = of_nat (nat \<bar>k\<bar>)"
      using mag_val_nat [of "nat \<bar>k\<bar>" f] assms(2,3) by (auto simp: nat_less_iff)
    then have "mag_val f m = \<bar>of_int k\<bar>" by simp
    then show ?thesis using m(1) round_mag_mag_val [of f m] by simp
  qed
  then show "fl_is_finite f (fl_round f s (of_int k) :: 'a word)"
    by (simp add: fl_is_finite_def fl_round_mag [OF assms(1)])
  have lt: "round_mag f \<bar>of_int k\<bar> < sign_weight f"
    using * inf_mag_lt_sign_weight [of f] by linarith
  show "fl_val f (fl_round f s (of_int k) :: 'a word) = of_int k"
    using * lt fl_make_props [OF assms(1)]
    by (cases "k < 0"; cases "k = 0") (auto simp: fl_round_def fl_val_def sign_weight_def)
qed

text \<open>On finite floats the comparisons are those of the values.\<close>

lemma mag_val_strict_mono: "m < n \<Longrightarrow> n \<le> inf_mag f \<Longrightarrow> mag_val f m < mag_val f n"
proof -
  assume mn: "m < n" "n \<le> inf_mag f"
  then have "mag_val f m \<noteq> mag_val f n" using mag_val_inj [of f m n] by linarith
  then show ?thesis using mag_val_mono [of m n f] mn(1) by linarith
qed

lemma fl_lt_val:
  assumes "fl_lt f a b" "fl_is_finite f a" "fl_is_finite f b"
  shows "fl_val f a < fl_val f b"
proof -
  have o: "fl_ord f a < fl_ord f b" using assms(1) by (simp add: fl_lt_def)
  have fin: "fl_mag f a \<le> inf_mag f" "fl_mag f b \<le> inf_mag f" using assms(2,3) by (simp_all add: fl_is_finite_def)
  have nn: "0 \<le> mag_val f (fl_mag f a)" "0 \<le> mag_val f (fl_mag f b)" by (rule mag_val_nonneg)+
  have pos: "0 < mag_val f m" if "0 < m" "m \<le> inf_mag f" for m
    using mag_val_strict_mono [OF that] by simp
  show ?thesis
    using o fin nn pos [of "fl_mag f a"] pos [of "fl_mag f b"]
      mag_val_strict_mono [of "fl_mag f a" "fl_mag f b" f] mag_val_strict_mono [of "fl_mag f b" "fl_mag f a" f]
    by (cases "fl_sign f a"; cases "fl_sign f b"; cases "fl_mag f a = 0"; cases "fl_mag f b = 0")
      (simp_all add: fl_ord_def fl_val_def)
qed

lemma fl_le_val_iff:
  assumes "fl_is_finite f a" "fl_is_finite f b"
  shows "fl_le f a b \<longleftrightarrow> fl_val f a \<le> fl_val f b"
proof
  assume "fl_val f a \<le> fl_val f b"
  then have "\<not> fl_lt f b a" using fl_lt_val [of f b a] assms by auto
  then show "fl_le f a b" using assms by (simp add: fl_le_def fl_lt_def fl_finite_not_nan)
qed (rule fl_ord_le_val)

lemma fl_lt_val_iff:
  assumes "fl_is_finite f a" "fl_is_finite f b"
  shows "fl_lt f a b \<longleftrightarrow> fl_val f a < fl_val f b"
  using fl_le_val_iff [OF assms(2,1)] assms
  by (auto simp: fl_le_def fl_lt_def fl_finite_not_nan)

text \<open>A rounded-to-integer float that is not huge has an integral value; casting it is exact.\<close>

lemma fl_round_int_val:
  assumes "fits f TYPE('a::len)" "wide_range f"
    and "fl_is_finite f (fl_round_int f a :: 'a word)" "\<bar>fl_val f (fl_round_int f a)\<bar> < 2 ^ mant_bits f"
  shows "fl_val f (fl_round_int f a) = of_int (round_away (fl_val f a))"
proof -
  let ?k = "round_away (fl_val f a)"
  have nan: "\<not> fl_is_nan f a"
  proof
    assume "fl_is_nan f a"
    then have "fl_round_int f a = fl_nan f" by (simp add: fl_round_int_def)
    moreover have "inf_mag f + 2 ^ (mant_bits f - 1) < sign_weight f"
    proof -
      have "(2::nat) ^ (mant_bits f - 1) < 2 ^ mant_bits f"
        using assms(1) by (intro power_strict_increasing) (auto simp: fits_def)
      moreover have "sign_weight f = inf_mag f + 2 ^ mant_bits f"
        by (simp add: sign_weight_def inf_mag_def power_add diff_mult_distrib)
      ultimately show ?thesis by simp
    qed
    ultimately show False using assms(3) fl_make_props(1) [OF assms(1)]
      by (simp add: fl_nan_def fl_is_finite_def)
  qed
  have inf: "\<not> fl_is_inf f a"
  proof
    assume "fl_is_inf f a"
    then have "fl_round_int f a = a" using nan by (simp add: fl_round_int_def)
    then show False using assms(3) \<open>fl_is_inf f a\<close> fl_finite_not_inf by metis
  qed
  have eq: "fl_round_int f a = fl_round f (fl_sign f a) (of_int ?k)"
    using nan inf by (simp add: fl_round_int_def)
  have "\<bar>?k\<bar> < 2 ^ (mant_bits f + 1)"
  proof (rule ccontr)
    assume "\<not> \<bar>?k\<bar> < 2 ^ (mant_bits f + 1)"
    then have "(2::int) ^ mant_bits f \<le> \<bar>?k\<bar>" by simp
    then have "of_int (2 ^ mant_bits f) \<le> (of_int \<bar>?k\<bar> :: rat)" by (simp only: of_int_le_iff)
    then have big: "(2::rat) ^ mant_bits f \<le> \<bar>of_int ?k\<bar>" by simp
    obtain m where m: "m < inf_mag f" "mag_val f m = of_nat (2 ^ mant_bits f)"
      using mag_val_nat [of "2 ^ mant_bits f" f] assms(2) by auto
    then have "round_mag f (mag_val f m) \<le> round_mag f \<bar>of_int ?k\<bar>"
      using big by (intro round_mag_mono) simp
    moreover have "round_mag f (mag_val f m) = m" using m(1) by (simp add: round_mag_mag_val)
    ultimately have "m \<le> round_mag f \<bar>of_int ?k\<bar>" by simp
    then have "mag_val f m \<le> mag_val f (fl_mag f (fl_round_int f a :: 'a word))"
      unfolding eq fl_round_mag [OF assms(1)] by (rule mag_val_mono)
    then show False using assms(4) m(2) by (simp add: fl_val_abs)
  qed
  then show ?thesis unfolding eq by (rule fl_round_int_exact [OF assms(1) _ assms(2)])
qed

lemma fl_to_int_exact:
  assumes "fl_is_finite f a" "fl_val f a = of_int k" "lo \<le> k" "k \<le> hi"
  shows "fl_to_int f lo hi a = k"
  using assms by (simp add: fl_to_int_def fl_finite_not_nan fl_finite_not_inf trunc_rat_def)

end
