(* ===== verification/Bounds.thy ===== *)
theory Bounds
  imports Floats
begin

text \<open>
  \<^verbatim>\<open>copc-core/src/bounds.rs\<close>: axis-aligned boxes. The lemmas state what containment and
  intersection mean for boxes with no NaN, that extending a box keeps what it contained, and that
  the octants of a box cover it.
\<close>

type_synonym xyz = "f64 \<times> f64 \<times> f64"

record bounds =
  b_min :: xyz
  b_max :: xyz

definition bounds_new :: "xyz \<Rightarrow> xyz \<Rightarrow> bounds" where
  "bounds_new mn mx = \<lparr>b_min = mn, b_max = mx\<rparr>"

definition bounds_point :: "f64 \<Rightarrow> f64 \<Rightarrow> f64 \<Rightarrow> bounds" where
  "bounds_point x y z = \<lparr>b_min = (x, y, z), b_max = (x, y, z)\<rparr>"

definition bounds_cube :: "xyz \<Rightarrow> f64 \<Rightarrow> bounds" where
  "bounds_cube center halfsize =
     (case center of (cx, cy, cz) \<Rightarrow>
        \<lparr>b_min = (f64_sub cx halfsize, f64_sub cy halfsize, f64_sub cz halfsize),
         b_max = (f64_add cx halfsize, f64_add cy halfsize, f64_add cz halfsize)\<rparr>)"

definition bounds_extend :: "bounds \<Rightarrow> f64 \<Rightarrow> f64 \<Rightarrow> f64 \<Rightarrow> bounds" where
  "bounds_extend b x y z =
     (case (b_min b, b_max b) of ((x0, y0, z0), (x1, y1, z1)) \<Rightarrow>
        \<lparr>b_min = (f64_min x0 x, f64_min y0 y, f64_min z0 z),
         b_max = (f64_max x1 x, f64_max y1 y, f64_max z1 z)\<rparr>)"

definition midpoint :: "f64 \<Rightarrow> f64 \<Rightarrow> f64" where
  "midpoint a b = f64_add (f64_mul a f64_half) (f64_mul b f64_half)"

definition bounds_center :: "bounds \<Rightarrow> xyz" where
  "bounds_center b =
     (case (b_min b, b_max b) of ((x0, y0, z0), (x1, y1, z1)) \<Rightarrow>
        (midpoint x0 x1, midpoint y0 y1, midpoint z0 z1))"

definition bounds_octant :: "bounds \<Rightarrow> u8 \<Rightarrow> bounds" where
  "bounds_octant b octant =
     (case (b_min b, b_max b, bounds_center b) of ((x0, y0, z0), (x1, y1, z1), (cx, cy, cz)) \<Rightarrow>
        let (min_x, max_x) = (if octant AND 1 = 0 then (x0, cx) else (cx, x1));
            (min_y, max_y) = (if octant AND 2 = 0 then (y0, cy) else (cy, y1));
            (min_z, max_z) = (if octant AND 4 = 0 then (z0, cz) else (cz, z1))
        in \<lparr>b_min = (min_x, min_y, min_z), b_max = (max_x, max_y, max_z)\<rparr>)"

definition intersects :: "bounds \<Rightarrow> bounds \<Rightarrow> bool" where
  "intersects b c =
     (case (b_min b, b_max b, b_min c, b_max c) of
        ((x0, y0, z0), (x1, y1, z1), (u0, v0, w0), (u1, v1, w1)) \<Rightarrow>
          f64_le u0 x1 \<and> f64_le x0 u1 \<and> f64_le v0 y1 \<and> f64_le y0 v1 \<and> f64_le w0 z1 \<and> f64_le z0 w1)"

definition contains_xyz :: "bounds \<Rightarrow> f64 \<Rightarrow> f64 \<Rightarrow> f64 \<Rightarrow> bool" where
  "contains_xyz b x y z =
     (case (b_min b, b_max b) of ((x0, y0, z0), (x1, y1, z1)) \<Rightarrow>
        f64_le x0 x \<and> f64_le x x1 \<and> f64_le y0 y \<and> f64_le y y1 \<and> f64_le z0 z \<and> f64_le z z1)"

section \<open>Containment\<close>

lemma contains_point:
  assumes "\<not> fl_is_nan binary64 x" "\<not> fl_is_nan binary64 y" "\<not> fl_is_nan binary64 z"
  shows "contains_xyz (bounds_point x y z) x y z"
  using assms by (simp add: contains_xyz_def bounds_point_def fl_le_refl)

lemma contains_not_nan:
  "contains_xyz b x y z \<Longrightarrow>
    \<not> fl_is_nan binary64 x \<and> \<not> fl_is_nan binary64 y \<and> \<not> fl_is_nan binary64 z"
  by (auto simp: contains_xyz_def fl_le_def split: prod.splits)

lemma f64_min_le_trans:
  assumes "f64_le a x" "\<not> fl_is_nan binary64 p"
  shows "f64_le (f64_min a p) x" "f64_le (f64_min a p) p"
  using assms fl_min_le [of binary64 a p] by (auto simp: fl_le_def fl_min_def)

lemma f64_max_ge_trans:
  assumes "f64_le x a" "\<not> fl_is_nan binary64 p"
  shows "f64_le x (f64_max a p)" "f64_le p (f64_max a p)"
  using assms fl_max_ge [of binary64 a p] by (auto simp: fl_le_def fl_max_def)

lemma bounds_extend_contains:
  assumes "contains_xyz b x y z"
    and "\<not> fl_is_nan binary64 p" "\<not> fl_is_nan binary64 q" "\<not> fl_is_nan binary64 r"
  shows "contains_xyz (bounds_extend b p q r) x y z" "contains_xyz (bounds_extend b p q r) p q r"
  using assms
  by (auto simp: contains_xyz_def bounds_extend_def f64_min_le_trans f64_max_ge_trans
      split: prod.splits)

text \<open>Two boxes that share a point intersect: a filter on \<open>intersects\<close> loses no point.\<close>

lemma intersects_common_point:
  assumes "contains_xyz b x y z" "contains_xyz c x y z"
  shows "intersects b c"
  using assms by (auto simp: contains_xyz_def intersects_def fl_le_def split: prod.splits)

section \<open>Octants\<close>

text \<open>
  \<^verbatim>\<open>child_octant\<close> of the writer (\<^verbatim>\<open>copc-writer/src/lod.rs\<close>): the octant of a point, relative to a
  center.
\<close>

definition child_octant :: "xyz \<Rightarrow> f64 \<Rightarrow> f64 \<Rightarrow> f64 \<Rightarrow> nat" where
  "child_octant center x y z =
     (case center of (cx, cy, cz) \<Rightarrow>
        (if f64_le cx x then 1 else 0) OR push_bit 1 (if f64_le cy y then 1 else 0)
          OR push_bit 2 (if f64_le cz z then 1 else 0))"

lemma child_octant_eq:
  "child_octant (cx, cy, cz) x y z =
    (if f64_le cx x then 1 else 0) + (if f64_le cy y then 2 else 0) + (if f64_le cz z then 4 else 0)"
  by (simp add: child_octant_def)

lemma child_octant_lt: "child_octant c x y z < 8"
  by (cases c) (simp add: child_octant_eq)

text \<open>The octant box of the octant a point falls into contains the point.\<close>

lemma octant_contains:
  assumes c: "contains_xyz b x y z"
    and nn: "bounds_center b = (cx, cy, cz)"
      "\<not> fl_is_nan binary64 cx" "\<not> fl_is_nan binary64 cy" "\<not> fl_is_nan binary64 cz"
  shows "contains_xyz (bounds_octant b (of_nat (child_octant (bounds_center b) x y z))) x y z"
proof -
  obtain x0 y0 z0 x1 y1 z1 where b: "b_min b = (x0, y0, z0)" "b_max b = (x1, y1, z1)"
    by (cases "b_min b"; cases "b_max b") auto
  have le: "f64_le x0 x" "f64_le x x1" "f64_le y0 y" "f64_le y y1" "f64_le z0 z" "f64_le z z1"
    using c by (simp_all add: contains_xyz_def b)
  have notle: "f64_le x cx \<or> f64_le cx x" "f64_le y cy \<or> f64_le cy y" "f64_le z cz \<or> f64_le cz z"
    using nn(2-4) le by (meson fl_le_linear fl_le_not_nan)+
  show ?thesis
    using le notle
    by (cases "f64_le cx x"; cases "f64_le cy y"; cases "f64_le cz z")
      (simp_all add: contains_xyz_def bounds_octant_def b nn(1) child_octant_eq)
qed

section \<open>The center of a finite box is finite\<close>

text \<open>The largest finite magnitude of \<^verbatim>\<open>f64\<close>, and half of it.\<close>

lemma max_mag_half:
  "mag_val binary64 (inf_mag binary64 - 1) / 2 = mag_val binary64 (inf_mag binary64 - 1 - 2 ^ 52)"
proof -
  have e: "(2::rat) powi 970 = 2 * 2 powi 969" by (simp flip: powi_Suc_rat)
  show ?thesis
    by (simp add: mag_val_def Let_def inf_mag_def binary64_def emin_def e del: powi_of_nat_rat)
qed

lemma fl_val_half: "f64_val f64_half = 1 / 2"
  by (simp add: fl_val_def fl_sign_def fl_mag_def sign_weight_def mag_val_def Let_def binary64_def
      emin_def power_int_minus)

lemma finite_half: "f64_is_finite f64_half"
  by (simp add: fl_is_finite_def fl_mag_def sign_weight_def inf_mag_def binary64_def)

lemma finite_val_bound:
  assumes "fl_is_finite f w"
  shows "\<bar>fl_val f w\<bar> \<le> mag_val f (inf_mag f - 1)"
  using assms unfolding fl_val_abs fl_is_finite_def by (intro mag_val_mono) simp

lemma mul_half_bound:
  assumes "f64_is_finite a"
  shows "f64_is_finite (f64_mul a f64_half)"
    and "\<bar>f64_val (f64_mul a f64_half)\<bar> \<le> mag_val binary64 (inf_mag binary64 - 1 - 2 ^ 52)"
proof -
  let ?m = "inf_mag binary64 - 1 - 2 ^ 52"
  have m: "?m < inf_mag binary64" by (simp add: inf_mag_def binary64_def)
  have eq: "f64_mul a f64_half =
      fl_round binary64 (fl_sign binary64 a \<noteq> fl_sign binary64 f64_half) (f64_val a * (1 / 2))"
    using assms finite_half
    by (simp add: fl_mul_def fl_finite_not_nan fl_finite_not_inf fl_val_half del: signed_numeral)
  have v: "\<bar>f64_val a * (1 / 2)\<bar> \<le> mag_val binary64 ?m"
  proof -
    have "\<bar>f64_val a * (1 / 2)\<bar> = \<bar>f64_val a\<bar> / 2" by (simp add: abs_mult)
    then show ?thesis using finite_val_bound [OF assms] max_mag_half by linarith
  qed
  show "f64_is_finite (f64_mul a f64_half)"
    unfolding eq by (rule fl_round_finite [OF fits_binary64 v m])
  show "\<bar>f64_val (f64_mul a f64_half)\<bar> \<le> mag_val binary64 ?m"
    unfolding eq by (rule fl_round_val_bound [OF fits_binary64 v]) simp
qed

lemma midpoint_finite:
  assumes "f64_is_finite a" "f64_is_finite b"
  shows "f64_is_finite (midpoint a b)"
proof -
  let ?p = "f64_mul a f64_half" let ?q = "f64_mul b f64_half"
  have eq: "midpoint a b =
      fl_round binary64 (fl_sign binary64 ?p \<and> fl_sign binary64 ?q) (f64_val ?p + f64_val ?q)"
    using mul_half_bound(1) [OF assms(1)] mul_half_bound(1) [OF assms(2)]
    by (simp add: midpoint_def fl_add_def fl_finite_not_nan fl_finite_not_inf)
  have "\<bar>f64_val ?p + f64_val ?q\<bar> \<le> mag_val binary64 (inf_mag binary64 - 1)"
    using mul_half_bound(2) [OF assms(1)] mul_half_bound(2) [OF assms(2)] max_mag_half by linarith
  then show ?thesis
    unfolding eq by (rule fl_round_finite [OF fits_binary64]) (simp add: inf_mag_def binary64_def)
qed

lemma bounds_center_finite:
  assumes "b_min b = (x0, y0, z0)" "b_max b = (x1, y1, z1)"
    and "list_all f64_is_finite [x0, y0, z0, x1, y1, z1]"
  shows "case bounds_center b of (cx, cy, cz) \<Rightarrow> f64_is_finite cx \<and> f64_is_finite cy \<and> f64_is_finite cz"
  using assms by (simp add: bounds_center_def midpoint_finite)

section \<open>Properties\<close>

text \<open>For a box with finite corners the center never overflows (even when the extent of the
  box does), and a point of the box lies in the octant box that \<open>child_octant\<close> names: descending the
  octree loses no point.\<close>
theorem octant_of_point:
  assumes "contains_xyz b x y z" "b_min b = (x0, y0, z0)" "b_max b = (x1, y1, z1)"
    and "list_all f64_is_finite [x0, y0, z0, x1, y1, z1]"
  shows "(case bounds_center b of (cx, cy, cz) \<Rightarrow> f64_is_finite cx \<and> f64_is_finite cy \<and> f64_is_finite cz) \<and>
    contains_xyz (bounds_octant b (of_nat (child_octant (bounds_center b) x y z))) x y z"
proof -
  obtain cx cy cz where c: "bounds_center b = (cx, cy, cz)" by (cases "bounds_center b")
  have f: "f64_is_finite cx" "f64_is_finite cy" "f64_is_finite cz"
    using bounds_center_finite [OF assms(2-4)] by (simp_all add: c)
  have "contains_xyz (bounds_octant b (of_nat (child_octant (bounds_center b) x y z))) x y z"
    by (rule octant_contains [OF assms(1) c]) (use f in \<open>simp_all add: fl_finite_not_nan\<close>)
  with f show ?thesis by (simp add: c)
qed

theorem octant_of_point_witness:
  "contains_xyz (bounds_octant (bounds_new (0, 0, 0) (f64_two, f64_two, f64_two))
     (of_nat (child_octant (bounds_center (bounds_new (0, 0, 0) (f64_two, f64_two, f64_two))) f64_one 0 f64_two)))
     f64_one 0 f64_two"
  using octant_of_point [of "bounds_new (0, 0, 0) (f64_two, f64_two, f64_two)" f64_one 0 f64_two
      0 0 0 f64_two f64_two f64_two]
  by (simp add: bounds_new_def contains_xyz_def fl_le_def fl_is_nan_def fl_is_finite_def fl_ord_def
      fl_mag_def fl_sign_def sign_weight_def inf_mag_def binary64_def)

text \<open>C12: a filter on box intersection keeps every box that shares a point with the query box.\<close>
theorem intersects_complete:
  assumes "contains_xyz b x y z" "contains_xyz c x y z"
  shows "intersects b c \<and> intersects c b"
  using intersects_common_point assms by blast

theorem intersects_complete_witness:
  "intersects (bounds_point 0 0 0) (bounds_new (0, 0, 0) (f64_one, f64_one, f64_one))"
  using intersects_complete [of "bounds_point 0 0 0" 0 0 0 "bounds_new (0, 0, 0) (f64_one, f64_one, f64_one)"]
  by (simp add: bounds_new_def bounds_point_def contains_xyz_def fl_le_def fl_is_nan_def fl_ord_def
      fl_mag_def fl_sign_def sign_weight_def inf_mag_def binary64_def)

end
