(* ===== verification/Codec.thy ===== *)
theory Codec
  imports Prelude
begin

text \<open>
  The interface of a fixed-width record code: what an encoder and a decoder promise each other, and
  what follows for a file that is the concatenation of records. It is interpreted on the spill records,
  the hierarchy entries and the point indexes of the model.
\<close>

locale fixed_codec =
  fixes enc :: "'a \<Rightarrow> u8 list" and dec :: "u8 list \<Rightarrow> 'b result" and width :: nat
    and ok :: "'a \<Rightarrow> bool" and view :: "'a \<Rightarrow> 'b"
  assumes enc_width: "ok x \<Longrightarrow> length (enc x) = width"
    and dec_enc: "ok x \<Longrightarrow> dec (enc x) = Ok (view x)"
begin

lemma length_file: "list_all ok xs \<Longrightarrow> length (concat (map enc xs)) = width * length xs"
  by (induction xs) (simp_all add: enc_width)

lemma record_slice:
  "list_all ok xs \<Longrightarrow> i < length xs \<Longrightarrow> bslice (concat (map enc xs)) (i * width) width = enc (xs ! i)"
proof (induction xs arbitrary: i)
  case (Cons x xs)
  then show ?case
    by (cases i) (simp_all add: bslice_def enc_width flip: drop_drop)
qed simp

lemma record_decode:
  "list_all ok xs \<Longrightarrow> i < length xs \<Longrightarrow> dec (bslice (concat (map enc xs)) (i * width) width) = Ok (view (xs ! i))"
  by (simp add: record_slice dec_enc list_all_length)

lemma decode_all:
  assumes "list_all ok xs"
  shows "map_res (\<lambda>i. dec (bslice (concat (map enc xs)) (i * width) width)) [0..<length xs] = Ok (map view xs)"
proof -
  have "map_res (\<lambda>i. dec (bslice (concat (map enc xs)) (i * width) width)) [0..<length xs] =
      Ok (map (\<lambda>i. view (xs ! i)) [0..<length xs])"
    by (rule map_res_all_Ok) (simp add: record_decode [OF assms])
  also have "map (\<lambda>i. view (xs ! i)) [0..<length xs] = map view xs"
    by (rule nth_equalityI) simp_all
  finally show ?thesis .
qed

end

end
