(* ===== verification/Hierarchy.thy ===== *)
theory Hierarchy
  imports Codec
begin

text \<open>
  \<^verbatim>\<open>copc-core/src/hierarchy.rs\<close>: voxel keys of the octree, the 32-byte hierarchy entries and
  hierarchy pages. The lemmas show that children are valid keys, that entries and pages
  are the same whether serialized or parsed first, and that an entry that is accepted satisfies
  the COPC invariants.
\<close>

section \<open>Voxel keys\<close>

text \<open>A datatype with one constructor rather than a record, so that it can carry the derived order.\<close>

datatype voxel_key = VoxelKey (vk_level: i32) (vk_x: i32) (vk_y: i32) (vk_z: i32)

text \<open>\<^verbatim>\<open>#[derive(PartialOrd, Ord)]\<close>: lexicographic on the signed fields.\<close>

definition key_rank :: "voxel_key \<Rightarrow> int \<times> int \<times> int \<times> int" where
  "key_rank k = (sint (vk_level k), sint (vk_x k), sint (vk_y k), sint (vk_z k))"

lemma key_rank_inj: "key_rank a = key_rank b \<Longrightarrow> a = b"
  by (cases a; cases b) (auto simp: key_rank_def intro: sint_eqI)

instantiation voxel_key :: linorder
begin

definition less_eq_voxel_key :: "voxel_key \<Rightarrow> voxel_key \<Rightarrow> bool" where
  "less_eq_voxel_key a b = (key_rank a \<le> key_rank b)"

definition less_voxel_key :: "voxel_key \<Rightarrow> voxel_key \<Rightarrow> bool" where
  "less_voxel_key a b = (key_rank a < key_rank b)"

instance
  by standard (auto simp: less_eq_voxel_key_def less_voxel_key_def intro: key_rank_inj)

end

definition vk_root :: voxel_key where
  "vk_root = VoxelKey 0 0 0 0"

definition vk_validate :: "voxel_key \<Rightarrow> unit result" where
  "vk_validate k =
     (let level = sint (vk_level k); x = sint (vk_x k); y = sint (vk_y k); z = sint (vk_z k)
      in if level < 0 \<or> x < 0 \<or> y < 0 \<or> z < 0
         then Err (InvalidData ''invalid negative COPC voxel key {}'')
         else if level < 31
         then let axis_limit = 2 ^ nat level
              in if axis_limit \<le> x \<or> axis_limit \<le> y \<or> axis_limit \<le> z
                 then Err (InvalidData ''COPC voxel key {} has an axis outside 0..{}'')
                 else Ok ()
         else Ok ())"

definition vk_child_axis :: "i32 \<Rightarrow> u8 \<Rightarrow> i32 result" where
  "vk_child_axis axis b =
     ok_or (Option.bind (checked_mul_i32 axis 2) (\<lambda>a. checked_add_i32 a (i32_of_u8 b)))
       (InvalidInput ''voxel axis overflow'')"

definition vk_child :: "voxel_key \<Rightarrow> u8 \<Rightarrow> voxel_key result" where
  "vk_child k octant =
     bind_res (vk_validate k) (\<lambda>_.
     if 7 < octant then Err (InvalidInput ''octant must be in 0..=7, got {}'')
     else
       bind_res (ok_or (checked_add_i32 (vk_level k) 1) (InvalidInput ''voxel level overflow'')) (\<lambda>level.
       bind_res (vk_child_axis (vk_x k) (octant AND 1)) (\<lambda>x.
       bind_res (vk_child_axis (vk_y k) (drop_bit 1 octant AND 1)) (\<lambda>y.
       bind_res (vk_child_axis (vk_z k) (drop_bit 2 octant AND 1)) (\<lambda>z.
       let child = VoxelKey level x y z
       in bind_res (vk_validate child) (\<lambda>_. Ok child))))))"

lemma vk_validate_Ok_iff:
  "vk_validate k = Ok u \<longleftrightarrow>
     0 \<le> sint (vk_level k) \<and> 0 \<le> sint (vk_x k) \<and> 0 \<le> sint (vk_y k) \<and> 0 \<le> sint (vk_z k) \<and>
     (sint (vk_level k) < 31 \<longrightarrow>
        sint (vk_x k) < 2 ^ nat (sint (vk_level k)) \<and> sint (vk_y k) < 2 ^ nat (sint (vk_level k)) \<and>
        sint (vk_z k) < 2 ^ nat (sint (vk_level k)))"
  by (auto simp: vk_validate_def Let_def)

lemma vk_validate_root [simp]: "vk_validate vk_root = Ok ()"
  by (simp add: vk_validate_Ok_iff vk_root_def)

text \<open>The bit of an octant on an axis, as an integer.\<close>

definition octant_bit :: "u8 \<Rightarrow> nat \<Rightarrow> int" where
  "octant_bit octant i = int (unat (drop_bit i octant AND 1))"

lemma octant_bit_eq: "octant_bit b i = int (unat b div 2 ^ i mod 2)"
proof -
  have "unat (drop_bit i b) = unat b div 2 ^ i"
    unfolding unat_drop_bit_eq by (rule drop_bit_eq_div)
  then show ?thesis by (simp add: octant_bit_def and_one_eq unat_mod)
qed

lemma octant_bit_range: "octant_bit b i = 0 \<or> octant_bit b i = 1"
  by (auto simp: octant_bit_eq)

lemma sint_i32_of_u8: "sint (i32_of_u8 b) = int (unat b)"
  unfolding i32_of_u8_def using unat_bound [of b] by (intro sint_of_small_nat) simp

lemma vk_child_axis_Ok_iff:
  assumes "0 \<le> sint axis" "unat b \<le> 1"
  shows "vk_child_axis axis b = Ok a \<longleftrightarrow>
    2 * sint axis + int (unat b) < 2 ^ 31 \<and> sint a = 2 * sint axis + int (unat b)"
proof (cases "2 * sint axis < 2 ^ 31")
  case True
  then have "checked_mul_i32 axis 2 = Some (axis * 2)"
    using assms(1) by (simp add: checked_mul_i32_def mult.commute)
  moreover from this have "sint (axis * 2) = 2 * sint axis"
    unfolding checked_mul_i32_Some_iff by simp
  moreover have "- 2147483648 \<le> 2 * sint axis + uint b"
    using assms(1) unsigned_greater_eq [of b, where 'a = int] by linarith
  ultimately show ?thesis
    using assms by (auto simp: vk_child_axis_def checked_add_i32_Some_iff sint_i32_of_u8)
next
  case False
  then have "checked_mul_i32 axis 2 = None"
    by (simp add: checked_mul_i32_def mult.commute)
  moreover have "\<not> 2 * sint axis + uint b < 2147483648"
  proof -
    have "2147483648 \<le> 2 * sint axis" using False by simp
    then show ?thesis using unsigned_greater_eq [of b, where 'a = int] by linarith
  qed
  ultimately show ?thesis by (simp add: vk_child_axis_def)
qed

lemma unat_octant_bit: "unat (drop_bit i octant AND 1) \<le> 1" for octant :: u8
  using octant_bit_range [of octant i] unfolding octant_bit_def by linarith

text \<open>What a successful \<open>child\<close> returns.\<close>

lemma vk_child_Ok_iff:
  "vk_child k octant = Ok c \<longleftrightarrow>
     vk_validate k = Ok () \<and> octant \<le> 7 \<and>
     sint (vk_level k) + 1 < 2 ^ 31 \<and>
     sint (vk_level c) = sint (vk_level k) + 1 \<and>
     sint (vk_x c) = 2 * sint (vk_x k) + octant_bit octant 0 \<and>
     sint (vk_y c) = 2 * sint (vk_y k) + octant_bit octant 1 \<and>
     sint (vk_z c) = 2 * sint (vk_z k) + octant_bit octant 2"
  (is "?L \<longleftrightarrow> ?R")
proof (cases "vk_validate k = Ok () \<and> octant \<le> 7")
  case False
  then show ?thesis by (auto simp: vk_child_def bind_res_Ok_iff not_less split: if_splits)
next
  case True
  then have nn: "0 \<le> sint (vk_level k)" "0 \<le> sint (vk_x k)" "0 \<le> sint (vk_y k)" "0 \<le> sint (vk_z k)"
    and oct: "\<not> 7 < octant" by (simp_all add: vk_validate_Ok_iff not_less)
  have ax: "vk_child_axis a (drop_bit i octant AND 1) = Ok v \<longleftrightarrow>
      2 * sint a + octant_bit octant i < 2 ^ 31 \<and> sint v = 2 * sint a + octant_bit octant i"
    if "0 \<le> sint a" for a i v
    using vk_child_axis_Ok_iff [OF that unat_octant_bit] by (simp add: octant_bit_def)
  have bits: "drop_bit 0 octant = octant" by simp
  have small: "sint v < 2 ^ 31" for v :: i32 using sint_in_range_i32 by blast
  show ?thesis
  proof
    assume ?L
    then show ?R
      using True oct ax [OF nn(2), of 0] ax [OF nn(3), of 1] ax [OF nn(4), of 2]
      by (auto simp: vk_child_def bind_res_Ok_iff checked_add_i32_Some_iff Let_def)
  next
    assume R: ?R
    then have valid: "vk_validate c = Ok ()"
      using nn octant_bit_range [of octant 0] octant_bit_range [of octant 1] octant_bit_range [of octant 2]
        True
      by (auto simp: vk_validate_Ok_iff nat_add_distrib)
    have "checked_add_i32 (vk_level k) 1 = Some (vk_level c)"
      using R nn(1) by (simp add: checked_add_i32_Some_iff)
    moreover have "vk_child_axis (vk_x k) (octant AND 1) = Ok (vk_x c)"
      using ax [OF nn(2), of 0 "vk_x c"] R small [of "vk_x c"] by simp
    moreover have "vk_child_axis (vk_y k) (drop_bit 1 octant AND 1) = Ok (vk_y c)"
      using ax [OF nn(3), of 1 "vk_y c"] R small [of "vk_y c"] by simp
    moreover have "vk_child_axis (vk_z k) (drop_bit 2 octant AND 1) = Ok (vk_z c)"
      using ax [OF nn(4), of 2 "vk_z c"] R small [of "vk_z c"] by simp
    ultimately show ?L
      using True oct valid by (simp add: vk_child_def)
  qed
qed

lemma vk_child_valid: "vk_child k octant = Ok c \<Longrightarrow> vk_validate c = Ok ()"
  by (auto simp: vk_child_def bind_res_Ok_iff Let_def split: if_splits)

text \<open>Below level 30 every valid key has all eight children.\<close>

lemma vk_child_exists:
  assumes "vk_validate k = Ok ()" "octant \<le> 7" "sint (vk_level k) < 30"
  shows "\<exists>c. vk_child k octant = Ok c"
proof -
  have nn: "0 \<le> sint (vk_level k)" "0 \<le> sint (vk_x k)" "0 \<le> sint (vk_y k)" "0 \<le> sint (vk_z k)"
    using assms(1) by (simp_all add: vk_validate_Ok_iff)
  have p: "(2::int) ^ nat (sint (vk_level k)) \<le> 2 ^ 29"
    using assms(3) nn(1) by (intro power_increasing) auto
  have lim: "sint (vk_x k) < 2 ^ 29" "sint (vk_y k) < 2 ^ 29" "sint (vk_z k) < 2 ^ 29"
    using assms(1,3) p unfolding vk_validate_Ok_iff by linarith+
  define ax where "ax v i = (word_of_int (2 * sint v + octant_bit octant i) :: i32)" for v :: i32 and i
  have axv: "sint (ax v i) = 2 * sint v + octant_bit octant i"
    if "0 \<le> sint v" "sint v < 2 ^ 29" for v i
    using that octant_bit_range [of octant i] unfolding ax_def by (intro sint_eq_take) auto
  define lv where "lv = (word_of_int (sint (vk_level k) + 1) :: i32)"
  have lvv: "sint lv = sint (vk_level k) + 1"
    unfolding lv_def using nn(1) assms(3) by (intro sint_eq_take) auto
  have "vk_child k octant = Ok (VoxelKey lv (ax (vk_x k) 0) (ax (vk_y k) 1) (ax (vk_z k) 2))"
    unfolding vk_child_Ok_iff using assms nn lim by (simp add: lvv axv)
  then show ?thesis ..
qed

section \<open>Hierarchy entries\<close>

definition HIERARCHY_ENTRY_BYTES :: nat where
  "HIERARCHY_ENTRY_BYTES = 32"

record entry =
  e_key :: voxel_key
  e_offset :: u64
  e_byte_size :: i32
  e_point_count :: i32

datatype entry_availability = Empty | PointData u32 | ChildPage

definition availability :: "entry \<Rightarrow> entry_availability result" where
  "availability e =
     (if sint (e_point_count e) = -1 then Ok ChildPage
      else if sint (e_point_count e) = 0 then Ok Empty
      else if 0 < sint (e_point_count e) then
        bind_res (ok_or (u32_try_from_i32 (e_point_count e))
          (InvalidData ''hierarchy entry {} point count {} is out of range'')) (\<lambda>n.
        Ok (PointData n))
      else Err (InvalidData ''hierarchy entry {} has invalid point count {}''))"

definition entry_validate :: "entry \<Rightarrow> unit result" where
  "entry_validate e =
     bind_res (vk_validate (e_key e)) (\<lambda>_.
     bind_res (availability e) (\<lambda>a.
     case a of
       Empty \<Rightarrow>
         (if e_offset e \<noteq> 0 \<or> e_byte_size e \<noteq> 0
          then Err (InvalidData ''empty hierarchy entry {} must have zero offset and byte size'')
          else Ok ())
     | PointData _ \<Rightarrow>
         (if sint (e_byte_size e) \<le> 0
          then Err (InvalidData ''point data entry {} has invalid byte size {}'')
          else Ok ())
     | ChildPage \<Rightarrow>
         (if sint (e_byte_size e) \<le> 0
          then Err (InvalidData ''child hierarchy page {} has invalid byte size {}'')
          else Ok ())))"

definition has_point_data :: "entry \<Rightarrow> bool" where
  "has_point_data e = (0 < sint (e_point_count e))"

definition entry_is_empty :: "entry \<Rightarrow> bool" where
  "entry_is_empty e = (sint (e_point_count e) = 0)"

definition is_child_page :: "entry \<Rightarrow> bool" where
  "is_child_page e = (sint (e_point_count e) = -1)"

text \<open>\<^verbatim>\<open>write_le\<close> fills the caller's 32-byte buffer; the model returns the filled buffer.\<close>

definition entry_write_le :: "entry \<Rightarrow> u8 list \<Rightarrow> u8 list result" where
  "entry_write_le e dst =
     bind_res (entry_validate e) (\<lambda>_.
     if length dst \<noteq> HIERARCHY_ENTRY_BYTES
     then Err (InvalidInput ''hierarchy entry destination is {} bytes, expected {}'')
     else
       let dst = put_at dst 0 (u32_to_le (vk_level (e_key e)));
           dst = put_at dst 4 (u32_to_le (vk_x (e_key e)));
           dst = put_at dst 8 (u32_to_le (vk_y (e_key e)));
           dst = put_at dst 12 (u32_to_le (vk_z (e_key e)));
           dst = put_at dst 16 (u64_to_le (e_offset e));
           dst = put_at dst 24 (u32_to_le (e_byte_size e));
           dst = put_at dst 28 (u32_to_le (e_point_count e))
       in Ok dst)"

definition entry_from_le :: "u8 list \<Rightarrow> entry result" where
  "entry_from_le src =
     (if length src \<noteq> HIERARCHY_ENTRY_BYTES
      then Err (InvalidData ''hierarchy entry is {} bytes, expected {}'')
      else
        let e = \<lparr>e_key = VoxelKey (u32_from_le (bslice src 0 4)) (u32_from_le (bslice src 4 4))
                          (u32_from_le (bslice src 8 4)) (u32_from_le (bslice src 12 4)),
                 e_offset = u64_from_le (bslice src 16 8),
                 e_byte_size = u32_from_le (bslice src 24 4),
                 e_point_count = u32_from_le (bslice src 28 4)\<rparr>
        in bind_res (entry_validate e) (\<lambda>_. Ok e))"

text \<open>The 32 bytes as one concatenation, the form the proofs use.\<close>

definition entry_bytes :: "entry \<Rightarrow> u8 list" where
  "entry_bytes e =
     u32_to_le (vk_level (e_key e)) @ u32_to_le (vk_x (e_key e)) @ u32_to_le (vk_y (e_key e)) @
     u32_to_le (vk_z (e_key e)) @ u64_to_le (e_offset e) @ u32_to_le (e_byte_size e) @
     u32_to_le (e_point_count e)"

lemma length_entry_bytes [simp]: "length (entry_bytes e) = 32"
  by (simp add: entry_bytes_def)

lemma entry_write_le_eq:
  assumes "length dst = 32"
  shows "entry_write_le e dst = bind_res (entry_validate e) (\<lambda>_. Ok (entry_bytes e))"
proof -
  have "put_at (put_at (put_at (put_at (put_at (put_at (put_at dst 0 a) 4 b) 8 c) 12 d) 16 f) 24 g) 28 h
      = a @ b @ c @ d @ f @ g @ h"
    if "length a = 4" "length b = 4" "length c = 4" "length d = 4" "length f = 8" "length g = 4"
      "length h = 4" for a b c d f g h :: "u8 list"
    using that assms by (simp add: put_at_def)
  then show ?thesis
    using assms by (simp add: entry_write_le_def HIERARCHY_ENTRY_BYTES_def entry_bytes_def Let_def)
qed

lemma entry_from_le_bytes:
  "entry_from_le (entry_bytes e) = bind_res (entry_validate e) (\<lambda>_. Ok e)"
  by (cases e) (simp add: entry_from_le_def HIERARCHY_ENTRY_BYTES_def entry_bytes_def bslice_def Let_def)

interpretation entry_records: fixed_codec entry_bytes entry_from_le 32 "\<lambda>e. entry_validate e = Ok ()" "\<lambda>e. e"
  by unfold_locales (simp_all add: entry_from_le_bytes)

lemma bytes_entry_from_le:
  assumes "entry_from_le bs = Ok e"
  shows "entry_bytes e = bs" and "entry_validate e = Ok ()"
proof -
  have len: "length bs = 32"
    using assms by (simp add: entry_from_le_def HIERARCHY_ENTRY_BYTES_def split: if_splits)
  have e: "e = \<lparr>e_key = VoxelKey (u32_from_le (bslice bs 0 4)) (u32_from_le (bslice bs 4 4))
                          (u32_from_le (bslice bs 8 4)) (u32_from_le (bslice bs 12 4)),
                 e_offset = u64_from_le (bslice bs 16 8),
                 e_byte_size = u32_from_le (bslice bs 24 4),
                 e_point_count = u32_from_le (bslice bs 28 4)\<rparr>"
    using assms len
    by (simp add: entry_from_le_def HIERARCHY_ENTRY_BYTES_def Let_def bind_res_Ok_iff)
  have "bslice bs 0 4 @ bslice bs 4 4 @ bslice bs 8 4 @ bslice bs 12 4 @ bslice bs 16 8 @ bslice bs 24 4
      @ bslice bs 28 4 = bs"
    using len by (simp add: bslice_concat bslice_all)
  then show "entry_bytes e = bs"
    using len by (simp add: e entry_bytes_def to_from_le)
  show "entry_validate e = Ok ()"
    using assms len e
    by (simp add: entry_from_le_def HIERARCHY_ENTRY_BYTES_def Let_def bind_res_Ok_iff)
qed

text \<open>What an accepted entry satisfies.\<close>

lemma entry_validate_Ok_iff:
  "entry_validate e = Ok u \<longleftrightarrow>
     vk_validate (e_key e) = Ok () \<and>
     (sint (e_point_count e) = 0 \<and> e_offset e = 0 \<and> e_byte_size e = 0 \<or>
      sint (e_point_count e) = -1 \<and> 0 < sint (e_byte_size e) \<or>
      0 < sint (e_point_count e) \<and> 0 < sint (e_byte_size e))"
  by (auto simp: entry_validate_def availability_def bind_res_Ok_iff u32_try_from_i32_def
      split: if_splits)

lemma availability_PointData:
  "has_point_data e \<Longrightarrow> availability e = Ok (PointData (e_point_count e))"
  by (simp add: has_point_data_def availability_def u32_try_from_i32_def)

lemma availability_ChildPage: "is_child_page e \<Longrightarrow> availability e = Ok ChildPage"
  by (simp add: is_child_page_def availability_def)

section \<open>Hierarchy pages\<close>

record hierarchy_page =
  page_entries :: "entry list"

text \<open>\<^verbatim>\<open>chunks_exact\<close>: the full chunks; a shorter rest is dropped.\<close>

function chunks_exact :: "nat \<Rightarrow> 'a list \<Rightarrow> 'a list list" where
  "chunks_exact n xs =
     (if n = 0 \<or> length xs < n then [] else take n xs # chunks_exact n (drop n xs))"
  by pat_completeness auto
termination
  by (relation "measure (\<lambda>(n, xs). length xs)") auto

declare chunks_exact.simps [simp del]

definition page_from_le_bytes :: "u8 list \<Rightarrow> hierarchy_page result" where
  "page_from_le_bytes bytes =
     (if \<not> HIERARCHY_ENTRY_BYTES dvd length bytes
      then Err (InvalidData ''hierarchy page is {} bytes, not a multiple of {}'')
      else
        bind_res (map_res entry_from_le (chunks_exact HIERARCHY_ENTRY_BYTES bytes)) (\<lambda>entries.
        Ok \<lparr>page_entries = entries\<rparr>))"

definition page_write_le_bytes :: "hierarchy_page \<Rightarrow> u8 list result" where
  "page_write_le_bytes p =
     bind_res (ok_or (checked_mul_usize (length (page_entries p)) HIERARCHY_ENTRY_BYTES)
       (InvalidInput ''hierarchy page size overflows usize'')) (\<lambda>byte_len.
     bind_res (map_res (\<lambda>(e, chunk). entry_write_le e chunk)
       (zip (page_entries p) (chunks_exact HIERARCHY_ENTRY_BYTES (replicate byte_len 0)))) (\<lambda>chunks.
     Ok (concat chunks)))"

lemma chunks_exact_concat:
  assumes "0 < n" "\<forall>c \<in> set cs. length c = n"
  shows "chunks_exact n (concat cs) = cs"
  using assms(2)
proof (induction cs)
  case Nil
  then show ?case using assms(1) by (simp add: chunks_exact.simps)
next
  case (Cons c cs)
  then show ?case using assms(1) by (simp add: chunks_exact.simps [of n "c @ concat cs"])
qed

lemma chunks_exact_props:
  assumes "0 < n" "n dvd length xs"
  shows "concat (chunks_exact n xs) = xs \<and> (\<forall>c \<in> set (chunks_exact n xs). length c = n)"
  using assms
proof (induction n xs rule: chunks_exact.induct)
  case (1 n xs)
  show ?case
  proof (cases "length xs < n")
    case True
    then have "length xs = 0" using "1.prems" by (auto dest: dvd_imp_le)
    then show ?thesis using "1.prems"(1) by (simp add: chunks_exact.simps [of n "[]"])
  next
    case False
    then have "n dvd length (drop n xs)" using "1.prems"(2) dvd_diff_nat [of n "length xs" n] by simp
    then have IH: "concat (chunks_exact n (drop n xs)) = drop n xs"
      "\<forall>c \<in> set (chunks_exact n (drop n xs)). length c = n"
      using "1.IH" "1.prems"(1) False by blast+
    have eq: "chunks_exact n xs = take n xs # chunks_exact n (drop n xs)"
      using "1.prems"(1) False by (subst chunks_exact.simps) simp
    have "length (take n xs) = n" using False by simp
    with IH(2) have "\<forall>c \<in> set (chunks_exact n xs). length c = n"
      unfolding eq by (metis set_ConsD)
    moreover have "concat (chunks_exact n xs) = xs"
      unfolding eq concat.simps IH(1) by (rule append_take_drop_id)
    ultimately show ?thesis by blast
  qed
qed

lemma length_chunks_exact:
  assumes "0 < n" "n dvd length xs"
  shows "length (chunks_exact n xs) = length xs div n"
proof -
  have p: "concat (chunks_exact n xs) = xs" "\<forall>c \<in> set (chunks_exact n xs). length c = n"
    using chunks_exact_props [OF assms] by auto
  have "length (concat cs) = length cs * n" if "\<forall>c \<in> set cs. length c = n" for cs :: "'a list list"
    using that by (induction cs) simp_all
  from this [OF p(2)] p(1) assms(1) show ?thesis by simp
qed

lemma chunks_exact_replicate_length:
  assumes "0 < n"
  shows "chunks_exact n (replicate (m * n) x) = replicate m (replicate n x)"
proof -
  have "replicate (m * n) x = concat (replicate m (replicate n x))"
    by (induction m) (simp_all add: replicate_add)
  then show ?thesis using assms by (simp add: chunks_exact_concat)
qed

text \<open>A page is the concatenation of its entries' bytes.\<close>

lemma page_write_le_bytes_eq:
  assumes "length (page_entries p) * 32 \<le> usize_max"
  shows "page_write_le_bytes p =
    bind_res (map_res (\<lambda>e. bind_res (entry_validate e) (\<lambda>_. Ok (entry_bytes e))) (page_entries p))
      (\<lambda>cs. Ok (concat cs))"
proof -
  have z: "map_res (\<lambda>(e, chunk). entry_write_le e chunk) (zip es (replicate (length es) c)) =
      map_res (\<lambda>e. bind_res (entry_validate e) (\<lambda>_. Ok (entry_bytes e))) es"
    if "length c = 32" for es and c :: "u8 list"
    using that by (induction es) (simp_all add: entry_write_le_eq)
  have "length (replicate 32 (0 :: u8)) = 32" by simp
  from z [OF this] show ?thesis
    using assms
    by (simp add: page_write_le_bytes_def checked_mul_usize_def HIERARCHY_ENTRY_BYTES_def
        chunks_exact_replicate_length)
qed

lemma page_from_le_bytes_concat:
  "page_from_le_bytes (concat (map entry_bytes es)) =
    bind_res (map_res (\<lambda>e. bind_res (entry_validate e) (\<lambda>_. Ok e)) es) (\<lambda>es. Ok \<lparr>page_entries = es\<rparr>)"
proof -
  have dvd: "32 dvd length (concat (map entry_bytes es))"
    by (induction es) simp_all
  have ch: "chunks_exact 32 (concat (map entry_bytes es)) = map entry_bytes es"
    by (rule chunks_exact_concat) auto
  have "map_res entry_from_le (map entry_bytes es) =
      map_res (\<lambda>e. bind_res (entry_validate e) (\<lambda>_. Ok e)) es"
    by (induction es) (simp_all add: entry_from_le_bytes)
  then show ?thesis
    using dvd by (simp add: page_from_le_bytes_def HIERARCHY_ENTRY_BYTES_def ch)
qed

lemma page_from_le_bytes_Ok:
  assumes "page_from_le_bytes bs = Ok p"
  shows "concat (map entry_bytes (page_entries p)) = bs"
    and "\<forall>e \<in> set (page_entries p). entry_validate e = Ok ()"
proof -
  have dvd: "32 dvd length bs" and es: "map_res entry_from_le (chunks_exact 32 bs) = Ok (page_entries p)"
    using assms
    by (auto simp: page_from_le_bytes_def HIERARCHY_ENTRY_BYTES_def bind_res_Ok_iff split: if_splits)
  have pw: "list_all2 (\<lambda>c e. entry_from_le c = Ok e) (chunks_exact 32 bs) (page_entries p)"
    using es by (simp add: map_res_Ok_iff)
  then have "list_all2 (\<lambda>c e. entry_bytes e = c) (chunks_exact 32 bs) (page_entries p)"
    by (rule list_all2_mono) (rule bytes_entry_from_le)
  then have "map entry_bytes (page_entries p) = chunks_exact 32 bs"
    by (simp add: list_all2_conv_all_nth list_eq_iff_nth_eq)
  then show "concat (map entry_bytes (page_entries p)) = bs"
    using chunks_exact_props [OF _ dvd] by simp
  show "\<forall>e \<in> set (page_entries p). entry_validate e = Ok ()"
    using pw bytes_entry_from_le(2) by (fastforce simp: list_all2_conv_all_nth in_set_conv_nth)
qed

section \<open>Properties\<close>

text \<open>C11: the child of a voxel key: \<open>child\<close> succeeds exactly on a valid key, an octant
  0..=7 and a level that does not overflow, and the child has the next level and each axis doubled
  plus its octant bit.\<close>
theorem child_spec:
  "vk_child k octant = Ok c \<longleftrightarrow>
     vk_validate k = Ok () \<and> octant \<le> 7 \<and>
     sint (vk_level k) + 1 < 2 ^ 31 \<and>
     sint (vk_level c) = sint (vk_level k) + 1 \<and>
     sint (vk_x c) = 2 * sint (vk_x k) + octant_bit octant 0 \<and>
     sint (vk_y c) = 2 * sint (vk_y k) + octant_bit octant 1 \<and>
     sint (vk_z c) = 2 * sint (vk_z k) + octant_bit octant 2"
  by (rule vk_child_Ok_iff)

text \<open>The 32-byte form of a hierarchy entry: parsing and printing are inverse, and accept
  the same entries.\<close>
theorem entry_round_trip:
  "entry_from_le bs = Ok e \<longleftrightarrow> entry_write_le e (replicate 32 0) = Ok bs"
proof
  assume "entry_from_le bs = Ok e"
  from bytes_entry_from_le [OF this] show "entry_write_le e (replicate 32 0) = Ok bs"
    by (simp add: entry_write_le_eq)
next
  assume "entry_write_le e (replicate 32 0) = Ok bs"
  then have "entry_validate e = Ok ()" "bs = entry_bytes e"
    by (auto simp: entry_write_le_eq bind_res_Ok_iff)
  then show "entry_from_le bs = Ok e" by (simp add: entry_from_le_bytes)
qed

text \<open>C10: a hierarchy page: parsing and printing are inverse, up to the length a 64-bit machine
  can hold.\<close>
theorem page_round_trip:
  "page_from_le_bytes bs = Ok p \<and> length bs \<le> usize_max \<longleftrightarrow> page_write_le_bytes p = Ok bs"
proof -
  have len: "length (concat (map entry_bytes es)) = 32 * length es" for es
    by (induction es) simp_all
  show ?thesis
  proof
    assume p: "page_from_le_bytes bs = Ok p \<and> length bs \<le> usize_max"
    note r = page_from_le_bytes_Ok [OF conjunct1 [OF p]]
    have "length (page_entries p) * 32 \<le> usize_max" using p r(1) len by (metis mult.commute)
    moreover have "map_res (\<lambda>e. bind_res (entry_validate e) (\<lambda>_. Ok (entry_bytes e))) (page_entries p) =
        Ok (map entry_bytes (page_entries p))"
      by (rule map_res_all_Ok) (use r(2) in simp)
    ultimately show "page_write_le_bytes p = Ok bs" using r(1) by (simp add: page_write_le_bytes_eq)
  next
    assume w: "page_write_le_bytes p = Ok bs"
    then have le: "length (page_entries p) * 32 \<le> usize_max"
      by (auto simp: page_write_le_bytes_def bind_res_Ok_iff checked_mul_usize_def
          HIERARCHY_ENTRY_BYTES_def split: if_splits)
    obtain cs where cs: "map_res (\<lambda>e. bind_res (entry_validate e) (\<lambda>_. Ok (entry_bytes e))) (page_entries p) = Ok cs"
      "bs = concat cs"
      using w by (auto simp: page_write_le_bytes_eq [OF le] bind_res_Ok_iff)
    then have l2: "list_all2 (\<lambda>e c. entry_validate e = Ok () \<and> c = entry_bytes e) (page_entries p) cs"
      by (simp add: map_res_Ok_iff bind_res_Ok_iff) (auto elim: list_all2_mono)
    then have "cs = map entry_bytes (page_entries p)"
      by (simp add: list_all2_conv_all_nth list_eq_iff_nth_eq)
    moreover have "map_res (\<lambda>e. bind_res (entry_validate e) (\<lambda>_. Ok e)) (page_entries p) =
        Ok (map (\<lambda>e. e) (page_entries p))"
      by (rule map_res_all_Ok) (use l2 in \<open>auto simp: list_all2_conv_all_nth in_set_conv_nth\<close>)
    ultimately show "page_from_le_bytes bs = Ok p \<and> length bs \<le> usize_max"
      using cs(2) le len [of "page_entries p"] by (simp add: page_from_le_bytes_concat mult.commute)
  qed
qed

end
