(* ===== verification/Copc_Info.thy ===== *)
theory Copc_Info
  imports Floats Hierarchy
begin

text \<open>
  \<^verbatim>\<open>copc-core/src/info.rs\<close>: the 160-byte payload of the COPC info VLR. The lemmas show that a
  valid record survives serialization and that an accepted payload is the serialization of what
  it was parsed to.
\<close>

definition COPC_INFO_BYTES :: nat where
  "COPC_INFO_BYTES = 160"

record copc_info =
  ci_center :: "f64 \<times> f64 \<times> f64"
  ci_halfsize :: f64
  ci_spacing :: f64
  ci_root_hier_offset :: u64
  ci_root_hier_size :: u64
  ci_gpstime_min :: f64
  ci_gpstime_max :: f64

definition info_validate :: "copc_info \<Rightarrow> unit result" where
  "info_validate i =
     (case ci_center i of (cx, cy, cz) \<Rightarrow>
      bind_res (fold_res (\<lambda>value _. ensure (f64_is_finite value)
          (InvalidData ''COPC info {name} must be finite, got {value}'')) [cx, cy, cz] ()) (\<lambda>_.
      bind_res (fold_res (\<lambda>value _. ensure (\<not> (\<not> f64_is_finite value \<or> f64_le value f64_zero))
          (InvalidData ''COPC info {name} must be finite and positive, got {value}''))
          [ci_halfsize i, ci_spacing i] ()) (\<lambda>_.
      if ci_root_hier_offset i = 0
      then Err (InvalidData ''COPC root hierarchy offset must be non-zero'')
      else if ci_root_hier_size i = 0
      then Err (InvalidData ''COPC root hierarchy page is empty'')
      else if \<not> HIERARCHY_ENTRY_BYTES dvd unat (ci_root_hier_size i)
      then Err (InvalidData ''COPC root hierarchy size {} is not a multiple of {}'')
      else if \<not> f64_is_finite (ci_gpstime_min i) \<or> \<not> f64_is_finite (ci_gpstime_max i)
      then Err (InvalidData ''COPC GPS time range must be finite, got {}..{}'')
      else if f64_lt (ci_gpstime_max i) (ci_gpstime_min i)
      then Err (InvalidData ''COPC GPS time minimum {} exceeds maximum {}'')
      else Ok ())))"

definition read_u64_at :: "u8 list \<Rightarrow> nat \<Rightarrow> u64" where
  "read_u64_at bytes off = u64_from_le (bslice bytes off 8)"

definition read_f64_at :: "u8 list \<Rightarrow> nat \<Rightarrow> f64" where
  "read_f64_at bytes off = u64_from_le (bslice bytes off 8)"

definition write_u64_at :: "u8 list \<Rightarrow> nat \<Rightarrow> u64 \<Rightarrow> u8 list" where
  "write_u64_at bytes off value = put_at bytes off (u64_to_le value)"

definition write_f64_at :: "u8 list \<Rightarrow> nat \<Rightarrow> f64 \<Rightarrow> u8 list" where
  "write_f64_at bytes off value = put_at bytes off (u64_to_le value)"

definition info_from_le_bytes :: "u8 list \<Rightarrow> copc_info result" where
  "info_from_le_bytes bytes =
     (if length bytes \<noteq> COPC_INFO_BYTES
      then Err (InvalidData ''COPC info payload is {} bytes, expected exactly {}'')
      else if list_ex (\<lambda>b. b \<noteq> 0) (drop 72 bytes)
      then Err (InvalidData ''COPC info reserved bytes must all be zero'')
      else
        let info = \<lparr>ci_center = (read_f64_at bytes 0, read_f64_at bytes 8, read_f64_at bytes 16),
                    ci_halfsize = read_f64_at bytes 24,
                    ci_spacing = read_f64_at bytes 32,
                    ci_root_hier_offset = read_u64_at bytes 40,
                    ci_root_hier_size = read_u64_at bytes 48,
                    ci_gpstime_min = read_f64_at bytes 56,
                    ci_gpstime_max = read_f64_at bytes 64\<rparr>
        in bind_res (info_validate info) (\<lambda>_. Ok info))"

definition info_write_le_bytes :: "copc_info \<Rightarrow> u8 list result" where
  "info_write_le_bytes i =
     bind_res (info_validate i) (\<lambda>_.
     case ci_center i of (cx, cy, cz) \<Rightarrow>
       let out = replicate COPC_INFO_BYTES 0;
           out = write_f64_at out 0 cx;
           out = write_f64_at out 8 cy;
           out = write_f64_at out 16 cz;
           out = write_f64_at out 24 (ci_halfsize i);
           out = write_f64_at out 32 (ci_spacing i);
           out = write_u64_at out 40 (ci_root_hier_offset i);
           out = write_u64_at out 48 (ci_root_hier_size i);
           out = write_f64_at out 56 (ci_gpstime_min i);
           out = write_f64_at out 64 (ci_gpstime_max i)
       in Ok out)"

text \<open>The payload as one concatenation.\<close>

definition info_bytes :: "copc_info \<Rightarrow> u8 list" where
  "info_bytes i =
     (case ci_center i of (cx, cy, cz) \<Rightarrow>
        u64_to_le cx @ u64_to_le cy @ u64_to_le cz @ u64_to_le (ci_halfsize i) @
        u64_to_le (ci_spacing i) @ u64_to_le (ci_root_hier_offset i) @
        u64_to_le (ci_root_hier_size i) @ u64_to_le (ci_gpstime_min i) @
        u64_to_le (ci_gpstime_max i) @ replicate 88 0)"

lemma length_info_bytes [simp]: "length (info_bytes i) = 160"
  by (simp add: info_bytes_def split: prod.split)

lemma info_write_le_bytes_eq:
  "info_write_le_bytes i = bind_res (info_validate i) (\<lambda>_. Ok (info_bytes i))"
proof -
  obtain cx cy cz where c: "ci_center i = (cx, cy, cz)" by (cases "ci_center i")
  have "put_at (put_at (put_at (put_at (put_at (put_at (put_at (put_at (put_at dst 0 a) 8 b) 16 p) 24 d)
      32 f) 40 g) 48 h) 56 k) 64 l = a @ b @ p @ d @ f @ g @ h @ k @ l @ drop 72 dst"
    if "length dst = 160" "length a = 8" "length b = 8" "length p = 8" "length d = 8" "length f = 8"
      "length g = 8" "length h = 8" "length k = 8" "length l = 8" for dst a b p d f g h k l :: "u8 list"
    using that by (simp add: put_at_def)
  from this [of "replicate 160 0"] show ?thesis
    by (simp add: info_write_le_bytes_def info_bytes_def COPC_INFO_BYTES_def write_f64_at_def
        write_u64_at_def c)
qed

lemma info_from_le_bytes_bytes:
  "info_from_le_bytes (info_bytes i) = bind_res (info_validate i) (\<lambda>_. Ok i)"
proof -
  obtain cx cy cz where c: "ci_center i = (cx, cy, cz)" by (cases "ci_center i")
  have z: "\<not> list_ex (\<lambda>b. b \<noteq> 0) (drop 72 (info_bytes i))"
    by (simp add: info_bytes_def c list_ex_iff)
  have fields: "read_f64_at (info_bytes i) 0 = cx" "read_f64_at (info_bytes i) 8 = cy"
    "read_f64_at (info_bytes i) 16 = cz" "read_f64_at (info_bytes i) 24 = ci_halfsize i"
    "read_f64_at (info_bytes i) 32 = ci_spacing i"
    "read_u64_at (info_bytes i) 40 = ci_root_hier_offset i"
    "read_u64_at (info_bytes i) 48 = ci_root_hier_size i"
    "read_f64_at (info_bytes i) 56 = ci_gpstime_min i"
    "read_f64_at (info_bytes i) 64 = ci_gpstime_max i"
    by (simp_all add: read_f64_at_def read_u64_at_def info_bytes_def c bslice_def)
  have i: "\<lparr>ci_center = (cx, cy, cz), ci_halfsize = ci_halfsize i, ci_spacing = ci_spacing i,
      ci_root_hier_offset = ci_root_hier_offset i, ci_root_hier_size = ci_root_hier_size i,
      ci_gpstime_min = ci_gpstime_min i, ci_gpstime_max = ci_gpstime_max i\<rparr> = i"
    using c by (cases i) simp
  show ?thesis
    by (simp add: info_from_le_bytes_def COPC_INFO_BYTES_def z fields i Let_def)
qed

lemma bytes_info_from_le_bytes:
  assumes "info_from_le_bytes bs = Ok i"
  shows "info_bytes i = bs" and "info_validate i = Ok ()"
proof -
  have len: "length bs = 160" and z: "\<forall>b \<in> set (drop 72 bs). b = 0"
    using assms by (auto simp: info_from_le_bytes_def COPC_INFO_BYTES_def list_ex_iff split: if_splits)
  have i: "i = \<lparr>ci_center = (read_f64_at bs 0, read_f64_at bs 8, read_f64_at bs 16),
                    ci_halfsize = read_f64_at bs 24, ci_spacing = read_f64_at bs 32,
                    ci_root_hier_offset = read_u64_at bs 40, ci_root_hier_size = read_u64_at bs 48,
                    ci_gpstime_min = read_f64_at bs 56, ci_gpstime_max = read_f64_at bs 64\<rparr>"
    and v: "info_validate i = Ok ()"
    using assms by (auto simp: info_from_le_bytes_def Let_def bind_res_Ok_iff split: if_splits)
  show "info_validate i = Ok ()" by (rule v)
  have rest: "bslice bs 72 88 = replicate 88 0"
    using z len by (simp add: bslice_def list_eq_iff_nth_eq all_set_conv_all_nth)
  have "bslice bs 0 8 @ bslice bs 8 8 @ bslice bs 16 8 @ bslice bs 24 8 @ bslice bs 32 8 @ bslice bs 40 8
      @ bslice bs 48 8 @ bslice bs 56 8 @ bslice bs 64 8 @ bslice bs 72 88 = bs"
    using len by (simp add: bslice_concat bslice_all)
  then show "info_bytes i = bs"
    using len by (simp add: i info_bytes_def read_f64_at_def read_u64_at_def to_from_le rest)
qed

section \<open>Properties\<close>

text \<open>The COPC info payload: parsing and printing are inverse; a payload is accepted exactly
  when it is the serialization of a valid record.\<close>
theorem info_round_trip:
  "info_from_le_bytes bs = Ok i \<longleftrightarrow> info_write_le_bytes i = Ok bs"
proof
  assume "info_from_le_bytes bs = Ok i"
  from bytes_info_from_le_bytes [OF this] show "info_write_le_bytes i = Ok bs"
    by (simp add: info_write_le_bytes_eq)
next
  assume "info_write_le_bytes i = Ok bs"
  then have "info_validate i = Ok ()" "bs = info_bytes i"
    by (auto simp: info_write_le_bytes_eq bind_res_Ok_iff)
  then show "info_from_le_bytes bs = Ok i" by (simp add: info_from_le_bytes_bytes)
qed

end
