(* ===== verification/Stream_IO.thy ===== *)
theory Stream_IO
  imports Prelude
begin

text \<open>
  Byte streams as the reader sees them. A \<open>section\<close> is \<^verbatim>\<open>SectionReader\<close> of
  \<^verbatim>\<open>copc-reader/src/ranged.rs\<close>: bytes presented at absolute offsets from \<open>sec_base\<close>, with a
  cursor. A whole file (\<^verbatim>\<open>File\<close>, \<^verbatim>\<open>Cursor\<close>) is the section with base 0. The underlying device does
  not fail: an I/O error is a read that runs out of bytes. Parsers are functions of the section
  that return a value and the moved section, or an error.
\<close>

section \<open>Sections\<close>

record bsection =
  sec_base :: nat
  sec_data :: "u8 list"
  sec_pos :: nat

definition section_new :: "nat \<Rightarrow> u8 list \<Rightarrow> bsection" where
  "section_new base data = \<lparr>sec_base = base, sec_data = data, sec_pos = base\<rparr>"

text \<open>\<^verbatim>\<open>Read::read\<close> of \<^verbatim>\<open>SectionReader\<close> into a buffer of \<open>n\<close> bytes: the bytes read.\<close>

definition section_read :: "nat \<Rightarrow> bsection \<Rightarrow> (u8 list \<times> bsection) result" where
  "section_read n s =
     (if sec_pos s < sec_base s then Err (Io ''read before fetched section'')
      else
        let start = sec_pos s - sec_base s
        in if length (sec_data s) < start then Err (Io ''read past fetched section'')
           else
             let available = drop start (sec_data s);
                 take_n = min (length available) n
             in Ok (take take_n available, s\<lparr>sec_pos := sec_pos s + take_n\<rparr>))"

text \<open>\<^verbatim>\<open>Seek::seek\<close> to \<^verbatim>\<open>SeekFrom::Start\<close> always succeeds.\<close>

definition section_seek :: "nat \<Rightarrow> bsection \<Rightarrow> bsection" where
  "section_seek target s = s\<lparr>sec_pos := target\<rparr>"

section \<open>Parsers\<close>

type_synonym 'a rd = "bsection \<Rightarrow> ('a \<times> bsection) result"

definition rbind :: "'a rd \<Rightarrow> ('a \<Rightarrow> 'b rd) \<Rightarrow> 'b rd" where
  "rbind m k s = bind_res (m s) (\<lambda>(x, t). k x t)"

definition rret :: "'a \<Rightarrow> 'a rd" where
  "rret x s = Ok (x, s)"

text \<open>\<^verbatim>\<open>if !b { return Err(e) }\<close>\<close>

definition rguard :: "bool \<Rightarrow> copc_error \<Rightarrow> unit rd" where
  "rguard b e s = (if b then Ok ((), s) else Err e)"

text \<open>A result used inside a parser with \<^verbatim>\<open>?\<close>.\<close>

definition rlift :: "'a result \<Rightarrow> 'a rd" where
  "rlift r s = bind_res r (\<lambda>x. Ok (x, s))"

definition rseek :: "nat \<Rightarrow> unit rd" where
  "rseek p s = Ok ((), section_seek p s)"

definition rposition :: "nat rd" where
  "rposition s = Ok (sec_pos s, s)"

text \<open>
  \<^verbatim>\<open>Read::read_exact\<close>: loop over \<open>read\<close> until the buffer is full; an empty read is an error. One
  \<open>read\<close> of a section returns everything there is, so the loop makes at most two.
\<close>

definition read_exact :: "string \<Rightarrow> nat \<Rightarrow> u8 list rd" where
  "read_exact ctx n s =
     (if n = 0 then Ok ([], s)
      else case section_read n s of
          Inl _ \<Rightarrow> Err (Io ctx)
        | Inr (bs, t) \<Rightarrow> if length bs = n then Ok (bs, t) else Err (Io ctx))"

text \<open>The little-endian readers of \<^verbatim>\<open>byteorder\<close>: \<open>read_exact\<close> of the width, then \<^verbatim>\<open>from_le_bytes\<close>.\<close>

definition read_u8 :: "string \<Rightarrow> u8 rd" where
  "read_u8 ctx = rbind (read_exact ctx 1) (\<lambda>bs. rret (hd bs))"

definition read_u16 :: "string \<Rightarrow> u16 rd" where
  "read_u16 ctx = rbind (read_exact ctx 2) (\<lambda>bs. rret (u16_from_le bs))"

definition read_u32 :: "string \<Rightarrow> u32 rd" where
  "read_u32 ctx = rbind (read_exact ctx 4) (\<lambda>bs. rret (u32_from_le bs))"

definition read_u64 :: "string \<Rightarrow> u64 rd" where
  "read_u64 ctx = rbind (read_exact ctx 8) (\<lambda>bs. rret (u64_from_le bs))"

definition read_f64 :: "string \<Rightarrow> f64 rd" where
  "read_f64 ctx = rbind (read_exact ctx 8) (\<lambda>bs. rret (u64_from_le bs))"

text \<open>A counted loop whose body parses and may return early.\<close>

fun rfor :: "nat \<Rightarrow> nat \<Rightarrow> (nat \<Rightarrow> 's \<Rightarrow> 's rd) \<Rightarrow> 's \<Rightarrow> 's rd" where
  "rfor i 0 body st = rret st"
| "rfor i (Suc n) body st = rbind (body i st) (rfor (Suc i) n body)"

section \<open>Facts\<close>

text \<open>The bytes a section holds at an absolute range, when it holds them all.\<close>

definition holds_range :: "bsection \<Rightarrow> nat \<Rightarrow> nat \<Rightarrow> bool" where
  "holds_range s p n = (sec_base s \<le> p \<and> p + n \<le> sec_base s + length (sec_data s))"

definition sec_bytes :: "bsection \<Rightarrow> nat \<Rightarrow> nat \<Rightarrow> u8 list" where
  "sec_bytes s p n = bslice (sec_data s) (p - sec_base s) n"

lemma rbind_simps [simp]: "rbind (rret x) k = k x"
  by (simp add: fun_eq_iff rbind_def rret_def)

lemma rbind_assoc: "rbind (rbind m k) l = rbind m (\<lambda>x. rbind (k x) l)"
  by (auto simp: fun_eq_iff rbind_def bind_res_def split: sum.splits prod.splits)

lemma rbind_done_check:
  "rbind (rlift (Inr x)) kx s = kx x s" "rbind (rguard True e) ku s = ku () s"
  by (simp_all add: rbind_def rlift_def rguard_def)

lemma rbind_Ok_iff:
  "rbind m k s = Ok (y, u) \<longleftrightarrow> (\<exists>x t. m s = Ok (x, t) \<and> k x t = Ok (y, u))"
  by (auto simp: rbind_def bind_res_Ok_iff)

lemma rret_Ok_iff [simp]: "rret x s = Ok (y, t) \<longleftrightarrow> y = x \<and> t = s"
  by (auto simp: rret_def)

lemma rguard_Ok_iff [simp]: "rguard b e s = Ok (y, t) \<longleftrightarrow> b \<and> t = s"
  by (auto simp: rguard_def)

lemma rguard_simps [simp]: "rguard True e s = Ok ((), s)" "rguard False e s = Err e"
  by (simp_all add: rguard_def)

lemma rseek_Ok_iff [simp]: "rseek p s = Ok (y, t) \<longleftrightarrow> t = s\<lparr>sec_pos := p\<rparr>"
  by (auto simp: rseek_def section_seek_def)

lemma rlift_Ok_iff [simp]: "rlift r s = Ok (y, t) \<longleftrightarrow> r = Ok y \<and> t = s"
  by (auto simp: rlift_def bind_res_Ok_iff)

lemma rposition_Ok_iff [simp]: "rposition s = Ok (y, t) \<longleftrightarrow> y = sec_pos s \<and> t = s"
  by (auto simp: rposition_def)

lemma read_exact_eq:
  "read_exact ctx n s =
    (if n = 0 then Ok ([], s)
     else if holds_range s (sec_pos s) n
     then Ok (sec_bytes s (sec_pos s) n, s\<lparr>sec_pos := sec_pos s + n\<rparr>)
     else Err (Io ctx))"
  by (auto simp: read_exact_def section_read_def holds_range_def sec_bytes_def bslice_def Let_def min_def)

lemma read_exact_Ok_iff:
  "read_exact ctx n s = Ok (bs, t) \<longleftrightarrow>
    (n = 0 \<or> holds_range s (sec_pos s) n) \<and> bs = sec_bytes s (sec_pos s) n \<and>
    t = s\<lparr>sec_pos := sec_pos s + n\<rparr>"
  by (auto simp: read_exact_eq sec_bytes_def bslice_def)

lemma length_sec_bytes: "holds_range s p n \<Longrightarrow> length (sec_bytes s p n) = n"
  by (auto simp: holds_range_def sec_bytes_def)

lemma read_num_Ok:
  "read_u8 ctx s = Ok (v, t) \<longleftrightarrow> holds_range s (sec_pos s) 1 \<and> v = hd (sec_bytes s (sec_pos s) 1) \<and>
     t = s\<lparr>sec_pos := sec_pos s + 1\<rparr>"
  "read_u16 ctx s = Ok (v2, t) \<longleftrightarrow> holds_range s (sec_pos s) 2 \<and>
     v2 = u16_from_le (sec_bytes s (sec_pos s) 2) \<and> t = s\<lparr>sec_pos := sec_pos s + 2\<rparr>"
  "read_u32 ctx s = Ok (v4, t) \<longleftrightarrow> holds_range s (sec_pos s) 4 \<and>
     v4 = u32_from_le (sec_bytes s (sec_pos s) 4) \<and> t = s\<lparr>sec_pos := sec_pos s + 4\<rparr>"
  "read_u64 ctx s = Ok (v8, t) \<longleftrightarrow> holds_range s (sec_pos s) 8 \<and>
     v8 = u64_from_le (sec_bytes s (sec_pos s) 8) \<and> t = s\<lparr>sec_pos := sec_pos s + 8\<rparr>"
  "read_f64 ctx s = Ok (vf, t) \<longleftrightarrow> holds_range s (sec_pos s) 8 \<and>
     vf = u64_from_le (sec_bytes s (sec_pos s) 8) \<and> t = s\<lparr>sec_pos := sec_pos s + 8\<rparr>"
  by (auto simp: read_u8_def read_u16_def read_u32_def read_u64_def read_f64_def rbind_Ok_iff
      read_exact_Ok_iff)

text \<open>Reads on a section that holds the range.\<close>

lemma read_num_eq:
  "holds_range s (sec_pos s) 1 \<Longrightarrow> read_u8 ctx s =
     Ok (hd (sec_bytes s (sec_pos s) 1), s\<lparr>sec_pos := sec_pos s + 1\<rparr>)"
  "holds_range s (sec_pos s) 2 \<Longrightarrow> read_u16 ctx s =
     Ok (u16_from_le (sec_bytes s (sec_pos s) 2), s\<lparr>sec_pos := sec_pos s + 2\<rparr>)"
  "holds_range s (sec_pos s) 4 \<Longrightarrow> read_u32 ctx s =
     Ok (u32_from_le (sec_bytes s (sec_pos s) 4), s\<lparr>sec_pos := sec_pos s + 4\<rparr>)"
  "holds_range s (sec_pos s) 8 \<Longrightarrow> read_u64 ctx s =
     Ok (u64_from_le (sec_bytes s (sec_pos s) 8), s\<lparr>sec_pos := sec_pos s + 8\<rparr>)"
  "holds_range s (sec_pos s) 8 \<Longrightarrow> read_f64 ctx s =
     Ok (u64_from_le (sec_bytes s (sec_pos s) 8), s\<lparr>sec_pos := sec_pos s + 8\<rparr>)"
  by (simp_all add: read_num_Ok)

lemma holds_range_pos [simp]: "holds_range (s\<lparr>sec_pos := p\<rparr>) = holds_range s"
  by (simp add: fun_eq_iff holds_range_def)

lemma sec_bytes_pos [simp]: "sec_bytes (s\<lparr>sec_pos := p\<rparr>) = sec_bytes s"
  by (simp add: fun_eq_iff sec_bytes_def)

text \<open>A cursor over a whole file: what each read returns at a known position.\<close>

definition fcur :: "u8 list \<Rightarrow> nat \<Rightarrow> bsection" where
  "fcur f p = \<lparr>sec_base = 0, sec_data = f, sec_pos = p\<rparr>"

lemma fcur_seek [simp]: "rseek q (fcur f p) = Ok ((), fcur f q)"
  by (simp add: rseek_def section_seek_def fcur_def)

lemma fcur_position [simp]: "rposition (fcur f p) = Ok (p, fcur f p)"
  by (simp add: rposition_def fcur_def)

lemma fcur_exact:
  "n = 0 \<or> p + n \<le> length f \<Longrightarrow> read_exact ctx n (fcur f p) = Ok (bslice f p n, fcur f (p + n))"
  by (auto simp: read_exact_Ok_iff fcur_def holds_range_def sec_bytes_def)

lemma fcur_reads:
  "p + 1 \<le> length f \<Longrightarrow> read_u8 ctx (fcur f p) = Ok (f ! p, fcur f (p + 1))"
  "p + 2 \<le> length f \<Longrightarrow> read_u16 ctx (fcur f p) = Ok (u16_from_le (bslice f p 2), fcur f (p + 2))"
  "p + 4 \<le> length f \<Longrightarrow> read_u32 ctx (fcur f p) = Ok (u32_from_le (bslice f p 4), fcur f (p + 4))"
  "p + 8 \<le> length f \<Longrightarrow> read_u64 ctx (fcur f p) = Ok (u64_from_le (bslice f p 8), fcur f (p + 8))"
  "p + 8 \<le> length f \<Longrightarrow> read_f64 ctx (fcur f p) = Ok (u64_from_le (bslice f p 8), fcur f (p + 8))"
  by (simp_all add: read_num_Ok fcur_def holds_range_def sec_bytes_def bslice_def hd_drop_conv_nth
      take_Suc_conv_app_nth)

text \<open>The same, inside a sequence: one rewrite rule per kind of step.\<close>

lemma fcur_steps:
  "rbind (rseek q) k (fcur f p) = k () (fcur f q)"
  "rbind rposition kp (fcur f p) = kp p (fcur f p)"
  "n = 0 \<or> p + n \<le> length f \<Longrightarrow> rbind (read_exact ctx n) kb (fcur f p) = kb (bslice f p n) (fcur f (p + n))"
  "p + 1 \<le> length f \<Longrightarrow> rbind (read_u8 ctx) k1 (fcur f p) = k1 (f ! p) (fcur f (p + 1))"
  "p + 2 \<le> length f \<Longrightarrow>
     rbind (read_u16 ctx) k2 (fcur f p) = k2 (u16_from_le (bslice f p 2)) (fcur f (p + 2))"
  "p + 4 \<le> length f \<Longrightarrow>
     rbind (read_u32 ctx) k4 (fcur f p) = k4 (u32_from_le (bslice f p 4)) (fcur f (p + 4))"
  "p + 8 \<le> length f \<Longrightarrow>
     rbind (read_u64 ctx) k8 (fcur f p) = k8 (u64_from_le (bslice f p 8)) (fcur f (p + 8))"
  "p + 8 \<le> length f \<Longrightarrow>
     rbind (read_f64 ctx) kf (fcur f p) = kf (u64_from_le (bslice f p 8)) (fcur f (p + 8))"
  by (simp_all add: rbind_def fcur_exact fcur_reads)

lemma rbind_check_iff:
  "rbind (rguard b e) k s = Ok y \<longleftrightarrow> b \<and> k () s = Ok y"
  "rbind (rlift r) kr s = Ok y \<longleftrightarrow> (\<exists>x. r = Ok x \<and> kr x s = Ok y)"
  by (cases b; simp add: rbind_def rguard_def) (auto simp: rbind_def rlift_def bind_res_Ok_iff)

lemma rlift_eq: "rlift r s = bind_res r (\<lambda>x. Ok (x, s))"
  by (simp add: rlift_def)

section \<open>A section of a file\<close>

text \<open>
  A section that holds bytes of a file at their offsets, and the parsers that read it as they would
  read the file: what such a parser finds in the section it finds in the file.
\<close>

definition part_of :: "u8 list \<Rightarrow> bsection \<Rightarrow> bool" where
  "part_of f s \<longleftrightarrow> sec_base s + length (sec_data s) \<le> length f \<and>
     sec_data s = bslice f (sec_base s) (length (sec_data s))"

definition reads_file :: "'a rd \<Rightarrow> bool" where
  "reads_file m \<longleftrightarrow> (\<forall>f s x t. part_of f s \<longrightarrow> m s = Ok (x, t) \<longrightarrow>
     part_of f t \<and> m (fcur f (sec_pos s)) = Ok (x, fcur f (sec_pos t)))"

named_theorems reads_file_intros

lemma reads_fileD:
  "reads_file m \<Longrightarrow> m s = Ok (x, t) \<Longrightarrow> part_of f s \<Longrightarrow> m (fcur f (sec_pos s)) = Ok (x, fcur f (sec_pos t))"
  by (simp add: reads_file_def)

lemma part_of_fcur [simp]: "part_of f (fcur f p)"
  by (simp add: part_of_def fcur_def bslice_def)

lemma part_of_pos [simp]: "part_of f (s\<lparr>sec_pos := p\<rparr>) = part_of f s"
  by (simp add: part_of_def)

lemma part_of_slice: "a + n \<le> length f \<Longrightarrow> part_of f (section_new a (bslice f a n))"
  by (simp add: part_of_def section_new_def)

lemma reads_file_cursor:
  assumes "reads_file m" "m (fcur f p) = Ok (x, t)"
  shows "t = fcur f (sec_pos t)"
proof -
  have "m (fcur f (sec_pos (fcur f p))) = Ok (x, fcur f (sec_pos t))" by (rule reads_fileD [OF assms]) simp
  then have "m (fcur f p) = Ok (x, fcur f (sec_pos t))" by (simp add: fcur_def)
  then show ?thesis using assms(2) by simp
qed

lemma reads_file_bind [reads_file_intros]:
  assumes "reads_file m" "\<And>x. reads_file (k x)"
  shows "reads_file (rbind m k)"
  unfolding reads_file_def
proof (intro allI impI)
  fix f s y u
  assume s: "part_of f s" and "rbind m k s = Ok (y, u)"
  then obtain x t where m: "m s = Ok (x, t)" and k: "k x t = Ok (y, u)" by (auto simp: rbind_Ok_iff)
  have "part_of f t" "m (fcur f (sec_pos s)) = Ok (x, fcur f (sec_pos t))" using assms(1) s m by (auto simp: reads_file_def)
  moreover from this(1) have "part_of f u" "k x (fcur f (sec_pos t)) = Ok (y, fcur f (sec_pos u))"
    using assms(2) k by (auto simp: reads_file_def)
  ultimately show "part_of f u \<and> rbind m k (fcur f (sec_pos s)) = Ok (y, fcur f (sec_pos u))" by (simp add: rbind_def)
qed

lemma reads_file_basic [reads_file_intros]:
  "reads_file (rret y)" "reads_file (rguard b e)" "reads_file (rlift r)" "reads_file rposition" "reads_file (rseek p)"
  by (auto simp: reads_file_def fcur_def)

lemma part_of_bytes:
  assumes "part_of f s" "holds_range s p n"
  shows "p + n \<le> length f" "sec_bytes s p n = bslice f p n"
proof -
  show "p + n \<le> length f" using assms by (simp add: part_of_def holds_range_def)
  have h: "sec_base s \<le> p" "p - sec_base s + n \<le> length (sec_data s)" using assms(2) by (auto simp: holds_range_def)
  have "sec_bytes s p n = bslice (bslice f (sec_base s) (length (sec_data s))) (p - sec_base s) n"
    using assms(1) unfolding sec_bytes_def part_of_def by metis
  also have "\<dots> = bslice f (sec_base s + (p - sec_base s)) n" by (rule bslice_bslice [OF h(2)])
  finally show "sec_bytes s p n = bslice f p n" using h(1) by simp
qed

lemma reads_file_exact [reads_file_intros]: "reads_file (read_exact ctx n)"
  unfolding reads_file_def
proof (intro allI impI)
  fix f s bs t
  assume s: "part_of f s" and "read_exact ctx n s = Ok (bs, t)"
  then have r: "n = 0 \<or> holds_range s (sec_pos s) n" "bs = (if n = 0 then [] else sec_bytes s (sec_pos s) n)"
    "t = s\<lparr>sec_pos := sec_pos s + n\<rparr>" by (auto simp: read_exact_eq split: if_splits)
  have "read_exact ctx n (fcur f (sec_pos s)) = Ok (bslice f (sec_pos s) n, fcur f (sec_pos s + n))"
    using r(1) part_of_bytes(1) [OF s] by (intro fcur_exact) blast
  moreover have "bs = bslice f (sec_pos s) n" using r(1,2) part_of_bytes(2) [OF s] by (auto simp: bslice_def)
  ultimately show "part_of f t \<and> read_exact ctx n (fcur f (sec_pos s)) = Ok (bs, fcur f (sec_pos t))"
    using s r(3) by simp
qed

lemma reads_file_nums [reads_file_intros]:
  "reads_file (read_u8 ctx)" "reads_file (read_u16 ctx)" "reads_file (read_u32 ctx)" "reads_file (read_u64 ctx)" "reads_file (read_f64 ctx)"
  unfolding read_u8_def read_u16_def read_u32_def read_u64_def read_f64_def by (intro reads_file_intros)+

lemma reads_file_if [reads_file_intros]: "reads_file m \<Longrightarrow> reads_file n \<Longrightarrow> reads_file (if b then m else n)"
  by simp

lemma reads_file_for [reads_file_intros]:
  assumes "\<And>i st. reads_file (body i st)"
  shows "reads_file (rfor i n body st)"
  by (induction n arbitrary: i st) (auto intro!: reads_file_intros assms)

section \<open>Strings\<close>

text \<open>A Rust string is its UTF-8 bytes; \<open>lit\<close> is an ASCII literal.\<close>

definition lit :: "string \<Rightarrow> u8 list" where
  "lit s = map of_char s"

definition cont_byte :: "u8 \<Rightarrow> bool" where
  "cont_byte b = (128 \<le> b \<and> b \<le> 191)"

text \<open>\<^verbatim>\<open>str::from_utf8\<close> succeeds: the well-formed byte sequences of the Unicode standard.\<close>

fun utf8_valid :: "u8 list \<Rightarrow> bool" where
  "utf8_valid [] = True"
| "utf8_valid (a # bs) =
     (if a \<le> 127 then utf8_valid bs
      else case bs of
        [] \<Rightarrow> False
      | b # cs \<Rightarrow>
          if 194 \<le> a \<and> a \<le> 223 then cont_byte b \<and> utf8_valid cs
          else case cs of
            [] \<Rightarrow> False
          | c # ds \<Rightarrow>
              if a = 224 then 160 \<le> b \<and> b \<le> 191 \<and> cont_byte c \<and> utf8_valid ds
              else if a = 237 then 128 \<le> b \<and> b \<le> 159 \<and> cont_byte c \<and> utf8_valid ds
              else if 225 \<le> a \<and> a \<le> 239 then cont_byte b \<and> cont_byte c \<and> utf8_valid ds
              else case ds of
                [] \<Rightarrow> False
              | d # es \<Rightarrow>
                  if a = 240 then 144 \<le> b \<and> b \<le> 191 \<and> cont_byte c \<and> cont_byte d \<and> utf8_valid es
                  else if 241 \<le> a \<and> a \<le> 243 then
                    cont_byte b \<and> cont_byte c \<and> cont_byte d \<and> utf8_valid es
                  else if a = 244 then
                    128 \<le> b \<and> b \<le> 143 \<and> cont_byte c \<and> cont_byte d \<and> utf8_valid es
                  else False)"

text \<open>\<^verbatim>\<open>trim_nul\<close> of \<^verbatim>\<open>copc-reader/src/lib.rs\<close>: the text before the first NUL, empty if it is not UTF-8.\<close>

definition trim_nul :: "u8 list \<Rightarrow> u8 list" where
  "trim_nul bytes =
     (let s = takeWhile (\<lambda>b. b \<noteq> 0) bytes in if utf8_valid s then s else [])"

lemma utf8_valid_ascii: "\<forall>b \<in> set s. b \<le> 127 \<Longrightarrow> utf8_valid s"
  by (induction s) auto

lemma trim_nul_padded:
  assumes "\<forall>b \<in> set s. b \<noteq> 0 \<and> b \<le> 127"
  shows "trim_nul (s @ replicate n 0) = s"
proof -
  have "takeWhile (\<lambda>b. b \<noteq> 0) (s @ replicate n 0) = s"
    using assms by (induction s) (cases n; simp)+
  then show ?thesis using assms by (simp add: trim_nul_def utf8_valid_ascii)
qed

end
