(* ===== verification/Las_Reader.thy ===== *)
theory Las_Reader
  imports Stream_IO Copc_Info
begin

text \<open>
  \<^verbatim>\<open>copc-reader/src/lib.rs\<close>: the LAS 1.4 header, the VLRs and EVLR headers, and the range checks.
  File offsets and sizes are natural numbers read from the \<^verbatim>\<open>u64\<close> fields with \<open>unat\<close>; every
  addition of two of them is \<open>checked_range_end\<close>, which reports the 64-bit overflow.
\<close>

section \<open>Constants and data\<close>

definition LAS_HEADER_SIZE_14 :: nat where "LAS_HEADER_SIZE_14 = 375"
definition VLR_HEADER_BYTES :: nat where "VLR_HEADER_BYTES = 54"
definition EVLR_HEADER_BYTES :: nat where "EVLR_HEADER_BYTES = 60"
definition MAX_HIERARCHY_PAGE_BYTES :: nat where "MAX_HIERARCHY_PAGE_BYTES = 64 * 1024 * 1024"
definition MAX_HIERARCHY_TOTAL_BYTES :: nat where "MAX_HIERARCHY_TOTAL_BYTES = 256 * 1024 * 1024"
definition MAX_POINT_CHUNK_BYTES :: nat where "MAX_POINT_CHUNK_BYTES = 512 * 1024 * 1024"
definition MAX_VLR_COUNT :: nat where "MAX_VLR_COUNT = 4096"
definition MAX_EVLR_COUNT :: nat where "MAX_EVLR_COUNT = 4096"

record las_header =
  lh_point_data_record_format :: u8
  lh_point_data_record_length :: u16
  lh_offset_to_point_data :: u32
  lh_number_of_vlrs :: u32
  lh_scale :: "f64 \<times> f64 \<times> f64"
  lh_offset :: "f64 \<times> f64 \<times> f64"
  lh_min :: "f64 \<times> f64 \<times> f64"
  lh_max :: "f64 \<times> f64 \<times> f64"
  lh_offset_to_first_evlr :: u64
  lh_number_of_evlrs :: u32
  lh_number_of_points :: u64

record vlr =
  vlr_index :: nat
  vlr_user_id :: "u8 list"
  vlr_record_id :: u16
  vlr_data :: "u8 list"

record evlr_ref =
  ev_user_id :: "u8 list"
  ev_record_id :: u16
  ev_data_offset :: nat
  ev_data_len :: nat

record data_ranges =
  point_data_start :: nat
  point_data_end :: nat
  hierarchy_start :: nat
  hierarchy_end :: nat

record hierarchy_read_limits =
  total_bytes :: nat

section \<open>Ranges\<close>

definition checked_range_end :: "nat \<Rightarrow> nat \<Rightarrow> string \<Rightarrow> nat result" where
  "checked_range_end off byte_size label =
     ok_or (if off + byte_size < 2 ^ 64 then Some (off + byte_size) else None)
       (InvalidData (label @ '' offset/size overflow''))"

definition validate_range_in_file :: "nat \<Rightarrow> nat \<Rightarrow> nat \<Rightarrow> string \<Rightarrow> nat result" where
  "validate_range_in_file off byte_size file_len label =
     bind_res (checked_range_end off byte_size label) (\<lambda>range_end.
     if file_len < range_end
     then Err (InvalidData (label @ '' range {}..{} exceeds file length {}''))
     else Ok range_end)"

definition data_ranges_new :: "las_header \<Rightarrow> nat \<Rightarrow> nat \<Rightarrow> data_ranges result" where
  "data_ranges_new header hier_start hier_len =
     (let pstart = unat (lh_offset_to_point_data header);
          pend = unat (lh_offset_to_first_evlr header)
      in if pend < pstart
         then Err (InvalidData ''first EVLR offset {} precedes point data offset {}'')
         else bind_res (checked_range_end hier_start hier_len ''hierarchy EVLR body'') (\<lambda>hend.
           Ok \<lparr>point_data_start = pstart, point_data_end = pend,
               hierarchy_start = hier_start, hierarchy_end = hend\<rparr>))"

definition validate_hierarchy_page_byte_size :: "nat \<Rightarrow> unit result" where
  "validate_hierarchy_page_byte_size byte_size =
     (if MAX_HIERARCHY_PAGE_BYTES < byte_size
      then Err (InvalidData ''hierarchy page is {} bytes, max supported is {}'')
      else Ok ())"

definition add_page :: "hierarchy_read_limits \<Rightarrow> nat \<Rightarrow> hierarchy_read_limits result" where
  "add_page limits byte_size =
     bind_res (validate_hierarchy_page_byte_size byte_size) (\<lambda>_.
     bind_res (ok_or (if total_bytes limits + byte_size < 2 ^ 64
                      then Some (total_bytes limits + byte_size) else None)
                (InvalidData ''hierarchy byte total overflow'')) (\<lambda>total.
     if MAX_HIERARCHY_TOTAL_BYTES < total
     then Err (InvalidData ''hierarchy pages total {} bytes, max supported is {}'')
     else Ok (limits\<lparr>total_bytes := total\<rparr>)))"

lemma checked_range_end_Ok_iff:
  "checked_range_end a n l = Ok r \<longleftrightarrow> a + n < 2 ^ 64 \<and> r = a + n"
  by (auto simp: checked_range_end_def)

lemma validate_range_in_file_Ok_iff:
  "validate_range_in_file a n len l = Ok r \<longleftrightarrow> a + n < 2 ^ 64 \<and> a + n \<le> len \<and> r = a + n"
  by (auto simp: validate_range_in_file_def bind_res_Ok_iff checked_range_end_Ok_iff)

lemma add_page_Ok_iff:
  "add_page l n = Ok l' \<longleftrightarrow>
    n \<le> MAX_HIERARCHY_PAGE_BYTES \<and> total_bytes l + n \<le> MAX_HIERARCHY_TOTAL_BYTES \<and>
    l' = l\<lparr>total_bytes := total_bytes l + n\<rparr>"
  by (auto simp: add_page_def bind_res_Ok_iff validate_hierarchy_page_byte_size_def
      MAX_HIERARCHY_TOTAL_BYTES_def)

section \<open>The LAS header\<close>

definition validate_header_numbers ::
  "f64 \<times> f64 \<times> f64 \<Rightarrow> f64 \<times> f64 \<times> f64 \<Rightarrow> f64 \<times> f64 \<times> f64 \<Rightarrow> f64 \<times> f64 \<times> f64 \<Rightarrow> unit result" where
  "validate_header_numbers scale off mn mx =
     (case (scale, off, mn, mx) of
        ((sx, sy, sz), (ox, oy, oz), (x0, y0, z0), (x1, y1, z1)) \<Rightarrow>
      bind_res (fold_res (\<lambda>value _.
          ensure (\<not> (\<not> f64_is_finite value \<or> f64_le value f64_zero))
            (InvalidData ''LAS {axis} scale must be finite and positive, got {value}''))
          [sx, sy, sz] ()) (\<lambda>_.
      bind_res (fold_res (\<lambda>value _.
          ensure (f64_is_finite value) (InvalidData ''LAS {name} must be finite, got {value}''))
          [ox, oy, oz, x0, y0, z0, x1, y1, z1] ()) (\<lambda>_.
      fold_res (\<lambda>(mn, mx) _.
          ensure (\<not> f64_lt mx mn) (InvalidData ''LAS {axis} minimum {min} exceeds maximum {max}''))
          [(x0, x1), (y0, y1), (z0, z1)] ())))"

text \<open>\<^verbatim>\<open>reader_len\<close> seeks to the end and back; it is the length of the stream.\<close>

definition reader_len :: "nat rd" where
  "reader_len s =
     (let current = sec_pos s;
          len = sec_base s + length (sec_data s);
          at_end = section_seek len s
      in Ok (len, section_seek current at_end))"

definition read_las_header :: "nat \<Rightarrow> las_header rd" where
  "read_las_header file_len =
     rbind (rguard (\<not> file_len < LAS_HEADER_SIZE_14)
       (InvalidData ''file is {} bytes; COPC requires at least {}'')) (\<lambda>_.
     rbind (rseek 0) (\<lambda>_.
     rbind (read_exact ''read LAS signature'' 4) (\<lambda>signature.
     rbind (rguard (signature = lit ''LASF'') (InvalidData ''missing LASF signature'')) (\<lambda>_.
     rbind (rseek 6) (\<lambda>_.
     rbind (read_u16 ''read LAS global encoding'') (\<lambda>global_encoding.
     rbind (rguard (global_encoding AND NOT 0x1F = 0)
       (InvalidData ''LAS global encoding has reserved bits set: {}'')) (\<lambda>_.
     rbind (rguard (global_encoding AND 0x10 \<noteq> 0)
       (InvalidData ''COPC point formats require the LAS WKT global-encoding bit'')) (\<lambda>_.
     rbind (rseek 24) (\<lambda>_.
     rbind (read_u8 ''read LAS version major'') (\<lambda>version_major.
     rbind (read_u8 ''read LAS version minor'') (\<lambda>version_minor.
     rbind (rguard ((version_major, version_minor) = (1, 4))
       (Unsupported ''COPC requires LAS 1.4; found LAS {}.{}'')) (\<lambda>_.
     rbind (rseek 94) (\<lambda>_.
     rbind (read_u16 ''read LAS header size'') (\<lambda>header_size.
     rbind (rguard (unat header_size = LAS_HEADER_SIZE_14)
       (InvalidData ''LAS header size {} is invalid; COPC requires exactly {} bytes'')) (\<lambda>_.
     rbind (read_u32 ''read point data offset'') (\<lambda>offset_to_point_data.
     rbind (rguard (\<not> unat offset_to_point_data < unat header_size)
       (InvalidData ''point data offset {} is before LAS header size {}'')) (\<lambda>_.
     rbind (rguard (\<not> file_len < unat offset_to_point_data)
       (InvalidData ''point data offset {} exceeds file length {}'')) (\<lambda>_.
     rbind (read_u32 ''read VLR count'') (\<lambda>number_of_vlrs.
     rbind (rguard (\<not> MAX_VLR_COUNT < unat number_of_vlrs)
       (InvalidData ''VLR count {} exceeds max supported {}'')) (\<lambda>_.
     rbind (read_u8 ''read point record format'') (\<lambda>point_data_record_format.
     rbind (rguard (point_data_record_format AND 0xC0 \<noteq> 0)
       (InvalidData ''COPC point data must be LAZ-compressed'')) (\<lambda>_.
     let point_format_id = point_data_record_format AND 0x3F in
     rbind (rguard (point_format_id \<in> {6, 7, 8})
       (Unsupported ''COPC requires LAS point format 6, 7, or 8; found {}'')) (\<lambda>_.
     rbind (read_u16 ''read point record length'') (\<lambda>point_data_record_length.
     rbind (rseek 131) (\<lambda>_.
     rbind (read_f64 ''read x scale factor'') (\<lambda>x_scale_factor.
     rbind (read_f64 ''read y scale factor'') (\<lambda>y_scale_factor.
     rbind (read_f64 ''read z scale factor'') (\<lambda>z_scale_factor.
     rbind (read_f64 ''read x offset'') (\<lambda>x_offset.
     rbind (read_f64 ''read y offset'') (\<lambda>y_offset.
     rbind (read_f64 ''read z offset'') (\<lambda>z_offset.
     rbind (read_f64 ''read max x'') (\<lambda>max_x.
     rbind (read_f64 ''read min x'') (\<lambda>min_x.
     rbind (read_f64 ''read max y'') (\<lambda>max_y.
     rbind (read_f64 ''read min y'') (\<lambda>min_y.
     rbind (read_f64 ''read max z'') (\<lambda>max_z.
     rbind (read_f64 ''read min z'') (\<lambda>min_z.
     rbind (rseek 235) (\<lambda>_.
     rbind (read_u64 ''read first EVLR offset'') (\<lambda>offset_to_first_evlr.
     rbind (read_u32 ''read EVLR count'') (\<lambda>number_of_evlrs.
     rbind (rguard (\<not> MAX_EVLR_COUNT < unat number_of_evlrs)
       (InvalidData ''EVLR count {} exceeds max supported {}'')) (\<lambda>_.
     rbind (rguard (\<not> (offset_to_first_evlr \<noteq> 0 \<and> file_len < unat offset_to_first_evlr))
       (InvalidData ''first EVLR offset {} exceeds file length {}'')) (\<lambda>_.
     rbind (read_u64 ''read point count'') (\<lambda>number_of_points.
     rbind (rlift (validate_header_numbers
         (x_scale_factor, y_scale_factor, z_scale_factor)
         (x_offset, y_offset, z_offset) (min_x, min_y, min_z) (max_x, max_y, max_z))) (\<lambda>_.
     rbind (rseek (unat header_size)) (\<lambda>_.
     rret \<lparr>lh_point_data_record_format = point_data_record_format,
           lh_point_data_record_length = point_data_record_length,
           lh_offset_to_point_data = offset_to_point_data,
           lh_number_of_vlrs = number_of_vlrs,
           lh_scale = (x_scale_factor, y_scale_factor, z_scale_factor),
           lh_offset = (x_offset, y_offset, z_offset),
           lh_min = (min_x, min_y, min_z),
           lh_max = (max_x, max_y, max_z),
           lh_offset_to_first_evlr = offset_to_first_evlr,
           lh_number_of_evlrs = number_of_evlrs,
           lh_number_of_points = number_of_points\<rparr>)))))))))))))))))))))))))))))))))))))))))))))"

text \<open>The fields of a header at their offsets, and what the reader accepts.\<close>

definition header_at :: "u8 list \<Rightarrow> las_header" where
  "header_at f =
     (let f64 = (\<lambda>p. u64_from_le (bslice f p 8)) in
      \<lparr>lh_point_data_record_format = f ! 104,
       lh_point_data_record_length = u16_from_le (bslice f 105 2),
       lh_offset_to_point_data = u32_from_le (bslice f 96 4),
       lh_number_of_vlrs = u32_from_le (bslice f 100 4),
       lh_scale = (f64 131, f64 139, f64 147),
       lh_offset = (f64 155, f64 163, f64 171),
       lh_min = (f64 187, f64 203, f64 219),
       lh_max = (f64 179, f64 195, f64 211),
       lh_offset_to_first_evlr = u64_from_le (bslice f 235 8),
       lh_number_of_evlrs = u32_from_le (bslice f 243 4),
       lh_number_of_points = u64_from_le (bslice f 247 8)\<rparr>)"

definition header_accepted :: "u8 list \<Rightarrow> bool" where
  "header_accepted f =
     (let h = header_at f; ge = u16_from_le (bslice f 6 2) in
      375 \<le> length f \<and> bslice f 0 4 = lit ''LASF'' \<and>
      ge AND NOT 0x1F = 0 \<and> ge AND 0x10 \<noteq> 0 \<and>
      f ! 24 = 1 \<and> f ! 25 = 4 \<and> unat (u16_from_le (bslice f 94 2)) = 375 \<and>
      375 \<le> unat (lh_offset_to_point_data h) \<and> unat (lh_offset_to_point_data h) \<le> length f \<and>
      unat (lh_number_of_vlrs h) \<le> 4096 \<and>
      lh_point_data_record_format h AND 0xC0 \<noteq> 0 \<and>
      lh_point_data_record_format h AND 0x3F \<in> {6, 7, 8} \<and>
      unat (lh_number_of_evlrs h) \<le> 4096 \<and>
      (lh_offset_to_first_evlr h = 0 \<or> unat (lh_offset_to_first_evlr h) \<le> length f) \<and>
      validate_header_numbers (lh_scale h) (lh_offset h) (lh_min h) (lh_max h) = Ok ())"

lemma read_las_header_Ok_iff:
  "read_las_header (length f) (fcur f p) = Ok (h, t) \<longleftrightarrow>
    header_accepted f \<and> h = header_at f \<and> t = fcur f 375"
proof (cases "375 \<le> length f")
  case True
  show ?thesis
    unfolding read_las_header_def header_accepted_def
    using True
    by (simp add: fcur_steps rbind_check_iff header_at_def Let_def LAS_HEADER_SIZE_14_def
        MAX_VLR_COUNT_def MAX_EVLR_COUNT_def not_less conj_ac cong: conj_cong)
next
  case False
  then show ?thesis
    by (simp add: read_las_header_def header_accepted_def LAS_HEADER_SIZE_14_def rbind_def Let_def)
qed

section \<open>VLRs and EVLRs\<close>

definition should_store_vlr :: "u8 list \<Rightarrow> u16 \<Rightarrow> bool" where
  "should_store_vlr user_id record_id =
     (user_id = lit ''copc'' \<and> record_id = 1 \<or>
      user_id = lit ''laszip encoded'' \<and> record_id = 22204)"

definition read_vlr_step :: "nat \<Rightarrow> nat \<Rightarrow> vlr list \<Rightarrow> vlr list rd" where
  "read_vlr_step section_end index vlrs =
     rbind rposition (\<lambda>header_offset.
     rbind (rlift (validate_range_in_file header_offset VLR_HEADER_BYTES section_end ''VLR header'')) (\<lambda>_.
     rbind (read_u16 ''read VLR reserved'') (\<lambda>reserved.
     rbind (rguard (reserved = 0) (InvalidData ''VLR {} reserved field must be zero, got {}'')) (\<lambda>_.
     rbind (read_exact ''read VLR user id'' 16) (\<lambda>user_id.
     rbind (read_u16 ''read VLR record id'') (\<lambda>record_id.
     rbind (read_u16 ''read VLR length'') (\<lambda>record_length.
     rbind (read_exact ''read VLR description'' 32) (\<lambda>description.
     rbind rposition (\<lambda>data_offset.
     rbind (rlift (validate_range_in_file data_offset (unat record_length) section_end ''VLR data''))
       (\<lambda>data_end.
     let user_id_str = trim_nul user_id in
     rbind (if should_store_vlr user_id_str record_id
            then rbind (read_exact ''read VLR data'' (unat record_length)) (\<lambda>data.
              rret (vlrs @ [\<lparr>vlr_index = index, vlr_user_id = user_id_str,
                             vlr_record_id = record_id, vlr_data = data\<rparr>]))
            else rbind (rseek data_end) (\<lambda>_. rret vlrs)) (\<lambda>vlrs.
     rbind rposition (\<lambda>actual_next.
     rbind (rguard (actual_next = data_end) (InvalidData ''VLR {} cursor at {}, expected {}'')) (\<lambda>_.
     rret vlrs)))))))))))))"

definition read_vlrs :: "nat \<Rightarrow> nat \<Rightarrow> nat \<Rightarrow> vlr list rd" where
  "read_vlrs vlr_count file_len section_end =
     rbind (rguard (\<not> MAX_VLR_COUNT < vlr_count)
       (InvalidData ''VLR count {} exceeds max supported {}'')) (\<lambda>_.
     rbind (rguard (\<not> file_len < section_end)
       (InvalidData ''VLR section end {} exceeds file length {}'')) (\<lambda>_.
     rfor 0 vlr_count (read_vlr_step section_end) []))"

definition read_evlr_step :: "nat \<Rightarrow> nat \<Rightarrow> evlr_ref list \<Rightarrow> evlr_ref list rd" where
  "read_evlr_step file_len index evlrs =
     rbind rposition (\<lambda>header_start.
     rbind (rlift (validate_range_in_file header_start EVLR_HEADER_BYTES file_len ''EVLR header'')) (\<lambda>_.
     rbind (read_u16 ''read EVLR reserved'') (\<lambda>reserved.
     rbind (rguard (reserved = 0) (InvalidData ''EVLR {} reserved field must be zero, got {}'')) (\<lambda>_.
     rbind (read_exact ''read EVLR user id'' 16) (\<lambda>user_id.
     rbind (read_u16 ''read EVLR record id'') (\<lambda>record_id.
     rbind (read_u64 ''read EVLR length'') (\<lambda>data_len.
     rbind (read_exact ''read EVLR description'' 32) (\<lambda>description.
     rbind rposition (\<lambda>data_offset.
     let evlrs = evlrs @ [\<lparr>ev_user_id = user_id, ev_record_id = record_id,
                           ev_data_offset = data_offset, ev_data_len = unat data_len\<rparr>] in
     rbind (rlift (validate_range_in_file data_offset (unat data_len) file_len ''EVLR data''))
       (\<lambda>expected_next.
     rbind (rseek expected_next) (\<lambda>_.
     rbind rposition (\<lambda>actual_next.
     rbind (rguard (actual_next = expected_next) (InvalidData ''EVLR {} cursor at {}, expected {}'')) (\<lambda>_.
     rret evlrs)))))))))))))"

definition read_evlr_refs :: "las_header \<Rightarrow> nat \<Rightarrow> evlr_ref list rd" where
  "read_evlr_refs header file_len =
     (if lh_offset_to_first_evlr header = 0 \<or> lh_number_of_evlrs header = 0 then rret []
      else
        rbind (rguard (\<not> MAX_EVLR_COUNT < unat (lh_number_of_evlrs header))
          (InvalidData ''EVLR count {} exceeds max supported {}'')) (\<lambda>_.
        rbind (rlift (validate_range_in_file (unat (lh_offset_to_first_evlr header))
            EVLR_HEADER_BYTES file_len ''first EVLR header'')) (\<lambda>_.
        rbind (rseek (unat (lh_offset_to_first_evlr header))) (\<lambda>_.
        rfor 0 (unat (lh_number_of_evlrs header)) (read_evlr_step file_len) []))))"

text \<open>
  The COPC info and LASzip VLRs. \<open>laz_read\<close> is \<^verbatim>\<open>LazVlr::read_from\<close> of the \<^verbatim>\<open>laz\<close> crate: the
  parsed VLR, or its error message.
\<close>

definition extract_required_vlrs ::
  "(u8 list \<Rightarrow> string + 'laz) \<Rightarrow> vlr list \<Rightarrow> (copc_info \<times> 'laz) result" where
  "extract_required_vlrs laz_read vlrs =
     (case filter (\<lambda>v. vlr_user_id v = lit ''copc'' \<and> vlr_record_id v = 1) vlrs of
        [] \<Rightarrow> Err (InvalidData ''missing COPC info VLR'')
      | _ # _ # _ \<Rightarrow> Err (InvalidData ''duplicate COPC info VLR'')
      | [copc_info_vlr] \<Rightarrow>
          if vlr_index copc_info_vlr \<noteq> 0
          then Err (InvalidData ''COPC info VLR must be the first VLR'')
          else
            bind_res (info_from_le_bytes (vlr_data copc_info_vlr)) (\<lambda>copc_info.
            case filter (\<lambda>v. vlr_user_id v = lit ''laszip encoded'' \<and> vlr_record_id v = 22204) vlrs of
              [] \<Rightarrow> Err (InvalidData ''missing LASzip VLR'')
            | _ # _ # _ \<Rightarrow> Err (InvalidData ''duplicate LASzip VLR'')
            | [laszip_vlr] \<Rightarrow>
                (case laz_read (vlr_data laszip_vlr) of
                   Inl e \<Rightarrow> Err (Las e)
                 | Inr laz \<Rightarrow> Ok (copc_info, laz))))"

section \<open>What the parsers read\<close>

lemma reads_file_let [reads_file_intros]: "(\<And>x. reads_file (m x)) \<Longrightarrow> reads_file (let x = v in m x)"
  by simp

lemma reads_file_pair [reads_file_intros]: "(\<And>x y. reads_file (m x y)) \<Longrightarrow> reads_file (case p of (x, y) \<Rightarrow> m x y)"
  by (cases p) simp

lemma reads_file_header [reads_file_intros]: "reads_file (read_las_header file_len)"
  unfolding read_las_header_def by (intro reads_file_intros)

lemma reads_file_vlrs [reads_file_intros]: "reads_file (read_vlrs n file_len section_end)"
  unfolding read_vlrs_def read_vlr_step_def by (intro reads_file_intros)

lemma reads_file_evlrs [reads_file_intros]: "reads_file (read_evlr_refs h file_len)"
  unfolding read_evlr_refs_def read_evlr_step_def by (intro reads_file_intros)

text \<open>An EVLR of a file: its header ends where its data starts.\<close>

definition evlr_of_file :: "u8 list \<Rightarrow> evlr_ref \<Rightarrow> bool" where
  "evlr_of_file f ev \<longleftrightarrow>
     60 \<le> ev_data_offset ev \<and> ev_data_offset ev + ev_data_len ev \<le> length f \<and>
     u16_from_le (bslice f (ev_data_offset ev - 60) 2) = 0 \<and>
     ev_user_id ev = bslice f (ev_data_offset ev - 58) 16 \<and>
     ev_record_id ev = u16_from_le (bslice f (ev_data_offset ev - 42) 2) \<and>
     ev_data_len ev = unat (u64_from_le (bslice f (ev_data_offset ev - 40) 8))"

lemma read_evlr_step_of_file:
  assumes "read_evlr_step (length f) i es (fcur f p) = Ok (es', t)" "list_all (evlr_of_file f) es"
  shows "list_all (evlr_of_file f) es'" "t = fcur f (sec_pos t)"
proof -
  have "reads_file (read_evlr_step (length f) i es)" unfolding read_evlr_step_def by (intro reads_file_intros)
  from reads_file_cursor [where m = "read_evlr_step (length f) i es", OF this assms(1)] show "t = fcur f (sec_pos t)" .
  have p: "p + 60 \<le> length f"
    using assms(1) by (auto simp: read_evlr_step_def rbind_check_iff fcur_steps validate_range_in_file_Ok_iff EVLR_HEADER_BYTES_def)
  from assms(1) p show "list_all (evlr_of_file f) es'"
    using assms(2)
    by (auto simp: read_evlr_step_def rbind_check_iff fcur_steps validate_range_in_file_Ok_iff evlr_of_file_def Let_def
        list_all_append)
qed

lemma read_evlr_refs_of_file:
  assumes "read_evlr_refs h (length f) (fcur f p) = Ok (es, t)"
  shows "list_all (evlr_of_file f) es"
proof -
  have loop: "list_all (evlr_of_file f) es'"
    if "rfor i n (read_evlr_step (length f)) acc (fcur f q) = Ok (es', u)" "list_all (evlr_of_file f) acc" for i n acc q es' u
    using that
  proof (induction n arbitrary: i acc q)
    case (Suc n)
    then obtain acc' v where s: "read_evlr_step (length f) i acc (fcur f q) = Ok (acc', v)"
      "rfor (Suc i) n (read_evlr_step (length f)) acc' v = Ok (es', u)" by (auto simp: rbind_Ok_iff)
    note st = read_evlr_step_of_file [OF s(1) Suc.prems(2)]
    obtain q' where "v = fcur f q'" using st(2) by blast
    with Suc.IH s(2) st(1) show ?case by blast
  qed (simp add: rret_def)
  show ?thesis
    using assms loop [of 0 "unat (lh_number_of_evlrs h)" "[]"]
    by (auto simp: read_evlr_refs_def rbind_check_iff fcur_steps split: if_splits)
qed

section \<open>Properties\<close>

text \<open>C9: the LAS header parser, whole: a file is accepted exactly when it is long enough, has
  the signature, version, header size, encoding bits, point format, counts and offsets that COPC
  requires and sane numbers; then the header holds the fields at their offsets and the cursor is
  left behind the header.\<close>
theorem las_header_accepts:
  "read_las_header (length f) (fcur f p) = Ok (h, t) \<longleftrightarrow>
    header_accepted f \<and> h = header_at f \<and> t = fcur f 375"
  by (rule read_las_header_Ok_iff)

end
