(* ===== verification/Hierarchy_Walk.thy ===== *)
theory Hierarchy_Walk
  imports Las_Reader
begin

text \<open>
  \<^verbatim>\<open>copc-reader/src/lib.rs\<close>: \<^verbatim>\<open>CopcFile::from_reader\<close> and the walk over the hierarchy pages. A
  \<^verbatim>\<open>BTreeMap\<close> is a red-black tree of the library, a \<^verbatim>\<open>HashSet\<close> a finite set; the vector of pending
  pages is kept with its last element first. The walk terminates because every page read adds at
  least one entry to a byte total that is bounded.
\<close>

section \<open>Entries and pages\<close>

definition entry_size_u64 :: "entry \<Rightarrow> string \<Rightarrow> nat result" where
  "entry_size_u64 e msg =
     bind_res (ok_or (u64_try_from_i32 (e_byte_size e)) (InvalidData msg)) (\<lambda>n. Ok (unat n))"

definition validate_hierarchy_entry :: "entry \<Rightarrow> nat \<Rightarrow> data_ranges \<Rightarrow> unit result" where
  "validate_hierarchy_entry e file_len ranges =
     bind_res (entry_validate e) (\<lambda>_.
     bind_res (availability e) (\<lambda>a.
     case a of
       Empty \<Rightarrow> Ok ()
     | PointData _ \<Rightarrow>
         bind_res (entry_size_u64 e ''point data entry {} has negative byte size {}'') (\<lambda>byte_size.
         if MAX_POINT_CHUNK_BYTES < byte_size
         then Err (InvalidData ''point data entry {} is {} bytes, max supported is {}'')
         else
           bind_res (validate_range_in_file (unat (e_offset e)) byte_size file_len ''point data entry'')
             (\<lambda>range_end.
           if unat (e_offset e) < point_data_start ranges \<or> point_data_end ranges < range_end
           then Err (InvalidData ''point data entry {} range {}..{} is outside LAS point-data section {}..{}'')
           else Ok ()))
     | ChildPage \<Rightarrow>
         bind_res (entry_size_u64 e ''child hierarchy page {} has negative byte size {}'') (\<lambda>byte_size.
         bind_res (validate_range_in_file (unat (e_offset e)) byte_size file_len ''child hierarchy page'')
           (\<lambda>range_end.
         if unat (e_offset e) < hierarchy_start ranges \<or> hierarchy_end ranges < range_end
         then Err (InvalidData ''child hierarchy page {} range {}..{} is outside hierarchy EVLR body {}..{}'')
         else Ok ()))))"

definition read_hierarchy_page_at ::
  "nat \<Rightarrow> nat \<Rightarrow> nat \<Rightarrow> hierarchy_read_limits \<Rightarrow> (hierarchy_page \<times> hierarchy_read_limits) rd" where
  "read_hierarchy_page_at off byte_size file_len limits =
     rbind (rguard (byte_size \<noteq> 0) (InvalidData ''hierarchy page is empty'')) (\<lambda>_.
     rbind (rguard (HIERARCHY_ENTRY_BYTES dvd byte_size)
       (InvalidData ''hierarchy page is {} bytes, not a multiple of {}'')) (\<lambda>_.
     rbind (rlift (add_page limits byte_size)) (\<lambda>limits.
     rbind (rlift (validate_range_in_file off byte_size file_len ''hierarchy page'')) (\<lambda>_.
     rbind (rlift (ok_or (if byte_size \<le> usize_max then Some byte_size else None)
       (InvalidData ''hierarchy page is too large''))) (\<lambda>hierarchy_len.
     rbind (rseek off) (\<lambda>_.
     rbind (read_exact ''read hierarchy page'' hierarchy_len) (\<lambda>hierarchy_bytes.
     rbind (rlift (page_from_le_bytes hierarchy_bytes)) (\<lambda>page.
     rret (page, limits)))))))))"

record walk_state =
  ws_hierarchy :: "(voxel_key, entry) rbt"
  ws_visited :: "(nat \<times> nat) set"
  ws_pending :: "(nat \<times> nat) list" \<comment> \<open>the last element of the vector first\<close>

definition insert_hierarchy_entry :: "nat \<Rightarrow> data_ranges \<Rightarrow> entry \<Rightarrow> walk_state \<Rightarrow> walk_state result" where
  "insert_hierarchy_entry file_len ranges e ws =
     bind_res (validate_hierarchy_entry e file_len ranges) (\<lambda>_.
     case RBT.lookup (ws_hierarchy ws) (e_key e) of
       None \<Rightarrow> Ok (ws\<lparr>ws_hierarchy := RBT.insert (e_key e) e (ws_hierarchy ws)\<rparr>)
     | Some previous \<Rightarrow>
         if is_child_page previous \<and> \<not> is_child_page e
         then Ok (ws\<lparr>ws_hierarchy := RBT.insert (e_key e) e (ws_hierarchy ws)\<rparr>)
         else Err (InvalidData ''duplicate hierarchy key {}: previous {}, new {}''))"

definition push_child_page :: "entry \<Rightarrow> walk_state \<Rightarrow> walk_state result" where
  "push_child_page e ws =
     bind_res (entry_size_u64 e ''child hierarchy page {} has negative byte size {}'') (\<lambda>byte_size.
     let page = (unat (e_offset e), byte_size) in
     if page \<in> ws_visited ws then Ok ws
     else Ok (ws\<lparr>ws_visited := insert page (ws_visited ws), ws_pending := page # ws_pending ws\<rparr>))"

definition queue_hierarchy_page :: "hierarchy_page \<Rightarrow> nat \<Rightarrow> data_ranges \<Rightarrow> walk_state \<Rightarrow> walk_state result" where
  "queue_hierarchy_page page file_len ranges ws =
     bind_res (fold_res (insert_hierarchy_entry file_len ranges) (page_entries page) ws) (\<lambda>ws.
     fold_res push_child_page (filter is_child_page (page_entries page)) ws)"

lemma read_hierarchy_page_at_limits:
  assumes "read_hierarchy_page_at off n len limits s = Ok ((page, limits'), t)"
  shows "total_bytes limits' = total_bytes limits + n" "total_bytes limits' \<le> MAX_HIERARCHY_TOTAL_BYTES"
    "0 < n"
  using assms
  by (auto simp: read_hierarchy_page_at_def rbind_check_iff add_page_Ok_iff rbind_Ok_iff)

text \<open>The worklist: pop a page, read it, queue what it names.\<close>

function drain_pages ::
  "nat \<Rightarrow> data_ranges \<Rightarrow> walk_state \<Rightarrow> hierarchy_read_limits \<Rightarrow>
     bsection \<Rightarrow> ((walk_state \<times> hierarchy_read_limits) \<times> bsection) result" where
  "drain_pages file_len ranges ws limits s =
     (case ws_pending ws of
        [] \<Rightarrow> Ok ((ws, limits), s)
      | (off, byte_size) # pending \<Rightarrow>
          bind_res (read_hierarchy_page_at off byte_size file_len limits s) (\<lambda>r.
          bind_res (queue_hierarchy_page (fst (fst r)) file_len ranges (ws\<lparr>ws_pending := pending\<rparr>)) (\<lambda>ws'.
          drain_pages file_len ranges ws' (snd (fst r)) (snd r))))"
  by pat_completeness auto
termination
proof (relation "measure (\<lambda>(_, _, _, limits, _). MAX_HIERARCHY_TOTAL_BYTES - total_bytes limits)", goal_cases)
  case 1
  show ?case by simp
next
  case (2 file_len ranges ws limits s x pending off byte_size r ws')
  then obtain page limits' t where r: "r = ((page, limits'), t)" by (metis prod.exhaust)
  from read_hierarchy_page_at_limits [OF 2(3) [unfolded r]] show ?case by (simp add: r)
qed

declare drain_pages.simps [simp del]

definition insert_hierarchy_pages ::
  "hierarchy_page \<Rightarrow> nat \<Rightarrow> data_ranges \<Rightarrow> walk_state \<Rightarrow> hierarchy_read_limits \<Rightarrow>
     (walk_state \<times> hierarchy_read_limits) rd" where
  "insert_hierarchy_pages root_page file_len ranges ws limits s =
     bind_res (queue_hierarchy_page root_page file_len ranges (ws\<lparr>ws_pending := []\<rparr>)) (\<lambda>ws.
     drain_pages file_len ranges ws limits s)"

section \<open>Checks over the whole hierarchy\<close>

definition hierarchy_values :: "(voxel_key, entry) rbt \<Rightarrow> entry list" where
  "hierarchy_values h = map snd (RBT.entries h)"

definition add_point_count :: "entry \<Rightarrow> nat \<Rightarrow> nat result" where
  "add_point_count e running =
     bind_res (availability e) (\<lambda>a.
     case a of
       PointData n \<Rightarrow>
         ok_or (if running + unat n < 2 ^ 64 then Some (running + unat n) else None)
           (InvalidData ''hierarchy point total overflows u64'')
     | _ \<Rightarrow> Ok running)"

definition validate_hierarchy_point_count :: "(voxel_key, entry) rbt \<Rightarrow> u64 \<Rightarrow> unit result" where
  "validate_hierarchy_point_count h number_of_points =
     bind_res (fold_res add_point_count (hierarchy_values h) 0) (\<lambda>sum_points.
     if sum_points \<noteq> unat number_of_points
     then Err (InvalidData ''hierarchy point total {} does not match LAS header point count {}'')
     else Ok ())"

type_synonym chunk_ranges = "(nat, nat \<times> voxel_key) rbt"

text \<open>\<^verbatim>\<open>BTreeMap::range(..=k).next_back()\<close> and \<^verbatim>\<open>range(k..).next()\<close>.\<close>

definition range_to_last :: "nat \<Rightarrow> (nat, 'v) rbt \<Rightarrow> (nat \<times> 'v) option" where
  "range_to_last k t =
     (case filter (\<lambda>(a, _). a \<le> k) (RBT.entries t) of [] \<Rightarrow> None | xs \<Rightarrow> Some (last xs))"

definition range_from_first :: "nat \<Rightarrow> (nat, 'v) rbt \<Rightarrow> (nat \<times> 'v) option" where
  "range_from_first k t =
     (case filter (\<lambda>(a, _). k \<le> a) (RBT.entries t) of [] \<Rightarrow> None | x # _ \<Rightarrow> Some x)"

definition insert_point_chunk_range :: "entry \<Rightarrow> chunk_ranges \<Rightarrow> chunk_ranges result" where
  "insert_point_chunk_range e ranges =
     bind_res (entry_size_u64 e ''point data entry {} has negative byte size {}'') (\<lambda>byte_size.
     let off = unat (e_offset e) in
     bind_res (checked_range_end off byte_size ''point data entry'') (\<lambda>range_end.
     bind_res (case range_to_last off ranges of
         Some (_, previous_end, _) \<Rightarrow>
           if off < previous_end then Err (InvalidData ''point chunks {} and {} overlap'') else Ok ()
       | None \<Rightarrow> Ok ()) (\<lambda>_.
     bind_res (case range_from_first off ranges of
         Some (next_start, _) \<Rightarrow>
           if next_start < range_end then Err (InvalidData ''point chunks {} and {} overlap'') else Ok ()
       | None \<Rightarrow> Ok ()) (\<lambda>_.
     Ok (RBT.insert off (range_end, e_key e) ranges)))))"

definition validate_point_chunk_ranges :: "(voxel_key, entry) rbt \<Rightarrow> unit result" where
  "validate_point_chunk_ranges h =
     bind_res (fold_res insert_point_chunk_range (filter has_point_data (hierarchy_values h)) RBT.empty)
       (\<lambda>_. Ok ())"

section \<open>Opening a file\<close>

record 'laz copc_file =
  cf_header :: las_header
  cf_copc_info :: copc_info
  cf_laszip_vlr :: 'laz
  cf_root_hierarchy :: hierarchy_page
  cf_hierarchy :: "(voxel_key, entry) rbt"

definition find_hierarchy_evlr :: "evlr_ref list \<Rightarrow> evlr_ref option" where
  "find_hierarchy_evlr evlrs =
     find (\<lambda>ev. trim_nul (ev_user_id ev) = lit ''copc'' \<and> ev_record_id ev = 1000) evlrs"

definition from_reader :: "(u8 list \<Rightarrow> string + 'laz) \<Rightarrow> 'laz copc_file rd" where
  "from_reader laz_read =
     rbind reader_len (\<lambda>file_len.
     rbind (read_las_header file_len) (\<lambda>header.
     rbind (read_vlrs (unat (lh_number_of_vlrs header)) file_len
       (unat (lh_offset_to_point_data header))) (\<lambda>vlrs.
     rbind (rlift (extract_required_vlrs laz_read vlrs)) (\<lambda>(copc_info, laszip_vlr).
     rbind (rlift (validate_hierarchy_page_byte_size (unat (ci_root_hier_size copc_info)))) (\<lambda>_.
     rbind (read_evlr_refs header file_len) (\<lambda>evlrs.
     rbind (rlift (ok_or (find_hierarchy_evlr evlrs) (InvalidData ''missing COPC hierarchy EVLR'')))
       (\<lambda>root_evlr.
     rbind (rguard (unat (ci_root_hier_offset copc_info) = ev_data_offset root_evlr)
       (InvalidData ''COPC root hierarchy offset {} does not match EVLR data offset {}'')) (\<lambda>_.
     rbind (rguard (\<not> ev_data_len root_evlr < unat (ci_root_hier_size copc_info))
       (InvalidData ''COPC root hierarchy size {} exceeds hierarchy EVLR body size {}'')) (\<lambda>_.
     rbind (rlift (data_ranges_new header (ev_data_offset root_evlr) (ev_data_len root_evlr)))
       (\<lambda>ranges.
     rbind (read_hierarchy_page_at (unat (ci_root_hier_offset copc_info))
         (unat (ci_root_hier_size copc_info)) file_len \<lparr>total_bytes = 0\<rparr>) (\<lambda>(root_hierarchy, limits).
     rbind (insert_hierarchy_pages root_hierarchy file_len ranges
         \<lparr>ws_hierarchy = RBT.empty,
          ws_visited = {(unat (ci_root_hier_offset copc_info), unat (ci_root_hier_size copc_info))},
          ws_pending = []\<rparr> limits) (\<lambda>(ws, _).
     rbind (rlift (validate_point_chunk_ranges (ws_hierarchy ws))) (\<lambda>_.
     rbind (rlift (validate_hierarchy_point_count (ws_hierarchy ws) (lh_number_of_points header))) (\<lambda>_.
     rret \<lparr>cf_header = header, cf_copc_info = copc_info, cf_laszip_vlr = laszip_vlr,
           cf_root_hierarchy = root_hierarchy, cf_hierarchy = ws_hierarchy ws\<rparr>))))))))))))))"

definition hierarchy_walk :: "'laz copc_file \<Rightarrow> entry list" where
  "hierarchy_walk f = hierarchy_values (cf_hierarchy f)"

section \<open>Validated entries\<close>

text \<open>The half-open byte interval of an entry.\<close>

definition entry_lo :: "entry \<Rightarrow> nat" where
  "entry_lo e = unat (e_offset e)"

definition entry_hi :: "entry \<Rightarrow> nat" where
  "entry_hi e = unat (e_offset e) + nat (sint (e_byte_size e))"

lemma entry_size_u64_Ok_iff:
  "entry_size_u64 e m = Ok n \<longleftrightarrow> 0 \<le> sint (e_byte_size e) \<and> n = nat (sint (e_byte_size e))"
proof -
  have "u64_try_from_i32 (e_byte_size e) = Some (word_of_int (sint (e_byte_size e))) \<and>
      unat (word_of_int (sint (e_byte_size e)) :: u64) = nat (sint (e_byte_size e))"
    if "0 \<le> sint (e_byte_size e)"
    using that u64_try_from_i32_Some_iff [of "e_byte_size e" "word_of_int (sint (e_byte_size e))"]
    by (simp add: u64_try_from_i32_def)
  then show ?thesis
    unfolding entry_size_u64_def bind_res_Ok_iff ok_or_Ok_iff u64_try_from_i32_Some_iff
    by auto
qed

lemma validate_hierarchy_entry_Ok_iff:
  "validate_hierarchy_entry e file_len r = Ok u \<longleftrightarrow>
    entry_validate e = Ok () \<and>
    (has_point_data e \<longrightarrow>
      sint (e_byte_size e) \<le> int MAX_POINT_CHUNK_BYTES \<and> entry_hi e < 2 ^ 64 \<and> entry_hi e \<le> file_len \<and>
      point_data_start r \<le> entry_lo e \<and> entry_hi e \<le> point_data_end r) \<and>
    (is_child_page e \<longrightarrow>
      entry_hi e < 2 ^ 64 \<and> entry_hi e \<le> file_len \<and>
      hierarchy_start r \<le> entry_lo e \<and> entry_hi e \<le> hierarchy_end r)"
proof -
  consider (point) "has_point_data e" "\<not> is_child_page e"
    | (child) "is_child_page e" "\<not> has_point_data e"
    | (other) "\<not> has_point_data e" "\<not> is_child_page e"
    by (auto simp: has_point_data_def is_child_page_def)
  then show ?thesis
  proof cases
    case point
    then have size: "entry_validate e = Ok () \<Longrightarrow> 0 < sint (e_byte_size e)"
      unfolding entry_validate_Ok_iff has_point_data_def is_child_page_def by auto
    show ?thesis
      using point size availability_PointData [OF point(1)]
      by (auto simp: validate_hierarchy_entry_def bind_res_Ok_iff entry_size_u64_Ok_iff
          validate_range_in_file_Ok_iff entry_lo_def entry_hi_def not_less nat_le_iff
          split: if_splits)
  next
    case child
    then have size: "entry_validate e = Ok () \<Longrightarrow> 0 < sint (e_byte_size e)"
      unfolding entry_validate_Ok_iff has_point_data_def is_child_page_def by auto
    show ?thesis
      using child size availability_ChildPage [OF child(1)]
      by (auto simp: validate_hierarchy_entry_def bind_res_Ok_iff entry_size_u64_Ok_iff
          validate_range_in_file_Ok_iff entry_lo_def entry_hi_def not_less
          split: if_splits)
  next
    case other
    then have "entry_validate e = Ok () \<Longrightarrow> availability e = Ok Empty"
      by (auto simp: entry_validate_Ok_iff availability_def has_point_data_def is_child_page_def)
    with other show ?thesis
      by (auto simp: validate_hierarchy_entry_def bind_res_Ok_iff)
  qed
qed

section \<open>Chunk ranges\<close>

text \<open>The map of ranges holds disjoint non-empty intervals.\<close>

definition ranges_disjoint :: "chunk_ranges \<Rightarrow> bool" where
  "ranges_disjoint t \<longleftrightarrow>
     (\<forall>a b k. RBT.lookup t a = Some (b, k) \<longrightarrow> a < b) \<and>
     (\<forall>a b k a' b' k'. RBT.lookup t a = Some (b, k) \<longrightarrow> RBT.lookup t a' = Some (b', k') \<longrightarrow>
        a < a' \<longrightarrow> b \<le> a')"

lemma range_to_last_Some:
  assumes "range_to_last k t = Some (a, v)"
  shows "RBT.lookup t a = Some v \<and> a \<le> k \<and> (\<forall>a' v'. RBT.lookup t a' = Some v' \<longrightarrow> a' \<le> k \<longrightarrow> a' \<le> a)"
proof -
  define xs where "xs = filter (\<lambda>(a, _). a \<le> k) (RBT.entries t)"
  have ne: "xs \<noteq> []" and l: "last xs = (a, v)"
    using assms by (auto simp: range_to_last_def xs_def split: list.splits)
  have mem: "(a, v) \<in> set xs" using ne l last_in_set by fastforce
  have srt: "sorted (map fst xs)"
    unfolding xs_def using RBT.sorted_entries sorted_filter by blast
  have "fst x \<le> a" if "x \<in> set xs" for x
  proof -
    obtain ys where "xs = ys @ [(a, v)]" using ne l by (metis append_butlast_last_id)
    with srt that show ?thesis by (auto simp: sorted_append)
  qed
  with mem show ?thesis
    by (fastforce simp: xs_def RBT.lookup_in_tree)
qed

lemma range_to_last_None:
  "range_to_last k t = None \<Longrightarrow> RBT.lookup t a = Some v \<Longrightarrow> k < a"
  by (force simp: range_to_last_def RBT.lookup_in_tree filter_empty_conv not_le split: list.splits)

lemma range_from_first_Some:
  assumes "range_from_first k t = Some (a, v)"
  shows "RBT.lookup t a = Some v \<and> k \<le> a \<and> (\<forall>a' v'. RBT.lookup t a' = Some v' \<longrightarrow> k \<le> a' \<longrightarrow> a \<le> a')"
proof -
  define xs where "xs = filter (\<lambda>(a, _). k \<le> a) (RBT.entries t)"
  obtain ys where xs: "xs = (a, v) # ys"
    using assms by (auto simp: range_from_first_def xs_def split: list.splits)
  have "sorted (map fst xs)"
    unfolding xs_def using RBT.sorted_entries sorted_filter by blast
  then have "a \<le> fst x" if "x \<in> set xs" for x using that xs by auto
  moreover have "(a, v) \<in> set xs" using xs by simp
  ultimately show ?thesis
    by (fastforce simp: xs_def RBT.lookup_in_tree)
qed

lemma range_from_first_None:
  "range_from_first k t = None \<Longrightarrow> RBT.lookup t a = Some v \<Longrightarrow> a < k"
  by (force simp: range_from_first_def RBT.lookup_in_tree filter_empty_conv not_le split: list.splits)

text \<open>
  The two neighbours decide: an insertion succeeds exactly when the new interval meets none of the
  stored ones.
\<close>

lemma insert_point_chunk_range_Ok_iff:
  assumes inv: "ranges_disjoint t" and size: "0 < sint (e_byte_size e)"
  shows "insert_point_chunk_range e t = Ok t' \<longleftrightarrow>
    entry_hi e < 2 ^ 64 \<and>
    (\<forall>a b k. RBT.lookup t a = Some (b, k) \<longrightarrow> b \<le> entry_lo e \<or> entry_hi e \<le> a) \<and>
    t' = RBT.insert (entry_lo e) (entry_hi e, e_key e) t"
    (is "_ \<longleftrightarrow> _ \<and> ?free \<and> _")
proof -
  define lo hi where "lo = entry_lo e" and "hi = entry_hi e"
  have lohi: "lo < hi" using size by (simp add: lo_def hi_def entry_lo_def entry_hi_def)
  define before where "before = (case range_to_last lo t of
         Some (_, previous_end, _) \<Rightarrow> \<not> lo < previous_end | None \<Rightarrow> True)"
  define after where "after = (case range_from_first lo t of
         Some (next_start, _) \<Rightarrow> \<not> next_start < hi | None \<Rightarrow> True)"
  have 1: "insert_point_chunk_range e t = Ok t' \<longleftrightarrow>
      hi < 2 ^ 64 \<and> before \<and> after \<and> t' = RBT.insert lo (hi, e_key e) t"
    using size
    by (auto simp: insert_point_chunk_range_def bind_res_Ok_iff entry_size_u64_Ok_iff Let_def
        checked_range_end_Ok_iff before_def after_def lo_def hi_def entry_lo_def entry_hi_def
        split: option.splits if_splits)
  have 2: "before \<and> after \<longleftrightarrow> ?free"
  proof
    assume ba: "before \<and> after"
    show ?free
    proof (intro allI impI)
      fix a b k assume a: "RBT.lookup t a = Some (b, k)"
      show "b \<le> entry_lo e \<or> entry_hi e \<le> a"
      proof (cases "a \<le> lo")
        case True
        then obtain p pe pk where p: "range_to_last lo t = Some (p, pe, pk)"
          using range_to_last_None [OF _ a, of lo] by (cases "range_to_last lo t") auto
        have pl: "RBT.lookup t p = Some (pe, pk)" "p \<le> lo" "a \<le> p"
          using range_to_last_Some [OF p] a True by auto
        have pe: "pe \<le> lo" using ba p by (auto simp: before_def)
        show ?thesis
        proof (cases "a = p")
          case True
          with a pl pe show ?thesis by (simp add: lo_def)
        next
          case False
          with pl a inv have "b \<le> p" unfolding ranges_disjoint_def by (metis le_neq_implies_less)
          with pl show ?thesis by (simp add: lo_def)
        qed
      next
        case False
        then obtain n nv where n: "range_from_first lo t = Some (n, nv)"
          using range_from_first_None [OF _ a, of lo] by (cases "range_from_first lo t") auto
        have "n \<le> a" using range_from_first_Some [OF n] a False by auto
        moreover have "hi \<le> n" using ba n by (auto simp: after_def)
        ultimately show ?thesis by (simp add: hi_def)
      qed
    qed
  next
    assume free: ?free
    have before
    proof (cases "range_to_last lo t")
      case (Some r)
      obtain p pe pk where r: "r = (p, pe, pk)" by (cases r)
      have "RBT.lookup t p = Some (pe, pk)" "p \<le> lo"
        using range_to_last_Some [of lo t p "(pe, pk)"] Some r by auto
      with free lohi have "pe \<le> lo" unfolding lo_def hi_def by (metis le_trans not_le)
      then show ?thesis by (simp add: before_def Some r)
    qed (simp add: before_def)
    moreover have after
    proof (cases "range_from_first lo t")
      case (Some r)
      obtain n ne nk where r: "r = (n, ne, nk)" by (cases r)
      have n: "RBT.lookup t n = Some (ne, nk)" "lo \<le> n"
        using range_from_first_Some [of lo t n "(ne, nk)"] Some r by auto
      moreover have "n < ne" using inv n(1) unfolding ranges_disjoint_def by blast
      ultimately have "hi \<le> n" using free unfolding lo_def hi_def by (metis le_trans not_le)
      then show ?thesis by (simp add: after_def Some r)
    qed (simp add: after_def)
    ultimately show "before \<and> after" ..
  qed
  show ?thesis using 1 2 by (auto simp: lo_def hi_def)
qed

lemma insert_point_chunk_range_disjoint:
  assumes "ranges_disjoint t" "0 < sint (e_byte_size e)" "insert_point_chunk_range e t = Ok t'"
  shows "ranges_disjoint t'"
proof -
  have lohi: "entry_lo e < entry_hi e" using assms(2) by (simp add: entry_lo_def entry_hi_def)
  have t': "t' = RBT.insert (entry_lo e) (entry_hi e, e_key e) t"
    and free: "\<And>a b k. RBT.lookup t a = Some (b, k) \<Longrightarrow> b \<le> entry_lo e \<or> entry_hi e \<le> a"
    using assms insert_point_chunk_range_Ok_iff by blast+
  have pos: "\<And>a b k. RBT.lookup t a = Some (b, k) \<Longrightarrow> a < b"
    and dis: "\<And>a b k a' b' k'. RBT.lookup t a = Some (b, k) \<Longrightarrow> RBT.lookup t a' = Some (b', k') \<Longrightarrow>
        a < a' \<Longrightarrow> b \<le> a'"
    using assms(1) unfolding ranges_disjoint_def by blast+
  show ?thesis
    unfolding ranges_disjoint_def t' RBT.lookup_insert
  proof (intro conjI allI impI)
    fix a b k
    assume "((RBT.lookup t)(entry_lo e \<mapsto> (entry_hi e, e_key e))) a = Some (b, k)"
    then show "a < b" using lohi pos by (auto split: if_splits)
  next
    fix a b k a' b' k'
    assume l: "((RBT.lookup t)(entry_lo e \<mapsto> (entry_hi e, e_key e))) a = Some (b, k)"
      "((RBT.lookup t)(entry_lo e \<mapsto> (entry_hi e, e_key e))) a' = Some (b', k')" "a < a'"
    show "b \<le> a'"
    proof (cases "a = entry_lo e")
      case True
      then have b: "b = entry_hi e" and a': "RBT.lookup t a' = Some (b', k')"
        using l by (auto split: if_splits)
      from free [OF a'] pos [OF a'] l(3) True b show ?thesis by auto
    next
      case False
      then have a: "RBT.lookup t a = Some (b, k)" using l by simp
      show ?thesis
      proof (cases "a' = entry_lo e")
        case True
        from free [OF a] pos [OF a] l(3) True lohi show ?thesis by auto
      next
        case False
        with l have "RBT.lookup t a' = Some (b', k')" by simp
        with a l(3) dis show ?thesis by blast
      qed
    qed
  qed
qed

text \<open>Two chunks that share no byte.\<close>

definition chunks_disjoint :: "entry \<Rightarrow> entry \<Rightarrow> bool" where
  "chunks_disjoint e e' \<longleftrightarrow> entry_hi e \<le> entry_lo e' \<or> entry_hi e' \<le> entry_lo e"

lemma insert_ranges_Ok_iff:
  assumes "ranges_disjoint t" "\<forall>e \<in> set es. 0 < sint (e_byte_size e)"
  shows "(\<exists>t'. fold_res insert_point_chunk_range es t = Ok t') \<longleftrightarrow>
    (\<forall>e \<in> set es. entry_hi e < 2 ^ 64 \<and>
       (\<forall>a b k. RBT.lookup t a = Some (b, k) \<longrightarrow> b \<le> entry_lo e \<or> entry_hi e \<le> a)) \<and>
    sorted_wrt chunks_disjoint es"
  using assms
proof (induction es arbitrary: t)
  case Nil
  then show ?case by simp
next
  case (Cons e es)
  have pos: "0 < sint (e_byte_size e)" using Cons.prems(2) by simp
  have lohi: "entry_lo e < entry_hi e" using pos by (simp add: entry_lo_def entry_hi_def)
  define ok where "ok \<longleftrightarrow> entry_hi e < 2 ^ 64 \<and>
    (\<forall>a b k. RBT.lookup t a = Some (b, k) \<longrightarrow> b \<le> entry_lo e \<or> entry_hi e \<le> a)"
  define t1 where "t1 = RBT.insert (entry_lo e) (entry_hi e, e_key e) t"
  note step = insert_point_chunk_range_Ok_iff [OF Cons.prems(1) pos]
  show ?case
  proof (cases ok)
    case False
    then have "insert_point_chunk_range e t \<noteq> Ok t'" for t' using step by (auto simp: ok_def)
    then have "fold_res insert_point_chunk_range (e # es) t \<noteq> Ok t'" for t'
      by (auto simp: bind_res_Ok_iff)
    moreover have "\<not> (\<forall>x \<in> set (e # es). entry_hi x < 2 ^ 64 \<and>
       (\<forall>a b k. RBT.lookup t a = Some (b, k) \<longrightarrow> b \<le> entry_lo x \<or> entry_hi x \<le> a))"
      using False unfolding ok_def by (meson list.set_intros(1))
    ultimately show ?thesis by blast
  next
    case True
    then have ins: "insert_point_chunk_range e t = Ok t1"
      using step unfolding ok_def t1_def by blast
    have inv1: "ranges_disjoint t1"
      by (rule insert_point_chunk_range_disjoint [OF Cons.prems(1) pos ins])
    have fresh: "RBT.lookup t (entry_lo e) = None"
    proof (rule ccontr)
      assume "RBT.lookup t (entry_lo e) \<noteq> None"
      then obtain b k where b: "RBT.lookup t (entry_lo e) = Some (b, k)" by auto
      then have "entry_lo e < b" using Cons.prems(1) unfolding ranges_disjoint_def by blast
      with b True lohi show False unfolding ok_def by (meson not_le)
    qed
    have sep: "(\<forall>a b k. RBT.lookup t1 a = Some (b, k) \<longrightarrow> b \<le> entry_lo x \<or> entry_hi x \<le> a) \<longleftrightarrow>
        (\<forall>a b k. RBT.lookup t a = Some (b, k) \<longrightarrow> b \<le> entry_lo x \<or> entry_hi x \<le> a) \<and>
        chunks_disjoint e x" for x
    proof -
      have "(\<forall>a b k. ((RBT.lookup t)(entry_lo e \<mapsto> (entry_hi e, e_key e))) a = Some (b, k) \<longrightarrow>
            b \<le> entry_lo x \<or> entry_hi x \<le> a) \<longleftrightarrow>
          (entry_hi e \<le> entry_lo x \<or> entry_hi x \<le> entry_lo e) \<and>
          (\<forall>a b k. a \<noteq> entry_lo e \<longrightarrow> RBT.lookup t a = Some (b, k) \<longrightarrow>
            b \<le> entry_lo x \<or> entry_hi x \<le> a)"
        by (simp add: fun_upd_apply) blast
      with fresh show ?thesis
        unfolding t1_def RBT.lookup_insert chunks_disjoint_def by (metis option.distinct(1))
    qed
    have "(\<exists>t'. fold_res insert_point_chunk_range (e # es) t = Ok t') \<longleftrightarrow>
        (\<exists>t'. fold_res insert_point_chunk_range es t1 = Ok t')"
      by (simp add: ins)
    also have "\<dots> \<longleftrightarrow> (\<forall>x \<in> set es. entry_hi x < 2 ^ 64 \<and>
       (\<forall>a b k. RBT.lookup t a = Some (b, k) \<longrightarrow> b \<le> entry_lo x \<or> entry_hi x \<le> a) \<and>
        chunks_disjoint e x) \<and> sorted_wrt chunks_disjoint es"
      using Cons.IH [OF inv1] Cons.prems(2) unfolding sep by simp
    also have "\<dots> \<longleftrightarrow> (\<forall>x \<in> set (e # es). entry_hi x < 2 ^ 64 \<and>
       (\<forall>a b k. RBT.lookup t a = Some (b, k) \<longrightarrow> b \<le> entry_lo x \<or> entry_hi x \<le> a)) \<and>
        sorted_wrt chunks_disjoint (e # es)"
      using True unfolding ok_def list.set sorted_wrt.simps by blast
    finally show ?thesis .
  qed
qed

lemma validate_point_chunk_ranges_Ok_iff:
  assumes "\<forall>e \<in> set (filter has_point_data (hierarchy_values h)). 0 < sint (e_byte_size e)"
  shows "validate_point_chunk_ranges h = Ok () \<longleftrightarrow>
    (\<forall>e \<in> set (filter has_point_data (hierarchy_values h)). entry_hi e < 2 ^ 64) \<and>
    sorted_wrt chunks_disjoint (filter has_point_data (hierarchy_values h))"
proof -
  have "ranges_disjoint RBT.empty" by (simp add: ranges_disjoint_def)
  from insert_ranges_Ok_iff [OF this assms] show ?thesis
    by (simp add: validate_point_chunk_ranges_def bind_res_Ok_iff)
qed

section \<open>Point counts\<close>

definition entry_points :: "entry \<Rightarrow> nat" where
  "entry_points e = (if has_point_data e then unat (e_point_count e) else 0)"

lemma add_point_count_Ok_iff:
  assumes "entry_validate e = Ok ()"
  shows "add_point_count e n = Ok m \<longleftrightarrow>
    (has_point_data e \<longrightarrow> n + entry_points e < 2 ^ 64) \<and> m = n + entry_points e"
proof (cases "has_point_data e")
  case True
  then show ?thesis
    by (auto simp: add_point_count_def availability_PointData entry_points_def)
next
  case False
  then have "availability e = Ok Empty \<or> availability e = Ok ChildPage"
    using assms by (auto simp: entry_validate_Ok_iff availability_def has_point_data_def)
  with False show ?thesis by (auto simp: add_point_count_def entry_points_def)
qed

lemma fold_add_point_count:
  assumes "\<forall>e \<in> set es. entry_validate e = Ok ()"
  shows "fold_res add_point_count es n = Ok m \<Longrightarrow> m = n + sum_list (map entry_points es)"
    and "n + sum_list (map entry_points es) < 2 ^ 64 \<Longrightarrow>
      fold_res add_point_count es n = Ok (n + sum_list (map entry_points es))"
  using assms
proof (induction es arbitrary: n)
  case Nil
  { case 1 then show ?case by simp }
  { case 2 then show ?case by simp }
next
  case (Cons e es)
  { case 1
    then obtain k where k: "add_point_count e n = Ok k" "fold_res add_point_count es k = Ok m"
      by (auto simp: bind_res_Ok_iff)
    have "k = n + entry_points e" using k(1) 1(2) by (simp add: add_point_count_Ok_iff)
    with Cons.IH(1) [OF k(2)] 1(2) show ?case by simp }
  { case 2
    then have "add_point_count e n = Ok (n + entry_points e)"
      by (simp add: add_point_count_Ok_iff)
    with Cons.IH(2) [of "n + entry_points e"] 2 show ?case by (simp add: add.assoc) }
qed

lemma validate_hierarchy_point_count_Ok_iff:
  assumes "\<forall>e \<in> set (hierarchy_values h). entry_validate e = Ok ()"
  shows "validate_hierarchy_point_count h n = Ok () \<longleftrightarrow>
    sum_list (map entry_points (hierarchy_values h)) = unat n"
proof
  assume "validate_hierarchy_point_count h n = Ok ()"
  then have "fold_res add_point_count (hierarchy_values h) 0 = Ok (unat n)"
    by (auto simp: validate_hierarchy_point_count_def bind_res_Ok_iff split: if_splits)
  from fold_add_point_count(1) [OF assms this] show "sum_list (map entry_points (hierarchy_values h)) = unat n"
    by simp
next
  assume s: "sum_list (map entry_points (hierarchy_values h)) = unat n"
  then have "fold_res add_point_count (hierarchy_values h) 0 = Ok (unat n)"
    using fold_add_point_count(2) [OF assms, of 0] unat_bound [of n] by simp
  then show "validate_hierarchy_point_count h n = Ok ()"
    by (simp add: validate_hierarchy_point_count_def)
qed

section \<open>What the walk keeps\<close>

definition walk_ok :: "nat \<Rightarrow> data_ranges \<Rightarrow> walk_state \<Rightarrow> bool" where
  "walk_ok file_len ranges ws \<longleftrightarrow>
     (\<forall>k e. RBT.lookup (ws_hierarchy ws) k = Some e \<longrightarrow>
        e_key e = k \<and> validate_hierarchy_entry e file_len ranges = Ok ()) \<and>
     set (ws_pending ws) \<subseteq> ws_visited ws"

lemma insert_hierarchy_entry_Ok_iff:
  "insert_hierarchy_entry file_len ranges e ws = Ok ws' \<longleftrightarrow>
    validate_hierarchy_entry e file_len ranges = Ok () \<and>
    (\<forall>p. RBT.lookup (ws_hierarchy ws) (e_key e) = Some p \<longrightarrow> is_child_page p \<and> \<not> is_child_page e) \<and>
    ws' = ws\<lparr>ws_hierarchy := RBT.insert (e_key e) e (ws_hierarchy ws)\<rparr>"
  by (auto simp: insert_hierarchy_entry_def bind_res_Ok_iff split: option.splits if_splits)

lemma insert_hierarchy_entry_keeps:
  "walk_ok n r ws \<Longrightarrow> insert_hierarchy_entry n r e ws = Ok ws' \<Longrightarrow> walk_ok n r ws'"
  by (auto simp: walk_ok_def insert_hierarchy_entry_Ok_iff)

lemma push_child_page_keeps:
  "walk_ok n r ws \<Longrightarrow> push_child_page e ws = Ok ws' \<Longrightarrow> walk_ok n r ws'"
  by (auto simp: walk_ok_def push_child_page_def bind_res_Ok_iff Let_def split: if_splits)

lemma queue_hierarchy_page_keeps:
  assumes "queue_hierarchy_page p n r ws = Ok ws'" "walk_ok n r ws"
  shows "walk_ok n r ws'"
proof -
  obtain ws1 where 1: "fold_res (insert_hierarchy_entry n r) (page_entries p) ws = Ok ws1"
    and 2: "fold_res push_child_page (filter is_child_page (page_entries p)) ws1 = Ok ws'"
    using assms(1) by (auto simp: queue_hierarchy_page_def bind_res_Ok_iff)
  have "walk_ok n r ws1"
    by (rule fold_res_invariant [where P = "walk_ok n r", OF 1 assms(2)])
      (rule insert_hierarchy_entry_keeps)
  from fold_res_invariant [where P = "walk_ok n r", OF 2 this] push_child_page_keeps
  show ?thesis by blast
qed

lemma drain_pages_keeps:
  assumes "drain_pages n r ws limits s = Ok ((ws', limits'), t)" "walk_ok n r ws"
  shows "walk_ok n r ws' \<and> ws_pending ws' = []"
  using assms
proof (induction n r ws limits s rule: drain_pages.induct)
  case (1 n r ws limits s)
  show ?case
  proof (cases "ws_pending ws")
    case Nil
    with 1(2,3) show ?thesis by (simp add: drain_pages.simps)
  next
    case (Cons p pending)
    obtain off size where p: "p = (off, size)" by (cases p)
    obtain rr ws1 where rd: "read_hierarchy_page_at off size n limits s = Ok rr"
      and q: "queue_hierarchy_page (fst (fst rr)) n r (ws\<lparr>ws_pending := pending\<rparr>) = Ok ws1"
      and d: "drain_pages n r ws1 (snd (fst rr)) (snd rr) = Ok ((ws', limits'), t)"
      using 1(2) Cons p by (auto simp: drain_pages.simps [of n r ws] bind_res_Ok_iff)
    have "walk_ok n r (ws\<lparr>ws_pending := pending\<rparr>)"
      using 1(3) Cons by (auto simp: walk_ok_def)
    from queue_hierarchy_page_keeps [OF q this] have "walk_ok n r ws1" .
    with 1(1) [OF Cons p [symmetric] rd q] d show ?thesis by blast
  qed
qed

lemma insert_hierarchy_pages_keeps:
  assumes "insert_hierarchy_pages p n r ws limits s = Ok ((ws', limits'), t)" "walk_ok n r ws"
  shows "walk_ok n r ws'"
proof -
  obtain ws1 where q: "queue_hierarchy_page p n r (ws\<lparr>ws_pending := []\<rparr>) = Ok ws1"
    and d: "drain_pages n r ws1 limits s = Ok ((ws', limits'), t)"
    using assms(1) by (auto simp: insert_hierarchy_pages_def bind_res_Ok_iff)
  have "walk_ok n r (ws\<lparr>ws_pending := []\<rparr>)" using assms(2) by (simp add: walk_ok_def)
  from drain_pages_keeps [OF d queue_hierarchy_page_keeps [OF q this]] show ?thesis ..
qed

text \<open>
  The hierarchy of an opened file: its values are sorted by key, every one is validated, the
  chunks are disjoint and the counts add up.
\<close>

definition hierarchy_ok :: "nat \<Rightarrow> data_ranges \<Rightarrow> entry list \<Rightarrow> u64 \<Rightarrow> bool" where
  "hierarchy_ok file_len ranges es n \<longleftrightarrow>
     sorted_wrt (<) (map e_key es) \<and>
     list_all (\<lambda>e. validate_hierarchy_entry e file_len ranges = Ok ()) es \<and>
     sorted_wrt chunks_disjoint (filter has_point_data es) \<and>
     sum_list (map entry_points es) = unat n"

lemma point_size_pos:
  "entry_validate e = Ok () \<Longrightarrow> has_point_data e \<Longrightarrow> 0 < sint (e_byte_size e)"
  by (auto simp: entry_validate_Ok_iff has_point_data_def)

lemma hierarchy_values_keys:
  assumes "\<And>k e. RBT.lookup h k = Some e \<Longrightarrow> e_key e = k"
  shows "map e_key (hierarchy_values h) = map fst (RBT.entries h)"
  using assms by (auto simp: hierarchy_values_def RBT.lookup_in_tree)

lemma hierarchy_values_sorted:
  assumes "\<And>k e. RBT.lookup h k = Some e \<Longrightarrow> e_key e = k"
  shows "sorted_wrt (<) (map e_key (hierarchy_values h))"
  using hierarchy_values_keys [OF assms] RBT.sorted_entries [of h] RBT.distinct_entries [of h]
  by (simp add: strict_sorted_iff)

lemma set_hierarchy_values:
  "set (hierarchy_values h) = {e. \<exists>k. RBT.lookup h k = Some e}"
  by (force simp: hierarchy_values_def RBT.lookup_in_tree)

lemma hierarchy_checks_iff:
  assumes "walk_ok len r ws"
  shows "validate_point_chunk_ranges (ws_hierarchy ws) = Ok () \<and>
      validate_hierarchy_point_count (ws_hierarchy ws) n = Ok () \<longleftrightarrow>
    hierarchy_ok len r (hierarchy_values (ws_hierarchy ws)) n"
proof -
  let ?es = "hierarchy_values (ws_hierarchy ws)"
  have v: "\<forall>e \<in> set ?es. validate_hierarchy_entry e len r = Ok ()"
    and k: "\<And>k e. RBT.lookup (ws_hierarchy ws) k = Some e \<Longrightarrow> e_key e = k"
    using assms by (auto simp: walk_ok_def set_hierarchy_values)
  have v': "\<forall>e \<in> set ?es. entry_validate e = Ok ()" and hi: "\<forall>e \<in> set (filter has_point_data ?es). entry_hi e < 2 ^ 64"
    using v by (simp_all add: validate_hierarchy_entry_Ok_iff)
  then have pos: "\<forall>e \<in> set (filter has_point_data ?es). 0 < sint (e_byte_size e)"
    using point_size_pos by simp
  show ?thesis
    using validate_point_chunk_ranges_Ok_iff [OF pos] validate_hierarchy_point_count_Ok_iff [OF v', of n]
      v hi hierarchy_values_sorted [OF k]
    by (simp add: hierarchy_ok_def list_all_iff)
qed

section \<open>Opening a file, summarised\<close>

lemma reader_len_fcur: "reader_len (fcur f p) = Ok (length f, fcur f p)"
  by (simp add: reader_len_def fcur_def section_seek_def)

lemma from_reader_Ok:
  assumes "from_reader laz_read (fcur f 0) = Ok (cf, t)"
  obtains vlrs s1 evlrs s2 root_evlr r ws limits limits' s3 where
    "header_accepted f" "cf_header cf = header_at f"
    "read_vlrs (unat (lh_number_of_vlrs (header_at f))) (length f)
      (unat (lh_offset_to_point_data (header_at f))) (fcur f 375) = Ok (vlrs, s1)"
    "extract_required_vlrs laz_read vlrs = Ok (cf_copc_info cf, cf_laszip_vlr cf)"
    "read_evlr_refs (header_at f) (length f) s1 = Ok (evlrs, s2)"
    "find_hierarchy_evlr evlrs = Some root_evlr"
    "unat (ci_root_hier_offset (cf_copc_info cf)) = ev_data_offset root_evlr"
    "unat (ci_root_hier_size (cf_copc_info cf)) \<le> ev_data_len root_evlr"
    "data_ranges_new (header_at f) (ev_data_offset root_evlr) (ev_data_len root_evlr) = Ok r"
    "read_hierarchy_page_at (unat (ci_root_hier_offset (cf_copc_info cf)))
      (unat (ci_root_hier_size (cf_copc_info cf))) (length f) \<lparr>total_bytes = 0\<rparr> s2 =
      Ok ((cf_root_hierarchy cf, limits), s3)"
    "insert_hierarchy_pages (cf_root_hierarchy cf) (length f) r
      \<lparr>ws_hierarchy = RBT.empty,
       ws_visited = {(unat (ci_root_hier_offset (cf_copc_info cf)), unat (ci_root_hier_size (cf_copc_info cf)))},
       ws_pending = []\<rparr> limits s3 = Ok ((ws, limits'), t)"
    "cf_hierarchy cf = ws_hierarchy ws"
    "validate_point_chunk_ranges (ws_hierarchy ws) = Ok ()"
    "validate_hierarchy_point_count (ws_hierarchy ws) (lh_number_of_points (header_at f)) = Ok ()"
  using assms unfolding from_reader_def
  by (auto simp: rbind_Ok_iff reader_len_fcur read_las_header_Ok_iff not_less split: prod.splits)

lemma data_ranges_new_Ok_iff:
  "data_ranges_new h a n = Ok r \<longleftrightarrow>
    unat (lh_offset_to_point_data h) \<le> unat (lh_offset_to_first_evlr h) \<and> a + n < 2 ^ 64 \<and>
    r = \<lparr>point_data_start = unat (lh_offset_to_point_data h),
         point_data_end = unat (lh_offset_to_first_evlr h),
         hierarchy_start = a, hierarchy_end = a + n\<rparr>"
  by (auto simp: data_ranges_new_def Let_def bind_res_Ok_iff checked_range_end_Ok_iff split: if_splits)

text \<open>A \<^verbatim>\<open>copc\<close>/1000 EVLR whose body is the bytes from \<open>a\<close> on.\<close>

definition hierarchy_evlr_at :: "u8 list \<Rightarrow> nat \<Rightarrow> bool" where
  "hierarchy_evlr_at f a \<longleftrightarrow>
     60 \<le> a \<and> u16_from_le (bslice f (a - 60) 2) = 0 \<and> trim_nul (bslice f (a - 58) 16) = lit ''copc'' \<and> u16_from_le (bslice f (a - 42) 2) = 1000"

definition evlr_body_end :: "u8 list \<Rightarrow> nat \<Rightarrow> nat" where
  "evlr_body_end f a = a + unat (u64_from_le (bslice f (a - 40) 8))"

lemma found_evlr:
  assumes "read_vlrs n len k (fcur f p) = Ok (vlrs, s1)"
    and "read_evlr_refs h (length f) s1 = Ok (evlrs, s2)" "find_hierarchy_evlr evlrs = Some ev"
  shows "hierarchy_evlr_at f (ev_data_offset ev)" "ev_data_offset ev + ev_data_len ev \<le> length f"
    "evlr_body_end f (ev_data_offset ev) = ev_data_offset ev + ev_data_len ev"
proof -
  obtain q where "s1 = fcur f q" using reads_file_cursor [OF reads_file_vlrs assms(1)] by blast
  then have "list_all (evlr_of_file f) evlrs" using assms(2) read_evlr_refs_of_file by blast
  moreover have "ev \<in> set evlrs" "trim_nul (ev_user_id ev) = lit ''copc''" "ev_record_id ev = 1000"
    using assms(3) by (auto simp: find_hierarchy_evlr_def find_Some_iff)
  ultimately have "evlr_of_file f ev" "trim_nul (ev_user_id ev) = lit ''copc''" "ev_record_id ev = 1000"
    by (auto simp: list_all_iff)
  then show "hierarchy_evlr_at f (ev_data_offset ev)" "ev_data_offset ev + ev_data_len ev \<le> length f"
    "evlr_body_end f (ev_data_offset ev) = ev_data_offset ev + ev_data_len ev"
    by (simp_all add: evlr_of_file_def hierarchy_evlr_at_def evlr_body_end_def)
qed

lemma from_reader_hierarchy:
  assumes "from_reader laz_read (fcur f 0) = Ok (cf, t)"
  shows "\<exists>r. hierarchy_ok (length f) r (hierarchy_walk cf) (lh_number_of_points (cf_header cf)) \<and>
    point_data_start r = unat (lh_offset_to_point_data (cf_header cf)) \<and>
    point_data_end r = unat (lh_offset_to_first_evlr (cf_header cf)) \<and>
    hierarchy_start r = unat (ci_root_hier_offset (cf_copc_info cf)) \<and>
    hierarchy_end r = evlr_body_end f (unat (ci_root_hier_offset (cf_copc_info cf))) \<and>
    hierarchy_evlr_at f (unat (ci_root_hier_offset (cf_copc_info cf))) \<and>
    evlr_body_end f (unat (ci_root_hier_offset (cf_copc_info cf))) \<le> length f"
proof (rule from_reader_Ok [OF assms])
  fix vlrs s1 evlrs s2 root_evlr r ws limits limits' s3
  assume h: "cf_header cf = header_at f"
    and rv: "read_vlrs (unat (lh_number_of_vlrs (header_at f))) (length f)
      (unat (lh_offset_to_point_data (header_at f))) (fcur f 375) = Ok (vlrs, s1)"
    and re: "read_evlr_refs (header_at f) (length f) s1 = Ok (evlrs, s2)" "find_hierarchy_evlr evlrs = Some root_evlr"
    and off: "unat (ci_root_hier_offset (cf_copc_info cf)) = ev_data_offset root_evlr"
    and dr: "data_ranges_new (header_at f) (ev_data_offset root_evlr) (ev_data_len root_evlr) = Ok r"
    and ins: "insert_hierarchy_pages (cf_root_hierarchy cf) (length f) r
      \<lparr>ws_hierarchy = RBT.empty,
       ws_visited = {(unat (ci_root_hier_offset (cf_copc_info cf)), unat (ci_root_hier_size (cf_copc_info cf)))},
       ws_pending = []\<rparr> limits s3 = Ok ((ws, limits'), t)"
    and ch: "cf_hierarchy cf = ws_hierarchy ws" "validate_point_chunk_ranges (ws_hierarchy ws) = Ok ()"
      "validate_hierarchy_point_count (ws_hierarchy ws) (lh_number_of_points (header_at f)) = Ok ()"
  have "walk_ok (length f) r ws"
    by (rule insert_hierarchy_pages_keeps [OF ins]) (simp add: walk_ok_def)
  then have ok: "hierarchy_ok (length f) r (hierarchy_walk cf) (lh_number_of_points (cf_header cf))"
    using ch h hierarchy_checks_iff by (fastforce simp: hierarchy_walk_def)
  from found_evlr [OF rv re] show ?thesis using ok dr off h by (auto simp: data_ranges_new_Ok_iff)
qed

section \<open>Properties\<close>

text \<open>C5: the overlap check of the reader: with the validated entries it looks at, it accepts
  exactly the hierarchies whose point chunks are pairwise disjoint byte ranges, although it only
  compares each range with its two neighbours in the map.\<close>
theorem overlap_check_exact:
  "validate_point_chunk_ranges h = Ok () \<and> list_all (\<lambda>e. entry_validate e = Ok ()) (hierarchy_values h) \<longleftrightarrow>
    list_all (\<lambda>e. entry_validate e = Ok ()) (hierarchy_values h) \<and>
    list_all (\<lambda>e. entry_hi e < 2 ^ 64) (filter has_point_data (hierarchy_values h)) \<and>
    sorted_wrt chunks_disjoint (filter has_point_data (hierarchy_values h))"
proof (cases "list_all (\<lambda>e. entry_validate e = Ok ()) (hierarchy_values h)")
  case True
  then have "\<forall>e \<in> set (filter has_point_data (hierarchy_values h)). 0 < sint (e_byte_size e)"
    using point_size_pos by (auto simp: list_all_iff)
  from validate_point_chunk_ranges_Ok_iff [OF this] True show ?thesis
    by (auto simp: list_all_iff)
next
  case False
  then show ?thesis by (auto simp: list_all_iff)
qed

text \<open>What is promised of each entry, with the two sections written out.\<close>

definition entry_inside :: "nat \<Rightarrow> nat \<Rightarrow> nat \<Rightarrow> nat \<Rightarrow> entry \<Rightarrow> bool" where
  "entry_inside points_start points_end pages_start pages_end e \<longleftrightarrow>
     (let k = e_key e; lo = unat (e_offset e); size = sint (e_byte_size e) in
      0 \<le> sint (vk_level k) \<and> (\<forall>c \<in> {vk_x k, vk_y k, vk_z k}. 0 \<le> sint c \<and>
        (sint (vk_level k) < 31 \<longrightarrow> sint c < 2 ^ nat (sint (vk_level k)))) \<and>
      (if e_point_count e = 0 then lo = 0 \<and> size = 0
       else if e_point_count e = - 1
       then 0 < size \<and> pages_start \<le> lo \<and> lo + nat size \<le> pages_end
       else 0 < sint (e_point_count e) \<and> 0 < size \<and> size \<le> 512 * 1024 * 1024 \<and>
         points_start \<le> lo \<and> lo + nat size \<le> points_end))"

lemma entry_insideI:
  assumes "validate_hierarchy_entry e len r = Ok ()"
  shows "entry_inside (point_data_start r) (point_data_end r) (hierarchy_start r) (hierarchy_end r) e"
proof -
  have m1: "sint (e_point_count e) = - 1 \<longleftrightarrow> e_point_count e = - 1" "sint (e_point_count e) = 0 \<longleftrightarrow> e_point_count e = 0"
    using signed_word_eqI [of "e_point_count e" "- 1"] signed_word_eqI [of "e_point_count e" 0] by auto
  show ?thesis
    using assms
    by (auto simp: validate_hierarchy_entry_Ok_iff entry_validate_Ok_iff vk_validate_Ok_iff entry_inside_def Let_def m1
        has_point_data_def is_child_page_def entry_lo_def entry_hi_def MAX_POINT_CHUNK_BYTES_def)
qed

text \<open>C4: what opening a file guarantees. Right before the root page that the COPC info names there is
  the header of a \<^verbatim>\<open>copc\<close>/1000 EVLR, whose body ends inside the file. The entries of the hierarchy are sorted
  by distinct keys, and each has a valid key and is either empty, or a point chunk of at most 512 MiB between
  the point data offset and the first EVLR, or a child page inside that EVLR body; point chunks end inside
  the file and do not overlap, and their point counts add up to the header's.\<close>
theorem open_is_safe:
  "case from_reader laz_read (fcur f 0) of
     Inl e \<Rightarrow> True
   | Inr (cf, t) \<Rightarrow>
       (let h = cf_header cf; es = hierarchy_walk cf; body = unat (ci_root_hier_offset (cf_copc_info cf)) in
        hierarchy_evlr_at f body \<and> evlr_body_end f body \<le> length f \<and>
        sorted_wrt (<) (map e_key es) \<and>
        list_all (entry_inside (unat (lh_offset_to_point_data h)) (unat (lh_offset_to_first_evlr h)) body (evlr_body_end f body)) es \<and>
        list_all (\<lambda>e. entry_hi e \<le> length f) (filter has_point_data es) \<and>
        sorted_wrt chunks_disjoint (filter has_point_data es) \<and>
        sum_list (map entry_points es) = unat (lh_number_of_points h))"
proof (cases "from_reader laz_read (fcur f 0)")
  case (Inr x)
  obtain cf t where x: "x = (cf, t)" by (cases x)
  from from_reader_hierarchy [OF Inr [unfolded x]] obtain r where
    ok: "hierarchy_ok (length f) r (hierarchy_walk cf) (lh_number_of_points (cf_header cf))"
    and r: "point_data_start r = unat (lh_offset_to_point_data (cf_header cf))"
      "point_data_end r = unat (lh_offset_to_first_evlr (cf_header cf))"
      "hierarchy_start r = unat (ci_root_hier_offset (cf_copc_info cf))"
      "hierarchy_end r = evlr_body_end f (unat (ci_root_hier_offset (cf_copc_info cf)))"
    and body: "hierarchy_evlr_at f (unat (ci_root_hier_offset (cf_copc_info cf)))"
      "evlr_body_end f (unat (ci_root_hier_offset (cf_copc_info cf))) \<le> length f" by blast
  have "list_all (entry_inside (point_data_start r) (point_data_end r) (hierarchy_start r) (hierarchy_end r)) (hierarchy_walk cf)"
    using ok entry_insideI by (auto simp: hierarchy_ok_def list_all_iff)
  then show ?thesis
    using ok body by (auto simp: Inr x Let_def r hierarchy_ok_def list_all_iff validate_hierarchy_entry_Ok_iff)
qed simp

end
