(* ===== verification/Las_Types.thy ===== *)
theory Las_Types
  imports Prelude
begin

text \<open>
  The public data types of the \<^verbatim>\<open>las\<close> crate that the workspace builds and takes apart: the fields it
  uses of \<^verbatim>\<open>las::Vlr\<close>, \<^verbatim>\<open>las::point::Format\<close> and \<^verbatim>\<open>las::Point\<close>. Functions of the crate are
  parameters where they are used.
\<close>

record las_vlr =
  lv_user_id :: "u8 list"
  lv_record_id :: u16
  lv_description :: "u8 list"
  lv_data :: "u8 list"

record las_format =
  lf_has_gps_time :: bool
  lf_has_color :: bool
  lf_is_extended :: bool
  lf_has_waveform :: bool
  lf_has_nir :: bool
  lf_extra_bytes :: u16

datatype scan_direction = RightToLeft | LeftToRight

record las_waveform =
  lw_wave_packet_descriptor_index :: u8
  lw_byte_offset_to_waveform_data :: u64
  lw_waveform_packet_size_in_bytes :: u32
  lw_return_point_waveform_location :: f32

record 'class las_point =
  lp_x :: f64
  lp_y :: f64
  lp_z :: f64
  lp_intensity :: u16
  lp_return_number :: u8
  lp_number_of_returns :: u8
  lp_scan_direction :: scan_direction
  lp_is_edge_of_flight_line :: bool
  lp_classification :: 'class
  lp_is_synthetic :: bool
  lp_is_key_point :: bool
  lp_is_withheld :: bool
  lp_is_overlap :: bool
  lp_scanner_channel :: u8
  lp_scan_angle :: f32
  lp_user_data :: u8
  lp_point_source_id :: u16
  lp_gps_time :: "f64 option"
  lp_color :: "(u16 \<times> u16 \<times> u16) option"
  lp_waveform :: "las_waveform option"
  lp_nir :: "u16 option"
  lp_extra_bytes :: "u8 list"

end
