(* ===== verification/Las_Out.thy ===== *)
theory Las_Out
  imports Bounds Las_Reader Las_Types
begin

text \<open>
  \<^verbatim>\<open>copc-writer/src/las_out.rs\<close>: serialization of the LAS 1.4 header, the VLRs and the EVLRs. A
  function that writes to a \<^verbatim>\<open>Write\<close> returns the bytes it appends; the device itself does not fail.
  The lemmas show that the reader of \<open>Las_Reader\<close> gets back what is written here.
\<close>

definition LAS_VLR_HEADER_BYTES :: nat where "LAS_VLR_HEADER_BYTES = 54"
definition LAS_EVLR_HEADER_BYTES :: nat where "LAS_EVLR_HEADER_BYTES = 60"

record out_header =
  oh_point_data_format :: u8
  oh_point_record_length :: u16
  oh_offset_to_point_data :: u32
  oh_number_of_vlrs :: u32
  oh_file_source_id :: u16
  oh_global_encoding :: u16
  oh_guid :: "u8 list"
  oh_system_identifier :: "u8 list"
  oh_generating_software :: "u8 list"
  oh_creation_day_of_year :: u16
  oh_creation_year :: u16
  oh_scale :: "f64 \<times> f64 \<times> f64"
  oh_offset :: "f64 \<times> f64 \<times> f64"
  oh_bounds :: bounds
  oh_legacy_point_count :: u32
  oh_total_point_count :: u64
  oh_offset_to_first_evlr :: u64
  oh_number_of_evlrs :: u32
  oh_extended_return_counts :: "u64 list" \<comment> \<open>15 of them\<close>

definition validate_las_string :: "string \<Rightarrow> u8 list \<Rightarrow> nat \<Rightarrow> unit result" where
  "validate_las_string name value max_bytes =
     (if \<not> list_all (\<lambda>b. b \<le> 127) value
      then Err (InvalidInput (''LAS '' @ name @ '' must contain only ASCII characters''))
      else if 0 \<in> set value
      then Err (InvalidInput (''LAS '' @ name @ '' must not contain an embedded NUL''))
      else if max_bytes < length value
      then Err (InvalidInput (''LAS '' @ name @ '' is {} bytes, max is {max_bytes}''))
      else Ok ())"

definition pad :: "u8 list \<Rightarrow> nat \<Rightarrow> u8 list" where
  "pad value len =
     (let taken = min (length value) len;
          out = take taken value
      in out @ replicate (len - length out) 0)"

definition out_header_write :: "out_header \<Rightarrow> u8 list result" where
  "out_header_write h =
     bind_res (validate_las_string ''system identifier'' (oh_system_identifier h) 32) (\<lambda>_.
     bind_res (validate_las_string ''generating software'' (oh_generating_software h) 32) (\<lambda>_.
     if \<not> (1 \<le> oh_creation_day_of_year h \<and> oh_creation_day_of_year h \<le> 366) \<or> oh_creation_year h = 0
     then Err (InvalidInput
       ''LAS creation date must contain day 1..=366 and a non-zero year, got day {} year {}'')
     else
       case (oh_scale h, oh_offset h, b_min (oh_bounds h), b_max (oh_bounds h)) of
         ((sx, sy, sz), (ox, oy, oz), (min_x, min_y, min_z), (max_x, max_y, max_z)) \<Rightarrow>
       Ok (lit ''LASF'' @
           u16_to_le (oh_file_source_id h) @
           u16_to_le (oh_global_encoding h) @
           oh_guid h @
           [1] @
           [4] @
           pad (oh_system_identifier h) 32 @
           pad (oh_generating_software h) 32 @
           u16_to_le (oh_creation_day_of_year h) @
           u16_to_le (oh_creation_year h) @
           u16_to_le 375 @
           u32_to_le (oh_offset_to_point_data h) @
           u32_to_le (oh_number_of_vlrs h) @
           [oh_point_data_format h] @
           u16_to_le (oh_point_record_length h) @
           u32_to_le (oh_legacy_point_count h) @
           concat (map (\<lambda>_. u32_to_le 0) [0..<5]) @
           u64_to_le sx @ u64_to_le sy @ u64_to_le sz @
           u64_to_le ox @ u64_to_le oy @ u64_to_le oz @
           u64_to_le max_x @ u64_to_le min_x @
           u64_to_le max_y @ u64_to_le min_y @
           u64_to_le max_z @ u64_to_le min_z @
           u64_to_le 0 @
           u64_to_le (oh_offset_to_first_evlr h) @
           u32_to_le (oh_number_of_evlrs h) @
           u64_to_le (oh_total_point_count h) @
           concat (map u64_to_le (oh_extended_return_counts h)))))"

definition write_vlr_header ::
  "u8 list \<Rightarrow> u16 \<Rightarrow> u16 \<Rightarrow> u8 list \<Rightarrow> u8 list result" where
  "write_vlr_header user_id record_id body_size description =
     bind_res (validate_las_string ''VLR user id'' user_id 16) (\<lambda>_.
     bind_res (validate_las_string ''VLR description'' description 32) (\<lambda>_.
     Ok (u16_to_le 0 @ pad user_id 16 @ u16_to_le record_id @ u16_to_le body_size @
         pad description 32)))"

definition u16_try_from_usize :: "nat \<Rightarrow> u16 option" where
  "u16_try_from_usize n = (if n < 2 ^ 16 then Some (of_nat n) else None)"

definition write_las_vlr :: "las_vlr \<Rightarrow> u8 list result" where
  "write_las_vlr v =
     bind_res (ok_or (u16_try_from_usize (length (lv_data v)))
       (InvalidInput ''regular VLR {}:{} is too large: {} byte(s)'')) (\<lambda>body_size.
     bind_res (write_vlr_header (lv_user_id v) (lv_record_id v) body_size (lv_description v)) (\<lambda>header.
     Ok (header @ lv_data v)))"

definition regular_las_vlrs_bytes :: "las_vlr list \<Rightarrow> u32 result" where
  "regular_las_vlrs_bytes vlrs =
     fold_res (\<lambda>v total.
       bind_res (ok_or (u16_try_from_usize (length (lv_data v)))
         (InvalidInput ''regular VLR {}:{} is too large: {} byte(s)'')) (\<lambda>data_len.
       ok_or (checked_add total (of_nat LAS_VLR_HEADER_BYTES + of_nat (unat data_len)))
         (InvalidInput ''VLR byte size overflow''))) vlrs 0"

definition write_evlr_header ::
  "u8 list \<Rightarrow> u16 \<Rightarrow> u64 \<Rightarrow> u8 list \<Rightarrow> u8 list result" where
  "write_evlr_header user_id record_id body_size description =
     bind_res (validate_las_string ''EVLR user id'' user_id 16) (\<lambda>_.
     bind_res (validate_las_string ''EVLR description'' description 32) (\<lambda>_.
     Ok (u16_to_le 0 @ pad user_id 16 @ u16_to_le record_id @ u64_to_le body_size @
         pad description 32)))"

definition u64_try_from_usize :: "nat \<Rightarrow> u64 option" where
  "u64_try_from_usize n = (if n < 2 ^ 64 then Some (of_nat n) else None)"

definition write_las_evlr :: "las_vlr \<Rightarrow> u8 list result" where
  "write_las_evlr v =
     bind_res (ok_or (u64_try_from_usize (length (lv_data v)))
       (InvalidInput ''EVLR {}:{} is too large: {} byte(s)'')) (\<lambda>body_size.
     bind_res (write_evlr_header (lv_user_id v) (lv_record_id v) body_size (lv_description v)) (\<lambda>header.
     Ok (header @ lv_data v)))"

section \<open>What is written\<close>

lemma length_pad [simp]: "length (pad v n) = n"
  by (simp add: pad_def Let_def)

lemma validate_las_string_Ok_iff [simp]:
  "validate_las_string n v k = Ok u \<longleftrightarrow> (\<forall>b \<in> set v. b \<noteq> 0 \<and> b \<le> 127) \<and> length v \<le> k"
  by (auto simp: validate_las_string_def list_all_iff)

lemma trim_nul_pad:
  assumes "validate_las_string n v k = Ok u"
  shows "trim_nul (pad v k) = v"
  using assms trim_nul_padded [of v "k - length v"] by (simp add: pad_def Let_def)

lemma length_lit [simp]: "length (lit s) = length s"
  by (simp add: lit_def)

lemma length_concat_u64 [simp]: "length (concat (map u64_to_le xs)) = 8 * length xs"
  by (induction xs) simp_all

lemma out_header_write_length:
  assumes "out_header_write h = Ok bs" "length (oh_guid h) = 16"
    "length (oh_extended_return_counts h) = 15"
  shows "length bs = 375"
  using assms by (auto simp: out_header_write_def bind_res_Ok_iff upt_rec split: if_splits prod.splits)

section \<open>Reading back a VLR\<close>

text \<open>The VLR the reader keeps for one that was written, if it keeps it.\<close>

definition stored_vlr :: "nat \<Rightarrow> las_vlr \<Rightarrow> vlr list" where
  "stored_vlr i v =
     (if should_store_vlr (lv_user_id v) (lv_record_id v)
      then [\<lparr>vlr_index = i, vlr_user_id = lv_user_id v, vlr_record_id = lv_record_id v,
             vlr_data = lv_data v\<rparr>]
      else [])"

lemma write_las_vlr_Ok:
  assumes "write_las_vlr v = Ok bs"
  obtains n k u1 u2 where
    "bs = u16_to_le 0 @ pad (lv_user_id v) 16 @ u16_to_le (lv_record_id v) @
       u16_to_le (of_nat (length (lv_data v))) @ pad (lv_description v) 32 @ lv_data v"
    "length (lv_data v) < 65536" "length bs = 54 + length (lv_data v)"
    "trim_nul (pad (lv_user_id v) 16) = lv_user_id v"
proof -
  have v1: "validate_las_string ''VLR user id'' (lv_user_id v) 16 = Ok ()"
    using assms by (auto simp: write_las_vlr_def write_vlr_header_def bind_res_Ok_iff)
  show ?thesis
    by (rule that [OF _ _ _ trim_nul_pad [OF v1]])
      (use assms in \<open>auto simp: write_las_vlr_def write_vlr_header_def bind_res_Ok_iff
        u16_try_from_usize_def split: if_splits\<close>)
qed

lemma read_vlr_step_written:
  assumes w: "write_las_vlr v = Ok bs" and f: "bslice f p (length bs) = bs"
    and le: "p + length bs \<le> section_end" "section_end \<le> length f" "length f < 2 ^ 64"
  shows "read_vlr_step section_end i vs (fcur f p) = Ok (vs @ stored_vlr i v, fcur f (p + length bs))"
proof -
  obtain bs_eq: "bs = u16_to_le 0 @ pad (lv_user_id v) 16 @ u16_to_le (lv_record_id v) @
       u16_to_le (of_nat (length (lv_data v))) @ pad (lv_description v) 32 @ lv_data v"
    and small: "length (lv_data v) < 65536" and len: "length bs = 54 + length (lv_data v)"
    and trim: "trim_nul (pad (lv_user_id v) 16) = lv_user_id v"
    using write_las_vlr_Ok [OF w] by metis
  have sl: "bslice f p 2 = u16_to_le 0" "bslice f (p + 2) 16 = pad (lv_user_id v) 16"
    "bslice f (p + 18) 2 = u16_to_le (lv_record_id v)"
    "bslice f (p + 20) 2 = u16_to_le (of_nat (length (lv_data v)))"
    "bslice f (p + 22) 32 = pad (lv_description v) 32"
    "bslice f (p + 54) (length (lv_data v)) = lv_data v"
    using bslice_sub [OF f, of 0 2 p] bslice_sub [OF f, of 2 16 "p + 2"]
      bslice_sub [OF f, of 18 2 "p + 18"] bslice_sub [OF f, of 20 2 "p + 20"]
      bslice_sub [OF f, of 22 32 "p + 22"] bslice_sub [OF f, of 54 "length (lv_data v)" "p + 54"] len
    by (simp_all add: bs_eq) (simp_all add: bslice_def)
  have un: "unat (of_nat (length (lv_data v)) :: u16) = length (lv_data v)"
    using small by (simp add: unat_of_nat_small)
  have r1: "validate_range_in_file p VLR_HEADER_BYTES section_end l = Ok (p + 54)" for l
    using le len by (simp add: validate_range_in_file_Ok_iff VLR_HEADER_BYTES_def)
  have r2: "validate_range_in_file (p + 54) (length (lv_data v)) section_end l =
      Ok (p + 54 + length (lv_data v))" for l
    using le len by (simp add: validate_range_in_file_Ok_iff)
  have b: "p + 54 + length (lv_data v) \<le> length f" using le len by simp
  show ?thesis
    unfolding read_vlr_step_def
    using b sl(6)
    by (cases "should_store_vlr (lv_user_id v) (lv_record_id v)")
      (simp_all add: fcur_steps r1 rbind_done_check rbind_assoc sl(1-5) un r2 trim Let_def len add.assoc
        rret_def stored_vlr_def del: add_2_eq_Suc add_2_eq_Suc')
qed

text \<open>Several VLRs written one after the other.\<close>

fun stored_vlrs :: "nat \<Rightarrow> las_vlr list \<Rightarrow> vlr list" where
  "stored_vlrs i [] = []"
| "stored_vlrs i (v # vs) = stored_vlr i v @ stored_vlrs (Suc i) vs"

lemma stored_vlrs_eq:
  "stored_vlrs i vs =
    map (\<lambda>(i, v). \<lparr>vlr_index = i, vlr_user_id = lv_user_id v, vlr_record_id = lv_record_id v, vlr_data = lv_data v\<rparr>)
      (filter (\<lambda>(_, v). (lv_user_id v, lv_record_id v) \<in> {(lit ''copc'', 1), (lit ''laszip encoded'', 22204)}) (enumerate i vs))"
  by (induction vs arbitrary: i) (auto simp: stored_vlr_def should_store_vlr_def)

lemma read_vlr_loop_written:
  assumes "map_res write_las_vlr vs = Ok bss" and "bslice f p (length (concat bss)) = concat bss"
    and "p + length (concat bss) \<le> section_end" "section_end \<le> length f" "length f < 2 ^ 64"
  shows "rfor i (length vs) (read_vlr_step section_end) acc (fcur f p) =
    Ok (acc @ stored_vlrs i vs, fcur f (p + length (concat bss)))"
  using assms
proof (induction vs arbitrary: i acc p bss)
  case Nil
  then show ?case by (simp add: rret_def)
next
  case (Cons v vs)
  from Cons.prems(1) obtain bs bss' where bss: "bss = bs # bss'" "write_las_vlr v = Ok bs"
    "map_res write_las_vlr vs = Ok bss'"
    by (auto simp: bind_res_Ok_iff)
  have f1: "bslice f p (length bs) = bs"
    using bslice_sub [OF Cons.prems(2), of 0 "length bs" p] bss(1) by (simp add: bslice_def)
  have f2: "bslice f (p + length bs) (length (concat bss')) = concat bss'"
    using bslice_sub [OF Cons.prems(2), of "length bs" "length (concat bss')" "p + length bs"] bss(1)
    by (simp add: bslice_def)
  have "rfor i (length (v # vs)) (read_vlr_step section_end) acc (fcur f p) =
      rfor (Suc i) (length vs) (read_vlr_step section_end) (acc @ stored_vlr i v) (fcur f (p + length bs))"
    using read_vlr_step_written [OF bss(2) f1, of section_end i acc] Cons.prems(3-5) bss(1)
    by (simp add: rbind_def)
  also have "\<dots> = Ok ((acc @ stored_vlr i v) @ stored_vlrs (Suc i) vs,
      fcur f ((p + length bs) + length (concat bss')))"
    by (rule Cons.IH [OF bss(3) f2]) (use Cons.prems(3-5) bss(1) in auto)
  finally show ?case by (simp add: bss(1) add.assoc)
qed

lemma read_vlrs_written:
  assumes "map_res write_las_vlr vs = Ok bss" and "bslice f p (length (concat bss)) = concat bss"
    and "p + length (concat bss) \<le> section_end" "section_end \<le> length f" "length f < 2 ^ 64"
    and "length vs \<le> 4096"
  shows "read_vlrs (length vs) (length f) section_end (fcur f p) =
    Ok (stored_vlrs 0 vs, fcur f (p + length (concat bss)))"
  using read_vlr_loop_written [OF assms(1-5), of 0 "[]"] assms(4,6)
  by (simp add: read_vlrs_def rbind_def rguard_def MAX_VLR_COUNT_def)

section \<open>Reading back an EVLR header\<close>

lemma write_evlr_header_Ok:
  assumes "write_evlr_header u r n d = Ok hdr"
  shows "hdr = u16_to_le 0 @ pad u 16 @ u16_to_le r @ u64_to_le n @ pad d 32"
    and "trim_nul (pad u 16) = u" and "length hdr = 60"
proof -
  have v1: "validate_las_string ''EVLR user id'' u 16 = Ok ()"
    using assms by (auto simp: write_evlr_header_def bind_res_Ok_iff)
  show "hdr = u16_to_le 0 @ pad u 16 @ u16_to_le r @ u64_to_le n @ pad d 32"
    using assms by (auto simp: write_evlr_header_def bind_res_Ok_iff)
  then show "length hdr = 60" by simp
  show "trim_nul (pad u 16) = u" by (rule trim_nul_pad [OF v1])
qed

lemma read_evlr_step_written:
  assumes w: "write_evlr_header u r n d = Ok hdr" and f: "bslice f p 60 = hdr"
    and le: "p + 60 + unat n \<le> length f" "length f < 2 ^ 64"
  shows "read_evlr_step (length f) i es (fcur f p) =
    Ok (es @ [\<lparr>ev_user_id = pad u 16, ev_record_id = r, ev_data_offset = p + 60, ev_data_len = unat n\<rparr>],
        fcur f (p + 60 + unat n))"
proof -
  note hdr = write_evlr_header_Ok [OF w]
  have f': "bslice f p (length hdr) = hdr" using f hdr(3) by simp
  have sl: "bslice f p 2 = u16_to_le 0" "bslice f (p + 2) 16 = pad u 16"
    "bslice f (p + 18) 2 = u16_to_le r" "bslice f (p + 20) 8 = u64_to_le n"
    using bslice_sub [OF f', of 0 2 p] bslice_sub [OF f', of 2 16 "p + 2"]
      bslice_sub [OF f', of 18 2 "p + 18"] bslice_sub [OF f', of 20 8 "p + 20"] hdr(3)
    by (simp_all add: hdr(1)) (simp_all add: bslice_def)
  have r1: "validate_range_in_file p EVLR_HEADER_BYTES (length f) l = Ok (p + 60)" for l
    using le by (simp add: validate_range_in_file_Ok_iff EVLR_HEADER_BYTES_def)
  have r2: "validate_range_in_file (p + 60) (unat n) (length f) l = Ok (p + 60 + unat n)" for l
    using le by (simp add: validate_range_in_file_Ok_iff)
  show ?thesis
    unfolding read_evlr_step_def
    using le
    by (simp add: fcur_steps r1 rbind_done_check sl r2 Let_def add.assoc rret_def
        del: add_2_eq_Suc add_2_eq_Suc')
qed

text \<open>The first EVLR decides nothing about the others: what the loop adds comes after it.\<close>

lemma rfor_split:
  "rfor i (Suc n) body st s = bind_res (body i st s) (\<lambda>(st', t). rfor (Suc i) n body st' t)"
  by (simp add: rbind_def)

lemma read_evlr_loop_written:
  assumes "list_all2 (\<lambda>v bs. write_las_evlr v = Ok bs) vs bss"
    and "bslice f p (length (concat bss)) = concat bss"
    and "p + length (concat bss) \<le> length f" "length f < 2 ^ 64"
  shows "\<exists>es. rfor i (length vs) (read_evlr_step (length f)) acc (fcur f p) =
    Ok (acc @ es, fcur f (p + length (concat bss)))"
  using assms
proof (induction vs bss arbitrary: i acc p rule: list_all2_induct)
  case Nil
  then show ?case by (auto simp: rret_def)
next
  case (Cons v vs bs bss)
  from Cons.hyps(1) obtain n hdr where n: "length (lv_data v) < 2 ^ 64" "n = of_nat (length (lv_data v))"
    and hdr: "write_evlr_header (lv_user_id v) (lv_record_id v) n (lv_description v) = Ok hdr"
    and bs: "bs = hdr @ lv_data v"
    by (auto simp: write_las_evlr_def bind_res_Ok_iff u64_try_from_usize_def split: if_splits)
  have l60: "length hdr = 60" by (rule write_evlr_header_Ok(3) [OF hdr])
  have un: "unat n = length (lv_data v)" using n by (simp add: unat_of_nat_small)
  have f1: "bslice f p 60 = hdr"
    using bslice_sub [OF Cons.prems(1), of 0 60 p] l60 bs by (simp add: bslice_def)
  have f2: "bslice f (p + length bs) (length (concat bss)) = concat bss"
    using bslice_sub [OF Cons.prems(1), of "length bs" "length (concat bss)" "p + length bs"]
    by (simp add: bslice_def)
  have step: "read_evlr_step (length f) i acc (fcur f p) = Ok
      (acc @ [\<lparr>ev_user_id = pad (lv_user_id v) 16, ev_record_id = lv_record_id v,
        ev_data_offset = p + 60, ev_data_len = unat n\<rparr>], fcur f (p + length bs))" (is "_ = Ok (acc @ [?e], _)")
    using read_evlr_step_written [OF hdr f1] Cons.prems(2,3) un l60 bs by (simp add: add.assoc)
  obtain es where "rfor (Suc i) (length vs) (read_evlr_step (length f)) (acc @ [?e]) (fcur f (p + length bs)) =
      Ok ((acc @ [?e]) @ es, fcur f (p + length bs + length (concat bss)))"
    using Cons.IH [OF f2, of "Suc i" "acc @ [?e]"] Cons.prems(2,3) by auto
  then have "rfor i (length (v # vs)) (read_evlr_step (length f)) acc (fcur f p) =
      Ok (acc @ ?e # es, fcur f (p + length (concat (bs # bss))))"
    using step by (simp add: rbind_def add.assoc)
  then show ?case by blast
qed

section \<open>Reading back the header\<close>

text \<open>What the reader's header says of a header that was written.\<close>

definition las_header_of_out :: "out_header \<Rightarrow> las_header" where
  "las_header_of_out h =
     \<lparr>lh_point_data_record_format = oh_point_data_format h,
      lh_point_data_record_length = oh_point_record_length h,
      lh_offset_to_point_data = oh_offset_to_point_data h,
      lh_number_of_vlrs = oh_number_of_vlrs h,
      lh_scale = oh_scale h, lh_offset = oh_offset h,
      lh_min = b_min (oh_bounds h), lh_max = b_max (oh_bounds h),
      lh_offset_to_first_evlr = oh_offset_to_first_evlr h,
      lh_number_of_evlrs = oh_number_of_evlrs h,
      lh_number_of_points = oh_total_point_count h\<rparr>"

lemma header_at_written:
  assumes w: "out_header_write h = Ok bs" and guid: "length (oh_guid h) = 16"
    and counts: "length (oh_extended_return_counts h) = 15"
  shows "header_at (bs @ rest) = las_header_of_out h"
    and "bslice (bs @ rest) 0 4 = lit ''LASF''" "(bs @ rest) ! 24 = 1" "(bs @ rest) ! 25 = 4"
    and "bslice (bs @ rest) 94 2 = u16_to_le 375"
    and "bslice (bs @ rest) 6 2 = u16_to_le (oh_global_encoding h)"
proof -
  obtain sx sy sz ox oy oz x0 y0 z0 x1 y1 z1
    where fs: "oh_scale h = (sx, sy, sz)" "oh_offset h = (ox, oy, oz)"
      "b_min (oh_bounds h) = (x0, y0, z0)" "b_max (oh_bounds h) = (x1, y1, z1)"
    by (metis prod_cases3)
  define tail where "tail = concat (map u64_to_le (oh_extended_return_counts h)) @ rest"
  define five where "five = concat (map (\<lambda>_. u32_to_le 0) [0..<5])"
  have five: "length five = 20" by (simp add: five_def upt_rec)
  have bs: "bs @ rest = lit ''LASF'' @ u16_to_le (oh_file_source_id h) @ u16_to_le (oh_global_encoding h) @
           oh_guid h @ [1] @ [4] @
           pad (oh_system_identifier h) 32 @ pad (oh_generating_software h) 32 @
           u16_to_le (oh_creation_day_of_year h) @ u16_to_le (oh_creation_year h) @ u16_to_le 375 @
           u32_to_le (oh_offset_to_point_data h) @ u32_to_le (oh_number_of_vlrs h) @
           [oh_point_data_format h] @ u16_to_le (oh_point_record_length h) @
           u32_to_le (oh_legacy_point_count h) @ five @
           u64_to_le sx @ u64_to_le sy @ u64_to_le sz @ u64_to_le ox @ u64_to_le oy @ u64_to_le oz @
           u64_to_le x1 @ u64_to_le x0 @ u64_to_le y1 @ u64_to_le y0 @ u64_to_le z1 @ u64_to_le z0 @
           u64_to_le 0 @ u64_to_le (oh_offset_to_first_evlr h) @ u32_to_le (oh_number_of_evlrs h) @
           u64_to_le (oh_total_point_count h) @ tail"
    using w by (auto simp: out_header_write_def bind_res_Ok_iff fs tail_def five_def split: if_splits)
  show "header_at (bs @ rest) = las_header_of_out h"
    unfolding bs header_at_def las_header_of_out_def
    by (simp add: Let_def fs bslice_def guid five nth_append)
  show "bslice (bs @ rest) 0 4 = lit ''LASF''" "(bs @ rest) ! 24 = 1" "(bs @ rest) ! 25 = 4"
    "bslice (bs @ rest) 94 2 = u16_to_le 375"
    "bslice (bs @ rest) 6 2 = u16_to_le (oh_global_encoding h)"
    unfolding bs by (simp_all add: bslice_def guid five nth_append)
qed

text \<open>The fields with which a written header is acceptable to the reader in a file of a given length.\<close>

definition out_header_readable :: "out_header \<Rightarrow> nat \<Rightarrow> bool" where
  "out_header_readable h file_len \<longleftrightarrow>
     length (oh_guid h) = 16 \<and> length (oh_extended_return_counts h) = 15 \<and>
     oh_global_encoding h AND NOT 0x1F = 0 \<and> oh_global_encoding h AND 0x10 \<noteq> 0 \<and>
     375 \<le> unat (oh_offset_to_point_data h) \<and> unat (oh_offset_to_point_data h) \<le> file_len \<and>
     unat (oh_number_of_vlrs h) \<le> 4096 \<and> unat (oh_number_of_evlrs h) \<le> 4096 \<and>
     oh_point_data_format h AND 0xC0 \<noteq> 0 \<and> oh_point_data_format h AND 0x3F \<in> {6, 7, 8} \<and>
     (oh_offset_to_first_evlr h = 0 \<or> unat (oh_offset_to_first_evlr h) \<le> file_len) \<and>
     validate_header_numbers (oh_scale h) (oh_offset h) (b_min (oh_bounds h)) (b_max (oh_bounds h)) = Ok ()"

lemma header_accepted_written:
  assumes w: "out_header_write h = Ok bs" and r: "out_header_readable h (length (bs @ rest))"
  shows "header_accepted (bs @ rest)"
proof -
  have l: "length (oh_guid h) = 16" "length (oh_extended_return_counts h) = 15"
    using r by (simp_all add: out_header_readable_def)
  have u: "unat (375 :: u16) = 375" by simp
  show ?thesis
    using r header_at_written [OF w l, of rest] out_header_write_length [OF w l] u
    by (simp add: header_accepted_def Let_def out_header_readable_def las_header_of_out_def)
qed

section \<open>Properties\<close>

text \<open>C8: a header written by the writer is read back by the reader field by field, whatever
  follows it in the file.\<close>
theorem header_round_trip:
  assumes "out_header_write h = Ok bs" and "out_header_readable h (length (bs @ rest))"
  shows "read_las_header (length (bs @ rest)) (fcur (bs @ rest) p) =
    Ok (las_header_of_out h, fcur (bs @ rest) 375)"
  unfolding read_las_header_Ok_iff
  using header_accepted_written [OF assms] header_at_written(1) [OF assms(1), of rest] assms(2)
  by (simp add: out_header_readable_def)

definition sample_header :: out_header where
  "sample_header =
     \<lparr>oh_point_data_format = 0x87, oh_point_record_length = 36, oh_offset_to_point_data = 375,
      oh_number_of_vlrs = 2, oh_file_source_id = 0, oh_global_encoding = 0x10,
      oh_guid = replicate 16 0, oh_system_identifier = lit ''sys'', oh_generating_software = lit ''gen'',
      oh_creation_day_of_year = 1, oh_creation_year = 2024,
      oh_scale = (f64_one, f64_one, f64_one), oh_offset = (0, 0, 0),
      oh_bounds = \<lparr>b_min = (0, 0, 0), b_max = (f64_one, f64_one, f64_one)\<rparr>,
      oh_legacy_point_count = 0, oh_total_point_count = 7, oh_offset_to_first_evlr = 0,
      oh_number_of_evlrs = 1, oh_extended_return_counts = replicate 15 0\<rparr>"

theorem header_round_trip_witness:
  "\<exists>bs. out_header_write sample_header = Ok bs \<and>
    read_las_header (length bs) (fcur bs 0) = Ok (las_header_of_out sample_header, fcur bs 375)"
proof -
  obtain bs where bs: "out_header_write sample_header = Ok bs"
    by (simp add: out_header_write_def sample_header_def lit_def validate_las_string_def)
  have len: "length bs = 375"
    by (rule out_header_write_length [OF bs]) (simp_all add: sample_header_def)
  have "out_header_readable sample_header (length (bs @ []))"
    unfolding append_Nil2 len
    by (simp add: out_header_readable_def sample_header_def validate_header_numbers_def
      fl_le_def fl_lt_def fl_is_nan_def fl_ord_def fl_is_finite_def
      fl_mag_def fl_sign_def sign_weight_def inf_mag_def binary64_def ensure_def)
  from header_round_trip [OF bs this] bs show ?thesis by auto
qed

text \<open>C23: the VLR section: VLRs written one after the other are read back in order; the reader
  keeps the \<^verbatim>\<open>copc\<close>/1 and \<^verbatim>\<open>laszip encoded\<close>/22204 records, each with its position among all VLRs and its
  exact payload, skips the others, and ends exactly behind the last one.\<close>
theorem vlr_round_trip:
  assumes "map_res write_las_vlr vs = Ok bss" and "bslice f p (length (concat bss)) = concat bss"
    and "p + length (concat bss) \<le> section_end" "section_end \<le> length f" "length f < 2 ^ 64"
    and "length vs \<le> 4096"
  shows "read_vlrs (length vs) (length f) section_end (fcur f p) =
    Ok (map (\<lambda>(i, v). \<lparr>vlr_index = i, vlr_user_id = lv_user_id v, vlr_record_id = lv_record_id v, vlr_data = lv_data v\<rparr>)
          (filter (\<lambda>(_, v). (lv_user_id v, lv_record_id v) \<in> {(lit ''copc'', 1), (lit ''laszip encoded'', 22204)}) (enumerate 0 vs)),
        fcur f (p + length (concat bss)))"
  using read_vlrs_written [OF assms] by (simp add: stored_vlrs_eq)

text \<open>A VLR that is skipped, then one that is kept.\<close>

definition sample_vlrs :: "las_vlr list" where
  "sample_vlrs =
    [\<lparr>lv_user_id = lit ''survey'', lv_record_id = 7, lv_description = [], lv_data = [9]\<rparr>,
     \<lparr>lv_user_id = lit ''copc'', lv_record_id = 1, lv_description = lit ''info'', lv_data = [1, 2, 3]\<rparr>]"

theorem vlr_round_trip_witness:
  "\<exists>bss. map_res write_las_vlr sample_vlrs = Ok bss \<and>
    read_vlrs 2 (length (concat bss)) (length (concat bss)) (fcur (concat bss) 0) =
      Ok ([\<lparr>vlr_index = 1, vlr_user_id = lit ''copc'', vlr_record_id = 1, vlr_data = [1, 2, 3]\<rparr>], fcur (concat bss) 112)"
proof -
  obtain bss where bss: "map_res write_las_vlr sample_vlrs = Ok bss" "length (concat bss) = 112"
    by (simp add: write_las_vlr_def write_vlr_header_def sample_vlrs_def lit_def u16_try_from_usize_def validate_las_string_def)
  have "bslice (concat bss) 0 112 = concat bss" "length sample_vlrs = 2"
    "filter (\<lambda>(_, v). (lv_user_id v, lv_record_id v) \<in> {(lit ''copc'', 1), (lit ''laszip encoded'', 22204)}) (enumerate 0 sample_vlrs) =
      [(1, \<lparr>lv_user_id = lit ''copc'', lv_record_id = 1, lv_description = lit ''info'', lv_data = [1, 2, 3]\<rparr>)]"
    using bss(2) by (simp_all add: bslice_all sample_vlrs_def lit_def)
  then show ?thesis
    using vlr_round_trip [of sample_vlrs bss "concat bss" 0 112] bss by simp
qed

end
