(* ===== verification/Key_Tree.thy ===== *)
theory Key_Tree
  imports Hierarchy
begin

text \<open>
  The octree order on voxel keys: which keys lie under which, stated on the integer values of the
  fields. It is the abstract counterpart of \<^verbatim>\<open>key_contains\<close> of the page planner and of the
  subtrees of the octree builder.
\<close>

definition under :: "voxel_key \<Rightarrow> voxel_key \<Rightarrow> bool" where
  "under a k \<longleftrightarrow>
     sint (vk_level a) \<le> sint (vk_level k) \<and>
     (let d = 2 ^ nat (sint (vk_level k) - sint (vk_level a)) in
      sint (vk_x k) div d = sint (vk_x a) \<and> sint (vk_y k) div d = sint (vk_y a) \<and>
      sint (vk_z k) div d = sint (vk_z a))"

lemma under_refl [simp]: "under k k"
  by (simp add: under_def)

lemma div_pow_split:
  fixes x :: int
  assumes "0 \<le> m" "m \<le> n"
  shows "x div 2 ^ nat n = x div 2 ^ nat (n - m) div 2 ^ nat m"
proof -
  have "nat n = nat (n - m) + nat m" using assms by (simp add: nat_add_distrib [symmetric])
  then show ?thesis by (simp add: power_add zdiv_zmult2_eq)
qed

lemma under_trans:
  assumes "under a b" "under b c"
  shows "under a c"
proof -
  let ?l = "\<lambda>k. sint (vk_level k)"
  have l: "?l a \<le> ?l b" "?l b \<le> ?l c" using assms by (auto simp: under_def)
  have "v div 2 ^ nat (?l c - ?l a) = v div 2 ^ nat (?l c - ?l b) div 2 ^ nat (?l b - ?l a)" for v :: int
    using div_pow_split [of "?l b - ?l a" "?l c - ?l a" v] l by (simp add: algebra_simps)
  then show ?thesis using assms l by (simp add: under_def Let_def)
qed

lemma under_level: "under a k \<Longrightarrow> sint (vk_level a) \<le> sint (vk_level k)"
  by (simp add: under_def)

lemma under_same_level:
  assumes "under a k" "sint (vk_level a) = sint (vk_level k)"
  shows "a = k"
  using assms by (cases a; cases k) (auto simp: under_def intro: sint_eqI)

text \<open>Two keys of one level have no common descendant.\<close>

lemma under_unique:
  assumes "under a k" "under b k" "sint (vk_level a) = sint (vk_level b)"
  shows "a = b"
  using assms by (cases a; cases b) (auto simp: under_def Let_def intro: sint_eqI)

lemma under_childI:
  assumes "vk_child k c = Ok ck"
  shows "under k ck"
proof -
  have "(2 * v + octant_bit c i) div 2 = v" for v i
    using octant_bit_range [of c i] by auto
  then show ?thesis using assms unfolding vk_child_Ok_iff by (simp add: under_def)
qed

lemma child_not_above: "vk_child k c = Ok ck \<Longrightarrow> \<not> under ck k"
  using under_level [of ck k] by (auto simp: vk_child_Ok_iff)

lemma vk_child_fields:
  assumes "vk_child k c = Ok ck"
  shows "c \<le> 7" "sint (vk_level ck) = sint (vk_level k) + 1"
    "sint (vk_x ck) = 2 * sint (vk_x k) + octant_bit c 0"
    "sint (vk_y ck) = 2 * sint (vk_y k) + octant_bit c 1"
    "sint (vk_z ck) = 2 * sint (vk_z k) + octant_bit c 2"
  using assms unfolding vk_child_Ok_iff by blast+

lemma bits3:
  fixes n :: nat
  assumes "n < 8"
  shows "n = n mod 2 + 2 * (n div 2 mod 2) + 4 * (n div 4 mod 2)"
proof -
  have "n \<in> {0, 1, 2, 3, 4, 5, 6, 7}" using assms by auto
  then show ?thesis by auto
qed

lemma bits3_of_sum:
  fixes x y z :: nat
  assumes "x < 2" "y < 2" "z < 2"
  shows "(x + 2 * y + 4 * z) mod 2 = x" "(x + 2 * y + 4 * z) div 2 mod 2 = y"
    "(x + 2 * y + 4 * z) div 4 mod 2 = z"
proof -
  have "x = 0 \<or> x = 1" "y = 0 \<or> y = 1" "z = 0 \<or> z = 1" using assms by auto
  then show "(x + 2 * y + 4 * z) mod 2 = x" "(x + 2 * y + 4 * z) div 2 mod 2 = y"
    "(x + 2 * y + 4 * z) div 4 mod 2 = z" by auto
qed

lemma child_inj:
  assumes "vk_child k c = Ok ck" "vk_child k d = Ok ck"
  shows "c = d"
proof -
  have b: "octant_bit c 0 = octant_bit d 0" "octant_bit c 1 = octant_bit d 1"
    "octant_bit c 2 = octant_bit d 2"
    using vk_child_fields(3-5) [OF assms(1)] vk_child_fields(3-5) [OF assms(2)] by simp_all
  have c: "c \<le> 7" "d \<le> 7" using vk_child_fields(1) [OF assms(1)] vk_child_fields(1) [OF assms(2)] .
  have n: "unat c < 8" "unat d < 8" using c by (simp_all add: word_le_nat_alt)
  have "unat c div 2 ^ i mod 2 = unat d div 2 ^ i mod 2" if "octant_bit c i = octant_bit d i" for i
    using that unfolding octant_bit_eq of_nat_eq_iff .
  from this [OF b(1)] this [OF b(2)] this [OF b(3)]
  have "unat c mod 2 = unat d mod 2" "unat c div 2 mod 2 = unat d div 2 mod 2"
    "unat c div 4 mod 2 = unat d div 4 mod 2" by simp_all
  then have "unat c = unat d" using bits3 [OF n(1)] bits3 [OF n(2)] by metis
  then show ?thesis by (simp add: word_unat_eq_iff)
qed

text \<open>The octant that leads from a key towards a key strictly below it.\<close>

definition octant_towards :: "voxel_key \<Rightarrow> voxel_key \<Rightarrow> nat" where
  "octant_towards a k =
     (let d = 2 ^ nat (sint (vk_level k) - sint (vk_level a) - 1) in
      nat (sint (vk_x k) div d mod 2) + 2 * nat (sint (vk_y k) div d mod 2) +
      4 * nat (sint (vk_z k) div d mod 2))"

lemma octant_towards_lt: "octant_towards a k < 8"
proof -
  have "nat (v mod 2) \<le> 1" for v :: int by simp
  from this [of "sint (vk_x k) div 2 ^ nat (sint (vk_level k) - sint (vk_level a) - 1)"]
    this [of "sint (vk_y k) div 2 ^ nat (sint (vk_level k) - sint (vk_level a) - 1)"]
    this [of "sint (vk_z k) div 2 ^ nat (sint (vk_level k) - sint (vk_level a) - 1)"]
  show ?thesis unfolding octant_towards_def Let_def by linarith
qed

lemma octant_bits_of_sum:
  assumes "x < 2" "y < 2" "z < 2"
  shows "octant_bit (of_nat (x + 2 * y + 4 * z)) 0 = int x"
    "octant_bit (of_nat (x + 2 * y + 4 * z)) 1 = int y"
    "octant_bit (of_nat (x + 2 * y + 4 * z)) 2 = int z"
proof -
  have u: "unat (of_nat (x + 2 * y + 4 * z) :: u8) = x + 2 * y + 4 * z"
    using assms by (intro unat_of_nat_small) simp
  show "octant_bit (of_nat (x + 2 * y + 4 * z)) 0 = int x"
    "octant_bit (of_nat (x + 2 * y + 4 * z)) 1 = int y"
    "octant_bit (of_nat (x + 2 * y + 4 * z)) 2 = int z"
    unfolding octant_bit_eq u of_nat_eq_iff using bits3_of_sum [OF assms] by simp_all
qed

lemma under_octant_towards:
  assumes a: "vk_validate a = Ok ()" and k: "under a k" "k \<noteq> a" and level: "sint (vk_level k) \<le> 30"
    and ck: "vk_child a (of_nat (octant_towards a k)) = Ok ck"
  shows "under ck k"
proof -
  let ?l = "\<lambda>k. sint (vk_level k)"
  define d where "d = (2::int) ^ nat (?l k - ?l a - 1)"
  have lt: "?l a < ?l k" using k under_same_level [OF k(1)] under_level [OF k(1)] by fastforce
  have dd: "(2::int) ^ nat (?l k - ?l a) = d * 2"
  proof -
    have "nat (?l k - ?l a) = Suc (nat (?l k - ?l a - 1))" using lt by simp
    then show ?thesis by (simp add: d_def)
  qed
  have up: "v div d = 2 * (v div 2 ^ nat (?l k - ?l a)) + v div d mod 2" for v
    unfolding dd by (simp add: zdiv_zmult2_eq d_def)
  have m: "nat (v div d mod 2) < 2" "int (nat (v div d mod 2)) = v div d mod 2" for v :: int
    by (simp_all add: nat_less_iff)
  note bits = octant_bits_of_sum [OF m(1) m(1) m(1), of "sint (vk_x k)" "sint (vk_y k)" "sint (vk_z k)"]
  define oct where "oct = octant_towards a k"
  have oct: "oct = nat (sint (vk_x k) div d mod 2) + 2 * nat (sint (vk_y k) div d mod 2) +
      4 * nat (sint (vk_z k) div d mod 2)"
    unfolding oct_def octant_towards_def Let_def d_def ..
  have ax: "sint (vk_x ck) = 2 * sint (vk_x a) + sint (vk_x k) div d mod 2"
    "sint (vk_y ck) = 2 * sint (vk_y a) + sint (vk_y k) div d mod 2"
    "sint (vk_z ck) = 2 * sint (vk_z a) + sint (vk_z k) div d mod 2"
    using vk_child_fields(3-5) [OF ck] bits unfolding oct_def [symmetric] oct m(2) by metis+
  have "sint (vk_x k) div 2 ^ nat (?l k - ?l a) = sint (vk_x a)"
    "sint (vk_y k) div 2 ^ nat (?l k - ?l a) = sint (vk_y a)"
    "sint (vk_z k) div 2 ^ nat (?l k - ?l a) = sint (vk_z a)"
    using k(1) by (simp_all add: under_def Let_def)
  then have "sint (vk_x ck) = sint (vk_x k) div d" "sint (vk_y ck) = sint (vk_y k) div d"
    "sint (vk_z ck) = sint (vk_z k) div d"
    using ax up [of "sint (vk_x k)"] up [of "sint (vk_y k)"] up [of "sint (vk_z k)"] by metis+
  moreover have "?l ck = ?l a + 1" using ck by (simp add: vk_child_Ok_iff)
  ultimately show ?thesis using lt by (simp add: under_def Let_def d_def algebra_simps)
qed

text \<open>Two keys above a common key are comparable.\<close>

lemma under_comparable:
  assumes "under a k" "under b k" "sint (vk_level a) \<le> sint (vk_level b)"
  shows "under a b"
proof -
  let ?l = "\<lambda>k. sint (vk_level k)"
  have l: "?l a \<le> ?l b" "?l b \<le> ?l k" using assms by (auto simp: under_def)
  have "v div 2 ^ nat (?l k - ?l a) = v div 2 ^ nat (?l k - ?l b) div 2 ^ nat (?l b - ?l a)" for v :: int
    using div_pow_split [of "?l b - ?l a" "?l k - ?l a" v] l by (simp add: algebra_simps)
  then show ?thesis using assms l by (simp add: under_def Let_def)
qed

lemma not_both_under:
  "\<not> under a b \<Longrightarrow> \<not> under b a \<Longrightarrow> under a k \<Longrightarrow> \<not> under b k"
  using under_comparable by (meson linear)

text \<open>Every valid key lies under the root.\<close>

lemma under_root:
  assumes "vk_validate k = Ok ()" "sint (vk_level k) < 31"
  shows "under vk_root k"
  using assms by (simp add: under_def vk_root_def vk_validate_Ok_iff Let_def)

end
