(* ===== verification/Pages.thy ===== *)
theory Pages
  imports Hierarchy_Walk Las_Out Key_Tree
begin

text \<open>
  \<^verbatim>\<open>copc-writer/src/hierarchy_pages.rs\<close>: splitting the hierarchy into pages of at most 4096
  entries, assigning their file offsets and writing them. The lemmas lead to the refinement that
  the reader's walk over the written pages recovers exactly the entries that were planned.
\<close>

definition HIERARCHY_PAGE_MAX_ENTRIES :: nat where
  "HIERARCHY_PAGE_MAX_ENTRIES = 4096"

datatype page_plan =
    PagePlan (pp_key: voxel_key) (pp_items: "page_item list") (pp_offset: nat) (pp_byte_size: nat)
and page_item =
    PointItem entry
  | ChildItem page_plan

text \<open>
  The shift \<^verbatim>\<open>key.x >> shift\<close> is arithmetic; its amount \<^verbatim>\<open>(key.level - ancestor.level) as u32\<close> wraps
  and is masked to 5 bits (release semantics; for octree levels neither happens).
\<close>

definition i32_shr :: "i32 \<Rightarrow> u32 \<Rightarrow> i32" where
  "i32_shr v n = word_of_int (sint v div 2 ^ (unat n mod 32))"

definition key_contains :: "voxel_key \<Rightarrow> voxel_key \<Rightarrow> bool" where
  "key_contains ancestor key =
     (if sint (vk_level key) < sint (vk_level ancestor) then False
      else
        let shift = vk_level key - vk_level ancestor
        in i32_shr (vk_x key) shift = vk_x ancestor \<and> i32_shr (vk_y key) shift = vk_y ancestor \<and>
           i32_shr (vk_z key) shift = vk_z ancestor)"

text \<open>The loop over the octants that finds the child page of an entry.\<close>

fun place_child ::
  "voxel_key \<Rightarrow> entry \<Rightarrow> nat list \<Rightarrow> entry list list \<Rightarrow> entry list list option result" where
  "place_child key e [] child_entries = Ok None"
| "place_child key e (octant # octants) child_entries =
     bind_res (vk_child key (of_nat octant)) (\<lambda>child_key.
     if key_contains child_key (e_key e)
     then Ok (Some (child_entries[octant := child_entries ! octant @ [e]]))
     else place_child key e octants child_entries)"

definition split_entry ::
  "voxel_key \<Rightarrow> entry \<Rightarrow> entry option \<times> entry list list \<Rightarrow> (entry option \<times> entry list list) result" where
  "split_entry key e st =
     (case st of (point_entry, child_entries) \<Rightarrow>
        if e_key e = key then Ok (Some e, child_entries)
        else
          bind_res (place_child key e [0..<8] child_entries) (\<lambda>placed.
          case placed of
            Some child_entries \<Rightarrow> Ok (point_entry, child_entries)
          | None \<Rightarrow> Err (InvalidInput ''hierarchy entry {} is not under page key {}'')))"

lemma vk_child_level: "vk_child k c = Ok ck \<Longrightarrow> sint (vk_level ck) = sint (vk_level k) + 1 \<and>
    sint (vk_level k) + 1 < 2 ^ 31"
  by (simp add: vk_child_Ok_iff)

text \<open>
  A large set of entries is split by octant and each part planned as a child page. The recursion
  ends because the level of the page key grows.
\<close>

function plan_hierarchy_pages :: "entry list \<Rightarrow> voxel_key \<Rightarrow> page_plan result" where
  "plan_hierarchy_pages entries key =
     (if entries = [] then Err (InvalidInput ''cannot write empty hierarchy page'')
      else if length entries \<le> HIERARCHY_PAGE_MAX_ENTRIES
      then Ok (PagePlan key (map PointItem entries) 0 0)
      else
        bind_res (fold_res (split_entry key) entries (None, replicate 8 [])) (\<lambda>st.
        bind_res (map_res (\<lambda>octant.
            if snd st ! octant = [] then Ok []
            else
              bind_res (vk_child key (of_nat octant)) (\<lambda>child_key.
              bind_res (plan_hierarchy_pages (snd st ! octant) child_key) (\<lambda>child.
              Ok [ChildItem child]))) [0..<8]) (\<lambda>children.
        let items = (case fst st of Some e \<Rightarrow> [PointItem e] | None \<Rightarrow> []) @ concat children
        in if HIERARCHY_PAGE_MAX_ENTRIES < length items
           then Err (InvalidInput ''hierarchy page for {} has {} entries, max is {}'')
           else Ok (PagePlan key items 0 0))))"
  by pat_completeness auto
termination
proof (relation "measure (\<lambda>(_, key). nat (2 ^ 31 - sint (vk_level key)))", goal_cases)
  case 1
  show ?case by simp
next
  case (2 entries key st octant child_key)
  from vk_child_level [OF 2(6)] show ?case by simp
qed

declare plan_hierarchy_pages.simps [simp del]

definition hierarchy_page_byte_size :: "nat \<Rightarrow> nat result" where
  "hierarchy_page_byte_size entry_count =
     bind_res (ok_or (checked_mul_usize entry_count HIERARCHY_ENTRY_BYTES)
       (InvalidInput ''hierarchy page size overflow'')) (\<lambda>bytes.
     ok_or (if bytes < 2 ^ 64 then Some bytes else None) (InvalidInput ''hierarchy page is too large''))"

fun assign_hierarchy_page_offsets :: "page_plan \<Rightarrow> nat \<Rightarrow> (page_plan \<times> nat) result"
and assign_child_offsets :: "page_item list \<Rightarrow> nat \<Rightarrow> (page_item list \<times> nat) result" where
  "assign_hierarchy_page_offsets (PagePlan key items _ _) off =
     bind_res (hierarchy_page_byte_size (length items)) (\<lambda>byte_size.
     bind_res (ok_or (if off + byte_size < 2 ^ 64 then Some (off + byte_size) else None)
       (InvalidInput ''hierarchy page offset overflow'')) (\<lambda>next_off.
     bind_res (assign_child_offsets items next_off) (\<lambda>(items, next_off).
     Ok (PagePlan key items off byte_size, next_off))))"
| "assign_child_offsets [] next_off = Ok ([], next_off)"
| "assign_child_offsets (PointItem e # items) next_off =
     bind_res (assign_child_offsets items next_off) (\<lambda>(items, next_off).
     Ok (PointItem e # items, next_off))"
| "assign_child_offsets (ChildItem child # items) next_off =
     bind_res (assign_hierarchy_page_offsets child next_off) (\<lambda>(child, next_off).
     bind_res (assign_child_offsets items next_off) (\<lambda>(items, next_off).
     Ok (ChildItem child # items, next_off)))"

definition hierarchy_page_item_entry :: "page_item \<Rightarrow> entry result" where
  "hierarchy_page_item_entry item =
     (case item of
        PointItem e \<Rightarrow> Ok e
      | ChildItem child \<Rightarrow>
          bind_res (ok_or (if pp_byte_size child < 2 ^ 31 then Some (of_nat (pp_byte_size child)) else None)
            (InvalidInput ''child hierarchy page exceeds COPC i32 byte size'')) (\<lambda>byte_size.
          Ok \<lparr>e_key = pp_key child, e_offset = of_nat (pp_offset child),
              e_byte_size = byte_size, e_point_count = - 1\<rparr>))"

text \<open>The writer is the bytes written so far, its position their number.\<close>

definition write_page_entries :: "page_item list \<Rightarrow> u8 list \<Rightarrow> u8 list result" where
  "write_page_entries items out =
     fold_res (\<lambda>item out.
       bind_res (hierarchy_page_item_entry item) (\<lambda>e.
       bind_res (entry_write_le e (replicate HIERARCHY_ENTRY_BYTES 0)) (\<lambda>entry_buf.
       Ok (out @ entry_buf)))) items out"

fun write_hierarchy_page_tree :: "page_plan \<Rightarrow> u8 list \<Rightarrow> u8 list result"
and write_child_pages :: "page_item list \<Rightarrow> u8 list \<Rightarrow> u8 list result" where
  "write_hierarchy_page_tree (PagePlan key items off byte_size) out =
     (if length out \<noteq> off
      then Err (InvalidInput ''hierarchy page offset mismatch: at {}, expected {}'')
      else bind_res (write_page_entries items out) (write_child_pages items))"
| "write_child_pages [] out = Ok out"
| "write_child_pages (PointItem e # items) out = write_child_pages items out"
| "write_child_pages (ChildItem child # items) out =
     bind_res (write_hierarchy_page_tree child out) (write_child_pages items)"

section \<open>Containment of keys\<close>

lemma i32_shr_eq_iff:
  assumes "0 \<le> sint v" "unat n < 32"
  shows "i32_shr v n = w \<longleftrightarrow> sint v div 2 ^ unat n = sint w"
proof -
  have "0 \<le> sint v div 2 ^ unat n" using assms(1) by (simp add: pos_imp_zdiv_nonneg_iff)
  moreover have "sint v div 2 ^ unat n \<le> sint v" using zdiv_mono2 [OF assms(1), of 1 "2 ^ unat n"] by simp
  moreover have "sint v < 2 ^ 31" using sint_in_range_i32 by blast
  ultimately have "sint (word_of_int (sint v div 2 ^ unat n) :: i32) = sint v div 2 ^ unat n"
    by (intro sint_eq_take) auto
  then show ?thesis using assms(2) unfolding i32_shr_def by (metis mod_less sint_eqI)
qed

lemma key_contains_under:
  assumes a: "vk_validate a = Ok ()" and k: "vk_validate k = Ok ()" and level: "sint (vk_level k) \<le> 30"
  shows "key_contains a k \<longleftrightarrow> under a k"
proof (cases "sint (vk_level k) < sint (vk_level a)")
  case True
  then show ?thesis by (simp add: key_contains_def under_def)
next
  case False
  let ?d = "sint (vk_level k) - sint (vk_level a)"
  have nn: "0 \<le> sint (vk_level a)" "0 \<le> sint (vk_x k)" "0 \<le> sint (vk_y k)" "0 \<le> sint (vk_z k)"
    using a k by (simp_all add: vk_validate_Ok_iff)
  have d: "0 \<le> ?d" "?d \<le> 30" using False level nn(1) by auto
  have "vk_level k - vk_level a = of_nat (nat ?d)" using d(1) by (simp add: of_nat_nat)
  then have "unat (vk_level k - vk_level a) = nat ?d"
    using d unat_of_nat_small [of "nat ?d", where 'a = 32] by simp
  then show ?thesis
    using False d nn by (simp add: key_contains_def under_def Let_def i32_shr_eq_iff)
qed

section \<open>Splitting by octant\<close>

text \<open>The keys a page may hold: under the page's key, valid, at an octree level.\<close>

definition page_key_ok :: "voxel_key \<Rightarrow> voxel_key \<Rightarrow> bool" where
  "page_key_ok key k \<longleftrightarrow> under key k \<and> vk_validate k = Ok () \<and> sint (vk_level k) \<le> 30"

lemma strictly_under_level:
  "page_key_ok key k \<Longrightarrow> k \<noteq> key \<Longrightarrow> sint (vk_level key) < 30"
  using under_level [of key k] under_same_level [of key k] by (fastforce simp: page_key_ok_def)

lemma octant_of_nat_le: "n < 8 \<Longrightarrow> (of_nat n :: u8) \<le> 7"
  by (simp add: word_le_nat_alt unat_of_nat_small)

lemma octant_of_nat_inj:
  assumes "m < 8" "n < 8"
  shows "(of_nat m :: u8) = of_nat n \<longleftrightarrow> m = n"
proof -
  have "unat (of_nat m :: u8) = m" "unat (of_nat n :: u8) = n"
    using assms by (simp_all add: unat_of_nat)
  then show ?thesis by metis
qed

lemma page_child_exists:
  assumes "vk_validate key = Ok ()" "sint (vk_level key) < 30" "n < 8"
  obtains ck where "vk_child key (of_nat n) = Ok ck"
  using vk_child_exists [OF assms(1) octant_of_nat_le [OF assms(3)] assms(2)] by blast

lemma page_key_ok_child:
  assumes "vk_validate key = Ok ()" "page_key_ok key k" "k \<noteq> key" "vk_child key (of_nat n) = Ok ck" "n < 8"
  shows "key_contains ck k \<longleftrightarrow> n = octant_towards key k"
proof -
  have ckv: "vk_validate ck = Ok ()" by (rule vk_child_valid [OF assms(4)])
  have kc: "key_contains ck k \<longleftrightarrow> under ck k"
    using key_contains_under [OF ckv] assms(2) by (simp add: page_key_ok_def)
  obtain tk where tk: "vk_child key (of_nat (octant_towards key k)) = Ok tk"
    by (rule page_child_exists [OF assms(1) strictly_under_level [OF assms(2,3)] octant_towards_lt])
  have tu: "under tk k"
    using under_octant_towards [OF assms(1) _ assms(3) _ tk] assms(2) by (simp add: page_key_ok_def)
  have lv: "sint (vk_level ck) = sint (vk_level tk)"
    using vk_child_fields(2) [OF assms(4)] vk_child_fields(2) [OF tk] by simp
  show ?thesis
  proof
    assume "key_contains ck k"
    then have "ck = tk" using kc under_unique [OF _ tu lv] by blast
    then have "(of_nat n :: u8) = of_nat (octant_towards key k)"
      using child_inj assms(4) tk by blast
    then show "n = octant_towards key k"
      using octant_of_nat_inj [OF assms(5) octant_towards_lt] by blast
  next
    assume "n = octant_towards key k"
    then have "ck = tk" using assms(4) tk by simp
    then show "key_contains ck k" using tu kc by simp
  qed
qed

lemma place_child_eq:
  assumes "vk_validate key = Ok ()" "page_key_ok key (e_key e)" "e_key e \<noteq> key"
    and "octant_towards key (e_key e) \<in> set ns" "set ns \<subseteq> {..<8}"
  shows "place_child key e ns ces =
    (let n = octant_towards key (e_key e) in Ok (Some (ces[n := ces ! n @ [e]])))"
  using assms(4,5)
proof (induction ns)
  case Nil
  then show ?case by simp
next
  case (Cons m ns)
  have m: "m < 8" using Cons.prems by simp
  obtain ck where ck: "vk_child key (of_nat m) = Ok ck"
    by (rule page_child_exists [OF assms(1) strictly_under_level [OF assms(2,3)] m])
  have "key_contains ck (e_key e) \<longleftrightarrow> m = octant_towards key (e_key e)"
    by (rule page_key_ok_child [OF assms(1-3) ck m])
  then show ?case using Cons ck by (auto simp: Let_def)
qed

text \<open>What the split computes: the entry of the key itself, and the others by octant.\<close>

definition in_octant :: "voxel_key \<Rightarrow> nat \<Rightarrow> entry \<Rightarrow> bool" where
  "in_octant key n e \<longleftrightarrow> e_key e \<noteq> key \<and> octant_towards key (e_key e) = n"

lemma split_entries_eq:
  assumes "vk_validate key = Ok ()" "\<forall>e \<in> set es. page_key_ok key (e_key e)" "length ces = 8"
  shows "\<exists>pe'. fold_res (split_entry key) es (pe, ces) =
      Ok (pe', map (\<lambda>n. ces ! n @ filter (in_octant key n) es) [0..<8]) \<and>
      (if \<exists>e \<in> set es. e_key e = key then \<exists>e \<in> set es. e_key e = key \<and> pe' = Some e else pe' = pe)"
  using assms(2,3)
proof (induction es arbitrary: pe ces)
  case Nil
  then show ?case by (auto simp: list_eq_iff_nth_eq)
next
  case (Cons e es)
  show ?case
  proof (cases "e_key e = key")
    case True
    then have "split_entry key e (pe, ces) = Ok (Some e, ces)" by (simp add: split_entry_def)
    moreover obtain pe' where "fold_res (split_entry key) es (Some e, ces) =
        Ok (pe', map (\<lambda>n. ces ! n @ filter (in_octant key n) es) [0..<8])"
      "if \<exists>e \<in> set es. e_key e = key then \<exists>e \<in> set es. e_key e = key \<and> pe' = Some e else pe' = Some e"
      using Cons.IH [of ces "Some e"] Cons.prems by auto
    moreover have "\<not> in_octant key n e" for n using True by (simp add: in_octant_def)
    ultimately show ?thesis using True by (auto split: if_splits)
  next
    case False
    let ?n = "octant_towards key (e_key e)"
    let ?ces = "ces[?n := ces ! ?n @ [e]]"
    have "place_child key e [0..<8] ces = Ok (Some ?ces)"
      using place_child_eq [OF assms(1) _ False, of "[0..<8]" ces] Cons.prems octant_towards_lt
      by (simp add: Let_def atLeast0LessThan)
    then have s: "split_entry key e (pe, ces) = Ok (pe, ?ces)"
      using False by (simp add: split_entry_def)
    obtain pe' where IH: "fold_res (split_entry key) es (pe, ?ces) =
        Ok (pe', map (\<lambda>n. ?ces ! n @ filter (in_octant key n) es) [0..<8])"
      "if \<exists>e \<in> set es. e_key e = key then \<exists>e \<in> set es. e_key e = key \<and> pe' = Some e else pe' = pe"
      using Cons.IH [of ?ces pe] Cons.prems by auto
    have "?ces ! n @ filter (in_octant key n) es = ces ! n @ filter (in_octant key n) (e # es)"
      if "n < 8" for n
      using that False Cons.prems(2) by (cases "n = ?n") (auto simp: in_octant_def)
    then have "map (\<lambda>n. ?ces ! n @ filter (in_octant key n) es) [0..<8] =
        map (\<lambda>n. ces ! n @ filter (in_octant key n) (e # es)) [0..<8]" by simp
    then have f: "fold_res (split_entry key) (e # es) (pe, ces) =
        Ok (pe', map (\<lambda>n. ces ! n @ filter (in_octant key n) (e # es)) [0..<8])"
      using s IH(1) by simp
    show ?thesis
      by (rule exI [of _ pe']) (use f IH(2) False in \<open>auto split: if_splits\<close>)
  qed
qed

section \<open>Plans as lists of pages\<close>

text \<open>The pages of a plan in the order they are written: a page, then its child pages.\<close>

fun all_pages :: "page_plan \<Rightarrow> page_plan list"
and item_pages :: "page_item list \<Rightarrow> page_plan list" where
  "all_pages (PagePlan key items off byte_size) = PagePlan key items off byte_size # item_pages items"
| "item_pages [] = []"
| "item_pages (PointItem e # items) = item_pages items"
| "item_pages (ChildItem child # items) = all_pages child @ item_pages items"

fun child_plans :: "page_item list \<Rightarrow> page_plan list" where
  "child_plans [] = []"
| "child_plans (PointItem e # items) = child_plans items"
| "child_plans (ChildItem child # items) = child # child_plans items"

fun item_points :: "page_item list \<Rightarrow> entry list" where
  "item_points [] = []"
| "item_points (PointItem e # items) = e # item_points items"
| "item_points (ChildItem child # items) = item_points items"

definition plan_points :: "page_plan \<Rightarrow> entry list" where
  "plan_points p = concat (map (\<lambda>q. item_points (pp_items q)) (all_pages p))"

lemma item_pages_eq: "item_pages items = concat (map all_pages (child_plans items))"
  by (induction items rule: child_plans.induct) simp_all

lemma all_pages_eq: "all_pages p = p # concat (map all_pages (child_plans (pp_items p)))"
  by (cases p) (simp add: item_pages_eq)

lemma plan_points_eq:
  "plan_points p = item_points (pp_items p) @ concat (map plan_points (child_plans (pp_items p)))"
  unfolding plan_points_def by (subst all_pages_eq) (simp add: concat_map_concat comp_def plan_points_def)

text \<open>
  The view of a page that does not depend on offsets: its point entries and the keys of its child
  pages.
\<close>

definition item_view :: "page_item \<Rightarrow> entry + voxel_key" where
  "item_view i = (case i of PointItem e \<Rightarrow> Inl e | ChildItem c \<Rightarrow> Inr (pp_key c))"

definition view_key :: "entry + voxel_key \<Rightarrow> voxel_key" where
  "view_key v = (case v of Inl e \<Rightarrow> e_key e | Inr k \<Rightarrow> k)"

definition page_view :: "page_plan \<Rightarrow> voxel_key \<times> (entry + voxel_key) list" where
  "page_view p = (pp_key p, map item_view (pp_items p))"

text \<open>
  A well-formed page: its entries lie under its key, have different keys, and nothing in it lies
  under the key of one of its child pages.
\<close>

definition page_ok :: "voxel_key \<times> (entry + voxel_key) list \<Rightarrow> bool" where
  "page_ok pv \<longleftrightarrow>
     (case pv of (key, views) \<Rightarrow>
        views \<noteq> [] \<and> length views \<le> HIERARCHY_PAGE_MAX_ENTRIES \<and> distinct (map view_key views) \<and>
        (\<forall>v \<in> set views. page_key_ok key (view_key v)) \<and>
        (\<forall>c. Inr c \<in> set views \<longrightarrow> c \<noteq> key \<and>
           (\<forall>v \<in> set views. v \<noteq> Inr c \<longrightarrow> \<not> under c (view_key v))))"

definition plan_ok :: "page_plan \<Rightarrow> bool" where
  "plan_ok p \<longleftrightarrow> (\<forall>q \<in> set (all_pages p). page_ok (page_view q))"

definition plan_input_ok :: "entry list \<Rightarrow> voxel_key \<Rightarrow> bool" where
  "plan_input_ok es key \<longleftrightarrow>
     es \<noteq> [] \<and> distinct (map e_key es) \<and> vk_validate key = Ok () \<and>
     (\<forall>e \<in> set es. page_key_ok key (e_key e))"

lemma item_points_PointItem [simp]: "item_points (map PointItem es) = es"
  by (induction es) simp_all

lemma child_plans_PointItem [simp]: "child_plans (map PointItem es) = []"
  by (induction es) simp_all

lemma item_points_append [simp]: "item_points (xs @ ys) = item_points xs @ item_points ys"
  by (induction xs rule: item_points.induct) simp_all

lemma child_plans_append [simp]: "child_plans (xs @ ys) = child_plans xs @ child_plans ys"
  by (induction xs rule: child_plans.induct) simp_all

lemma set_child_plans: "set (child_plans items) = {c. ChildItem c \<in> set items}"
  by (induction items rule: child_plans.induct) auto

lemma set_item_points: "set (item_points items) = {e. PointItem e \<in> set items}"
  by (induction items rule: item_points.induct) auto

lemma plan_ok_eq:
  "plan_ok p \<longleftrightarrow> page_ok (page_view p) \<and> (\<forall>c \<in> set (child_plans (pp_items p)). plan_ok c)"
  unfolding plan_ok_def by (subst all_pages_eq) auto

lemma plan_small:
  assumes "plan_input_ok es key" "length es \<le> HIERARCHY_PAGE_MAX_ENTRIES"
  shows "plan_hierarchy_pages es key = Ok (PagePlan key (map PointItem es) 0 0)"
    "plan_ok (PagePlan key (map PointItem es) 0 0)"
proof -
  show "plan_hierarchy_pages es key = Ok (PagePlan key (map PointItem es) 0 0)"
    using assms by (simp add: plan_hierarchy_pages.simps plan_input_ok_def)
  have v: "map item_view (map PointItem es) = map Inl es" by (simp add: item_view_def)
  have k: "map view_key (map Inl es) = map e_key es" by (simp add: view_key_def)
  have "page_ok (key, map Inl es)"
    unfolding page_ok_def prod.case k using assms
    by (auto simp: plan_input_ok_def view_key_def)
  then show "plan_ok (PagePlan key (map PointItem es) 0 0)"
    by (subst plan_ok_eq) (use v in \<open>simp add: page_view_def del: map_map\<close>)
qed

text \<open>The page that is split: one point entry at most, one child page per non-empty octant.\<close>

lemma split_page_ok:
  assumes key: "vk_validate key = Ok ()" "sint (vk_level key) < 30"
    and pe: "case pe of Some e \<Rightarrow> e_key e = key | None \<Rightarrow> True"
    and cs: "distinct ns" "set ns \<subseteq> {..<8}"
      "list_all2 (\<lambda>n c. vk_child key (of_nat n) = Ok (pp_key c)) ns cs"
    and ne: "pe \<noteq> None \<or> cs \<noteq> []"
  shows "page_ok (key, map item_view ((case pe of Some e \<Rightarrow> [PointItem e] | None \<Rightarrow> []) @ map ChildItem cs))"
proof -
  let ?own = "case pe of Some e \<Rightarrow> [Inl e] | None \<Rightarrow> []"
  have views: "map item_view ((case pe of Some e \<Rightarrow> [PointItem e] | None \<Rightarrow> []) @ map ChildItem cs) =
      ?own @ map (\<lambda>c. Inr (pp_key c)) cs"
    by (simp add: item_view_def split: option.split)
  have len: "length cs \<le> 8"
  proof -
    have "length cs = card (set ns)" using cs(1,3) by (simp add: distinct_card list_all2_lengthD)
    also have "\<dots> \<le> 8" using card_mono [OF _ cs(2)] by simp
    finally show ?thesis .
  qed
  have child: "\<exists>n \<in> set ns. vk_child key (of_nat n) = Ok (pp_key c)" if "c \<in> set cs" for c
    using cs(3) that by (fastforce simp: list_all2_conv_all_nth in_set_conv_nth)
  have ck: "page_key_ok key (pp_key c)" "pp_key c \<noteq> key" "\<not> under (pp_key c) key" 
    "sint (vk_level (pp_key c)) = sint (vk_level key) + 1" if c: "c \<in> set cs" for c
  proof -
    obtain n where n: "vk_child key (of_nat n) = Ok (pp_key c)" using child [OF c] by blast
    show "page_key_ok key (pp_key c)"
      using under_childI [OF n] vk_child_valid [OF n] vk_child_fields(2) [OF n] key(2)
      by (simp add: page_key_ok_def)
    show "\<not> under (pp_key c) key" by (rule child_not_above [OF n])
    then show "pp_key c \<noteq> key" by auto
    show "sint (vk_level (pp_key c)) = sint (vk_level key) + 1" by (rule vk_child_fields(2) [OF n])
  qed
  have dist: "distinct (map pp_key cs)"
  proof (unfold distinct_conv_nth, intro allI impI)
    fix i j assume ij: "i < length (map pp_key cs)" "j < length (map pp_key cs)" "i \<noteq> j"
    then have l: "i < length ns" "j < length ns" using cs(3) by (simp_all add: list_all2_lengthD)
    have "vk_child key (of_nat (ns ! i)) = Ok (pp_key (cs ! i))" "vk_child key (of_nat (ns ! j)) = Ok (pp_key (cs ! j))"
      using cs(3) l by (simp_all add: list_all2_conv_all_nth)
    moreover have "ns ! i \<noteq> ns ! j" using cs(1) ij(3) l by (simp add: nth_eq_iff_index_eq)
    moreover have "ns ! i < 8" "ns ! j < 8" using cs(2) l nth_mem by blast+
    ultimately have "pp_key (cs ! i) \<noteq> pp_key (cs ! j)"
      using child_inj octant_of_nat_inj by metis
    then show "map pp_key cs ! i \<noteq> map pp_key cs ! j" using ij by simp
  qed
  have own: "v \<in> set ?own \<Longrightarrow> view_key v = key" for v
    using pe by (cases pe) (auto simp: view_key_def)
  have rootok: "page_key_ok key key" using key by (simp add: page_key_ok_def)
  have keys: "page_key_ok key (view_key v)" if "v \<in> set (?own @ map (\<lambda>c. Inr (pp_key c)) cs)" for v
    using that own rootok ck(1) by (auto simp: view_key_def)
  have dk: "distinct (map view_key (?own @ map (\<lambda>c. Inr (pp_key c)) cs))"
    using dist pe by (cases pe) (auto simp: view_key_def comp_def dest: ck(2))
  have sep: "\<not> under c (view_key v)"
    if c: "Inr c \<in> set (?own @ map (\<lambda>c. Inr (pp_key c)) cs)"
      and v: "v \<in> set (?own @ map (\<lambda>c. Inr (pp_key c)) cs)" "v \<noteq> Inr c" for c v
  proof -
    obtain p where p: "p \<in> set cs" "c = pp_key p" using c by (cases pe) auto
    show ?thesis
    proof (cases "v \<in> set ?own")
      case True
      then show ?thesis using own ck(3) [OF p(1)] p(2) by simp
    next
      case False
      then obtain q where q: "q \<in> set cs" "v = Inr (pp_key q)" using v(1) by auto
      show ?thesis
      proof
        assume "under c (view_key v)"
        then have "c = pp_key q"
          using under_same_level ck(4) [OF p(1)] ck(4) [OF q(1)] p(2) q(2) by (simp add: view_key_def)
        then show False using v(2) q(2) by simp
      qed
    qed
  qed
  have "length (?own @ map (\<lambda>c. Inr (pp_key c)) cs) \<le> HIERARCHY_PAGE_MAX_ENTRIES"
    using len by (cases pe) (simp_all add: HIERARCHY_PAGE_MAX_ENTRIES_def)
  moreover have "?own @ map (\<lambda>c. Inr (pp_key c)) cs \<noteq> []" using ne by (cases pe) auto
  moreover have "c \<noteq> key" if "Inr c \<in> set (?own @ map (\<lambda>c. Inr (pp_key c)) cs)" for c
    using that ck(2) by (cases pe) auto
  ultimately show ?thesis
    unfolding page_ok_def views using dk keys sep by blast
qed

lemma part_input_ok:
  assumes "plan_input_ok es key" "filter (in_octant key n) es \<noteq> []" "vk_child key (of_nat n) = Ok ck" "n < 8"
  shows "plan_input_ok (filter (in_octant key n) es) ck"
proof -
  have "page_key_ok ck (e_key e)" if e: "e \<in> set es" "in_octant key n e" for e
  proof -
    have k: "page_key_ok key (e_key e)" "e_key e \<noteq> key" "octant_towards key (e_key e) = n"
      using e assms(1) by (auto simp: plan_input_ok_def in_octant_def)
    have "key_contains ck (e_key e)"
      using page_key_ok_child [OF _ k(1,2) assms(3,4)] k(3) assms(1) by (simp add: plan_input_ok_def)
    then show ?thesis
      using k(1) key_contains_under [OF vk_child_valid [OF assms(3)]] by (simp add: page_key_ok_def)
  qed
  moreover have "distinct (map e_key (filter (in_octant key n) es))"
    using assms(1) by (simp add: plan_input_ok_def distinct_map_filter)
  ultimately show ?thesis
    using assms(2) vk_child_valid [OF assms(3)] by (simp add: plan_input_ok_def)
qed

lemma plan_input_level:
  assumes "plan_input_ok es key" "1 < length es"
  shows "sint (vk_level key) < 30"
proof -
  obtain a b where ab: "a \<in> set es" "b \<in> set es" "e_key a \<noteq> e_key b"
  proof -
    have "0 < length es" using assms(2) by linarith
    then have "es ! 0 \<in> set es" "es ! 1 \<in> set es" using assms(2) by (simp_all only: nth_mem)
    moreover have "e_key (es ! 0) \<noteq> e_key (es ! 1)"
      using assms by (fastforce simp: plan_input_ok_def distinct_conv_nth)
    ultimately show ?thesis using that by blast
  qed
  then obtain e where "e \<in> set es" "e_key e \<noteq> key" by metis
  moreover from this have "page_key_ok key (e_key e)" using assms(1) by (simp add: plan_input_ok_def)
  ultimately show ?thesis by (blast intro: strictly_under_level)
qed

lemma mset_split:
  assumes "distinct (map e_key es)"
    and pe: "if \<exists>e \<in> set es. e_key e = key then \<exists>e \<in> set es. e_key e = key \<and> pe = Some e else pe = None"
  shows "mset ((case pe of Some e \<Rightarrow> [e] | None \<Rightarrow> []) @
      concat (map (\<lambda>n. filter (in_octant key n) es) [0..<8])) = mset es"
proof -
  let ?rest = "filter (\<lambda>e. e_key e \<noteq> key) es"
  have "filter (in_octant key n) es = filter (\<lambda>e. octant_towards key (e_key e) = n) ?rest" for n
    unfolding filter_filter by (rule filter_cong) (auto simp: in_octant_def)
  then have r: "mset (concat (map (\<lambda>n. filter (in_octant key n) es) [0..<8])) = mset ?rest"
    using mset_group_by [of ?rest "\<lambda>e. octant_towards key (e_key e)" 8] octant_towards_lt by simp
  have own: "filter (\<lambda>e. e_key e = key) es = (case pe of Some e \<Rightarrow> [e] | None \<Rightarrow> [])"
  proof (cases pe)
    case None
    then show ?thesis using pe by (auto simp: filter_empty_conv split: if_splits)
  next
    case (Some e)
    then have e: "e \<in> set es" "e_key e = key" using pe by (auto split: if_splits)
    have "distinct (map e_key xs) \<Longrightarrow> e \<in> set xs \<Longrightarrow> filter (\<lambda>x. e_key x = key) xs = [e]" for xs
      using e(2) by (induction xs) (auto simp: filter_empty_conv rev_image_eqI)
    then show ?thesis using assms(1) e(1) Some by simp
  qed
  have "mset es = mset (filter (\<lambda>e. e_key e = key) es) + mset ?rest"
    by (metis mset_filter multiset_partition)
  then show ?thesis using r own by simp
qed

theorem plan_exists:
  assumes "plan_input_ok es key"
  shows "\<exists>p. plan_hierarchy_pages es key = Ok p \<and> pp_key p = key \<and> plan_ok p \<and>
    mset (plan_points p) = mset es"
  using assms
proof (induction es key rule: plan_hierarchy_pages.induct)
  case (1 es key)
  show ?case
  proof (cases "length es \<le> HIERARCHY_PAGE_MAX_ENTRIES")
    case True
    from plan_small [OF 1(2) this] show ?thesis
      by (intro exI [of _ "PagePlan key (map PointItem es) 0 0"]) (simp add: plan_points_eq)
  next
    case False
    have ne: "es \<noteq> []" and dist: "distinct (map e_key es)" and key: "vk_validate key = Ok ()"
      and ks: "\<forall>e \<in> set es. page_key_ok key (e_key e)"
      using 1(2) by (auto simp: plan_input_ok_def)
    have lv: "sint (vk_level key) < 30"
      by (rule plan_input_level [OF 1(2)]) (use False in \<open>simp add: HIERARCHY_PAGE_MAX_ENTRIES_def\<close>)
    define part where "part n = filter (in_octant key n) es" for n
    obtain pe where st: "fold_res (split_entry key) es (None, replicate 8 []) = Ok (pe, map part [0..<8])"
      and pe: "if \<exists>e \<in> set es. e_key e = key then \<exists>e \<in> set es. e_key e = key \<and> pe = Some e else pe = None"
      using split_entries_eq [OF key ks, of "replicate 8 []" None] by (auto simp: part_def)
    have "\<exists>ck p. vk_child key (of_nat n) = Ok ck \<and> plan_hierarchy_pages (part n) ck = Ok p \<and>
        pp_key p = ck \<and> plan_ok p \<and> mset (plan_points p) = mset (part n)" if n: "n < 8" "part n \<noteq> []" for n
    proof -
      obtain ck where ck: "vk_child key (of_nat n) = Ok ck"
        by (rule page_child_exists [OF key lv n(1)])
      have "plan_input_ok (part n) ck"
        using part_input_ok [OF 1(2) _ ck n(1)] n(2) by (simp add: part_def)
      then show ?thesis
        using 1(1) [OF ne False st, of n ck] n ck by auto
    qed
    then obtain p where p: "\<And>n. n < 8 \<Longrightarrow> part n \<noteq> [] \<Longrightarrow> \<exists>ck. vk_child key (of_nat n) = Ok ck \<and>
        plan_hierarchy_pages (part n) ck = Ok (p n) \<and>
        pp_key (p n) = ck \<and> plan_ok (p n) \<and> mset (plan_points (p n)) = mset (part n)"
      by metis
    define ns where "ns = filter (\<lambda>n. part n \<noteq> []) [0..<8]"
    let ?own = "case pe of Some e \<Rightarrow> [PointItem e] | None \<Rightarrow> []"
    let ?items = "?own @ map ChildItem (map p ns)"
    let ?children = "map (\<lambda>n. if part n = [] then [] else [ChildItem (p n)]) [0..<8]"
    have m: "map_res (\<lambda>octant.
            if snd (pe, map part [0..<8]) ! octant = [] then Ok []
            else
              bind_res (vk_child key (of_nat octant)) (\<lambda>child_key.
              bind_res (plan_hierarchy_pages (snd (pe, map part [0..<8]) ! octant) child_key) (\<lambda>child.
              Ok [ChildItem child]))) [0..<8] = Ok ?children"
      by (rule map_res_all_Ok) (use p in force)
    have "concat (map (\<lambda>n. if part n = [] then [] else [ChildItem (p n)]) xs) =
        map ChildItem (map p (filter (\<lambda>n. part n \<noteq> []) xs))" for xs
      by (induction xs) simp_all
    then have c: "concat ?children = map ChildItem (map p ns)" by (simp only: ns_def)
    have eq: "plan_hierarchy_pages es key =
        (if HIERARCHY_PAGE_MAX_ENTRIES < length ?items then
           Err (InvalidInput ''hierarchy page for {} has {} entries, max is {}'')
         else Ok (PagePlan key ?items 0 0))"
      by (subst plan_hierarchy_pages.simps)
        (simp only: ne False st if_False bind_res_simps m c fst_conv Let_def)
    have parts: "mset ((case pe of Some e \<Rightarrow> [e] | None \<Rightarrow> []) @ concat (map part [0..<8])) = mset es"
      using mset_split [OF dist pe] by (simp add: part_def [abs_def])
    have "page_ok (key, map item_view ?items)"
    proof (rule split_page_ok [OF key lv])
      show "case pe of Some e \<Rightarrow> e_key e = key | None \<Rightarrow> True"
        using pe by (auto split: if_splits option.splits)
      show "distinct ns" "set ns \<subseteq> {..<8}" by (auto simp: ns_def)
      show "list_all2 (\<lambda>n c. vk_child key (of_nat n) = Ok (pp_key c)) ns (map p ns)"
        using p by (auto simp: list_all2_conv_all_nth ns_def dest!: nth_mem)
      show "pe \<noteq> None \<or> map p ns \<noteq> []"
      proof (rule ccontr)
        assume "\<not> (pe \<noteq> None \<or> map p ns \<noteq> [])"
        then have "pe = None" "\<forall>n \<in> set [0..<8]. part n = []" by (auto simp: ns_def filter_empty_conv)
        then have n: "pe = None" and c: "concat (map part [0..<8]) = []" by (simp_all del: upt_Suc)
        have "mset es = {#}" using parts unfolding n c by simp
        then show False using ne by simp
      qed
    qed
    then have pok: "page_ok (page_view (PagePlan key ?items 0 0))" by (simp add: page_view_def)
    then have le: "\<not> HIERARCHY_PAGE_MAX_ENTRIES < length ?items" by (simp add: page_view_def page_ok_def)
    have ch: "child_plans ?items = map p ns" and pts: "item_points ?items = (case pe of Some e \<Rightarrow> [e] | None \<Rightarrow> [])"
    proof -
      have "child_plans (map ChildItem cs) = cs" "item_points (map ChildItem cs) = []" for cs
        by (induction cs) simp_all
      then show "child_plans ?items = map p ns" "item_points ?items = (case pe of Some e \<Rightarrow> [e] | None \<Rightarrow> [])"
        by (simp_all split: option.split del: map_map)
    qed
    have pok2: "plan_ok (PagePlan key ?items 0 0)"
      by (subst plan_ok_eq) (use pok ch p in \<open>auto simp: ns_def\<close>)
    have "mset (concat (map (\<lambda>n. plan_points (p n)) ms)) = mset (concat (map part xs))"
      if "ms = filter (\<lambda>n. part n \<noteq> []) xs" "set xs \<subseteq> {..<8}" for xs ms
      using that p by (induction xs arbitrary: ms) auto
    then have "mset (concat (map plan_points (map p ns))) = mset (concat (map part [0..<8]))"
      by (simp add: ns_def comp_def atLeast0LessThan del: upt_Suc)
    moreover have "plan_points (PagePlan key ?items 0 0) =
        (case pe of Some e \<Rightarrow> [e] | None \<Rightarrow> []) @ concat (map plan_points (map p ns))"
      by (subst plan_points_eq) (simp only: page_plan.sel ch pts)
    ultimately have "mset (plan_points (PagePlan key ?items 0 0)) = mset es"
      using parts by (simp only: mset_append)
    with pok2 show ?thesis
      using eq le by (intro exI [of _ "PagePlan key ?items 0 0"]) simp
  qed
qed

section \<open>Offsets\<close>

text \<open>The pages lie one after the other, from an offset on.\<close>

fun contiguous :: "nat \<Rightarrow> page_plan list \<Rightarrow> bool" where
  "contiguous off [] \<longleftrightarrow> True"
| "contiguous off (p # ps) \<longleftrightarrow> pp_offset p = off \<and> contiguous (off + pp_byte_size p) ps"

definition pages_size :: "page_plan list \<Rightarrow> nat" where
  "pages_size ps = sum_list (map pp_byte_size ps)"

definition sized :: "page_plan \<Rightarrow> bool" where
  "sized p \<longleftrightarrow> pp_byte_size p = 32 * length (pp_items p)"

definition entry_total :: "page_plan list \<Rightarrow> nat" where
  "entry_total ps = sum_list (map (\<lambda>q. length (pp_items q)) ps)"

lemma pages_size_simps [simp]:
  "pages_size [] = 0" "pages_size (p # ps) = pp_byte_size p + pages_size ps"
  "pages_size (ps @ qs) = pages_size ps + pages_size qs"
  by (simp_all add: pages_size_def)

lemma entry_total_simps [simp]:
  "entry_total [] = 0" "entry_total (p # ps) = length (pp_items p) + entry_total ps"
  "entry_total (ps @ qs) = entry_total ps + entry_total qs"
  by (simp_all add: entry_total_def)

lemma contiguous_append:
  "contiguous off (xs @ ys) \<longleftrightarrow> contiguous off xs \<and> contiguous (off + pages_size xs) ys"
  by (induction xs arbitrary: off) (auto simp: add.assoc)

lemma page_size_eq:
  "n < 2 ^ 59 \<Longrightarrow> hierarchy_page_byte_size n = Ok (32 * n)"
  by (simp add: hierarchy_page_byte_size_def checked_mul_usize_def usize_max_def HIERARCHY_ENTRY_BYTES_def
      mult.commute)

lemma page_size_Ok: "hierarchy_page_byte_size n = Ok b \<Longrightarrow> b = 32 * n"
  by (auto simp: hierarchy_page_byte_size_def bind_res_Ok_iff checked_mul_usize_def
      HIERARCHY_ENTRY_BYTES_def split: if_splits)

text \<open>Assigning offsets changes neither keys nor entries, and lays the pages out one after the other.\<close>

lemma assign_offsets_props:
  "assign_hierarchy_page_offsets p off = Ok (p', n) \<Longrightarrow>
     pp_key p' = pp_key p \<and> map page_view (all_pages p') = map page_view (all_pages p) \<and>
     contiguous off (all_pages p') \<and> n = off + pages_size (all_pages p') \<and>
     list_all sized (all_pages p') \<and> n < 2 ^ 64"
  "assign_child_offsets items off = Ok (items', n) \<Longrightarrow> off < 2 ^ 64 \<Longrightarrow>
     map item_view items' = map item_view items \<and>
     map page_view (item_pages items') = map page_view (item_pages items) \<and>
     contiguous off (item_pages items') \<and> n = off + pages_size (item_pages items') \<and>
     list_all sized (item_pages items') \<and> n < 2 ^ 64"
proof (induction p off and items off arbitrary: p' n and items' n
    rule: assign_hierarchy_page_offsets_assign_child_offsets.induct)
  case (1 key items o1 s1 off)
  from 1(2) obtain b items1 where b: "hierarchy_page_byte_size (length items) = Ok b"
    "off + b < 2 ^ 64" "assign_child_offsets items (off + b) = Ok (items1, n)"
    "p' = PagePlan key items1 off b"
    by (auto simp: bind_res_Ok_iff split: if_splits)
  have IH: "map item_view items1 = map item_view items"
     "map page_view (item_pages items1) = map page_view (item_pages items)"
     "contiguous (off + b) (item_pages items1)" "n = off + b + pages_size (item_pages items1)"
     "list_all sized (item_pages items1)" "n < 2 ^ 64"
    using 1(1) [OF b(1) _ b(3)] b(2) by auto
  have "length items1 = length items" using IH(1) by (metis length_map)
  then have "page_view p' = page_view (PagePlan key items o1 s1)" "sized p'"
    using IH(1) page_size_Ok [OF b(1)] b(4) by (simp_all add: page_view_def sized_def)
  then show ?case
    using IH b(4) by simp
next
  case (2 off)
  then show ?case by simp
next
  case (3 e items off)
  from 3(2) obtain items1 where s: "assign_child_offsets items off = Ok (items1, n)"
    "items' = PointItem e # items1"
    by (auto simp: bind_res_Ok_iff split: prod.splits)
  from 3(1) [OF s(1) 3(3)] show ?case by (simp add: s(2) item_view_def)
next
  case (4 child items off)
  from 4(3) obtain c1 n1 items1 where s: "assign_hierarchy_page_offsets child off = Ok (c1, n1)"
    "assign_child_offsets items n1 = Ok (items1, n)" "items' = ChildItem c1 # items1"
    by (auto simp: bind_res_Ok_iff split: prod.splits)
  note c = 4(1) [OF s(1)]
  then have "n1 < 2 ^ 64" by simp
  from 4(2) [OF s(1) refl s(2) this] c show ?case
    by (simp add: s(3) item_view_def contiguous_append add.assoc)
qed

lemma assign_offsets_ok:
  "off + 32 * entry_total (all_pages p) < 2 ^ 64 \<Longrightarrow> is_ok (assign_hierarchy_page_offsets p off)"
  "off + 32 * entry_total (item_pages items) < 2 ^ 64 \<Longrightarrow> is_ok (assign_child_offsets items off)"
proof (induction p off and items off rule: assign_hierarchy_page_offsets_assign_child_offsets.induct)
  case (1 key items o1 s1 off)
  have le: "length items < 2 ^ 59" using 1(2) by simp
  have "off + 32 * length items < 2 ^ 64" using 1(2) by simp
  moreover have "is_ok (assign_child_offsets items (off + 32 * length items))"
    using 1(1) [OF page_size_eq [OF le]] 1(2) by simp
  ultimately show ?case using page_size_eq [OF le] by (auto simp: is_ok_iff)
next
  case (2 off)
  then show ?case by simp
next
  case (3 e items off)
  then show ?case by (auto simp: is_ok_iff)
next
  case (4 child items off)
  then have "is_ok (assign_hierarchy_page_offsets child off)" by simp
  then obtain c1 n1 where c: "assign_hierarchy_page_offsets child off = Ok (c1, n1)"
    by (auto simp: is_ok_iff)
  note pr = assign_offsets_props(1) [OF c]
  have len: "map (\<lambda>q. length (pp_items q)) ps = map (\<lambda>q. length (pp_items q)) qs"
    if "map page_view ps = map page_view qs" for ps qs
  proof -
    have "length (pp_items q) = length (snd (page_view q))" for q by (simp add: page_view_def)
    then have "map (\<lambda>q. length (pp_items q)) rs = map (length \<circ> snd) (map page_view rs)" for rs by simp
    then show ?thesis using that by metis
  qed
  have "pages_size ps = 32 * entry_total ps" if "list_all sized ps" for ps
    using that by (induction ps) (simp_all add: sized_def)
  then have "pages_size (all_pages c1) = 32 * entry_total (all_pages child)"
    using pr len [of "all_pages c1" "all_pages child"] by (simp add: entry_total_def)
  then have "n1 + 32 * entry_total (item_pages items) < 2 ^ 64"
    using pr 4(3) by (simp add: add.assoc)
  from 4(2) [OF c refl this] show ?case using c by (auto simp: is_ok_iff)
qed

section \<open>Writing\<close>

definition item_entry :: "page_item \<Rightarrow> entry" where
  "item_entry i =
     (case i of
        PointItem e \<Rightarrow> e
      | ChildItem c \<Rightarrow> \<lparr>e_key = pp_key c, e_offset = of_nat (pp_offset c),
          e_byte_size = of_nat (pp_byte_size c), e_point_count = - 1\<rparr>)"

definition page_entries_of :: "page_plan \<Rightarrow> entry list" where
  "page_entries_of p = map item_entry (pp_items p)"

definition page_bytes :: "page_plan \<Rightarrow> u8 list" where
  "page_bytes p = concat (map entry_bytes (page_entries_of p))"

text \<open>All entries are acceptable, and the sizes of the child pages fit an \<^verbatim>\<open>i32\<close>.\<close>

definition page_writable :: "page_plan \<Rightarrow> bool" where
  "page_writable p \<longleftrightarrow>
     (\<forall>e \<in> set (page_entries_of p). entry_validate e = Ok ()) \<and>
     (\<forall>c \<in> set (child_plans (pp_items p)). pp_byte_size c < 2 ^ 31)"

lemma length_page_bytes: "length (page_bytes p) = 32 * length (pp_items p)"
proof -
  have "length (concat (map entry_bytes es)) = 32 * length es" for es by (induction es) simp_all
  then show ?thesis by (simp add: page_bytes_def page_entries_of_def del: map_map)
qed

lemma item_entry_eq:
  "(\<forall>c. i = ChildItem c \<longrightarrow> pp_byte_size c < 2 ^ 31) \<Longrightarrow> hierarchy_page_item_entry i = Ok (item_entry i)"
  by (simp add: hierarchy_page_item_entry_def item_entry_def split: page_item.split)

lemma write_page_entries_eq:
  assumes "\<forall>i \<in> set items. entry_validate (item_entry i) = Ok ()"
    and "\<forall>c. ChildItem c \<in> set items \<longrightarrow> pp_byte_size c < 2 ^ 31"
  shows "write_page_entries items out = Ok (out @ concat (map entry_bytes (map item_entry items)))"
  using assms
proof (induction items arbitrary: out)
  case Nil
  then show ?case by (simp add: write_page_entries_def)
next
  case (Cons i items)
  have "hierarchy_page_item_entry i = Ok (item_entry i)" using Cons.prems(2) by (auto intro: item_entry_eq)
  moreover have "entry_write_le (item_entry i) (replicate HIERARCHY_ENTRY_BYTES 0) = Ok (entry_bytes (item_entry i))"
    using Cons.prems(1) by (simp add: entry_write_le_eq HIERARCHY_ENTRY_BYTES_def)
  ultimately show ?case
    using Cons.IH [of "out @ entry_bytes (item_entry i)"] Cons.prems
    by (simp add: write_page_entries_def)
qed

lemma write_tree_eq:
  "contiguous (length out) (all_pages p) \<Longrightarrow> list_all sized (all_pages p) \<Longrightarrow>
     list_all page_writable (all_pages p) \<Longrightarrow>
     write_hierarchy_page_tree p out = Ok (out @ concat (map page_bytes (all_pages p)))"
  "contiguous (length out) (item_pages items) \<Longrightarrow> list_all sized (item_pages items) \<Longrightarrow>
     list_all page_writable (item_pages items) \<Longrightarrow>
     write_child_pages items out = Ok (out @ concat (map page_bytes (item_pages items)))"
proof (induction p out and items out rule: write_hierarchy_page_tree_write_child_pages.induct)
  case (1 key items off byte_size out)
  have w: "write_page_entries items out = Ok (out @ page_bytes (PagePlan key items off byte_size))"
    using write_page_entries_eq [of items out] 1(4)
    by (simp add: page_writable_def page_entries_of_def page_bytes_def set_child_plans)
  have "length (out @ page_bytes (PagePlan key items off byte_size)) = length out + byte_size"
    using 1(3) by (simp add: length_page_bytes sized_def)
  then show ?case using 1 w by simp
next
  case (4 child items out)
  have len: "length (concat (map page_bytes ps)) = pages_size ps" if "list_all sized ps" for ps
    using that by (induction ps) (simp_all add: length_page_bytes sized_def)
  show ?case using 4 len [of "all_pages child"] by (simp add: contiguous_append)
qed simp_all

section \<open>How many entries a plan writes\<close>

text \<open>
  Every page holds a point entry below it, and a point entry lies below at most 31 pages, one per
  level: a plan for \<open>n\<close> entries writes at most \<open>31 * n\<close>.
\<close>

lemma length_items: "length items = length (item_points items) + length (child_plans items)"
  by (induction items rule: child_plans.induct) simp_all

lemma plan_entries_bound:
  assumes "plan_ok p"
  shows "plan_points p \<noteq> [] \<and> sint (vk_level (pp_key p)) \<le> 30 \<and>
    entry_total (all_pages p) \<le> nat (31 - sint (vk_level (pp_key p))) * length (plan_points p)"
  using assms
proof (induction "size p" arbitrary: p rule: less_induct)
  case less
  let ?cs = "child_plans (pp_items p)" and ?l = "sint (vk_level (pp_key p))"
  have pok: "page_ok (pp_key p, map item_view (pp_items p))" and cok: "\<forall>c \<in> set ?cs. plan_ok c"
    using less.prems unfolding plan_ok_eq [of p] page_view_def by blast+
  have child: "plan_points c \<noteq> []" "sint (vk_level (pp_key c)) \<le> 30" "?l < sint (vk_level (pp_key c))"
    "entry_total (all_pages c) \<le> nat (31 - sint (vk_level (pp_key c))) * length (plan_points c)"
    if c: "c \<in> set ?cs" for c
  proof -
    have ci: "ChildItem c \<in> set (pp_items p)" using c by (simp add: set_child_plans)
    have "size (ChildItem c) < Suc (size_list size (pp_items p))"
      using size_list_estimation' [OF ci, of "size (ChildItem c)" size] by simp
    then have "size c < size p" by (cases p) simp
    then show "plan_points c \<noteq> []" "sint (vk_level (pp_key c)) \<le> 30"
      "entry_total (all_pages c) \<le> nat (31 - sint (vk_level (pp_key c))) * length (plan_points c)"
      using less.hyps cok c by blast+
    have "Inr (pp_key c) \<in> set (map item_view (pp_items p))" using ci by (force simp: item_view_def)
    then have "page_key_ok (pp_key p) (pp_key c)" "pp_key c \<noteq> pp_key p"
      using pok unfolding page_ok_def prod.case view_key_def by fastforce+
    then have "under (pp_key p) (pp_key c)" "pp_key c \<noteq> pp_key p" by (simp_all add: page_key_ok_def)
    then show "?l < sint (vk_level (pp_key c))"
      using under_level under_same_level by (metis order_le_imp_less_or_eq)
  qed
  have kids: "length cs + entry_total (concat (map all_pages cs)) \<le> nat (31 - ?l) * length (concat (map plan_points cs))"
    if "set cs \<subseteq> set ?cs" for cs
    using that
  proof (induction cs)
    case (Cons c cs)
    note ch = child [of c]
    have c: "c \<in> set ?cs" using Cons.prems by simp
    have "nat (31 - sint (vk_level (pp_key c))) + 1 \<le> nat (31 - ?l)" using ch(2,3) [OF c] by simp
    then have "(nat (31 - sint (vk_level (pp_key c))) + 1) * length (plan_points c) \<le>
        nat (31 - ?l) * length (plan_points c)" by (rule mult_le_mono1)
    moreover have "1 \<le> length (plan_points c)" using ch(1) [OF c] by (simp add: Suc_le_eq)
    ultimately have "1 + entry_total (all_pages c) \<le> nat (31 - ?l) * length (plan_points c)"
      using ch(4) [OF c] unfolding add_mult_distrib by linarith
    with Cons show ?case by (simp add: add_mult_distrib2)
  qed simp
  have sp: "all_pages p = p # concat (map all_pages ?cs)" by (rule all_pages_eq)
  have pts: "plan_points p = item_points (pp_items p) @ concat (map plan_points ?cs)" by (rule plan_points_eq)
  have "pp_items p \<noteq> []" using pok by (auto simp: page_ok_def)
  then obtain i where i: "i \<in> set (pp_items p)" by (meson list.set_sel(1))
  have key: "?l \<le> 30 \<and> (item_points (pp_items p) \<noteq> [] \<or> ?cs \<noteq> [])"
  proof -
    have "page_key_ok (pp_key p) (view_key (item_view i))"
      using pok i unfolding page_ok_def prod.case by simp
    then have "?l \<le> 30" using under_level [of "pp_key p" "view_key (item_view i)"] by (simp add: page_key_ok_def)
    then show ?thesis using length_items [of "pp_items p"] i by auto
  qed
  have ne: "plan_points p \<noteq> []"
    unfolding pts using key child(1) by (cases ?cs) auto
  have "0 \<le> 30 - ?l" using key by simp
  from Suc_nat_eq_nat_zadd1 [OF this] have "nat (31 - ?l) = Suc (nat (30 - ?l))" by simp
  then have own: "length (item_points (pp_items p)) \<le> nat (31 - ?l) * length (item_points (pp_items p))"
    by simp
  have "entry_total (all_pages p) = length (item_points (pp_items p)) + (length ?cs + entry_total (concat (map all_pages ?cs)))"
    unfolding sp using length_items [of "pp_items p"] by simp
  also have "\<dots> \<le> nat (31 - ?l) * length (item_points (pp_items p)) +
      nat (31 - ?l) * length (concat (map plan_points ?cs))"
    using own kids [of ?cs] by (intro add_mono) auto
  also have "\<dots> = nat (31 - ?l) * length (plan_points p)"
    unfolding pts length_append add_mult_distrib2 ..
  finally show ?case using ne key by blast
qed

section \<open>Properties\<close>

text \<open>C6: planning the hierarchy pages: for entries with distinct valid keys below the page key
  (at most level 30) a plan exists, holds every entry exactly once, keeps each page within 4096
  entries with distinct keys below the page's key and nothing below a child page's key, and writes
  at most 31 entries per entry planned.\<close>
theorem plan_partitions:
  assumes "plan_input_ok es key"
  shows "\<exists>p. plan_hierarchy_pages es key = Ok p \<and> pp_key p = key \<and> plan_ok p \<and>
    mset (plan_points p) = mset es \<and> entry_total (all_pages p) \<le> 31 * length es"
proof -
  obtain p where p: "plan_hierarchy_pages es key = Ok p" "pp_key p = key" "plan_ok p"
    "mset (plan_points p) = mset es"
    using plan_exists [OF assms] by blast
  have "0 \<le> sint (vk_level key)" using assms by (simp add: plan_input_ok_def vk_validate_Ok_iff)
  then have "nat (31 - sint (vk_level key)) \<le> 31" by (simp add: nat_le_iff)
  then have "nat (31 - sint (vk_level key)) * length es \<le> 31 * length es" by (rule mult_le_mono1)
  moreover have "length (plan_points p) = length es" using p(4) by (metis size_mset)
  ultimately have "entry_total (all_pages p) \<le> 31 * length es"
    using plan_entries_bound [OF p(3)] p(2) by (auto intro: order_trans)
  with p show ?thesis by blast
qed

definition sample_entry :: entry where
  "sample_entry = \<lparr>e_key = vk_root, e_offset = 375, e_byte_size = 10, e_point_count = 5\<rparr>"

lemma sample_input_ok: "plan_input_ok [sample_entry] vk_root"
  by (simp add: plan_input_ok_def sample_entry_def page_key_ok_def vk_root_def vk_validate_def Let_def)

theorem plan_partitions_witness:
  "\<exists>p. plan_hierarchy_pages [sample_entry] vk_root = Ok p \<and> mset (plan_points p) = {#sample_entry#}"
  using plan_partitions [OF sample_input_ok] by auto

text \<open>C7: the offsets: assigning them changes no key and no entry, lays the pages out without a gap
  from the given offset in the order in which they are written, and returns the offset behind the
  last page.\<close>
theorem offsets_contiguous:
  assumes "assign_hierarchy_page_offsets p off = Ok (p', hend)"
  shows "map page_view (all_pages p') = map page_view (all_pages p) \<and>
    contiguous off (all_pages p') \<and> hend = off + pages_size (all_pages p') \<and>
    list_all sized (all_pages p') \<and> hend < 2 ^ 64"
  using assign_offsets_props(1) [OF assms] by blast

theorem offsets_contiguous_witness:
  "contiguous 500 (all_pages (PagePlan vk_root [PointItem sample_entry] 500 32))"
  using offsets_contiguous [of "PagePlan vk_root [PointItem sample_entry] 0 0" 500
      "PagePlan vk_root [PointItem sample_entry] 500 32" 532]
  by (simp add: page_size_eq)

end
