(* ===== verification/Pages_Read.thy ===== *)
theory Pages_Read
  imports Pages
begin

text \<open>
  The refinement between the page writer and the hierarchy walk of the reader: a plan is abstractly
  the multiset of its point entries, and the reader's walk over the bytes that the writer produced
  computes exactly that.
\<close>

section \<open>Pages in a file\<close>

definition page_at :: "u8 list \<Rightarrow> page_plan \<Rightarrow> bool" where
  "page_at f q \<longleftrightarrow>
     bslice f (pp_offset q) (pp_byte_size q) = page_bytes q \<and> pp_offset q + pp_byte_size q \<le> length f"

definition page_ref :: "page_plan \<Rightarrow> nat \<times> nat" where
  "page_ref q = (pp_offset q, pp_byte_size q)"

lemma pages_at_contiguous:
  assumes "contiguous off ps" "list_all sized ps" "off + pages_size ps \<le> length f"
    and "bslice f off (pages_size ps) = concat (map page_bytes ps)"
  shows "\<forall>q \<in> set ps. page_at f q"
  using assms
proof (induction ps arbitrary: off)
  case Nil
  then show ?case by simp
next
  case (Cons p ps)
  have len: "length (page_bytes p) = pp_byte_size p"
    using Cons.prems(2) by (simp add: length_page_bytes sized_def)
  have "bslice f off (pp_byte_size p) = bslice (page_bytes p @ concat (map page_bytes ps)) 0 (pp_byte_size p)"
    using Cons.prems(4) bslice_bslice [of 0 "pp_byte_size p" "pages_size (p # ps)" f off] by simp
  then have 1: "bslice f off (pp_byte_size p) = page_bytes p" using len by (simp add: bslice_def)
  have "bslice f (off + pp_byte_size p) (pages_size ps) =
      bslice (page_bytes p @ concat (map page_bytes ps)) (pp_byte_size p) (pages_size ps)"
    using Cons.prems(4)
      bslice_bslice [of "pp_byte_size p" "pages_size ps" "pages_size (p # ps)" f off] by simp
  also have "\<dots> = take (pages_size ps) (concat (map page_bytes ps))" using len by (simp add: bslice_def)
  also have "length (concat (map page_bytes ps)) = pages_size ps"
  proof -
    have "length (concat (map page_bytes qs)) = pages_size qs" if "list_all sized qs" for qs
      using that by (induction qs) (simp_all add: length_page_bytes sized_def)
    then show ?thesis using Cons.prems(2) by simp
  qed
  then have "take (pages_size ps) (concat (map page_bytes ps)) = concat (map page_bytes ps)" by simp
  finally have 2: "bslice f (off + pp_byte_size p) (pages_size ps) = concat (map page_bytes ps)" .
  show ?case
    using Cons.IH [of "off + pp_byte_size p"] Cons.prems 1 2 by (auto simp: page_at_def add.assoc)
qed

text \<open>Reading a page that the file holds.\<close>

lemma read_page_at:
  assumes "page_at f q" "sized q" "pp_items q \<noteq> []" "length (pp_items q) \<le> 4096"
    and "\<forall>e \<in> set (page_entries_of q). entry_validate e = Ok ()"
    and "total_bytes limits + pp_byte_size q \<le> MAX_HIERARCHY_TOTAL_BYTES" "length f < 2 ^ 64"
  shows "read_hierarchy_page_at (pp_offset q) (pp_byte_size q) (length f) limits (fcur f pos) =
    Ok ((\<lparr>page_entries = page_entries_of q\<rparr>, limits\<lparr>total_bytes := total_bytes limits + pp_byte_size q\<rparr>),
        fcur f (pp_offset q + pp_byte_size q))"
proof -
  let ?n = "pp_byte_size q"
  have n: "?n = 32 * length (pp_items q)" using assms(2) by (simp add: sized_def)
  have n0: "0 < ?n" "32 dvd ?n" "?n \<le> 131072" using n assms(3,4) by auto
  have add: "add_page limits ?n = Ok (limits\<lparr>total_bytes := total_bytes limits + ?n\<rparr>)"
    using assms(6) n0 by (simp add: add_page_Ok_iff MAX_HIERARCHY_PAGE_BYTES_def)
  have range: "validate_range_in_file (pp_offset q) ?n (length f) l = Ok (pp_offset q + ?n)" for l
    using assms(1,7) by (simp add: validate_range_in_file_Ok_iff page_at_def)
  have bytes: "bslice f (pp_offset q) ?n = concat (map entry_bytes (page_entries_of q))"
    using assms(1) by (simp add: page_at_def page_bytes_def)
  have page: "page_from_le_bytes (concat (map entry_bytes (page_entries_of q))) =
      Ok \<lparr>page_entries = page_entries_of q\<rparr>"
    using assms(5) map_res_all_Ok [of "page_entries_of q" _ "\<lambda>e. e"]
    by (simp add: page_from_le_bytes_concat)
  show ?thesis
    unfolding read_hierarchy_page_at_def
    using n0 assms(1) page bytes
    by (simp add: rbind_done_check fcur_steps add range HIERARCHY_ENTRY_BYTES_def usize_max_def
        page_at_def rret_def)
qed

section \<open>Queueing a page\<close>

definition entries_map :: "entry list \<Rightarrow> voxel_key \<Rightarrow> entry option" where
  "entries_map es = map_of (map (\<lambda>e. (e_key e, e)) es)"

lemma insert_entries_eq:
  assumes "distinct (map e_key es)"
    and "\<forall>e \<in> set es. validate_hierarchy_entry e n r = Ok ()"
    and "\<forall>e \<in> set es. \<forall>p. RBT.lookup (ws_hierarchy ws) (e_key e) = Some p \<longrightarrow>
          is_child_page p \<and> \<not> is_child_page e"
  shows "\<exists>h. fold_res (insert_hierarchy_entry n r) es ws = Ok (ws\<lparr>ws_hierarchy := h\<rparr>) \<and>
    RBT.lookup h = RBT.lookup (ws_hierarchy ws) ++ entries_map es"
  using assms
proof (induction es arbitrary: ws)
  case Nil
  show ?case by (rule exI [of _ "ws_hierarchy ws"]) (simp add: entries_map_def)
next
  case (Cons e es)
  let ?ws = "ws\<lparr>ws_hierarchy := RBT.insert (e_key e) e (ws_hierarchy ws)\<rparr>"
  have s: "insert_hierarchy_entry n r e ws = Ok ?ws"
    using Cons.prems by (simp add: insert_hierarchy_entry_Ok_iff)
  have fresh: "e_key e \<notin> e_key ` set es" using Cons.prems(1) by simp
  then have ne: "e_key x \<noteq> e_key e" if "x \<in> set es" for x using that by (metis image_eqI)
  have "\<forall>x \<in> set es. \<forall>p. RBT.lookup (ws_hierarchy ?ws) (e_key x) = Some p \<longrightarrow>
      is_child_page p \<and> \<not> is_child_page x"
    using Cons.prems(3) ne by (simp add: fun_upd_def)
  moreover have "distinct (map e_key es)" "\<forall>e \<in> set es. validate_hierarchy_entry e n r = Ok ()"
    using Cons.prems by simp_all
  ultimately obtain h where
    h: "fold_res (insert_hierarchy_entry n r) es ?ws = Ok (?ws\<lparr>ws_hierarchy := h\<rparr>)"
    "RBT.lookup h = RBT.lookup (ws_hierarchy ?ws) ++ entries_map es"
    using Cons.IH [of ?ws] by blast
  have "e_key e \<notin> dom (entries_map es)"
    using fresh by (simp add: entries_map_def dom_map_of_conv_image_fst image_image)
  then have "RBT.lookup h = RBT.lookup (ws_hierarchy ws) ++ entries_map (e # es)"
    using h(2) by (auto simp: entries_map_def fun_eq_iff map_add_def split: option.splits)
  with h(1) s show ?case by auto
qed

lemma push_children_eq:
  assumes "\<forall>c \<in> set cs. pp_byte_size c < 2 ^ 31 \<and> pp_offset c < 2 ^ 64 \<and> page_ref c \<notin> ws_visited ws"
    and "distinct (map page_ref cs)"
  shows "fold_res push_child_page (map (\<lambda>c. item_entry (ChildItem c)) cs) ws =
    Ok (ws\<lparr>ws_visited := ws_visited ws \<union> page_ref ` set cs,
           ws_pending := map page_ref (rev cs) @ ws_pending ws\<rparr>)"
  using assms
proof (induction cs arbitrary: ws)
  case Nil
  then show ?case by simp
next
  case (Cons c cs)
  have "unat (of_nat (pp_offset c) :: u64) = pp_offset c"
    using Cons.prems(1) by (simp add: unat_of_nat_small)
  moreover have "entry_size_u64 (item_entry (ChildItem c)) m = Ok (pp_byte_size c)" for m
    using Cons.prems(1) sint_of_small_nat [of "pp_byte_size c"]
    by (simp add: entry_size_u64_Ok_iff item_entry_def)
  ultimately have "push_child_page (item_entry (ChildItem c)) ws =
      Ok (ws\<lparr>ws_visited := insert (page_ref c) (ws_visited ws), ws_pending := page_ref c # ws_pending ws\<rparr>)"
    using Cons.prems(1) by (simp add: push_child_page_def item_entry_def page_ref_def Let_def)
  moreover have "page_ref c \<notin> page_ref ` set cs" using Cons.prems(2) by simp
  then have "\<forall>x \<in> set cs. page_ref x \<noteq> page_ref c" by (metis image_eqI)
  ultimately show ?case
    using Cons.IH [of "ws\<lparr>ws_visited := insert (page_ref c) (ws_visited ws),
        ws_pending := page_ref c # ws_pending ws\<rparr>"] Cons.prems
    by auto
qed

section \<open>The walk over a forest\<close>

text \<open>What the reader needs of the pages of a plan.\<close>

definition page_readable :: "u8 list \<Rightarrow> data_ranges \<Rightarrow> page_plan \<Rightarrow> bool" where
  "page_readable f r q \<longleftrightarrow>
     page_ok (page_view q) \<and> sized q \<and> page_at f q \<and>
     (\<forall>e \<in> set (page_entries_of q). validate_hierarchy_entry e (length f) r = Ok ()) \<and>
     (\<forall>e \<in> set (item_points (pp_items q)). \<not> is_child_page e)"

definition keys_apart :: "page_plan \<Rightarrow> page_plan \<Rightarrow> bool" where
  "keys_apart p q \<longleftrightarrow> (\<forall>k. \<not> (under (pp_key p) k \<and> under (pp_key q) k))"

text \<open>
  The pages still to read: readable, at different offsets, with separate key spaces; of the keys
  below a pending page only its own key is taken, by the entry that names it.
\<close>

definition forest_inv ::
  "u8 list \<Rightarrow> data_ranges \<Rightarrow> (voxel_key, entry) rbt \<Rightarrow> (nat \<times> nat) set \<Rightarrow> page_plan list \<Rightarrow> bool" where
  "forest_inv f r h visited ps \<longleftrightarrow>
     (\<forall>q \<in> set (concat (map all_pages ps)). page_readable f r q) \<and>
     distinct (map pp_offset (concat (map all_pages ps))) \<and>
     (\<forall>p \<in> set ps. \<forall>q \<in> set (concat (map all_pages (child_plans (pp_items p)))). page_ref q \<notin> visited) \<and>
     (\<forall>p \<in> set ps. \<forall>k. under (pp_key p) k \<longrightarrow>
        (\<forall>e. RBT.lookup h k = Some e \<longrightarrow> k = pp_key p \<and> is_child_page e)) \<and>
     sorted_wrt keys_apart ps"

definition point_entries :: "(voxel_key, entry) rbt \<Rightarrow> entry set" where
  "point_entries h = {e. \<exists>k. RBT.lookup h k = Some e \<and> \<not> is_child_page e}"

lemma child_item_is_child: "is_child_page (item_entry (ChildItem c))"
  by (simp add: item_entry_def is_child_page_def)

lemma filter_child_entries:
  assumes "\<forall>e \<in> set (item_points items). \<not> is_child_page e"
  shows "filter is_child_page (map item_entry items) = map (\<lambda>c. item_entry (ChildItem c)) (child_plans items)"
  using assms
proof (induction items rule: child_plans.induct)
  case (2 e items)
  then show ?case by (simp add: item_entry_def)
qed (simp_all add: child_item_is_child)

lemma e_key_item_entry: "e_key (item_entry i) = view_key (item_view i)"
  by (simp add: item_entry_def item_view_def view_key_def split: page_item.split)

text \<open>Queueing one page turns its place in the forest over to its child pages.\<close>

lemma all_pages_self: "q \<in> set (all_pages q)"
  by (subst all_pages_eq) simp

lemma all_pages_concat:
  "concat (map all_pages (q # ps)) = q # concat (map all_pages (child_plans (pp_items q))) @ concat (map all_pages ps)"
  by (subst list.map, subst all_pages_eq) simp

lemma in_entries_map:
  "distinct (map e_key es) \<Longrightarrow> entries_map es k = Some e \<longleftrightarrow> e \<in> set es \<and> e_key e = k"
  unfolding entries_map_def by (subst map_of_eq_Some_iff) (auto simp: comp_def)

lemma entries_map_None: "entries_map es k = None \<longleftrightarrow> k \<notin> e_key ` set es"
  by (simp add: entries_map_def map_of_eq_None_iff image_image)

lemma page_keys:
  assumes "page_readable f r q"
  shows "distinct (map e_key (page_entries_of q))"
    and "\<And>e. e \<in> set (page_entries_of q) \<Longrightarrow> under (pp_key q) (e_key e)"
    and "\<And>c. c \<in> set (child_plans (pp_items q)) \<Longrightarrow> under (pp_key q) (pp_key c) \<and> pp_key c \<noteq> pp_key q"
    and "\<And>c e. c \<in> set (child_plans (pp_items q)) \<Longrightarrow> e \<in> set (page_entries_of q) \<Longrightarrow>
      under (pp_key c) (e_key e) \<Longrightarrow> e_key e = pp_key c \<and> is_child_page e"
    and "distinct (map pp_key (child_plans (pp_items q)))"
proof -
  have pok: "page_ok (pp_key q, map item_view (pp_items q))"
    using assms by (simp add: page_readable_def page_view_def)
  have km: "map e_key (page_entries_of q) = map view_key (map item_view (pp_items q))"
    by (simp add: page_entries_of_def e_key_item_entry)
  show d: "distinct (map e_key (page_entries_of q))"
    using pok unfolding km page_ok_def by simp
  have ent: "\<exists>i \<in> set (pp_items q). e = item_entry i" if "e \<in> set (page_entries_of q)" for e
    using that by (auto simp: page_entries_of_def)
  have un: "\<forall>v \<in> set (map item_view (pp_items q)). under (pp_key q) (view_key v)"
    using pok by (simp add: page_ok_def page_key_ok_def)
  show u: "\<And>e. e \<in> set (page_entries_of q) \<Longrightarrow> under (pp_key q) (e_key e)"
    using un ent e_key_item_entry by fastforce
  have civ: "Inr (pp_key c) \<in> set (map item_view (pp_items q))" if "c \<in> set (child_plans (pp_items q))" for c
  proof -
    have "ChildItem c \<in> set (pp_items q)" using that by (simp add: set_child_plans)
    then have "item_view (ChildItem c) \<in> item_view ` set (pp_items q)" by (rule imageI)
    then show ?thesis by (simp add: item_view_def)
  qed
  show "\<And>c. c \<in> set (child_plans (pp_items q)) \<Longrightarrow> under (pp_key q) (pp_key c) \<and> pp_key c \<noteq> pp_key q"
  proof -
    fix c assume "c \<in> set (child_plans (pp_items q))"
    from civ [OF this] pok un show "under (pp_key q) (pp_key c) \<and> pp_key c \<noteq> pp_key q"
      unfolding page_ok_def prod.case view_key_def by fastforce
  qed
  show "\<And>c e. c \<in> set (child_plans (pp_items q)) \<Longrightarrow> e \<in> set (page_entries_of q) \<Longrightarrow>
      under (pp_key c) (e_key e) \<Longrightarrow> e_key e = pp_key c \<and> is_child_page e"
  proof -
    fix c e assume c: "c \<in> set (child_plans (pp_items q))" and e: "e \<in> set (page_entries_of q)"
      and ue: "under (pp_key c) (e_key e)"
    obtain i where i: "i \<in> set (pp_items q)" "e = item_entry i" using ent [OF e] by blast
    have vi: "item_view i \<in> set (map item_view (pp_items q))" using i(1) by simp
    have "item_view i = Inr (pp_key c)"
    proof (rule ccontr)
      assume "item_view i \<noteq> Inr (pp_key c)"
      then have "\<not> under (pp_key c) (view_key (item_view i))"
        using pok civ [OF c] vi unfolding page_ok_def prod.case by blast
      then show False using ue i(2) by (simp add: e_key_item_entry)
    qed
    then obtain c' where "i = ChildItem c'" "pp_key c' = pp_key c"
      by (auto simp: item_view_def split: page_item.splits)
    then show "e_key e = pp_key c \<and> is_child_page e"
      using i(2) child_item_is_child [of c'] by (simp add: e_key_item_entry item_view_def view_key_def)
  qed
  have "distinct (map view_key (map item_view items)) \<Longrightarrow> distinct (map pp_key (child_plans items)) \<and>
      set (map pp_key (child_plans items)) \<subseteq> set (map view_key (map item_view items))" for items
    by (induction items rule: child_plans.induct) (auto simp: item_view_def view_key_def)
  then show "distinct (map pp_key (child_plans (pp_items q)))"
    using pok unfolding page_ok_def by simp
qed

lemma under_own_child:
  "page_readable f r q \<Longrightarrow> c \<in> set (child_plans (pp_items q)) \<Longrightarrow> under (pp_key c) k \<Longrightarrow>
    under (pp_key q) k \<and> k \<noteq> pp_key q"
  using page_keys(3) [of f r q c] under_trans under_level [of "pp_key c" "pp_key q"] under_same_level
  by (metis under_level antisym)

lemma children_apart:
  assumes "page_readable f r q" "c \<in> set (child_plans (pp_items q))" "d \<in> set (child_plans (pp_items q))"
    "pp_key c \<noteq> pp_key d"
  shows "keys_apart c d"
proof -
  have "\<not> under (pp_key a) (pp_key b)"
    if "a \<in> set (child_plans (pp_items q))" "b \<in> set (child_plans (pp_items q))" "pp_key a \<noteq> pp_key b" for a b
  proof
    assume u: "under (pp_key a) (pp_key b)"
    have "ChildItem b \<in> set (pp_items q)" using that(2) by (simp add: set_child_plans)
    then have "item_entry (ChildItem b) \<in> set (page_entries_of q)" by (simp add: page_entries_of_def)
    from page_keys(4) [OF assms(1) that(1) this] u that(3) show False by (simp add: item_entry_def)
  qed
  from this [OF assms(2,3,4)] this [OF assms(3,2)] assms(4) show ?thesis
    unfolding keys_apart_def using not_both_under by metis
qed

lemma sorted_wrt_children:
  assumes "distinct (map pp_key cs)"
    and "\<And>c d. c \<in> set cs \<Longrightarrow> d \<in> set cs \<Longrightarrow> pp_key c \<noteq> pp_key d \<Longrightarrow> keys_apart c d"
  shows "sorted_wrt keys_apart (rev cs)"
  using assms
proof (induction cs)
  case Nil
  then show ?case by simp
next
  case (Cons c cs)
  have "keys_apart d c" if "d \<in> set cs" for d
  proof -
    have "pp_key d \<noteq> pp_key c" using Cons.prems(1) that by (metis distinct.simps(2) image_eqI list.set_map list.simps(9))
    then show ?thesis using Cons.prems(2) [of d c] that by simp
  qed
  then show ?case using Cons by (simp add: sorted_wrt_append)
qed

lemma mset_all_pages_rev:
  "mset (concat (map all_pages (rev cs @ ps))) = mset (concat (map all_pages cs) @ concat (map all_pages ps))"
  by (induction cs) simp_all

lemma queue_page_step:
  assumes inv: "forest_inv f r (ws_hierarchy ws) (ws_visited ws) (q # ps)"
    and pend: "ws_pending ws = map page_ref ps" and len: "length f < 2 ^ 64"
  obtains ws' where
    "queue_hierarchy_page \<lparr>page_entries = page_entries_of q\<rparr> (length f) r ws = Ok ws'"
    "forest_inv f r (ws_hierarchy ws') (ws_visited ws') (rev (child_plans (pp_items q)) @ ps)"
    "ws_pending ws' = map page_ref (rev (child_plans (pp_items q)) @ ps)"
    "point_entries (ws_hierarchy ws') = point_entries (ws_hierarchy ws) \<union> set (item_points (pp_items q))"
proof -
  let ?es = "page_entries_of q" and ?cs = "child_plans (pp_items q)"
  let ?h = "ws_hierarchy ws"
  have qr: "page_readable f r q"
    using inv unfolding forest_inv_def all_pages_concat by simp
  note pk = page_keys [OF qr]
  have own: "under (pp_key q) k \<Longrightarrow> RBT.lookup ?h k = Some e \<Longrightarrow> k = pp_key q \<and> is_child_page e" for k e
    using inv unfolding forest_inv_def by simp
  have pts: "\<forall>e \<in> set (item_points (pp_items q)). \<not> is_child_page e" using qr by (simp add: page_readable_def)
  have childent: "\<exists>c \<in> set ?cs. e = item_entry (ChildItem c)" if e: "e \<in> set ?es" "is_child_page e" for e
  proof -
    have "e \<in> set (filter is_child_page ?es)" using e by simp
    then show ?thesis unfolding page_entries_of_def filter_child_entries [OF pts] by auto
  qed
  have room: "is_child_page p \<and> \<not> is_child_page e"
    if e: "e \<in> set ?es" and l: "RBT.lookup ?h (e_key e) = Some p" for e p
  proof -
    have k: "e_key e = pp_key q" "is_child_page p" using own [OF pk(2) [OF e] l] by blast+
    have "\<not> is_child_page e"
    proof
      assume "is_child_page e"
      then obtain c where "c \<in> set ?cs" "e = item_entry (ChildItem c)" using childent [OF e] by blast
      then show False using pk(3) k(1) by (simp add: item_entry_def)
    qed
    with k show ?thesis by simp
  qed
  have val: "\<forall>e \<in> set ?es. validate_hierarchy_entry e (length f) r = Ok ()"
    using qr by (simp add: page_readable_def)
  obtain h where h: "fold_res (insert_hierarchy_entry (length f) r) ?es ws = Ok (ws\<lparr>ws_hierarchy := h\<rparr>)"
    and lh: "RBT.lookup h = RBT.lookup ?h ++ entries_map ?es"
    using insert_entries_eq [OF pk(1) val] room by blast
  have lk: "RBT.lookup h k = Some e \<longleftrightarrow>
      e \<in> set ?es \<and> e_key e = k \<or> k \<notin> e_key ` set ?es \<and> RBT.lookup ?h k = Some e" for k e
  proof (cases "entries_map ?es k")
    case None
    then show ?thesis using entries_map_None [of ?es k] by (auto simp: lh map_add_def)
  next
    case (Some x)
    then have "x \<in> set ?es" "e_key x = k" using in_entries_map [OF pk(1)] by blast+
    moreover have "e \<in> set ?es \<and> e_key e = k \<longleftrightarrow> x = e"
      using in_entries_map [OF pk(1), of k e] Some by auto
    ultimately show ?thesis using Some by (auto simp: lh map_add_def)
  qed
  have sub: "concat (map all_pages (q # ps)) = q # concat (map all_pages ?cs) @ concat (map all_pages ps)"
    by (rule all_pages_concat)
  have cfacts: "pp_byte_size c < 2 ^ 31 \<and> pp_offset c < 2 ^ 64 \<and> page_ref c \<notin> ws_visited ws"
    if c: "c \<in> set ?cs" for c
  proof -
    have ca: "c \<in> set (concat (map all_pages ?cs))" using c all_pages_self by auto
    then have cr: "page_readable f r c" using inv unfolding forest_inv_def sub by auto
    have "length (pp_items c) \<le> 4096"
      using cr by (simp add: page_readable_def page_ok_def page_view_def HIERARCHY_PAGE_MAX_ENTRIES_def)
    then have "pp_byte_size c < 2 ^ 31" using cr by (simp add: page_readable_def sized_def)
    moreover have "pp_offset c < 2 ^ 64" using cr len by (simp add: page_readable_def page_at_def)
    moreover have "page_ref c \<notin> ws_visited ws" using inv ca unfolding forest_inv_def by auto
    ultimately show ?thesis by blast
  qed
  have off: "distinct (map pp_offset (concat (map all_pages (q # ps))))"
    using inv unfolding forest_inv_def by blast
  have roots: "distinct (map pp_offset cs) \<and> set (map pp_offset cs) \<subseteq> set (map pp_offset (concat (map all_pages cs)))"
    if "distinct (map pp_offset (concat (map all_pages cs)))" for cs
    using that
  proof (induction cs)
    case (Cons c cs)
    have "pp_offset c \<in> set (map pp_offset (all_pages c))" using all_pages_self by simp
    with Cons show ?case by auto
  qed simp
  have dref: "distinct (map page_ref ?cs)"
  proof -
    have "distinct (map pp_offset ?cs)" using roots [of ?cs] off unfolding sub by simp
    then have "distinct (map (fst \<circ> page_ref) ?cs)" by (simp add: page_ref_def comp_def)
    then show ?thesis by (simp add: distinct_map comp_inj_on_iff inj_on_imageI2 flip: map_map)
  qed
  define ws' where "ws' = ws\<lparr>ws_hierarchy := h, ws_visited := ws_visited ws \<union> page_ref ` set ?cs,
      ws_pending := map page_ref (rev ?cs) @ ws_pending ws\<rparr>"
  have "fold_res push_child_page (filter is_child_page ?es) (ws\<lparr>ws_hierarchy := h\<rparr>) = Ok ws'"
    unfolding page_entries_of_def filter_child_entries [OF pts] ws'_def
    by (subst push_children_eq) (use cfacts dref in simp_all)
  then have q: "queue_hierarchy_page \<lparr>page_entries = ?es\<rparr> (length f) r ws = Ok ws'"
    by (simp add: queue_hierarchy_page_def h)
  have pend': "ws_pending ws' = map page_ref (rev ?cs @ ps)" by (simp add: ws'_def pend)
  have points: "point_entries h = point_entries ?h \<union> set (item_points (pp_items q))"
  proof -
    have ip: "e \<in> set (item_points (pp_items q)) \<longleftrightarrow> e \<in> set ?es \<and> \<not> is_child_page e" for e
    proof
      assume e: "e \<in> set (item_points (pp_items q))"
      then have "PointItem e \<in> set (pp_items q)" by (simp add: set_item_points)
      then have "item_entry (PointItem e) \<in> set ?es" by (simp add: page_entries_of_def)
      then show "e \<in> set ?es \<and> \<not> is_child_page e" using e pts by (simp add: item_entry_def)
    next
      assume e: "e \<in> set ?es \<and> \<not> is_child_page e"
      then obtain i where i: "i \<in> set (pp_items q)" "e = item_entry i" by (auto simp: page_entries_of_def)
      show "e \<in> set (item_points (pp_items q))"
      proof (cases i)
        case (PointItem x)
        with i show ?thesis by (simp add: item_entry_def set_item_points)
      next
        case (ChildItem c)
        with i e child_item_is_child [of c] show ?thesis by simp
      qed
    qed
    show ?thesis
    proof (intro set_eqI iffI)
      fix e assume "e \<in> point_entries h"
      then obtain k where "RBT.lookup h k = Some e" "\<not> is_child_page e" by (auto simp: point_entries_def)
      then show "e \<in> point_entries ?h \<union> set (item_points (pp_items q))"
        unfolding lk using ip by (auto simp: point_entries_def)
    next
      fix e assume "e \<in> point_entries ?h \<union> set (item_points (pp_items q))"
      then show "e \<in> point_entries h"
      proof
        assume "e \<in> set (item_points (pp_items q))"
        then show ?thesis unfolding point_entries_def mem_Collect_eq lk using ip by blast
      next
        assume "e \<in> point_entries ?h"
        then obtain k where k: "RBT.lookup ?h k = Some e" "\<not> is_child_page e" by (auto simp: point_entries_def)
        have "k \<notin> e_key ` set ?es" using pk(2) own k by blast
        with k show ?thesis unfolding point_entries_def mem_Collect_eq lk by blast
      qed
    qed
  qed
  have inv': "forest_inv f r h (ws_visited ws \<union> page_ref ` set ?cs) (rev ?cs @ ps)"
    unfolding forest_inv_def
  proof (intro conjI)
    have s: "set (concat (map all_pages (rev ?cs @ ps))) =
        set (concat (map all_pages ?cs)) \<union> set (concat (map all_pages ps))" by auto
    show "\<forall>q \<in> set (concat (map all_pages (rev ?cs @ ps))). page_readable f r q"
      using inv unfolding forest_inv_def sub s by auto
    have d2: "distinct (map pp_offset (concat (map all_pages ?cs) @ concat (map all_pages ps)))"
      using off unfolding sub by simp
    show "distinct (map pp_offset (concat (map all_pages (rev ?cs @ ps))))"
    proof -
      have "mset (map pp_offset (concat (map all_pages (rev ?cs @ ps)))) =
          mset (map pp_offset (concat (map all_pages ?cs) @ concat (map all_pages ps)))"
        unfolding mset_map mset_all_pages_rev ..
      then show ?thesis using d2 mset_eq_imp_distinct_iff by blast
    qed
    show "sorted_wrt keys_apart (rev ?cs @ ps)"
    proof -
      have "sorted_wrt keys_apart (rev ?cs)"
        by (rule sorted_wrt_children [OF pk(5)]) (rule children_apart [OF qr])
      moreover have "keys_apart c p" if "c \<in> set ?cs" "p \<in> set ps" for c p
      proof -
        have "keys_apart q p" using inv that(2) unfolding forest_inv_def by simp
        then show ?thesis using under_own_child [OF qr that(1)] unfolding keys_apart_def by blast
      qed
      moreover have "sorted_wrt keys_apart ps" using inv unfolding forest_inv_def by simp
      ultimately show ?thesis by (simp add: sorted_wrt_append)
    qed
    show "\<forall>p \<in> set (rev ?cs @ ps). \<forall>k. under (pp_key p) k \<longrightarrow>
        (\<forall>e. RBT.lookup h k = Some e \<longrightarrow> k = pp_key p \<and> is_child_page e)"
    proof (intro ballI allI impI)
      fix p k e assume p: "p \<in> set (rev ?cs @ ps)" and u: "under (pp_key p) k" and l: "RBT.lookup h k = Some e"
      show "k = pp_key p \<and> is_child_page e"
      proof (cases "p \<in> set ?cs")
        case True
        have uq: "under (pp_key q) k \<and> k \<noteq> pp_key q" by (rule under_own_child [OF qr True u])
        from l lk own uq have "e \<in> set ?es" "e_key e = k" by blast+
        with pk(4) [OF True] u show ?thesis by blast
      next
        case False
        then have pp: "p \<in> set ps" using p by simp
        have "keys_apart q p" using inv pp unfolding forest_inv_def by simp
        then have "\<not> under (pp_key q) k" using u unfolding keys_apart_def by blast
        then have "k \<noteq> e_key e'" if "e' \<in> set ?es" for e' using pk(2) [OF that] by metis
        then have lh: "RBT.lookup ?h k = Some e" using l unfolding lk by metis
        have "\<forall>p \<in> set ps. \<forall>k. under (pp_key p) k \<longrightarrow>
            (\<forall>e. RBT.lookup ?h k = Some e \<longrightarrow> k = pp_key p \<and> is_child_page e)"
          using inv unfolding forest_inv_def by simp
        then show ?thesis using pp u lh by blast
      qed
    qed
    show "\<forall>p \<in> set (rev ?cs @ ps). \<forall>q' \<in> set (concat (map all_pages (child_plans (pp_items p)))).
        page_ref q' \<notin> ws_visited ws \<union> page_ref ` set ?cs"
    proof (intro ballI)
      fix p q' assume p: "p \<in> set (rev ?cs @ ps)" and q': "q' \<in> set (concat (map all_pages (child_plans (pp_items p))))"
      have sp: "all_pages p = p # concat (map all_pages (child_plans (pp_items p)))" by (rule all_pages_eq)
      have q'p: "q' \<in> set (all_pages p)" using q' unfolding sp by simp
      have "page_ref q' \<notin> ws_visited ws"
      proof (cases "p \<in> set ?cs")
        case True
        then have "q' \<in> set (concat (map all_pages ?cs))" using q'p by auto
        then show ?thesis using inv unfolding forest_inv_def by auto
      next
        case False
        then have "p \<in> set ps" using p by simp
        then show ?thesis using inv q' unfolding forest_inv_def by auto
      qed
      moreover have "page_ref q' \<noteq> page_ref c" if c: "c \<in> set ?cs" for c
      proof
        assume eq: "page_ref q' = page_ref c"
        then have oeq: "pp_offset q' = pp_offset c" by (simp add: page_ref_def)
        have inj: "inj_on pp_offset (set (concat (map all_pages ?cs) @ concat (map all_pages ps)))"
          using d2 unfolding distinct_map by blast
        have cin: "c \<in> set (concat (map all_pages ?cs))" using c all_pages_self by auto
        have "q' \<in> set (concat (map all_pages ?cs) @ concat (map all_pages ps))" using p q'p by auto
        then have same: "q' = c" using inj cin oeq by (auto dest: inj_onD)
        have "distinct (concat (map all_pages ?cs) @ concat (map all_pages ps))"
          using d2 by (metis distinct_map)
        then have dd: "distinct (concat (map all_pages ?cs))" "distinct (concat (map all_pages ps))"
          "set (concat (map all_pages ?cs)) \<inter> set (concat (map all_pages ps)) = {}" by simp_all
        show False
        proof (cases "p \<in> set ?cs")
          case True
          then obtain xs ys where xy: "?cs = xs @ p # ys" by (meson split_list)
          have dp: "distinct (all_pages p)"
            "set (all_pages p) \<inter> set (concat (map all_pages xs)) = {}"
            "set (all_pages p) \<inter> set (concat (map all_pages ys)) = {}"
            using dd(1) unfolding xy by auto
          have "c \<noteq> p" using dp(1) q' same unfolding sp by auto
          then have "c \<in> set xs \<union> set ys" using c xy by auto
          then have "c \<in> set (concat (map all_pages xs)) \<union> set (concat (map all_pages ys))"
            using all_pages_self by auto
          then show False using dp(2,3) q'p same by blast
        next
          case False
          then have "q' \<in> set (concat (map all_pages ps))" using p q'p by auto
          then show False using dd(3) cin same by blast
        qed
      qed
      ultimately show "page_ref q' \<notin> ws_visited ws \<union> page_ref ` set ?cs" by blast
    qed
  qed
  show ?thesis
    by (rule that [OF q]) (use inv' pend' points in \<open>simp_all add: ws'_def\<close>)
qed

lemma pages_of_children:
  "length (concat (map all_pages (rev cs @ ps))) = length (concat (map all_pages cs)) + length (concat (map all_pages ps))"
  "pages_size (concat (map all_pages (rev cs @ ps))) = pages_size (concat (map all_pages cs)) + pages_size (concat (map all_pages ps))"
  by (induction cs) simp_all

lemma drain_forest:
  assumes "forest_inv f r (ws_hierarchy ws) (ws_visited ws) ps" "ws_pending ws = map page_ref ps"
    and "total_bytes limits + pages_size (concat (map all_pages ps)) \<le> MAX_HIERARCHY_TOTAL_BYTES"
    and "length f < 2 ^ 64"
  shows "\<exists>ws' limits' pos'. drain_pages (length f) r ws limits (fcur f pos) = Ok ((ws', limits'), fcur f pos') \<and>
    point_entries (ws_hierarchy ws') = point_entries (ws_hierarchy ws) \<union> set (concat (map plan_points ps))"
  using assms
proof (induction "length (concat (map all_pages ps))" arbitrary: ps ws limits pos rule: less_induct)
  case less
  show ?case
  proof (cases ps)
    case Nil
    then have "drain_pages (length f) r ws limits (fcur f pos) = Ok ((ws, limits), fcur f pos)"
      using less.prems(2) by (simp add: drain_pages.simps)
    with Nil show ?thesis by auto
  next
    case (Cons q qs)
    let ?ws = "ws\<lparr>ws_pending := map page_ref qs\<rparr>" and ?cs = "child_plans (pp_items q)"
    let ?limits = "limits\<lparr>total_bytes := total_bytes limits + pp_byte_size q\<rparr>"
    have sub: "concat (map all_pages ps) = q # concat (map all_pages ?cs) @ concat (map all_pages qs)"
      unfolding Cons by (rule all_pages_concat)
    have qr: "page_readable f r q" using less.prems(1) unfolding forest_inv_def sub by simp
    then have q: "page_at f q" "sized q" "pp_items q \<noteq> []" "length (pp_items q) \<le> 4096"
      "\<forall>e \<in> set (page_entries_of q). entry_validate e = Ok ()"
      by (auto simp: page_readable_def page_ok_def page_view_def HIERARCHY_PAGE_MAX_ENTRIES_def
          validate_hierarchy_entry_Ok_iff)
    have size: "total_bytes limits + pp_byte_size q \<le> MAX_HIERARCHY_TOTAL_BYTES"
      using less.prems(3) unfolding sub by simp
    note rd = read_page_at [OF q size less.prems(4)]
    obtain ws1 where ws1: "queue_hierarchy_page \<lparr>page_entries = page_entries_of q\<rparr> (length f) r ?ws = Ok ws1"
      "forest_inv f r (ws_hierarchy ws1) (ws_visited ws1) (rev ?cs @ qs)"
      "ws_pending ws1 = map page_ref (rev ?cs @ qs)"
      "point_entries (ws_hierarchy ws1) = point_entries (ws_hierarchy ?ws) \<union> set (item_points (pp_items q))"
      by (rule queue_page_step [of f r ?ws q qs]) (use less.prems Cons in auto)
    have smaller: "length (concat (map all_pages (rev ?cs @ qs))) < length (concat (map all_pages ps))"
      unfolding sub pages_of_children by simp
    have fits: "total_bytes ?limits + pages_size (concat (map all_pages (rev ?cs @ qs))) \<le> MAX_HIERARCHY_TOTAL_BYTES"
      using less.prems(3) unfolding sub pages_of_children by simp
    obtain ws' limits' pos' where d: "drain_pages (length f) r ws1 ?limits (fcur f (pp_offset q + pp_byte_size q)) =
        Ok ((ws', limits'), fcur f pos')"
      "point_entries (ws_hierarchy ws') = point_entries (ws_hierarchy ws1) \<union> set (concat (map plan_points (rev ?cs @ qs)))"
      using less.hyps [OF smaller ws1(2,3) fits less.prems(4)] by blast
    have "drain_pages (length f) r ws limits (fcur f pos) = Ok ((ws', limits'), fcur f pos')"
      using less.prems(2) rd ws1(1) d(1)
      by (subst drain_pages.simps) (simp add: Cons page_ref_def)
    moreover have "point_entries (ws_hierarchy ws') =
        point_entries (ws_hierarchy ws) \<union> set (concat (map plan_points ps))"
      unfolding d(2) ws1(4) Cons by (auto simp: plan_points_eq [of q])
    ultimately show ?thesis by blast
  qed
qed

section \<open>The whole walk\<close>

lemma forest_inv_root:
  assumes "\<forall>q \<in> set (all_pages p). page_readable f r q" "distinct (map pp_offset (all_pages p))"
  shows "forest_inv f r RBT.empty {page_ref p} [p]"
proof -
  have sp: "all_pages p = p # concat (map all_pages (child_plans (pp_items p)))" by (rule all_pages_eq)
  have "page_ref q \<noteq> page_ref p" if "q \<in> set (concat (map all_pages (child_plans (pp_items p))))" for q
  proof
    assume "page_ref q = page_ref p"
    then have "pp_offset q = pp_offset p" by (simp add: page_ref_def)
    moreover have "pp_offset p \<notin> pp_offset ` set (concat (map all_pages (child_plans (pp_items p))))"
      using assms(2) unfolding sp list.map distinct.simps set_map by blast
    ultimately show False using that by (metis image_eqI)
  qed
  then show ?thesis using assms by (simp add: forest_inv_def)
qed

text \<open>
  The walk that starts at the root page of a plan held by the file: its non-child entries are the
  point entries of the plan.
\<close>

theorem walk_plan:
  assumes "\<forall>q \<in> set (all_pages p). page_readable f r q" "distinct (map pp_offset (all_pages p))"
    and "pages_size (all_pages p) \<le> MAX_HIERARCHY_TOTAL_BYTES" "length f < 2 ^ 64"
    and "limits = \<lparr>total_bytes = pp_byte_size p\<rparr>"
  shows "\<exists>ws' limits' pos'. insert_hierarchy_pages \<lparr>page_entries = page_entries_of p\<rparr> (length f) r
      \<lparr>ws_hierarchy = RBT.empty, ws_visited = {page_ref p}, ws_pending = []\<rparr> limits (fcur f pos) =
      Ok ((ws', limits'), fcur f pos') \<and>
    point_entries (ws_hierarchy ws') = set (plan_points p)"
proof -
  let ?ws = "\<lparr>ws_hierarchy = RBT.empty, ws_visited = {page_ref p}, ws_pending = []\<rparr>"
  let ?cs = "child_plans (pp_items p)"
  have inv: "forest_inv f r (ws_hierarchy ?ws) (ws_visited ?ws) [p]"
    using forest_inv_root [OF assms(1,2)] by simp
  obtain ws1 where ws1: "queue_hierarchy_page \<lparr>page_entries = page_entries_of p\<rparr> (length f) r ?ws = Ok ws1"
      "forest_inv f r (ws_hierarchy ws1) (ws_visited ws1) (rev ?cs @ [])"
      "ws_pending ws1 = map page_ref (rev ?cs @ [])"
      "point_entries (ws_hierarchy ws1) = point_entries (ws_hierarchy ?ws) \<union> set (item_points (pp_items p))"
    by (rule queue_page_step [OF inv _ assms(4)]) auto
  have sp: "all_pages p = p # concat (map all_pages ?cs)" by (rule all_pages_eq)
  have fits: "total_bytes limits + pages_size (concat (map all_pages (rev ?cs @ []))) \<le> MAX_HIERARCHY_TOTAL_BYTES"
    using assms(3,5) unfolding sp pages_of_children by simp
  obtain ws' limits' pos' where d: "drain_pages (length f) r ws1 limits (fcur f pos) = Ok ((ws', limits'), fcur f pos')"
      "point_entries (ws_hierarchy ws') = point_entries (ws_hierarchy ws1) \<union> set (concat (map plan_points (rev ?cs @ [])))"
    using drain_forest [OF ws1(2,3) fits assms(4)] by blast
  have "point_entries (ws_hierarchy ws') = set (plan_points p)"
    unfolding d(2) ws1(4) by (auto simp: plan_points_eq [of p] point_entries_def)
  then show ?thesis
    using ws1(1) d(1) by (auto simp: insert_hierarchy_pages_def)
qed

section \<open>From entries to entries\<close>

lemma contiguous_bounds:
  "contiguous off ps \<Longrightarrow> q \<in> set ps \<Longrightarrow>
    off \<le> pp_offset q \<and> pp_offset q + pp_byte_size q \<le> off + pages_size ps"
proof (induction ps arbitrary: off)
  case (Cons p ps)
  then show ?case
  proof (cases "q = p")
    case False
    with Cons.prems have "q \<in> set ps" "contiguous (off + pp_byte_size p) ps" by auto
    from Cons.IH [OF this(2,1)] show ?thesis by simp
  qed simp
qed simp

lemma contiguous_distinct:
  "contiguous off ps \<Longrightarrow> \<forall>q \<in> set ps. 0 < pp_byte_size q \<Longrightarrow> distinct (map pp_offset ps)"
proof (induction ps arbitrary: off)
  case (Cons p ps)
  have "off < pp_offset q" if "q \<in> set ps" for q
    using contiguous_bounds [of "off + pp_byte_size p" ps q] Cons.prems that by simp
  then have "off \<notin> pp_offset ` set ps" by auto
  then show ?case using Cons by auto
qed simp

lemma children_in_pages: "c \<in> set (child_plans (pp_items q)) \<Longrightarrow> q \<in> set (all_pages p) \<Longrightarrow> c \<in> set (all_pages p)"
proof -
  have a: "\<And>q. q \<in> set (all_pages p) \<Longrightarrow> c \<in> set (child_plans (pp_items q)) \<Longrightarrow> c \<in> set (all_pages p)"
    and "\<And>q. q \<in> set (item_pages items) \<Longrightarrow> c \<in> set (child_plans (pp_items q)) \<Longrightarrow> c \<in> set (item_pages items)"
    for p items c
  proof (induction p and items rule: all_pages_item_pages.induct)
    case (1 key items off byte_size)
    have "c \<in> set (item_pages items)" if "c \<in> set (child_plans items)"
      using that all_pages_self by (auto simp: item_pages_eq)
    with 1 show ?case by auto
  qed auto
  assume "c \<in> set (child_plans (pp_items q))" "q \<in> set (all_pages p)"
  then show ?thesis using a by blast
qed

lemma views_points:
  "map page_view ps = map page_view qs \<Longrightarrow>
    concat (map (\<lambda>q. item_points (pp_items q)) ps) = concat (map (\<lambda>q. item_points (pp_items q)) qs)"
proof -
  define pts where "pts = (\<lambda>(k :: voxel_key, vs). concat (map (\<lambda>v. case v of Inl e \<Rightarrow> [e] | Inr (_ :: voxel_key) \<Rightarrow> ([] :: entry list)) vs))"
  have "concat (map (\<lambda>v. case v of Inl e \<Rightarrow> [e] | Inr _ \<Rightarrow> []) (map item_view items)) = item_points items" for items
    by (induction items rule: item_points.induct) (simp_all add: item_view_def)
  then have "item_points (pp_items q) = pts (page_view q)" for q
    by (simp add: pts_def page_view_def del: map_map)
  then have "concat (map (\<lambda>q. item_points (pp_items q)) rs) = concat (map pts (map page_view rs))" for rs
    by (simp add: comp_def)
  then show "map page_view ps = map page_view qs \<Longrightarrow> ?thesis" by metis
qed

text \<open>The pages of a plan after the assignment of offsets.\<close>

lemma assigned_pages:
  assumes plan: "plan_ok p" "assign_hierarchy_page_offsets p off = Ok (p', hend)"
  shows "\<forall>q \<in> set (all_pages p'). page_ok (page_view q) \<and> sized q \<and> 0 < pp_byte_size q \<and>
      pp_byte_size q \<le> 131072 \<and> off \<le> pp_offset q \<and> pp_offset q + pp_byte_size q \<le> hend"
    and "plan_points p' = plan_points p" and "pp_key p' = pp_key p"
    and "contiguous off (all_pages p')" and "hend = off + pages_size (all_pages p')"
    and "list_all sized (all_pages p')" and "hend < 2 ^ 64" and "pp_offset p' = off"
proof -
  note pr = assign_offsets_props(1) [OF plan(2)]
  show "contiguous off (all_pages p')" "hend = off + pages_size (all_pages p')"
    "list_all sized (all_pages p')" "hend < 2 ^ 64" "pp_key p' = pp_key p" using pr by simp_all
  then show "pp_offset p' = off" by (simp add: all_pages_eq [of p'])
  show "plan_points p' = plan_points p"
    unfolding plan_points_def using views_points pr by blast
  show "\<forall>q \<in> set (all_pages p'). page_ok (page_view q) \<and> sized q \<and> 0 < pp_byte_size q \<and>
      pp_byte_size q \<le> 131072 \<and> off \<le> pp_offset q \<and> pp_offset q + pp_byte_size q \<le> hend"
  proof
    fix q assume q: "q \<in> set (all_pages p')"
    then have "page_view q \<in> set (map page_view (all_pages p'))" by simp
    then have "page_view q \<in> set (map page_view (all_pages p))" using pr by simp
    then have ok: "page_ok (page_view q)" using plan(1) by (auto simp: plan_ok_def)
    have sz: "sized q" using pr q by (simp add: list_all_iff)
    have "0 < length (pp_items q)" "length (pp_items q) \<le> 4096"
      using ok by (simp_all add: page_ok_def page_view_def HIERARCHY_PAGE_MAX_ENTRIES_def)
    then show "page_ok (page_view q) \<and> sized q \<and> 0 < pp_byte_size q \<and> pp_byte_size q \<le> 131072 \<and>
        off \<le> pp_offset q \<and> pp_offset q + pp_byte_size q \<le> hend"
      using ok sz contiguous_bounds [OF _ q] pr by (simp add: sized_def)
  qed
qed

lemma child_entry_valid:
  assumes "page_key_ok key (pp_key c)" "0 < pp_byte_size c" "pp_byte_size c \<le> 131072"
  shows "entry_validate (item_entry (ChildItem c)) = Ok ()"
proof -
  have "sint (of_nat (pp_byte_size c) :: i32) = int (pp_byte_size c)"
    using assms(3) by (intro sint_of_small_nat) simp
  then show ?thesis using assms by (simp add: entry_validate_Ok_iff item_entry_def page_key_ok_def)
qed

lemma assigned_entries:
  assumes plan: "plan_ok p" "assign_hierarchy_page_offsets p off = Ok (p', hend)"
    and q: "q \<in> set (all_pages p')" and e: "e \<in> set (page_entries_of q)"
  shows "e \<in> set (plan_points p) \<or>
    (entry_validate e = Ok () \<and> is_child_page e \<and> off \<le> entry_lo e \<and> entry_hi e \<le> hend)"
proof -
  obtain i where i: "i \<in> set (pp_items q)" "e = item_entry i" using e by (auto simp: page_entries_of_def)
  show ?thesis
  proof (cases i)
    case (PointItem x)
    then have "e \<in> set (item_points (pp_items q))" using i by (simp add: set_item_points item_entry_def)
    then have "e \<in> set (plan_points p')" using q by (auto simp: plan_points_def)
    then show ?thesis using assigned_pages(2) [OF plan] by simp
  next
    case (ChildItem c)
    then have c: "c \<in> set (child_plans (pp_items q))" using i by (simp add: set_child_plans)
    have cp: "c \<in> set (all_pages p')" by (rule children_in_pages [OF c q])
    note pc = assigned_pages(1) [OF plan, rule_format, OF cp]
    have "page_ok (pp_key q, map item_view (pp_items q))"
      using assigned_pages(1) [OF plan] q by (simp add: page_view_def)
    moreover have "Inr (pp_key c) \<in> set (map item_view (pp_items q))"
      using i(1) ChildItem by (force simp: item_view_def)
    ultimately have "page_key_ok (pp_key q) (pp_key c)"
      unfolding page_ok_def prod.case view_key_def by fastforce
    then have "entry_validate e = Ok ()" using child_entry_valid pc i(2) ChildItem by simp
    moreover have "entry_lo e = pp_offset c"
      using i(2) ChildItem pc assigned_pages(7) [OF plan]
      by (simp add: entry_lo_def item_entry_def unat_of_nat_small)
    moreover have "entry_hi e = pp_offset c + pp_byte_size c"
    proof -
      have "sint (of_nat (pp_byte_size c) :: i32) = int (pp_byte_size c)"
        using pc by (intro sint_of_small_nat) simp
      then show ?thesis using calculation(2) i(2) ChildItem by (simp add: entry_hi_def entry_lo_def item_entry_def)
    qed
    ultimately show ?thesis using i(2) ChildItem child_item_is_child pc by simp
  qed
qed

lemma hierarchy_values_unique:
  assumes "\<And>k e. RBT.lookup h k = Some e \<Longrightarrow> e_key e = k" "sorted_wrt (<) (map e_key es)"
    "point_entries h = set es"
  shows "filter (\<lambda>e. \<not> is_child_page e) (hierarchy_values h) = es"
proof -
  let ?vs = "filter (\<lambda>e. \<not> is_child_page e) (hierarchy_values h)"
  have s: "set ?vs = set es" using assms(3) by (auto simp: set_hierarchy_values point_entries_def)
  have "sorted_wrt (\<lambda>a b. e_key a < e_key b) (hierarchy_values h)"
    using hierarchy_values_sorted [OF assms(1)] by (simp add: sorted_wrt_map)
  then have v: "sorted_wrt (\<lambda>a b. e_key a < e_key b) ?vs" by (rule sorted_wrt_filter)
  have e: "sorted_wrt (\<lambda>a b. e_key a < e_key b) es" using assms(2) by (simp add: sorted_wrt_map)
  have "xs = ys" if "set xs = set ys" "sorted_wrt (\<lambda>a b. e_key a < e_key b) xs"
    "sorted_wrt (\<lambda>a b. e_key a < e_key b) ys" for xs ys
    using that
  proof (induction xs arbitrary: ys)
    case Nil
    then show ?case by simp
  next
    case (Cons x xs)
    then obtain y ys' where ys: "ys = y # ys'" by (cases ys) auto
    have "x = y"
    proof (rule ccontr)
      assume "x \<noteq> y"
      then have "y \<in> set xs" "x \<in> set ys'" using Cons.prems(1) ys by auto
      then have "e_key x < e_key y" "e_key y < e_key x" using Cons.prems(2,3) ys by auto
      then show False by simp
    qed
    moreover have "x \<notin> set xs" "y \<notin> set ys'" using Cons.prems(2,3) ys by auto
    ultimately have "set xs = set ys'" using Cons.prems(1) ys by auto
    then show ?case using Cons ys \<open>x = y\<close> by simp
  qed
  from this [OF s v e] show ?thesis .
qed

text \<open>
  The hierarchy entries a writer may hand over: sorted by key, at octree levels, and accepted by the
  reader for these ranges.
\<close>

definition writer_entries_ok :: "entry list \<Rightarrow> bool" where
  "writer_entries_ok es \<longleftrightarrow>
     es \<noteq> [] \<and> sorted_wrt (<) (map e_key es) \<and>
     (\<forall>e \<in> set es. entry_validate e = Ok () \<and> \<not> is_child_page e \<and> sint (vk_level (e_key e)) \<le> 30)"

lemma writer_entries_input:
  assumes "writer_entries_ok es"
  shows "plan_input_ok es vk_root"
proof -
  have "distinct (map e_key es)"
    using assms strict_sorted_iff by (auto simp: writer_entries_ok_def)
  then show ?thesis
    using assms under_root by (auto simp: plan_input_ok_def writer_entries_ok_def page_key_ok_def
        entry_validate_Ok_iff)
qed

text \<open>Pages of valid entries that have got their offsets can be written.\<close>

lemma assigned_writable:
  assumes plan: "plan_ok p" "assign_hierarchy_page_offsets p off = Ok (p', hend)"
    and valid: "\<forall>e \<in> set (plan_points p). entry_validate e = Ok ()"
  shows "list_all page_writable (all_pages p')"
  unfolding list_all_iff page_writable_def
proof (intro ballI conjI)
  fix q e assume "q \<in> set (all_pages p')" "e \<in> set (page_entries_of q)"
  from assigned_entries [OF plan this] show "entry_validate e = Ok ()" using valid by blast
next
  fix q c assume "q \<in> set (all_pages p')" "c \<in> set (child_plans (pp_items q))"
  then have "c \<in> set (all_pages p')" by (blast intro: children_in_pages)
  then have "pp_byte_size c \<le> 131072" using assigned_pages(1) [OF plan] by blast
  then show "pp_byte_size c < 2 ^ 31" by simp
qed

text \<open>Planning, assigning offsets and writing succeed.\<close>

lemma pages_written:
  assumes es: "writer_entries_ok es"
    and room: "\<And>p. plan_hierarchy_pages es vk_root = Ok p \<Longrightarrow>
      length out + 32 * entry_total (all_pages p) < 2 ^ 64"
  obtains p p' hend where
    "plan_hierarchy_pages es vk_root = Ok p" "plan_ok p" "mset (plan_points p) = mset es"
    "assign_hierarchy_page_offsets p (length out) = Ok (p', hend)"
    "write_hierarchy_page_tree p' out = Ok (out @ concat (map page_bytes (all_pages p')))"
proof -
  obtain p where p: "plan_hierarchy_pages es vk_root = Ok p" "plan_ok p" "mset (plan_points p) = mset es"
    using plan_exists [OF writer_entries_input [OF es]] by blast
  obtain p' hend where a: "assign_hierarchy_page_offsets p (length out) = Ok (p', hend)"
    using assign_offsets_ok(1) [OF room [OF p(1)]] by (auto simp: is_ok_iff)
  note pa = assigned_pages [OF p(2) a]
  have pts: "set (plan_points p) = set es" using p(3) mset_eq_setD by blast
  have "list_all page_writable (all_pages p')"
    by (rule assigned_writable [OF p(2) a]) (use es pts in \<open>auto simp: writer_entries_ok_def\<close>)
  then have "write_hierarchy_page_tree p' out = Ok (out @ concat (map page_bytes (all_pages p')))"
    using write_tree_eq(1) pa(4,6) by blast
  with that p a show ?thesis by blast
qed

text \<open>A file that holds the written pages is walked back to the entries.\<close>

lemma pages_walked:
  assumes es: "writer_entries_ok es" and plan: "plan_ok p" "mset (plan_points p) = mset es"
    and a: "assign_hierarchy_page_offsets p off = Ok (p', hend)"
    and f: "bslice f off (hend - off) = concat (map page_bytes (all_pages p'))" "hend \<le> length f"
      "length f < 2 ^ 64"
    and ranges: "hierarchy_start r \<le> off" "hend \<le> hierarchy_end r"
      "\<forall>e \<in> set es. validate_hierarchy_entry e (length f) r = Ok ()"
    and total: "hend - off \<le> MAX_HIERARCHY_TOTAL_BYTES"
  obtains ws' limits' pos' where
    "read_hierarchy_page_at off (pp_byte_size p') (length f) \<lparr>total_bytes = 0\<rparr> (fcur f pos) =
      Ok ((\<lparr>page_entries = page_entries_of p'\<rparr>, \<lparr>total_bytes = pp_byte_size p'\<rparr>),
          fcur f (off + pp_byte_size p'))"
    "insert_hierarchy_pages \<lparr>page_entries = page_entries_of p'\<rparr> (length f) r
      \<lparr>ws_hierarchy = RBT.empty, ws_visited = {(off, pp_byte_size p')}, ws_pending = []\<rparr>
      \<lparr>total_bytes = pp_byte_size p'\<rparr> (fcur f (off + pp_byte_size p')) =
      Ok ((ws', limits'), fcur f pos')"
    "filter (\<lambda>e. \<not> is_child_page e) (hierarchy_values (ws_hierarchy ws')) = es"
    "walk_ok (length f) r ws'"
proof -
  note pa = assigned_pages [OF plan(1) a]
  have pts: "set (plan_points p) = set es" using plan(2) mset_eq_setD by blast
  have size: "pages_size (all_pages p') = hend - off" using pa(5) by simp
  have at: "\<forall>q \<in> set (all_pages p'). page_at f q"
  proof (rule pages_at_contiguous [OF pa(4,6)])
    show "off + pages_size (all_pages p') \<le> length f" using f(2) pa(5) by linarith
    show "bslice f off (pages_size (all_pages p')) = concat (map page_bytes (all_pages p'))"
      using f(1) unfolding size .
  qed
  have val: "validate_hierarchy_entry e (length f) r = Ok ()"
    if qe: "q \<in> set (all_pages p')" "e \<in> set (page_entries_of q)" for q e
  proof -
    consider "e \<in> set es" | "entry_validate e = Ok ()" "is_child_page e" "off \<le> entry_lo e" "entry_hi e \<le> hend"
      using assigned_entries [OF plan(1) a qe] pts by blast
    then show ?thesis
    proof cases
      case 1
      then show ?thesis using ranges(3) by blast
    next
      case 2
      then have "\<not> has_point_data e" by (simp add: is_child_page_def has_point_data_def)
      then show ?thesis
        using 2 ranges(1,2) f(2,3) by (simp add: validate_hierarchy_entry_Ok_iff)
    qed
  qed
  have nc: "\<not> is_child_page e" if "q \<in> set (all_pages p')" "e \<in> set (item_points (pp_items q))" for q e
  proof -
    have "e \<in> set (plan_points p')" using that by (auto simp: plan_points_def)
    then show ?thesis using pa(2) pts es by (auto simp: writer_entries_ok_def)
  qed
  have readable: "\<forall>q \<in> set (all_pages p'). page_readable f r q"
    unfolding page_readable_def using pa(1) at val nc by blast
  have dist: "distinct (map pp_offset (all_pages p'))"
    by (rule contiguous_distinct [OF pa(4)]) (use pa(1) in blast)
  have root: "p' \<in> set (all_pages p')" by (rule all_pages_self)
  have rp: "page_readable f r p'" using readable root by blast
  then have rq: "page_at f p'" "sized p'" "pp_items p' \<noteq> []" "length (pp_items p') \<le> 4096"
      "\<forall>e \<in> set (page_entries_of p'). entry_validate e = Ok ()"
    by (auto simp: page_readable_def page_ok_def page_view_def HIERARCHY_PAGE_MAX_ENTRIES_def
          validate_hierarchy_entry_Ok_iff)
  have "pp_byte_size p' \<le> MAX_HIERARCHY_TOTAL_BYTES"
  proof -
    have "pp_byte_size p' \<le> 131072" using pa(1) root by blast
    then show ?thesis by (simp add: MAX_HIERARCHY_TOTAL_BYTES_def)
  qed
  then have rd: "read_hierarchy_page_at off (pp_byte_size p') (length f) \<lparr>total_bytes = 0\<rparr> (fcur f pos) =
      Ok ((\<lparr>page_entries = page_entries_of p'\<rparr>, \<lparr>total_bytes = pp_byte_size p'\<rparr>),
          fcur f (off + pp_byte_size p'))"
    using read_page_at [OF rq, of "\<lparr>total_bytes = 0\<rparr>"] pa(8) f(3) by simp
  obtain ws' limits' pos' where w: "insert_hierarchy_pages \<lparr>page_entries = page_entries_of p'\<rparr> (length f) r
      \<lparr>ws_hierarchy = RBT.empty, ws_visited = {page_ref p'}, ws_pending = []\<rparr>
      \<lparr>total_bytes = pp_byte_size p'\<rparr> (fcur f (off + pp_byte_size p')) = Ok ((ws', limits'), fcur f pos')"
    "point_entries (ws_hierarchy ws') = set (plan_points p')"
  proof -
    have "pages_size (all_pages p') \<le> MAX_HIERARCHY_TOTAL_BYTES" using size total by simp
    from walk_plan [OF readable dist this f(3) refl, of "off + pp_byte_size p'"] that show ?thesis
      by blast
  qed
  have wok: "walk_ok (length f) r ws'"
    by (rule insert_hierarchy_pages_keeps [OF w(1)]) (simp add: walk_ok_def)
  have "filter (\<lambda>e. \<not> is_child_page e) (hierarchy_values (ws_hierarchy ws')) = es"
    by (rule hierarchy_values_unique) (use wok es w(2) pa(2) pts in \<open>auto simp: walk_ok_def writer_entries_ok_def\<close>)
  with that rd w(1) wok pa(8) show ?thesis by (simp add: page_ref_def)
qed

section \<open>Properties\<close>

text \<open>
  The ranges of a file that holds the pages at \<open>[off, hend)\<close> and the entries' chunks.
\<close>

definition pages_fit :: "u8 list \<Rightarrow> data_ranges \<Rightarrow> entry list \<Rightarrow> nat \<Rightarrow> nat \<Rightarrow> bool" where
  "pages_fit f r es off hend \<longleftrightarrow>
     length f < 2 ^ 64 \<and> hierarchy_start r \<le> off \<and> hend \<le> hierarchy_end r \<and>
     list_all (\<lambda>e. validate_hierarchy_entry e (length f) r = Ok ()) es \<and>
     hend - off \<le> MAX_HIERARCHY_TOTAL_BYTES"

text \<open>C3: the page writer refines to the page reader: for any sorted list of valid entries the
  pages are planned, placed and written without an error, and the reader that opens the root page and
  walks the pages in the resulting file, whatever follows them, finds exactly those entries, in
  order.\<close>
theorem hierarchy_pages_round_trip:
  assumes "writer_entries_ok es" and "length out + 992 * length es < 2 ^ 64"
  shows "\<exists>p p' hend out'.
    plan_hierarchy_pages es vk_root = Ok p \<and>
    assign_hierarchy_page_offsets p (length out) = Ok (p', hend) \<and>
    write_hierarchy_page_tree p' out = Ok out' \<and> length out' = hend \<and> take (length out) out' = out \<and>
    (\<forall>rest r pos. pages_fit (out' @ rest) r es (length out) hend \<longrightarrow>
      (\<exists>root limits pos1 ws limits' pos2.
        read_hierarchy_page_at (length out) (pp_byte_size p') (length (out' @ rest)) \<lparr>total_bytes = 0\<rparr>
          (fcur (out' @ rest) pos) = Ok ((root, limits), fcur (out' @ rest) pos1) \<and>
        insert_hierarchy_pages root (length (out' @ rest)) r
          \<lparr>ws_hierarchy = RBT.empty, ws_visited = {(length out, pp_byte_size p')}, ws_pending = []\<rparr>
          limits (fcur (out' @ rest) pos1) = Ok ((ws, limits'), fcur (out' @ rest) pos2) \<and>
        filter (\<lambda>e. \<not> is_child_page e) (hierarchy_values (ws_hierarchy ws)) = es))"
proof -
  have room: "length out + 32 * entry_total (all_pages p) < 2 ^ 64"
    if p: "plan_hierarchy_pages es vk_root = Ok p" for p
  proof -
    obtain q where q: "plan_hierarchy_pages es vk_root = Ok q" "pp_key q = vk_root" "plan_ok q"
      "mset (plan_points q) = mset es"
      using plan_exists [OF writer_entries_input [OF assms(1)]] by blast
    have "q = p" using p q(1) by simp
    then have "entry_total (all_pages p) \<le> nat (31 - sint (vk_level (pp_key p))) * length (plan_points p)"
      "pp_key p = vk_root" "length (plan_points p) = length es"
      using q plan_entries_bound [of p] mset_eq_length by blast+
    then have "entry_total (all_pages p) \<le> 31 * length es" by (simp add: vk_root_def)
    then show ?thesis using assms(2) by linarith
  qed
  obtain p p' hend where p: "plan_hierarchy_pages es vk_root = Ok p" "plan_ok p" "mset (plan_points p) = mset es"
    and a: "assign_hierarchy_page_offsets p (length out) = Ok (p', hend)"
    and w: "write_hierarchy_page_tree p' out = Ok (out @ concat (map page_bytes (all_pages p')))"
    using pages_written [OF assms(1) room] by metis
  note pa = assigned_pages [OF p(2) a]
  let ?out = "out @ concat (map page_bytes (all_pages p'))"
  have "length (concat (map page_bytes ps)) = pages_size ps" if "list_all sized ps" for ps
    using that by (induction ps) (simp_all add: length_page_bytes sized_def)
  then have size: "length (concat (map page_bytes (all_pages p'))) = hend - length out" and hend: "length ?out = hend"
    using pa(5,6) by simp_all
  have walk: "\<exists>root limits pos1 ws limits' pos2.
        read_hierarchy_page_at (length out) (pp_byte_size p') (length (?out @ rest)) \<lparr>total_bytes = 0\<rparr>
          (fcur (?out @ rest) pos) = Ok ((root, limits), fcur (?out @ rest) pos1) \<and>
        insert_hierarchy_pages root (length (?out @ rest)) r
          \<lparr>ws_hierarchy = RBT.empty, ws_visited = {(length out, pp_byte_size p')}, ws_pending = []\<rparr>
          limits (fcur (?out @ rest) pos1) = Ok ((ws, limits'), fcur (?out @ rest) pos2) \<and>
        filter (\<lambda>e. \<not> is_child_page e) (hierarchy_values (ws_hierarchy ws)) = es"
    if fit: "pages_fit (?out @ rest) r es (length out) hend" for rest r pos
  proof -
    have b: "bslice (?out @ rest) (length out) (hend - length out) = concat (map page_bytes (all_pages p'))"
      using size by (simp add: bslice_def)
    have l: "hend \<le> length (?out @ rest)" "length (?out @ rest) < 2 ^ 64"
      "\<forall>e \<in> set es. validate_hierarchy_entry e (length (?out @ rest)) r = Ok ()"
      using fit hend by (auto simp: pages_fit_def list_all_iff)
    obtain ws' limits' pos' where
      "read_hierarchy_page_at (length out) (pp_byte_size p') (length (?out @ rest)) \<lparr>total_bytes = 0\<rparr>
          (fcur (?out @ rest) pos) =
        Ok ((\<lparr>page_entries = page_entries_of p'\<rparr>, \<lparr>total_bytes = pp_byte_size p'\<rparr>),
          fcur (?out @ rest) (length out + pp_byte_size p'))"
      "insert_hierarchy_pages \<lparr>page_entries = page_entries_of p'\<rparr> (length (?out @ rest)) r
        \<lparr>ws_hierarchy = RBT.empty, ws_visited = {(length out, pp_byte_size p')}, ws_pending = []\<rparr>
        \<lparr>total_bytes = pp_byte_size p'\<rparr> (fcur (?out @ rest) (length out + pp_byte_size p')) =
        Ok ((ws', limits'), fcur (?out @ rest) pos')"
      "filter (\<lambda>e. \<not> is_child_page e) (hierarchy_values (ws_hierarchy ws')) = es"
      by (rule pages_walked [OF assms(1) p(2,3) a b l(1,2) _ _ l(3)]) (use fit in \<open>auto simp: pages_fit_def\<close>)
    then show ?thesis by blast
  qed
  show ?thesis
    by (intro exI conjI, rule p(1), rule a, rule w, rule hend, simp, use walk in blast)
qed

lemma sample_written:
  "plan_hierarchy_pages [sample_entry] vk_root = Ok (PagePlan vk_root [PointItem sample_entry] 0 0)"
  "assign_hierarchy_page_offsets (PagePlan vk_root [PointItem sample_entry] 0 0) 400 =
    Ok (PagePlan vk_root [PointItem sample_entry] 400 32, 432)"
  by (simp_all add: plan_hierarchy_pages.simps HIERARCHY_PAGE_MAX_ENTRIES_def page_size_eq)

lemma sample_valid: "entry_validate sample_entry = Ok ()"
  by (simp add: sample_entry_def entry_validate_def vk_root_def vk_validate_def availability_def
      u32_try_from_i32_def Let_def)

theorem hierarchy_pages_round_trip_witness:
  "\<exists>f root limits pos1 ws limits' pos2.
     read_hierarchy_page_at 400 32 (length f) \<lparr>total_bytes = 0\<rparr> (fcur f 0) = Ok ((root, limits), fcur f pos1) \<and>
     insert_hierarchy_pages root (length f)
       \<lparr>point_data_start = 375, point_data_end = 400, hierarchy_start = 400, hierarchy_end = 432\<rparr>
       \<lparr>ws_hierarchy = RBT.empty, ws_visited = {(400, 32)}, ws_pending = []\<rparr>
       limits (fcur f pos1) = Ok ((ws, limits'), fcur f pos2) \<and>
     filter (\<lambda>e. \<not> is_child_page e) (hierarchy_values (ws_hierarchy ws)) = [sample_entry]"
proof -
  have ok: "writer_entries_ok [sample_entry]"
    using sample_valid by (simp add: writer_entries_ok_def sample_entry_def is_child_page_def vk_root_def)
  let ?r = "\<lparr>point_data_start = 375, point_data_end = 400, hierarchy_start = 400, hierarchy_end = 432\<rparr>"
  have room: "length (replicate 400 (0 :: u8)) + 992 * length [sample_entry] < 2 ^ 64" by simp
  obtain p p' hend out' where p: "plan_hierarchy_pages [sample_entry] vk_root = Ok p"
    and a: "assign_hierarchy_page_offsets p (length (replicate 400 (0 :: u8))) = Ok (p', hend)"
    and o0: "length out' = hend"
    and walk: "\<forall>rest r pos. pages_fit (out' @ rest) r [sample_entry] (length (replicate 400 (0 :: u8))) hend \<longrightarrow>
      (\<exists>root limits pos1 ws limits' pos2.
        read_hierarchy_page_at (length (replicate 400 (0 :: u8))) (pp_byte_size p') (length (out' @ rest)) \<lparr>total_bytes = 0\<rparr>
          (fcur (out' @ rest) pos) = Ok ((root, limits), fcur (out' @ rest) pos1) \<and>
        insert_hierarchy_pages root (length (out' @ rest)) r
          \<lparr>ws_hierarchy = RBT.empty, ws_visited = {(length (replicate 400 (0 :: u8)), pp_byte_size p')}, ws_pending = []\<rparr>
          limits (fcur (out' @ rest) pos1) = Ok ((ws, limits'), fcur (out' @ rest) pos2) \<and>
        filter (\<lambda>e. \<not> is_child_page e) (hierarchy_values (ws_hierarchy ws)) = [sample_entry])"
    using hierarchy_pages_round_trip [OF ok room] by blast
  have l400: "length (replicate 400 (0 :: u8)) = 400" by simp
  have "p = PagePlan vk_root [PointItem sample_entry] 0 0" using p sample_written(1) by simp
  then have p': "pp_byte_size p' = 32" "hend = 432"
    using a sample_written(2) unfolding l400 by simp_all
  note o = o0 [unfolded p'] walk [unfolded p' l400]
  have "pages_fit (out' @ []) ?r [sample_entry] 400 432"
    using o(1) sample_valid
    by (simp add: pages_fit_def validate_hierarchy_entry_Ok_iff MAX_HIERARCHY_TOTAL_BYTES_def
        MAX_POINT_CHUNK_BYTES_def sample_entry_def has_point_data_def is_child_page_def
        entry_lo_def entry_hi_def)
  from o(2) [rule_format, OF this, of 0] show ?thesis unfolding append_Nil2 by blast
qed

end
