(* ===== verification/Streaming.thy ===== *)
theory Streaming
  imports Las_Types Stream_IO Codec
begin

text \<open>
  \<^verbatim>\<open>copc-core/src/streaming.rs\<close>: the full-fidelity point record, the layout of a streaming pass and
  the fixed-width little-endian form of a record. The lemmas show that a record survives the spill
  format up to the dimensions its layout leaves out.
\<close>

record las_point_record =
  pr_x :: f64
  pr_y :: f64
  pr_z :: f64
  pr_intensity :: u16
  pr_return_number :: u8
  pr_number_of_returns :: u8
  pr_classification :: u8
  pr_scan_direction_flag :: bool
  pr_edge_of_flight_line :: bool
  pr_scan_angle :: f32
  pr_user_data :: u8
  pr_point_source_id :: u16
  pr_synthetic :: bool
  pr_key_point :: bool
  pr_withheld :: bool
  pr_overlap :: bool
  pr_scan_channel :: u8
  pr_gps_time :: f64
  pr_red :: u16
  pr_green :: u16
  pr_blue :: u16
  pr_nir :: u16
  pr_wave_packet_descriptor_index :: u8
  pr_byte_offset_to_waveform_data :: u64
  pr_waveform_packet_size :: u32
  pr_return_point_waveform_location :: f32
  pr_extra_bytes :: "u8 list"

text \<open>\<open>class_u8\<close> is \<^verbatim>\<open>u8::from(las::point::Classification)\<close>.\<close>

definition from_las_point :: "('c \<Rightarrow> u8) \<Rightarrow> 'c las_point \<Rightarrow> las_point_record" where
  "from_las_point class_u8 p =
     (let (red, green, blue) = (case lp_color p of Some c \<Rightarrow> c | None \<Rightarrow> (32768, 32768, 32768));
          (wi, wo, ws, wl) = (case lp_waveform p of
              Some wv \<Rightarrow> (lw_wave_packet_descriptor_index wv, lw_byte_offset_to_waveform_data wv,
                          lw_waveform_packet_size_in_bytes wv, lw_return_point_waveform_location wv)
            | None \<Rightarrow> (0, 0, 0, 0))
      in \<lparr>pr_x = lp_x p, pr_y = lp_y p, pr_z = lp_z p, pr_intensity = lp_intensity p,
          pr_return_number = lp_return_number p, pr_number_of_returns = lp_number_of_returns p,
          pr_classification = class_u8 (lp_classification p),
          pr_scan_direction_flag = (lp_scan_direction p = LeftToRight),
          pr_edge_of_flight_line = lp_is_edge_of_flight_line p, pr_scan_angle = lp_scan_angle p,
          pr_user_data = lp_user_data p, pr_point_source_id = lp_point_source_id p,
          pr_synthetic = lp_is_synthetic p, pr_key_point = lp_is_key_point p,
          pr_withheld = lp_is_withheld p, pr_overlap = lp_is_overlap p,
          pr_scan_channel = lp_scanner_channel p,
          pr_gps_time = (case lp_gps_time p of Some t \<Rightarrow> t | None \<Rightarrow> 0),
          pr_red = red, pr_green = green, pr_blue = blue,
          pr_nir = (case lp_nir p of Some n \<Rightarrow> n | None \<Rightarrow> 0),
          pr_wave_packet_descriptor_index = wi, pr_byte_offset_to_waveform_data = wo,
          pr_waveform_packet_size = ws, pr_return_point_waveform_location = wl,
          pr_extra_bytes = lp_extra_bytes p\<rparr>)"

record streaming_layout =
  sl_point_format :: u8
  sl_has_gps :: bool
  sl_has_color :: bool
  sl_has_nir :: bool
  sl_has_waveform :: bool
  sl_extra_bytes :: u16
  sl_extra_bytes_descriptors :: "las_vlr list"

text \<open>\<open>to_u8\<close> is \<^verbatim>\<open>las::point::Format::to_u8\<close>, \<^verbatim>\<open>None\<close> for an error.\<close>

definition from_las_format :: "(las_format \<Rightarrow> u8 option) \<Rightarrow> las_format \<Rightarrow> streaming_layout" where
  "from_las_format to_u8 format =
     \<lparr>sl_point_format = (case to_u8 format of Some n \<Rightarrow> n | None \<Rightarrow> 0),
      sl_has_gps = lf_has_gps_time format, sl_has_color = lf_has_color format,
      sl_has_nir = lf_has_nir format, sl_has_waveform = lf_has_waveform format,
      sl_extra_bytes = lf_extra_bytes format, sl_extra_bytes_descriptors = []\<rparr>"

definition is_extra_bytes_descriptor_vlr :: "las_vlr \<Rightarrow> bool" where
  "is_extra_bytes_descriptor_vlr v = (lv_user_id v = lit ''LASF_Spec'' \<and> lv_record_id v = 4)"

text \<open>The header is its point format and its VLRs.\<close>

definition from_las_header :: "(las_format \<Rightarrow> u8 option) \<Rightarrow> las_format \<Rightarrow> las_vlr list \<Rightarrow> streaming_layout" where
  "from_las_header to_u8 format vlrs =
     (let layout = from_las_format to_u8 format
      in if 0 < sl_extra_bytes layout
         then layout\<lparr>sl_extra_bytes_descriptors := filter is_extra_bytes_descriptor_vlr vlrs\<rparr>
         else layout)"

definition ALWAYS_BYTES :: nat where
  "ALWAYS_BYTES = 8 + 8 + 8 + 2 + 1 + 1 + 1 + 1 + 1 + 4 + 1 + 2 + 1 + 1 + 1 + 1 + 1"
definition GPS_BYTES :: nat where "GPS_BYTES = 8"
definition COLOR_BYTES :: nat where "COLOR_BYTES = 6"
definition NIR_BYTES :: nat where "NIR_BYTES = 2"
definition WAVEFORM_BYTES :: nat where "WAVEFORM_BYTES = 1 + 8 + 4 + 4"

definition record_width :: "streaming_layout \<Rightarrow> nat" where
  "record_width l =
     (let width = ALWAYS_BYTES;
          width = (if sl_has_gps l then width + GPS_BYTES else width);
          width = (if sl_has_color l then width + COLOR_BYTES else width);
          width = (if sl_has_nir l then width + NIR_BYTES else width);
          width = (if sl_has_waveform l then width + WAVEFORM_BYTES else width);
          width = width + unat (sl_extra_bytes l)
      in width)"

definition max_record_width :: nat where
  "max_record_width = ALWAYS_BYTES + GPS_BYTES + COLOR_BYTES + NIR_BYTES + WAVEFORM_BYTES + 65535"

section \<open>Serialization\<close>

text \<open>
  The writers move an offset through the destination buffer; the callers check its length first, so
  no write is out of range.
\<close>

type_synonym wbuf = "nat \<times> u8 list"

definition write_bytes :: "u8 list \<Rightarrow> wbuf \<Rightarrow> wbuf" where
  "write_bytes bs w = (case w of (off, dst) \<Rightarrow> (off + length bs, put_at dst off bs))"

definition write_u8 :: "u8 \<Rightarrow> wbuf \<Rightarrow> wbuf" where "write_u8 v = write_bytes [v]"
definition write_u16 :: "u16 \<Rightarrow> wbuf \<Rightarrow> wbuf" where "write_u16 v = write_bytes (u16_to_le v)"
definition write_u32 :: "u32 \<Rightarrow> wbuf \<Rightarrow> wbuf" where "write_u32 v = write_bytes (u32_to_le v)"
definition write_u64 :: "u64 \<Rightarrow> wbuf \<Rightarrow> wbuf" where "write_u64 v = write_bytes (u64_to_le v)"
definition write_f32 :: "f32 \<Rightarrow> wbuf \<Rightarrow> wbuf" where "write_f32 v = write_bytes (u32_to_le v)"
definition write_f64 :: "f64 \<Rightarrow> wbuf \<Rightarrow> wbuf" where "write_f64 v = write_bytes (u64_to_le v)"

definition u8_of_bool :: "bool \<Rightarrow> u8" where
  "u8_of_bool b = (if b then 1 else 0)"

definition serialize_le :: "las_point_record \<Rightarrow> streaming_layout \<Rightarrow> u8 list \<Rightarrow> u8 list result" where
  "serialize_le r l dst =
     (if length dst \<noteq> record_width l then Err (Io ''destination is {} bytes, expected {}'')
      else if length (pr_extra_bytes r) \<noteq> unat (sl_extra_bytes l)
      then Err (Io ''record has {} extra byte(s), expected {expected_extra_bytes}'')
      else
        let w = (0, dst);
            w = write_f64 (pr_x r) w;
            w = write_f64 (pr_y r) w;
            w = write_f64 (pr_z r) w;
            w = write_u16 (pr_intensity r) w;
            w = write_u8 (pr_return_number r) w;
            w = write_u8 (pr_number_of_returns r) w;
            w = write_u8 (pr_classification r) w;
            w = write_u8 (u8_of_bool (pr_scan_direction_flag r)) w;
            w = write_u8 (u8_of_bool (pr_edge_of_flight_line r)) w;
            w = write_f32 (pr_scan_angle r) w;
            w = write_u8 (pr_user_data r) w;
            w = write_u16 (pr_point_source_id r) w;
            w = write_u8 (u8_of_bool (pr_synthetic r)) w;
            w = write_u8 (u8_of_bool (pr_key_point r)) w;
            w = write_u8 (u8_of_bool (pr_withheld r)) w;
            w = write_u8 (u8_of_bool (pr_overlap r)) w;
            w = write_u8 (pr_scan_channel r) w;
            w = (if sl_has_gps l then write_f64 (pr_gps_time r) w else w);
            w = (if sl_has_color l
                 then write_u16 (pr_blue r) (write_u16 (pr_green r) (write_u16 (pr_red r) w)) else w);
            w = (if sl_has_nir l then write_u16 (pr_nir r) w else w);
            w = (if sl_has_waveform l
                 then write_f32 (pr_return_point_waveform_location r)
                   (write_u32 (pr_waveform_packet_size r)
                   (write_u64 (pr_byte_offset_to_waveform_data r)
                   (write_u8 (pr_wave_packet_descriptor_index r) w))) else w);
            w = write_bytes (pr_extra_bytes r) w
        in Ok (snd w))"

section \<open>Deserialization\<close>

definition take_u8 :: "u8 list \<Rightarrow> nat \<Rightarrow> u8 \<times> nat" where "take_u8 src off = (src ! off, off + 1)"
definition take_u16 :: "u8 list \<Rightarrow> nat \<Rightarrow> u16 \<times> nat" where
  "take_u16 src off = (u16_from_le (bslice src off 2), off + 2)"
definition take_u32 :: "u8 list \<Rightarrow> nat \<Rightarrow> u32 \<times> nat" where
  "take_u32 src off = (u32_from_le (bslice src off 4), off + 4)"
definition take_u64 :: "u8 list \<Rightarrow> nat \<Rightarrow> u64 \<times> nat" where
  "take_u64 src off = (u64_from_le (bslice src off 8), off + 8)"
definition take_f32 :: "u8 list \<Rightarrow> nat \<Rightarrow> f32 \<times> nat" where
  "take_f32 src off = (u32_from_le (bslice src off 4), off + 4)"
definition take_f64 :: "u8 list \<Rightarrow> nat \<Rightarrow> f64 \<times> nat" where
  "take_f64 src off = (u64_from_le (bslice src off 8), off + 8)"

definition deserialize_le :: "u8 list \<Rightarrow> streaming_layout \<Rightarrow> las_point_record result" where
  "deserialize_le src l =
     (if length src \<noteq> record_width l then Err (Io ''record is {} bytes, expected {}'')
      else
        let off = 0;
            (x, off) = take_f64 src off;
            (y, off) = take_f64 src off;
            (z, off) = take_f64 src off;
            (intensity, off) = take_u16 src off;
            (return_number, off) = take_u8 src off;
            (number_of_returns, off) = take_u8 src off;
            (classification, off) = take_u8 src off;
            (scan_direction_flag, off) = take_u8 src off;
            (edge_of_flight_line, off) = take_u8 src off;
            (scan_angle, off) = take_f32 src off;
            (user_data, off) = take_u8 src off;
            (point_source_id, off) = take_u16 src off;
            (synthetic, off) = take_u8 src off;
            (key_point, off) = take_u8 src off;
            (withheld, off) = take_u8 src off;
            (overlap, off) = take_u8 src off;
            (scan_channel, off) = take_u8 src off;
            (gps_time, off) = (if sl_has_gps l then take_f64 src off else (0, off));
            ((red, green, blue), off) =
              (if sl_has_color l then
                 let (red, off) = take_u16 src off;
                     (green, off) = take_u16 src off;
                     (blue, off) = take_u16 src off
                 in ((red, green, blue), off)
               else ((0, 0, 0), off));
            (nir, off) = (if sl_has_nir l then take_u16 src off else (0, off));
            ((wi, wo, ws, wl), off) =
              (if sl_has_waveform l then
                 let (wi, off) = take_u8 src off;
                     (wo, off) = take_u64 src off;
                     (ws, off) = take_u32 src off;
                     (wl, off) = take_f32 src off
                 in ((wi, wo, ws, wl), off)
               else ((0, 0, 0, 0), off));
            extra_bytes = (if 0 < sl_extra_bytes l then bslice src off (unat (sl_extra_bytes l)) else [])
        in Ok \<lparr>pr_x = x, pr_y = y, pr_z = z, pr_intensity = intensity, pr_return_number = return_number,
               pr_number_of_returns = number_of_returns, pr_classification = classification,
               pr_scan_direction_flag = (scan_direction_flag \<noteq> 0),
               pr_edge_of_flight_line = (edge_of_flight_line \<noteq> 0),
               pr_scan_angle = scan_angle, pr_user_data = user_data, pr_point_source_id = point_source_id,
               pr_synthetic = (synthetic \<noteq> 0), pr_key_point = (key_point \<noteq> 0),
               pr_withheld = (withheld \<noteq> 0), pr_overlap = (overlap \<noteq> 0), pr_scan_channel = scan_channel,
               pr_gps_time = gps_time, pr_red = red, pr_green = green, pr_blue = blue, pr_nir = nir,
               pr_wave_packet_descriptor_index = wi, pr_byte_offset_to_waveform_data = wo,
               pr_waveform_packet_size = ws, pr_return_point_waveform_location = wl,
               pr_extra_bytes = extra_bytes\<rparr>)"

section \<open>The bytes of a record\<close>

definition fixed_bytes :: "las_point_record \<Rightarrow> u8 list" where
  "fixed_bytes r =
     u64_to_le (pr_x r) @ u64_to_le (pr_y r) @ u64_to_le (pr_z r) @ u16_to_le (pr_intensity r) @
     [pr_return_number r] @ [pr_number_of_returns r] @ [pr_classification r] @
     [u8_of_bool (pr_scan_direction_flag r)] @ [u8_of_bool (pr_edge_of_flight_line r)] @
     u32_to_le (pr_scan_angle r) @ [pr_user_data r] @ u16_to_le (pr_point_source_id r) @
     [u8_of_bool (pr_synthetic r)] @ [u8_of_bool (pr_key_point r)] @ [u8_of_bool (pr_withheld r)] @
     [u8_of_bool (pr_overlap r)] @ [pr_scan_channel r]"

definition gps_bytes :: "las_point_record \<Rightarrow> streaming_layout \<Rightarrow> u8 list" where
  "gps_bytes r l = (if sl_has_gps l then u64_to_le (pr_gps_time r) else [])"

definition color_bytes :: "las_point_record \<Rightarrow> streaming_layout \<Rightarrow> u8 list" where
  "color_bytes r l =
     (if sl_has_color l then u16_to_le (pr_red r) @ u16_to_le (pr_green r) @ u16_to_le (pr_blue r) else [])"

definition nir_bytes :: "las_point_record \<Rightarrow> streaming_layout \<Rightarrow> u8 list" where
  "nir_bytes r l = (if sl_has_nir l then u16_to_le (pr_nir r) else [])"

definition wave_bytes :: "las_point_record \<Rightarrow> streaming_layout \<Rightarrow> u8 list" where
  "wave_bytes r l =
     (if sl_has_waveform l
      then [pr_wave_packet_descriptor_index r] @ u64_to_le (pr_byte_offset_to_waveform_data r) @
           u32_to_le (pr_waveform_packet_size r) @ u32_to_le (pr_return_point_waveform_location r)
      else [])"

definition record_bytes :: "las_point_record \<Rightarrow> streaming_layout \<Rightarrow> u8 list" where
  "record_bytes r l =
     fixed_bytes r @ gps_bytes r l @ color_bytes r l @ nir_bytes r l @ wave_bytes r l @ pr_extra_bytes r"

lemma length_parts:
  "length (fixed_bytes r) = 43"
  "length (gps_bytes r l) = (if sl_has_gps l then 8 else 0)"
  "length (color_bytes r l) = (if sl_has_color l then 6 else 0)"
  "length (nir_bytes r l) = (if sl_has_nir l then 2 else 0)"
  "length (wave_bytes r l) = (if sl_has_waveform l then 17 else 0)"
  by (simp_all add: fixed_bytes_def gps_bytes_def color_bytes_def nir_bytes_def wave_bytes_def)

lemma record_width_eq:
  "record_width l = 43 + (if sl_has_gps l then 8 else 0) + (if sl_has_color l then 6 else 0) +
    (if sl_has_nir l then 2 else 0) + (if sl_has_waveform l then 17 else 0) + unat (sl_extra_bytes l)"
  by (simp add: record_width_def Let_def ALWAYS_BYTES_def GPS_BYTES_def COLOR_BYTES_def NIR_BYTES_def
      WAVEFORM_BYTES_def)

lemma length_record_bytes:
  "length (pr_extra_bytes r) = unat (sl_extra_bytes l) \<Longrightarrow> length (record_bytes r l) = record_width l"
  by (simp add: record_bytes_def length_parts record_width_eq)

lemma record_width_bound: "record_width l \<le> max_record_width"
proof -
  have "unat (sl_extra_bytes l) < 65536" using unat_bound [of "sl_extra_bytes l"] by simp
  then show ?thesis
    by (simp add: record_width_eq max_record_width_def ALWAYS_BYTES_def GPS_BYTES_def COLOR_BYTES_def
        NIR_BYTES_def WAVEFORM_BYTES_def)
qed

text \<open>A buffer that is written up to \<open>pre\<close> and still to be written over \<open>suf\<close>.\<close>

definition wst :: "u8 list \<Rightarrow> u8 list \<Rightarrow> wbuf" where
  "wst pre suf = (length pre, pre @ suf)"

lemma wst_start: "(0, dst) = wst [] dst"
  by (simp add: wst_def)

lemma write_bytes_wst [simp]: "write_bytes bs (wst pre suf) = wst (pre @ bs) (drop (length bs) suf)"
  by (simp add: write_bytes_def wst_def put_at_append)

lemma serialize_le_eq:
  assumes "length dst = record_width l" "length (pr_extra_bytes r) = unat (sl_extra_bytes l)"
  shows "serialize_le r l dst = Ok (record_bytes r l)"
proof -
  let ?w1 = "write_u8 (pr_scan_channel r) (write_u8 (u8_of_bool (pr_overlap r))
    (write_u8 (u8_of_bool (pr_withheld r)) (write_u8 (u8_of_bool (pr_key_point r))
    (write_u8 (u8_of_bool (pr_synthetic r)) (write_u16 (pr_point_source_id r)
    (write_u8 (pr_user_data r) (write_f32 (pr_scan_angle r)
    (write_u8 (u8_of_bool (pr_edge_of_flight_line r)) (write_u8 (u8_of_bool (pr_scan_direction_flag r))
    (write_u8 (pr_classification r) (write_u8 (pr_number_of_returns r) (write_u8 (pr_return_number r)
    (write_u16 (pr_intensity r) (write_f64 (pr_z r) (write_f64 (pr_y r)
    (write_f64 (pr_x r) (0, dst)))))))))))))))))"
  have 1: "?w1 = wst (fixed_bytes r) (drop 43 dst)"
    unfolding wst_start write_u8_def write_u16_def write_f32_def write_f64_def
    by (simp add: fixed_bytes_def)
  have 2: "(if sl_has_gps l then write_f64 (pr_gps_time r) (wst a s) else wst a s) =
      wst (a @ gps_bytes r l) (drop (length (gps_bytes r l)) s)" for a s
    by (simp add: gps_bytes_def write_f64_def)
  have 3: "(if sl_has_color l
        then write_u16 (pr_blue r) (write_u16 (pr_green r) (write_u16 (pr_red r) (wst a s))) else wst a s) =
      wst (a @ color_bytes r l) (drop (length (color_bytes r l)) s)" for a s
    by (simp add: color_bytes_def write_u16_def)
  have 4: "(if sl_has_nir l then write_u16 (pr_nir r) (wst a s) else wst a s) =
      wst (a @ nir_bytes r l) (drop (length (nir_bytes r l)) s)" for a s
    by (simp add: nir_bytes_def write_u16_def)
  have 5: "(if sl_has_waveform l
         then write_f32 (pr_return_point_waveform_location r)
                   (write_u32 (pr_waveform_packet_size r)
                   (write_u64 (pr_byte_offset_to_waveform_data r)
                   (write_u8 (pr_wave_packet_descriptor_index r) (wst a s)))) else wst a s) =
      wst (a @ wave_bytes r l) (drop (length (wave_bytes r l)) s)" for a s
    by (simp add: wave_bytes_def write_u8_def write_u64_def write_u32_def write_f32_def)
  have w: "serialize_le r l dst = Ok (snd (write_bytes (pr_extra_bytes r)
      (wst (((((fixed_bytes r) @ gps_bytes r l) @ color_bytes r l) @ nir_bytes r l) @ wave_bytes r l)
        (drop (length (wave_bytes r l)) (drop (length (nir_bytes r l)) (drop (length (color_bytes r l))
          (drop (length (gps_bytes r l)) (drop 43 dst))))))))"
    using assms unfolding serialize_le_def Let_def 1 2 3 4 5 by simp
  have "length (record_bytes r l) = length dst" using length_record_bytes assms by simp
  then have "drop (length (pr_extra_bytes r)) (drop (length (wave_bytes r l)) (drop (length (nir_bytes r l))
      (drop (length (color_bytes r l)) (drop (length (gps_bytes r l)) (drop 43 dst))))) = []"
    by (simp add: record_bytes_def length_parts(1) add.commute add.left_commute)
  then show ?thesis
    unfolding w write_bytes_wst by (simp add: wst_def record_bytes_def)
qed

text \<open>What is left of a record: the dimensions that the layout leaves out are zero.\<close>

definition masked :: "streaming_layout \<Rightarrow> las_point_record \<Rightarrow> las_point_record" where
  "masked l r =
     r\<lparr>pr_gps_time := (if sl_has_gps l then pr_gps_time r else 0),
       pr_red := (if sl_has_color l then pr_red r else 0),
       pr_green := (if sl_has_color l then pr_green r else 0),
       pr_blue := (if sl_has_color l then pr_blue r else 0),
       pr_nir := (if sl_has_nir l then pr_nir r else 0),
       pr_wave_packet_descriptor_index := (if sl_has_waveform l then pr_wave_packet_descriptor_index r else 0),
       pr_byte_offset_to_waveform_data := (if sl_has_waveform l then pr_byte_offset_to_waveform_data r else 0),
       pr_waveform_packet_size := (if sl_has_waveform l then pr_waveform_packet_size r else 0),
       pr_return_point_waveform_location :=
         (if sl_has_waveform l then pr_return_point_waveform_location r else 0)\<rparr>"

lemma u8_of_bool_ne [simp]: "u8_of_bool b \<noteq> 0 \<longleftrightarrow> b"
  by (simp add: u8_of_bool_def)

text \<open>Reading back, one field at a time.\<close>

lemma take_field:
  "length a = off \<Longrightarrow> take_u8 (a @ v1 # rest) off = (v1, off + 1)"
  "length a = off \<Longrightarrow> take_u16 (a @ u16_to_le v2 @ rest) off = (v2, off + 2)"
  "length a = off \<Longrightarrow> take_u32 (a @ u32_to_le v4 @ rest) off = (v4, off + 4)"
  "length a = off \<Longrightarrow> take_f32 (a @ u32_to_le v4 @ rest) off = (v4, off + 4)"
  "length a = off \<Longrightarrow> take_u64 (a @ u64_to_le v8 @ rest) off = (v8, off + 8)"
  "length a = off \<Longrightarrow> take_f64 (a @ u64_to_le v8 @ rest) off = (v8, off + 8)"
  by (auto simp: take_u8_def take_u16_def take_u32_def take_u64_def take_f32_def take_f64_def bslice_def)

lemma take_fixed:
  fixes r rest
  defines "src \<equiv> fixed_bytes r @ rest"
  shows "take_f64 src 0 = (pr_x r, 8)" "take_f64 src 8 = (pr_y r, 16)" "take_f64 src 16 = (pr_z r, 24)"
    "take_u16 src 24 = (pr_intensity r, 26)" "take_u8 src 26 = (pr_return_number r, 27)"
    "take_u8 src 27 = (pr_number_of_returns r, 28)" "take_u8 src 28 = (pr_classification r, 29)"
    "take_u8 src 29 = (u8_of_bool (pr_scan_direction_flag r), 30)"
    "take_u8 src 30 = (u8_of_bool (pr_edge_of_flight_line r), 31)"
    "take_f32 src 31 = (pr_scan_angle r, 35)" "take_u8 src 35 = (pr_user_data r, 36)"
    "take_u16 src 36 = (pr_point_source_id r, 38)" "take_u8 src 38 = (u8_of_bool (pr_synthetic r), 39)"
    "take_u8 src 39 = (u8_of_bool (pr_key_point r), 40)" "take_u8 src 40 = (u8_of_bool (pr_withheld r), 41)"
    "take_u8 src 41 = (u8_of_bool (pr_overlap r), 42)" "take_u8 src 42 = (pr_scan_channel r, 43)"
  by (simp_all add: src_def fixed_bytes_def take_u8_def take_u16_def take_f32_def take_f64_def bslice_def
      nth_append)

lemma take_optional:
  assumes "length a = off"
  shows "(if sl_has_gps l then take_f64 (a @ gps_bytes r l @ rest) off else (0, off)) =
      (pr_gps_time (masked l r), off + length (gps_bytes r l))"
    and "(if sl_has_color l then
            let (red, off) = take_u16 (a @ color_bytes r l @ rest) off;
                (green, off) = take_u16 (a @ color_bytes r l @ rest) off;
                (blue, off) = take_u16 (a @ color_bytes r l @ rest) off
            in ((red, green, blue), off)
          else ((0, 0, 0), off)) =
      ((pr_red (masked l r), pr_green (masked l r), pr_blue (masked l r)), off + length (color_bytes r l))"
    and "(if sl_has_nir l then take_u16 (a @ nir_bytes r l @ rest) off else (0, off)) =
      (pr_nir (masked l r), off + length (nir_bytes r l))"
    and "(if sl_has_waveform l then
            let (wi, off) = take_u8 (a @ wave_bytes r l @ rest) off;
                (wo, off) = take_u64 (a @ wave_bytes r l @ rest) off;
                (ws, off) = take_u32 (a @ wave_bytes r l @ rest) off;
                (wl, off) = take_f32 (a @ wave_bytes r l @ rest) off
            in ((wi, wo, ws, wl), off)
          else ((0, 0, 0, 0), off)) =
      ((pr_wave_packet_descriptor_index (masked l r), pr_byte_offset_to_waveform_data (masked l r),
        pr_waveform_packet_size (masked l r), pr_return_point_waveform_location (masked l r)),
       off + length (wave_bytes r l))"
proof -
  note d = masked_def Let_def take_u8_def take_u16_def take_u32_def take_u64_def take_f32_def take_f64_def
    bslice_def nth_append
  show "(if sl_has_gps l then take_f64 (a @ gps_bytes r l @ rest) off else (0, off)) =
      (pr_gps_time (masked l r), off + length (gps_bytes r l))"
    using assms by (simp add: d gps_bytes_def)
  show "(if sl_has_color l then
            let (red, off) = take_u16 (a @ color_bytes r l @ rest) off;
                (green, off) = take_u16 (a @ color_bytes r l @ rest) off;
                (blue, off) = take_u16 (a @ color_bytes r l @ rest) off
            in ((red, green, blue), off)
          else ((0, 0, 0), off)) =
      ((pr_red (masked l r), pr_green (masked l r), pr_blue (masked l r)), off + length (color_bytes r l))"
    using assms by (simp add: d color_bytes_def)
  show "(if sl_has_nir l then take_u16 (a @ nir_bytes r l @ rest) off else (0, off)) =
      (pr_nir (masked l r), off + length (nir_bytes r l))"
    using assms by (simp add: d nir_bytes_def)
  show "(if sl_has_waveform l then
            let (wi, off) = take_u8 (a @ wave_bytes r l @ rest) off;
                (wo, off) = take_u64 (a @ wave_bytes r l @ rest) off;
                (ws, off) = take_u32 (a @ wave_bytes r l @ rest) off;
                (wl, off) = take_f32 (a @ wave_bytes r l @ rest) off
            in ((wi, wo, ws, wl), off)
          else ((0, 0, 0, 0), off)) =
      ((pr_wave_packet_descriptor_index (masked l r), pr_byte_offset_to_waveform_data (masked l r),
        pr_waveform_packet_size (masked l r), pr_return_point_waveform_location (masked l r)),
       off + length (wave_bytes r l))"
    using assms by (simp add: d wave_bytes_def)
qed

lemma masked_kept:
  "pr_x (masked l r) = pr_x r" "pr_y (masked l r) = pr_y r" "pr_z (masked l r) = pr_z r"
  "pr_extra_bytes (masked l r) = pr_extra_bytes r"
  by (simp_all add: masked_def)

lemma deserialize_record_bytes:
  assumes "length (pr_extra_bytes r) = unat (sl_extra_bytes l)"
  shows "deserialize_le (record_bytes r l) l = Ok (masked l r)"
proof -
  let ?src = "record_bytes r l"
  let ?g = "43 + length (gps_bytes r l)" let ?c = "?g + length (color_bytes r l)"
  let ?n = "?c + length (nir_bytes r l)" let ?w = "?n + length (wave_bytes r l)"
  note asc = append_assoc
  have len: "length ?src = record_width l" by (rule length_record_bytes [OF assms])
  note fixed = take_fixed [where r = r and rest = "gps_bytes r l @ color_bytes r l @ nir_bytes r l @
      wave_bytes r l @ pr_extra_bytes r", folded record_bytes_def]
  note gps = take_optional(1) [where a = "fixed_bytes r" and off = 43 and l = l and r = r and
      rest = "color_bytes r l @ nir_bytes r l @ wave_bytes r l @ pr_extra_bytes r",
      unfolded asc, folded record_bytes_def, OF length_parts(1)]
  note color = take_optional(2) [where a = "fixed_bytes r @ gps_bytes r l" and off = ?g and l = l and r = r and
      rest = "nir_bytes r l @ wave_bytes r l @ pr_extra_bytes r", unfolded asc, folded record_bytes_def]
  note nir = take_optional(3) [where a = "fixed_bytes r @ gps_bytes r l @ color_bytes r l" and off = ?c
      and l = l and r = r and rest = "wave_bytes r l @ pr_extra_bytes r", unfolded asc, folded record_bytes_def]
  note wave = take_optional(4) [where a = "fixed_bytes r @ gps_bytes r l @ color_bytes r l @ nir_bytes r l"
      and off = ?n and l = l and r = r and rest = "pr_extra_bytes r", unfolded asc, folded record_bytes_def]
  have lens: "length (fixed_bytes r @ gps_bytes r l) = ?g"
    "length (fixed_bytes r @ gps_bytes r l @ color_bytes r l) = ?c"
    "length (fixed_bytes r @ gps_bytes r l @ color_bytes r l @ nir_bytes r l) = ?n"
    by (simp_all add: length_parts(1))
  have ex: "(if 0 < sl_extra_bytes l then bslice ?src ?w (unat (sl_extra_bytes l)) else []) = pr_extra_bytes r"
  proof -
    have "bslice ?src ?w (unat (sl_extra_bytes l)) = pr_extra_bytes r"
      by (simp add: bslice_def record_bytes_def length_parts(1) assms)
    moreover have "pr_extra_bytes r = []" if "\<not> 0 < sl_extra_bytes l"
      using that assms by (simp add: word_greater_zero_iff)
    ultimately show ?thesis by simp
  qed
  show ?thesis
    unfolding deserialize_le_def len Let_def [of 0]
    by (simp only: fixed gps color [OF lens(1), unfolded Let_def] nir [OF lens(2)]
        wave [OF lens(3), unfolded Let_def] ex if_False
        not_True_eq_False simp_thms Let_def prod.case) (simp add: masked_def)
qed

interpretation spill_records: fixed_codec "\<lambda>r. record_bytes r l" "\<lambda>bs. deserialize_le bs l" "record_width l"
    "\<lambda>r. length (pr_extra_bytes r) = unat (sl_extra_bytes l)" "masked l" for l
  by unfold_locales (simp_all add: length_record_bytes deserialize_record_bytes)

text \<open>C18: Writing a record into a spill buffer and reading the buffer back: the buffer must have the
  layout's record width and the record the layout's number of extra bytes, each checked with its own error;
  then every byte of the buffer is overwritten and the record comes back with the dimensions outside the
  layout zeroed. No layout is wider than \<^verbatim>\<open>StreamingLayout::max_record_width\<close>.\<close>

theorem spill_record_round_trip:
  "bind_res (serialize_le r l dst) (\<lambda>bs. deserialize_le bs l) =
     (if length dst \<noteq> record_width l then Err (Io ''destination is {} bytes, expected {}'')
      else if length (pr_extra_bytes r) \<noteq> unat (sl_extra_bytes l)
      then Err (Io ''record has {} extra byte(s), expected {expected_extra_bytes}'')
      else Ok (masked l r)) \<and>
   record_width l \<le> max_record_width"
proof (cases "length dst = record_width l \<and> length (pr_extra_bytes r) = unat (sl_extra_bytes l)")
  case True
  then show ?thesis by (simp add: serialize_le_eq deserialize_record_bytes record_width_bound)
next
  case False
  then show ?thesis by (auto simp: serialize_le_def record_width_bound)
qed

end
