(* ===== verification/Point_Source.thy ===== *)
theory Point_Source
  imports Las_Types Bounds
begin

text \<open>
  What the writer consumes: \<^verbatim>\<open>CopcPointFields\<close> and the trait \<^verbatim>\<open>CopcPointSource\<close> of
  \<^verbatim>\<open>copc-writer/src/source.rs\<close>, and the cancellation check of \<^verbatim>\<open>copc-core/src/cancel.rs\<close>. A source is
  the record of its methods. \<^verbatim>\<open>fields_into\<close> fills a buffer that every implementation overwrites in
  full, so it is a function to the fields. A cancellation check is an oracle: \<open>c n\<close> is what the
  \<open>n\<close>-th call of \<^verbatim>\<open>check\<close> returns, and the operations thread the number of calls made.
\<close>

record copc_point_fields =
  cf_x :: f64
  cf_y :: f64
  cf_z :: f64
  cf_intensity :: u16
  cf_return_number :: u8
  cf_number_of_returns :: u8
  cf_synthetic :: u8
  cf_key_point :: u8
  cf_withheld :: u8
  cf_overlap :: u8
  cf_scan_channel :: u8
  cf_scan_direction_flag :: u8
  cf_edge_of_flight_line :: u8
  cf_classification :: u8
  cf_user_data :: u8
  cf_scan_angle :: f32
  cf_point_source_id :: u16
  cf_gps_time :: f64
  cf_red :: u16
  cf_green :: u16
  cf_blue :: u16
  cf_extra_bytes :: "u8 list"

record point_source =
  ps_len :: nat
  ps_xyz :: "nat \<Rightarrow> xyz result"
  ps_fields :: "nat \<Rightarrow> copc_point_fields result"
  ps_extra_byte_count :: u16
  ps_extra_bytes_vlrs :: "las_vlr list"

definition ps_is_empty :: "point_source \<Rightarrow> bool" where
  "ps_is_empty s = (ps_len s = 0)"

type_synonym cancel = "nat \<Rightarrow> unit result"

definition never_cancel :: cancel where
  "never_cancel n = Ok ()"

definition cancel_check :: "cancel \<Rightarrow> nat \<Rightarrow> nat result" where
  "cancel_check c polls = bind_res (c polls) (\<lambda>_. Ok (Suc polls))"

definition CANCEL_POLL_STRIDE :: nat where
  "CANCEL_POLL_STRIDE = 4096"

text \<open>\<^verbatim>\<open>if index.is_multiple_of(CANCEL_POLL_STRIDE) { cancel.check()?; }\<close>\<close>

definition poll_at :: "cancel \<Rightarrow> nat \<Rightarrow> nat \<Rightarrow> nat result" where
  "poll_at c index polls =
     (if CANCEL_POLL_STRIDE dvd index then cancel_check c polls else Ok polls)"

lemma cancel_check_Ok_iff [simp]: "cancel_check c n = Ok m \<longleftrightarrow> c n = Ok () \<and> m = Suc n"
  by (auto simp: cancel_check_def bind_res_Ok_iff)

lemma cancel_check_Err_iff [simp]: "cancel_check c n = Err e \<longleftrightarrow> c n = Err e"
  by (auto simp: cancel_check_def bind_res_Err_iff)

lemma poll_at_Err: "poll_at c i n = Err e \<Longrightarrow> c n = Err e"
  by (auto simp: poll_at_def split: if_splits)

lemma poll_never [simp]:
  "cancel_check never_cancel n = Ok (Suc n)"
  "poll_at never_cancel i n = Ok (if CANCEL_POLL_STRIDE dvd i then Suc n else n)"
  by (simp_all add: poll_at_def cancel_check_def never_cancel_def)

end
