(* ===== verification/Lod.thy ===== *)
theory Lod
  imports Point_Source Stream_IO Key_Tree
begin

text \<open>
  \<^verbatim>\<open>copc-writer/src/lod.rs\<close>: the octree of the points of a source, built over index files. An index
  file is a sequence of little-endian \<^verbatim>\<open>u32\<close> point indexes; a run is a part of one. The order file and
  the nodes are the state of \<^verbatim>\<open>LodIndexBuilder\<close>. The temporary files do not fail; reading past the end
  of one does.
\<close>

definition INDEX_RECORD_BYTES :: nat where "INDEX_RECORD_BYTES = 4"
definition MAX_OCTREE_DEPTH :: nat where "MAX_OCTREE_DEPTH = 30"

record lod_node =
  ln_key :: voxel_key
  ln_start :: u64
  ln_count :: nat

record index_run =
  ir_file :: "u8 list"
  ir_start :: nat
  ir_count :: nat

record lod_state =
  ls_order :: "u8 list"
  ls_offset :: u64
  ls_nodes :: "lod_node list"
  ls_polls :: nat

section \<open>Index files\<close>

definition open_index_run :: "index_run \<Rightarrow> bsection" where
  "open_index_run run = section_seek (ir_start run) (section_new 0 (ir_file run))"

fun write_root_indexes :: "cancel \<Rightarrow> nat list \<Rightarrow> u8 list \<times> nat \<Rightarrow> (u8 list \<times> nat) result" where
  "write_root_indexes c [] st = Ok st"
| "write_root_indexes c (index # rest) (file, polls) =
     bind_res (poll_at c index polls) (\<lambda>polls.
       write_root_indexes c rest (file @ u32_to_le (of_nat index), polls))"

definition write_root_index_run :: "u32 \<Rightarrow> cancel \<Rightarrow> nat \<Rightarrow> (index_run \<times> nat) result" where
  "write_root_index_run total_points c polls =
     bind_res (write_root_indexes c [0..<unat total_points] ([], polls)) (\<lambda>(file, polls).
       Ok (\<lparr>ir_file = file, ir_start = 0, ir_count = unat total_points\<rparr>, polls))"

definition append_index_to_order :: "u32 \<Rightarrow> lod_state \<Rightarrow> lod_state result" where
  "append_index_to_order index st =
     bind_res (ok_or (checked_add (ls_offset st) (of_nat INDEX_RECORD_BYTES))
         (InvalidInput ''LOD index order exceeds u64 range'')) (\<lambda>off.
       Ok (st\<lparr>ls_order := ls_order st @ u32_to_le index, ls_offset := off\<rparr>))"

text \<open>The body of a loop that copies a run into the order file.\<close>

definition append_run_step :: "cancel \<Rightarrow> nat \<Rightarrow> lod_state \<times> bsection \<Rightarrow> (lod_state \<times> bsection) result" where
  "append_run_step c read_index = (\<lambda>(st, reader).
     bind_res (poll_at c read_index (ls_polls st)) (\<lambda>polls.
     bind_res (read_u32 ''read LOD index'' reader) (\<lambda>(index, reader).
     bind_res (append_index_to_order index (st\<lparr>ls_polls := polls\<rparr>)) (\<lambda>st.
       Ok (st, reader)))))"

definition append_index_run_to_order :: "cancel \<Rightarrow> index_run \<Rightarrow> lod_state \<Rightarrow> lod_state result" where
  "append_index_run_to_order c run st =
     bind_res (fold_res (append_run_step c) [0..<ir_count run] (st, open_index_run run)) (\<lambda>(st, _).
       Ok st)"

section \<open>Partitioning a run\<close>

text \<open>The eight partition files with their counts, all absent at the start, and the reader.\<close>

definition partition_step ::
  "point_source \<Rightarrow> xyz \<Rightarrow> cancel \<Rightarrow> nat \<Rightarrow> (u8 list option list \<times> nat list \<times> bsection \<times> nat) \<Rightarrow>
    (u8 list option list \<times> nat list \<times> bsection \<times> nat) result" where
  "partition_step src center c read_index = (\<lambda>(writers, counts, reader, polls).
     bind_res (poll_at c read_index polls) (\<lambda>polls.
     bind_res (read_u32 ''read LOD partition index'' reader) (\<lambda>(index, reader).
     bind_res (ps_xyz src (unat index)) (\<lambda>(x, y, z).
       let octant = child_octant center x y z;
           file = (case writers ! octant of None \<Rightarrow> [] | Some f \<Rightarrow> f)
       in Ok (writers[octant := Some (file @ u32_to_le index)],
              counts[octant := counts ! octant + 1], reader, polls)))))"

definition partition_index_run ::
  "point_source \<Rightarrow> index_run \<Rightarrow> bounds \<Rightarrow> cancel \<Rightarrow> nat \<Rightarrow> (index_run option list \<times> nat) result" where
  "partition_index_run src run b c polls =
     bind_res (fold_res (partition_step src (bounds_center b) c) [0..<ir_count run]
         (replicate 8 None, replicate 8 0, open_index_run run, polls)) (\<lambda>(writers, counts, _, polls).
       Ok (map (\<lambda>octant. map_option (\<lambda>file.
             \<lparr>ir_file = file, ir_start = 0, ir_count = counts ! octant\<rparr>) (writers ! octant)) [0..<8],
           polls))"

section \<open>The selection of a node\<close>

text \<open>
  The node's own points are taken from the children in turns, one each, until the node is full or
  the children are exhausted. \<open>select_pass\<close> is the inner loop over the octants, which breaks when the
  node is full, and \<open>select_loop\<close> the outer one.
\<close>

record sel_state =
  se_readers :: "bsection option list"
  se_counts :: "nat list"
  se_total :: nat
  se_progressed :: bool
  se_lod :: lod_state

definition select_one :: "nat \<Rightarrow> sel_state \<Rightarrow> sel_state result" where
  "select_one octant s =
     bind_res (ok_or (se_readers s ! octant) (InvalidData ''partition reader was not opened'')) (\<lambda>reader.
     bind_res (read_u32 ''read selected LOD index'' reader) (\<lambda>(index, reader).
     bind_res (append_index_to_order index (se_lod s)) (\<lambda>st.
       Ok (s\<lparr>se_readers := (se_readers s)[octant := Some reader],
             se_counts := (se_counts s)[octant := se_counts s ! octant + 1],
             se_total := se_total s + 1, se_progressed := True, se_lod := st\<rparr>))))"

fun select_pass :: "index_run option list \<Rightarrow> nat \<Rightarrow> nat list \<Rightarrow> sel_state \<Rightarrow> sel_state result" where
  "select_pass children limit [] s = Ok s"
| "select_pass children limit (octant # rest) s =
     (case children ! octant of
        None \<Rightarrow> select_pass children limit rest s
      | Some child \<Rightarrow>
          if ir_count child \<le> se_counts s ! octant then select_pass children limit rest s
          else bind_res (select_one octant s) (\<lambda>s.
            if se_total s = limit then Ok s else select_pass children limit rest s))"

lemma select_one_total: "select_one octant s = Ok t \<Longrightarrow> se_total t = se_total s + 1 \<and> se_progressed t"
  by (auto simp: select_one_def bind_res_Ok_iff)

lemma select_pass_total:
  "select_pass children limit octants s = Ok t \<Longrightarrow>
    se_total s \<le> se_total t \<and> (se_progressed t \<longrightarrow> se_progressed s \<or> se_total s < se_total t)"
proof (induction children limit octants s rule: select_pass.induct)
  case (2 children limit octant rest s)
  show ?case
  proof (cases "children ! octant")
    case None
    then show ?thesis using 2 by simp
  next
    case (Some child)
    show ?thesis
    proof (cases "ir_count child \<le> se_counts s ! octant")
      case True
      then show ?thesis using 2 Some by simp
    next
      case False
      from 2(4) Some False obtain s' where s': "select_one octant s = Ok s'"
        and rest: "(if se_total s' = limit then Ok s' else select_pass children limit rest s') = Ok t"
        by (auto simp: bind_res_Ok_iff)
      note tot = select_one_total [OF s']
      show ?thesis
      proof (cases "se_total s' = limit")
        case True
        then show ?thesis using rest tot by auto
      next
        case ne: False
        then show ?thesis using 2(3) [OF Some False s' ne] rest tot by auto
      qed
    qed
  qed
qed simp

function select_loop :: "cancel \<Rightarrow> index_run option list \<Rightarrow> nat \<Rightarrow> sel_state \<Rightarrow> sel_state result" where
  "select_loop c children limit s =
     (if se_total s < limit then
        bind_res (cancel_check c (ls_polls (se_lod s))) (\<lambda>polls.
        bind_res (select_pass children limit [0..<8]
            (s\<lparr>se_progressed := False, se_lod := (se_lod s)\<lparr>ls_polls := polls\<rparr>\<rparr>)) (\<lambda>t.
          if se_progressed t then select_loop c children limit t else Ok t))
      else Ok s)"
  by pat_completeness auto
termination
proof (relation "measure (\<lambda>(c, children, limit, s). limit - se_total s)", goal_cases)
  case (2 c children limit s polls t)
  then show ?case using select_pass_total [OF 2(3)] by auto
qed simp

declare select_loop.simps [simp del]

definition append_lod_selection_to_order ::
  "cancel \<Rightarrow> index_run option list \<Rightarrow> nat \<Rightarrow> lod_state \<Rightarrow> (nat list \<times> lod_state) result" where
  "append_lod_selection_to_order c children max_points_per_node st =
     bind_res (select_loop c children max_points_per_node
         \<lparr>se_readers = map (map_option open_index_run) children, se_counts = replicate 8 0,
          se_total = 0, se_progressed = False, se_lod = st\<rparr>) (\<lambda>s.
       Ok (se_counts s, se_lod s))"

section \<open>The octree\<close>

definition push_node :: "voxel_key \<Rightarrow> u64 \<Rightarrow> nat \<Rightarrow> lod_state \<Rightarrow> lod_state" where
  "push_node key start n st =
     st\<lparr>ls_nodes := ls_nodes st @ [\<lparr>ln_key = key, ln_start = start, ln_count = n\<rparr>]\<rparr>"

lemma vk_child_depth:
  assumes "vk_child k c = Ok ck" "unat (vk_level k) < 30"
  shows "unat (vk_level ck) = unat (vk_level k) + 1"
proof -
  have "sint (vk_level k) = int (unat (vk_level k))"
    using sint_of_small_nat [of "unat (vk_level k)"] assms(2) by simp
  then have s: "sint (vk_level ck) = int (unat (vk_level k) + 1)"
    using vk_child_fields(2) [OF assms(1)] by simp
  have "sint (of_nat (unat (vk_level k) + 1) :: i32) = int (unat (vk_level k) + 1)"
    using assms(2) by (intro sint_of_small_nat) simp
  then have "vk_level ck = of_nat (unat (vk_level k) + 1)" using s by (metis sint_eqI)
  moreover have "unat (of_nat (unat (vk_level k) + 1) :: i32) = unat (vk_level k) + 1"
    using assms(2) by (intro unat_of_nat_small) simp
  ultimately show ?thesis by simp
qed

function assign :: "point_source \<Rightarrow> nat \<Rightarrow> cancel \<Rightarrow> voxel_key \<Rightarrow> index_run \<Rightarrow> bounds \<Rightarrow> lod_state \<Rightarrow>
    lod_state result" where
  "assign src limit c key run b st =
     bind_res (cancel_check c (ls_polls st)) (\<lambda>polls.
     let st = st\<lparr>ls_polls := polls\<rparr>
     in if ir_count run = 0 then Ok st
        else if ir_count run \<le> limit then
          let start = ls_offset st
          in bind_res (append_index_run_to_order c run st) (\<lambda>st.
               Ok (push_node key start (ir_count run) st))
        else if MAX_OCTREE_DEPTH \<le> unat (vk_level key) then
          Err (InvalidInput ''octree node {key:?} still contains {} points at the maximum depth; increase max_points_per_node above {}'')
        else
          bind_res (partition_index_run src run b c (ls_polls st)) (\<lambda>(children, polls).
          let st = st\<lparr>ls_polls := polls\<rparr>;
              start = ls_offset st
          in bind_res (append_lod_selection_to_order c children limit st) (\<lambda>(selected_counts, st).
          let st = push_node key start (sum_list selected_counts) st
          in fold_res (\<lambda>octant st.
               case children ! octant of
                 None \<Rightarrow> Ok st
               | Some child_run \<Rightarrow>
                   let selected = selected_counts ! octant
                   in if ir_count child_run \<le> selected then Ok st
                      else bind_res (vk_child key (of_nat octant)) (\<lambda>child_key.
                        assign src limit c child_key
                          (child_run\<lparr>ir_start := ir_start child_run + selected * INDEX_RECORD_BYTES,
                             ir_count := ir_count child_run - selected\<rparr>)
                          (bounds_octant b (of_nat octant)) st)) [0..<8] st)))"
  by pat_completeness auto

termination
proof (relation "measure (\<lambda>(src, limit, c, key, run, b, st). 30 - unat (vk_level key))", goal_cases)
  case (2 src limit c key)
  then show ?case using vk_child_depth by (auto simp: MAX_OCTREE_DEPTH_def)
qed simp

declare assign.simps [simp del]

definition build_lod_index ::
  "point_source \<Rightarrow> xyz \<Rightarrow> f64 \<Rightarrow> u32 \<Rightarrow> cancel \<Rightarrow> nat \<Rightarrow> (lod_node list \<times> u8 list \<times> nat) result" where
  "build_lod_index src center halfsize max_points_per_node c polls =
     bind_res (cancel_check c polls) (\<lambda>polls.
     bind_res (ensure (ps_len src < 2 ^ 32)
         (InvalidInput ''COPC writer supports at most u32::MAX points per file'')) (\<lambda>_.
     bind_res (ensure (max_points_per_node \<noteq> 0)
         (InvalidInput ''max_points_per_node must be greater than zero'')) (\<lambda>_.
     bind_res (write_root_index_run (of_nat (ps_len src)) c polls) (\<lambda>(root_run, polls).
     bind_res (assign src (unat max_points_per_node) c vk_root root_run (bounds_cube center halfsize)
         \<lparr>ls_order = [], ls_offset = 0, ls_nodes = [], ls_polls = polls\<rparr>) (\<lambda>st.
       Ok (sort_key ln_key (ls_nodes st), ls_order st, ls_polls st))))))"

definition cube_from_bounds :: "bounds \<Rightarrow> xyz \<times> f64" where
  "cube_from_bounds b =
     (case (b_min b, b_max b) of ((x0, y0, z0), (x1, y1, z1)) \<Rightarrow>
        let dx = f64_sub x1 x0; dy = f64_sub y1 y0; dz = f64_sub z1 z0;
            center = (f64_add x0 (f64_mul dx f64_half), f64_add y0 (f64_mul dy f64_half),
                      f64_add z0 (f64_mul dz f64_half));
            halfsize = f64_max (f64_mul (f64_max (f64_max dx dy) dz) f64_half) 0x3EB0C6F7A0B5ED8D
        in (center, halfsize))"

end
