(* ===== verification/Lod_Spec.thy ===== *)
theory Lod_Spec
  imports Lod Codec
begin

text \<open>
  The octree as a specification on lists of point indexes, and the proof that the builder of \<open>Lod\<close>,
  which works on index files, implements it. \<open>lod_tree\<close> relates the points that arrive at a node to
  the nodes of its subtree with their own points.
\<close>

section \<open>Index files as lists\<close>

definition ixfile :: "u32 list \<Rightarrow> u8 list" where
  "ixfile ixs = concat (map u32_to_le ixs)"

lemma ixfile_simps [simp]:
  "ixfile [] = []" "ixfile (i # ixs) = u32_to_le i @ ixfile ixs" "ixfile (xs @ ys) = ixfile xs @ ixfile ys"
  by (simp_all add: ixfile_def)

lemma length_ixfile [simp]: "length (ixfile ixs) = 4 * length ixs"
  by (induction ixs) simp_all

interpretation index_records: fixed_codec u32_to_le "\<lambda>bs. Ok (u32_from_le bs)" 4 "\<lambda>_. True" "\<lambda>i. i"
  by unfold_locales simp_all

text \<open>A run, or a reader, that still has the indexes \<open>ixs\<close> in front of it.\<close>

definition reads :: "u32 list \<Rightarrow> bsection \<Rightarrow> bool" where
  "reads ixs r \<longleftrightarrow> sec_base r = 0 \<and> (\<exists>rest. drop (sec_pos r) (sec_data r) = ixfile ixs @ rest)"

definition run_holds :: "u32 list \<Rightarrow> index_run \<Rightarrow> bool" where
  "run_holds ixs run \<longleftrightarrow> ir_count run = length ixs \<and>
     (\<exists>rest. drop (ir_start run) (ir_file run) = ixfile ixs @ rest)"

lemma reads_open: "run_holds ixs run \<Longrightarrow> reads ixs (open_index_run run)"
  by (simp add: reads_def run_holds_def open_index_run_def section_seek_def section_new_def)

lemma read_u32_reads:
  assumes "reads (i # ixs) r"
  shows "\<exists>r'. read_u32 ctx r = Ok (i, r') \<and> reads ixs r'"
proof -
  from assms obtain rest where b: "sec_base r = 0"
    and d: "drop (sec_pos r) (sec_data r) = u32_to_le i @ ixfile ixs @ rest"
    by (auto simp: reads_def)
  have "length (drop (sec_pos r) (sec_data r)) \<ge> 4" unfolding d by simp
  then have h: "holds_range r (sec_pos r) 4" using b by (simp add: holds_range_def)
  have "sec_bytes r (sec_pos r) 4 = u32_to_le i" using d b by (simp add: sec_bytes_def bslice_def)
  then have "read_u32 ctx r = Ok (i, r\<lparr>sec_pos := sec_pos r + 4\<rparr>)"
    using read_num_eq(3) [OF h] by simp
  moreover have "drop (sec_pos r + 4) (sec_data r) = drop 4 (drop (sec_pos r) (sec_data r))"
    by (simp add: add.commute)
  then have "drop (sec_pos r + 4) (sec_data r) = ixfile ixs @ rest" unfolding d by simp
  then have "reads ixs (r\<lparr>sec_pos := sec_pos r + 4\<rparr>)" using b by (auto simp: reads_def)
  ultimately show ?thesis by blast
qed

lemma reads_drop_step:
  assumes "reads (drop n ixs) r" "n < length ixs"
  shows "\<exists>r'. read_u32 ctx r = Ok (ixs ! n, r') \<and> reads (drop (Suc n) ixs) r'"
  using read_u32_reads [of "ixs ! n" "drop (Suc n) ixs" r ctx] assms by (simp add: Cons_nth_drop_Suc)

text \<open>The state of the builder after indexes were appended to the order file.\<close>

definition appended :: "lod_state \<Rightarrow> u32 list \<Rightarrow> lod_state \<Rightarrow> bool" where
  "appended st ixs t \<longleftrightarrow> ls_order t = ls_order st @ ixfile ixs \<and>
     unat (ls_offset t) = unat (ls_offset st) + 4 * length ixs \<and> ls_nodes t = ls_nodes st"

lemma appended_refl [simp]: "appended st [] st"
  by (simp add: appended_def)

lemma appended_trans: "appended st xs t \<Longrightarrow> appended t ys u \<Longrightarrow> appended st (xs @ ys) u"
  by (simp add: appended_def)

lemma appended_polls [simp]:
  "appended (st\<lparr>ls_polls := n\<rparr>) xs t \<longleftrightarrow> appended st xs t"
  "appended st xs (t\<lparr>ls_polls := n\<rparr>) \<longleftrightarrow> appended st xs t"
  by (simp_all add: appended_def)

lemma append_index_appended:
  assumes "unat (ls_offset st) + 4 < 2 ^ 64"
  shows "\<exists>t. append_index_to_order i st = Ok t \<and> appended st [i] t \<and> ls_polls t = ls_polls st"
proof -
  let ?four = "of_nat INDEX_RECORD_BYTES :: u64"
  have f: "unat ?four = 4" by (simp add: INDEX_RECORD_BYTES_def)
  have "checked_add (ls_offset st) ?four = Some (ls_offset st + ?four)"
    using assms f by (simp add: checked_add_def)
  moreover have "unat (ls_offset st + ?four) = unat (ls_offset st) + 4"
    using checked_add_Some [OF \<open>checked_add (ls_offset st) ?four = Some (ls_offset st + ?four)\<close>] f by simp
  ultimately show ?thesis by (simp add: append_index_to_order_def appended_def)
qed

lemma append_index_spec:
  assumes "appended st xs u" "unat (ls_offset st) + 4 * (length xs + 1) < 2 ^ 64"
  shows "\<exists>t. append_index_to_order i u = Ok t \<and> appended st (xs @ [i]) t"
proof -
  have "unat (ls_offset u) + 4 < 2 ^ 64" using assms by (simp add: appended_def)
  from append_index_appended [OF this, of i] obtain t
    where "append_index_to_order i u = Ok t" "appended u [i] t" by blast
  then show ?thesis using appended_trans [OF assms(1)] by blast
qed

section \<open>Copying a run\<close>

definition cancelled_with :: "cancel \<Rightarrow> copc_error \<Rightarrow> bool" where
  "cancelled_with c e \<longleftrightarrow> (\<exists>n. c n = Err e)"

lemma cancel_spec: "res_spec (cancelled_with c) (\<lambda>_. True) (cancel_check c n)"
  by (cases "c n") (auto simp: cancel_check_def cancelled_with_def)

lemma poll_spec: "res_spec (cancelled_with c) (\<lambda>_. True) (poll_at c i n)"
  by (cases "c n") (auto simp: poll_at_def cancel_check_def cancelled_with_def)

lemma append_run_spec:
  assumes "run_holds ixs run" "unat (ls_offset st) + 4 * length ixs < 2 ^ 64"
  shows "res_spec (cancelled_with c) (appended st ixs) (append_index_run_to_order c run st)"
proof -
  have n: "ir_count run = length ixs" using assms(1) by (simp add: run_holds_def)
  let ?I = "\<lambda>i (u, r). appended st (take i ixs) u \<and> reads (drop i ixs) r"
  have "res_spec (cancelled_with c) (?I (length ixs))
      (fold_res (append_run_step c) [0..<length ixs] (st, open_index_run run))"
  proof (rule res_spec_fold_upt)
    show "?I 0 (st, open_index_run run)" using reads_open [OF assms(1)] by simp
    fix i ur assume i: "i < length ixs" and I: "?I i ur"
    obtain u r where ur: "ur = (u, r)" by (cases ur)
    have off: "unat (ls_offset st) + 4 * (length (take i ixs) + 1) < 2 ^ 64" using assms(2) i by simp
    from reads_drop_step [of i ixs r "''read LOD index''"] i I ur
    obtain r' where r': "read_u32 ''read LOD index'' r = Ok (ixs ! i, r')" "reads (drop (Suc i) ixs) r'"
      by auto
    show "res_spec (cancelled_with c) (?I (Suc i)) (append_run_step c i ur)"
    proof (cases "poll_at c i (ls_polls u)")
      case (Inl e)
      then show ?thesis
        using poll_at_Err [of c i] by (auto simp: append_run_step_def ur cancelled_with_def)
    next
      case (Inr polls)
      have "appended st (take i ixs) (u\<lparr>ls_polls := polls\<rparr>)" using I ur by simp
      from append_index_spec [OF this off, of "ixs ! i"] obtain t
        where "append_index_to_order (ixs ! i) (u\<lparr>ls_polls := polls\<rparr>) = Ok t"
          "appended st (take i ixs @ [ixs ! i]) t" by blast
      then show ?thesis using Inr r' i by (simp add: append_run_step_def ur take_Suc_conv_app_nth)
    qed
  qed
  then show ?thesis unfolding append_index_run_to_order_def n
    by (rule res_spec_bind) auto
qed

section \<open>Partitioning\<close>

definition octant_of :: "point_source \<Rightarrow> xyz \<Rightarrow> u32 \<Rightarrow> nat" where
  "octant_of src center i =
     (case ps_xyz src (unat i) of Inl _ \<Rightarrow> 0 | Inr (x, y, z) \<Rightarrow> child_octant center x y z)"

lemma octant_of_lt: "octant_of src center i < 8"
  by (simp add: octant_of_def child_octant_lt split: sum.split prod.split)

definition part :: "point_source \<Rightarrow> xyz \<Rightarrow> u32 list \<Rightarrow> nat \<Rightarrow> u32 list" where
  "part src center ixs octant = filter (\<lambda>i. octant_of src center i = octant) ixs"

lemma part_snoc:
  "part src center (xs @ [i]) octant =
    (if octant_of src center i = octant then part src center xs octant @ [i] else part src center xs octant)"
  by (simp add: part_def)

definition source_error :: "point_source \<Rightarrow> u32 list \<Rightarrow> copc_error \<Rightarrow> bool" where
  "source_error src ixs e \<longleftrightarrow> (\<exists>i \<in> set ixs. ps_xyz src (unat i) = Err e)"

definition children_hold :: "(nat \<Rightarrow> u32 list) \<Rightarrow> index_run option list \<Rightarrow> bool" where
  "children_hold chs children \<longleftrightarrow> length children = 8 \<and>
     (\<forall>octant < 8. case children ! octant of
        None \<Rightarrow> chs octant = []
      | Some run \<Rightarrow> chs octant \<noteq> [] \<and> run_holds (chs octant) run)"

lemma map_upt_update:
  assumes "octant < n" "\<And>i. i < n \<Longrightarrow> i \<noteq> octant \<Longrightarrow> g i = f i"
  shows "(map f [0..<n])[octant := g octant] = map g [0..<n]"
  by (rule nth_equalityI) (use assms in \<open>auto simp: nth_list_update\<close>)

definition part_state :: "point_source \<Rightarrow> xyz \<Rightarrow> u32 list \<Rightarrow> nat \<Rightarrow>
    u8 list option list \<times> nat list \<times> bsection \<times> nat \<Rightarrow> bool" where
  "part_state src center ixs i = (\<lambda>(writers, counts, reader, polls).
     writers = map (\<lambda>o'. if part src center (take i ixs) o' = [] then None
                       else Some (ixfile (part src center (take i ixs) o'))) [0..<8] \<and>
     counts = map (\<lambda>o'. length (part src center (take i ixs) o')) [0..<8] \<and>
     reads (drop i ixs) reader)"

lemma partition_step_spec:
  assumes I: "part_state src center ixs i s" and i: "i < length ixs"
  shows "res_spec (\<lambda>e. cancelled_with c e \<or> source_error src ixs e) (part_state src center ixs (Suc i))
    (partition_step src center c i s)"
proof -
  obtain writers counts reader polls where s: "s = (writers, counts, reader, polls)" by (cases s)
  from I i s reads_drop_step [of i ixs reader "''read LOD partition index''"] obtain r'
    where r': "read_u32 ''read LOD partition index'' reader = Ok (ixs ! i, r')" "reads (drop (Suc i) ixs) r'"
    by (auto simp: part_state_def)
  show ?thesis
  proof (cases "poll_at c i polls")
    case (Inl e)
    then show ?thesis using poll_at_Err [of c i] by (auto simp: partition_step_def s cancelled_with_def)
  next
    case polls': (Inr polls')
    show ?thesis
    proof (cases "ps_xyz src (unat (ixs ! i))")
      case (Inl e)
      then have "source_error src ixs e" using i by (auto simp: source_error_def)
      then show ?thesis using Inl polls' r' by (simp add: partition_step_def s)
    next
      case (Inr p)
      obtain x y z where p: "p = (x, y, z)" by (cases p)
      let ?o = "octant_of src center (ixs ! i)"
      have o': "child_octant center x y z = ?o" "?o < 8"
        using Inr p octant_of_lt [of src center "ixs ! i"] by (simp_all add: octant_of_def)
      note snoc = take_Suc_conv_app_nth [OF i] part_snoc
      define w where "w = (\<lambda>j o'. if part src center (take j ixs) o' = [] then None
          else Some (ixfile (part src center (take j ixs) o')))"
      define n where "n = (\<lambda>j o'. length (part src center (take j ixs) o'))"
      have ws: "writers = map (w i) [0..<8]" "counts = map (n i) [0..<8]"
        using I s by (simp_all add: part_state_def w_def n_def)
      have "(case writers ! ?o of None \<Rightarrow> [] | Some f \<Rightarrow> f) = ixfile (part src center (take i ixs) ?o)"
        using o'(2) unfolding ws by (simp add: w_def)
      moreover have "writers[?o := w (Suc i) ?o] = map (w (Suc i)) [0..<8]"
        unfolding ws using o'(2) by (intro map_upt_update) (simp_all add: w_def snoc)
      moreover have "counts[?o := n (Suc i) ?o] = map (n (Suc i)) [0..<8]"
        unfolding ws using o'(2) by (intro map_upt_update) (simp_all add: n_def snoc)
      moreover have "w (Suc i) ?o = Some (ixfile (part src center (take i ixs) ?o) @ u32_to_le (ixs ! i))"
        "n (Suc i) ?o = counts ! ?o + 1"
        unfolding ws using o'(2) by (simp_all add: w_def n_def snoc)
      ultimately show ?thesis
        using Inr p polls' r' o'(1)
        by (simp add: partition_step_def s part_state_def w_def [symmetric] n_def [symmetric])
          (simp add: w_def n_def)
    qed
  qed
qed

lemma partition_spec:
  assumes "run_holds ixs run"
  shows "res_spec (\<lambda>e. cancelled_with c e \<or> source_error src ixs e)
    (\<lambda>(children, polls). children_hold (part src (bounds_center b) ixs) children)
    (partition_index_run src run b c polls)"
proof -
  let ?c = "bounds_center b"
  have n: "ir_count run = length ixs" using assms by (simp add: run_holds_def)
  have 8: "[0..<8] = [0, 1, 2, 3, 4, 5, 6, 7 :: nat]" by (simp add: upt_rec)
  have "res_spec (\<lambda>e. cancelled_with c e \<or> source_error src ixs e) (part_state src ?c ixs (length ixs))
      (fold_res (partition_step src ?c c) [0..<length ixs]
        (replicate 8 None, replicate 8 0, open_index_run run, polls))"
    by (rule res_spec_fold_upt)
      (use reads_open [OF assms] partition_step_spec in
        \<open>auto simp: part_state_def part_def map_replicate_const\<close>)
  then show ?thesis unfolding partition_index_run_def n
    by (rule res_spec_bind) (auto simp: part_state_def children_hold_def run_holds_def)
qed

section \<open>Selection in turns\<close>

text \<open>
  The order in which the points of the children are taken: row after row, a row being the \<open>k\<close>-th
  points of the children that have one. \<open>taken chs k j\<close> are the rows before \<open>k\<close> and of row \<open>k\<close> the
  part below octant \<open>j\<close>; the whole is the concatenation of the transposed children.
\<close>

definition row :: "(nat \<Rightarrow> u32 list) \<Rightarrow> nat \<Rightarrow> nat \<Rightarrow> u32 list" where
  "row chs k j = map (\<lambda>octant. chs octant ! k) (filter (\<lambda>octant. k < length (chs octant)) [0..<j])"

definition taken :: "(nat \<Rightarrow> u32 list) \<Rightarrow> nat \<Rightarrow> nat \<Rightarrow> u32 list" where
  "taken chs k j = concat (map (\<lambda>k. row chs k 8) [0..<k]) @ row chs k j"

definition in_turns :: "(nat \<Rightarrow> u32 list) \<Rightarrow> u32 list" where
  "in_turns chs = concat (transpose (map chs [0..<8]))"

lemma row_0 [simp]: "row chs k 0 = []"
  by (simp add: row_def)

lemma row_Suc: "row chs k (Suc j) = row chs k j @ (if k < length (chs j) then [chs j ! k] else [])"
  by (simp add: row_def)

lemma taken_0 [simp]: "taken chs 0 0 = []"
  by (simp add: taken_def)

lemma taken_next_row: "taken chs k 8 = taken chs (Suc k) 0"
  by (simp add: taken_def)

lemma taken_Suc: "taken chs k (Suc j) = taken chs k j @ (if k < length (chs j) then [chs j ! k] else [])"
  by (simp add: taken_def row_Suc)

lemma row_transpose:
  assumes "k < length (transpose (map chs [0..<8]))"
  shows "transpose (map chs [0..<8]) ! k = row chs k 8"
  using assms by (simp add: nth_transpose row_def filter_map comp_def)

lemma foldr_max_ge: "x \<in> set xs \<Longrightarrow> f x \<le> foldr (\<lambda>x. max (f x)) xs (0 :: nat)"
  by (induction xs) auto

lemma row_beyond:
  assumes "length (transpose (map chs [0..<8])) \<le> k"
  shows "row chs k 8 = []"
proof -
  have "length (chs octant) \<le> k" if "octant < 8" for octant
  proof -
    have "length (chs octant) \<le> length (transpose (map chs [0..<8]))"
      unfolding length_transpose
      by (rule foldr_max_ge [where f = length]) (use that in auto)
    with assms show ?thesis by simp
  qed
  then show ?thesis by (auto simp: row_def filter_empty_conv not_less)
qed

lemma upt_split: "a \<le> b \<Longrightarrow> [0..<b] = [0..<a] @ [a..<b]"
  by (metis le_add_diff_inverse upt_add_eq_append zero_le)

lemma taken_later:
  assumes "k \<le> K"
  shows "taken chs K 0 = taken chs k 0 @ concat (map (\<lambda>k. row chs k 8) [k..<K])"
  by (simp add: taken_def upt_split [OF assms])

lemma in_turns_rows:
  assumes "length (transpose (map chs [0..<8])) \<le> K"
  shows "in_turns chs = taken chs K 0"
proof -
  define L where "L = length (transpose (map chs [0..<8]))"
  have "transpose (map chs [0..<8]) = map (\<lambda>k. row chs k 8) [0..<L]"
    by (rule nth_equalityI) (simp_all add: row_transpose L_def)
  then have "in_turns chs = taken chs L 0" by (simp add: in_turns_def taken_def)
  moreover have "concat (map (\<lambda>k. row chs k 8) [L..<K]) = []" using row_beyond by (auto simp: L_def)
  ultimately show ?thesis using taken_later [of L K chs] assms by (simp add: L_def)
qed

lemma taken_prefix:
  assumes "j \<le> 8"
  shows "\<exists>rest. taken chs k j @ rest = in_turns chs"
proof -
  define K where "K = max (length (transpose (map chs [0..<8]))) (Suc k)"
  obtain r where "row chs k 8 = row chs k j @ r" by (simp add: row_def upt_split [OF assms] del: upt_rec_numeral)
  then have "taken chs (Suc k) 0 = taken chs k j @ r" by (simp add: taken_def)
  moreover have "in_turns chs = taken chs K 0" by (rule in_turns_rows) (simp add: K_def)
  ultimately show ?thesis using taken_later [of "Suc k" K chs] by (simp add: K_def)
qed

lemma taken_all:
  assumes "\<And>octant. octant < 8 \<Longrightarrow> length (chs octant) \<le> k"
  shows "taken chs k 0 = in_turns chs"
proof -
  have r: "row chs k' 8 = []" if "k \<le> k'" for k'
  proof -
    have "length (chs octant) \<le> k'" if "octant < 8" for octant
      using assms [OF that] \<open>k \<le> k'\<close> by simp
    then show ?thesis by (auto simp: row_def filter_empty_conv not_less simp del: upt_rec_numeral)
  qed
  define K where "K = max (length (transpose (map chs [0..<8]))) k"
  have "concat (map (\<lambda>k. row chs k 8) [k..<K]) = []" using r by auto
  moreover have "in_turns chs = taken chs K 0" by (rule in_turns_rows) (simp add: K_def)
  ultimately show ?thesis using taken_later [of k K chs] by (simp add: K_def)
qed

text \<open>
  The state of the selection when \<open>picked\<close> was written: \<open>cs\<close> of each child's points are gone, and
  its reader stands before the others.
\<close>

definition sel_inv ::
  "lod_state \<Rightarrow> (nat \<Rightarrow> u32 list) \<Rightarrow> (nat \<Rightarrow> nat) \<Rightarrow> u32 list \<Rightarrow> sel_state \<Rightarrow> bool" where
  "sel_inv st chs cs picked s \<longleftrightarrow>
     length (se_readers s) = 8 \<and> length (se_counts s) = 8 \<and>
     (\<forall>octant < 8. se_counts s ! octant = cs octant \<and> cs octant \<le> length (chs octant) \<and>
        (chs octant \<noteq> [] \<longrightarrow>
          (\<exists>r. se_readers s ! octant = Some r \<and> reads (drop (cs octant) (chs octant)) r))) \<and>
     se_total s = length picked \<and> mset picked = (\<Sum>octant<8. mset (take (cs octant) (chs octant))) \<and>
     appended st picked (se_lod s)"

lemma sum_update:
  fixes g :: "nat \<Rightarrow> nat \<Rightarrow> 'a :: comm_monoid_add"
  assumes "i < n" "g i v = g i (cs i) + x"
  shows "(\<Sum>j<n. g j ((cs(i := v)) j)) = (\<Sum>j<n. g j (cs j)) + x"
proof -
  define h where "h = (\<lambda>j. g j ((cs(i := v)) j))"
  define k where "k = (\<lambda>j. g j (cs j))"
  have i: "i \<in> {..<n}" using assms(1) by simp
  have hi: "h i = k i + x" using assms(2) by (simp add: h_def k_def)
  have r: "sum h ({..<n} - {i}) = sum k ({..<n} - {i})"
    by (rule sum.cong) (simp_all add: h_def k_def)
  have "sum h {..<n} = h i + sum h ({..<n} - {i})" by (rule sum.remove [OF finite_lessThan i])
  also have "\<dots> = (k i + sum k ({..<n} - {i})) + x"
    unfolding r hi by (simp only: add.assoc add.commute add.left_commute)
  also have "k i + sum k ({..<n} - {i}) = sum k {..<n}" by (rule sum.remove [OF finite_lessThan i, symmetric])
  finally show ?thesis unfolding h_def k_def .
qed

lemma picked_length:
  assumes "mset picked = (\<Sum>octant<8. mset (take (cs octant) (chs octant)))"
  shows "length picked \<le> (\<Sum>octant<8. length (chs octant))"
proof -
  have "length picked = size (\<Sum>octant<8. mset (take (cs octant) (chs octant)))"
    unfolding assms [symmetric] by (rule size_mset [symmetric])
  also have "\<dots> = (\<Sum>octant<8. size (mset (take (cs octant) (chs octant))))" by (rule size_multiset_sum)
  also have "\<dots> \<le> (\<Sum>octant<8. length (chs octant))" by (rule sum_mono) simp
  finally show ?thesis .
qed

lemma sel_inv_polls:
  "sel_inv st chs cs picked s \<Longrightarrow>
    sel_inv st chs cs picked (s\<lparr>se_progressed := b, se_lod := (se_lod s)\<lparr>ls_polls := n\<rparr>\<rparr>)"
  by (simp add: sel_inv_def)

lemma select_one_spec:
  assumes inv: "sel_inv st chs cs picked s" and o8: "octant < 8" and lt: "cs octant < length (chs octant)"
    and room: "unat (ls_offset st) + 4 * (\<Sum>octant<8. length (chs octant)) < 2 ^ 64"
  shows "\<exists>t. select_one octant s = Ok t \<and>
    sel_inv st chs (cs(octant := cs octant + 1)) (picked @ [chs octant ! cs octant]) t \<and> se_progressed t"
proof -
  have ne: "chs octant \<noteq> []" using lt by auto
  obtain r where r: "se_readers s ! octant = Some r" "reads (drop (cs octant) (chs octant)) r"
    using inv o8 ne unfolding sel_inv_def by blast
  obtain r' where r': "read_u32 ''read selected LOD index'' r = Ok (chs octant ! cs octant, r')"
      "reads (drop (Suc (cs octant)) (chs octant)) r'"
    using reads_drop_step [OF r(2) lt] by blast
  have m: "mset (picked @ [chs octant ! cs octant]) =
      (\<Sum>j<8. mset (take ((cs(octant := cs octant + 1)) j) (chs j)))"
    using inv sum_update [OF o8, where g = "\<lambda>j n. mset (take n (chs j))" and cs = cs and
        v = "cs octant + 1" and x = "{#chs octant ! cs octant#}"] lt
    by (simp add: sel_inv_def take_Suc_conv_app_nth)
  have "length picked + 1 \<le> (\<Sum>octant<8. length (chs octant))"
    using picked_length [OF m] by simp
  then have "unat (ls_offset st) + 4 * (length picked + 1) < 2 ^ 64"
    by (intro le_less_trans [OF _ room] add_left_mono mult_left_mono) simp_all
  from append_index_spec [OF _ this, of "se_lod s" "chs octant ! cs octant"] inv obtain u
    where u: "append_index_to_order (chs octant ! cs octant) (se_lod s) = Ok u"
      "appended st (picked @ [chs octant ! cs octant]) u"
    unfolding sel_inv_def by blast
  have "select_one octant s = Ok (s\<lparr>se_readers := (se_readers s)[octant := Some r'],
      se_counts := (se_counts s)[octant := se_counts s ! octant + 1],
      se_total := se_total s + 1, se_progressed := True, se_lod := u\<rparr>)"
    by (simp add: select_one_def r r' u)
  moreover have "sel_inv st chs (cs(octant := cs octant + 1)) (picked @ [chs octant ! cs octant])
      (s\<lparr>se_readers := (se_readers s)[octant := Some r'],
      se_counts := (se_counts s)[octant := se_counts s ! octant + 1],
      se_total := se_total s + 1, se_progressed := True, se_lod := u\<rparr>)"
    using inv r'(2) u(2) m lt o8 unfolding sel_inv_def by (simp add: nth_list_update)
  ultimately show ?thesis by simp
qed

definition turn :: "(nat \<Rightarrow> u32 list) \<Rightarrow> nat \<Rightarrow> nat \<Rightarrow> nat \<Rightarrow> nat" where
  "turn chs k j octant = min (if octant < j then Suc k else k) (length (chs octant))"

lemma turn_skip: "length (chs j) \<le> k \<Longrightarrow> turn chs k (Suc j) = turn chs k j"
  by (auto simp: turn_def fun_eq_iff less_Suc_eq)

lemma turn_step: "k < length (chs j) \<Longrightarrow> turn chs k (Suc j) = (turn chs k j)(j := turn chs k j j + 1)"
  by (auto simp: turn_def fun_eq_iff less_Suc_eq)

lemma turn_next_row: "octant < 8 \<Longrightarrow> turn chs k 8 octant = turn chs (Suc k) 0 octant"
  by (simp add: turn_def)

lemma sel_inv_cong:
  assumes "\<And>octant. octant < 8 \<Longrightarrow> cs octant = ds octant"
  shows "sel_inv st chs cs picked s = sel_inv st chs ds picked s"
proof -
  have "(\<Sum>octant<8. mset (take (cs octant) (chs octant))) = (\<Sum>octant<8. mset (take (ds octant) (chs octant)))"
    by (rule sum.cong) (simp_all add: assms)
  then show ?thesis unfolding sel_inv_def by (simp add: assms)
qed

lemma select_pass_spec:
  assumes "children_hold chs children"
    and room: "unat (ls_offset st) + 4 * (\<Sum>octant<8. length (chs octant)) < 2 ^ 64"
    and "j \<le> 8" "sel_inv st chs (turn chs k j) (taken chs k j) s" "se_total s < limit"
  shows "\<exists>t j'. select_pass children limit [j..<8] s = Ok t \<and> j' \<le> 8 \<and>
    sel_inv st chs (turn chs k j') (taken chs k j') t \<and>
    (j' = 8 \<and> se_total t < limit \<or> se_total t = limit) \<and> (se_progressed s \<longrightarrow> se_progressed t) \<and>
    (\<not> se_progressed t \<longrightarrow> j' = 8 \<and> (\<forall>octant \<in> {j..<8}. length (chs octant) \<le> k))"
  using assms(3-5)
proof (induction "8 - j" arbitrary: j s)
  case 0
  then have "j = 8" by simp
  then show ?case using 0 by auto
next
  case (Suc d)
  then have j: "j < 8" "d = 8 - Suc j" and up: "[j..<8] = j # [Suc j..<8]"
    by (auto simp: upt_conv_Cons simp del: upt_rec_numeral)
  have cnt: "se_counts s ! j = turn chs k j j" using Suc.prems(2) j(1) by (simp add: sel_inv_def)
  have turn: "turn chs k j j = min k (length (chs j))" by (simp add: turn_def)
  show ?case
  proof (cases "k < length (chs j)")
    case False
    then have skip: "select_pass children limit [j..<8] s = select_pass children limit [Suc j..<8] s"
      using assms(1) j(1) cnt turn unfolding up children_hold_def run_holds_def
      by (fastforce split: option.splits)
    have "sel_inv st chs (turn chs k (Suc j)) (taken chs k (Suc j)) s"
      using Suc.prems(2) False by (simp add: turn_skip taken_Suc)
    from Suc.hyps(1) [OF j(2) _ this Suc.prems(3)] j(1) False show ?thesis
      unfolding skip by (fastforce simp: le_less_Suc_eq Suc_le_eq)
  next
    case True
    then obtain child where child: "children ! j = Some child" "ir_count child = length (chs j)"
      using assms(1) j(1) unfolding children_hold_def run_holds_def
      by (cases "children ! j") fastforce+
    have lt: "turn chs k j j < length (chs j)" and k: "turn chs k j j = k" using True turn by simp_all
    from select_one_spec [OF Suc.prems(2) j(1) lt room] obtain u
      where u: "select_one j s = Ok u" "se_progressed u"
        "sel_inv st chs (turn chs k (Suc j)) (taken chs k (Suc j)) u"
      using True k by (auto simp: turn_step taken_Suc)
    have tot: "se_total u \<le> limit" using select_one_total [OF u(1)] Suc.prems(3) by simp
    have step: "select_pass children limit [j..<8] s =
        (if se_total u = limit then Ok u else select_pass children limit [Suc j..<8] u)"
      unfolding up using child cnt lt u(1) by simp
    show ?thesis
    proof (cases "se_total u = limit")
      case True
      then show ?thesis unfolding step using u(2,3) j(1)
        by (intro exI [of _ u] exI [of _ "Suc j"]) simp
    next
      case False
      then have "se_total u < limit" using tot by simp
      from Suc.hyps(1) [OF j(2) _ u(3) this] j(1) False u(2) show ?thesis
        unfolding step by auto
    qed
  qed
qed

lemma taken_full:
  assumes "j \<le> 8" "length (taken chs k j) = limit"
  shows "taken chs k j = take limit (in_turns chs)"
  using taken_prefix [OF assms(1), of chs k] assms(2) by (metis append_eq_conv_conj)

lemma select_loop_spec:
  assumes ch: "children_hold chs children"
    and room: "unat (ls_offset st) + 4 * (\<Sum>octant<8. length (chs octant)) < 2 ^ 64"
    and "sel_inv st chs (turn chs k 0) (taken chs k 0) s" "se_total s \<le> limit"
  shows "res_spec (cancelled_with c) (\<lambda>t. \<exists>cs. sel_inv st chs cs (take limit (in_turns chs)) t)
    (select_loop c children limit s)"
  using assms(3,4)
proof (induction "limit - se_total s" arbitrary: s k rule: less_induct)
  case less
  let ?P = "\<lambda>t. \<exists>cs. sel_inv st chs cs (take limit (in_turns chs)) t"
  show ?case
  proof (cases "se_total s < limit")
    case False
    then have "length (taken chs k 0) = limit" using less.prems by (simp add: sel_inv_def)
    then have "?P s" using less.prems(1) taken_full [of 0 chs k limit] by auto
    then show ?thesis by (subst select_loop.simps) (simp add: False)
  next
    case True
    have body: "res_spec (cancelled_with c) ?P (bind_res (select_pass children limit [0..<8]
        (s\<lparr>se_progressed := False, se_lod := (se_lod s)\<lparr>ls_polls := polls\<rparr>\<rparr>)) (\<lambda>t.
          if se_progressed t then select_loop c children limit t else Ok t))" for polls
    proof -
      let ?s = "s\<lparr>se_progressed := False, se_lod := (se_lod s)\<lparr>ls_polls := polls\<rparr>\<rparr>"
      have s: "sel_inv st chs (turn chs k 0) (taken chs k 0) ?s" "se_total ?s < limit"
        using less.prems(1) True by (simp_all add: sel_inv_polls)
      from select_pass_spec [OF ch room le0 s] obtain t j'
        where t: "select_pass children limit [0..<8] ?s = Ok t" "j' \<le> 8"
          and inv: "sel_inv st chs (turn chs k j') (taken chs k j') t"
          and tot: "j' = 8 \<and> se_total t < limit \<or> se_total t = limit"
          and idle: "\<not> se_progressed t \<longrightarrow> j' = 8 \<and> (\<forall>octant \<in> {0..<8}. length (chs octant) \<le> k)"
        by blast
      note len = inv [unfolded sel_inv_def]
      have more: "sel_inv st chs (turn chs (Suc k) 0) (taken chs (Suc k) 0) t" if "j' = 8"
        using inv that sel_inv_cong [of "turn chs k 8" "turn chs (Suc k) 0"]
        by (simp add: turn_next_row taken_next_row)
      have full: "?P t" if "se_total t = limit"
      proof -
        have "length (taken chs k j') = limit" using len that by simp
        then show ?thesis using inv taken_full [OF t(2), of chs k limit] by auto
      qed
      show ?thesis
      proof (cases "se_progressed t")
        case False
        then have i: "j' = 8" "\<And>octant. octant < 8 \<Longrightarrow> length (chs octant) \<le> Suc k" using idle by (simp_all add: le_SucI)
        have "?P t"
        proof (cases "se_total t = limit")
          case True
          then show ?thesis by (rule full)
        next
          case nf: False
          have "taken chs (Suc k) 0 = in_turns chs" by (rule taken_all) (rule i(2))
          moreover have "length (taken chs (Suc k) 0) \<le> limit"
            using len tot nf i(1) by (simp add: taken_next_row)
          ultimately show ?thesis using more [OF i(1)] by auto
        qed
        then show ?thesis using t(1) False by simp
      next
        case prog: True
        have "se_total s < se_total t" using select_pass_total [OF t(1)] prog by simp
        show ?thesis
        proof (cases "se_total t = limit")
          case True
          then have "select_loop c children limit t = Ok t" by (subst select_loop.simps) simp
          then show ?thesis using t(1) prog full [OF True] by simp
        next
          case False
          then have "j' = 8" "se_total t < limit" using tot by auto
          then show ?thesis
            using less.hyps [OF _ more] \<open>se_total s < se_total t\<close> t(1) prog by simp
        qed
      qed
    qed
    show ?thesis
      by (subst select_loop.simps) (simp add: True res_spec_bind [OF cancel_spec body])
  qed
qed

text \<open>What the selection of a node does: it writes the first points in turns, and says how many of each child.\<close>

lemma selection_spec:
  assumes ch: "children_hold chs children"
    and room: "unat (ls_offset st) + 4 * (\<Sum>octant<8. length (chs octant)) < 2 ^ 64"
  shows "res_spec (cancelled_with c)
    (\<lambda>(counts, t). appended st (take limit (in_turns chs)) t \<and> length counts = 8 \<and>
       (\<forall>octant<8. counts ! octant \<le> length (chs octant)) \<and>
       mset (take limit (in_turns chs)) = (\<Sum>octant<8. mset (take (counts ! octant) (chs octant))))
    (append_lod_selection_to_order c children limit st)"
proof -
  let ?s = "\<lparr>se_readers = map (map_option open_index_run) children, se_counts = replicate 8 0,
          se_total = 0, se_progressed = False, se_lod = st\<rparr>"
  have "\<exists>r. map (map_option open_index_run) children ! octant = Some r \<and> reads (chs octant) r"
    if "octant < 8" "chs octant \<noteq> []" for octant
    using ch that reads_open [of "chs octant"] unfolding children_hold_def
    by (cases "children ! octant") fastforce+
  then have "sel_inv st chs (turn chs 0 0) (taken chs 0 0) ?s"
    using ch by (simp add: sel_inv_def turn_def children_hold_def)
  from select_loop_spec [OF ch room this] show ?thesis
    unfolding append_lod_selection_to_order_def
  proof (rule res_spec_bind, goal_cases)
    case 1
    then show ?case by simp
  next
    case (2 s)
    then obtain cs where inv: "sel_inv st chs cs (take limit (in_turns chs)) s" by blast
    have "(\<Sum>octant<8. mset (take (se_counts s ! octant) (chs octant))) =
        (\<Sum>octant<8. mset (take (cs octant) (chs octant)))"
      by (rule sum.cong) (use inv in \<open>auto simp: sel_inv_def\<close>)
    then show ?case using inv by (simp add: sel_inv_def)
  qed
qed

text \<open>Taking in turns only reorders the points of the children, and partitioning those of the node.\<close>

lemma sum_mset_nth: "(\<Sum>k<K. if k < length xs then {#xs ! k#} else {#}) = mset (take K xs)"
  by (induction K) (auto simp: take_Suc_conv_app_nth)

lemma mset_row: "mset (row chs k j) = (\<Sum>octant<j. if k < length (chs octant) then {#chs octant ! k#} else {#})"
  by (induction j) (auto simp: row_Suc simp del: upt_Suc)

lemma mset_in_turns: "mset (in_turns chs) = (\<Sum>octant<8. mset (chs octant))"
proof -
  define K where "K = max (length (transpose (map chs [0..<8]))) (Max ((\<lambda>octant. length (chs octant)) ` {..<8}))"
  have K: "length (chs octant) \<le> K" if "octant < 8" for octant
    using that by (auto simp: K_def intro!: max.coboundedI2 Max_ge)
  have "mset (concat (map (\<lambda>k. row chs k 8) [0..<n])) = (\<Sum>k<n. mset (row chs k 8))" for n
    by (induction n) auto
  then have "mset (taken chs K 0) = (\<Sum>k<K. mset (row chs k 8))" by (simp add: taken_def)
  also have "\<dots> = (\<Sum>octant<8. \<Sum>k<K. if k < length (chs octant) then {#chs octant ! k#} else {#})"
    unfolding mset_row by (rule sum.swap)
  also have "\<dots> = (\<Sum>octant<8. mset (chs octant))"
    by (rule sum.cong) (simp_all add: sum_mset_nth K)
  finally show ?thesis using in_turns_rows [of chs K] by (simp add: K_def)
qed

lemma sum_part: "(\<Sum>octant<8. mset (part src center ixs octant)) = mset ixs"
proof (induction ixs)
  case Nil
  then show ?case by (simp add: part_def)
next
  case (Cons i ixs)
  let ?o = "octant_of src center i"
  have o': "?o \<in> {..<8}" using octant_of_lt by simp
  have "mset (part src center (i # ixs) octant) =
      (if octant = ?o then {#i#} else {#}) + mset (part src center ixs octant)" for octant
    by (simp add: part_def)
  then have "(\<Sum>octant<8. mset (part src center (i # ixs) octant)) =
      (\<Sum>octant<8. if octant = ?o then {#i#} else {#}) + (\<Sum>octant<8. mset (part src center ixs octant))"
    by (simp only: sum.distrib)
  also have "(\<Sum>octant<8. if octant = ?o then {#i#} else {#}) = {#i#}"
    using o' by (simp only: sum.delta finite_lessThan if_True)
  finally show ?case using Cons by simp
qed

lemma length_in_turns_part: "length (in_turns (part src center ixs)) = length ixs"
  by (metis mset_in_turns sum_part size_mset)

lemma sum_length_part: "(\<Sum>octant<8. length (part src center ixs octant)) = length ixs"
  using arg_cong [OF sum_part [of src center ixs], of size] by (simp only: size_multiset_sum size_mset)

end
