(* ===== verification/Lod_Tree.thy ===== *)
theory Lod_Tree
  imports Lod_Spec
begin

text \<open>
  The octree as a relation: \<open>lod_tree src limit key b ixs ns\<close> says that the points \<open>ixs\<close> arriving at
  the node \<open>key\<close> with the box \<open>b\<close> make the nodes \<open>ns\<close>, each with its own points, in the order in which
  the builder writes them. \<open>assign_spec\<close> is the refinement: the builder on index files implements the
  relation. The properties of the octree follow by rule induction.
\<close>

inductive lod_tree ::
  "point_source \<Rightarrow> nat \<Rightarrow> voxel_key \<Rightarrow> bounds \<Rightarrow> u32 list \<Rightarrow> (voxel_key \<times> u32 list) list \<Rightarrow> bool"
  for src :: point_source and limit :: nat where
  Empty: "lod_tree src limit key b [] []"
| Leaf: "ixs \<noteq> [] \<Longrightarrow> length ixs \<le> limit \<Longrightarrow> lod_tree src limit key b ixs [(key, ixs)]"
| Inner: "limit < length ixs \<Longrightarrow> unat (vk_level key) < 30 \<Longrightarrow>
    chs = part src (bounds_center b) ixs \<Longrightarrow> picked = take limit (in_turns chs) \<Longrightarrow>
    (\<And>octant. octant < 8 \<Longrightarrow> cs octant \<le> length (chs octant)) \<Longrightarrow>
    mset picked = (\<Sum>octant<8. mset (take (cs octant) (chs octant))) \<Longrightarrow>
    (\<And>octant. octant < 8 \<Longrightarrow> cs octant = length (chs octant) \<Longrightarrow> subs octant = []) \<Longrightarrow>
    (\<And>octant. octant < 8 \<Longrightarrow> cs octant < length (chs octant) \<Longrightarrow>
       vk_child key (of_nat octant) = Ok (cks octant) \<and>
       lod_tree src limit (cks octant) (bounds_octant b (of_nat octant))
         (drop (cs octant) (chs octant)) (subs octant)) \<Longrightarrow>
    lod_tree src limit key b ixs ((key, picked) # concat (map subs [0..<8]))"

inductive_cases lod_tree_EmptyE: "lod_tree src limit key b [] ns"
inductive_cases lod_tree_ConsE: "lod_tree src limit key b (i # ixs) ns"

section \<open>The builder implements the relation\<close>

fun place :: "nat \<Rightarrow> (voxel_key \<times> u32 list) list \<Rightarrow> lod_node list" where
  "place off [] = []"
| "place off ((key, ixs) # ns) =
     \<lparr>ln_key = key, ln_start = of_nat off, ln_count = length ixs\<rparr> # place (off + 4 * length ixs) ns"

abbreviation all_points :: "(voxel_key \<times> u32 list) list \<Rightarrow> u32 list" where
  "all_points ns \<equiv> concat (map snd ns)"

lemma place_append: "place off (ms @ ns) = place off ms @ place (off + 4 * length (all_points ms)) ns"
  by (induction off ms rule: place.induct) (simp_all add: algebra_simps)

definition built :: "lod_state \<Rightarrow> (voxel_key \<times> u32 list) list \<Rightarrow> lod_state \<Rightarrow> bool" where
  "built st ns t \<longleftrightarrow> ls_order t = ls_order st @ ixfile (all_points ns) \<and>
     unat (ls_offset t) = unat (ls_offset st) + 4 * length (all_points ns) \<and>
     ls_nodes t = ls_nodes st @ place (unat (ls_offset st)) ns"

lemma built_refl [simp]: "built st [] st"
  by (simp add: built_def)

lemma built_polls [simp]:
  "built (st\<lparr>ls_polls := n\<rparr>) ns t \<longleftrightarrow> built st ns t"
  "built st ns (t\<lparr>ls_polls := n\<rparr>) \<longleftrightarrow> built st ns t"
  by (simp_all add: built_def)

lemma built_trans: "built st ms t \<Longrightarrow> built t ns u \<Longrightarrow> built st (ms @ ns) u"
  by (simp add: built_def place_append)

lemma built_push:
  assumes "appended st ixs t" "start = ls_offset st" "n = length ixs"
  shows "built st [(key, ixs)] (push_node key start n t)"
  using assms by (simp add: built_def appended_def push_node_def)

definition depth_error :: copc_error where
  "depth_error = InvalidInput ''octree node {key:?} still contains {} points at the maximum depth; increase max_points_per_node above {}''"

text \<open>
  The points that follow the octants \<open>octs\<close> down from a box; a box is crowded if more than \<open>limit\<close>
  points follow the same \<open>n\<close> octants.
\<close>

fun descends :: "point_source \<Rightarrow> bounds \<Rightarrow> nat list \<Rightarrow> u32 \<Rightarrow> bool" where
  "descends src b [] i = True"
| "descends src b (octant # octs) i =
     (octant_of src (bounds_center b) i = octant \<and> descends src (bounds_octant b (of_nat octant)) octs i)"

definition crowded :: "point_source \<Rightarrow> nat \<Rightarrow> nat \<Rightarrow> bounds \<Rightarrow> u32 list \<Rightarrow> bool" where
  "crowded src limit n b ixs \<longleftrightarrow>
     (\<exists>octs. length octs = n \<and> limit < length (filter (descends src b octs) ixs))"

lemma crowded_child:
  assumes "crowded src limit n (bounds_octant b (of_nat octant)) (drop k (part src (bounds_center b) ixs octant))"
  shows "crowded src limit (Suc n) b ixs"
proof -
  from assms obtain octs where o': "length octs = n"
    "limit < length (filter (descends src (bounds_octant b (of_nat octant)) octs)
       (drop k (part src (bounds_center b) ixs octant)))" by (auto simp: crowded_def)
  have f: "filter (descends src (bounds_octant b (of_nat octant)) octs) (part src (bounds_center b) ixs octant) =
      filter (descends src b (octant # octs)) ixs"
    unfolding part_def filter_filter by (rule filter_cong) auto
  have "length (filter P (drop k xs)) \<le> length (filter P xs)" for P and xs :: "u32 list"
    by (metis append_take_drop_id filter_append le_add2 length_append)
  then have "limit < length (filter (descends src b (octant # octs)) ixs)"
    unfolding f [symmetric] using o'(2) by (rule less_le_trans [rotated])
  then show ?thesis using o'(1) unfolding crowded_def by (intro exI [of _ "octant # octs"]) simp
qed

definition lod_error ::
  "point_source \<Rightarrow> nat \<Rightarrow> cancel \<Rightarrow> nat \<Rightarrow> bounds \<Rightarrow> u32 list \<Rightarrow> copc_error \<Rightarrow> bool" where
  "lod_error src limit c n b ixs e \<longleftrightarrow>
     cancelled_with c e \<or> source_error src ixs e \<or> e = depth_error \<and> crowded src limit n b ixs"

lemma lod_error_child:
  assumes "lod_error src limit c n (bounds_octant b (of_nat octant))
    (drop k (part src (bounds_center b) ixs octant)) e"
  shows "lod_error src limit c (Suc n) b ixs e"
  using assms crowded_child set_drop_subset [of k "part src (bounds_center b) ixs octant"]
  by (fastforce simp: lod_error_def source_error_def part_def)

lemma run_holds_drop:
  assumes "run_holds ixs run" "n \<le> length ixs"
  shows "run_holds (drop n ixs)
    (run\<lparr>ir_start := ir_start run + n * INDEX_RECORD_BYTES, ir_count := ir_count run - n\<rparr>)"
proof -
  from assms(1) obtain rest where d: "drop (ir_start run) (ir_file run) = ixfile ixs @ rest"
    and n: "ir_count run = length ixs" by (auto simp: run_holds_def)
  have "ixfile ixs = ixfile (take n ixs) @ ixfile (drop n ixs)"
    by (metis append_take_drop_id ixfile_simps(3))
  then have "drop (n * 4) (ixfile ixs @ rest) = ixfile (drop n ixs) @ rest" using assms(2) by simp
  then have "drop (ir_start run + n * 4) (ir_file run) = ixfile (drop n ixs) @ rest"
    using d by (metis add.commute drop_drop)
  then show ?thesis using n by (simp add: run_holds_def INDEX_RECORD_BYTES_def)
qed

text \<open>Every point that arrives is in one node of the subtree.\<close>

lemma mset_all_points_concat:
  "mset (all_points (concat (map subs [0..<n]))) = (\<Sum>octant<n. mset (all_points (subs octant)))"
  by (induction n) simp_all

lemma take_drop_sum:
  assumes "\<And>octant. octant < n \<Longrightarrow> ys octant = mset (drop (cs octant) (chs octant))"
  shows "(\<Sum>octant<n. mset (take (cs octant) (chs octant))) + (\<Sum>octant<n. ys octant) =
    (\<Sum>octant<n. mset (chs octant))"
proof -
  have "(\<Sum>octant<n. ys octant) = (\<Sum>octant<n. mset (drop (cs octant) (chs octant)))"
    by (rule sum.cong) (simp_all add: assms)
  moreover have "mset (take (cs octant) (chs octant)) + mset (drop (cs octant) (chs octant)) = mset (chs octant)"
    for octant by (simp flip: mset_append)
  ultimately show ?thesis by (simp only: sum.distrib [symmetric])
qed

lemma lod_tree_mset: "lod_tree src limit key b ixs ns \<Longrightarrow> mset (all_points ns) = mset ixs"
proof (induction rule: lod_tree.induct)
  case (Inner ixs key chs b picked cs subs cks)
  have "mset (all_points (subs octant)) = mset (drop (cs octant) (chs octant))" if "octant < 8" for octant
    using Inner(5,7,8) [OF that] by (cases "cs octant < length (chs octant)") auto
  then have "mset picked + (\<Sum>octant<8. mset (all_points (subs octant))) = (\<Sum>octant<8. mset (chs octant))"
    unfolding Inner.hyps(6) by (intro take_drop_sum)
  also have "\<dots> = mset ixs" unfolding Inner.hyps(3) by (rule sum_part)
  finally show ?case by (simp only: list.map snd_conv concat.simps mset_append mset_all_points_concat)
qed simp_all

lemma lod_tree_length: "lod_tree src limit key b ixs ns \<Longrightarrow> length (all_points ns) = length ixs"
  using lod_tree_mset mset_eq_length by blast

lemma assign_empty:
  "ir_count run = 0 \<Longrightarrow>
    res_spec (cancelled_with c) (built st []) (assign src limit c key run b st)"
  by (subst assign.simps) (auto intro!: res_spec_bind [OF cancel_spec])

lemma assign_leaf:
  assumes "run_holds ixs run" "ixs \<noteq> []" "length ixs \<le> limit" "unat (ls_offset st) + 4 * length ixs < 2 ^ 64"
  shows "res_spec (cancelled_with c) (built st [(key, ixs)]) (assign src limit c key run b st)"
proof -
  have n: "ir_count run = length ixs" using assms(1) by (simp add: run_holds_def)
  have "res_spec (cancelled_with c) (built st [(key, ixs)])
      (bind_res (append_index_run_to_order c run (st\<lparr>ls_polls := polls\<rparr>)) (\<lambda>t.
         Ok (push_node key (ls_offset st) (length ixs) t)))" for polls
    using append_run_spec [OF assms(1), of "st\<lparr>ls_polls := polls\<rparr>" c] assms(4)
    by (auto elim!: res_spec_bind intro: built_push)
  then show ?thesis using assms(2,3)
    by (subst assign.simps) (auto simp: n Let_def intro!: res_spec_bind [OF cancel_spec])
qed


text \<open>One turn of the loop over the octants, given what the recursive calls do.\<close>

definition child_done ::
  "point_source \<Rightarrow> nat \<Rightarrow> voxel_key \<Rightarrow> bounds \<Rightarrow> (nat \<Rightarrow> u32 list) \<Rightarrow> (nat \<Rightarrow> nat) \<Rightarrow>
    (nat \<Rightarrow> (voxel_key \<times> u32 list) list) \<Rightarrow> nat \<Rightarrow> bool" where
  "child_done src limit key b chs cs subs octant \<longleftrightarrow>
     (if cs octant = length (chs octant) then subs octant = []
      else \<exists>ck. vk_child key (of_nat octant) = Ok ck \<and>
        lod_tree src limit ck (bounds_octant b (of_nat octant)) (drop (cs octant) (chs octant)) (subs octant))"

lemma child_done_update [simp]:
  "j < i \<Longrightarrow> child_done src limit key b chs cs (subs(i := ns)) j = child_done src limit key b chs cs subs j"
  by (simp add: child_done_def)

lemma child_done_length:
  assumes "child_done src limit key b chs cs subs octant" "cs octant \<le> length (chs octant)"
  shows "length (all_points (subs octant)) = length (chs octant) - cs octant"
  using assms lod_tree_length by (fastforce simp: child_done_def split: if_splits)

lemma concat_update [simp]:
  "concat (map (subs(i := ns)) [0..<i]) = concat (map subs [0..<i])"
  by (metis (no_types, lifting) atLeastLessThan_iff fun_upd_other less_irrefl_nat map_cong set_upt)

lemma length_concat_subs:
  "length (all_points (concat (map subs [0..<n]))) = (\<Sum>octant<n. length (all_points (subs octant)))"
  by (induction n) simp_all

lemma sum_cs_picked:
  assumes "mset picked = (\<Sum>octant<8. mset (take (cs octant) (chs octant)))"
    and "\<And>octant. octant < 8 \<Longrightarrow> cs octant \<le> length (chs octant)"
  shows "length picked = (\<Sum>octant<8. cs octant)"
proof -
  have "length picked = size (\<Sum>octant<8. mset (take (cs octant) (chs octant)))"
    unfolding assms(1) [symmetric] by (rule size_mset [symmetric])
  also have "\<dots> = (\<Sum>octant<8. size (mset (take (cs octant) (chs octant))))" by (rule size_multiset_sum)
  also have "\<dots> = (\<Sum>octant<8. cs octant)" by (rule sum.cong) (simp_all add: assms(2))
  finally show ?thesis .
qed

lemma octant_room:
  assumes pick: "mset picked = (\<Sum>octant<8. mset (take (cs octant) (chs octant)))"
    and cs: "\<And>octant. octant < 8 \<Longrightarrow> cs octant \<le> length (chs octant)"
    and don: "\<And>j. j < i \<Longrightarrow> child_done src limit key b chs cs subs j" and i: "i < 8"
    and sum: "(\<Sum>octant<8. length (chs octant)) = n"
  shows "length picked + length (all_points (concat (map subs [0..<i]))) + (length (chs i) - cs i) \<le> n"
proof -
  have "length (all_points (concat (map subs [0..<i]))) = (\<Sum>j<i. length (chs j) - cs j)"
    unfolding length_concat_subs
  proof (rule sum.cong)
    fix j assume "j \<in> {..<i}"
    then show "length (all_points (subs j)) = length (chs j) - cs j"
      using i by (intro child_done_length [OF don] cs) simp_all
  qed simp
  moreover have "(\<Sum>j<i. length (chs j) - cs j) + (length (chs i) - cs i) = (\<Sum>j<Suc i. length (chs j) - cs j)"
    by simp
  moreover have "(\<Sum>j<Suc i. length (chs j) - cs j) \<le> (\<Sum>j<8. length (chs j) - cs j)"
    by (rule sum_mono2) (use i in auto)
  moreover have "(\<Sum>j<8. cs j) + (\<Sum>j<8. length (chs j) - cs j) = n"
    unfolding sum [symmetric] sum.distrib [symmetric] by (rule sum.cong) (simp_all add: cs)
  ultimately show ?thesis using sum_cs_picked [OF pick cs] by linarith
qed

lemma child_run:
  assumes "children_hold chs children" "octant < 8" "children ! octant = Some run"
  shows "run_holds (chs octant) run" "chs octant \<noteq> []" "ir_count run = length (chs octant)"
  using assms unfolding children_hold_def by (auto simp: run_holds_def)

lemma child_absent: "children_hold chs children \<Longrightarrow> octant < 8 \<Longrightarrow> children ! octant = None \<Longrightarrow> chs octant = []"
  unfolding children_hold_def by auto

text \<open>What the recursive calls promise, for the keys below \<open>key\<close>.\<close>

definition assign_ok :: "point_source \<Rightarrow> nat \<Rightarrow> cancel \<Rightarrow> voxel_key \<Rightarrow> bool" where
  "assign_ok src limit c key \<longleftrightarrow>
     (\<forall>ixs run b st. run_holds ixs run \<longrightarrow> unat (ls_offset st) + 4 * length ixs < 2 ^ 64 \<longrightarrow>
        res_spec (lod_error src limit c (30 - unat (vk_level key)) b ixs)
          (\<lambda>t. \<exists>ns. lod_tree src limit key b ixs ns \<and> built st ns t)
          (assign src limit c key run b st))"

definition octants_done ::
  "point_source \<Rightarrow> nat \<Rightarrow> voxel_key \<Rightarrow> bounds \<Rightarrow> (nat \<Rightarrow> u32 list) \<Rightarrow> (nat \<Rightarrow> nat) \<Rightarrow> u32 list \<Rightarrow>
    lod_state \<Rightarrow> nat \<Rightarrow> lod_state \<Rightarrow> bool" where
  "octants_done src limit key b chs cs picked st i u \<longleftrightarrow>
     (\<exists>subs. (\<forall>j < i. child_done src limit key b chs cs subs j) \<and>
        built st ((key, picked) # concat (map subs [0..<i])) u)"

lemma octants_done_skip:
  assumes "octants_done src limit key b chs cs picked st i u" "cs i = length (chs i)"
  shows "octants_done src limit key b chs cs picked st (Suc i) u"
proof -
  from assms(1) obtain subs where s: "\<forall>j < i. child_done src limit key b chs cs subs j"
    "built st ((key, picked) # concat (map subs [0..<i])) u" unfolding octants_done_def by blast
  have "child_done src limit key b chs cs (subs(i := [])) i" using assms(2) by (simp add: child_done_def)
  then have "\<forall>j < Suc i. child_done src limit key b chs cs (subs(i := [])) j" using s(1) by (simp add: less_Suc_eq)
  moreover have "concat (map (subs(i := [])) [0..<Suc i]) = concat (map subs [0..<i])" by simp
  ultimately show ?thesis using s(2) unfolding octants_done_def by metis
qed

lemma octants_done_step:
  assumes "octants_done src limit key b chs cs picked st i u" "cs i < length (chs i)"
    and ck: "vk_child key (of_nat i) = Ok ck" and ok: "assign_ok src limit c ck"
    and run: "run_holds (drop (cs i) (chs i)) run"
    and pick: "mset picked = (\<Sum>octant<8. mset (take (cs octant) (chs octant)))"
    and cs: "\<And>octant. octant < 8 \<Longrightarrow> cs octant \<le> length (chs octant)" and i: "i < 8"
    and room: "unat (ls_offset st) + 4 * (\<Sum>octant<8. length (chs octant)) < 2 ^ 64"
    and chs: "chs = part src (bounds_center b) ixs"
    and n: "n = Suc (30 - unat (vk_level ck))"
  shows "res_spec (lod_error src limit c n b ixs) (octants_done src limit key b chs cs picked st (Suc i))
    (assign src limit c ck run (bounds_octant b (of_nat i)) u)"
proof -
  from assms(1) obtain subs where s: "\<And>j. j < i \<Longrightarrow> child_done src limit key b chs cs subs j"
    "built st ((key, picked) # concat (map subs [0..<i])) u" unfolding octants_done_def by blast
  have "unat (ls_offset u) + 4 * length (drop (cs i) (chs i)) \<le>
      unat (ls_offset st) + 4 * (\<Sum>octant<8. length (chs octant))"
    using octant_room [OF pick cs s(1) i refl] s(2) by (simp add: built_def)
  then have "unat (ls_offset u) + 4 * length (drop (cs i) (chs i)) < 2 ^ 64" using room by (rule le_less_trans)
  from ok [unfolded assign_ok_def, rule_format, OF run this, of "bounds_octant b (of_nat i)"]
  show ?thesis
  proof (rule res_spec_mono)
    fix t
    assume "\<exists>ns. lod_tree src limit ck (bounds_octant b (of_nat i)) (drop (cs i) (chs i)) ns \<and> built u ns t"
    then obtain ns where ns: "lod_tree src limit ck (bounds_octant b (of_nat i)) (drop (cs i) (chs i)) ns"
      "built u ns t" by blast
    have "child_done src limit key b chs cs (subs(i := ns)) i"
      using assms(2) ck ns(1) by (simp add: child_done_def)
    then have "\<forall>j < Suc i. child_done src limit key b chs cs (subs(i := ns)) j" using s(1) by (simp add: less_Suc_eq)
    moreover have "concat (map (subs(i := ns)) [0..<Suc i]) = concat (map subs [0..<i]) @ ns" by simp
    ultimately show "octants_done src limit key b chs cs picked st (Suc i) t"
      using built_trans [OF s(2) ns(2)] unfolding octants_done_def by (metis append_Cons)
  next
    fix e assume "lod_error src limit c (30 - unat (vk_level ck)) (bounds_octant b (of_nat i)) (drop (cs i) (chs i)) e"
    then show "lod_error src limit c n b ixs e" unfolding chs n by (rule lod_error_child)
  qed
qed

lemma octants_done_start:
  assumes "appended st picked u" "start = ls_offset st" "n = length picked"
  shows "octants_done src limit key b chs cs picked st 0 (push_node key start n u)"
  using built_push [OF assms] by (auto simp: octants_done_def)

lemma octants_done_tree:
  assumes dn: "octants_done src limit key b chs cs (take limit (in_turns chs)) st 8 t"
    and "limit < length ixs" "unat (vk_level key) < 30" and chs: "chs = part src (bounds_center b) ixs"
    and pick: "mset (take limit (in_turns chs)) = (\<Sum>octant<8. mset (take (cs octant) (chs octant)))"
    and cs: "\<And>octant. octant < 8 \<Longrightarrow> cs octant \<le> length (chs octant)"
  shows "\<exists>ns. lod_tree src limit key b ixs ns \<and> built st ns t"
proof -
  from dn obtain subs where d: "\<And>j. j < 8 \<Longrightarrow> child_done src limit key b chs cs subs j"
    and bt: "built st ((key, take limit (in_turns chs)) # concat (map subs [0..<8])) t"
    unfolding octants_done_def by blast
  define cks where "cks octant = (SOME ck. vk_child key (of_nat octant) = Ok ck)" for octant
  have cks: "cks octant = ck" if "vk_child key (of_nat octant) = Ok ck" for octant ck
    unfolding cks_def that by simp
  have "lod_tree src limit key b ixs ((key, take limit (in_turns chs)) # concat (map subs [0..<8]))"
  proof (rule lod_tree.Inner [where cs = cs and cks = cks and subs = subs and chs = chs])
    fix octant :: nat assume o8: "octant < 8"
    show "subs octant = []" if "cs octant = length (chs octant)"
      using d [OF o8] that by (simp add: child_done_def)
    show "vk_child key (of_nat octant) = Ok (cks octant) \<and>
       lod_tree src limit (cks octant) (bounds_octant b (of_nat octant))
         (drop (cs octant) (chs octant)) (subs octant)" if "cs octant < length (chs octant)"
      using d [OF o8] that cks by (auto simp: child_done_def)
  qed (use assms in auto)
  with bt show ?thesis by blast
qed

lemma assign_unfold_inner:
  assumes "limit < ir_count run" "unat (vk_level key) < 30"
  shows "assign src limit c key run b st =
     bind_res (cancel_check c (ls_polls st)) (\<lambda>polls.
     bind_res (partition_index_run src run b c polls) (\<lambda>(children, polls').
     bind_res (append_lod_selection_to_order c children limit (st\<lparr>ls_polls := polls'\<rparr>)) (\<lambda>(counts, u).
       fold_res (\<lambda>octant u.
         case children ! octant of
           None \<Rightarrow> Ok u
         | Some child_run \<Rightarrow>
             if ir_count child_run \<le> counts ! octant then Ok u
             else bind_res (vk_child key (of_nat octant)) (\<lambda>child_key.
               assign src limit c child_key
                 (child_run\<lparr>ir_start := ir_start child_run + counts ! octant * INDEX_RECORD_BYTES,
                    ir_count := ir_count child_run - counts ! octant\<rparr>)
                 (bounds_octant b (of_nat octant)) u)) [0..<8]
         (push_node key (ls_offset st) (sum_list counts) u))))"
  unfolding assign.simps [of src limit c key run b st] Let_def split_def MAX_OCTREE_DEPTH_def
  using assms by simp

lemma part_subset: "set (part src center ixs octant) \<subseteq> set ixs"
  by (auto simp: part_def)

lemma sum_list_nth8: "length xs = 8 \<Longrightarrow> sum_list xs = (\<Sum>octant<8. xs ! octant)" for xs :: "nat list"
  by (simp add: sum_list_sum_nth lessThan_atLeast0)

lemma small_level: "unat (w :: i32) < 30 \<Longrightarrow> sint w = int (unat w)"
  using sint_of_small_nat [of "unat w"] by simp

lemma cancel_lod: "res_spec (lod_error src limit c n b ixs) (\<lambda>_. True) (cancel_check c polls)"
  by (rule res_spec_mono [OF cancel_spec]) (auto simp: lod_error_def)

lemma partition_lod:
  assumes "run_holds ixs run"
  shows "res_spec (lod_error src limit c n b ixs)
    (\<lambda>(children, polls). children_hold (part src (bounds_center b) ixs) children)
    (partition_index_run src run b c polls)"
  by (rule res_spec_mono [OF partition_spec [OF assms]]) (auto simp: lod_error_def)

lemma selection_lod:
  assumes "children_hold chs children"
    and "unat (ls_offset st) + 4 * (\<Sum>octant<8. length (chs octant)) < 2 ^ 64"
  shows "res_spec (lod_error src limit c n b ixs)
    (\<lambda>(counts, t). appended st (take limit (in_turns chs)) t \<and> length counts = 8 \<and>
       (\<forall>octant<8. counts ! octant \<le> length (chs octant)) \<and>
       mset (take limit (in_turns chs)) = (\<Sum>octant<8. mset (take (counts ! octant) (chs octant))))
    (append_lod_selection_to_order c children limit st)"
  by (rule res_spec_mono [OF selection_spec [OF assms]]) (auto simp: lod_error_def)

lemma assign_inner:
  assumes run: "run_holds ixs run" and room: "unat (ls_offset st) + 4 * length ixs < 2 ^ 64"
    and inner: "limit < length ixs" "unat (vk_level key) < 30"
    and valid: "vk_validate key = Ok ()"
    and IH: "\<And>octant ck. vk_child key octant = Ok ck \<Longrightarrow> assign_ok src limit c ck"
  shows "res_spec (lod_error src limit c (30 - unat (vk_level key)) b ixs) (\<lambda>t. \<exists>ns. lod_tree src limit key b ixs ns \<and> built st ns t)
    (assign src limit c key run b st)"
proof -
  define chs where "chs = part src (bounds_center b) ixs"
  define picked where "picked = take limit (in_turns chs)"
  have sum: "(\<Sum>octant<8. length (chs octant)) = length ixs" unfolding chs_def by (rule sum_length_part)
  have n: "ir_count run = length ixs" using run by (simp add: run_holds_def)
  have lv: "sint (vk_level key) < 30"
    using small_level [OF inner(2)] inner(2) by linarith
  have loop: "res_spec (lod_error src limit c (30 - unat (vk_level key)) b ixs) (\<lambda>t. \<exists>ns. lod_tree src limit key b ixs ns \<and> built st ns t)
      (fold_res (\<lambda>octant u.
         case children ! octant of
           None \<Rightarrow> Ok u
         | Some child_run \<Rightarrow>
             if ir_count child_run \<le> counts ! octant then Ok u
             else bind_res (vk_child key (of_nat octant)) (\<lambda>child_key.
               assign src limit c child_key
                 (child_run\<lparr>ir_start := ir_start child_run + counts ! octant * INDEX_RECORD_BYTES,
                    ir_count := ir_count child_run - counts ! octant\<rparr>)
                 (bounds_octant b (of_nat octant)) u)) [0..<8]
         (push_node key (ls_offset st) (sum_list counts) u))"
    if ch: "children_hold chs children" and app: "appended st picked u" and len: "length counts = 8"
      and cs: "\<And>octant. octant < 8 \<Longrightarrow> counts ! octant \<le> length (chs octant)"
      and pick: "mset picked = (\<Sum>octant<8. mset (take (counts ! octant) (chs octant)))"
    for children counts u
  proof (rule res_spec_mono [where P = "octants_done src limit key b chs ((!) counts) picked st 8" and
        E = "lod_error src limit c (30 - unat (vk_level key)) b ixs"], rule res_spec_fold_upt)
    have "sum_list counts = length picked"
      unfolding sum_list_nth8 [OF len] by (rule sum_cs_picked [OF pick cs, symmetric])
    then show "octants_done src limit key b chs ((!) counts) picked st 0
        (push_node key (ls_offset st) (sum_list counts) u)"
      by (intro octants_done_start app refl)
  next
    fix i u assume i: "i < 8" and inv: "octants_done src limit key b chs ((!) counts) picked st i u"
    show "res_spec (lod_error src limit c (30 - unat (vk_level key)) b ixs) (octants_done src limit key b chs ((!) counts) picked st (Suc i))
        (case children ! i of None \<Rightarrow> Ok u
         | Some child_run \<Rightarrow>
             if ir_count child_run \<le> counts ! i then Ok u
             else bind_res (vk_child key (of_nat i)) (\<lambda>child_key.
               assign src limit c child_key
                 (child_run\<lparr>ir_start := ir_start child_run + counts ! i * INDEX_RECORD_BYTES,
                    ir_count := ir_count child_run - counts ! i\<rparr>)
                 (bounds_octant b (of_nat i)) u))"
    proof (cases "children ! i")
      case None
      then have "counts ! i = length (chs i)" using child_absent [OF ch i] cs [OF i] by simp
      then show ?thesis using None octants_done_skip [OF inv] by simp
    next
      case (Some child)
      note cr = child_run [OF ch i Some]
      show ?thesis
      proof (cases "ir_count child \<le> counts ! i")
        case True
        then have "counts ! i = length (chs i)" using cr(3) cs [OF i] by simp
        then show ?thesis using Some True octants_done_skip [OF inv] by simp
      next
        case False
        then have lt: "counts ! i < length (chs i)" using cr(3) by simp
        have "(of_nat i :: u8) \<le> 7" using i by (simp add: word_le_nat_alt unat_of_nat)
        then obtain ck where ck: "vk_child key (of_nat i) = Ok ck"
          using vk_child_exists [OF valid _ lv] by blast
        have "res_spec (lod_error src limit c (30 - unat (vk_level key)) b ixs) (octants_done src limit key b chs ((!) counts) picked st (Suc i))
          (assign src limit c ck (child\<lparr>ir_start := ir_start child + counts ! i * INDEX_RECORD_BYTES,
             ir_count := ir_count child - counts ! i\<rparr>) (bounds_octant b (of_nat i)) u)"
        proof (rule octants_done_step [OF inv lt ck IH [OF ck] run_holds_drop [OF cr(1) cs [OF i]] pick cs i _ chs_def])
          show "unat (ls_offset st) + 4 * (\<Sum>octant<8. length (chs octant)) < 2 ^ 64" using room sum by simp
          show "30 - unat (vk_level key) = Suc (30 - unat (vk_level ck))"
            using vk_child_depth [OF ck inner(2)] inner(2) by simp
        qed
        then show ?thesis using Some False ck
          by simp
      qed
    qed
  next
    fix t assume "octants_done src limit key b chs ((!) counts) picked st 8 t"
    then show "\<exists>ns. lod_tree src limit key b ixs ns \<and> built st ns t"
      using octants_done_tree [OF _ inner chs_def _ cs] pick unfolding picked_def by blast
  qed
  have room': "unat (ls_offset (st\<lparr>ls_polls := p\<rparr>)) + 4 * (\<Sum>octant<8. length (chs octant)) < 2 ^ 64" for p
    using room sum by simp
  show ?thesis unfolding assign_unfold_inner [OF inner(1) [folded n] inner(2)]
  proof (rule res_spec_bind [OF cancel_lod])
    fix polls :: nat
    show "res_spec (lod_error src limit c (30 - unat (vk_level key)) b ixs) (\<lambda>t. \<exists>ns. lod_tree src limit key b ixs ns \<and> built st ns t)
      (bind_res (partition_index_run src run b c polls) (\<lambda>(children, polls').
       bind_res (append_lod_selection_to_order c children limit (st\<lparr>ls_polls := polls'\<rparr>)) (\<lambda>(counts, u).
         fold_res (\<lambda>octant u.
           case children ! octant of
             None \<Rightarrow> Ok u
           | Some child_run \<Rightarrow>
               if ir_count child_run \<le> counts ! octant then Ok u
               else bind_res (vk_child key (of_nat octant)) (\<lambda>child_key.
                 assign src limit c child_key
                   (child_run\<lparr>ir_start := ir_start child_run + counts ! octant * INDEX_RECORD_BYTES,
                      ir_count := ir_count child_run - counts ! octant\<rparr>)
                   (bounds_octant b (of_nat octant)) u)) [0..<8]
           (push_node key (ls_offset st) (sum_list counts) u))))"
    proof (rule res_spec_bind [OF partition_lod [OF run]], clarify)
      fix children :: "index_run option list" and polls' :: nat
      assume ch: "children_hold (part src (bounds_center b) ixs) children"
      then have ch': "children_hold chs children" unfolding chs_def .
      show "res_spec (lod_error src limit c (30 - unat (vk_level key)) b ixs) (\<lambda>t. \<exists>ns. lod_tree src limit key b ixs ns \<and> built st ns t)
        (bind_res (append_lod_selection_to_order c children limit (st\<lparr>ls_polls := polls'\<rparr>)) (\<lambda>(counts, u).
         fold_res (\<lambda>octant u.
           case children ! octant of
             None \<Rightarrow> Ok u
           | Some child_run \<Rightarrow>
               if ir_count child_run \<le> counts ! octant then Ok u
               else bind_res (vk_child key (of_nat octant)) (\<lambda>child_key.
                 assign src limit c child_key
                   (child_run\<lparr>ir_start := ir_start child_run + counts ! octant * INDEX_RECORD_BYTES,
                      ir_count := ir_count child_run - counts ! octant\<rparr>)
                   (bounds_octant b (of_nat octant)) u)) [0..<8]
           (push_node key (ls_offset st) (sum_list counts) u)))"
        by (rule res_spec_bind [OF selection_lod [OF ch' room']], clarify, rule loop [OF ch'])
          (simp_all add: picked_def)
    qed
  qed
qed

text \<open>The refinement, by induction on the levels left.\<close>

theorem assign_refines:
  assumes "vk_validate key = Ok ()" "0 < limit"
  shows "assign_ok src limit c key"
  using assms(1)
proof (induction "30 - unat (vk_level key)" arbitrary: key rule: less_induct)
  case less
  show ?case unfolding assign_ok_def
  proof (intro allI impI)
    fix ixs run b and st :: lod_state
    assume run: "run_holds ixs run" and room: "unat (ls_offset st) + 4 * length ixs < 2 ^ 64"
    have n: "ir_count run = length ixs" using run by (simp add: run_holds_def)
    let ?P = "\<lambda>t. \<exists>ns. lod_tree src limit key b ixs ns \<and> built st ns t"
    consider "ixs = []" | "ixs \<noteq> []" "length ixs \<le> limit" | "limit < length ixs" "30 \<le> unat (vk_level key)"
      | "limit < length ixs" "unat (vk_level key) < 30" by linarith
    then show "res_spec (lod_error src limit c (30 - unat (vk_level key)) b ixs) ?P (assign src limit c key run b st)"
    proof cases
      case 1
      have "res_spec (cancelled_with c) (built st []) (assign src limit c key run b st)"
        by (rule assign_empty) (simp add: n 1)
      then show ?thesis by (rule res_spec_mono) (auto simp: 1 lod_error_def intro: lod_tree.Empty)
    next
      case 2
      show ?thesis
        by (rule res_spec_mono [OF assign_leaf [OF run 2 room]]) (use 2 in \<open>auto simp: lod_error_def intro: lod_tree.Leaf\<close>)
    next
      case 3
      then have "30 - unat (vk_level key) = 0" by simp
      moreover have "crowded src limit 0 b ixs" using 3 by (simp add: crowded_def)
      ultimately show ?thesis using 3
        by (subst assign.simps)
          (auto simp: n Let_def MAX_OCTREE_DEPTH_def depth_error_def lod_error_def
            intro!: res_spec_bind [OF res_spec_mono [OF cancel_spec]])
    next
      case 4
      show ?thesis
      proof (rule assign_inner [OF run room 4 less.prems])
        fix octant ck assume ck: "vk_child key octant = Ok ck"
        show "assign_ok src limit c ck"
          using less.hyps [OF _ vk_child_valid [OF ck]] vk_child_depth [OF ck 4(2)] 4(2) by simp
      qed
    qed
  qed
qed

end
