(* ===== verification/Lod_Index.thy ===== *)
theory Lod_Index
  imports Lod_Tree
begin

text \<open>
  What \<^verbatim>\<open>build_lod_index\<close> of \<^verbatim>\<open>copc-writer/src/lod.rs\<close> delivers: the structure of the octree by rule
  induction on \<open>lod_tree\<close>, and the properties of the index over the builder itself.
\<close>

section \<open>The structure of the octree\<close>

lemma concat_subs_cases:
  assumes "p \<in> set ((key, picked) # concat (map subs [0..<8]))"
  obtains (root) "p = (key, picked)" | (child) octant where "octant < 8" "p \<in> set (subs octant)"
  using assms by (auto simp del: upt_rec_numeral)

lemma sub_not_full:
  assumes "p \<in> set (subs octant)" "octant < 8" "cs octant \<le> length (chs octant)"
    and "cs octant = length (chs octant) \<Longrightarrow> subs octant = []"
  shows "cs octant < length (chs octant)"
  using assms by (cases "cs octant = length (chs octant)") auto

lemma tree_nodes:
  assumes "lod_tree src limit key b ixs ns" "vk_validate key = Ok ()" "unat (vk_level key) \<le> 30" "0 < limit"
  shows "\<forall>(k, pts) \<in> set ns. vk_validate k = Ok () \<and> unat (vk_level k) \<le> 30 \<and> under key k \<and>
    pts \<noteq> [] \<and> length pts \<le> limit \<and>
    (k \<noteq> key \<longrightarrow> (\<exists>(k', pts') \<in> set ns. length pts' = limit \<and> (\<exists>octant. vk_child k' octant = Ok k)))"
  using assms
proof (induction rule: lod_tree.induct)
  case (Inner ixs key chs b picked cs subs cks)
  let ?ns = "(key, picked) # concat (map subs [0..<8])"
  have full: "length picked = limit"
    using Inner.hyps(1,3,4) by (simp add: length_in_turns_part)
  have sub: "vk_validate k = Ok () \<and> unat (vk_level k) \<le> 30 \<and> under key k \<and> pts \<noteq> [] \<and> length pts \<le> limit \<and>
      (\<exists>(k', pts') \<in> set ?ns. length pts' = limit \<and> (\<exists>octant. vk_child k' octant = Ok k))"
    if o8: "octant < 8" and p: "(k, pts) \<in> set (subs octant)" for octant k pts
  proof -
    have lt: "cs octant < length (chs octant)"
      using sub_not_full [where subs = subs and chs = chs and cs = cs] p o8 Inner.hyps(5,7) [OF o8] by blast
    note ck = conjunct1 [OF Inner(8) [OF o8 lt]]
    have lv: "unat (vk_level (cks octant)) \<le> 30" using vk_child_depth [OF ck Inner.hyps(2)] Inner.hyps(2) by simp
    have IH: "case (k, pts) of (k, pts) \<Rightarrow> vk_validate k = Ok () \<and> unat (vk_level k) \<le> 30 \<and>
        under (cks octant) k \<and> pts \<noteq> [] \<and> length pts \<le> limit \<and>
        (k \<noteq> cks octant \<longrightarrow> (\<exists>(k', pts') \<in> set (subs octant). length pts' = limit \<and> (\<exists>octant. vk_child k' octant = Ok k)))"
      using Inner(8) [OF o8 lt] vk_child_valid [OF ck] lv Inner.prems(3) p by blast
    have sup: "set (subs octant) \<subseteq> set ?ns" using o8 by (auto simp del: upt_rec_numeral)
    have "\<exists>(k', pts') \<in> set ?ns. length pts' = limit \<and> (\<exists>octant. vk_child k' octant = Ok k)"
    proof (cases "k = cks octant")
      case True
      then show ?thesis using ck full by auto
    next
      case False
      then show ?thesis using IH sup by blast
    qed
    then show ?thesis using IH under_trans [OF under_childI [OF ck]] by simp
  qed
  show ?case
  proof (rule ballI, clarify)
    fix k pts assume "(k, pts) \<in> set ?ns"
    then show "vk_validate k = Ok () \<and> unat (vk_level k) \<le> 30 \<and> under key k \<and> pts \<noteq> [] \<and> length pts \<le> limit \<and>
      (k \<noteq> key \<longrightarrow> (\<exists>(k', pts') \<in> set ?ns. length pts' = limit \<and> (\<exists>octant. vk_child k' octant = Ok k)))"
    proof (cases rule: concat_subs_cases)
      case root
      then show ?thesis using Inner.prems full by auto
    next
      case (child octant)
      then show ?thesis using sub by blast
    qed
  qed
qed auto

text \<open>No key has two nodes: the subtrees of the octants are apart.\<close>

lemma set_concat_subs: "fst ` set (concat (map subs [0..<n])) = (\<Union>i<n. fst ` set (subs i))"
  by (induction n) (simp_all add: image_Un lessThan_Suc Un_commute)

lemma distinct_concat_subs:
  assumes "\<And>i. i < n \<Longrightarrow> distinct (map fst (subs i))"
    and "\<And>i j. i < j \<Longrightarrow> j < n \<Longrightarrow> fst ` set (subs i) \<inter> fst ` set (subs j) = {}"
  shows "distinct (map fst (concat (map subs [0..<n])))"
  using assms
proof (induction n)
  case (Suc n)
  have "fst ` set (concat (map subs [0..<n])) = (\<Union>i<n. fst ` set (subs i))"
    by (rule set_concat_subs)
  moreover have "(\<Union>i<n. fst ` set (subs i)) \<inter> fst ` set (subs n) = {}"
    using Suc.prems(2) [OF _ lessI] by blast
  moreover have "distinct (map fst (concat (map subs [0..<n])))"
    by (rule Suc.IH) (use Suc.prems in \<open>simp_all\<close>)
  ultimately show ?case using Suc.prems(1) [of n] by simp
qed simp

lemma tree_distinct:
  assumes "lod_tree src limit key b ixs ns" "vk_validate key = Ok ()" "unat (vk_level key) \<le> 30" "0 < limit"
  shows "distinct (map fst ns)"
  using assms
proof (induction rule: lod_tree.induct)
  case (Inner ixs key chs b picked cs subs cks)
  have child: "vk_child key (of_nat octant) = Ok (cks octant)" "distinct (map fst (subs octant))"
      "\<And>p. p \<in> set (subs octant) \<Longrightarrow> under (cks octant) (fst p)"
    if o8: "octant < 8" and ne: "subs octant \<noteq> []" for octant
  proof -
    have "cs octant < length (chs octant)" using ne Inner.hyps(5,7) [OF o8] by (meson le_neq_implies_less)
    note c = Inner(8) [OF o8 this]
    show ck: "vk_child key (of_nat octant) = Ok (cks octant)" using c by blast
    have lv: "unat (vk_level (cks octant)) \<le> 30" using vk_child_depth [OF ck Inner.hyps(2)] Inner.hyps(2) by simp
    note p = vk_child_valid [OF ck] lv Inner.prems(3)
    show "distinct (map fst (subs octant))" using c p by blast
    show "under (cks octant) (fst p)" if "p \<in> set (subs octant)" for p
      using tree_nodes [OF _ p] c that by fastforce
  qed
  have "distinct (map fst (concat (map subs [0..<8])))"
  proof (rule distinct_concat_subs)
    fix i :: nat assume "i < 8"
    then show "distinct (map fst (subs i))" using child(2) by (cases "subs i = []") auto
  next
    fix i j :: nat assume ij: "i < j" "j < 8"
    show "fst ` set (subs i) \<inter> fst ` set (subs j) = {}"
    proof (rule ccontr)
      assume "\<not> ?thesis"
      then obtain p q where pq: "p \<in> set (subs i)" "q \<in> set (subs j)" "fst p = fst q" by auto
      then have ne: "subs i \<noteq> []" "subs j \<noteq> []" by auto
      have i8: "i < 8" using ij by simp
      note ci = child [OF i8 ne(1)] and cj = child [OF ij(2) ne(2)]
      have "cks i = cks j"
        using under_unique ci(3) [OF pq(1)] cj(3) [OF pq(2)] pq(3)
          vk_child_fields(2) [OF ci(1)] vk_child_fields(2) [OF cj(1)] by metis
      then have "(of_nat i :: u8) = of_nat j" using child_inj ci(1) cj(1) by metis
      moreover have "unat (of_nat i :: u8) = i" "unat (of_nat j :: u8) = j"
        using ij by (simp_all add: unat_of_nat_small)
      ultimately show False using ij by simp
    qed
  qed
  moreover have "key \<notin> fst ` set (concat (map subs [0..<8]))"
  proof
    assume "key \<in> fst ` set (concat (map subs [0..<8]))"
    then obtain i p where ip: "i < 8" "p \<in> set (subs i)" "fst p = key" by (auto simp del: upt_rec_numeral)
    then have "subs i \<noteq> []" by auto
    then show False using child(1,3) [OF ip(1)] ip child_not_above by metis
  qed
  ultimately show ?case by simp
qed simp_all

section \<open>Points and boxes\<close>

definition box_finite :: "bounds \<Rightarrow> bool" where
  "box_finite b =
     (case (b_min b, b_max b) of ((x0, y0, z0), (x1, y1, z1)) \<Rightarrow>
        list_all f64_is_finite [x0, y0, z0, x1, y1, z1])"

definition in_box :: "point_source \<Rightarrow> bounds \<Rightarrow> u32 \<Rightarrow> bool" where
  "in_box src b i = (case ps_xyz src (unat i) of Inl _ \<Rightarrow> False | Inr (x, y, z) \<Rightarrow> contains_xyz b x y z)"

text \<open>\<open>box_at key b k bk\<close>: walking down from \<open>key\<close> with the box \<open>b\<close> reaches \<open>k\<close> with the box \<open>bk\<close>.\<close>

inductive box_at :: "voxel_key \<Rightarrow> bounds \<Rightarrow> voxel_key \<Rightarrow> bounds \<Rightarrow> bool" where
  here: "box_at key b key b"
| down: "vk_child key octant = Ok ck \<Longrightarrow> box_at ck (bounds_octant b octant) k bk \<Longrightarrow> box_at key b k bk"

inductive_cases box_at_hereE: "box_at key b key bk"

lemma box_finite_octant:
  assumes "box_finite b"
  shows "box_finite (bounds_octant b octant)"
proof -
  obtain x0 y0 z0 x1 y1 z1 where b: "b_min b = (x0, y0, z0)" "b_max b = (x1, y1, z1)"
    by (cases "b_min b"; cases "b_max b") auto
  obtain cx cy cz where c: "bounds_center b = (cx, cy, cz)" by (cases "bounds_center b")
  have "list_all f64_is_finite [x0, y0, z0, x1, y1, z1]" using assms by (simp add: box_finite_def b)
  then have "f64_is_finite cx \<and> f64_is_finite cy \<and> f64_is_finite cz"
    using bounds_center_finite [OF b] by (simp add: c)
  then show ?thesis using assms by (simp add: box_finite_def bounds_octant_def b c Let_def)
qed

lemma in_box_octant:
  assumes "in_box src b i" "box_finite b"
  shows "in_box src (bounds_octant b (of_nat (octant_of src (bounds_center b) i))) i"
proof -
  from assms(1) obtain x y z where p: "ps_xyz src (unat i) = Ok (x, y, z)" "contains_xyz b x y z"
    by (auto simp: in_box_def split: sum.splits)
  obtain x0 y0 z0 x1 y1 z1 where b: "b_min b = (x0, y0, z0)" "b_max b = (x1, y1, z1)"
    by (cases "b_min b"; cases "b_max b") auto
  obtain cx cy cz where c: "bounds_center b = (cx, cy, cz)" by (cases "bounds_center b")
  have "list_all f64_is_finite [x0, y0, z0, x1, y1, z1]" using assms(2) by (simp add: box_finite_def b)
  then have "f64_is_finite cx \<and> f64_is_finite cy \<and> f64_is_finite cz"
    using bounds_center_finite [OF b] by (simp add: c)
  then have "contains_xyz (bounds_octant b (of_nat (child_octant (bounds_center b) x y z))) x y z"
    by (intro octant_contains [OF p(2) c]) (simp_all add: fl_finite_not_nan)
  then show ?thesis by (simp add: in_box_def octant_of_def p)
qed

lemma tree_boxes:
  assumes "lod_tree src limit key b ixs ns" "\<forall>i \<in> set ixs. in_box src b i" "box_finite b"
  shows "\<forall>(k, pts) \<in> set ns. \<exists>bk. box_at key b k bk \<and> (\<forall>i \<in> set pts. in_box src bk i)"
  using assms
proof (induction rule: lod_tree.induct)
  case (Leaf ixs key b)
  then show ?case by (auto intro: box_at.here)
next
  case (Inner ixs key chs b picked cs subs cks)
  have "set (take limit (in_turns chs)) \<subseteq> set (in_turns chs)" by (rule set_take_subset)
  also have "set (in_turns chs) = set ixs"
    unfolding Inner.hyps(3) by (metis mset_in_turns sum_part set_mset_mset)
  finally have root: "\<forall>i \<in> set picked. in_box src b i" using Inner.prems(1) Inner.hyps(4) by blast
  show ?case
  proof (rule ballI, clarify)
    fix k pts assume "(k, pts) \<in> set ((key, picked) # concat (map subs [0..<8]))"
    then show "\<exists>bk. box_at key b k bk \<and> (\<forall>i \<in> set pts. in_box src bk i)"
    proof (cases rule: concat_subs_cases)
      case root
      then show ?thesis using \<open>\<forall>i \<in> set picked. in_box src b i\<close> by (auto intro: box_at.here)
    next
      case (child octant)
      then have "cs octant < length (chs octant)"
        using sub_not_full [where subs = subs and chs = chs and cs = cs] Inner.hyps(5,7) [OF child(1)] by blast
      note c = Inner(8) [OF child(1) this]
      have "in_box src (bounds_octant b (of_nat octant)) i" if "i \<in> set (chs octant)" for i
      proof -
        have "i \<in> set ixs" "octant_of src (bounds_center b) i = octant"
          using that by (simp_all add: Inner.hyps(3) part_def)
        then show ?thesis using in_box_octant [OF _ Inner.prems(2), of src i] Inner.prems(1) by auto
      qed
      then have "\<forall>i \<in> set (drop (cs octant) (chs octant)). in_box src (bounds_octant b (of_nat octant)) i"
        using set_drop_subset by fast
      then show ?thesis using c child(2) box_finite_octant [OF Inner.prems(2)] by (fastforce intro: box_at.down)
    qed
  qed
qed simp

section \<open>The index\<close>

text \<open>The point indexes of a node, read from the order file as the writer reads them.\<close>

definition node_indexes :: "u8 list \<Rightarrow> lod_node \<Rightarrow> u32 list" where
  "node_indexes order n =
     map (\<lambda>i. u32_from_le (bslice order (unat (ln_start n) + 4 * i) 4)) [0..<ln_count n]"

definition all_indexes :: "point_source \<Rightarrow> u32 list" where
  "all_indexes src = map of_nat [0..<ps_len src]"

lemma ixfile_nth:
  assumes "i < length ixs"
  shows "bslice (ixfile ixs @ rest) (4 * i) 4 = u32_to_le (ixs ! i)"
proof -
  have "bslice (ixfile ixs @ rest) (4 * i) 4 = bslice (ixfile ixs) (i * 4) 4"
    using assms by (subst bslice_append_left) (simp_all add: mult.commute)
  then show ?thesis using index_records.record_slice [of ixs i] assms by (simp add: ixfile_def list_all_iff)
qed

lemma node_indexes_place:
  assumes "length pre = off" "off + 4 * length (all_points ns) < 2 ^ 64"
  shows "map (node_indexes (pre @ ixfile (all_points ns) @ post)) (place off ns) = map snd ns \<and>
    list_all (\<lambda>n. unat (ln_start n) + 4 * ln_count n \<le> off + 4 * length (all_points ns)) (place off ns)"
  using assms
proof (induction off ns arbitrary: pre rule: place.induct)
  case (2 off key ixs ns)
  have off: "unat (of_nat off :: u64) = off" using 2(3) by (intro unat_of_nat_small) simp
  have "node_indexes (pre @ ixfile (all_points ((key, ixs) # ns)) @ post)
      \<lparr>ln_key = key, ln_start = of_nat off, ln_count = length ixs\<rparr> = ixs"
  proof (rule nth_equalityI, goal_cases)
    case (2 i)
    then have i: "i < length ixs" by (simp add: node_indexes_def)
    have "bslice (pre @ ixfile ixs @ ixfile (all_points ns) @ post) (off + 4 * i) 4 =
        bslice (ixfile ixs @ ixfile (all_points ns) @ post) (4 * i) 4"
      using \<open>length pre = off\<close> by (simp add: bslice_def)
    then show ?case using i off by (simp add: node_indexes_def ixfile_nth)
  qed (simp add: node_indexes_def)
  moreover have "map (node_indexes ((pre @ ixfile ixs) @ ixfile (all_points ns) @ post)) (place (off + 4 * length ixs) ns)
      = map snd ns \<and>
    list_all (\<lambda>n. unat (ln_start n) + 4 * ln_count n \<le> off + 4 * length ixs + 4 * length (all_points ns))
      (place (off + 4 * length ixs) ns)"
    by (rule 2(1)) (use 2(2,3) in simp_all)
  ultimately show ?case using off by (simp add: algebra_simps)
qed simp

lemma write_root_indexes_spec:
  "res_spec (cancelled_with c) (\<lambda>(out, _). out = bs @ ixfile (map of_nat js)) (write_root_indexes c js (bs, n))"
proof (induction js arbitrary: bs n)
  case (Cons i js)
  show ?case unfolding write_root_indexes.simps
    by (rule res_spec_bind [OF poll_spec], rule res_spec_mono [OF Cons.IH]) auto
qed simp

lemma root_run_spec:
  "res_spec (cancelled_with c) (\<lambda>(run, _). run_holds (map of_nat [0..<unat n]) run) (write_root_index_run n c polls)"
  unfolding write_root_index_run_def
  by (rule res_spec_bind [OF write_root_indexes_spec]) (auto simp: run_holds_def)

definition build_error :: "point_source \<Rightarrow> bounds \<Rightarrow> u32 \<Rightarrow> cancel \<Rightarrow> copc_error \<Rightarrow> bool" where
  "build_error src cube max_points c e \<longleftrightarrow>
     cancelled_with c e \<or>
     2 ^ 32 \<le> ps_len src \<and> e = InvalidInput ''COPC writer supports at most u32::MAX points per file'' \<or>
     max_points = 0 \<and> e = InvalidInput ''max_points_per_node must be greater than zero'' \<or>
     source_error src (all_indexes src) e \<or>
     e = depth_error \<and> crowded src (unat max_points) 30 cube (all_indexes src)"

lemma build_spec:
  "res_spec (build_error src (bounds_cube center halfsize) max_points c)
    (\<lambda>(nodes, order, _). ps_len src < 2 ^ 32 \<and> max_points \<noteq> 0 \<and>
      (\<exists>ns. lod_tree src (unat max_points) vk_root (bounds_cube center halfsize) (all_indexes src) ns \<and>
         order = ixfile (all_points ns) \<and> nodes = sort_key ln_key (place 0 ns)))
    (build_lod_index src center halfsize max_points c polls)"
proof -
  let ?cube = "bounds_cube center halfsize"
  let ?E = "build_error src ?cube max_points c"
  have can: "res_spec ?E (\<lambda>_. True) (cancel_check c n)" for n
    by (rule res_spec_mono [OF cancel_spec]) (auto simp: build_error_def)
  have len: "res_spec ?E (\<lambda>_. ps_len src < 2 ^ 32) (ensure (ps_len src < 2 ^ 32)
      (InvalidInput ''COPC writer supports at most u32::MAX points per file''))"
    by (simp add: build_error_def not_less)
  have max: "res_spec ?E (\<lambda>_. max_points \<noteq> 0) (ensure (max_points \<noteq> 0)
      (InvalidInput ''max_points_per_node must be greater than zero''))"
    by (simp add: build_error_def)
  have run: "res_spec ?E (\<lambda>(run, _). run_holds (all_indexes src) run)
      (write_root_index_run (of_nat (ps_len src)) c n)" if "ps_len src < 2 ^ 32" for n
    by (rule res_spec_mono [OF root_run_spec])
      (use that in \<open>auto simp: build_error_def all_indexes_def unat_of_nat_small\<close>)
  have asg: "res_spec ?E (\<lambda>t. \<exists>ns. lod_tree src (unat max_points) vk_root ?cube (all_indexes src) ns \<and>
        built \<lparr>ls_order = [], ls_offset = 0, ls_nodes = [], ls_polls = n\<rparr> ns t)
      (assign src (unat max_points) c vk_root run ?cube
         \<lparr>ls_order = [], ls_offset = 0, ls_nodes = [], ls_polls = n\<rparr>)"
    if "ps_len src < 2 ^ 32" "max_points \<noteq> 0" "run_holds (all_indexes src) run" for run n
  proof -
    have "0 < unat max_points" using that(2) by (simp add: unat_gt_0)
    then have ok: "assign_ok src (unat max_points) c vk_root" by (rule assign_refines [OF vk_validate_root])
    from ok [unfolded assign_ok_def, rule_format, OF that(3), where
        st = "\<lparr>ls_order = [], ls_offset = 0, ls_nodes = [], ls_polls = n\<rparr>" and b = ?cube] that(1)
    show ?thesis
      by (auto elim!: res_spec_mono simp: all_indexes_def lod_error_def build_error_def vk_root_def)
  qed
  show ?thesis
    unfolding build_lod_index_def
    by (rule res_spec_bind [OF can], rule res_spec_bind [OF len], rule res_spec_bind [OF max],
        rule res_spec_bind [OF run], assumption, clarify, rule res_spec_bind [OF asg], assumption+)
      (auto simp: built_def)
qed

text \<open>An index that was built: its nodes, sorted by key, with the tree they come from.\<close>

definition indexes_tree ::
  "point_source \<Rightarrow> nat \<Rightarrow> bounds \<Rightarrow> lod_node list \<Rightarrow> u8 list \<Rightarrow> (voxel_key \<times> u32 list) list \<Rightarrow> bool" where
  "indexes_tree src limit cube nodes order ns \<longleftrightarrow>
     lod_tree src limit vk_root cube (all_indexes src) ns \<and>
     mset (map (\<lambda>n. (ln_key n, node_indexes order n)) nodes) = mset ns \<and>
     sorted (map ln_key nodes) \<and>
     (\<forall>n \<in> set nodes. unat (ln_start n) + 4 * ln_count n \<le> length order)"

lemma place_pairs:
  assumes "4 * length (all_points ns) < 2 ^ 64"
  shows "map (\<lambda>n. (ln_key n, node_indexes (ixfile (all_points ns)) n)) (place 0 ns) = ns"
proof -
  have k: "map ln_key (place off ms) = map fst ms" for off ms
    by (induction off ms rule: place.induct) simp_all
  have "map (node_indexes (ixfile (all_points ns))) (place 0 ns) = map snd ns"
    using node_indexes_place [of "[]" 0 ns "[]"] assms by simp
  then have "zip (map ln_key (place 0 ns)) (map (node_indexes (ixfile (all_points ns))) (place 0 ns)) =
      zip (map fst ns) (map snd ns)" by (simp only: k)
  then show ?thesis by (simp add: zip_map_fst_snd zip_map_map [symmetric] zip_same_conv_map zip_map1 zip_map2 comp_def)
qed

lemma build_index_spec:
  "res_spec (build_error src (bounds_cube center halfsize) max_points c)
    (\<lambda>(nodes, order, _). 0 < unat max_points \<and>
      (\<exists>ns. indexes_tree src (unat max_points) (bounds_cube center halfsize) nodes order ns))
    (build_lod_index src center halfsize max_points c polls)"
proof (rule res_spec_mono [OF build_spec], clarify)
  fix nodes :: "lod_node list" and order :: "u8 list" and polls' :: nat and ns
  assume len: "ps_len src < 2 ^ 32" and m: "max_points \<noteq> 0"
    and tree: "lod_tree src (unat max_points) vk_root (bounds_cube center halfsize) (all_indexes src) ns"
  have room: "4 * length (all_points ns) < 2 ^ 64"
    using lod_tree_length [OF tree] len by (simp add: all_indexes_def)
  have "list_all (\<lambda>n. unat (ln_start n) + 4 * ln_count n \<le> 0 + 4 * length (all_points ns)) (place 0 ns)"
    using node_indexes_place [of "[]" 0 ns "[]"] room by simp
  then have ranges: "\<forall>n \<in> set (sort_key ln_key (place 0 ns)). unat (ln_start n) + 4 * ln_count n \<le> length (ixfile (all_points ns))"
    by (simp add: list_all_iff)
  have "mset (map (\<lambda>n. (ln_key n, node_indexes (ixfile (all_points ns)) n)) (sort_key ln_key (place 0 ns))) = mset ns"
    using arg_cong [OF place_pairs [OF room], of mset] by simp
  then have "indexes_tree src (unat max_points) (bounds_cube center halfsize)
      (sort_key ln_key (place 0 ns)) (ixfile (all_points ns)) ns"
    unfolding indexes_tree_def using tree ranges by simp
  then show "0 < unat max_points \<and> (\<exists>ns'. indexes_tree src (unat max_points) (bounds_cube center halfsize)
      (sort_key ln_key (place 0 ns)) (ixfile (all_points ns)) ns')"
    using m by (auto simp: unat_gt_0)
qed

text \<open>What every node of an index has, from what every node of the tree has.\<close>

lemma indexes_tree_nodes:
  assumes "indexes_tree src limit cube nodes order ns" "\<forall>(k, pts) \<in> set ns. P k pts"
  shows "list_all (\<lambda>n. P (ln_key n) (node_indexes order n)) nodes"
proof -
  have "set (map (\<lambda>n. (ln_key n, node_indexes order n)) nodes) = set ns"
    using assms(1) unfolding indexes_tree_def by (metis set_mset_mset)
  then show ?thesis using assms(2) by (fastforce simp: list_all_iff)
qed

lemma indexes_tree_find:
  assumes "indexes_tree src limit cube nodes order ns" "(k, pts) \<in> set ns"
  shows "\<exists>n \<in> set nodes. ln_key n = k \<and> node_indexes order n = pts"
proof -
  have "set (map (\<lambda>n. (ln_key n, node_indexes order n)) nodes) = set ns"
    using assms(1) unfolding indexes_tree_def by (metis set_mset_mset)
  then have "(k, pts) \<in> (\<lambda>n. (ln_key n, node_indexes order n)) ` set nodes" using assms(2) by simp
  then show ?thesis by auto
qed

lemma length_node_indexes [simp]: "length (node_indexes order n) = ln_count n"
  by (simp add: node_indexes_def)

section \<open>Properties\<close>

text \<open>The nodes of an index, as facts other theories use.\<close>

definition index_nodes_ok :: "point_source \<Rightarrow> u32 \<Rightarrow> lod_node list \<Rightarrow> u8 list \<Rightarrow> bool" where
  "index_nodes_ok src max_points nodes order \<longleftrightarrow>
     sorted_wrt (<) (map ln_key nodes) \<and>
     mset (concat (map (node_indexes order) nodes)) = mset (map of_nat [0..<ps_len src]) \<and>
     list_all (\<lambda>n. 0 < ln_count n \<and> ln_count n \<le> unat max_points \<and>
       unat (ln_start n) + 4 * ln_count n \<le> length order \<and>
       vk_validate (ln_key n) = Ok () \<and> unat (vk_level (ln_key n)) \<le> 30) nodes"

lemma build_index_nodes:
  assumes Inr: "build_lod_index src center halfsize max_points c polls = Ok (nodes, order, polls')"
  shows "index_nodes_ok src max_points nodes order"
proof -
  let ?cube = "bounds_cube center halfsize"
  from res_spec_Ok [OF build_index_spec Inr] obtain ns
    where m: "0 < unat max_points" and it: "indexes_tree src (unat max_points) ?cube nodes order ns" by auto
  then have tree: "lod_tree src (unat max_points) vk_root ?cube (all_indexes src) ns"
    and keys: "mset (map (\<lambda>n. (ln_key n, node_indexes order n)) nodes) = mset ns"
    and srt: "sorted (map ln_key nodes)" by (simp_all add: indexes_tree_def)
  have root: "unat (vk_level vk_root) \<le> 30" by (simp add: vk_root_def)
  have "mset (map ln_key nodes) = mset (map fst ns)"
    using arg_cong [OF keys, of "image_mset fst"] by (simp add: comp_def flip: mset_map)
  then have "distinct (map ln_key nodes)"
    using tree_distinct [OF tree vk_validate_root root m] by (metis mset_eq_imp_distinct_iff)
  then have "sorted_wrt (<) (map ln_key nodes)" using srt by (simp add: strict_sorted_iff)
  moreover have "mset (concat (map (node_indexes order) nodes)) = mset (all_points ns)"
  proof -
    have "mset (map (node_indexes order) nodes) = mset (map snd ns)"
      using arg_cong [OF keys, of "image_mset snd"] by (simp add: comp_def flip: mset_map)
    moreover have "mset (concat xss) = \<Sum>\<^sub># (image_mset mset (mset xss))" for xss :: "u32 list list"
      by (induction xss) simp_all
    ultimately show ?thesis by simp
  qed
  moreover have "list_all (\<lambda>n. vk_validate (ln_key n) = Ok () \<and> unat (vk_level (ln_key n)) \<le> 30 \<and>
      node_indexes order n \<noteq> [] \<and> length (node_indexes order n) \<le> unat max_points) nodes"
    by (rule indexes_tree_nodes [OF it]) (use tree_nodes [OF tree vk_validate_root root m] in fastforce)
  then have "list_all (\<lambda>n. 0 < ln_count n \<and> ln_count n \<le> unat max_points \<and>
         unat (ln_start n) + 4 * ln_count n \<le> length order \<and>
         vk_validate (ln_key n) = Ok () \<and> unat (vk_level (ln_key n)) \<le> 30) nodes"
    using it by (auto simp: list_all_iff indexes_tree_def simp flip: length_greater_0_conv)
  ultimately show ?thesis using lod_tree_mset [OF tree] by (simp add: index_nodes_ok_def all_indexes_def)
qed

text \<open>C13: the nodes of an index that was built partition the points: every point index is in exactly
  one node, each node has at least one point and at most \<open>max_points_per_node\<close>, its range lies in the order
  file, its key is valid and not deeper than level 30, and the nodes are strictly sorted by key.\<close>

theorem lod_index_partition:
  "case build_lod_index src center halfsize max_points c polls of
     Inl _ \<Rightarrow> True
   | Inr (nodes, order, _) \<Rightarrow>
       sorted_wrt (<) (map ln_key nodes) \<and>
       mset (concat (map (node_indexes order) nodes)) = mset (map of_nat [0..<ps_len src]) \<and>
       list_all (\<lambda>n. 0 < ln_count n \<and> ln_count n \<le> unat max_points \<and>
         unat (ln_start n) + 4 * ln_count n \<le> length order \<and>
         vk_validate (ln_key n) = Ok () \<and> unat (vk_level (ln_key n)) \<le> 30) nodes"
  using build_index_nodes [of src center halfsize max_points c polls]
  by (auto simp: index_nodes_ok_def split: sum.split prod.splits)

text \<open>C15: an index is a tree without gaps: every node but the root has its parent among the nodes, and
  that parent is full (the level of detail above a node is never thinner than the budget).\<close>

theorem lod_index_ancestors:
  "case build_lod_index src center halfsize max_points c polls of
     Inl _ \<Rightarrow> True
   | Inr (nodes, order, _) \<Rightarrow>
       list_all (\<lambda>n. ln_key n = vk_root \<or>
         list_ex (\<lambda>p. ln_count p = unat max_points \<and>
           (\<exists>octant. vk_child (ln_key p) octant = Ok (ln_key n))) nodes) nodes"
proof (cases "build_lod_index src center halfsize max_points c polls")
  case (Inr r)
  obtain nodes order polls' where r: "r = (nodes, order, polls')" by (cases r)
  let ?cube = "bounds_cube center halfsize"
  from res_spec_Ok [OF build_index_spec Inr] r obtain ns
    where m: "0 < unat max_points" and it: "indexes_tree src (unat max_points) ?cube nodes order ns" by auto
  then have tree: "lod_tree src (unat max_points) vk_root ?cube (all_indexes src) ns"
    by (simp add: indexes_tree_def)
  have root: "unat (vk_level vk_root) \<le> 30" by (simp add: vk_root_def)
  have parents: "list_all (\<lambda>n. ln_key n = vk_root \<or>
      (\<exists>(k', pts') \<in> set ns. length pts' = unat max_points \<and> (\<exists>octant. vk_child k' octant = Ok (ln_key n)))) nodes"
    by (rule indexes_tree_nodes [OF it]) (use tree_nodes [OF tree vk_validate_root root m] in blast)
  have "list_all (\<lambda>n. ln_key n = vk_root \<or>
         list_ex (\<lambda>p. ln_count p = unat max_points \<and>
           (\<exists>octant. vk_child (ln_key p) octant = Ok (ln_key n))) nodes) nodes"
    unfolding list_all_iff list_ex_iff
  proof (rule ballI)
    fix n assume "n \<in> set nodes"
    with parents consider "ln_key n = vk_root" | k' pts' octant where "(k', pts') \<in> set ns"
        "length pts' = unat max_points" "vk_child k' octant = Ok (ln_key n)"
      by (auto simp: list_all_iff)
    then show "ln_key n = vk_root \<or> (\<exists>p \<in> set nodes. ln_count p = unat max_points \<and>
        (\<exists>octant. vk_child (ln_key p) octant = Ok (ln_key n)))"
    proof cases
      case 2
      from indexes_tree_find [OF it 2(1)] obtain p
        where "p \<in> set nodes" "ln_key p = k'" "node_indexes order p = pts'" by blast
      then have "ln_count p = unat max_points" "vk_child (ln_key p) octant = Ok (ln_key n)"
        using 2 length_node_indexes [of order p] by simp_all
      with \<open>p \<in> set nodes\<close> show ?thesis by blast
    qed blast
  qed
  then show ?thesis by (simp add: Inr r)
qed simp

text \<open>C14: the octree is spatial: when the points lie in the root cube and its corners are finite, each
  node has a box, reached from the cube along the octants that lead to its key, that contains the node's points.\<close>

theorem lod_index_spatial:
  assumes "box_finite (bounds_cube center halfsize)"
    and "list_all (in_box src (bounds_cube center halfsize)) (map of_nat [0..<ps_len src])"
  shows "case build_lod_index src center halfsize max_points c polls of
     Inl _ \<Rightarrow> True
   | Inr (nodes, order, _) \<Rightarrow>
       list_all (\<lambda>n. \<exists>bk. box_at vk_root (bounds_cube center halfsize) (ln_key n) bk \<and>
         list_all (in_box src bk) (node_indexes order n)) nodes"
proof (cases "build_lod_index src center halfsize max_points c polls")
  case (Inr r)
  obtain nodes order polls' where r: "r = (nodes, order, polls')" by (cases r)
  let ?cube = "bounds_cube center halfsize"
  from res_spec_Ok [OF build_index_spec Inr] r obtain ns
    where it: "indexes_tree src (unat max_points) ?cube nodes order ns" by auto
  then have tree: "lod_tree src (unat max_points) vk_root ?cube (all_indexes src) ns"
    by (simp add: indexes_tree_def)
  have "\<forall>(k, pts) \<in> set ns. \<exists>bk. box_at vk_root ?cube k bk \<and> (\<forall>i \<in> set pts. in_box src bk i)"
    by (rule tree_boxes [OF tree _ assms(1)]) (use assms(2) in \<open>simp add: list_all_iff all_indexes_def\<close>)
  then have "list_all (\<lambda>n. \<exists>bk. box_at vk_root ?cube (ln_key n) bk \<and>
      (\<forall>i \<in> set (node_indexes order n). in_box src bk i)) nodes"
    by (rule indexes_tree_nodes [OF it])
  then show ?thesis by (simp add: Inr r list_all_iff)
qed simp

definition one_point :: point_source where
  "one_point = \<lparr>ps_len = 1, ps_xyz = (\<lambda>_. Ok (f64_half, 0, f64_half)), ps_fields = (\<lambda>_. Err Cancelled),
     ps_extra_byte_count = 0, ps_extra_bytes_vlrs = []\<rparr>"

lemma unit_cube:
  "bounds_cube (0, 0, 0) f64_one =
    \<lparr>b_min = (0xBFF0000000000000, 0xBFF0000000000000, 0xBFF0000000000000),
     b_max = (f64_one, f64_one, f64_one)\<rparr>"
proof -
  have neg: "fl_neg binary64 f64_one = (0xBFF0000000000000 :: f64)"
    by (simp add: fl_neg_def fl_make_def fl_sign_def fl_mag_def sign_weight_def binary64_def)
  have "f64_add 0 w = w" if "w = f64_one \<or> w = 0xBFF0000000000000" for w
    by (rule fl_add_zero [OF fits_binary64])
      (use that in \<open>auto simp: fl_is_finite_def fl_mag_def sign_weight_def inf_mag_def binary64_def\<close>)
  then show ?thesis by (simp add: bounds_cube_def fl_sub_def neg)
qed

theorem lod_index_spatial_witness:
  "case build_lod_index one_point (0, 0, 0) f64_one 10 never_cancel 0 of
     Inl _ \<Rightarrow> True
   | Inr (nodes, order, _) \<Rightarrow>
       list_all (\<lambda>n. \<exists>bk. box_at vk_root (bounds_cube (0, 0, 0) f64_one) (ln_key n) bk \<and>
         list_all (in_box one_point bk) (node_indexes order n)) nodes"
proof (rule lod_index_spatial)
  show "box_finite (bounds_cube (0, 0, 0) f64_one)"
    by (simp add: unit_cube box_finite_def fl_is_finite_def fl_mag_def sign_weight_def inf_mag_def binary64_def)
  show "list_all (in_box one_point (bounds_cube (0, 0, 0) f64_one)) (map of_nat [0..<ps_len one_point])"
    by (simp add: unit_cube one_point_def in_box_def contains_xyz_def fl_le_def fl_is_nan_def fl_ord_def
        fl_mag_def fl_sign_def sign_weight_def inf_mag_def binary64_def)
qed

text \<open>C16: building an index can only fail by cancellation, by a source error on one of its points, on
  more than \<^verbatim>\<open>u32::MAX\<close> points or a budget of zero, or because more points than the budget share one
  octant path of length 30. No other error of the code (a lost partition file, an index file that ends early,
  a key out of range, the order offset overflowing) is reachable.\<close>

theorem lod_index_errors:
  "case build_lod_index src center halfsize max_points c polls of
     Inl e \<Rightarrow> (\<exists>n. c n = Err e) \<or>
       (2 ^ 32 \<le> ps_len src \<and> e = InvalidInput ''COPC writer supports at most u32::MAX points per file'') \<or>
       (max_points = 0 \<and> e = InvalidInput ''max_points_per_node must be greater than zero'') \<or>
       list_ex (\<lambda>i. ps_xyz src (unat i) = Err e) (all_indexes src) \<or>
       (e = depth_error \<and> crowded src (unat max_points) 30 (bounds_cube center halfsize) (all_indexes src))
   | Inr _ \<Rightarrow> True"
proof (cases "build_lod_index src center halfsize max_points c polls")
  case (Inl e)
  have "build_error src (bounds_cube center halfsize) max_points c e"
    by (rule res_spec_Err [OF build_index_spec Inl])
  then show ?thesis
    unfolding Inl sum.case list_ex_iff build_error_def cancelled_with_def source_error_def .
qed simp

text \<open>C17: building terminates with an index whenever nobody cancels, the points can be read and no
  30 octants in a row hold more points than the budget.\<close>

theorem lod_index_succeeds:
  assumes "ps_len src < 2 ^ 32" "max_points \<noteq> 0"
    and "list_all (\<lambda>i. is_ok (ps_xyz src (unat i))) (all_indexes src)"
    and "\<not> crowded src (unat max_points) 30 (bounds_cube center halfsize) (all_indexes src)"
  shows "is_ok (build_lod_index src center halfsize max_points never_cancel polls)"
proof (cases "build_lod_index src center halfsize max_points never_cancel polls")
  case (Inl e)
  have "build_error src (bounds_cube center halfsize) max_points never_cancel e"
    by (rule res_spec_Err [OF build_index_spec Inl])
  then show ?thesis using assms
    by (auto simp: build_error_def cancelled_with_def never_cancel_def source_error_def list_all_iff)
qed simp

theorem lod_index_succeeds_witness:
  "is_ok (build_lod_index one_point (0, 0, 0) f64_one 10 never_cancel 0)"
proof (rule lod_index_succeeds)
  show "\<not> crowded one_point (unat (10 :: u32)) 30 (bounds_cube (0, 0, 0) f64_one) (all_indexes one_point)"
  proof
    assume "crowded one_point (unat (10 :: u32)) 30 (bounds_cube (0, 0, 0) f64_one) (all_indexes one_point)"
    then obtain octs where "10 < length (filter (descends one_point (bounds_cube (0, 0, 0) f64_one) octs) (all_indexes one_point))"
      by (auto simp: crowded_def)
    also have "\<dots> \<le> length (all_indexes one_point)" by (rule length_filter_le)
    also have "\<dots> = 1" by (simp add: all_indexes_def one_point_def)
    finally show False by simp
  qed
qed (simp_all add: all_indexes_def one_point_def)

end
