(* ===== verification/Validate.thy ===== *)
theory Validate
  imports Point_Source Streaming
begin

text \<open>
  \<^verbatim>\<open>copc-writer/src/validate.rs\<close>: input validation, quantization of coordinates and scan angles, and
  the per-point statistics of a write. The point index of the functions only enters the messages.
  Theorems: a coordinate or an angle that is accepted is encoded exactly, the validation pass accepts a
  source point by point, and its statistics summarise the points.
\<close>

section \<open>Statistics\<close>

record point_stats =
  gpstime_min :: f64
  gpstime_max :: f64
  extended_return_counts :: "u64 list"

definition stats_new :: point_stats where
  "stats_new = \<lparr>gpstime_min = fl_inf binary64 False, gpstime_max = fl_inf binary64 True,
     extended_return_counts = replicate 15 0\<rparr>"

definition stats_record :: "f64 \<Rightarrow> u8 \<Rightarrow> point_stats \<Rightarrow> point_stats result" where
  "stats_record gps_time return_number s =
     (if \<not> f64_is_finite gps_time then Err (InvalidInput ''point {index} GPS time must be finite, got {gps_time}'')
      else
        let s = s\<lparr>gpstime_min := f64_min (gpstime_min s) gps_time,
                  gpstime_max := f64_max (gpstime_max s) gps_time\<rparr>
        in Ok (if 1 \<le> return_number \<and> return_number \<le> 15
               then let i = unat (return_number - 1)
                    in s\<lparr>extended_return_counts := (extended_return_counts s)[i := extended_return_counts s ! i + 1]\<rparr>
               else s))"

section \<open>Field checks\<close>

definition validate_finite_value :: "f64 \<Rightarrow> unit result" where
  "validate_finite_value value = ensure (f64_is_finite value) (InvalidInput ''{name} must be finite, got {value}'')"

definition validate_point_axis_finite :: "f64 \<Rightarrow> unit result" where
  "validate_point_axis_finite value =
     ensure (f64_is_finite value) (InvalidInput ''point {index} {axis} coordinate must be finite, got {value}'')"

definition validate_xyz_finite :: "f64 \<Rightarrow> f64 \<Rightarrow> f64 \<Rightarrow> unit result" where
  "validate_xyz_finite x y z =
     bind_res (validate_point_axis_finite x) (\<lambda>_.
     bind_res (validate_point_axis_finite y) (\<lambda>_.
     validate_point_axis_finite z))"

definition validate_xyz_in_bounds :: "f64 \<Rightarrow> f64 \<Rightarrow> f64 \<Rightarrow> bounds \<Rightarrow> unit result" where
  "validate_xyz_in_bounds x y z b =
     ensure (contains_xyz b x y z)
       (InvalidInput ''point {index} ({x}, {y}, {z}) lies outside the declared bounds {bounds:?}'')"

definition validate_point_field_range :: "u8 \<Rightarrow> u8 \<Rightarrow> u8 \<Rightarrow> unit result" where
  "validate_point_field_range value lo hi =
     ensure (lo \<le> value \<and> value \<le> hi) (InvalidInput ''point {index} {name} must be in {min}..={max}, got {value}'')"

text \<open>\<^verbatim>\<open>0.006_f32\<close>\<close>

definition LAS_14_SCAN_ANGLE_SCALE :: f32 where
  "LAS_14_SCAN_ANGLE_SCALE = 0x3BC49BA6"

definition scan_angle_to_las_scaled :: "f32 \<Rightarrow> i16" where
  "scan_angle_to_las_scaled value =
     word_of_int (fl_to_int binary32 (- (2 ^ 15)) (2 ^ 15 - 1)
       (fl_round_int binary32 (fl_div binary32 value LAS_14_SCAN_ANGLE_SCALE)))"

definition validate_scan_angle :: "f32 \<Rightarrow> unit result" where
  "validate_scan_angle value =
     bind_res (ensure (fl_is_finite binary32 value)
         (InvalidInput ''point {index} scan_angle must be finite, got {value}'')) (\<lambda>_.
     let scaled = fl_div binary32 value LAS_14_SCAN_ANGLE_SCALE
     in ensure (\<not> (fl_lt binary32 scaled (fl_of_int binary32 (- (2 ^ 15))) \<or>
                   fl_lt binary32 (fl_of_int binary32 (2 ^ 15 - 1)) scaled))
          (InvalidInput ''point {index} scan_angle {value} encodes to {scaled}, outside LAS i16 range''))"

definition validate_point_flags :: "copc_point_fields \<Rightarrow> unit result" where
  "validate_point_flags f =
     bind_res (validate_point_field_range (cf_return_number f) 0 15) (\<lambda>_.
     bind_res (validate_point_field_range (cf_number_of_returns f) 0 15) (\<lambda>_.
     bind_res (validate_point_field_range (cf_synthetic f) 0 1) (\<lambda>_.
     bind_res (validate_point_field_range (cf_key_point f) 0 1) (\<lambda>_.
     bind_res (validate_point_field_range (cf_withheld f) 0 1) (\<lambda>_.
     bind_res (validate_point_field_range (cf_overlap f) 0 1) (\<lambda>_.
     bind_res (validate_point_field_range (cf_scan_channel f) 0 3) (\<lambda>_.
     bind_res (validate_point_field_range (cf_scan_direction_flag f) 0 1) (\<lambda>_.
     validate_point_field_range (cf_edge_of_flight_line f) 0 1))))))))"

section \<open>Quantization\<close>

definition quantize_axis :: "f64 \<Rightarrow> f64 \<Rightarrow> f64 \<Rightarrow> i32 result" where
  "quantize_axis value scale offset =
     (let scaled = f64_round (f64_div (f64_sub value offset) scale)
      in if \<not> f64_is_finite scaled
         then Err (InvalidInput ''point {index} {axis} coordinate cannot be encoded with scale {scale} and offset {offset}'')
         else if f64_lt scaled (f64_of_int (- (2 ^ 31))) \<or> f64_lt (f64_of_int (2 ^ 31 - 1)) scaled
         then Err (InvalidInput ''point {index} {axis} coordinate {value} encodes to {scaled}, outside LAS i32 range'')
         else Ok (word_of_int (fl_to_int binary64 (- (2 ^ 31)) (2 ^ 31 - 1) scaled)))"

definition quantize_xyz :: "f64 \<Rightarrow> f64 \<Rightarrow> f64 \<Rightarrow> xyz \<Rightarrow> xyz \<Rightarrow> (i32 \<times> i32 \<times> i32) result" where
  "quantize_xyz x y z scale offset =
     (case (scale, offset) of ((sx, sy, sz), (ox, oy, oz)) \<Rightarrow>
        bind_res (quantize_axis x sx ox) (\<lambda>ix.
        bind_res (quantize_axis y sy oy) (\<lambda>iy.
        bind_res (quantize_axis z sz oz) (\<lambda>iz.
        Ok (ix, iy, iz)))))"

section \<open>Write setup\<close>

definition validate_bounds_axis :: "f64 \<Rightarrow> f64 \<Rightarrow> unit result" where
  "validate_bounds_axis mn mx =
     bind_res (ensure (\<not> f64_lt mx mn) (InvalidInput ''bounds {axis} min {min} exceeds max {max}'')) (\<lambda>_.
     validate_finite_value (f64_sub mx mn))"

definition validate_bounds :: "bounds \<Rightarrow> unit result" where
  "validate_bounds b =
     (case (b_min b, b_max b) of ((x0, y0, z0), (x1, y1, z1)) \<Rightarrow>
        bind_res (validate_finite_value x0) (\<lambda>_.
        bind_res (validate_finite_value y0) (\<lambda>_.
        bind_res (validate_finite_value z0) (\<lambda>_.
        bind_res (validate_finite_value x1) (\<lambda>_.
        bind_res (validate_finite_value y1) (\<lambda>_.
        bind_res (validate_finite_value z1) (\<lambda>_.
        bind_res (validate_bounds_axis x0 x1) (\<lambda>_.
        bind_res (validate_bounds_axis y0 y1) (\<lambda>_.
        validate_bounds_axis z0 z1)))))))))"

definition validate_scale :: "f64 \<Rightarrow> unit result" where
  "validate_scale value =
     ensure (\<not> (\<not> f64_is_finite value \<or> f64_le value 0))
       (InvalidInput ''LAS {axis} scale must be finite and positive, got {value}'')"

definition validate_transform :: "xyz \<Rightarrow> xyz \<Rightarrow> unit result" where
  "validate_transform scale offset =
     (case (scale, offset) of ((sx, sy, sz), (ox, oy, oz)) \<Rightarrow>
        bind_res (validate_scale sx) (\<lambda>_.
        bind_res (validate_scale sy) (\<lambda>_.
        bind_res (validate_scale sz) (\<lambda>_.
        bind_res (validate_finite_value ox) (\<lambda>_.
        bind_res (validate_finite_value oy) (\<lambda>_.
        validate_finite_value oz))))))"

definition validate_write_setup :: "bounds \<Rightarrow> xyz \<Rightarrow> xyz \<Rightarrow> unit result" where
  "validate_write_setup b scale offset =
     bind_res (validate_bounds b) (\<lambda>_. validate_transform scale offset)"

text \<open>The unsupported dimensions are collected for the message.\<close>

definition validate_streaming_layout_supported :: "streaming_layout \<Rightarrow> unit result" where
  "validate_streaming_layout_supported l =
     (let unsupported = (if sl_has_nir l then [''NIR point data''] else []) @
                        (if sl_has_waveform l then [''waveform point data''] else [])
      in if unsupported = [] then Ok () else Err (Unsupported ''COPC writer cannot preserve {}''))"

section \<open>Validation of points\<close>

definition validate_spill_record :: "las_point_record \<Rightarrow> unit result" where
  "validate_spill_record r =
     bind_res (validate_xyz_finite (pr_x r) (pr_y r) (pr_z r)) (\<lambda>_.
     bind_res (validate_scan_angle (pr_scan_angle r)) (\<lambda>_.
     bind_res (validate_point_field_range (pr_return_number r) 0 15) (\<lambda>_.
     bind_res (validate_point_field_range (pr_number_of_returns r) 0 15) (\<lambda>_.
     validate_point_field_range (pr_scan_channel r) 0 3))))"

text \<open>The body of the loop of \<^verbatim>\<open>validate_source_points\<close>, after the poll.\<close>

definition validate_source_point ::
  "point_source \<Rightarrow> bounds \<Rightarrow> xyz \<Rightarrow> xyz \<Rightarrow> nat \<Rightarrow> point_stats \<Rightarrow> point_stats result" where
  "validate_source_point src b scale offset index stats =
     bind_res (ps_xyz src index) (\<lambda>(x, y, z).
     bind_res (validate_xyz_finite x y z) (\<lambda>_.
     bind_res (validate_xyz_in_bounds x y z b) (\<lambda>_.
     bind_res (quantize_xyz x y z scale offset) (\<lambda>_.
     bind_res (ps_fields src index) (\<lambda>f.
     bind_res (validate_xyz_finite (cf_x f) (cf_y f) (cf_z f)) (\<lambda>_.
     bind_res (ensure (f64_eq (cf_x f) x \<and> f64_eq (cf_y f) y \<and> f64_eq (cf_z f) z)
         (InvalidInput ''point {index} xyz() returned ({x}, {y}, {z}) but fields_into() returned ({}, {}, {})'')) (\<lambda>_.
     bind_res (validate_xyz_in_bounds (cf_x f) (cf_y f) (cf_z f) b) (\<lambda>_.
     bind_res (quantize_xyz (cf_x f) (cf_y f) (cf_z f) scale offset) (\<lambda>_.
     bind_res (validate_scan_angle (cf_scan_angle f)) (\<lambda>_.
     bind_res (validate_point_flags f) (\<lambda>_.
     bind_res (ensure (length (cf_extra_bytes f) = unat (ps_extra_byte_count src))
         (InvalidInput ''point {index} has {} extra byte(s), expected {extra_byte_count}'')) (\<lambda>_.
     stats_record (cf_gps_time f) (cf_return_number f) stats))))))))))))"

definition validate_source_points ::
  "point_source \<Rightarrow> bounds \<Rightarrow> xyz \<Rightarrow> xyz \<Rightarrow> cancel \<Rightarrow> nat \<Rightarrow> (point_stats \<times> nat) result" where
  "validate_source_points src b scale offset c polls =
     fold_res (\<lambda>index (stats, polls).
       bind_res (poll_at c index polls) (\<lambda>polls.
       bind_res (validate_source_point src b scale offset index stats) (\<lambda>stats.
       Ok (stats, polls)))) [0..<ps_len src] (stats_new, polls)"

section \<open>Quantization is exact\<close>

lemma quantize_bounds:
  "f64_val (f64_of_int (- (2 ^ 31))) = of_int (- (2 ^ 31))" "f64_is_finite (f64_of_int (- (2 ^ 31)))"
  "f64_val (f64_of_int (2 ^ 31 - 1)) = of_int (2 ^ 31 - 1)" "f64_is_finite (f64_of_int (2 ^ 31 - 1))"
  unfolding fl_of_int_def
  by (rule fl_round_int_exact [OF fits_binary64 _ wide_range_formats(1)]; simp add: binary64_def)+

lemma angle_bounds:
  "fl_val binary32 (fl_of_int binary32 (- (2 ^ 15)) :: f32) = of_int (- (2 ^ 15))"
  "fl_is_finite binary32 (fl_of_int binary32 (- (2 ^ 15)) :: f32)"
  "fl_val binary32 (fl_of_int binary32 (2 ^ 15 - 1) :: f32) = of_int (2 ^ 15 - 1)"
  "fl_is_finite binary32 (fl_of_int binary32 (2 ^ 15 - 1) :: f32)"
  unfolding fl_of_int_def
  by (rule fl_round_int_exact [OF fits_binary32 _ wide_range_formats(2)]; simp add: binary32_def)+

text \<open>C20: quantization never saturates: \<open>quantize_axis\<close> accepts a coordinate exactly when
  \<open>((value - offset) / scale).round()\<close> is finite and an integer of the \<^verbatim>\<open>i32\<close> range, and then returns that
  integer.\<close>

theorem quantize_axis_exact:
  "quantize_axis value scale offset = Ok q \<longleftrightarrow>
     f64_is_finite (f64_round (f64_div (f64_sub value offset) scale)) \<and>
     f64_val (f64_round (f64_div (f64_sub value offset) scale)) = of_int (sint q)"
proof -
  let ?a = "f64_div (f64_sub value offset) scale"
  let ?s = "f64_round ?a"
  have range: "(\<not> f64_lt ?s (f64_of_int (- (2 ^ 31))) \<and> \<not> f64_lt (f64_of_int (2 ^ 31 - 1)) ?s) \<longleftrightarrow>
      of_int (- (2 ^ 31)) \<le> f64_val ?s \<and> f64_val ?s \<le> of_int (2 ^ 31 - 1)" if "f64_is_finite ?s"
    unfolding fl_lt_val_iff [OF that quantize_bounds(2)] fl_lt_val_iff [OF quantize_bounds(4) that]
      quantize_bounds(1,3) by (simp only: not_less)
  have int: "\<exists>k. f64_val ?s = of_int k" if "f64_is_finite ?s"
    "of_int (- (2 ^ 31)) \<le> f64_val ?s" "f64_val ?s \<le> of_int (2 ^ 31 - 1)"
  proof -
    have "\<bar>f64_val ?s\<bar> < 2 ^ mant_bits binary64" using that(2,3) by (simp add: binary64_def abs_less_iff)
    then show ?thesis using fl_round_int_val [OF fits_binary64 wide_range_formats(1) that(1)] by blast
  qed
  have cast: "sint (word_of_int k :: i32) = k \<and> fl_to_int binary64 (- (2 ^ 31)) (2 ^ 31 - 1) ?s = k"
    if "f64_is_finite ?s" "f64_val ?s = of_int k" "- (2 ^ 31) \<le> k" "k \<le> 2 ^ 31 - 1" for k
    using fl_to_int_exact [OF that] sint_eq_take [of k] that(3,4) by simp
  show ?thesis
  proof
    assume q: "quantize_axis value scale offset = Ok q"
    then have f: "f64_is_finite ?s"
      and b: "of_int (- (2 ^ 31)) \<le> f64_val ?s" "f64_val ?s \<le> of_int (2 ^ 31 - 1)"
      and qe: "q = word_of_int (fl_to_int binary64 (- (2 ^ 31)) (2 ^ 31 - 1) ?s)"
      using range unfolding quantize_axis_def Let_def by (auto split: if_splits)
    obtain k where k: "f64_val ?s = of_int k" using int [OF f b] by blast
    have "- (2 ^ 31) \<le> k" "k \<le> 2 ^ 31 - 1" using b unfolding k of_int_le_iff by simp_all
    then have "sint q = k" using cast [OF f k] qe by metis
    then show "f64_is_finite ?s \<and> f64_val ?s = of_int (sint q)" using f k by simp
  next
    assume a: "f64_is_finite ?s \<and> f64_val ?s = of_int (sint q)"
    have r: "- (2 ^ 31) \<le> sint q" "sint q \<le> 2 ^ 31 - 1" using sint_in_range_i32 [of q] by simp_all
    then have "of_int (- (2 ^ 31)) \<le> f64_val ?s \<and> f64_val ?s \<le> of_int (2 ^ 31 - 1)"
      using a by (simp only: of_int_le_iff)
    then show "quantize_axis value scale offset = Ok q"
      using range a cast [OF _ _ r] unfolding quantize_axis_def Let_def by simp
  qed
qed

lemma scan_angle_scale:
  "fl_is_finite binary32 LAS_14_SCAN_ANGLE_SCALE" "fl_mag binary32 LAS_14_SCAN_ANGLE_SCALE \<noteq> 0"
  by (simp_all add: LAS_14_SCAN_ANGLE_SCALE_def fl_is_finite_def fl_mag_def sign_weight_def inf_mag_def
      binary32_def)

lemma round_away_range:
  assumes "of_int lo \<le> r" "r \<le> of_int hi"
  shows "lo \<le> round_away r" "round_away r \<le> hi"
proof -
  show "lo \<le> round_away r" using assms(1) unfolding round_away_def by (auto simp: le_floor_iff) linarith
  show "round_away r \<le> hi" using assms(2) unfolding round_away_def by (auto simp: floor_le_iff) linarith
qed

lemma accepted_angle:
  assumes "validate_scan_angle v = Ok ()"
  defines "d \<equiv> fl_div binary32 v LAS_14_SCAN_ANGLE_SCALE"
  shows "fl_is_finite binary32 d" "of_int (- (2 ^ 15)) \<le> fl_val binary32 d"
    "fl_val binary32 d \<le> of_int (2 ^ 15 - 1)"
proof -
  have fin: "fl_is_finite binary32 v" and nlt: "\<not> fl_lt binary32 d (fl_of_int binary32 (- (2 ^ 15)))"
      "\<not> fl_lt binary32 (fl_of_int binary32 (2 ^ 15 - 1)) d"
    using assms(1) unfolding validate_scan_angle_def d_def Let_def
    by (auto simp: bind_res_Ok_iff)
  have dr: "d = fl_round binary32 (fl_sign binary32 v \<noteq> fl_sign binary32 LAS_14_SCAN_ANGLE_SCALE)
      (fl_val binary32 v / fl_val binary32 LAS_14_SCAN_ANGLE_SCALE)"
    using fin scan_angle_scale by (simp add: d_def fl_div_def fl_finite_not_nan fl_finite_not_inf)
  have nan: "\<not> fl_is_nan binary32 d" unfolding dr by (rule fl_round_not_nan) simp
  show "fl_is_finite binary32 d"
  proof (rule ccontr)
    assume "\<not> fl_is_finite binary32 d"
    then have m: "fl_mag binary32 d = inf_mag binary32" using nan by (simp add: fl_is_finite_def fl_is_nan_def)
    have "fl_mag binary32 (fl_of_int binary32 k :: f32) < inf_mag binary32"
      if "fl_is_finite binary32 (fl_of_int binary32 k :: f32)" for k
      using that by (simp add: fl_is_finite_def)
    note lt = this [OF angle_bounds(2)] this [OF angle_bounds(4)]
    have ord: "\<bar>fl_ord binary32 (fl_of_int binary32 k :: f32)\<bar> = int (fl_mag binary32 (fl_of_int binary32 k :: f32))"
      for k by (simp add: fl_ord_def)
    show False
    proof (cases "fl_sign binary32 d")
      case True
      then have "fl_ord binary32 d = - int (inf_mag binary32)" by (simp add: fl_ord_def m)
      then have "fl_lt binary32 d (fl_of_int binary32 (- (2 ^ 15)))"
        using lt(1) ord [of "- (2 ^ 15)"] nan angle_bounds(2) by (simp add: fl_lt_def fl_finite_not_nan)
      then show ?thesis using nlt by simp
    next
      case False
      then have "fl_ord binary32 d = int (inf_mag binary32)" by (simp add: fl_ord_def m)
      then have "fl_lt binary32 (fl_of_int binary32 (2 ^ 15 - 1)) d"
        using lt(2) ord [of "2 ^ 15 - 1"] nan angle_bounds(4) by (simp add: fl_lt_def fl_finite_not_nan)
      then show ?thesis using nlt by simp
    qed
  qed
  note f = this
  show "of_int (- (2 ^ 15)) \<le> fl_val binary32 d" "fl_val binary32 d \<le> of_int (2 ^ 15 - 1)"
    using nlt unfolding fl_lt_val_iff [OF f angle_bounds(2)] fl_lt_val_iff [OF angle_bounds(4) f]
      angle_bounds(1,3) by (simp_all only: not_less)
qed

text \<open>C21: the encoding of an accepted scan angle does not saturate: the \<^verbatim>\<open>i16\<close> written is the rounded
  multiple of 0.006 degrees, ties away from zero.\<close>

theorem scan_angle_exact:
  "case validate_scan_angle v of
     Inl _ \<Rightarrow> True
   | Inr _ \<Rightarrow> sint (scan_angle_to_las_scaled v) =
       round_away (fl_val binary32 (fl_div binary32 v LAS_14_SCAN_ANGLE_SCALE))"
proof (cases "validate_scan_angle v")
  case (Inr u)
  let ?d = "fl_div binary32 v LAS_14_SCAN_ANGLE_SCALE"
  let ?k = "round_away (fl_val binary32 ?d)"
  have "validate_scan_angle v = Ok ()" using Inr by simp
  note a = accepted_angle [OF this]
  have k: "- (2 ^ 15) \<le> ?k" "?k \<le> 2 ^ 15 - 1" using round_away_range [OF a(2,3)] by simp_all
  have eq: "fl_round_int binary32 ?d = fl_round binary32 (fl_sign binary32 ?d) (of_int ?k)"
    using a(1) by (simp add: fl_round_int_def fl_finite_not_nan fl_finite_not_inf)
  have "\<bar>?k\<bar> < 2 ^ (mant_bits binary32 + 1)" using k by (simp add: binary32_def abs_less_iff)
  note ex = fl_round_int_exact [OF fits_binary32 this wide_range_formats(2), of "fl_sign binary32 ?d"]
  have "fl_to_int binary32 (- (2 ^ 15)) (2 ^ 15 - 1) (fl_round_int binary32 ?d) = ?k"
    unfolding eq by (rule fl_to_int_exact [OF ex(2,1) k])
  moreover have "sint (word_of_int ?k :: i16) = ?k"
    using k signed_take_bit_int_eq_self [of 15 ?k] by (simp add: sint_sbintrunc')
  ultimately show ?thesis by (simp add: Inr scan_angle_to_las_scaled_def)
qed simp

section \<open>The validation pass\<close>

text \<open>What makes a point acceptable, with the fields the source returns for it.\<close>

definition flags_in_range :: "copc_point_fields \<Rightarrow> bool" where
  "flags_in_range f \<longleftrightarrow> cf_return_number f \<le> 15 \<and> cf_number_of_returns f \<le> 15 \<and> cf_synthetic f \<le> 1 \<and>
     cf_key_point f \<le> 1 \<and> cf_withheld f \<le> 1 \<and> cf_overlap f \<le> 1 \<and> cf_scan_channel f \<le> 3 \<and>
     cf_scan_direction_flag f \<le> 1 \<and> cf_edge_of_flight_line f \<le> 1"

definition xyz_encodable :: "bounds \<Rightarrow> xyz \<Rightarrow> xyz \<Rightarrow> f64 \<Rightarrow> f64 \<Rightarrow> f64 \<Rightarrow> bool" where
  "xyz_encodable b scale offset x y z \<longleftrightarrow> f64_is_finite x \<and> f64_is_finite y \<and> f64_is_finite z \<and>
     contains_xyz b x y z \<and> is_ok (quantize_xyz x y z scale offset)"

definition point_accepted ::
  "point_source \<Rightarrow> bounds \<Rightarrow> xyz \<Rightarrow> xyz \<Rightarrow> nat \<Rightarrow> copc_point_fields \<Rightarrow> bool" where
  "point_accepted src b scale offset i f \<longleftrightarrow> ps_fields src i = Ok f \<and>
     (case ps_xyz src i of Inl _ \<Rightarrow> False | Inr (x, y, z) \<Rightarrow>
        xyz_encodable b scale offset x y z \<and> f64_eq (cf_x f) x \<and> f64_eq (cf_y f) y \<and> f64_eq (cf_z f) z) \<and>
     xyz_encodable b scale offset (cf_x f) (cf_y f) (cf_z f) \<and>
     is_ok (validate_scan_angle (cf_scan_angle f)) \<and> flags_in_range f \<and>
     length (cf_extra_bytes f) = unat (ps_extra_byte_count src) \<and> f64_is_finite (cf_gps_time f)"

text \<open>The statistics of a list of points.\<close>

definition stats_summary :: "copc_point_fields list \<Rightarrow> point_stats" where
  "stats_summary fs =
     \<lparr>gpstime_min = foldl f64_min (fl_inf binary64 False) (map cf_gps_time fs),
      gpstime_max = foldl f64_max (fl_inf binary64 True) (map cf_gps_time fs),
      extended_return_counts = map (\<lambda>r. of_nat (length (filter (\<lambda>f. unat (cf_return_number f) = r + 1) fs))) [0..<15]\<rparr>"

lemma stats_summary_Nil: "stats_summary [] = stats_new"
  by (simp add: stats_summary_def stats_new_def map_replicate_const)

lemma return_slot:
  fixes r :: u8
  assumes "1 \<le> r" "r \<le> 15"
  shows "unat (r - 1) < 15" "unat r = unat (r - 1) + 1"
  using assms by (simp_all add: unat_sub word_le_nat_alt)

lemma stats_record_summary:
  assumes "f64_is_finite (cf_gps_time f)"
  shows "stats_record (cf_gps_time f) (cf_return_number f) (stats_summary fs) = Ok (stats_summary (fs @ [f]))"
proof -
  let ?r = "cf_return_number f"
  let ?n = "\<lambda>fs r. length (filter (\<lambda>f. unat (cf_return_number f) = r + 1) fs)"
  let ?c = "\<lambda>fs. map (\<lambda>r. of_nat (?n fs r) :: u64) [0..<15]"
  have counts: "(if 1 \<le> ?r \<and> ?r \<le> 15 then (?c fs)[unat (?r - 1) := ?c fs ! unat (?r - 1) + 1] else ?c fs) = ?c (fs @ [f])"
  proof (cases "1 \<le> ?r \<and> ?r \<le> 15")
    case True
    note slot = return_slot [OF conjunct1 [OF True] conjunct2 [OF True]]
    show ?thesis
    proof (rule nth_equalityI, goal_cases)
      case (2 j)
      then have "j < 15" using True by simp
      then show ?case using True slot by (auto simp: nth_list_update simp del: upt_rec_numeral)
    qed (use True in simp)
  next
    case False
    have "?n (fs @ [f]) j = ?n fs j" if "j < 15" for j
    proof -
      have "unat ?r \<noteq> j + 1" using False that by (auto simp: word_le_nat_alt)
      then show ?thesis by simp
    qed
    then show ?thesis unfolding if_not_P [OF False] by (intro map_cong) auto
  qed
  have "stats_record (cf_gps_time f) ?r (stats_summary fs) =
      Ok \<lparr>gpstime_min = f64_min (foldl f64_min (fl_inf binary64 False) (map cf_gps_time fs)) (cf_gps_time f),
          gpstime_max = f64_max (foldl f64_max (fl_inf binary64 True) (map cf_gps_time fs)) (cf_gps_time f),
          extended_return_counts = (if 1 \<le> ?r \<and> ?r \<le> 15
            then (?c fs)[unat (?r - 1) := ?c fs ! unat (?r - 1) + 1] else ?c fs)\<rparr>"
    using assms by (simp add: stats_record_def stats_summary_def Let_def del: upt_rec_numeral)
  then show ?thesis unfolding counts by (simp add: stats_summary_def)
qed

lemma bind_ignore_Ok_iff: "bind_res m (\<lambda>_. k) = Inr y \<longleftrightarrow> is_ok m \<and> k = Inr y"
  by (cases m) simp_all

lemma is_ok_unit: "is_ok r \<longleftrightarrow> r = Ok ()" for r :: "unit result"
  by (cases r) simp_all

lemma flags_Ok_iff: "is_ok (validate_point_flags f) \<longleftrightarrow> flags_in_range f"
  by (simp add: is_ok_unit validate_point_flags_def validate_point_field_range_def flags_in_range_def bind_ignore_Ok_iff)

lemma xyz_finite_Ok_iff:
  "is_ok (validate_xyz_finite x y z) \<longleftrightarrow> f64_is_finite x \<and> f64_is_finite y \<and> f64_is_finite z"
  by (simp add: is_ok_unit validate_xyz_finite_def validate_point_axis_finite_def bind_ignore_Ok_iff)

lemma validate_source_point_Ok_iff:
  "validate_source_point src b scale offset i (stats_summary fs) = Ok t \<longleftrightarrow>
    (\<exists>f. point_accepted src b scale offset i f \<and> t = stats_summary (fs @ [f]))"
proof -
  have st: "stats_record (cf_gps_time f) (cf_return_number f) (stats_summary fs) = Ok t \<longleftrightarrow>
      f64_is_finite (cf_gps_time f) \<and> t = stats_summary (fs @ [f])" for f
    using stats_record_summary [of f fs] by (auto simp: stats_record_def)
  have en: "is_ok (ensure P e) = P" for P e by (simp add: ensure_def)
  show ?thesis
  proof (cases "ps_xyz src i")
    case (Inl e)
    then show ?thesis by (simp add: validate_source_point_def point_accepted_def)
  next
    case (Inr p)
    obtain x y z where p: "p = (x, y, z)" by (cases p)
    show ?thesis
    proof (cases "ps_fields src i")
      case (Inl e)
      then show ?thesis
        by (simp add: validate_source_point_def point_accepted_def Inr p bind_ignore_Ok_iff)
    next
      case f: (Inr f)
      have "(\<exists>g. point_accepted src b scale offset i g \<and> t = stats_summary (fs @ [g])) \<longleftrightarrow>
          point_accepted src b scale offset i f \<and> t = stats_summary (fs @ [f])"
        unfolding point_accepted_def f by blast
      moreover have "point_accepted src b scale offset i f \<longleftrightarrow>
          xyz_encodable b scale offset x y z \<and> (f64_eq (cf_x f) x \<and> f64_eq (cf_y f) y \<and> f64_eq (cf_z f) z) \<and>
          xyz_encodable b scale offset (cf_x f) (cf_y f) (cf_z f) \<and>
          is_ok (validate_scan_angle (cf_scan_angle f)) \<and> flags_in_range f \<and>
          length (cf_extra_bytes f) = unat (ps_extra_byte_count src) \<and> f64_is_finite (cf_gps_time f)"
        unfolding point_accepted_def f Inr p sum.case prod.case by blast
      ultimately show ?thesis
        unfolding validate_source_point_def Inr f p bind_res_simps prod.case bind_ignore_Ok_iff st en
          xyz_finite_Ok_iff flags_Ok_iff validate_xyz_in_bounds_def xyz_encodable_def
        by (iprover)
    qed
  qed
qed

lemma validate_points_upto:
  "res_spec (\<lambda>e. (\<exists>n. c n = Err e) \<or> (\<exists>i < m. \<exists>fs. validate_source_point src b scale offset i (stats_summary fs) = Err e))
    (\<lambda>(stats, _). \<exists>fs. list_all2 (point_accepted src b scale offset) [0..<m] fs \<and> stats = stats_summary fs)
    (fold_res (\<lambda>index (stats, polls).
       bind_res (poll_at c index polls) (\<lambda>polls.
       bind_res (validate_source_point src b scale offset index stats) (\<lambda>stats.
       Ok (stats, polls)))) [0..<m] (stats_new, polls))"
proof (rule res_spec_fold_upt)
  show "case (stats_new, polls) of (stats, _) \<Rightarrow>
      \<exists>fs. list_all2 (point_accepted src b scale offset) [0..<0] fs \<and> stats = stats_summary fs"
    by (simp add: stats_summary_Nil)
next
  fix i and u :: "point_stats \<times> nat"
  assume i: "i < m" and I: "case u of (stats, _) \<Rightarrow>
      \<exists>fs. list_all2 (point_accepted src b scale offset) [0..<i] fs \<and> stats = stats_summary fs"
  obtain stats n where u: "u = (stats, n)" by (cases u)
  from I u obtain fs where fs: "list_all2 (point_accepted src b scale offset) [0..<i] fs"
    and st: "stats = stats_summary fs" by auto
  let ?E = "\<lambda>e. (\<exists>n. c n = Err e) \<or> (\<exists>i < m. \<exists>fs. validate_source_point src b scale offset i (stats_summary fs) = Err e)"
  have poll: "res_spec ?E (\<lambda>_. True) (poll_at c i n)"
    by (cases "poll_at c i n") (auto dest: poll_at_Err)
  have point: "res_spec ?E (\<lambda>t. \<exists>f. point_accepted src b scale offset i f \<and> t = stats_summary (fs @ [f]))
      (validate_source_point src b scale offset i stats)"
  proof (cases "validate_source_point src b scale offset i stats")
    case (Inl e)
    then show ?thesis using i st by auto
  next
    case (Inr t)
    then show ?thesis using validate_source_point_Ok_iff [of src b scale offset i fs t] st by simp
  qed
  have step: "\<exists>fs'. list_all2 (point_accepted src b scale offset) [0..<Suc i] fs' \<and>
      stats_summary (fs @ [f]) = stats_summary fs'" if "point_accepted src b scale offset i f" for f
    by (rule exI [of _ "fs @ [f]"]) (simp add: list_all2_appendI fs that)
  show "res_spec ?E (\<lambda>(stats, _). \<exists>fs. list_all2 (point_accepted src b scale offset) [0..<Suc i] fs \<and>
        stats = stats_summary fs)
      ((\<lambda>(stats, polls). bind_res (poll_at c i polls) (\<lambda>polls.
       bind_res (validate_source_point src b scale offset i stats) (\<lambda>stats. Ok (stats, polls)))) u)"
    unfolding u prod.case
    by (rule res_spec_bind [OF poll], rule res_spec_bind [OF point]) (auto dest: step simp del: upt_Suc)
qed

text \<open>C22: the validation pass checks every point: when it succeeds, each point has fields that agree
  with its coordinates, lie in the bounds, quantize, and are in range, and the statistics are those of the
  points: least and greatest GPS time and the number of points per return. When it fails, the error is a
  cancellation or the error of one of the points.\<close>

theorem validation_pass:
  "case validate_source_points src b scale offset c polls of
     Inl e \<Rightarrow> (\<exists>n. c n = Err e) \<or>
       (\<exists>i < ps_len src. \<exists>fs. validate_source_point src b scale offset i (stats_summary fs) = Err e)
   | Inr (stats, _) \<Rightarrow>
       \<exists>fs. list_all2 (point_accepted src b scale offset) [0..<ps_len src] fs \<and> stats = stats_summary fs"
  using validate_points_upto [of c "ps_len src" src b scale offset polls]
  unfolding validate_source_points_def res_spec_def .

end
