(* ===== verification/Spill.thy ===== *)
theory Spill
  imports Validate Codec
begin

text \<open>
  \<^verbatim>\<open>copc-writer/src/spill.rs\<close>: records are validated, counted and appended to a spill file, and read
  back at random from its memory map; \<^verbatim>\<open>SpillSource\<close> of \<^verbatim>\<open>source.rs\<close> presents the file as a point source.
  The file is a byte list that does not fail; a map of it is \<^verbatim>\<open>None\<close> when the file is empty.
\<close>

record spill_writer =
  sw_file :: "u8 list option"
  sw_layout :: streaming_layout
  sw_record_width :: nat
  sw_scratch :: "u8 list"
  sw_count :: u64
  sw_bounds :: "bounds option"
  sw_stats :: point_stats

record spill_reader =
  sr_mmap :: "u8 list option"
  sr_layout :: streaming_layout
  sr_record_width :: nat
  sr_count :: nat
  sr_bounds :: bounds
  sr_stats :: point_stats

definition spill_create :: "streaming_layout \<Rightarrow> spill_writer" where
  "spill_create l =
     \<lparr>sw_file = Some [], sw_layout = l, sw_record_width = record_width l,
      sw_scratch = replicate (record_width l) 0, sw_count = 0, sw_bounds = None, sw_stats = stats_new\<rparr>"

definition spill_push :: "las_point_record \<Rightarrow> spill_writer \<Rightarrow> spill_writer result" where
  "spill_push r w =
     bind_res (validate_spill_record r) (\<lambda>_.
     bind_res (stats_record (pr_gps_time r) (pr_return_number r) (sw_stats w)) (\<lambda>next_stats.
     bind_res (case serialize_le r (sw_layout w) (sw_scratch w) of
         Inl _ \<Rightarrow> Err (InvalidInput ''encode spill record: {e}'') | Inr bs \<Rightarrow> Ok bs) (\<lambda>scratch.
     bind_res (ok_or (sw_file w) (InvalidInput ''spill writer already finalized'')) (\<lambda>file.
     let b = (case sw_bounds w of
           Some b \<Rightarrow> bounds_extend b (pr_x r) (pr_y r) (pr_z r)
         | None \<Rightarrow> bounds_point (pr_x r) (pr_y r) (pr_z r))
     in bind_res (ok_or (checked_add (sw_count w) 1) (InvalidInput ''spill record count exceeds u64 range'')) (\<lambda>n.
     Ok (w\<lparr>sw_file := Some (file @ scratch), sw_scratch := scratch, sw_bounds := Some b,
           sw_stats := next_stats, sw_count := n\<rparr>))))))"

definition spill_open :: "u8 list \<Rightarrow> streaming_layout \<Rightarrow> nat \<Rightarrow> nat \<Rightarrow> bounds \<Rightarrow> point_stats \<Rightarrow> spill_reader result" where
  "spill_open file l width n b stats =
     bind_res (ok_or (checked_mul_usize width n) (InvalidInput ''spill size overflow'')) (\<lambda>expected.
     bind_res (ensure (length file = expected) (InvalidInput ''spill file is {} bytes, expected {}'')) (\<lambda>_.
     Ok \<lparr>sr_mmap = (if expected = 0 then None else Some file), sr_layout = l, sr_record_width = width,
         sr_count = n, sr_bounds = b, sr_stats = stats\<rparr>))"

definition spill_finalize :: "spill_writer \<Rightarrow> spill_reader result" where
  "spill_finalize w =
     bind_res (ok_or (sw_file w) (InvalidInput ''spill writer already finalized'')) (\<lambda>file.
     spill_open file (sw_layout w) (sw_record_width w) (unat (sw_count w))
       (case sw_bounds w of Some b \<Rightarrow> b | None \<Rightarrow> bounds_point 0 0 0) (sw_stats w))"

definition sr_is_empty :: "spill_reader \<Rightarrow> bool" where
  "sr_is_empty rd = (sr_count rd = 0)"

definition spill_record_bytes :: "spill_reader \<Rightarrow> nat \<Rightarrow> u8 list result" where
  "spill_record_bytes rd index =
     bind_res (ok_or (checked_mul_usize index (sr_record_width rd)) (InvalidData ''spill record offset overflow'')) (\<lambda>start.
     bind_res (ok_or (checked_add_usize start (sr_record_width rd)) (InvalidData ''spill record end overflow'')) (\<lambda>end_pos.
     bind_res (ok_or (sr_mmap rd) (InvalidData ''non-empty spill has no memory map'')) (\<lambda>mmap.
     if end_pos \<le> length mmap then Ok (bslice mmap start (end_pos - start))
     else Err (InvalidData ''spill record range exceeds memory map''))))"

definition xyz_at :: "spill_reader \<Rightarrow> nat \<Rightarrow> xyz result" where
  "xyz_at rd index =
     (if sr_count rd \<le> index then Err (InvalidInput ''spill index {index} out of range (len {})'')
      else bind_res (spill_record_bytes rd index) (\<lambda>bytes.
        Ok (u64_from_le (bslice bytes 0 8), u64_from_le (bslice bytes 8 8), u64_from_le (bslice bytes 16 8))))"

definition record_at :: "spill_reader \<Rightarrow> nat \<Rightarrow> las_point_record result" where
  "record_at rd index =
     (if sr_count rd \<le> index then Err (InvalidInput ''spill index {index} out of range (len {})'')
      else bind_res (spill_record_bytes rd index) (\<lambda>bytes.
        case deserialize_le bytes (sr_layout rd) of
          Inl _ \<Rightarrow> Err (InvalidData ''decode spill record {index}: {e}'')
        | Inr r \<Rightarrow> Ok r))"

section \<open>The spill file as a point source\<close>

definition fields_of_record :: "las_point_record \<Rightarrow> copc_point_fields" where
  "fields_of_record r =
     \<lparr>cf_x = pr_x r, cf_y = pr_y r, cf_z = pr_z r, cf_intensity = pr_intensity r,
      cf_return_number = pr_return_number r, cf_number_of_returns = pr_number_of_returns r,
      cf_synthetic = u8_of_bool (pr_synthetic r), cf_key_point = u8_of_bool (pr_key_point r),
      cf_withheld = u8_of_bool (pr_withheld r), cf_overlap = u8_of_bool (pr_overlap r),
      cf_scan_channel = pr_scan_channel r, cf_scan_direction_flag = u8_of_bool (pr_scan_direction_flag r),
      cf_edge_of_flight_line = u8_of_bool (pr_edge_of_flight_line r),
      cf_classification = pr_classification r, cf_user_data = pr_user_data r,
      cf_scan_angle = pr_scan_angle r, cf_point_source_id = pr_point_source_id r,
      cf_gps_time = pr_gps_time r, cf_red = pr_red r, cf_green = pr_green r, cf_blue = pr_blue r,
      cf_extra_bytes = pr_extra_bytes r\<rparr>"

definition spill_source :: "spill_reader \<Rightarrow> point_source" where
  "spill_source rd =
     \<lparr>ps_len = sr_count rd, ps_xyz = xyz_at rd,
      ps_fields = (\<lambda>index. bind_res (record_at rd index) (\<lambda>r. Ok (fields_of_record r))),
      ps_extra_byte_count = sl_extra_bytes (sr_layout rd),
      ps_extra_bytes_vlrs = sl_extra_bytes_descriptors (sr_layout rd)\<rparr>"

section \<open>What a spill file holds\<close>

definition spill_inv :: "streaming_layout \<Rightarrow> las_point_record list \<Rightarrow> spill_writer \<Rightarrow> bool" where
  "spill_inv l rs w \<longleftrightarrow>
     sw_file w = Some (concat (map (\<lambda>r. record_bytes r l) rs)) \<and> sw_layout w = l \<and>
     sw_record_width w = record_width l \<and> length (sw_scratch w) = record_width l \<and>
     unat (sw_count w) = length rs \<and> sw_stats w = stats_summary (map fields_of_record rs) \<and>
     list_all (\<lambda>r. length (pr_extra_bytes r) = unat (sl_extra_bytes l)) rs \<and>
     (case sw_bounds w of None \<Rightarrow> rs = []
      | Some b \<Rightarrow> list_all (\<lambda>r. contains_xyz b (pr_x r) (pr_y r) (pr_z r)) rs)"

lemma spill_inv_create: "spill_inv l [] (spill_create l)"
  by (simp add: spill_inv_def spill_create_def stats_summary_Nil)

lemma validate_spill_finite:
  assumes "validate_spill_record r = Ok u"
  shows "\<not> fl_is_nan binary64 (pr_x r)" "\<not> fl_is_nan binary64 (pr_y r)" "\<not> fl_is_nan binary64 (pr_z r)"
  using assms xyz_finite_Ok_iff [of "pr_x r" "pr_y r" "pr_z r"] unfolding validate_spill_record_def bind_ignore_Ok_iff
  by (auto simp: fl_finite_not_nan)

definition push_bounds :: "bounds option \<Rightarrow> las_point_record \<Rightarrow> bounds" where
  "push_bounds b r = (case b of Some b \<Rightarrow> bounds_extend b (pr_x r) (pr_y r) (pr_z r)
                      | None \<Rightarrow> bounds_point (pr_x r) (pr_y r) (pr_z r))"

lemma push_bounds_contains:
  assumes "validate_spill_record r = Ok u"
    and "case b of None \<Rightarrow> rs = [] | Some b \<Rightarrow> list_all (\<lambda>r. contains_xyz b (pr_x r) (pr_y r) (pr_z r)) rs"
  shows "list_all (\<lambda>q. contains_xyz (push_bounds b r) (pr_x q) (pr_y q) (pr_z q)) (rs @ [r])"
proof (cases b)
  case None
  then show ?thesis using assms validate_spill_finite [OF assms(1)]
    by (simp add: push_bounds_def contains_point)
next
  case (Some b0)
  have "contains_xyz (bounds_extend b0 (pr_x r) (pr_y r) (pr_z r)) x y z" if "contains_xyz b0 x y z" for x y z
    by (rule bounds_extend_contains(1) [OF that validate_spill_finite [OF assms(1)]])
  moreover have "contains_xyz (bounds_extend b0 (pr_x r) (pr_y r) (pr_z r)) (pr_x r) (pr_y r) (pr_z r)"
    using validate_spill_finite [OF assms(1)]
    by (cases "b_min b0"; cases "b_max b0")
      (auto simp: contains_xyz_def bounds_extend_def fl_min_def fl_max_def fl_le_def split: prod.splits)
  ultimately show ?thesis using assms(2) Some by (auto simp: push_bounds_def list_all_iff)
qed

lemma spill_push_step:
  assumes inv: "spill_inv l rs w"
  shows "res_spec (\<lambda>e. spill_push r (spill_create l) = Err e \<or> 2 ^ 64 \<le> length rs + 1)
    (spill_inv l (rs @ [r])) (spill_push r w)"
proof (cases "validate_spill_record r")
  case (Inl e)
  then show ?thesis by (simp add: spill_push_def)
next
  case v: (Inr u)
  have fl: "sw_file w = Some (concat (map (\<lambda>r. record_bytes r l) rs))" using inv by (simp add: spill_inv_def)
  show ?thesis
  proof (cases "f64_is_finite (pr_gps_time r)")
    case False
    then show ?thesis by (simp add: spill_push_def v stats_record_def)
  next
    case gps: True
    then have st: "stats_record (pr_gps_time r) (pr_return_number r) (sw_stats w) =
        Ok (stats_summary (map fields_of_record (rs @ [r])))"
      using inv stats_record_summary [of "fields_of_record r" "map fields_of_record rs"]
      by (simp add: spill_inv_def fields_of_record_def)
    show ?thesis
    proof (cases "length (pr_extra_bytes r) = unat (sl_extra_bytes l)")
      case False
      then have "serialize_le r (sw_layout w) (sw_scratch w) = Err (Io ''record has {} extra byte(s), expected {expected_extra_bytes}'')"
        "serialize_le r l (replicate (record_width l) 0) = Err (Io ''record has {} extra byte(s), expected {expected_extra_bytes}'')"
        using inv by (simp_all add: serialize_le_def spill_inv_def)
      moreover have "stats_record (pr_gps_time r) (pr_return_number r) stats_new =
          Ok (stats_summary [fields_of_record r])"
        using gps stats_record_summary [of "fields_of_record r" "[]"]
        by (simp add: fields_of_record_def stats_summary_Nil)
      ultimately show ?thesis by (simp add: spill_push_def v st spill_create_def)
    next
      case True
      have ser: "serialize_le r (sw_layout w) (sw_scratch w) = Ok (record_bytes r l)"
        using serialize_le_eq [OF _ True] inv by (simp add: spill_inv_def)
      show ?thesis
      proof (cases "checked_add (sw_count w) 1")
        case None
        then have "2 ^ 64 \<le> length rs + 1" using inv by (simp add: spill_inv_def checked_add_def split: if_splits)
        then show ?thesis by (simp add: spill_push_def v st ser fl Let_def None)
      next
        case (Some n)
        have n: "unat n = length rs + 1" using checked_add_Some [OF Some] inv by (simp add: spill_inv_def)
        have "spill_push r w = Ok (w\<lparr>sw_file := Some (concat (map (\<lambda>r. record_bytes r l) rs) @ record_bytes r l),
            sw_scratch := record_bytes r l, sw_bounds := Some (push_bounds (sw_bounds w) r),
            sw_stats := stats_summary (map fields_of_record (rs @ [r])), sw_count := n\<rparr>)"
          by (simp add: spill_push_def v st ser fl Let_def Some push_bounds_def)
        moreover have "list_all (\<lambda>r'. contains_xyz (push_bounds (sw_bounds w) r) (pr_x r') (pr_y r') (pr_z r')) (rs @ [r])"
          by (rule push_bounds_contains [OF v]) (use inv in \<open>simp add: spill_inv_def\<close>)
        ultimately show ?thesis using inv n True length_record_bytes [OF True] by (simp add: spill_inv_def)
      qed
    qed
  qed
qed

lemma spill_push_all:
  "res_spec (\<lambda>e. list_ex (\<lambda>r. spill_push r (spill_create l) = Err e) rs \<or> 2 ^ 64 \<le> length rs)
    (spill_inv l rs) (fold_res spill_push rs (spill_create l))"
proof (rule res_spec_fold)
  show "spill_inv l [] (spill_create l)" by (rule spill_inv_create)
next
  fix rs' r rest u assume rs: "rs = rs' @ r # rest" and inv: "spill_inv l rs' u"
  show "res_spec (\<lambda>e. list_ex (\<lambda>r. spill_push r (spill_create l) = Err e) rs \<or> 2 ^ 64 \<le> length rs)
      (spill_inv l (rs' @ [r])) (spill_push r u)"
    by (rule res_spec_mono [OF spill_push_step [OF inv]]) (auto simp: rs)
qed

lemma record_xyz:
  assumes "length (pr_extra_bytes r) = unat (sl_extra_bytes l)"
  shows "u64_from_le (bslice (record_bytes r l) 0 8) = pr_x r"
    "u64_from_le (bslice (record_bytes r l) 8 8) = pr_y r" "u64_from_le (bslice (record_bytes r l) 16 8) = pr_z r"
  by (simp_all add: record_bytes_def fixed_bytes_def bslice_def)

text \<open>A reader over the records \<open>rs\<close>.\<close>

definition spill_holds :: "streaming_layout \<Rightarrow> las_point_record list \<Rightarrow> spill_reader \<Rightarrow> bool" where
  "spill_holds l rs rd \<longleftrightarrow>
     sr_mmap rd = (if rs = [] then None else Some (concat (map (\<lambda>r. record_bytes r l) rs))) \<and>
     sr_layout rd = l \<and> sr_record_width rd = record_width l \<and> sr_count rd = length rs \<and>
     record_width l * length rs \<le> usize_max \<and>
     list_all (\<lambda>r. length (pr_extra_bytes r) = unat (sl_extra_bytes l)) rs"

lemma record_width_pos: "0 < record_width l"
  by (simp add: record_width_eq)

lemma spill_record_bytes_eq:
  assumes "spill_holds l rs rd" "i < length rs"
  shows "spill_record_bytes rd i = Ok (record_bytes (rs ! i) l)"
proof -
  let ?w = "record_width l"
  have ok: "list_all (\<lambda>r. length (pr_extra_bytes r) = unat (sl_extra_bytes l)) rs"
    using assms(1) by (simp add: spill_holds_def)
  have le: "(i + 1) * ?w \<le> ?w * length rs" using assms(2) by (simp add: mult.commute [of ?w] mult_le_mono1 Suc_leI
        del: mult_Suc add_mult_distrib)
  then have w: "i * ?w + ?w \<le> ?w * length rs" by simp
  then have "i * ?w + ?w \<le> usize_max" using assms(1) by (simp add: spill_holds_def)
  moreover have "length (concat (map (\<lambda>r. record_bytes r l) rs)) = ?w * length rs"
    by (rule spill_records.length_file [OF ok])
  moreover have "rs \<noteq> []" using assms(2) by auto
  ultimately show ?thesis
    using assms(1) w spill_records.record_slice [OF ok assms(2)]
    by (simp add: spill_record_bytes_def spill_holds_def checked_mul_usize_def checked_add_usize_def)
qed

lemma spill_reads:
  assumes "spill_holds l rs rd" "i < length rs"
  shows "record_at rd i = Ok (masked l (rs ! i))"
    and "xyz_at rd i = Ok (pr_x (rs ! i), pr_y (rs ! i), pr_z (rs ! i))"
proof -
  have n: "\<not> sr_count rd \<le> i" and l: "sr_layout rd = l" using assms by (simp_all add: spill_holds_def)
  have e: "length (pr_extra_bytes (rs ! i)) = unat (sl_extra_bytes l)"
    using assms by (simp add: spill_holds_def list_all_length)
  show "record_at rd i = Ok (masked l (rs ! i))"
    using n by (simp add: record_at_def spill_record_bytes_eq [OF assms] l deserialize_record_bytes [OF e])
  show "xyz_at rd i = Ok (pr_x (rs ! i), pr_y (rs ! i), pr_z (rs ! i))"
    using n by (simp add: xyz_at_def spill_record_bytes_eq [OF assms] record_xyz [OF e])
qed

lemma spill_beyond:
  "spill_holds l rs rd \<Longrightarrow> length rs \<le> i \<Longrightarrow>
    record_at rd i = Err (InvalidInput ''spill index {index} out of range (len {})'')"
  by (simp add: record_at_def spill_holds_def)

lemma spill_finalize_spec:
  assumes "spill_inv l rs w"
  shows "res_spec (\<lambda>_. usize_max < record_width l * length rs)
    (\<lambda>rd. spill_holds l rs rd \<and> sr_stats rd = stats_summary (map fields_of_record rs) \<and>
       list_all (\<lambda>r. contains_xyz (sr_bounds rd) (pr_x r) (pr_y r) (pr_z r)) rs)
    (spill_finalize w)"
proof -
  have ok: "list_all (\<lambda>r. length (pr_extra_bytes r) = unat (sl_extra_bytes l)) rs"
    using assms by (simp add: spill_inv_def)
  show ?thesis
    using assms spill_records.length_file [OF ok] record_width_pos [of l]
    by (auto simp: spill_finalize_def spill_open_def spill_inv_def spill_holds_def checked_mul_usize_def
        split: option.splits)
qed

text \<open>C19: Spilling is lossless up to the layout: when all records are accepted and the writer is
  finalized, the reader has exactly the records that were pushed, at their indexes and masked by the layout,
  their coordinates, bounds that contain every point, and the statistics of the points; past the end it
  returns an error. Pushing fails only with the error of one of the records.\<close>

theorem spill_round_trip:
  "case fold_res spill_push rs (spill_create l) of
     Inl e \<Rightarrow> list_ex (\<lambda>r. spill_push r (spill_create l) = Err e) rs \<or> 2 ^ 64 \<le> length rs
   | Inr w \<Rightarrow>
      (case spill_finalize w of
         Inl _ \<Rightarrow> usize_max < record_width l * length rs
       | Inr rd \<Rightarrow>
           map (record_at rd) [0..<length rs] = map (\<lambda>r. Ok (masked l r)) rs \<and>
           record_at rd (length rs) = Err (InvalidInput ''spill index {index} out of range (len {})'') \<and>
           map (xyz_at rd) [0..<length rs] = map (\<lambda>r. Ok (pr_x r, pr_y r, pr_z r)) rs \<and>
           list_all (\<lambda>r. contains_xyz (sr_bounds rd) (pr_x r) (pr_y r) (pr_z r)) rs \<and>
           sr_stats rd = stats_summary (map fields_of_record rs))"
proof (cases "fold_res spill_push rs (spill_create l)")
  case (Inl e)
  then show ?thesis using res_spec_Err [OF spill_push_all Inl] by simp
next
  case (Inr w)
  have inv: "spill_inv l rs w" by (rule res_spec_Ok [OF spill_push_all Inr])
  show ?thesis
  proof (cases "spill_finalize w")
    case fin: (Inl e)
    then show ?thesis using res_spec_Err [OF spill_finalize_spec [OF inv] fin] by (simp add: Inr)
  next
    case fin: (Inr rd)
    note spec = res_spec_Ok [OF spill_finalize_spec [OF inv] fin]
    then have h: "spill_holds l rs rd" by simp
    have "map (record_at rd) [0..<length rs] = map (\<lambda>r. Ok (masked l r)) rs"
      "map (xyz_at rd) [0..<length rs] = map (\<lambda>r. Ok (pr_x r, pr_y r, pr_z r)) rs"
      by (rule nth_equalityI; simp add: spill_reads [OF h])+
    then show ?thesis using spec spill_beyond [OF h order_refl] by (simp add: Inr fin)
  qed
qed

end
