(* ===== verification/Columns.thy ===== *)
theory Columns
  imports Las_Types
begin

text \<open>
  \<^verbatim>\<open>copc-core/src/columns.rs\<close>: dimensions, scalar types, column specifications and data, and the
  column batch with its validation. A \<^verbatim>\<open>Vec\<close> is a list and its capacity is left out; the
  \<^verbatim>\<open>HashSet\<close> of \<^verbatim>\<open>validate\<close> is a set. The lemmas say which layouts and batches are well typed.
\<close>

section \<open>Dimensions and scalar types\<close>

datatype las_dimension =
    Dim_X | Dim_Y | Dim_Z | Dim_Intensity | Dim_ReturnNumber | Dim_NumberOfReturns
  | Dim_Classification | Dim_ScanDirectionFlag | Dim_EdgeOfFlightLine | Dim_ScanAngle | Dim_UserData
  | Dim_PointSourceId | Dim_Synthetic | Dim_KeyPoint | Dim_Withheld | Dim_Overlap | Dim_ScanChannel
  | Dim_GpsTime | Dim_Red | Dim_Green | Dim_Blue | Dim_Nir | Dim_WaveformPacketDescriptorIndex
  | Dim_WaveformPacketByteOffset | Dim_WaveformPacketSize | Dim_WavePacketReturnPointWaveformLocation
  | Dim_ExtraBytes

datatype scalar_type = Ty_F64 | Ty_F32 | Ty_I64 | Ty_I32 | Ty_I16 | Ty_I8 | Ty_U64 | Ty_U32 | Ty_U16 | Ty_U8 | Ty_Bool

definition default_scalar :: "las_dimension \<Rightarrow> scalar_type option" where
  "default_scalar d =
     (case d of
        Dim_X \<Rightarrow> Some Ty_F64 | Dim_Y \<Rightarrow> Some Ty_F64 | Dim_Z \<Rightarrow> Some Ty_F64 | Dim_GpsTime \<Rightarrow> Some Ty_F64
      | Dim_ScanAngle \<Rightarrow> Some Ty_F32 | Dim_WavePacketReturnPointWaveformLocation \<Rightarrow> Some Ty_F32
      | Dim_WaveformPacketByteOffset \<Rightarrow> Some Ty_U64
      | Dim_Intensity \<Rightarrow> Some Ty_U16 | Dim_PointSourceId \<Rightarrow> Some Ty_U16 | Dim_Red \<Rightarrow> Some Ty_U16
      | Dim_Green \<Rightarrow> Some Ty_U16 | Dim_Blue \<Rightarrow> Some Ty_U16 | Dim_Nir \<Rightarrow> Some Ty_U16
      | Dim_WaveformPacketSize \<Rightarrow> Some Ty_U32
      | Dim_ReturnNumber \<Rightarrow> Some Ty_U8 | Dim_NumberOfReturns \<Rightarrow> Some Ty_U8 | Dim_Classification \<Rightarrow> Some Ty_U8
      | Dim_UserData \<Rightarrow> Some Ty_U8 | Dim_ScanChannel \<Rightarrow> Some Ty_U8
      | Dim_WaveformPacketDescriptorIndex \<Rightarrow> Some Ty_U8
      | Dim_ScanDirectionFlag \<Rightarrow> Some Ty_Bool | Dim_EdgeOfFlightLine \<Rightarrow> Some Ty_Bool
      | Dim_Synthetic \<Rightarrow> Some Ty_Bool | Dim_KeyPoint \<Rightarrow> Some Ty_Bool | Dim_Withheld \<Rightarrow> Some Ty_Bool
      | Dim_Overlap \<Rightarrow> Some Ty_Bool
      | Dim_ExtraBytes \<Rightarrow> None)"

definition accepts_scalar :: "las_dimension \<Rightarrow> scalar_type \<Rightarrow> bool" where
  "accepts_scalar d s = (case default_scalar d of Some t \<Rightarrow> t = s | None \<Rightarrow> True)"

section \<open>Column selections\<close>

record column_selection =
  cs_dimensions :: "las_dimension list"

fun push_dimensions :: "las_dimension list \<Rightarrow> las_dimension list \<Rightarrow> las_dimension list" where
  "push_dimensions [] dimensions = dimensions"
| "push_dimensions (d # dims) dimensions =
     push_dimensions dims (if d \<in> set dimensions then dimensions else dimensions @ [d])"

definition from_dimensions :: "las_dimension list \<Rightarrow> column_selection" where
  "from_dimensions dims = \<lparr>cs_dimensions = push_dimensions dims []\<rparr>"

definition selection_all :: column_selection where
  "selection_all = from_dimensions
     [Dim_X, Dim_Y, Dim_Z, Dim_Intensity, Dim_ReturnNumber, Dim_NumberOfReturns, Dim_Classification,
      Dim_ScanDirectionFlag, Dim_EdgeOfFlightLine, Dim_ScanAngle, Dim_UserData, Dim_PointSourceId,
      Dim_Synthetic, Dim_KeyPoint, Dim_Withheld, Dim_Overlap, Dim_ScanChannel, Dim_GpsTime, Dim_Red,
      Dim_Green, Dim_Blue, Dim_Nir, Dim_WaveformPacketDescriptorIndex, Dim_WaveformPacketByteOffset,
      Dim_WaveformPacketSize, Dim_WavePacketReturnPointWaveformLocation, Dim_ExtraBytes]"

definition selection_xyz :: column_selection where
  "selection_xyz = from_dimensions [Dim_X, Dim_Y, Dim_Z]"

definition selection_contains :: "column_selection \<Rightarrow> las_dimension \<Rightarrow> bool" where
  "selection_contains s d \<longleftrightarrow> d \<in> set (cs_dimensions s)"

definition selection_len :: "column_selection \<Rightarrow> nat" where
  "selection_len s = length (cs_dimensions s)"

definition selection_is_empty :: "column_selection \<Rightarrow> bool" where
  "selection_is_empty s \<longleftrightarrow> cs_dimensions s = []"

section \<open>Column data\<close>

datatype column_data =
    F64 "f64 list" | F32 "f32 list" | I64 "64 word list" | I32 "i32 list" | I16 "i16 list"
  | I8 "8 word list" | U64 "u64 list" | U32 "u32 list" | U16 "u16 list" | U8 "u8 list" | Bool "bool list"

definition data_len :: "column_data \<Rightarrow> nat" where
  "data_len data =
     (case data of
        F64 values \<Rightarrow> length values | F32 values \<Rightarrow> length values | I64 values \<Rightarrow> length values
      | I32 values \<Rightarrow> length values | I16 values \<Rightarrow> length values | I8 values \<Rightarrow> length values
      | U64 values \<Rightarrow> length values | U32 values \<Rightarrow> length values | U16 values \<Rightarrow> length values
      | U8 values \<Rightarrow> length values | Bool values \<Rightarrow> length values)"

definition data_is_empty :: "column_data \<Rightarrow> bool" where
  "data_is_empty data = (data_len data = 0)"

definition data_scalar :: "column_data \<Rightarrow> scalar_type" where
  "data_scalar data =
     (case data of
        F64 _ \<Rightarrow> Ty_F64 | F32 _ \<Rightarrow> Ty_F32 | I64 _ \<Rightarrow> Ty_I64 | I32 _ \<Rightarrow> Ty_I32 | I16 _ \<Rightarrow> Ty_I16
      | I8 _ \<Rightarrow> Ty_I8 | U64 _ \<Rightarrow> Ty_U64 | U32 _ \<Rightarrow> Ty_U32 | U16 _ \<Rightarrow> Ty_U16 | U8 _ \<Rightarrow> Ty_U8 | Bool _ \<Rightarrow> Ty_Bool)"

definition matches_scalar :: "column_data \<Rightarrow> scalar_type \<Rightarrow> bool" where
  "matches_scalar data s = (data_scalar data = s)"

text \<open>\<^verbatim>\<open>ColumnView\<close> borrows the slices of a column.\<close>

datatype column_view =
    View_F64 "f64 list" | View_F32 "f32 list" | View_I64 "64 word list" | View_I32 "i32 list"
  | View_I16 "i16 list" | View_I8 "8 word list" | View_U64 "u64 list" | View_U32 "u32 list"
  | View_U16 "u16 list" | View_U8 "u8 list" | View_Bool "bool list"

definition data_view :: "column_data \<Rightarrow> column_view" where
  "data_view data =
     (case data of
        F64 values \<Rightarrow> View_F64 values | F32 values \<Rightarrow> View_F32 values | I64 values \<Rightarrow> View_I64 values
      | I32 values \<Rightarrow> View_I32 values | I16 values \<Rightarrow> View_I16 values | I8 values \<Rightarrow> View_I8 values
      | U64 values \<Rightarrow> View_U64 values | U32 values \<Rightarrow> View_U32 values | U16 values \<Rightarrow> View_U16 values
      | U8 values \<Rightarrow> View_U8 values | Bool values \<Rightarrow> View_Bool values)"

definition view_len :: "column_view \<Rightarrow> nat" where
  "view_len v =
     (case v of
        View_F64 values \<Rightarrow> length values | View_F32 values \<Rightarrow> length values | View_I64 values \<Rightarrow> length values
      | View_I32 values \<Rightarrow> length values | View_I16 values \<Rightarrow> length values | View_I8 values \<Rightarrow> length values
      | View_U64 values \<Rightarrow> length values | View_U32 values \<Rightarrow> length values | View_U16 values \<Rightarrow> length values
      | View_U8 values \<Rightarrow> length values | View_Bool values \<Rightarrow> length values)"

definition view_scalar :: "column_view \<Rightarrow> scalar_type" where
  "view_scalar v =
     (case v of
        View_F64 _ \<Rightarrow> Ty_F64 | View_F32 _ \<Rightarrow> Ty_F32 | View_I64 _ \<Rightarrow> Ty_I64 | View_I32 _ \<Rightarrow> Ty_I32
      | View_I16 _ \<Rightarrow> Ty_I16 | View_I8 _ \<Rightarrow> Ty_I8 | View_U64 _ \<Rightarrow> Ty_U64 | View_U32 _ \<Rightarrow> Ty_U32
      | View_U16 _ \<Rightarrow> Ty_U16 | View_U8 _ \<Rightarrow> Ty_U8 | View_Bool _ \<Rightarrow> Ty_Bool)"

section \<open>Column specifications\<close>

record column_spec =
  sp_dimension :: las_dimension
  sp_scalar :: scalar_type
  sp_byte_width :: "nat option"

definition spec_new :: "las_dimension \<Rightarrow> scalar_type \<Rightarrow> column_spec" where
  "spec_new d s = \<lparr>sp_dimension = d, sp_scalar = s, sp_byte_width = None\<rparr>"

definition spec_extra_bytes :: "nat \<Rightarrow> column_spec" where
  "spec_extra_bytes w = \<lparr>sp_dimension = Dim_ExtraBytes, sp_scalar = Ty_U8, sp_byte_width = Some w\<rparr>"

definition spec_default_for :: "las_dimension \<Rightarrow> column_spec option" where
  "spec_default_for d =
     (case default_scalar d of
        Some s \<Rightarrow> Some \<lparr>sp_dimension = d, sp_scalar = s, sp_byte_width = None\<rparr>
      | None \<Rightarrow> None)"

definition has_default_scalar :: "column_spec \<Rightarrow> bool" where
  "has_default_scalar sp =
     (if sp_dimension sp = Dim_ExtraBytes
      then sp_scalar sp = Ty_U8 \<and> sp_byte_width sp \<noteq> None
      else sp_byte_width sp = None \<and> accepts_scalar (sp_dimension sp) (sp_scalar sp))"

definition matches_data :: "column_spec \<Rightarrow> column_data \<Rightarrow> bool" where
  "matches_data sp data = (sp_scalar sp = data_scalar data)"

definition extra_byte_width :: "column_spec \<Rightarrow> nat option" where
  "extra_byte_width sp =
     (case (sp_dimension sp, sp_scalar sp, sp_byte_width sp) of
        (Dim_ExtraBytes, Ty_U8, Some w) \<Rightarrow> if 0 < w then Some w else None
      | _ \<Rightarrow> None)"

definition validate_data :: "column_spec \<Rightarrow> column_data \<Rightarrow> unit result" where
  "validate_data sp data =
     (if \<not> matches_data sp data
      then Err (InvalidInput ''column {:?} declares {:?} data but contains {:?}'')
      else if sp_dimension sp = Dim_ExtraBytes \<and> extra_byte_width sp = None
      then Err (InvalidInput ''ExtraBytes column requires a non-zero byte width'')
      else if sp_dimension sp \<noteq> Dim_ExtraBytes \<and> sp_byte_width sp \<noteq> None
      then Err (InvalidInput ''column {:?} cannot declare byte width {:?}'')
      else Ok ())"

definition validate_default_scalar :: "column_spec \<Rightarrow> unit result" where
  "validate_default_scalar sp =
     (if has_default_scalar sp then Ok ()
      else Err (InvalidInput ''column {:?} declares {:?}, expected {:?}''))"

definition point_count_for_data :: "column_spec \<Rightarrow> column_data \<Rightarrow> nat result" where
  "point_count_for_data sp data =
     bind_res (validate_data sp data) (\<lambda>_.
     if sp_dimension sp = Dim_ExtraBytes then
       bind_res (ok_or (extra_byte_width sp) (InvalidInput ''ExtraBytes column requires a non-zero byte width'')) (\<lambda>w.
       if \<not> w dvd data_len data
       then Err (InvalidInput ''ExtraBytes column has {} bytes, which is not divisible by byte width {width}'')
       else Ok (data_len data div w))
     else Ok (data_len data))"

text \<open>The \<^verbatim>\<open>expect\<close> is a panic on a dimension without a default scalar.\<close>

definition default_column_spec :: "las_dimension \<Rightarrow> column_spec result" where
  "default_column_spec d = ok_or (spec_default_for d) (Panic ''fixed LAS dimension has a default scalar'')"

definition push_default_specs :: "las_dimension list \<Rightarrow> column_spec list \<Rightarrow> column_spec list result" where
  "push_default_specs dims columns = bind_res (map_res default_column_spec dims) (\<lambda>specs. Ok (columns @ specs))"

definition layout_for_las_format :: "las_format \<Rightarrow> column_spec list result" where
  "layout_for_las_format format =
     bind_res (push_default_specs
       [Dim_X, Dim_Y, Dim_Z, Dim_Intensity, Dim_ReturnNumber, Dim_NumberOfReturns, Dim_Classification,
        Dim_ScanDirectionFlag, Dim_EdgeOfFlightLine, Dim_ScanAngle, Dim_UserData, Dim_PointSourceId,
        Dim_Synthetic, Dim_KeyPoint, Dim_Withheld, Dim_Overlap, Dim_ScanChannel] []) (\<lambda>columns.
     bind_res (if lf_has_gps_time format then push_default_specs [Dim_GpsTime] columns else Ok columns) (\<lambda>columns.
     bind_res (if lf_has_color format then push_default_specs [Dim_Red, Dim_Green, Dim_Blue] columns
               else Ok columns) (\<lambda>columns.
     bind_res (if lf_has_nir format then push_default_specs [Dim_Nir] columns else Ok columns) (\<lambda>columns.
     bind_res (if lf_has_waveform format then push_default_specs
         [Dim_WaveformPacketDescriptorIndex, Dim_WaveformPacketByteOffset, Dim_WaveformPacketSize,
          Dim_WavePacketReturnPointWaveformLocation] columns else Ok columns) (\<lambda>columns.
     Ok (if 0 < lf_extra_bytes format then columns @ [spec_extra_bytes (unat (lf_extra_bytes format))]
         else columns))))))"

section \<open>Column batches\<close>

type_synonym column = "column_spec \<times> column_data"

record las_column_batch =
  lb_len :: nat
  lb_columns :: "column list"

text \<open>The loop of \<^verbatim>\<open>validate\<close> with the set of dimensions seen.\<close>

fun validate_columns :: "nat \<Rightarrow> column list \<Rightarrow> las_dimension set \<Rightarrow> unit result" where
  "validate_columns n [] dimensions = Ok ()"
| "validate_columns n ((sp, data) # columns) dimensions =
     (if sp_dimension sp \<in> dimensions
      then Err (InvalidInput ''column {:?} appears more than once in the batch'')
      else
        bind_res (point_count_for_data sp data) (\<lambda>point_count.
        if point_count \<noteq> n
        then Err (InvalidInput ''column {:?} has {} points but batch len is {}'')
        else validate_columns n columns (insert (sp_dimension sp) dimensions)))"

definition batch_validate :: "las_column_batch \<Rightarrow> unit result" where
  "batch_validate b = validate_columns (lb_len b) (lb_columns b) {}"

definition batch_new :: "column list \<Rightarrow> las_column_batch result" where
  "batch_new columns =
     bind_res (case columns of (sp, data) # _ \<Rightarrow> point_count_for_data sp data | [] \<Rightarrow> Ok 0) (\<lambda>n.
     let batch = \<lparr>lb_len = n, lb_columns = columns\<rparr>
     in bind_res (batch_validate batch) (\<lambda>_. Ok batch))"

definition batch_is_empty :: "las_column_batch \<Rightarrow> bool" where
  "batch_is_empty b = (lb_len b = 0)"

definition batch_column :: "las_column_batch \<Rightarrow> las_dimension \<Rightarrow> column_data option" where
  "batch_column b d = map_option snd (find (\<lambda>(sp, _). sp_dimension sp = d) (lb_columns b))"

definition batch_column_by_spec :: "las_column_batch \<Rightarrow> column_spec \<Rightarrow> column_data option" where
  "batch_column_by_spec b sp = map_option snd (find (\<lambda>(column_spec, _). column_spec = sp) (lb_columns b))"

definition batch_column_view :: "las_column_batch \<Rightarrow> las_dimension \<Rightarrow> column_view option" where
  "batch_column_view b d = map_option data_view (batch_column b d)"

definition batch_column_view_by_spec :: "las_column_batch \<Rightarrow> column_spec \<Rightarrow> column_view option" where
  "batch_column_view_by_spec b sp = map_option data_view (batch_column_by_spec b sp)"

definition validate_default_scalars :: "las_column_batch \<Rightarrow> unit result" where
  "validate_default_scalars b =
     bind_res (batch_validate b) (\<lambda>_.
     fold_res (\<lambda>(sp, _) _. validate_default_scalar sp) (lb_columns b) ())"

section \<open>Selections hold each dimension once\<close>

lemma push_dimensions_spec:
  "distinct acc \<Longrightarrow> distinct (push_dimensions dims acc) \<and> set (push_dimensions dims acc) = set acc \<union> set dims"
  by (induction dims acc rule: push_dimensions.induct) auto

lemma selection_contains_from [simp]:
  "selection_contains (from_dimensions dims) d \<longleftrightarrow> d \<in> set dims"
  using push_dimensions_spec [of "[]" dims] by (simp add: selection_contains_def from_dimensions_def)

lemma selection_all_contains [simp]: "selection_contains selection_all d"
  by (cases d) (simp_all add: selection_all_def)

section \<open>Well-typed layouts\<close>

lemma data_view_faithful:
  "view_len (data_view data) = data_len data" "view_scalar (data_view data) = data_scalar data"
  by (cases data; simp add: data_view_def view_len_def data_len_def view_scalar_def data_scalar_def)+

lemma spec_default_for_iff: "spec_default_for d = None \<longleftrightarrow> d = Dim_ExtraBytes"
  by (cases d) (simp_all add: spec_default_for_def default_scalar_def)

definition default_spec :: "las_dimension \<Rightarrow> column_spec" where
  "default_spec d = the (spec_default_for d)"

lemma default_column_spec_Ok:
  assumes "d \<noteq> Dim_ExtraBytes"
  shows "default_column_spec d = Ok (default_spec d)"
proof -
  obtain sp where "spec_default_for d = Some sp" using assms spec_default_for_iff [of d] by auto
  then show ?thesis by (simp add: default_column_spec_def default_spec_def)
qed

lemma default_spec_fields:
  assumes "d \<noteq> Dim_ExtraBytes"
  shows "\<exists>t. default_scalar d = Some t \<and> default_spec d = \<lparr>sp_dimension = d, sp_scalar = t, sp_byte_width = None\<rparr>"
proof -
  obtain t where "default_scalar d = Some t"
    using assms spec_default_for_iff [of d] by (cases "default_scalar d") (auto simp: spec_default_for_def)
  then show ?thesis by (simp add: default_spec_def spec_default_for_def)
qed

lemma sp_dimension_default [simp]:
  assumes "d \<noteq> Dim_ExtraBytes"
  shows "sp_dimension (default_spec d) = d" "has_default_scalar (default_spec d)"
    "sp_byte_width (default_spec d) = None" "Some (sp_scalar (default_spec d)) = default_scalar d"
proof -
  obtain t where t: "default_scalar d = Some t"
      "default_spec d = \<lparr>sp_dimension = d, sp_scalar = t, sp_byte_width = None\<rparr>"
    using default_spec_fields [OF assms] by blast
  show "sp_dimension (default_spec d) = d" "sp_byte_width (default_spec d) = None"
      "Some (sp_scalar (default_spec d)) = default_scalar d" "has_default_scalar (default_spec d)"
    using assms by (simp_all only: t has_default_scalar_def accepts_scalar_def column_spec.select_convs
        if_False option.case simp_thms)
qed

lemma push_default_specs_Ok:
  assumes "Dim_ExtraBytes \<notin> set dims"
  shows "push_default_specs dims columns = Ok (columns @ map default_spec dims)"
proof -
  have "map_res default_column_spec dims = Ok (map default_spec dims)"
  proof (rule map_res_all_Ok)
    fix d assume "d \<in> set dims"
    then have "d \<noteq> Dim_ExtraBytes" using assms by metis
    then show "default_column_spec d = Ok (default_spec d)" by (rule default_column_spec_Ok)
  qed
  then show ?thesis by (simp add: push_default_specs_def)
qed

text \<open>The dimensions a format stores, and the layout they give.\<close>

definition base_dims :: "las_dimension list" where
  "base_dims =
     [Dim_X, Dim_Y, Dim_Z, Dim_Intensity, Dim_ReturnNumber, Dim_NumberOfReturns, Dim_Classification,
      Dim_ScanDirectionFlag, Dim_EdgeOfFlightLine, Dim_ScanAngle, Dim_UserData, Dim_PointSourceId,
      Dim_Synthetic, Dim_KeyPoint, Dim_Withheld, Dim_Overlap, Dim_ScanChannel]"

definition wave_dims :: "las_dimension list" where
  "wave_dims = [Dim_WaveformPacketDescriptorIndex, Dim_WaveformPacketByteOffset, Dim_WaveformPacketSize,
     Dim_WavePacketReturnPointWaveformLocation]"

definition format_dims :: "las_format \<Rightarrow> las_dimension list" where
  "format_dims format = base_dims
     @ (if lf_has_gps_time format then [Dim_GpsTime] else [])
     @ (if lf_has_color format then [Dim_Red, Dim_Green, Dim_Blue] else [])
     @ (if lf_has_nir format then [Dim_Nir] else [])
     @ (if lf_has_waveform format then wave_dims else [])"

definition format_specs :: "las_format \<Rightarrow> column_spec list" where
  "format_specs format = map default_spec (format_dims format)
     @ (if 0 < lf_extra_bytes format then [spec_extra_bytes (unat (lf_extra_bytes format))] else [])"

lemma layout_eq: "layout_for_las_format format = Ok (format_specs format)"
  by (simp add: layout_for_las_format_def push_default_specs_Ok format_specs_def format_dims_def
      base_dims_def wave_dims_def)

lemma format_dims_props: "distinct (format_dims format)" "Dim_ExtraBytes \<notin> set (format_dims format)"
  by (auto simp: format_dims_def base_dims_def wave_dims_def)

lemma format_specs_dims:
  "map sp_dimension (format_specs format) =
    format_dims format @ (if 0 < lf_extra_bytes format then [Dim_ExtraBytes] else [])"
proof -
  have "map (sp_dimension \<circ> default_spec) (format_dims format) = format_dims format"
    using format_dims_props(2) [of format] by (intro map_idI) (metis comp_apply sp_dimension_default(1))
  then show ?thesis by (simp add: format_specs_def spec_extra_bytes_def)
qed

text \<open>What a usable specification is: it can carry values.\<close>

definition spec_usable :: "column_spec \<Rightarrow> bool" where
  "spec_usable sp \<longleftrightarrow> has_default_scalar sp \<and> (sp_dimension sp = Dim_ExtraBytes \<longrightarrow> extra_byte_width sp \<noteq> None)"

lemma extra_byte_width_extra [simp]: "0 < w \<Longrightarrow> extra_byte_width (spec_extra_bytes w) = Some w"
  by (simp add: extra_byte_width_def spec_extra_bytes_def)

lemma spec_usable_extra: "0 < w \<Longrightarrow> spec_usable (spec_extra_bytes w)"
  unfolding spec_usable_def by (simp add: has_default_scalar_def) (simp add: spec_extra_bytes_def)

lemma spec_usable_default: "d \<noteq> Dim_ExtraBytes \<Longrightarrow> spec_usable (default_spec d)"
  by (simp add: spec_usable_def)

lemma format_specs_usable: "list_all spec_usable (format_specs format)"
proof -
  have "list_all (\<lambda>d. spec_usable (default_spec d)) (format_dims format)"
    using format_dims_props(2) [of format] spec_usable_default by (metis list.pred_set)
  moreover have "0 < unat (lf_extra_bytes format)" if "0 < lf_extra_bytes format"
    using that by (simp add: word_less_nat_alt)
  ultimately show ?thesis by (simp add: format_specs_def list.pred_map comp_def spec_usable_extra)
qed

section \<open>What validation of a batch decides\<close>

lemma point_count_Ok_iff:
  "point_count_for_data sp data = Ok n \<longleftrightarrow>
     sp_scalar sp = data_scalar data \<and>
     (if sp_dimension sp = Dim_ExtraBytes
      then \<exists>w. extra_byte_width sp = Some w \<and> data_len data = n * w
      else sp_byte_width sp = None \<and> n = data_len data)"
proof (cases "sp_dimension sp = Dim_ExtraBytes")
  case True
  have w: "0 < w" if "extra_byte_width sp = Some w" for w
    using that by (auto simp: extra_byte_width_def split: las_dimension.splits scalar_type.splits
        option.splits if_splits)
  show ?thesis
  proof (cases "extra_byte_width sp")
    case None
    with True show ?thesis by (simp add: point_count_for_data_def validate_data_def)
  next
    case (Some w)
    with True w [OF Some] show ?thesis
      by (auto simp: point_count_for_data_def validate_data_def matches_data_def)
  qed
next
  case False
  then show ?thesis by (auto simp: point_count_for_data_def validate_data_def matches_data_def)
qed

lemma validate_columns_Ok_iff:
  "validate_columns n columns seen = Ok () \<longleftrightarrow>
     distinct (map (sp_dimension \<circ> fst) columns) \<and> set (map (sp_dimension \<circ> fst) columns) \<inter> seen = {} \<and>
     list_all (\<lambda>(sp, data). point_count_for_data sp data = Ok n) columns"
proof (induction n columns seen rule: validate_columns.induct)
  case (2 n sp data columns seen)
  show ?case
  proof (cases "sp_dimension sp \<in> seen")
    case False
    then show ?thesis using 2 [OF False _] by (cases "point_count_for_data sp data") auto
  qed simp
qed simp

text \<open>A column with \<open>n\<close> values of the declared type.\<close>

definition column_typed :: "nat \<Rightarrow> column \<Rightarrow> bool" where
  "column_typed n c \<longleftrightarrow>
     (case c of (sp, data) \<Rightarrow>
        sp_scalar sp = data_scalar data \<and>
        (if sp_dimension sp = Dim_ExtraBytes
         then list_ex (\<lambda>w. data_len data = n * w) (case extra_byte_width sp of None \<Rightarrow> [] | Some w \<Rightarrow> [w])
         else sp_byte_width sp = None \<and> data_len data = n))"

lemma column_typed_iff: "column_typed n (sp, data) \<longleftrightarrow> point_count_for_data sp data = Ok n"
  unfolding point_count_Ok_iff column_typed_def by (auto split: option.splits)

lemma batch_validate_Ok_iff:
  "batch_validate b = Ok () \<longleftrightarrow>
     distinct (map (sp_dimension \<circ> fst) (lb_columns b)) \<and> list_all (column_typed (lb_len b)) (lb_columns b)"
proof -
  have "list_all (\<lambda>(sp, data). point_count_for_data sp data = Ok (lb_len b)) (lb_columns b) =
      list_all (column_typed (lb_len b)) (lb_columns b)"
    by (rule list.pred_cong) (auto simp: column_typed_iff)
  then show ?thesis unfolding batch_validate_def validate_columns_Ok_iff by simp
qed

lemma batch_column_Some_iff:
  assumes "distinct (map (sp_dimension \<circ> fst) (lb_columns b))"
  shows "batch_column b d = Some data \<longleftrightarrow> (\<exists>sp. (sp, data) \<in> set (lb_columns b) \<and> sp_dimension sp = d)"
proof -
  have "distinct (map (sp_dimension \<circ> fst) cols) \<Longrightarrow>
      (map_option snd (find (\<lambda>(sp, _). sp_dimension sp = d) cols) = Some data) =
      (\<exists>sp. (sp, data) \<in> set cols \<and> sp_dimension sp = d)" for cols :: "column list"
  proof (induction cols)
    case (Cons c cols)
    obtain sp0 d0 where c: "c = (sp0, d0)" by (cases c)
    show ?case
    proof (cases "sp_dimension sp0 = d")
      case True
      have "(sp, d') \<in> set cols \<Longrightarrow> sp_dimension sp \<noteq> d" for sp d'
        using Cons.prems True c by (auto simp: image_iff)
      then show ?thesis using True c by auto
    next
      case False
      then show ?thesis using Cons c by auto
    qed
  qed simp
  from this [OF assms] show ?thesis unfolding batch_column_def .
qed

text \<open>A batch is accepted exactly when its dimensions are distinct and every column holds values
  of its declared type for the same number of points, and then a column is found by its dimension.\<close>

theorem batch_new_exact:
  "batch_new columns = Ok b \<longleftrightarrow>
     lb_columns b = columns \<and> (if columns = [] then lb_len b = 0 else True) \<and>
     distinct (map (sp_dimension \<circ> fst) columns) \<and> list_all (column_typed (lb_len b)) columns \<and>
     list_all (\<lambda>(sp, data). batch_column b (sp_dimension sp) = Some data) columns"
proof -
  have look: "list_all (\<lambda>(sp, data). batch_column b (sp_dimension sp) = Some data) (lb_columns b)"
    if "distinct (map (sp_dimension \<circ> fst) (lb_columns b))"
    using batch_column_Some_iff [OF that] by (auto simp: list_all_iff)
  show ?thesis
  proof (cases columns)
    case Nil
    then show ?thesis using batch_validate_Ok_iff [of b]
      by (cases b) (auto simp: batch_new_def Let_def bind_res_Ok_iff batch_validate_Ok_iff)
  next
    case (Cons c cs)
    obtain sp data where c: "c = (sp, data)" by (cases c)
    show ?thesis
    proof
      assume "batch_new columns = Ok b"
      then have b: "lb_columns b = columns" "batch_validate b = Ok ()"
        by (auto simp: batch_new_def bind_res_Ok_iff Let_def Cons c)
      then show "lb_columns b = columns \<and> (if columns = [] then lb_len b = 0 else True) \<and>
          distinct (map (sp_dimension \<circ> fst) columns) \<and> list_all (column_typed (lb_len b)) columns \<and>
          list_all (\<lambda>(sp, data). batch_column b (sp_dimension sp) = Some data) columns"
        using look Cons by (simp add: batch_validate_Ok_iff)
    next
      assume r: "lb_columns b = columns \<and> (if columns = [] then lb_len b = 0 else True) \<and>
          distinct (map (sp_dimension \<circ> fst) columns) \<and> list_all (column_typed (lb_len b)) columns \<and>
          list_all (\<lambda>(sp, data). batch_column b (sp_dimension sp) = Some data) columns"
      then have "point_count_for_data sp data = Ok (lb_len b)"
        by (simp add: Cons c flip: column_typed_iff)
      moreover have "batch_validate b = Ok ()" using r by (simp add: batch_validate_Ok_iff)
      moreover have "\<lparr>lb_len = lb_len b, lb_columns = columns\<rparr> = b" using r by simp
      ultimately show "batch_new columns = Ok b" by (simp add: batch_new_def Cons c Let_def)
    qed
  qed
qed

end
