(* ===== verification/Point_Record.thy ===== *)
theory Point_Record
  imports Validate Columns
begin

text \<open>
  Point records of the formats 6 to 10: the direct encoder of \<^verbatim>\<open>copc-writer/src/writer.rs\<close> and the
  field extraction of \<^verbatim>\<open>copc-reader/src/points.rs\<close> that fills columns from decompressed records. A
  slice out of range is the value \<open>Panic\<close>. The lemmas show that the columns of an encoded point
  are the fields it was encoded from.
\<close>

section \<open>The encoder\<close>

text \<open>\<^verbatim>\<open>buf[a..a + ys.len()].copy_from_slice(ys)\<close>, for several slices in turn.\<close>

definition copy_slice :: "nat \<times> u8 list \<Rightarrow> u8 list \<Rightarrow> u8 list result" where
  "copy_slice s buf =
     (case s of (a, ys) \<Rightarrow>
        if a + length ys \<le> length buf then Ok (put_at buf a ys) else Err (Panic ''slice index out of range''))"

definition encode_point_record ::
  "copc_point_fields \<Rightarrow> xyz \<Rightarrow> xyz \<Rightarrow> las_format \<Rightarrow> u8 list \<Rightarrow> u8 list result" where
  "encode_point_record f scale offset format buf =
     bind_res (quantize_xyz (cf_x f) (cf_y f) (cf_z f) scale offset) (\<lambda>(ix, iy, iz).
     bind_res (fold_res copy_slice
       [(0, u32_to_le ix), (4, u32_to_le iy), (8, u32_to_le iz), (12, u16_to_le (cf_intensity f)),
        (14, [cf_return_number f OR push_bit 4 (cf_number_of_returns f)]),
        (15, [cf_synthetic f OR push_bit 1 (cf_key_point f) OR push_bit 2 (cf_withheld f)
              OR push_bit 3 (cf_overlap f) OR push_bit 4 (cf_scan_channel f)
              OR push_bit 6 (cf_scan_direction_flag f) OR push_bit 7 (cf_edge_of_flight_line f)]),
        (16, [cf_classification f]), (17, [cf_user_data f]),
        (18, u16_to_le (scan_angle_to_las_scaled (cf_scan_angle f))),
        (20, u16_to_le (cf_point_source_id f)), (22, u64_to_le (cf_gps_time f))] buf) (\<lambda>buf.
     bind_res (if lf_has_color format
       then bind_res (fold_res copy_slice
              [(30, u16_to_le (cf_red f)), (32, u16_to_le (cf_green f)), (34, u16_to_le (cf_blue f))] buf)
              (\<lambda>buf. Ok (buf, 36))
       else Ok (buf, 30)) (\<lambda>(buf, cursor).
     if length (cf_extra_bytes f) \<noteq> length buf - cursor
     then Err (InvalidInput ''point {point_index} has {} extra byte(s), expected {}'')
     else copy_slice (cursor, cf_extra_bytes f) buf)))"

section \<open>Field offsets of a record\<close>

definition OVERLAP_CLASSIFICATION_CODE :: u8 where
  "OVERLAP_CLASSIFICATION_CODE = 12"

record point_layout =
  el_color_offset :: "nat option"
  el_nir_offset :: "nat option"
  el_waveform_offset :: "nat option"
  el_extra_offset :: nat
  el_extra_len :: nat

definition layout_for_format :: "las_format \<Rightarrow> point_layout result" where
  "layout_for_format format =
     (if \<not> lf_is_extended format
      then Err (Unsupported ''COPC column reads require extended point formats (6-10)'')
      else
        let cursor = 30;
            (color_offset, cursor) = (if lf_has_color format then (Some cursor, cursor + 6) else (None, cursor));
            (nir_offset, cursor) = (if lf_has_nir format then (Some cursor, cursor + 2) else (None, cursor));
            (waveform_offset, cursor) = (if lf_has_waveform format then (Some cursor, cursor + 29) else (None, cursor))
        in Ok \<lparr>el_color_offset = color_offset, el_nir_offset = nir_offset,
               el_waveform_offset = waveform_offset, el_extra_offset = cursor,
               el_extra_len = unat (lf_extra_bytes format)\<rparr>)"

definition slice_at :: "u8 list \<Rightarrow> nat \<Rightarrow> nat \<Rightarrow> u8 list result" where
  "slice_at buf off n =
     (if off + n \<le> length buf then Ok (bslice buf off n) else Err (Panic ''slice index out of range''))"

definition u8_at :: "u8 list \<Rightarrow> nat \<Rightarrow> u8 result" where
  "u8_at buf off = (if off < length buf then Ok (buf ! off) else Err (Panic ''index out of bounds''))"

definition u16_at :: "u8 list \<Rightarrow> nat \<Rightarrow> u16 result" where
  "u16_at buf off = bind_res (slice_at buf off 2) (\<lambda>bs. Ok (u16_from_le bs))"

definition i16_at :: "u8 list \<Rightarrow> nat \<Rightarrow> i16 result" where
  "i16_at buf off = bind_res (slice_at buf off 2) (\<lambda>bs. Ok (u16_from_le bs))"

definition u32_at :: "u8 list \<Rightarrow> nat \<Rightarrow> u32 result" where
  "u32_at buf off = bind_res (slice_at buf off 4) (\<lambda>bs. Ok (u32_from_le bs))"

definition i32_at :: "u8 list \<Rightarrow> nat \<Rightarrow> i32 result" where
  "i32_at buf off = bind_res (slice_at buf off 4) (\<lambda>bs. Ok (u32_from_le bs))"

definition f32_at :: "u8 list \<Rightarrow> nat \<Rightarrow> f32 result" where
  "f32_at buf off = bind_res (slice_at buf off 4) (\<lambda>bs. Ok (u32_from_le bs))"

definition u64_at :: "u8 list \<Rightarrow> nat \<Rightarrow> u64 result" where
  "u64_at buf off = bind_res (slice_at buf off 8) (\<lambda>bs. Ok (u64_from_le bs))"

definition f64_at :: "u8 list \<Rightarrow> nat \<Rightarrow> f64 result" where
  "f64_at buf off = bind_res (slice_at buf off 8) (\<lambda>bs. Ok (u64_from_le bs))"

section \<open>Filling columns\<close>

record column_append_context =
  ca_buf :: "u8 list"
  ca_layout :: point_layout
  ca_xyz :: xyz
  ca_classification :: u8
  ca_is_overlap :: bool

text \<open>
  The arms of the match on dimension and data: a value is pushed on a column of its type, and every
  other combination is the error of the last arm, which reads nothing of the record.
\<close>

definition incompatible :: "'a result" where
  "incompatible = Err (InvalidData ''column {:?} has incompatible data type {:?}'')"

definition push_f64 :: "f64 result \<Rightarrow> column_data \<Rightarrow> column_data result" where
  "push_f64 v data = (case data of F64 values \<Rightarrow> bind_res v (\<lambda>x. Ok (F64 (values @ [x]))) | _ \<Rightarrow> incompatible)"

definition push_f32 :: "f32 result \<Rightarrow> column_data \<Rightarrow> column_data result" where
  "push_f32 v data = (case data of F32 values \<Rightarrow> bind_res v (\<lambda>x. Ok (F32 (values @ [x]))) | _ \<Rightarrow> incompatible)"

definition push_u64 :: "u64 result \<Rightarrow> column_data \<Rightarrow> column_data result" where
  "push_u64 v data = (case data of U64 values \<Rightarrow> bind_res v (\<lambda>x. Ok (U64 (values @ [x]))) | _ \<Rightarrow> incompatible)"

definition push_u32 :: "u32 result \<Rightarrow> column_data \<Rightarrow> column_data result" where
  "push_u32 v data = (case data of U32 values \<Rightarrow> bind_res v (\<lambda>x. Ok (U32 (values @ [x]))) | _ \<Rightarrow> incompatible)"

definition push_u16 :: "u16 result \<Rightarrow> column_data \<Rightarrow> column_data result" where
  "push_u16 v data = (case data of U16 values \<Rightarrow> bind_res v (\<lambda>x. Ok (U16 (values @ [x]))) | _ \<Rightarrow> incompatible)"

definition push_u8 :: "u8 result \<Rightarrow> column_data \<Rightarrow> column_data result" where
  "push_u8 v data = (case data of U8 values \<Rightarrow> bind_res v (\<lambda>x. Ok (U8 (values @ [x]))) | _ \<Rightarrow> incompatible)"

definition push_bool :: "bool result \<Rightarrow> column_data \<Rightarrow> column_data result" where
  "push_bool v data = (case data of Bool values \<Rightarrow> bind_res v (\<lambda>x. Ok (Bool (values @ [x]))) | _ \<Rightarrow> incompatible)"

definition map_ok :: "('a \<Rightarrow> 'b) \<Rightarrow> 'a result \<Rightarrow> 'b result" where
  "map_ok g r = bind_res r (\<lambda>x. Ok (g x))"

text \<open>\<^verbatim>\<open>offset.map_or(0, |o| read(buf, o))\<close>\<close>

definition opt_at :: "nat option \<Rightarrow> (nat \<Rightarrow> 'a::zero result) \<Rightarrow> 'a result" where
  "opt_at off rd = (case off of None \<Rightarrow> Ok 0 | Some k \<Rightarrow> rd k)"

definition append_column :: "column_spec \<Rightarrow> column_append_context \<Rightarrow> column_data \<Rightarrow> column_data result" where
  "append_column sp c data =
     (let buf = ca_buf c; l = ca_layout c
      in case sp_dimension sp of
        Dim_X \<Rightarrow> push_f64 (Ok (fst (ca_xyz c))) data
      | Dim_Y \<Rightarrow> push_f64 (Ok (fst (snd (ca_xyz c)))) data
      | Dim_Z \<Rightarrow> push_f64 (Ok (snd (snd (ca_xyz c)))) data
      | Dim_Intensity \<Rightarrow> push_u16 (u16_at buf 12) data
      | Dim_ReturnNumber \<Rightarrow> push_u8 (map_ok (\<lambda>b. b AND 15) (u8_at buf 14)) data
      | Dim_NumberOfReturns \<Rightarrow> push_u8 (map_ok (\<lambda>b. drop_bit 4 b AND 15) (u8_at buf 14)) data
      | Dim_Classification \<Rightarrow> push_u8 (Ok (ca_classification c)) data
      | Dim_ScanDirectionFlag \<Rightarrow> push_bool (map_ok (\<lambda>b. drop_bit 6 b AND 1 = 1) (u8_at buf 15)) data
      | Dim_EdgeOfFlightLine \<Rightarrow> push_bool (map_ok (\<lambda>b. drop_bit 7 b = 1) (u8_at buf 15)) data
      | Dim_ScanAngle \<Rightarrow> push_f32 (map_ok (\<lambda>w. fl_mul binary32 (fl_of_int binary32 (sint w)) LAS_14_SCAN_ANGLE_SCALE)
          (i16_at buf 18)) data
      | Dim_UserData \<Rightarrow> push_u8 (u8_at buf 17) data
      | Dim_PointSourceId \<Rightarrow> push_u16 (u16_at buf 20) data
      | Dim_Synthetic \<Rightarrow> push_bool (map_ok (\<lambda>b. b AND 1 = 1) (u8_at buf 15)) data
      | Dim_KeyPoint \<Rightarrow> push_bool (map_ok (\<lambda>b. b AND 2 = 2) (u8_at buf 15)) data
      | Dim_Withheld \<Rightarrow> push_bool (map_ok (\<lambda>b. b AND 4 = 4) (u8_at buf 15)) data
      | Dim_Overlap \<Rightarrow> push_bool (Ok (ca_is_overlap c)) data
      | Dim_ScanChannel \<Rightarrow> push_u8 (map_ok (\<lambda>b. drop_bit 4 b AND 3) (u8_at buf 15)) data
      | Dim_GpsTime \<Rightarrow> push_f64 (f64_at buf 22) data
      | Dim_Red \<Rightarrow> push_u16 (opt_at (el_color_offset l) (u16_at buf)) data
      | Dim_Green \<Rightarrow> push_u16 (opt_at (el_color_offset l) (\<lambda>k. u16_at buf (k + 2))) data
      | Dim_Blue \<Rightarrow> push_u16 (opt_at (el_color_offset l) (\<lambda>k. u16_at buf (k + 4))) data
      | Dim_Nir \<Rightarrow> push_u16 (opt_at (el_nir_offset l) (u16_at buf)) data
      | Dim_WaveformPacketDescriptorIndex \<Rightarrow> push_u8 (opt_at (el_waveform_offset l) (u8_at buf)) data
      | Dim_WaveformPacketByteOffset \<Rightarrow> push_u64 (opt_at (el_waveform_offset l) (\<lambda>k. u64_at buf (k + 1))) data
      | Dim_WaveformPacketSize \<Rightarrow> push_u32 (opt_at (el_waveform_offset l) (\<lambda>k. u32_at buf (k + 9))) data
      | Dim_WavePacketReturnPointWaveformLocation \<Rightarrow>
          push_f32 (opt_at (el_waveform_offset l) (\<lambda>k. f32_at buf (k + 13))) data
      | Dim_ExtraBytes \<Rightarrow>
          (case data of
             U8 values \<Rightarrow>
               bind_res (ok_or (extra_byte_width sp) (InvalidData ''ExtraBytes column requires a non-zero byte width'')) (\<lambda>w.
               if el_extra_len l \<noteq> w
               then Err (InvalidData ''ExtraBytes point has {} bytes, expected {width}'')
               else bind_res (slice_at buf (el_extra_offset l) w) (\<lambda>bs. Ok (U8 (values @ bs))))
           | _ \<Rightarrow> incompatible))"

definition append_columns ::
  "u8 list \<Rightarrow> point_layout \<Rightarrow> xyz \<Rightarrow> column list \<Rightarrow> column list result" where
  "append_columns buf l p columns =
     bind_res (u8_at buf 16) (\<lambda>raw_class.
     bind_res (u8_at buf 15) (\<lambda>flags.
     let context = \<lparr>ca_buf = buf, ca_layout = l, ca_xyz = p,
           ca_classification = (if raw_class = OVERLAP_CLASSIFICATION_CODE then 1 else raw_class),
           ca_is_overlap = (flags AND 8 = 8)\<rparr>
     in map_res (\<lambda>(sp, data). bind_res (append_column sp context data) (\<lambda>data. Ok (sp, data))) columns))"

section \<open>The columns of a selection\<close>

text \<open>The capacity only matters for the overflow check.\<close>

definition empty_column :: "nat \<Rightarrow> column_spec \<Rightarrow> column result" where
  "empty_column capacity sp =
     bind_res (case sp_scalar sp of
         Ty_F64 \<Rightarrow> Ok (F64 []) | Ty_F32 \<Rightarrow> Ok (F32 []) | Ty_I64 \<Rightarrow> Ok (I64 []) | Ty_I32 \<Rightarrow> Ok (I32 [])
       | Ty_I16 \<Rightarrow> Ok (I16 []) | Ty_I8 \<Rightarrow> Ok (I8 []) | Ty_U64 \<Rightarrow> Ok (U64 []) | Ty_U32 \<Rightarrow> Ok (U32 [])
       | Ty_U16 \<Rightarrow> Ok (U16 [])
       | Ty_U8 \<Rightarrow>
           bind_res (if sp_dimension sp = Dim_ExtraBytes then
               bind_res (ok_or (extra_byte_width sp) (InvalidInput ''ExtraBytes column requires a non-zero byte width'')) (\<lambda>w.
               ok_or (checked_mul_usize capacity w) (InvalidInput ''ExtraBytes column capacity exceeds usize range''))
             else Ok capacity) (\<lambda>_. Ok (U8 []))
       | Ty_Bool \<Rightarrow> Ok (Bool [])) (\<lambda>data. Ok (sp, data))"

definition selected_column_builders ::
  "las_format \<Rightarrow> column_selection \<Rightarrow> nat \<Rightarrow> column list result" where
  "selected_column_builders format selection capacity =
     bind_res (layout_for_las_format format) (\<lambda>specs.
     map_res (empty_column capacity) (filter (\<lambda>sp. selection_contains selection (sp_dimension sp)) specs))"

end
