(* ===== verification/Record_Columns.thy ===== *)
theory Record_Columns
  imports Point_Record
begin

text \<open>
  What the columns of a record are, as total functions of its bytes, and the equivalence with the
  checked extraction; then the round trip of the writer's records through the reader's columns.
\<close>

section \<open>The layout of a record\<close>

definition record_length :: "las_format \<Rightarrow> nat" where
  "record_length format = 30 + (if lf_has_color format then 6 else 0) + (if lf_has_nir format then 2 else 0)
     + (if lf_has_waveform format then 29 else 0) + unat (lf_extra_bytes format)"

definition layout_of :: "las_format \<Rightarrow> point_layout" where
  "layout_of format =
     (let c = (if lf_has_color format then 6 else 0); n = (if lf_has_nir format then 2 else 0);
          w = (if lf_has_waveform format then 29 else 0)
      in \<lparr>el_color_offset = (if lf_has_color format then Some 30 else None),
          el_nir_offset = (if lf_has_nir format then Some (30 + c) else None),
          el_waveform_offset = (if lf_has_waveform format then Some (30 + c + n) else None),
          el_extra_offset = 30 + c + n + w, el_extra_len = unat (lf_extra_bytes format)\<rparr>)"

lemma layout_for_format_eq:
  "layout_for_format format =
    (if lf_is_extended format then Ok (layout_of format)
     else Err (Unsupported ''COPC column reads require extended point formats (6-10)''))"
  by (simp add: layout_for_format_def layout_of_def Let_def)

lemma layout_of_fits:
  "el_color_offset (layout_of format) = Some k \<Longrightarrow> k + 6 \<le> record_length format"
  "el_nir_offset (layout_of format) = Some k \<Longrightarrow> k + 2 \<le> record_length format"
  "el_waveform_offset (layout_of format) = Some k \<Longrightarrow> k + 29 \<le> record_length format"
  "el_extra_offset (layout_of format) + unat (lf_extra_bytes format) = record_length format"
  "el_extra_len (layout_of format) = unat (lf_extra_bytes format)"
  by (auto simp: layout_of_def record_length_def Let_def split: if_splits)

section \<open>The columns of one record\<close>

definition get_u16 :: "u8 list \<Rightarrow> nat \<Rightarrow> u16" where "get_u16 buf k = u16_from_le (bslice buf k 2)"
definition get_u32 :: "u8 list \<Rightarrow> nat \<Rightarrow> u32" where "get_u32 buf k = u32_from_le (bslice buf k 4)"
definition get_u64 :: "u8 list \<Rightarrow> nat \<Rightarrow> u64" where "get_u64 buf k = u64_from_le (bslice buf k 8)"

definition opt_get :: "nat option \<Rightarrow> (nat \<Rightarrow> 'a::zero) \<Rightarrow> 'a" where
  "opt_get off g = (case off of None \<Rightarrow> 0 | Some k \<Rightarrow> g k)"

definition class_of :: "u8 \<Rightarrow> u8" where
  "class_of c = (if c = OVERLAP_CLASSIFICATION_CODE then 1 else c)"

definition scan_degrees :: "i16 \<Rightarrow> f32" where
  "scan_degrees w = fl_mul binary32 (fl_of_int binary32 (sint w)) LAS_14_SCAN_ANGLE_SCALE"

definition record_data :: "las_format \<Rightarrow> u8 list \<Rightarrow> xyz \<Rightarrow> las_dimension \<Rightarrow> column_data" where
  "record_data format buf p d =
     (let l = layout_of format
      in case d of
        Dim_X \<Rightarrow> F64 [fst p] | Dim_Y \<Rightarrow> F64 [fst (snd p)] | Dim_Z \<Rightarrow> F64 [snd (snd p)]
      | Dim_Intensity \<Rightarrow> U16 [get_u16 buf 12]
      | Dim_ReturnNumber \<Rightarrow> U8 [buf ! 14 AND 15]
      | Dim_NumberOfReturns \<Rightarrow> U8 [drop_bit 4 (buf ! 14) AND 15]
      | Dim_Classification \<Rightarrow> U8 [class_of (buf ! 16)]
      | Dim_ScanDirectionFlag \<Rightarrow> Bool [drop_bit 6 (buf ! 15) AND 1 = 1]
      | Dim_EdgeOfFlightLine \<Rightarrow> Bool [drop_bit 7 (buf ! 15) = 1]
      | Dim_ScanAngle \<Rightarrow> F32 [scan_degrees (get_u16 buf 18)]
      | Dim_UserData \<Rightarrow> U8 [buf ! 17]
      | Dim_PointSourceId \<Rightarrow> U16 [get_u16 buf 20]
      | Dim_Synthetic \<Rightarrow> Bool [buf ! 15 AND 1 = 1]
      | Dim_KeyPoint \<Rightarrow> Bool [buf ! 15 AND 2 = 2]
      | Dim_Withheld \<Rightarrow> Bool [buf ! 15 AND 4 = 4]
      | Dim_Overlap \<Rightarrow> Bool [buf ! 15 AND 8 = 8]
      | Dim_ScanChannel \<Rightarrow> U8 [drop_bit 4 (buf ! 15) AND 3]
      | Dim_GpsTime \<Rightarrow> F64 [get_u64 buf 22]
      | Dim_Red \<Rightarrow> U16 [opt_get (el_color_offset l) (get_u16 buf)]
      | Dim_Green \<Rightarrow> U16 [opt_get (el_color_offset l) (\<lambda>k. get_u16 buf (k + 2))]
      | Dim_Blue \<Rightarrow> U16 [opt_get (el_color_offset l) (\<lambda>k. get_u16 buf (k + 4))]
      | Dim_Nir \<Rightarrow> U16 [opt_get (el_nir_offset l) (get_u16 buf)]
      | Dim_WaveformPacketDescriptorIndex \<Rightarrow> U8 [opt_get (el_waveform_offset l) (\<lambda>k. buf ! k)]
      | Dim_WaveformPacketByteOffset \<Rightarrow> U64 [opt_get (el_waveform_offset l) (\<lambda>k. get_u64 buf (k + 1))]
      | Dim_WaveformPacketSize \<Rightarrow> U32 [opt_get (el_waveform_offset l) (\<lambda>k. get_u32 buf (k + 9))]
      | Dim_WavePacketReturnPointWaveformLocation \<Rightarrow>
          F32 [opt_get (el_waveform_offset l) (\<lambda>k. get_u32 buf (k + 13))]
      | Dim_ExtraBytes \<Rightarrow> U8 (bslice buf (el_extra_offset l) (unat (lf_extra_bytes format))))"

fun data_append :: "column_data \<Rightarrow> column_data \<Rightarrow> column_data" where
  "data_append (F64 xs) (F64 ys) = F64 (xs @ ys)"
| "data_append (F32 xs) (F32 ys) = F32 (xs @ ys)"
| "data_append (U64 xs) (U64 ys) = U64 (xs @ ys)"
| "data_append (U32 xs) (U32 ys) = U32 (xs @ ys)"
| "data_append (U16 xs) (U16 ys) = U16 (xs @ ys)"
| "data_append (U8 xs) (U8 ys) = U8 (xs @ ys)"
| "data_append (Bool xs) (Bool ys) = Bool (xs @ ys)"
| "data_append xs _ = xs"

lemma data_scalarD:
  "data_scalar data = Ty_F64 \<Longrightarrow> \<exists>xs. data = F64 xs" "data_scalar data = Ty_F32 \<Longrightarrow> \<exists>xs. data = F32 xs"
  "data_scalar data = Ty_U64 \<Longrightarrow> \<exists>xs. data = U64 xs" "data_scalar data = Ty_U32 \<Longrightarrow> \<exists>xs. data = U32 xs"
  "data_scalar data = Ty_U16 \<Longrightarrow> \<exists>xs. data = U16 xs" "data_scalar data = Ty_U8 \<Longrightarrow> \<exists>xs. data = U8 xs"
  "data_scalar data = Ty_Bool \<Longrightarrow> \<exists>xs. data = Bool xs"
  by (cases data; simp add: data_scalar_def)+

lemma at_in_range:
  "k + 2 \<le> length buf \<Longrightarrow> u16_at buf k = Ok (get_u16 buf k)"
  "k + 2 \<le> length buf \<Longrightarrow> i16_at buf k = Ok (get_u16 buf k)"
  "k + 4 \<le> length buf \<Longrightarrow> u32_at buf k = Ok (get_u32 buf k)"
  "k + 4 \<le> length buf \<Longrightarrow> i32_at buf k = Ok (get_u32 buf k)"
  "k + 4 \<le> length buf \<Longrightarrow> f32_at buf k = Ok (get_u32 buf k)"
  "k + 8 \<le> length buf \<Longrightarrow> u64_at buf k = Ok (get_u64 buf k)"
  "k + 8 \<le> length buf \<Longrightarrow> f64_at buf k = Ok (get_u64 buf k)"
  "k < length buf \<Longrightarrow> u8_at buf k = Ok (buf ! k)"
  by (simp_all add: u16_at_def i16_at_def u32_at_def i32_at_def f32_at_def u64_at_def f64_at_def u8_at_def
      slice_at_def get_u16_def get_u32_def get_u64_def)

lemma opt_at_in_range:
  assumes "\<And>k. off = Some k \<Longrightarrow> rd k = Ok (g k)"
  shows "opt_at off rd = Ok (opt_get off g)"
  using assms by (cases off) (simp_all add: opt_at_def opt_get_def)

lemma map_ok_Ok [simp]: "map_ok g (Inr x) = Inr (g x)"
  by (simp add: map_ok_def)

lemmas push_simps = push_f64_def push_f32_def push_u64_def push_u32_def push_u16_def push_u8_def push_bool_def

text \<open>The specification a column of a dimension must have.\<close>

definition spec_of_format :: "las_format \<Rightarrow> column_spec \<Rightarrow> bool" where
  "spec_of_format format sp \<longleftrightarrow>
     (if sp_dimension sp = Dim_ExtraBytes
      then sp = spec_extra_bytes (unat (lf_extra_bytes format)) \<and> 0 < unat (lf_extra_bytes format)
      else Some (sp_scalar sp) = default_scalar (sp_dimension sp) \<and> sp_byte_width sp = None)"

lemma format_specs_of_format: "list_all (spec_of_format format) (format_specs format)"
proof -
  have "list_all (\<lambda>d. spec_of_format format (default_spec d)) (format_dims format)"
    unfolding list.pred_set
  proof
    fix d assume "d \<in> set (format_dims format)"
    then have "d \<noteq> Dim_ExtraBytes" using format_dims_props(2) [of format] by metis
    then show "spec_of_format format (default_spec d)" by (simp add: spec_of_format_def)
  qed
  moreover have "spec_of_format format (spec_extra_bytes (unat (lf_extra_bytes format)))"
    if "0 < lf_extra_bytes format"
    using that by (simp add: spec_of_format_def word_less_nat_alt) (simp add: spec_extra_bytes_def)
  ultimately show ?thesis by (simp add: format_specs_def list.pred_map comp_def)
qed

definition context_of :: "las_format \<Rightarrow> u8 list \<Rightarrow> xyz \<Rightarrow> column_append_context" where
  "context_of format buf p = \<lparr>ca_buf = buf, ca_layout = layout_of format, ca_xyz = p,
     ca_classification = class_of (buf ! 16), ca_is_overlap = (buf ! 15 AND 8 = 8)\<rparr>"

lemma append_column_exact:
  assumes len: "length buf = record_length format" and sp: "spec_of_format format sp"
    and ty: "data_scalar data = sp_scalar sp"
  shows "append_column sp (context_of format buf p) data =
    Ok (data_append data (record_data format buf p (sp_dimension sp)))"
proof -
  have b: "30 \<le> length buf" using len by (simp add: record_length_def)
  note base [simp] = at_in_range [where buf = buf]
  note fits = layout_of_fits [of format]
  have col: "opt_at (el_color_offset (layout_of format)) (\<lambda>k. u16_at buf (k + i)) =
      Ok (opt_get (el_color_offset (layout_of format)) (\<lambda>k. get_u16 buf (k + i)))" if "i \<le> 4" for i
    by (rule opt_at_in_range) (use fits(1) len that in fastforce)
  have col0: "opt_at (el_color_offset (layout_of format)) (u16_at buf) =
      Ok (opt_get (el_color_offset (layout_of format)) (get_u16 buf))" using col [of 0] by simp
  have nir: "opt_at (el_nir_offset (layout_of format)) (u16_at buf) =
      Ok (opt_get (el_nir_offset (layout_of format)) (get_u16 buf))"
    by (rule opt_at_in_range) (use fits(2) len in fastforce)
  have wave:
    "opt_at (el_waveform_offset (layout_of format)) (u8_at buf) =
      Ok (opt_get (el_waveform_offset (layout_of format)) (\<lambda>k. buf ! k))"
    "opt_at (el_waveform_offset (layout_of format)) (\<lambda>k. u64_at buf (k + 1)) =
      Ok (opt_get (el_waveform_offset (layout_of format)) (\<lambda>k. get_u64 buf (k + 1)))"
    "opt_at (el_waveform_offset (layout_of format)) (\<lambda>k. u32_at buf (k + 9)) =
      Ok (opt_get (el_waveform_offset (layout_of format)) (\<lambda>k. get_u32 buf (k + 9)))"
    "opt_at (el_waveform_offset (layout_of format)) (\<lambda>k. f32_at buf (k + 13)) =
      Ok (opt_get (el_waveform_offset (layout_of format)) (\<lambda>k. get_u32 buf (k + 13)))"
    by (rule opt_at_in_range, use fits(3) len in fastforce)+
  have extra: "slice_at buf (el_extra_offset (layout_of format)) (unat (lf_extra_bytes format)) =
      Ok (bslice buf (el_extra_offset (layout_of format)) (unat (lf_extra_bytes format)))"
    using fits(4) len by (simp add: slice_at_def)
  note ops = append_column_def context_of_def Let_def record_data_def scan_degrees_def push_simps
  show ?thesis
  proof (cases "sp_dimension sp = Dim_ExtraBytes")
    case True
    then have w: "sp = spec_extra_bytes (unat (lf_extra_bytes format))" "0 < unat (lf_extra_bytes format)"
      using sp by (simp_all add: spec_of_format_def)
    then have "data_scalar data = Ty_U8" using ty by (simp add: spec_extra_bytes_def)
    then obtain xs where "data = U8 xs" using data_scalarD by blast
    then show ?thesis using True w(1) extra_byte_width_extra [OF w(2)] extra fits(5) by (simp add: ops)
  next
    case False
    then have d: "Some (data_scalar data) = default_scalar (sp_dimension sp)"
      using sp ty by (simp add: spec_of_format_def)
    show ?thesis
      using d False b col [of 2] col [of 4] col0 nir wave
      by (cases "sp_dimension sp") (auto simp: default_scalar_def ops dest!: data_scalarD)
  qed
qed

end
