(* ===== verification/Point_Query.thy ===== *)
theory Point_Query
  imports Hierarchy_Walk Las_Types Bounds Copc_Info
begin

text \<open>
  The queries of \<^verbatim>\<open>copc-reader/src/points.rs\<close>: validation of a query, the level range of a LOD
  selection, the choice of the chunks to read and the box of a voxel; and the point format and
  transforms of a file from \<^verbatim>\<open>lib.rs\<close>. Parameters: \<open>log2\<close> is \<^verbatim>\<open>f64::log2\<close>, \<open>format_new\<close> and
  \<open>format_len\<close> are \<^verbatim>\<open>las::point::Format::new\<close> and \<^verbatim>\<open>len\<close>. Integer overflow wraps (release semantics).
\<close>

section \<open>Format and transforms of a file\<close>

definition point_format_for ::
  "(u8 \<Rightarrow> string + las_format) \<Rightarrow> (las_format \<Rightarrow> u16) \<Rightarrow> las_header \<Rightarrow> las_format result" where
  "point_format_for format_new format_len header =
     (let format_id = lh_point_data_record_format header AND 0x3F
      in if \<not> (6 \<le> format_id \<and> format_id \<le> 8)
         then Err (Unsupported ''COPC requires LAS point format 6, 7, or 8; found {format_id}'')
         else
           bind_res (case format_new format_id of Inl e \<Rightarrow> Err (Las e) | Inr f \<Rightarrow> Ok f) (\<lambda>format.
           let base_len = format_len format
           in if lh_point_data_record_length header < base_len
              then Err (InvalidData ''point record length {} is smaller than point format {} base length {}'')
              else Ok (format\<lparr>lf_extra_bytes := lh_point_data_record_length header - base_len\<rparr>)))"

text \<open>\<^verbatim>\<open>las::Transform\<close> and the vector of the three axes.\<close>

record las_transform =
  tr_scale :: f64
  tr_offset :: f64

type_synonym las_transforms = "las_transform \<times> las_transform \<times> las_transform"

definition transforms_for :: "las_header \<Rightarrow> las_transforms" where
  "transforms_for h =
     (case (lh_scale h, lh_offset h) of ((sx, sy, sz), (ox, oy, oz)) \<Rightarrow>
        (\<lparr>tr_scale = sx, tr_offset = ox\<rparr>, \<lparr>tr_scale = sy, tr_offset = oy\<rparr>, \<lparr>tr_scale = sz, tr_offset = oz\<rparr>))"

section \<open>Queries\<close>

datatype lod_selection =
    Lod_All
  | Lod_Resolution f64
  | Lod_Level i32
  | Lod_LevelMinMax i32 i32

datatype bounds_selection =
    Bounds_All
  | Bounds_Within bounds

record point_query =
  pq_lod :: lod_selection
  pq_bounds :: bounds_selection

definition query_all :: point_query where
  "query_all = \<lparr>pq_lod = Lod_All, pq_bounds = Bounds_All\<rparr>"

definition query_new :: "lod_selection \<Rightarrow> bounds_selection \<Rightarrow> point_query" where
  "query_new lod b = \<lparr>pq_lod = lod, pq_bounds = b\<rparr>"

definition validate_query :: "point_query \<Rightarrow> unit result" where
  "validate_query q =
     (case pq_bounds q of
        Bounds_All \<Rightarrow> Ok ()
      | Bounds_Within b \<Rightarrow>
          (case (b_min b, b_max b) of ((x0, y0, z0), (x1, y1, z1)) \<Rightarrow>
             bind_res (fold_res (\<lambda>v _. if \<not> f64_is_finite v
                 then Err (InvalidInput ''query bounds {name} must be finite, got {value}'') else Ok ())
               [x0, y0, z0, x1, y1, z1] ()) (\<lambda>_.
             fold_res (\<lambda>(lo, hi) _. if f64_lt hi lo
                 then Err (InvalidInput ''query bounds {axis} minimum {min} exceeds maximum {max}'') else Ok ())
               [(x0, x1), (y0, y1), (z0, z1)] ())))"

definition validate_level :: "i32 \<Rightarrow> unit result" where
  "validate_level level =
     (if sint level < 0 then Err (InvalidInput ''LOD level must be non-negative, got {level}'') else Ok ())"

definition i32_max :: i32 where "i32_max = word_of_int (2 ^ 31 - 1)"

definition level_range :: "(f64 \<Rightarrow> f64) \<Rightarrow> lod_selection \<Rightarrow> copc_info \<Rightarrow> (i32 \<times> i32) result" where
  "level_range log2 selection info =
     (case selection of
        Lod_All \<Rightarrow> Ok (0, i32_max)
      | Lod_Resolution resolution \<Rightarrow>
          if \<not> f64_is_finite resolution \<or> f64_le resolution f64_zero
          then Err (InvalidInput ''resolution must be finite and positive, got {resolution}'')
          else if \<not> f64_is_finite (ci_spacing info) \<or> f64_le (ci_spacing info) f64_zero
          then Err (InvalidData ''COPC spacing must be finite and positive, got {}'')
          else
            let steps = word_of_int (fl_to_int binary64 (- (2 ^ 63)) (2 ^ 63 - 1)
                  (fl_ceil binary64 (log2 (f64_div (ci_spacing info) resolution)))) + (1 :: 64 word);
                level_max = min (max (sint steps) 1) (2 ^ 31 - 1)
            in Ok (0, word_of_int level_max)
      | Lod_Level level \<Rightarrow>
          bind_res (validate_level level) (\<lambda>_.
          bind_res (ok_or (checked_add_i32 level 1) (InvalidInput ''LOD level {level} is too large'')) (\<lambda>max_level.
          Ok (level, max_level)))
      | Lod_LevelMinMax lo hi \<Rightarrow>
          bind_res (validate_level lo) (\<lambda>_.
          bind_res (validate_level hi) (\<lambda>_.
          if sint hi < sint lo then Err (InvalidInput ''LOD max {max} is smaller than min {min}'')
          else Ok (lo, hi))))"

definition voxel_bounds :: "voxel_key \<Rightarrow> copc_info \<Rightarrow> bounds result" where
  "voxel_bounds key info =
     bind_res (vk_validate key) (\<lambda>_.
     case ci_center info of (cx, cy, cz) \<Rightarrow>
     let side = f64_div (f64_mul (ci_halfsize info) f64_two) (f64_powi2 (sint (vk_level key)));
         (rx, ry, rz) = (f64_sub cx (ci_halfsize info), f64_sub cy (ci_halfsize info), f64_sub cz (ci_halfsize info));
         (mx, my, mz) = (f64_add rx (f64_mul (f64_of_int (sint (vk_x key))) side),
                         f64_add ry (f64_mul (f64_of_int (sint (vk_y key))) side),
                         f64_add rz (f64_mul (f64_of_int (sint (vk_z key))) side))
     in Ok (bounds_new (mx, my, mz) (f64_add mx side, f64_add my side, f64_add mz side)))"

text \<open>The loop over the entries, with the chunks found so far.\<close>

definition select_step ::
  "copc_info \<Rightarrow> i32 \<times> i32 \<Rightarrow> bounds option \<Rightarrow> entry \<Rightarrow> entry list \<Rightarrow> entry list result" where
  "select_step info levels query_bounds e chunks =
     (if \<not> has_point_data e then Ok chunks
      else if sint (e_byte_size e) \<le> 0 then Err (InvalidData ''point chunk {:?} has invalid byte size {}'')
      else if \<not> (sint (fst levels) \<le> sint (vk_level (e_key e)) \<and> sint (vk_level (e_key e)) < sint (snd levels))
      then Ok chunks
      else case query_bounds of
          Some b \<Rightarrow>
            bind_res (voxel_bounds (e_key e) info) (\<lambda>node_bounds.
            if \<not> intersects node_bounds b then Ok chunks else Ok (chunks @ [e]))
        | None \<Rightarrow> Ok (chunks @ [e]))"

definition select_point_chunks_from ::
  "(f64 \<Rightarrow> f64) \<Rightarrow> entry list \<Rightarrow> copc_info \<Rightarrow> point_query \<Rightarrow> entry list result" where
  "select_point_chunks_from log2 es info q =
     bind_res (validate_query q) (\<lambda>_.
     bind_res (level_range log2 (pq_lod q) info) (\<lambda>levels.
     let query_bounds = (case pq_bounds q of Bounds_All \<Rightarrow> None | Bounds_Within b \<Rightarrow> Some b)
     in bind_res (fold_res (select_step info levels query_bounds) es []) (\<lambda>chunks.
        Ok (sort_key (\<lambda>e. (e_offset e, e_key e)) chunks))))"

definition select_point_chunks :: "(f64 \<Rightarrow> f64) \<Rightarrow> 'laz copc_file \<Rightarrow> point_query \<Rightarrow> entry list result" where
  "select_point_chunks log2 f q =
     select_point_chunks_from log2 (hierarchy_values (cf_hierarchy f)) (cf_copc_info f) q"

definition usize_try_from_i32 :: "i32 \<Rightarrow> nat option" where
  "usize_try_from_i32 x = (if 0 \<le> sint x then Some (nat (sint x)) else None)"

definition total_candidate_points :: "entry list \<Rightarrow> nat result" where
  "total_candidate_points es =
     fold_res (\<lambda>e total.
       bind_res (ok_or (usize_try_from_i32 (e_point_count e)) (InvalidData ''negative point count {} for {:?}'')) (\<lambda>count.
       ok_or (checked_add_usize total count) (InvalidData ''selected point count overflows usize''))) es 0"

section \<open>What a query selects\<close>

definition levels_contain :: "i32 \<times> i32 \<Rightarrow> voxel_key \<Rightarrow> bool" where
  "levels_contain levels k \<longleftrightarrow> sint (fst levels) \<le> sint (vk_level k) \<and> sint (vk_level k) < sint (snd levels)"

definition box_meets :: "copc_info \<Rightarrow> bounds_selection \<Rightarrow> voxel_key \<Rightarrow> bool" where
  "box_meets info bs k \<longleftrightarrow>
     (case bs of Bounds_All \<Rightarrow> True
      | Bounds_Within b \<Rightarrow> (case voxel_bounds k info of Inl _ \<Rightarrow> False | Inr nb \<Rightarrow> intersects nb b))"

definition wanted :: "copc_info \<Rightarrow> i32 \<times> i32 \<Rightarrow> bounds_selection \<Rightarrow> entry \<Rightarrow> bool" where
  "wanted info levels bs e \<longleftrightarrow>
     has_point_data e \<and> levels_contain levels (e_key e) \<and> box_meets info bs (e_key e)"

definition selection_bounds :: "bounds_selection \<Rightarrow> bounds option" where
  "selection_bounds bs = (case bs of Bounds_All \<Rightarrow> None | Bounds_Within b \<Rightarrow> Some b)"

lemma voxel_bounds_Ok: "vk_validate k = Ok () \<Longrightarrow> \<exists>nb. voxel_bounds k info = Ok nb"
  by (simp add: voxel_bounds_def Let_def split: prod.split)

lemma select_step_valid:
  assumes "entry_validate e = Ok ()"
  shows "select_step info levels (selection_bounds bs) e chunks =
    Ok (if wanted info levels bs e then chunks @ [e] else chunks)"
proof -
  have k: "vk_validate (e_key e) = Ok ()" using assms by (simp add: entry_validate_Ok_iff)
  obtain nb where nb: "voxel_bounds (e_key e) info = Ok nb" using voxel_bounds_Ok [OF k] by blast
  show ?thesis
  proof (cases "has_point_data e")
    case True
    then have "0 < sint (e_byte_size e)" using point_size_pos [OF assms] by blast
    then show ?thesis using True nb
      by (cases bs) (auto simp: select_step_def wanted_def levels_contain_def box_meets_def selection_bounds_def)
  next
    case False
    then show ?thesis by (simp add: select_step_def wanted_def)
  qed
qed

lemma fold_select_valid:
  assumes "list_all (\<lambda>e. entry_validate e = Ok ()) es"
  shows "fold_res (select_step info levels (selection_bounds bs)) es chunks =
    Ok (chunks @ filter (wanted info levels bs) es)"
  using assms by (induction es arbitrary: chunks) (simp_all add: select_step_valid)

lemma select_valid:
  assumes "list_all (\<lambda>e. entry_validate e = Ok ()) es"
  shows "select_point_chunks_from log2 es info q =
    bind_res (validate_query q) (\<lambda>_.
    bind_res (level_range log2 (pq_lod q) info) (\<lambda>levels.
    Ok (sort_key (\<lambda>e. (e_offset e, e_key e)) (filter (wanted info levels (pq_bounds q)) es))))"
  unfolding select_point_chunks_from_def Let_def
  using fold_select_valid [OF assms] by (simp add: selection_bounds_def)

text \<open>Disjoint chunks sorted by offset follow each other in the file.\<close>

lemma sorted_wrt_sym_iff:
  assumes "\<And>x y. P x y \<longleftrightarrow> P y x" "distinct xs"
  shows "sorted_wrt P xs \<longleftrightarrow> (\<forall>x \<in> set xs. \<forall>y \<in> set xs. x \<noteq> y \<longrightarrow> P x y)"
  using assms(2) by (induction xs) (use assms(1) in auto)

lemma sorted_wrt_conj: "sorted_wrt P xs \<Longrightarrow> sorted_wrt Q xs \<Longrightarrow> sorted_wrt (\<lambda>x y. P x y \<and> Q x y) xs"
  by (simp add: sorted_wrt_iff_nth_less)

lemma sorted_wrt_irrefl_distinct: "sorted_wrt P xs \<Longrightarrow> \<forall>x \<in> set xs. \<not> P x x \<Longrightarrow> distinct xs"
  by (induction xs) auto

lemma sort_disjoint_chunks:
  assumes v: "list_all (\<lambda>e. entry_validate e = Ok ()) es" and p: "list_all has_point_data es"
    and d: "sorted_wrt chunks_disjoint es"
  shows "sorted_wrt (\<lambda>a b. entry_hi a \<le> entry_lo b) (sort_key (\<lambda>e. (e_offset e, e_key e)) es)"
proof -
  let ?s = "sort_key (\<lambda>e. (e_offset e, e_key e)) es"
  have size: "entry_lo e < entry_hi e" if "e \<in> set es" for e
    using that v p point_size_pos [of e] by (auto simp: entry_lo_def entry_hi_def list_all_iff)
  have sym: "chunks_disjoint a b \<longleftrightarrow> chunks_disjoint b a" for a b by (auto simp: chunks_disjoint_def)
  have dist: "distinct es"
  proof (rule sorted_wrt_irrefl_distinct [OF d], rule)
    fix e assume "e \<in> set es"
    then show "\<not> chunks_disjoint e e" using size [of e] unfolding chunks_disjoint_def by linarith
  qed
  then have ds: "distinct ?s" by simp
  have "sorted_wrt chunks_disjoint ?s"
    using d unfolding sorted_wrt_sym_iff [of chunks_disjoint, OF sym ds]
      sorted_wrt_sym_iff [of chunks_disjoint, OF sym dist] by simp
  moreover have "sorted_wrt (\<lambda>a b. (e_offset a, e_key a) \<le> (e_offset b, e_key b)) ?s"
    using sorted_sort_key [of "\<lambda>e. (e_offset e, e_key e)" es] by (simp add: sorted_map)
  ultimately have "sorted_wrt (\<lambda>a b. chunks_disjoint a b \<and> (e_offset a, e_key a) \<le> (e_offset b, e_key b)) ?s"
    by (rule sorted_wrt_conj)
  then show ?thesis
  proof (rule sorted_wrt_mono_rel [rotated])
    fix a b assume a: "a \<in> set ?s" and b: "b \<in> set ?s"
      and r: "chunks_disjoint a b \<and> (e_offset a, e_key a) \<le> (e_offset b, e_key b)"
    from r have "e_offset a \<le> e_offset b" by auto
    then have "entry_lo a \<le> entry_lo b" by (simp add: entry_lo_def word_le_nat_alt)
    moreover have "entry_lo a < entry_hi a" "entry_lo b < entry_hi b" using size a b by simp_all
    ultimately show "entry_hi a \<le> entry_lo b" using r unfolding chunks_disjoint_def by linarith
  qed
qed

section \<open>Counting the points of a selection\<close>

lemma total_candidate_points_fold:
  assumes "list_all (\<lambda>e. 0 \<le> sint (e_point_count e)) es" "n + sum_list (map (\<lambda>e. nat (sint (e_point_count e))) es) \<le> usize_max"
  shows "fold_res (\<lambda>e total.
       bind_res (ok_or (usize_try_from_i32 (e_point_count e)) (InvalidData ''negative point count {} for {:?}'')) (\<lambda>count.
       ok_or (checked_add_usize total count) (InvalidData ''selected point count overflows usize''))) es n =
     Ok (n + sum_list (map (\<lambda>e. nat (sint (e_point_count e))) es))"
  using assms
proof (induction es arbitrary: n)
  case (Cons e es)
  then have "checked_add_usize n (nat (sint (e_point_count e))) = Some (n + nat (sint (e_point_count e)))"
    by (simp add: checked_add_usize_def)
  moreover have "usize_try_from_i32 (e_point_count e) = Some (nat (sint (e_point_count e)))"
    using Cons.prems(1) by (simp add: usize_try_from_i32_def)
  ultimately show ?case using Cons by (simp add: add.assoc)
qed simp

lemma unat_of_pos:
  assumes "0 < sint (w :: i32)"
  shows "unat w = nat (sint w)"
proof -
  have "sint (of_nat (nat (sint w)) :: i32) = int (nat (sint w))"
    using sint_in_range_i32 [of w] assms by (intro sint_of_small_nat) simp
  then have "w = of_nat (nat (sint w))" using assms by (intro sint_eqI) simp
  moreover have "unat (of_nat (nat (sint w)) :: i32) = nat (sint w)"
    using sint_in_range_i32 [of w] assms by (intro unat_of_nat_small) simp
  ultimately show ?thesis by simp
qed

lemma total_candidate_points_Ok:
  assumes "list_all has_point_data es" "sum_list (map entry_points es) < 2 ^ 64"
  shows "total_candidate_points es = Ok (sum_list (map entry_points es))"
proof -
  have "list_all (\<lambda>e. 0 \<le> sint (e_point_count e)) es"
    using assms(1) by (auto simp: list_all_iff has_point_data_def)
  moreover have eq: "map entry_points es = map (\<lambda>e. nat (sint (e_point_count e))) es"
    using assms(1) unat_of_pos by (auto simp: list_all_iff has_point_data_def entry_points_def)
  ultimately show ?thesis
    using total_candidate_points_fold [of es 0] assms(2) unfolding total_candidate_points_def eq
    by (simp add: usize_max_def)
qed

lemma sum_list_filter_le: "sum_list (map f (filter P xs)) \<le> (sum_list (map f xs) :: nat)"
  by (induction xs) auto

section \<open>Levels\<close>

lemma sint_i32_max [simp]: "sint i32_max = 2 ^ 31 - 1"
  unfolding i32_max_def by (rule sint_eq_take) simp_all

text \<open>The number of levels a resolution asks for, from \<open>k\<close>, the saturated ceiling of the logarithm.\<close>

definition resolution_levels :: "int \<Rightarrow> int" where
  "resolution_levels k = (if k = 2 ^ 63 - 1 then 1 else min (max (k + 1) 1) (2 ^ 31 - 1))"

lemma resolution_steps:
  assumes "- (2 ^ 63) \<le> k" "k \<le> 2 ^ 63 - 1"
  shows "sint (word_of_int (min (max (sint (word_of_int k + (1 :: 64 word))) 1) (2 ^ 31 - 1)) :: i32) = resolution_levels k"
proof (cases "k = 2 ^ 63 - 1")
  case True
  have w: "word_of_int k + (1 :: 64 word) = word_of_int (- (2 ^ 63))" unfolding True by simp
  have "sint (word_of_int (- (2 ^ 63)) :: 64 word) = - (2 ^ 63)" by simp
  then have "sint (word_of_int k + (1 :: 64 word)) = - (2 ^ 63)" unfolding w .
  then show ?thesis by (simp add: True resolution_levels_def)
next
  case False
  have w: "word_of_int k + (1 :: 64 word) = word_of_int (k + 1)" by simp
  have "sint (word_of_int (k + 1) :: 64 word) = k + 1"
    unfolding sint_sbintrunc' using assms False signed_take_bit_int_eq_self [of 63 "k + 1"] by simp
  then have s: "sint (word_of_int k + (1 :: 64 word)) = k + 1" unfolding w .
  show ?thesis unfolding s using False by (subst sint_eq_take) (auto simp: resolution_levels_def)
qed

lemma fl_to_int_range:
  "lo \<le> 0 \<Longrightarrow> 0 \<le> hi \<Longrightarrow> lo \<le> fl_to_int f lo hi a \<and> fl_to_int f lo hi a \<le> hi"
  by (auto simp: fl_to_int_def)

definition log_steps :: "(f64 \<Rightarrow> f64) \<Rightarrow> f64 \<Rightarrow> f64 \<Rightarrow> int" where
  "log_steps log2 spacing resolution =
     fl_to_int binary64 (- (2 ^ 63)) (2 ^ 63 - 1) (fl_ceil binary64 (log2 (f64_div spacing resolution)))"

definition positive_finite :: "f64 \<Rightarrow> bool" where
  "positive_finite v \<longleftrightarrow> f64_is_finite v \<and> \<not> f64_le v f64_zero"

text \<open>C24: the levels of a LOD selection, every case with its errors: all levels, one level, an
  interval of levels, or the levels up to one more than the rounded logarithm of spacing over
  resolution. When the quotient is so large that the logarithm saturates, the count wraps and
  only the root level is left.\<close>

theorem level_range_exact:
  "level_range log2 selection info = Ok (lo, hi) \<longleftrightarrow>
     (case selection of
        Lod_All \<Rightarrow> lo = 0 \<and> sint hi = 2 ^ 31 - 1
      | Lod_Resolution r \<Rightarrow> positive_finite r \<and> positive_finite (ci_spacing info) \<and> lo = 0 \<and>
          sint hi = resolution_levels (log_steps log2 (ci_spacing info) r)
      | Lod_Level level \<Rightarrow> 0 \<le> sint level \<and> lo = level \<and> sint hi = sint level + 1
      | Lod_LevelMinMax a b \<Rightarrow> 0 \<le> sint a \<and> sint a \<le> sint b \<and> lo = a \<and> hi = b)"
proof (cases selection)
  case Lod_All
  have "hi = i32_max \<longleftrightarrow> sint hi = 2 ^ 31 - 1" by (metis sint_eqI sint_i32_max)
  then show ?thesis using Lod_All by (auto simp: level_range_def)
next
  case (Lod_Resolution r)
  let ?k = "log_steps log2 (ci_spacing info) r"
  let ?hi = "word_of_int (min (max (sint (word_of_int ?k + (1 :: 64 word))) 1) (2 ^ 31 - 1)) :: i32"
  have "- (2 ^ 63) \<le> ?k \<and> ?k \<le> 2 ^ 63 - 1"
    unfolding log_steps_def by (rule fl_to_int_range) simp_all
  then have "sint ?hi = resolution_levels ?k" by (intro resolution_steps) simp_all
  then have "hi = ?hi \<longleftrightarrow> sint hi = resolution_levels ?k" by (metis sint_eqI)
  moreover have "level_range log2 selection info =
      (if \<not> positive_finite r then Err (InvalidInput ''resolution must be finite and positive, got {resolution}'')
       else if \<not> positive_finite (ci_spacing info)
       then Err (InvalidData ''COPC spacing must be finite and positive, got {}'') else Ok (0, ?hi))"
    unfolding Lod_Resolution level_range_def Let_def log_steps_def positive_finite_def by simp
  ultimately show ?thesis using Lod_Resolution by auto
next
  case (Lod_Level level)
  have "sint (1 :: i32) = 1" by simp
  then show ?thesis using Lod_Level sint_in_range_i32 [of hi]
    by (auto simp: level_range_def validate_level_def bind_res_Ok_iff checked_add_i32_Some_iff)
next
  case (Lod_LevelMinMax a b)
  then show ?thesis by (auto simp: level_range_def validate_level_def bind_res_Ok_iff)
qed

section \<open>Queries on an opened file\<close>

lemma open_entries_valid:
  assumes "hierarchy_ok len r es n"
  shows "list_all (\<lambda>e. entry_validate e = Ok ()) es"
  using assms by (auto simp: hierarchy_ok_def list_all_iff validate_hierarchy_entry_Ok_iff)

lemma wanted_has_points: "list_all has_point_data (filter (wanted info levels bs) es)"
  by (simp add: list_all_iff wanted_def)

lemma sum_list_map_mset:
  assumes "mset xs = mset ys"
  shows "sum_list (map f xs) = (sum_list (map f ys) :: nat)"
proof -
  have "mset (map f xs) = mset (map f ys)" by (simp add: assms)
  then show ?thesis unfolding sum_mset_sum_list [symmetric] by (rule arg_cong)
qed

lemma query_open:
  assumes "hierarchy_ok len r es n" "select_point_chunks_from log2 es info q = Ok chunks"
  obtains levels where "validate_query q = Ok ()" "level_range log2 (pq_lod q) info = Ok levels"
    "mset chunks = filter_mset (wanted info levels (pq_bounds q)) (mset es)"
    "sorted_wrt (\<lambda>a b. entry_hi a \<le> entry_lo b) chunks"
    "total_candidate_points chunks = Ok (sum_list (map entry_points chunks))"
    "sum_list (map entry_points chunks) \<le> unat n"
proof -
  note v = open_entries_valid [OF assms(1)]
  from assms(2) obtain levels where q: "validate_query q = Ok ()" "level_range log2 (pq_lod q) info = Ok levels"
    and ch: "chunks = sort_key (\<lambda>e. (e_offset e, e_key e)) (filter (wanted info levels (pq_bounds q)) es)"
    unfolding select_valid [OF v] by (auto simp: bind_res_Ok_iff)
  let ?f = "filter (wanted info levels (pq_bounds q)) es"
  have "filter (wanted info levels (pq_bounds q)) (filter has_point_data es) = ?f"
    by (induction es) (auto simp: wanted_def)
  moreover have "sorted_wrt chunks_disjoint (filter has_point_data es)"
    using assms(1) by (simp add: hierarchy_ok_def)
  ultimately have "sorted_wrt chunks_disjoint ?f" by (metis sorted_wrt_filter)
  moreover have "list_all (\<lambda>e. entry_validate e = Ok ()) ?f" using v by (simp add: list_all_iff)
  ultimately have s: "sorted_wrt (\<lambda>a b. entry_hi a \<le> entry_lo b) chunks"
    unfolding ch by (intro sort_disjoint_chunks wanted_has_points)
  have m: "mset chunks = filter_mset (wanted info levels (pq_bounds q)) (mset es)" by (simp add: ch)
  have "sum_list (map entry_points chunks) = sum_list (map entry_points ?f)"
    unfolding ch by (rule sum_list_map_mset) simp
  also have "\<dots> \<le> sum_list (map entry_points es)" by (rule sum_list_filter_le)
  also have "\<dots> = unat n" using assms(1) by (simp add: hierarchy_ok_def)
  finally have le: "sum_list (map entry_points chunks) \<le> unat n" .
  moreover have "list_all has_point_data chunks" using wanted_has_points by (simp add: ch list_all_iff)
  ultimately have "total_candidate_points chunks = Ok (sum_list (map entry_points chunks))"
    using unat_bound [of n] by (intro total_candidate_points_Ok) auto
  with that q m s le show thesis by blast
qed

text \<open>C25: a query on an opened file: it fails only when the query itself is invalid; the chunks it
  selects are exactly the wanted entries of the hierarchy, in an order in which each chunk ends
  before the next one starts, and the count of candidate points does not overflow.\<close>

theorem query_selects:
  "case from_reader laz_read (fcur f 0) of
     Inl _ \<Rightarrow> True
   | Inr (cf, _) \<Rightarrow>
       (case select_point_chunks log2 cf q of
          Inl e \<Rightarrow> validate_query q = Err e \<or> level_range log2 (pq_lod q) (cf_copc_info cf) = Err e
        | Inr chunks \<Rightarrow>
            list_ex (\<lambda>levels. mset chunks = filter_mset (wanted (cf_copc_info cf) levels (pq_bounds q)) (mset (hierarchy_walk cf)))
              (case level_range log2 (pq_lod q) (cf_copc_info cf) of Inl _ \<Rightarrow> [] | Inr levels \<Rightarrow> [levels]) \<and>
            sorted_wrt (\<lambda>a b. entry_hi a \<le> entry_lo b) chunks \<and>
            total_candidate_points chunks = Ok (sum_list (map entry_points chunks)) \<and>
            sum_list (map entry_points chunks) \<le> unat (lh_number_of_points (cf_header cf)))"
proof (cases "from_reader laz_read (fcur f 0)")
  case (Inr x)
  obtain cf t where x: "x = (cf, t)" by (cases x)
  obtain r where ok: "hierarchy_ok (length f) r (hierarchy_values (cf_hierarchy cf)) (lh_number_of_points (cf_header cf))"
    using from_reader_hierarchy [of laz_read f cf t] Inr x by (auto simp: hierarchy_walk_def)
  show ?thesis
  proof (cases "select_point_chunks log2 cf q")
    case (Inl e)
    then have "validate_query q = Err e \<or> level_range log2 (pq_lod q) (cf_copc_info cf) = Err e"
      unfolding select_point_chunks_def select_valid [OF open_entries_valid [OF ok]]
      by (auto simp: bind_res_Err_iff)
    then show ?thesis by (simp add: Inr x Inl)
  next
    case ch: (Inr chunks)
    show ?thesis
      by (rule query_open [OF ok ch [unfolded select_point_chunks_def]])
        (simp add: Inr x ch hierarchy_walk_def)
  qed
qed simp

text \<open>A point that a query wants and the selection misses.\<close>

definition misses :: "(f64 \<Rightarrow> f64) \<Rightarrow> copc_info \<Rightarrow> point_query \<Rightarrow> entry list \<Rightarrow> entry \<Rightarrow> xyz \<Rightarrow> bool" where
  "misses log2 info q chunks e p \<longleftrightarrow>
     has_point_data e \<and> e \<notin> set chunks \<and>
     (case level_range log2 (pq_lod q) info of Inl _ \<Rightarrow> False | Inr levels \<Rightarrow> levels_contain levels (e_key e)) \<and>
     (case p of (x, y, z) \<Rightarrow>
        (case voxel_bounds (e_key e) info of Inl _ \<Rightarrow> False | Inr nb \<Rightarrow> contains_xyz nb x y z) \<and>
        (case pq_bounds q of Bounds_All \<Rightarrow> True | Bounds_Within b \<Rightarrow> contains_xyz b x y z))"

text \<open>C26: a query misses nothing: no entry of an opened file whose level is asked for and whose
  voxel box shares a point with the query box is left out of the selection.\<close>

theorem query_complete:
  "case from_reader laz_read (fcur f 0) of
     Inl _ \<Rightarrow> True
   | Inr (cf, _) \<Rightarrow>
       (case select_point_chunks log2 cf q of
          Inl _ \<Rightarrow> True
        | Inr chunks \<Rightarrow>
            \<not> list_ex (\<lambda>e. \<exists>p. misses log2 (cf_copc_info cf) q chunks e p) (hierarchy_walk cf))"
proof (cases "from_reader laz_read (fcur f 0)")
  case (Inr x)
  obtain cf t where x: "x = (cf, t)" by (cases x)
  obtain r where ok: "hierarchy_ok (length f) r (hierarchy_values (cf_hierarchy cf)) (lh_number_of_points (cf_header cf))"
    using from_reader_hierarchy [of laz_read f cf t] Inr x by (auto simp: hierarchy_walk_def)
  show ?thesis
  proof (cases "select_point_chunks log2 cf q")
    case ch: (Inr chunks)
    have "\<not> misses log2 (cf_copc_info cf) q chunks e (u, v, w)" if e: "e \<in> set (hierarchy_values (cf_hierarchy cf))" for e u v w
    proof (rule query_open [OF ok ch [unfolded select_point_chunks_def]])
      fix levels
      assume l: "level_range log2 (pq_lod q) (cf_copc_info cf) = Ok levels"
        and m: "mset chunks = filter_mset (wanted (cf_copc_info cf) levels (pq_bounds q)) (mset (hierarchy_values (cf_hierarchy cf)))"
      have "e \<in> set chunks \<longleftrightarrow> wanted (cf_copc_info cf) levels (pq_bounds q) e"
        using arg_cong [OF m, of set_mset] e by auto
      then show ?thesis using l intersects_common_point
        by (auto simp: misses_def wanted_def box_meets_def split: sum.splits bounds_selection.splits)
    qed
    then show ?thesis by (auto simp: Inr x ch hierarchy_walk_def list_ex_iff)
  qed (simp add: Inr x)
qed simp

end
