(* ===== verification/Chunk_Decode.thy ===== *)
theory Chunk_Decode
  imports Record_Columns Point_Query Point_Source
begin

text \<open>
  Column reads of \<^verbatim>\<open>copc-reader/src/points.rs\<close>: the chunks a query selects are read from the stream,
  decompressed record by record and appended to the columns. The layered LAZ decompressor of the
  \<^verbatim>\<open>laz\<close> crate is the record of its methods over the stream it reads from; \<open>direct\<close> is \<^verbatim>\<open>las::Transform::direct\<close>. The
  loop without the feature \<^verbatim>\<open>parallel\<close> is here, the other one in \<open>Parallel_Columns\<close>.
\<close>

record ('laz, 'd, 'r) laz_decoder =
  dz_new :: 'd
  dz_set_fields :: "'laz \<Rightarrow> 'd \<Rightarrow> string + 'd"
  dz_record_size :: "'d \<Rightarrow> nat"
  dz_reset :: "'d \<Rightarrow> 'd"
  dz_next :: "nat \<Rightarrow> 'd \<Rightarrow> 'r \<Rightarrow> string + ((nat \<Rightarrow> u8) \<times> 'd \<times> 'r)"

text \<open>
  \<^verbatim>\<open>decompress_next(&mut point_buf)\<close>: the decompressor gives the bytes of the slice, whose length it
  cannot change.
\<close>

definition next_record ::
  "('laz, 'd, 'r) laz_decoder \<Rightarrow> nat \<Rightarrow> 'd \<Rightarrow> 'r \<Rightarrow> (u8 list \<times> 'd \<times> 'r) result" where
  "next_record dz n d r =
     (case dz_next dz n d r of
        Inl _ \<Rightarrow> Err (Io ''decompress COPC point'')
      | Inr (byte, d, r) \<Rightarrow> Ok (map byte [0..<n], d, r))"

definition CANCEL_POLL_STRIDE_READER :: nat where
  "CANCEL_POLL_STRIDE_READER = 4096"

definition MAX_INITIAL_COLUMN_RESERVE_POINTS :: nat where
  "MAX_INITIAL_COLUMN_RESERVE_POINTS = 4 * 1024 * 1024"

definition opt_check :: "cancel option \<Rightarrow> nat \<Rightarrow> nat result" where
  "opt_check cancel polls = (case cancel of Some c \<Rightarrow> cancel_check c polls | None \<Rightarrow> Ok polls)"

definition configure_layered_decompressor ::
  "('laz, 'd, 'r) laz_decoder \<Rightarrow> 'laz \<Rightarrow> 'd \<Rightarrow> (nat \<times> 'd) result" where
  "configure_layered_decompressor dz laz_vlr d =
     bind_res (case dz_set_fields dz laz_vlr d of Inl e \<Rightarrow> Err (Las e) | Inr d \<Rightarrow> Ok d) (\<lambda>d.
     let record_size = dz_record_size dz d
     in if record_size = 0
        then Err (Unsupported ''COPC point iteration requires layered LAZ point records'')
        else Ok (record_size, d))"

definition validated_record_size ::
  "('laz, 'd, 'r) laz_decoder \<Rightarrow> (las_format \<Rightarrow> u16) \<Rightarrow> 'laz \<Rightarrow> las_format \<Rightarrow> nat result" where
  "validated_record_size dz format_len laz_vlr format =
     bind_res (configure_layered_decompressor dz laz_vlr (dz_new dz)) (\<lambda>(record_size, _).
     let expected = unat (format_len format)
     in if record_size \<noteq> expected
        then Err (InvalidData ''LASzip item size is {record_size} bytes, but LAS point record length is {expected} bytes'')
        else Ok expected)"

record 'laz chunk_column_decoder =
  ck_laz_vlr :: 'laz
  ck_layout :: point_layout
  ck_transforms :: las_transforms
  ck_bounds :: "bounds option"
  ck_record_size :: nat

definition chunk_column_decoder_new ::
  "('laz, 'd, 'r) laz_decoder \<Rightarrow> (las_format \<Rightarrow> u16) \<Rightarrow> 'laz \<Rightarrow> las_format \<Rightarrow> las_transforms \<Rightarrow> bounds option \<Rightarrow>
    'laz chunk_column_decoder result" where
  "chunk_column_decoder_new dz format_len laz_vlr format transforms b =
     bind_res (layout_for_format format) (\<lambda>layout.
     bind_res (validated_record_size dz format_len laz_vlr format) (\<lambda>record_size.
     Ok \<lparr>ck_laz_vlr = laz_vlr, ck_layout = layout, ck_transforms = transforms, ck_bounds = b,
         ck_record_size = record_size\<rparr>))"

definition direct_xyz ::
  "(las_transform \<Rightarrow> i32 \<Rightarrow> f64) \<Rightarrow> las_transforms \<Rightarrow> i32 \<Rightarrow> i32 \<Rightarrow> i32 \<Rightarrow> xyz" where
  "direct_xyz direct t x y z = (direct (fst t) x, direct (fst (snd t)) y, direct (snd (snd t)) z)"

definition outside :: "bounds option \<Rightarrow> xyz \<Rightarrow> bool" where
  "outside b p = (case b of Some b \<Rightarrow> (case p of (x, y, z) \<Rightarrow> \<not> contains_xyz b x y z) | None \<Rightarrow> False)"

text \<open>The state of \<^verbatim>\<open>decode_into\<close>: decompressor, cursor, columns, accepted points, cancellation polls.\<close>

type_synonym ('d, 'r) decode_state = "'d \<times> 'r \<times> column list \<times> nat \<times> nat"

definition decode_one ::
  "('laz, 'd, 'r) laz_decoder \<Rightarrow> (las_transform \<Rightarrow> i32 \<Rightarrow> f64) \<Rightarrow> 'laz chunk_column_decoder \<Rightarrow> cancel option \<Rightarrow>
    nat \<Rightarrow> ('d, 'r) decode_state \<Rightarrow> ('d, 'r) decode_state result" where
  "decode_one dz direct ck cancel decoded = (\<lambda>(d, r, columns, accepted, polls).
     bind_res (if CANCEL_POLL_STRIDE_READER dvd decoded then opt_check cancel polls else Ok polls) (\<lambda>polls.
     bind_res (next_record dz (ck_record_size ck) d r) (\<lambda>(buf, d, r).
     bind_res (i32_at buf 0) (\<lambda>ix.
     bind_res (i32_at buf 4) (\<lambda>iy.
     bind_res (i32_at buf 8) (\<lambda>iz.
     let p = direct_xyz direct (ck_transforms ck) ix iy iz
     in if outside (ck_bounds ck) p then Ok (d, r, columns, accepted, polls)
        else bind_res (append_columns buf (ck_layout ck) p columns) (\<lambda>columns.
          Ok (d, r, columns, accepted + 1, polls))))))))"

definition decode_into ::
  "('laz, 'd, bsection) laz_decoder \<Rightarrow> (las_transform \<Rightarrow> i32 \<Rightarrow> f64) \<Rightarrow> 'laz chunk_column_decoder \<Rightarrow>
    u8 list \<Rightarrow> nat \<Rightarrow> column list \<Rightarrow> cancel option \<Rightarrow> nat \<Rightarrow> (column list \<times> nat \<times> nat) result" where
  "decode_into dz direct ck chunk_bytes points_in_chunk columns cancel polls =
     bind_res (configure_layered_decompressor dz (ck_laz_vlr ck) (dz_new dz)) (\<lambda>(_, d).
     bind_res (fold_res (decode_one dz direct ck cancel) [0..<points_in_chunk]
         (d, section_new 0 chunk_bytes, columns, 0, polls)) (\<lambda>(_, _, columns, accepted, polls).
     Ok (columns, accepted, polls)))"

section \<open>Reading chunks\<close>

definition read_chunk_bytes :: "entry \<Rightarrow> (u8 list \<times> nat) rd" where
  "read_chunk_bytes e =
     rbind (rlift (ok_or (usize_try_from_i32 (e_point_count e)) (InvalidData ''negative point count {} for {:?}''))) (\<lambda>points_in_chunk.
     rbind (rlift (ok_or (usize_try_from_i32 (e_byte_size e)) (InvalidData ''invalid byte size {} for {:?}''))) (\<lambda>byte_size.
     rbind (rseek (unat (e_offset e))) (\<lambda>_.
     rbind (read_exact ''read COPC point chunk'' byte_size) (\<lambda>chunk_bytes.
     rret (chunk_bytes, points_in_chunk)))))"

text \<open>The sequential loop over the chunks: columns, accepted points, polls and the stream.\<close>

definition read_chunk_columns ::
  "('laz, 'd, bsection) laz_decoder \<Rightarrow> (las_transform \<Rightarrow> i32 \<Rightarrow> f64) \<Rightarrow> 'laz chunk_column_decoder \<Rightarrow> cancel option \<Rightarrow>
    entry \<Rightarrow> column list \<times> nat \<times> nat \<times> bsection \<Rightarrow> (column list \<times> nat \<times> nat \<times> bsection) result" where
  "read_chunk_columns dz direct ck cancel e = (\<lambda>(columns, accepted_points, polls, s).
     bind_res (opt_check cancel polls) (\<lambda>polls.
     bind_res (read_chunk_bytes e s) (\<lambda>((chunk_bytes, points_in_chunk), s).
     bind_res (decode_into dz direct ck chunk_bytes points_in_chunk columns cancel polls) (\<lambda>(columns, accepted, polls).
     Ok (columns, accepted_points + accepted, polls, s)))))"

text \<open>The operations of other crates that a column read uses.\<close>

record ('laz, 'd) read_ops =
  ro_log2 :: "f64 \<Rightarrow> f64"
  ro_format_new :: "u8 \<Rightarrow> string + las_format"
  ro_format_len :: "las_format \<Rightarrow> u16"
  ro_direct :: "las_transform \<Rightarrow> i32 \<Rightarrow> f64"
  ro_decoder :: "('laz, 'd, bsection) laz_decoder"

text \<open>
  What comes before the loop, with and without the feature \<^verbatim>\<open>parallel\<close>: the chunks, the format, the
  decoder and the empty columns.
\<close>

definition column_setup ::
  "('laz, 'd) read_ops \<Rightarrow> 'laz copc_file \<Rightarrow> point_query \<Rightarrow> column_selection \<Rightarrow>
    (entry list \<times> las_format \<times> 'laz chunk_column_decoder \<times> column list) result" where
  "column_setup ops f q selection =
     bind_res (select_point_chunks (ro_log2 ops) f q) (\<lambda>chunks.
     bind_res (point_format_for (ro_format_new ops) (ro_format_len ops) (cf_header f)) (\<lambda>format.
     bind_res (chunk_column_decoder_new (ro_decoder ops) (ro_format_len ops) (cf_laszip_vlr f) format
         (transforms_for (cf_header f)) (selection_bounds (pq_bounds q))) (\<lambda>decoder.
     bind_res (case ck_bounds decoder of
         Some _ \<Rightarrow> Ok 0
       | None \<Rightarrow> bind_res (total_candidate_points chunks) (\<lambda>n. Ok (min n MAX_INITIAL_COLUMN_RESERVE_POINTS))) (\<lambda>capacity.
     bind_res (selected_column_builders format selection capacity) (\<lambda>columns.
     Ok (chunks, format, decoder, columns))))))"

definition finish_batch :: "column list \<times> nat \<times> nat \<times> bsection \<Rightarrow> (las_column_batch \<times> nat \<times> bsection) result" where
  "finish_batch = (\<lambda>(columns, accepted_points, polls, s).
     let batch = \<lparr>lb_len = accepted_points, lb_columns = columns\<rparr>
     in bind_res (batch_validate batch) (\<lambda>_. Ok (batch, polls, s)))"

definition read_columns_inner ::
  "('laz, 'd) read_ops \<Rightarrow> 'laz copc_file \<Rightarrow> point_query \<Rightarrow> column_selection \<Rightarrow> cancel option \<Rightarrow> nat \<Rightarrow> bsection \<Rightarrow>
    (las_column_batch \<times> nat \<times> bsection) result" where
  "read_columns_inner ops f q selection cancel polls s =
     bind_res (column_setup ops f q selection) (\<lambda>(chunks, format, decoder, columns).
     bind_res (fold_res (read_chunk_columns (ro_decoder ops) (ro_direct ops) decoder cancel) chunks
         (columns, 0, polls, s)) finish_batch)"

end
