(* ===== verification/Column_Read.thy ===== *)
theory Column_Read
  imports Chunk_Decode
begin

text \<open>
  What a column read returns: for every selected column the values of the accepted records, in the
  order of the chunks. The lemmas go from a record to a chunk to a read.
\<close>

section \<open>The columns of several records\<close>

definition empty_data :: "scalar_type \<Rightarrow> column_data" where
  "empty_data t = (case t of Ty_F64 \<Rightarrow> F64 [] | Ty_F32 \<Rightarrow> F32 [] | Ty_I64 \<Rightarrow> I64 [] | Ty_I32 \<Rightarrow> I32 []
     | Ty_I16 \<Rightarrow> I16 [] | Ty_I8 \<Rightarrow> I8 [] | Ty_U64 \<Rightarrow> U64 [] | Ty_U32 \<Rightarrow> U32 [] | Ty_U16 \<Rightarrow> U16 []
     | Ty_U8 \<Rightarrow> U8 [] | Ty_Bool \<Rightarrow> Bool [])"

type_synonym point_rec = "u8 list \<times> xyz"

definition column_of :: "las_format \<Rightarrow> point_rec list \<Rightarrow> column_spec \<Rightarrow> column_data" where
  "column_of format recs sp =
     foldl data_append (empty_data (sp_scalar sp)) (map (\<lambda>(buf, p). record_data format buf p (sp_dimension sp)) recs)"

definition columns_of :: "las_format \<Rightarrow> column_spec list \<Rightarrow> point_rec list \<Rightarrow> column list" where
  "columns_of format specs recs = map (\<lambda>sp. (sp, column_of format recs sp)) specs"

lemma data_scalar_empty [simp]: "data_scalar (empty_data t) = t"
  by (cases t) (simp_all add: empty_data_def data_scalar_def)

lemma data_len_empty [simp]: "data_len (empty_data t) = 0"
  by (cases t) (simp_all add: empty_data_def data_len_def)

lemma data_scalar_append [simp]: "data_scalar (data_append a b) = data_scalar a"
  by (induction a b rule: data_append.induct) (simp_all add: data_scalar_def)

lemma data_len_append:
  "data_scalar a = data_scalar b \<Longrightarrow> data_scalar a \<in> {Ty_F64, Ty_F32, Ty_U64, Ty_U32, Ty_U16, Ty_U8, Ty_Bool} \<Longrightarrow>
    data_len (data_append a b) = data_len a + data_len b"
  by (induction a b rule: data_append.induct) (simp_all add: data_scalar_def data_len_def)

lemma record_data_scalar:
  assumes "spec_of_format format sp"
  shows "data_scalar (record_data format buf p (sp_dimension sp)) = sp_scalar sp"
proof (cases "sp_dimension sp = Dim_ExtraBytes")
  case True
  then have "sp_scalar sp = Ty_U8" using assms by (simp add: spec_of_format_def spec_extra_bytes_def)
  then show ?thesis using True by (simp add: record_data_def data_scalar_def)
next
  case False
  then have "Some (sp_scalar sp) = default_scalar (sp_dimension sp)"
    using assms by (simp add: spec_of_format_def)
  then show ?thesis using False
    by (cases "sp_dimension sp") (simp_all add: record_data_def data_scalar_def default_scalar_def Let_def)
qed

lemma record_data_len:
  assumes "length buf = record_length format"
  shows "data_len (record_data format buf p d) = (if d = Dim_ExtraBytes then unat (lf_extra_bytes format) else 1)"
proof (cases "d = Dim_ExtraBytes")
  case True
  have "el_extra_offset (layout_of format) + unat (lf_extra_bytes format) = length buf"
    using layout_of_fits(4) [of format] assms by simp
  then show ?thesis by (simp add: True record_data_def data_len_def Let_def)
next
  case False
  then show ?thesis by (cases d) (simp_all add: record_data_def data_len_def Let_def)
qed

lemma spec_scalar_range:
  "spec_of_format format sp \<Longrightarrow> sp_scalar sp \<in> {Ty_F64, Ty_F32, Ty_U64, Ty_U32, Ty_U16, Ty_U8, Ty_Bool}"
  by (cases "sp_dimension sp") (simp_all add: spec_of_format_def default_scalar_def spec_extra_bytes_def)

lemma column_of_snoc:
  "column_of format (recs @ [(buf, p)]) sp =
    data_append (column_of format recs sp) (record_data format buf p (sp_dimension sp))"
  by (simp add: column_of_def)

lemma column_of_scalar [simp]: "data_scalar (column_of format recs sp) = sp_scalar sp"
proof (induction recs rule: rev_induct)
  case (snoc r recs)
  then show ?case by (cases r) (simp add: column_of_snoc)
qed (simp add: column_of_def)

definition records_fit :: "las_format \<Rightarrow> point_rec list \<Rightarrow> bool" where
  "records_fit format recs \<longleftrightarrow> list_all (\<lambda>(buf, _). length buf = record_length format) recs"

lemma column_of_len:
  assumes "spec_of_format format sp" "records_fit format recs"
  shows "data_len (column_of format recs sp) =
    length recs * (if sp_dimension sp = Dim_ExtraBytes then unat (lf_extra_bytes format) else 1)"
  using assms(2)
proof (induction recs rule: rev_induct)
  case (snoc r recs)
  obtain buf p where r: "r = (buf, p)" by (cases r)
  have len: "length buf = record_length format" using snoc.prems r by (simp add: records_fit_def)
  have "data_len (column_of format (recs @ [r]) sp) =
      data_len (column_of format recs sp) + data_len (record_data format buf p (sp_dimension sp))"
    unfolding r column_of_snoc using record_data_scalar [OF assms(1)] spec_scalar_range [OF assms(1)]
    by (intro data_len_append) simp_all
  then show ?case using snoc record_data_len [OF len] by (auto simp: records_fit_def)
qed (simp add: column_of_def)

lemma columns_of_typed:
  assumes "list_all (spec_of_format format) specs" "records_fit format recs"
  shows "list_all (column_typed (length recs)) (columns_of format specs recs)"
proof -
  have "column_typed (length recs) (sp, column_of format recs sp)" if "spec_of_format format sp" for sp
  proof (cases "sp_dimension sp = Dim_ExtraBytes")
    case True
    then have sp: "sp = spec_extra_bytes (unat (lf_extra_bytes format))" "0 < unat (lf_extra_bytes format)"
      using that by (simp_all add: spec_of_format_def)
    have "extra_byte_width sp = Some (unat (lf_extra_bytes format))"
      unfolding sp(1) by (rule extra_byte_width_extra [OF sp(2)])
    then show ?thesis using column_of_len [OF that assms(2)] True by (simp add: column_typed_def)
  next
    case False
    then show ?thesis using column_of_len [OF that assms(2)] that
      by (simp add: column_typed_def spec_of_format_def)
  qed
  then show ?thesis using assms(1) by (auto simp: columns_of_def list_all_iff)
qed

section \<open>Appending a record\<close>

lemma append_columns_of:
  assumes "list_all (spec_of_format format) specs" "length buf = record_length format"
  shows "append_columns buf (layout_of format) p (columns_of format specs recs) =
    Ok (columns_of format specs (recs @ [(buf, p)]))"
proof -
  have len: "16 < length buf" using assms(2) by (simp add: record_length_def)
  have step: "bind_res (append_column sp (context_of format buf p) (column_of format recs sp)) (\<lambda>data. Ok (sp, data)) =
      Ok (sp, column_of format (recs @ [(buf, p)]) sp)" if "sp \<in> set specs" for sp
  proof -
    have "spec_of_format format sp" using assms(1) that by (simp add: list_all_iff)
    then show ?thesis using append_column_exact [OF assms(2)] by (simp add: column_of_snoc)
  qed
  have "map_res (\<lambda>(sp, data). bind_res (append_column sp (context_of format buf p) data) (\<lambda>data. Ok (sp, data)))
      (columns_of format specs recs) = Ok (columns_of format specs (recs @ [(buf, p)]))"
    using step unfolding columns_of_def by (induction specs) simp_all
  then show ?thesis using len
    by (simp add: append_columns_def u8_at_def context_of_def class_of_def Let_def)
qed

section \<open>Decoding a chunk\<close>

text \<open>The first \<open>n\<close> records of a chunk, and those the bounds let through, with their coordinates.\<close>

fun run_records ::
  "('laz, 'd, 'r) laz_decoder \<Rightarrow> nat \<Rightarrow> nat \<Rightarrow> 'd \<Rightarrow> 'r \<Rightarrow> (u8 list list \<times> 'd \<times> 'r) result" where
  "run_records dz width 0 d r = Ok ([], d, r)"
| "run_records dz width (Suc n) d r =
     bind_res (run_records dz width n d r) (\<lambda>(bufs, d, r).
     bind_res (next_record dz width d r) (\<lambda>(buf, d, r). Ok (bufs @ [buf], d, r)))"

definition locate :: "(las_transform \<Rightarrow> i32 \<Rightarrow> f64) \<Rightarrow> las_transforms \<Rightarrow> u8 list \<Rightarrow> point_rec" where
  "locate direct t buf = (buf, direct_xyz direct t (get_u32 buf 0) (get_u32 buf 4) (get_u32 buf 8))"

definition accepted_records ::
  "(las_transform \<Rightarrow> i32 \<Rightarrow> f64) \<Rightarrow> las_transforms \<Rightarrow> bounds option \<Rightarrow> u8 list list \<Rightarrow> point_rec list" where
  "accepted_records direct t b bufs = filter (\<lambda>(_, p). \<not> outside b p) (map (locate direct t) bufs)"

definition chunk_records ::
  "('laz, 'd, bsection) laz_decoder \<Rightarrow> (las_transform \<Rightarrow> i32 \<Rightarrow> f64) \<Rightarrow> 'laz chunk_column_decoder \<Rightarrow>
    u8 list \<Rightarrow> nat \<Rightarrow> point_rec list result" where
  "chunk_records dz direct ck bytes n =
     bind_res (configure_layered_decompressor dz (ck_laz_vlr ck) (dz_new dz)) (\<lambda>(_, d).
     bind_res (run_records dz (ck_record_size ck) n d (section_new 0 bytes)) (\<lambda>(bufs, _, _).
     Ok (accepted_records direct (ck_transforms ck) (ck_bounds ck) bufs)))"

lemma next_record_length: "next_record dz n d r = Ok (buf, d', r') \<Longrightarrow> length buf = n"
  by (auto simp: next_record_def split: sum.splits)

lemma run_records_length:
  "run_records dz width n d r = Ok (bufs, d', r') \<Longrightarrow> length bufs = n \<and> list_all (\<lambda>buf. length buf = width) bufs"
proof (induction n arbitrary: bufs d' r')
  case (Suc n)
  then show ?case using next_record_length by (fastforce simp: bind_res_Ok_iff)
qed simp

lemma accepted_records_append [simp]:
  "accepted_records direct t b (xs @ ys) = accepted_records direct t b xs @ accepted_records direct t b ys"
  by (simp add: accepted_records_def)

lemma accepted_records_fit:
  "list_all (\<lambda>buf. length buf = record_length format) bufs \<Longrightarrow> records_fit format (accepted_records direct t b bufs)"
  by (auto simp: records_fit_def accepted_records_def locate_def list_all_iff)

text \<open>A decoder made for a format, and the errors a decoding pass can have.\<close>

definition decoder_for :: "las_format \<Rightarrow> 'laz chunk_column_decoder \<Rightarrow> bool" where
  "decoder_for format ck \<longleftrightarrow> ck_layout ck = layout_of format \<and> ck_record_size ck = record_length format"

definition cancels :: "cancel option \<Rightarrow> copc_error \<Rightarrow> bool" where
  "cancels cancel e \<longleftrightarrow> (\<exists>c n. cancel = Some c \<and> c n = Err e)"

lemma opt_check_spec: "res_spec (cancels cancel) (\<lambda>_. True) (opt_check cancel polls)"
  by (cases "opt_check cancel polls") (auto simp: opt_check_def cancels_def split: option.splits)

lemma cancels_None [simp]: "\<not> cancels None e"
  by (simp add: cancels_def)

definition decoded_to ::
  "('laz, 'd, 'r) laz_decoder \<Rightarrow> (las_transform \<Rightarrow> i32 \<Rightarrow> f64) \<Rightarrow> 'laz chunk_column_decoder \<Rightarrow> las_format \<Rightarrow>
    column_spec list \<Rightarrow> point_rec list \<Rightarrow> 'd \<Rightarrow> 'r \<Rightarrow> nat \<Rightarrow> ('d, 'r) decode_state \<Rightarrow> bool" where
  "decoded_to dz direct ck format specs recs d0 r0 n = (\<lambda>(d, r, columns, accepted, polls).
     \<exists>bufs. run_records dz (ck_record_size ck) n d0 r0 = Ok (bufs, d, r) \<and>
       columns = columns_of format specs (recs @ accepted_records direct (ck_transforms ck) (ck_bounds ck) bufs) \<and>
       accepted = length (accepted_records direct (ck_transforms ck) (ck_bounds ck) bufs))"

text \<open>A step stops with the cancellation's error, or with that of the decompressor, or goes on.\<close>

lemma decode_one_step:
  assumes ck: "decoder_for format ck" and specs: "list_all (spec_of_format format) specs"
    and st: "decoded_to dz direct ck format specs recs d0 r0 n st"
  shows "res_spec (\<lambda>e. cancels cancel e \<or> run_records dz (ck_record_size ck) (Suc n) d0 r0 = Err e)
    (decoded_to dz direct ck format specs recs d0 r0 (Suc n)) (decode_one dz direct ck cancel n st)"
proof -
  obtain d r columns accepted polls where st_eq: "st = (d, r, columns, accepted, polls)" by (cases st)
  obtain bufs where run: "run_records dz (ck_record_size ck) n d0 r0 = Ok (bufs, d, r)"
    and cols: "columns = columns_of format specs (recs @ accepted_records direct (ck_transforms ck) (ck_bounds ck) bufs)"
    and acc: "accepted = length (accepted_records direct (ck_transforms ck) (ck_bounds ck) bufs)"
    using st by (auto simp: st_eq decoded_to_def)
  let ?E = "\<lambda>e. cancels cancel e \<or> run_records dz (ck_record_size ck) (Suc n) d0 r0 = Err e"
  show ?thesis unfolding st_eq decode_one_def prod.case
  proof (rule res_spec_bind [where P = "\<lambda>_. True"])
    show "res_spec ?E (\<lambda>_. True) (if CANCEL_POLL_STRIDE_READER dvd n then opt_check cancel polls else Ok polls)"
      using res_spec_mono [OF opt_check_spec [of cancel polls], where Q = "\<lambda>_. True" and F = ?E] by simp
  next
    fix polls'
    show "res_spec ?E (decoded_to dz direct ck format specs recs d0 r0 (Suc n))
      (bind_res (next_record dz (ck_record_size ck) d r) (\<lambda>(buf, d, r).
       bind_res (i32_at buf 0) (\<lambda>ix. bind_res (i32_at buf 4) (\<lambda>iy. bind_res (i32_at buf 8) (\<lambda>iz.
       let p = direct_xyz direct (ck_transforms ck) ix iy iz
       in if outside (ck_bounds ck) p then Ok (d, r, columns, accepted, polls')
          else bind_res (append_columns buf (ck_layout ck) p columns) (\<lambda>columns.
            Ok (d, r, columns, accepted + 1, polls')))))))"
    proof (cases "next_record dz (ck_record_size ck) d r")
      case (Inl e)
      then show ?thesis using run by simp
    next
      case (Inr x)
      obtain buf d' r' where x: "x = (buf, d', r')" by (cases x)
      have len: "length buf = record_length format" using next_record_length Inr x ck by (simp add: decoder_for_def)
      then have long: "30 \<le> length buf" by (simp add: record_length_def)
      have run': "run_records dz (ck_record_size ck) (Suc n) d0 r0 = Ok (bufs @ [buf], d', r')"
        using run Inr x by simp
      have loc: "locate direct (ck_transforms ck) buf = (buf, direct_xyz direct (ck_transforms ck) (get_u32 buf 0) (get_u32 buf 4) (get_u32 buf 8))"
        by (simp add: locate_def)
      have lay: "ck_layout ck = layout_of format" using ck by (simp add: decoder_for_def)
      show ?thesis
        using long append_columns_of [OF specs len] run'
        by (simp add: Inr x at_in_range Let_def lay cols acc decoded_to_def accepted_records_def loc del: run_records.simps)
    qed
  qed
qed

lemma run_records_err:
  "run_records dz width k d r = Err e \<Longrightarrow> k \<le> n \<Longrightarrow> run_records dz width n d r = Err e"
proof (induction n)
  case (Suc n)
  then show ?case by (cases "k = Suc n") auto
qed simp

lemma decode_into_spec:
  assumes ck: "decoder_for format ck" and specs: "list_all (spec_of_format format) specs"
  shows "res_spec (\<lambda>e. cancels cancel e \<or> chunk_records dz direct ck bytes n = Err e)
    (\<lambda>(columns, accepted, polls). \<exists>recs'. chunk_records dz direct ck bytes n = Ok recs' \<and>
       columns = columns_of format specs (recs @ recs') \<and> accepted = length recs')
    (decode_into dz direct ck bytes n (columns_of format specs recs) cancel polls)"
proof (cases "configure_layered_decompressor dz (ck_laz_vlr ck) (dz_new dz)")
  case (Inl e)
  then show ?thesis by (simp add: decode_into_def chunk_records_def)
next
  case (Inr x)
  obtain k d where x: "x = (k, d)" by (cases x)
  let ?r = "section_new 0 bytes"
  let ?E = "\<lambda>e. cancels cancel e \<or> run_records dz (ck_record_size ck) n d ?r = Err e"
  let ?f = "fold_res (decode_one dz direct ck cancel) [0..<n] (d, ?r, columns_of format specs recs, 0, polls)"
  have fold: "res_spec ?E (decoded_to dz direct ck format specs recs d ?r n) ?f"
  proof (rule res_spec_fold_upt)
    show "decoded_to dz direct ck format specs recs d ?r 0 (d, ?r, columns_of format specs recs, 0, polls)"
      by (simp add: decoded_to_def accepted_records_def)
    fix i st assume i: "i < n" and st: "decoded_to dz direct ck format specs recs d ?r i st"
    show "res_spec ?E (decoded_to dz direct ck format specs recs d ?r (Suc i)) (decode_one dz direct ck cancel i st)"
    proof (rule res_spec_mono [OF decode_one_step [OF ck specs st, where cancel = cancel]])
      fix e assume "cancels cancel e \<or> run_records dz (ck_record_size ck) (Suc i) d ?r = Err e"
      then show "?E e" using run_records_err [of dz "ck_record_size ck" "Suc i" d ?r e n] i by auto
    qed
  qed
  show ?thesis
  proof (cases ?f)
    case (Inl e)
    then show ?thesis using fold by (auto simp: decode_into_def chunk_records_def Inr x)
  next
    case st: (Inr st)
    obtain d' r' columns accepted polls' where st': "st = (d', r', columns, accepted, polls')" by (cases st)
    show ?thesis using fold by (auto simp: decode_into_def chunk_records_def Inr x st st' decoded_to_def)
  qed
qed

section \<open>Reading the chunks of a selection\<close>

text \<open>Two states of the same stream, which differ in the position only.\<close>

definition same_stream :: "bsection \<Rightarrow> bsection \<Rightarrow> bool" where
  "same_stream s t \<longleftrightarrow> sec_base s = sec_base t \<and> sec_data s = sec_data t"

lemma same_stream_refl [simp]: "same_stream s s"
  by (simp add: same_stream_def)

lemma read_chunk_bytes_stream:
  "read_chunk_bytes e s = Ok (x, t) \<Longrightarrow> same_stream s t"
  by (auto simp: read_chunk_bytes_def rbind_def rlift_def rseek_def read_exact_def section_read_def
      section_seek_def rret_def same_stream_def bind_res_Ok_iff Let_def split: if_splits sum.splits prod.splits)

lemma read_chunk_bytes_same:
  assumes "same_stream s t"
  shows "bind_res (read_chunk_bytes e s) (\<lambda>(x, _). g x) = bind_res (read_chunk_bytes e t) (\<lambda>(x, _). g x)"
proof -
  have "section_seek p s = section_seek p t" for p
    using assms by (cases s; cases t) (simp add: section_seek_def same_stream_def)
  then have "rseek p s = rseek p t" for p by (simp add: rseek_def)
  then show ?thesis unfolding read_chunk_bytes_def rbind_def rlift_def
    by (cases "usize_try_from_i32 (e_point_count e)"; cases "usize_try_from_i32 (e_byte_size e)") simp_all
qed

definition entry_records ::
  "('laz, 'd, bsection) laz_decoder \<Rightarrow> (las_transform \<Rightarrow> i32 \<Rightarrow> f64) \<Rightarrow> 'laz chunk_column_decoder \<Rightarrow> bsection \<Rightarrow>
    entry \<Rightarrow> point_rec list result" where
  "entry_records dz direct ck s e =
     bind_res (read_chunk_bytes e s) (\<lambda>((bytes, n), _). chunk_records dz direct ck bytes n)"

lemma entry_records_same: "same_stream s t \<Longrightarrow> entry_records dz direct ck s e = entry_records dz direct ck t e"
  using read_chunk_bytes_same [of s t e "\<lambda>(bytes, n). chunk_records dz direct ck bytes n"]
  by (simp add: entry_records_def split_def)

definition read_to ::
  "('laz, 'd, bsection) laz_decoder \<Rightarrow> (las_transform \<Rightarrow> i32 \<Rightarrow> f64) \<Rightarrow> 'laz chunk_column_decoder \<Rightarrow> las_format \<Rightarrow>
    column_spec list \<Rightarrow> bsection \<Rightarrow> entry list \<Rightarrow> column list \<times> nat \<times> nat \<times> bsection \<Rightarrow> bool" where
  "read_to dz direct ck format specs s es = (\<lambda>(columns, accepted, polls, t).
     same_stream s t \<and> (\<exists>recs. map_res (entry_records dz direct ck s) es = Ok recs \<and>
       columns = columns_of format specs (concat recs) \<and> accepted = length (concat recs)))"

lemma map_res_append: "map_res f (xs @ ys) = bind_res (map_res f xs) (\<lambda>a. bind_res (map_res f ys) (\<lambda>b. Ok (a @ b)))"
proof (induction xs)
  case Nil
  then show ?case by (cases "map_res f ys") simp_all
next
  case (Cons x xs)
  then show ?case by (cases "f x"; cases "map_res f xs"; cases "map_res f ys") simp_all
qed

lemma read_chunk_columns_step:
  assumes ck: "decoder_for format ck" and specs: "list_all (spec_of_format format) specs"
    and st: "read_to dz direct ck format specs s es st"
  shows "res_spec (\<lambda>err. cancels cancel err \<or> map_res (entry_records dz direct ck s) (es @ e # rest) = Err err)
    (read_to dz direct ck format specs s (es @ [e])) (read_chunk_columns dz direct ck cancel e st)"
proof -
  obtain columns accepted polls t where st_eq: "st = (columns, accepted, polls, t)" by (cases st)
  obtain recs where same: "same_stream s t" and recs: "map_res (entry_records dz direct ck s) es = Ok recs"
    and cols: "columns = columns_of format specs (concat recs)" "accepted = length (concat recs)"
    using st by (auto simp: st_eq read_to_def)
  let ?E = "\<lambda>err. cancels cancel err \<or> map_res (entry_records dz direct ck s) (es @ e # rest) = Err err"
  have entry: "entry_records dz direct ck s e = bind_res (read_chunk_bytes e t) (\<lambda>((bytes, n), _). chunk_records dz direct ck bytes n)"
    using entry_records_same [OF same] by (simp add: entry_records_def)
  have err: "?E x" if "entry_records dz direct ck s e = Err x" for x
    using that recs by (simp add: map_res_append)
  show ?thesis
    unfolding st_eq read_chunk_columns_def prod.case
  proof (rule res_spec_bind [where P = "\<lambda>_. True"])
    show "res_spec ?E (\<lambda>_. True) (opt_check cancel polls)"
      using res_spec_mono [OF opt_check_spec [of cancel polls], where Q = "\<lambda>_. True" and F = ?E] by simp
  next
    fix polls'
    show "res_spec ?E (read_to dz direct ck format specs s (es @ [e]))
      (bind_res (read_chunk_bytes e t) (\<lambda>((chunk_bytes, points_in_chunk), s).
       bind_res (decode_into dz direct ck chunk_bytes points_in_chunk columns cancel polls') (\<lambda>(columns, acc, polls).
       Ok (columns, accepted + acc, polls, s))))"
    proof (cases "read_chunk_bytes e t")
      case (Inl x)
      then show ?thesis using err entry by simp
    next
      case (Inr y)
      obtain bytes n t' where y: "y = ((bytes, n), t')" by (metis surj_pair)
      have same': "same_stream s t'"
        using same read_chunk_bytes_stream [of e t "(bytes, n)" t'] Inr y by (simp add: same_stream_def)
      have ent: "entry_records dz direct ck s e = chunk_records dz direct ck bytes n" using entry Inr y by simp
      show ?thesis
        unfolding Inr y bind_res_simps prod.case cols(1)
      proof (rule res_spec_bind)
        show "res_spec ?E (\<lambda>(columns, acc, polls). \<exists>recs'. chunk_records dz direct ck bytes n = Ok recs' \<and>
            columns = columns_of format specs (concat recs @ recs') \<and> acc = length recs')
          (decode_into dz direct ck bytes n (columns_of format specs (concat recs)) cancel polls')"
          by (rule res_spec_mono [OF decode_into_spec [OF ck specs]]) (use err ent in auto)
      next
        fix x :: "column list \<times> nat \<times> nat"
        assume "case x of (columns, acc, polls) \<Rightarrow> \<exists>recs'. chunk_records dz direct ck bytes n = Ok recs' \<and>
            columns = columns_of format specs (concat recs @ recs') \<and> acc = length recs'"
        then show "res_spec ?E (read_to dz direct ck format specs s (es @ [e]))
            (case x of (columns, acc, polls) \<Rightarrow> Ok (columns, accepted + acc, polls, t'))"
          using same' recs ent cols(2) by (auto simp: read_to_def map_res_append)
      qed
    qed
  qed
qed

lemma read_chunks_spec:
  assumes "decoder_for format ck" "list_all (spec_of_format format) specs"
  shows "res_spec (\<lambda>err. cancels cancel err \<or> map_res (entry_records dz direct ck s) es = Err err)
    (read_to dz direct ck format specs s es)
    (fold_res (read_chunk_columns dz direct ck cancel) es (columns_of format specs [], 0, polls, s))"
proof (rule res_spec_fold)
  show "read_to dz direct ck format specs s [] (columns_of format specs [], 0, polls, s)"
    by (simp add: read_to_def)
next
  fix es' e rest u
  assume "es = es' @ e # rest" "read_to dz direct ck format specs s es' u"
  then show "res_spec (\<lambda>err. cancels cancel err \<or> map_res (entry_records dz direct ck s) es = Err err)
      (read_to dz direct ck format specs s (es' @ [e])) (read_chunk_columns dz direct ck cancel e u)"
    using read_chunk_columns_step [OF assms] by simp
qed

section \<open>A column read\<close>

text \<open>
  The documented behaviour of \<^verbatim>\<open>las::point::Format\<close> that the record layout rests on: \<^verbatim>\<open>new\<close> gives for the
  point formats 6, 7 and 8 an extended format with GPS time and no extra bytes, and of such a format,
  with any extra bytes, \<^verbatim>\<open>len\<close> is the length of a record. Nothing is said of the other formats.
\<close>

definition gps_extended :: "las_format \<Rightarrow> bool" where
  "gps_extended fmt \<longleftrightarrow> lf_is_extended fmt \<and> lf_has_gps_time fmt"

definition format_laws :: "(u8 \<Rightarrow> string + las_format) \<Rightarrow> (las_format \<Rightarrow> u16) \<Rightarrow> bool" where
  "format_laws format_new format_len \<longleftrightarrow>
     (\<forall>i fmt. 6 \<le> i \<longrightarrow> i \<le> 8 \<longrightarrow> format_new i = Inr fmt \<longrightarrow> gps_extended fmt \<and> lf_extra_bytes fmt = 0) \<and>
     (\<forall>fmt. gps_extended fmt \<longrightarrow> record_length fmt < 2 ^ 16 \<longrightarrow> unat (format_len fmt) = record_length fmt)"

lemma gps_extended_extra [simp]: "gps_extended (fmt\<lparr>lf_extra_bytes := w\<rparr>) = gps_extended fmt"
  by (simp add: gps_extended_def)

lemma format_lawsD:
  assumes "format_laws format_new format_len"
  shows "6 \<le> i \<Longrightarrow> i \<le> 8 \<Longrightarrow> format_new i = Inr fmt \<Longrightarrow> gps_extended fmt"
    and "6 \<le> i \<Longrightarrow> i \<le> 8 \<Longrightarrow> format_new i = Inr fmt \<Longrightarrow> lf_extra_bytes fmt = 0"
    and "gps_extended fmt \<Longrightarrow> record_length fmt < 2 ^ 16 \<Longrightarrow> unat (format_len fmt) = record_length fmt"
  using assms unfolding format_laws_def by blast+

lemma record_length_extra:
  "record_length (fmt\<lparr>lf_extra_bytes := w\<rparr>) = record_length (fmt\<lparr>lf_extra_bytes := 0\<rparr>) + unat w"
  by (simp add: record_length_def)

lemma record_length_base: "lf_extra_bytes fmt = 0 \<Longrightarrow> record_length fmt \<le> 67"
  by (simp add: record_length_def)

lemma point_format_length:
  assumes laws: "format_laws format_new format_len" and f: "point_format_for format_new format_len h = Ok format"
  shows "record_length format = unat (lh_point_data_record_length h)" "unat (format_len format) = record_length format"
proof -
  obtain i fmt where i: "6 \<le> i" "i \<le> 8" and fmt: "format_new i = Inr fmt"
    and ge: "\<not> lh_point_data_record_length h < format_len fmt"
    and eq: "format = fmt\<lparr>lf_extra_bytes := lh_point_data_record_length h - format_len fmt\<rparr>"
    using f by (auto simp: point_format_for_def Let_def bind_res_Ok_iff split: if_splits sum.splits)
  have e0: "lf_extra_bytes fmt = 0" and x: "gps_extended fmt" using laws i fmt by (simp_all add: format_laws_def)
  then have z: "fmt\<lparr>lf_extra_bytes := 0\<rparr> = fmt" by simp
  have len: "unat (format_len fmt) = record_length fmt"
    using laws x record_length_base [OF e0] by (simp add: format_laws_def)
  have "unat (lh_point_data_record_length h - format_len fmt) = unat (lh_point_data_record_length h) - unat (format_len fmt)"
    using ge by (simp add: unat_sub word_le_nat_alt word_less_nat_alt not_less)
  then show l: "record_length format = unat (lh_point_data_record_length h)"
    unfolding eq using record_length_extra [where fmt = fmt] z len ge by (simp add: word_less_nat_alt not_less)
  then show "unat (format_len format) = record_length format"
    using laws x unat_bound [of "lh_point_data_record_length h"] by (simp add: format_laws_def eq)
qed

lemma decoder_new:
  assumes "chunk_column_decoder_new dz format_len laz format t b = Ok ck" "unat (format_len format) = record_length format"
  shows "decoder_for format ck" "ck_bounds ck = b" "ck_transforms ck = t" "ck_laz_vlr ck = laz"
  using assms by (auto simp: chunk_column_decoder_new_def bind_res_Ok_iff layout_for_format_eq decoder_for_def
      validated_record_size_def Let_def split: if_splits)

definition selected_specs :: "las_format \<Rightarrow> column_selection \<Rightarrow> column_spec list" where
  "selected_specs format selection =
     filter (\<lambda>sp. selection_contains selection (sp_dimension sp)) (format_specs format)"

lemma selected_specs_of_format: "list_all (spec_of_format format) (selected_specs format selection)"
  using format_specs_of_format [of format] by (auto simp: selected_specs_def list_all_iff)

lemma column_builders:
  assumes "capacity \<le> MAX_INITIAL_COLUMN_RESERVE_POINTS"
  shows "selected_column_builders format selection capacity = Ok (columns_of format (selected_specs format selection) [])"
proof -
  have "empty_column capacity sp = Ok (sp, empty_data (sp_scalar sp))" if "spec_of_format format sp" for sp
  proof (cases "sp_dimension sp = Dim_ExtraBytes")
    case True
    then have sp: "sp = spec_extra_bytes (unat (lf_extra_bytes format))" "0 < unat (lf_extra_bytes format)"
      using that by (simp_all add: spec_of_format_def)
    have w: "extra_byte_width sp = Some (unat (lf_extra_bytes format))"
      unfolding sp(1) by (rule extra_byte_width_extra [OF sp(2)])
    have "capacity * unat (lf_extra_bytes format) \<le> 4194304 * 65536"
      using assms unat_bound [of "lf_extra_bytes format"]
      by (intro mult_le_mono) (simp_all add: MAX_INITIAL_COLUMN_RESERVE_POINTS_def)
    then have "checked_mul_usize capacity (unat (lf_extra_bytes format)) = Some (capacity * unat (lf_extra_bytes format))"
      by (simp add: checked_mul_usize_def usize_max_def)
    moreover have "sp_scalar sp = Ty_U8" unfolding sp(1) by (simp add: spec_extra_bytes_def)
    ultimately show ?thesis using True w by (simp add: empty_column_def empty_data_def)
  next
    case False
    then show ?thesis by (cases "sp_scalar sp") (simp_all add: empty_column_def empty_data_def)
  qed
  then have "map_res (empty_column capacity) (selected_specs format selection) =
      Ok (map (\<lambda>sp. (sp, empty_data (sp_scalar sp))) (selected_specs format selection))"
    using selected_specs_of_format by (intro map_res_all_Ok) (auto simp: list_all_iff)
  then show ?thesis
    by (simp add: selected_column_builders_def layout_eq selected_specs_def columns_of_def column_of_def)
qed

definition read_points ::
  "('laz, 'd) read_ops \<Rightarrow> 'laz copc_file \<Rightarrow> point_query \<Rightarrow> bsection \<Rightarrow> (las_format \<times> point_rec list) result" where
  "read_points ops f q s =
     bind_res (select_point_chunks (ro_log2 ops) f q) (\<lambda>chunks.
     bind_res (point_format_for (ro_format_new ops) (ro_format_len ops) (cf_header f)) (\<lambda>format.
     bind_res (chunk_column_decoder_new (ro_decoder ops) (ro_format_len ops) (cf_laszip_vlr f) format
         (transforms_for (cf_header f)) (selection_bounds (pq_bounds q))) (\<lambda>ck.
     bind_res (map_res (entry_records (ro_decoder ops) (ro_direct ops) ck s) chunks) (\<lambda>recs.
     Ok (format, concat recs)))))"

lemma entry_records_fit:
  assumes "entry_records dz direct ck s e = Ok recs" "decoder_for format ck"
  shows "records_fit format recs"
proof -
  obtain bytes n t where 1: "chunk_records dz direct ck bytes n = Ok recs"
    using assms(1) by (auto simp: entry_records_def bind_res_Ok_iff split: prod.splits)
  then obtain d bufs d' r' where run: "run_records dz (ck_record_size ck) n d (section_new 0 bytes) = Ok (bufs, d', r')"
    and recs: "recs = accepted_records direct (ck_transforms ck) (ck_bounds ck) bufs"
    by (auto simp: chunk_records_def bind_res_Ok_iff split: prod.splits)
  have "list_all (\<lambda>buf. length buf = record_length format) bufs"
    using run_records_length [OF run] assms(2) by (simp add: decoder_for_def)
  then show ?thesis unfolding recs by (rule accepted_records_fit)
qed

lemma map_entry_records_fit:
  assumes "map_res (entry_records dz direct ck s) es = Ok recs" "decoder_for format ck"
  shows "records_fit format (concat recs)"
proof -
  have "list_all (records_fit format) recs"
    using assms(1) unfolding map_res_Ok_iff
    by (induction rule: list_all2_induct) (simp_all add: entry_records_fit [OF _ assms(2)])
  then show ?thesis by (induction recs) (simp_all add: records_fit_def)
qed

lemma selected_batch_valid:
  assumes "records_fit format recs"
  shows "validate_default_scalars \<lparr>lb_len = length recs, lb_columns = columns_of format (selected_specs format selection) recs\<rparr> = Ok ()"
proof -
  let ?specs = "selected_specs format selection"
  have d: "distinct (map sp_dimension (format_specs format))"
    unfolding format_specs_dims using format_dims_props [of format] by simp
  have "map (sp_dimension \<circ> fst) (columns_of format ?specs recs) = map sp_dimension ?specs"
    by (simp add: columns_of_def)
  moreover have "distinct (map sp_dimension ?specs)"
    unfolding selected_specs_def by (rule distinct_map_filter [OF d])
  ultimately have v: "batch_validate \<lparr>lb_len = length recs, lb_columns = columns_of format ?specs recs\<rparr> = Ok ()"
    using columns_of_typed [OF selected_specs_of_format assms] unfolding batch_validate_Ok_iff by simp
  have "list_all has_default_scalar ?specs"
    using format_specs_usable [of format] by (auto simp: selected_specs_def list_all_iff spec_usable_def)
  moreover have "list_all has_default_scalar specs \<Longrightarrow>
      fold_res (\<lambda>(sp, _) _. validate_default_scalar sp) (columns_of format specs recs) () = Ok ()" for specs
    unfolding columns_of_def by (induction specs) (simp_all add: validate_default_scalar_def)
  ultimately have "fold_res (\<lambda>(sp, _) _. validate_default_scalar sp) (columns_of format ?specs recs) () = Ok ()" by blast
  then show ?thesis using v by (simp add: validate_default_scalars_def)
qed

text \<open>What comes before the loop fails with the error of the specification, or gives empty columns.\<close>

lemma column_setup_cases:
  assumes laws: "format_laws (ro_format_new ops) (ro_format_len ops)"
    and ok: "hierarchy_ok len r (hierarchy_walk cf) n"
  obtains (fails) e where "column_setup ops cf q selection = Err e" "\<And>s. read_points ops cf q s = Err e"
  | (reads) chunks format ck where
      "column_setup ops cf q selection = Ok (chunks, format, ck, columns_of format (selected_specs format selection) [])"
      "decoder_for format ck"
      "\<And>s. read_points ops cf q s =
        bind_res (map_res (entry_records (ro_decoder ops) (ro_direct ops) ck s) chunks) (\<lambda>recs. Ok (format, concat recs))"
proof (cases "select_point_chunks (ro_log2 ops) cf q")
  case (Inl e)
  then show ?thesis using fails [of e] by (simp add: column_setup_def read_points_def)
next
  case sel: (Inr chunks)
  show ?thesis
  proof (cases "point_format_for (ro_format_new ops) (ro_format_len ops) (cf_header cf)")
    case (Inl e)
    then show ?thesis using fails [of e] by (simp add: column_setup_def read_points_def sel)
  next
    case fmt: (Inr format)
    show ?thesis
    proof (cases "chunk_column_decoder_new (ro_decoder ops) (ro_format_len ops) (cf_laszip_vlr cf) format
         (transforms_for (cf_header cf)) (selection_bounds (pq_bounds q))")
      case (Inl e)
      then show ?thesis using fails [of e] by (simp add: column_setup_def read_points_def sel fmt)
    next
      case dec: (Inr ck)
      have tot: "\<exists>m. total_candidate_points chunks = Ok m"
        by (rule query_open [OF ok [unfolded hierarchy_walk_def] sel [unfolded select_point_chunks_def]]) blast
      obtain capacity where cap: "(case ck_bounds ck of Some _ \<Rightarrow> Ok 0
           | None \<Rightarrow> bind_res (total_candidate_points chunks) (\<lambda>n. Ok (min n MAX_INITIAL_COLUMN_RESERVE_POINTS))) =
          (Ok capacity :: nat result)" "capacity \<le> MAX_INITIAL_COLUMN_RESERVE_POINTS"
        using tot by (cases "ck_bounds ck") auto
      have "column_setup ops cf q selection = Ok (chunks, format, ck, columns_of format (selected_specs format selection) [])"
        unfolding column_setup_def sel fmt dec bind_res_simps cap(1) column_builders [OF cap(2)] ..
      then show ?thesis
        by (rule reads [OF _ decoder_new(1) [OF dec point_format_length(2) [OF laws fmt]]])
          (simp add: read_points_def sel fmt dec)
    qed
  qed
qed

text \<open>What comes after it: the columns of records that were read form a valid batch.\<close>

lemma finish_batch_read:
  assumes "read_to dz direct ck format (selected_specs format selection) s chunks st" "decoder_for format ck"
    and "map_res (entry_records dz direct ck s) chunks = Ok recs"
  shows "\<exists>polls t. finish_batch st = Ok (\<lparr>lb_len = length (concat recs),
        lb_columns = columns_of format (selected_specs format selection) (concat recs)\<rparr>, polls, t)"
    and "validate_default_scalars \<lparr>lb_len = length (concat recs),
        lb_columns = columns_of format (selected_specs format selection) (concat recs)\<rparr> = Ok ()"
proof -
  show "validate_default_scalars \<lparr>lb_len = length (concat recs),
        lb_columns = columns_of format (selected_specs format selection) (concat recs)\<rparr> = Ok ()"
    by (rule selected_batch_valid [OF map_entry_records_fit [OF assms(3,2)]])
  then show "\<exists>polls t. finish_batch st = Ok (\<lparr>lb_len = length (concat recs),
        lb_columns = columns_of format (selected_specs format selection) (concat recs)\<rparr>, polls, t)"
    using assms(1,3) by (cases st) (auto simp: finish_batch_def read_to_def validate_default_scalars_def bind_res_Ok_iff Let_def)
qed

lemma read_columns_spec:
  assumes laws: "format_laws (ro_format_new ops) (ro_format_len ops)"
    and ok: "hierarchy_ok len r (hierarchy_walk cf) n"
  shows "case read_columns_inner ops cf q selection cancel polls s of
      Inl e \<Rightarrow> cancels cancel e \<or> read_points ops cf q s = Err e
    | Inr (batch, _) \<Rightarrow>
        (case read_points ops cf q s of
           Inl _ \<Rightarrow> False
         | Inr (format, recs) \<Rightarrow>
             batch = \<lparr>lb_len = length recs, lb_columns = columns_of format (selected_specs format selection) recs\<rparr> \<and>
             validate_default_scalars batch = Ok ())"
  using laws ok
proof (cases rule: column_setup_cases [where q = q and selection = selection])
  case (fails e)
  then show ?thesis by (simp add: read_columns_inner_def)
next
  case (reads chunks format ck)
  let ?f = "fold_res (read_chunk_columns (ro_decoder ops) (ro_direct ops) ck cancel) chunks
    (columns_of format (selected_specs format selection) [], 0, polls, s)"
  have spec: "res_spec (\<lambda>err. cancels cancel err \<or> map_res (entry_records (ro_decoder ops) (ro_direct ops) ck s) chunks = Err err)
      (read_to (ro_decoder ops) (ro_direct ops) ck format (selected_specs format selection) s chunks) ?f"
    by (rule read_chunks_spec [OF reads(2) selected_specs_of_format])
  show ?thesis
  proof (cases ?f)
    case (Inl e)
    then show ?thesis using spec by (auto simp: read_columns_inner_def reads)
  next
    case (Inr st)
    have to: "read_to (ro_decoder ops) (ro_direct ops) ck format (selected_specs format selection) s chunks st"
      using spec Inr by simp
    then obtain recs where recs: "map_res (entry_records (ro_decoder ops) (ro_direct ops) ck s) chunks = Ok recs"
      by (cases st) (auto simp: read_to_def)
    show ?thesis using finish_batch_read [OF to reads(2) recs] Inr by (auto simp: read_columns_inner_def reads recs)
  qed
qed

text \<open>C27: a column read, every branch. When the chunks of the query can be read and decompressed the
  read returns, for each selected dimension of the point format, the values of all accepted records in
  chunk order, as a batch that passes validation with the default scalar types; otherwise it returns
  their first error, or that of the cancellation check. So a read never fails with a type mismatch, a
  capacity overflow or a panic, and without cancellation it returns whenever the chunks are readable.\<close>

theorem read_columns_exact:
  assumes laws: "format_laws (ro_format_new ops) (ro_format_len ops)"
    and ok: "hierarchy_ok len r (hierarchy_walk cf) n"
  shows "case read_columns_inner ops cf q selection cancel polls s of
      Inl e \<Rightarrow> cancels cancel e \<or> read_points ops cf q s = Err e
    | Inr (batch, _) \<Rightarrow>
        (case read_points ops cf q s of
           Inl _ \<Rightarrow> False
         | Inr (format, recs) \<Rightarrow>
             batch = \<lparr>lb_len = length recs, lb_columns = columns_of format (selected_specs format selection) recs\<rparr> \<and>
             validate_default_scalars batch = Ok ())"
  using assms by (rule read_columns_spec)

text \<open>A file with one chunk of one record of zeros, and a decoder that yields it.\<close>

definition sample_entry :: entry where
  "sample_entry = \<lparr>e_key = vk_root, e_offset = 0, e_byte_size = 1, e_point_count = 1\<rparr>"

definition sample_las_format :: las_format where
  "sample_las_format = \<lparr>lf_has_gps_time = True, lf_has_color = False, lf_is_extended = True, lf_has_waveform = False,
     lf_has_nir = False, lf_extra_bytes = 0\<rparr>"

definition sample_ops :: "(unit, unit) read_ops" where
  "sample_ops = \<lparr>ro_log2 = (\<lambda>x. x), ro_format_new = (\<lambda>_. Inr sample_las_format),
     ro_format_len = (\<lambda>fmt. of_nat (record_length fmt)), ro_direct = (\<lambda>_ _. 0),
     ro_decoder = \<lparr>dz_new = (), dz_set_fields = (\<lambda>_ _. Inr ()), dz_record_size = (\<lambda>_. 30),
       dz_reset = (\<lambda>_. ()), dz_next = (\<lambda>_ _ r. Inr (\<lambda>_. 0, (), r))\<rparr>\<rparr>"

definition sample_file :: "unit copc_file" where
  "sample_file = \<lparr>cf_header = \<lparr>lh_point_data_record_format = 6, lh_point_data_record_length = 30,
       lh_offset_to_point_data = 0, lh_number_of_vlrs = 0, lh_scale = (0, 0, 0), lh_offset = (0, 0, 0),
       lh_min = (0, 0, 0), lh_max = (0, 0, 0), lh_offset_to_first_evlr = 0, lh_number_of_evlrs = 0,
       lh_number_of_points = 1\<rparr>,
     cf_copc_info = \<lparr>ci_center = (0, 0, 0), ci_halfsize = 0, ci_spacing = 0, ci_root_hier_offset = 0,
       ci_root_hier_size = 0, ci_gpstime_min = 0, ci_gpstime_max = 0\<rparr>,
     cf_laszip_vlr = (), cf_root_hierarchy = \<lparr>page_entries = []\<rparr>,
     cf_hierarchy = RBT.insert vk_root sample_entry RBT.empty\<rparr>"

lemma sample_file_hierarchy: "hierarchy_values (cf_hierarchy sample_file) = [sample_entry]"
proof -
  have "RBT.entries (RBT.insert vk_root sample_entry RBT.empty) = [(vk_root, sample_entry)]" by code_simp
  then show ?thesis by (simp add: sample_file_def hierarchy_values_def)
qed

lemma sample_file_ok:
  "hierarchy_ok 1 \<lparr>point_data_start = 0, point_data_end = 1, hierarchy_start = 0, hierarchy_end = 0\<rparr>
    (hierarchy_walk sample_file) 1"
  by (simp add: hierarchy_walk_def sample_file_hierarchy hierarchy_ok_def validate_hierarchy_entry_Ok_iff
      entry_validate_Ok_iff sample_entry_def has_point_data_def is_child_page_def entry_hi_def entry_lo_def
      MAX_POINT_CHUNK_BYTES_def entry_points_def)

lemma sample_format_len: "format_laws (ro_format_new sample_ops) (ro_format_len sample_ops)"
  by (simp add: format_laws_def gps_extended_def sample_ops_def sample_las_format_def unat_of_nat_small)

lemma sample_selects: "select_point_chunks (ro_log2 sample_ops) sample_file query_all = Ok [sample_entry]"
proof -
  have v: "list_all (\<lambda>e. entry_validate e = Ok ()) [sample_entry]"
    using open_entries_valid [OF sample_file_ok] by (simp add: hierarchy_walk_def sample_file_hierarchy)
  show ?thesis
    unfolding select_point_chunks_def sample_file_hierarchy select_valid [OF v]
    by (simp add: query_all_def validate_query_def level_range_def wanted_def levels_contain_def box_meets_def
        sample_entry_def has_point_data_def vk_root_def)
qed

lemma sample_record_length: "record_length sample_las_format = 30"
  by (simp add: record_length_def sample_las_format_def)

lemma sample_point_format:
  "point_format_for (ro_format_new sample_ops) (ro_format_len sample_ops) (cf_header sample_file) = Ok sample_las_format"
  by (simp add: point_format_for_def sample_ops_def sample_file_def sample_record_length) (simp add: sample_las_format_def)

lemma sample_read_points:
  "read_points sample_ops sample_file query_all (section_new 0 [0]) =
    Ok (sample_las_format, [(replicate 30 0, (0, 0, 0))])"
proof -
  have ext: "lf_is_extended sample_las_format" by (simp add: sample_las_format_def)
  have dec: "chunk_column_decoder_new (ro_decoder sample_ops) (ro_format_len sample_ops) (cf_laszip_vlr sample_file)
      sample_las_format t b =
    Ok \<lparr>ck_laz_vlr = (), ck_layout = layout_of sample_las_format, ck_transforms = t, ck_bounds = b, ck_record_size = 30\<rparr>"
    for t b
    by (simp add: chunk_column_decoder_new_def layout_for_format_eq validated_record_size_def
        configure_layered_decompressor_def sample_ops_def sample_record_length ext Let_def)
  have bytes: "read_chunk_bytes sample_entry (section_new 0 [0]) = Ok (([0], 1), \<lparr>sec_base = 0, sec_data = [0], sec_pos = 1\<rparr>)"
    by (simp add: read_chunk_bytes_def sample_entry_def usize_try_from_i32_def rbind_def rlift_def rseek_def
        section_seek_def section_new_def read_exact_def section_read_def rret_def Let_def)
  have rep: "map (\<lambda>_. 0) [0..<30] = replicate 30 (0 :: u8)" by (simp add: map_replicate_const)
  have recs: "chunk_records (ro_decoder sample_ops) (ro_direct sample_ops)
      \<lparr>ck_laz_vlr = (), ck_layout = l, ck_transforms = t, ck_bounds = None, ck_record_size = 30\<rparr> [0] (Suc 0) =
    Ok [(replicate 30 0, (0, 0, 0))]" for l t
    by (simp add: chunk_records_def configure_layered_decompressor_def sample_ops_def next_record_def Let_def
        accepted_records_def locate_def direct_xyz_def outside_def rep)
  show ?thesis
    unfolding read_points_def sample_selects sample_point_format bind_res_simps dec
    using recs by (simp add: entry_records_def bytes query_all_def selection_bounds_def)
qed

text \<open>Reading the intensity and the return number of that file.\<close>

definition sample_selection :: column_selection where
  "sample_selection = from_dimensions [Dim_Intensity, Dim_ReturnNumber]"

theorem read_columns_exact_witness:
  "case read_columns_inner sample_ops sample_file query_all sample_selection None 0 (section_new 0 [0]) of
     Inl e \<Rightarrow> False
   | Inr (batch, _) \<Rightarrow> lb_len batch = 1 \<and>
       lb_columns batch = columns_of sample_las_format (selected_specs sample_las_format sample_selection)
         [(replicate 30 0, (0, 0, 0))]"
  using read_columns_exact [OF sample_format_len sample_file_ok, where q = query_all
      and selection = sample_selection and cancel = None and polls = 0 and s = "section_new 0 [0]"]
  by (auto simp: sample_read_points split: sum.splits prod.splits)

end
