(* ===== verification/Record_Codec.thy ===== *)
theory Record_Codec
  imports Column_Read
begin

text \<open>
  The round trip of a point record: what \<^verbatim>\<open>encode_point_record\<close> of the writer puts in the buffer is what
  the reader's columns take out of it. The bytes of a record are first shown to be the concatenation of
  its fields, then each packed byte is taken apart bit by bit.
\<close>

section \<open>Consecutive slices\<close>

fun contiguous :: "nat \<Rightarrow> (nat \<times> u8 list) list \<Rightarrow> bool" where
  "contiguous a [] = True"
| "contiguous a ((b, ys) # segs) = (b = a \<and> contiguous (a + length ys) segs)"

lemma copy_slices:
  assumes "contiguous (length pre) segs" "sum_list (map (length \<circ> snd) segs) \<le> length rest"
  shows "fold_res copy_slice segs (pre @ rest) =
    Ok (pre @ concat (map snd segs) @ drop (sum_list (map (length \<circ> snd) segs)) rest)"
  using assms
proof (induction segs arbitrary: pre rest)
  case (Cons seg segs)
  obtain ys where seg: "seg = (length pre, ys)" using Cons.prems(1) by (cases seg) auto
  have "copy_slice seg (pre @ rest) = Ok ((pre @ ys) @ drop (length ys) rest)"
    using Cons.prems(2) by (simp add: seg copy_slice_def put_at_append)
  moreover have "fold_res copy_slice segs ((pre @ ys) @ drop (length ys) rest) =
      Ok ((pre @ ys) @ concat (map snd segs) @ drop (sum_list (map (length \<circ> snd) segs)) (drop (length ys) rest))"
    by (rule Cons.IH) (use Cons.prems seg in auto)
  ultimately show ?case by (simp add: seg add.commute comp_def)
qed simp

section \<open>The bytes of a record\<close>

definition return_byte :: "copc_point_fields \<Rightarrow> u8" where
  "return_byte f = cf_return_number f OR push_bit 4 (cf_number_of_returns f)"

definition flag_byte :: "copc_point_fields \<Rightarrow> u8" where
  "flag_byte f = cf_synthetic f OR push_bit 1 (cf_key_point f) OR push_bit 2 (cf_withheld f)
     OR push_bit 3 (cf_overlap f) OR push_bit 4 (cf_scan_channel f)
     OR push_bit 6 (cf_scan_direction_flag f) OR push_bit 7 (cf_edge_of_flight_line f)"

definition point_bytes :: "las_format \<Rightarrow> copc_point_fields \<Rightarrow> i32 \<times> i32 \<times> i32 \<Rightarrow> u8 list" where
  "point_bytes format f q =
     (case q of (ix, iy, iz) \<Rightarrow>
        u32_to_le ix @ u32_to_le iy @ u32_to_le iz @ u16_to_le (cf_intensity f) @
        [return_byte f, flag_byte f, cf_classification f, cf_user_data f] @
        u16_to_le (scan_angle_to_las_scaled (cf_scan_angle f)) @ u16_to_le (cf_point_source_id f) @
        u64_to_le (cf_gps_time f) @
        (if lf_has_color format then u16_to_le (cf_red f) @ u16_to_le (cf_green f) @ u16_to_le (cf_blue f) else []) @
        cf_extra_bytes f)"

text \<open>The formats the writer emits: extended, without near infrared and waveform data.\<close>

definition writer_format :: "las_format \<Rightarrow> bool" where
  "writer_format format \<longleftrightarrow> lf_is_extended format \<and> \<not> lf_has_nir format \<and> \<not> lf_has_waveform format"

lemma encode_point_record_eq:
  assumes w: "writer_format format" and len: "length buf = record_length format"
  shows "encode_point_record f scale offset format buf =
    bind_res (quantize_xyz (cf_x f) (cf_y f) (cf_z f) scale offset) (\<lambda>q.
      if length (cf_extra_bytes f) \<noteq> unat (lf_extra_bytes format)
      then Err (InvalidInput ''point {point_index} has {} extra byte(s), expected {}'')
      else Ok (point_bytes format f q))"
proof (cases "quantize_xyz (cf_x f) (cf_y f) (cf_z f) scale offset")
  case (Inl e)
  then show ?thesis by (simp add: encode_point_record_def)
next
  case (Inr q)
  obtain ix iy iz where q: "q = (ix, iy, iz)" by (cases q)
  let ?segs = "[(0, u32_to_le ix), (4, u32_to_le iy), (8, u32_to_le iz), (12, u16_to_le (cf_intensity f)),
        (14, [return_byte f]), (15, [flag_byte f]), (16, [cf_classification f]), (17, [cf_user_data f]),
        (18, u16_to_le (scan_angle_to_las_scaled (cf_scan_angle f))),
        (20, u16_to_le (cf_point_source_id f)), (22, u64_to_le (cf_gps_time f))] :: (nat \<times> u8 list) list"
  let ?cols = "[(30, u16_to_le (cf_red f)), (32, u16_to_le (cf_green f)), (34, u16_to_le (cf_blue f))] :: (nat \<times> u8 list) list"
  have head: "fold_res copy_slice ?segs buf = Ok (concat (map snd ?segs) @ drop 30 buf)"
    using copy_slices [of "[]" ?segs buf] len by (simp add: record_length_def)
  have l30: "length (concat (map snd ?segs)) = 30" by simp
  have start: "encode_point_record f scale offset format buf =
      bind_res (if lf_has_color format
        then bind_res (fold_res copy_slice ?cols (concat (map snd ?segs) @ drop 30 buf)) (\<lambda>buf. Ok (buf, 36))
        else Ok (concat (map snd ?segs) @ drop 30 buf, 30)) (\<lambda>(buf, cursor).
      if length (cf_extra_bytes f) \<noteq> length buf - cursor
      then Err (InvalidInput ''point {point_index} has {} extra byte(s), expected {}'')
      else copy_slice (cursor, cf_extra_bytes f) buf)"
    unfolding encode_point_record_def Inr q bind_res_simps prod.case
      return_byte_def [symmetric] flag_byte_def [symmetric] head ..
  show ?thesis
  proof (cases "lf_has_color format")
    case True
    have rl: "record_length format = 36 + unat (lf_extra_bytes format)"
      using w True by (simp add: record_length_def writer_format_def)
    have cols: "fold_res copy_slice ?cols (concat (map snd ?segs) @ drop 30 buf) =
        Ok ((concat (map snd ?segs) @ concat (map snd ?cols)) @ drop 36 buf)"
      using copy_slices [of "concat (map snd ?segs)" ?cols "drop 30 buf"] len rl by simp
    have last: "copy_slice (36, cf_extra_bytes f) ((concat (map snd ?segs) @ concat (map snd ?cols)) @ drop 36 buf) =
        Ok ((concat (map snd ?segs) @ concat (map snd ?cols)) @ cf_extra_bytes f)"
      if "length (cf_extra_bytes f) = unat (lf_extra_bytes format)"
      using that len rl put_at_append [of "concat (map snd ?segs) @ concat (map snd ?cols)" 36 "drop 36 buf" "cf_extra_bytes f"]
      by (simp add: copy_slice_def)
    have l: "length ((concat (map snd ?segs) @ concat (map snd ?cols)) @ drop 36 buf) - 36 = unat (lf_extra_bytes format)"
      using len rl by simp
    show ?thesis
      unfolding start Inr q bind_res_simps if_P [OF True] cols prod.case l
      using last True by (simp add: point_bytes_def)
  next
    case False
    have rl: "record_length format = 30 + unat (lf_extra_bytes format)"
      using w False by (simp add: record_length_def writer_format_def)
    have last: "copy_slice (30, cf_extra_bytes f) (concat (map snd ?segs) @ drop 30 buf) =
        Ok (concat (map snd ?segs) @ cf_extra_bytes f)"
      if "length (cf_extra_bytes f) = unat (lf_extra_bytes format)"
      using that len rl put_at_append [of "concat (map snd ?segs)" 30 "drop 30 buf" "cf_extra_bytes f"]
      by (simp add: copy_slice_def)
    have l: "length (concat (map snd ?segs) @ drop 30 buf) - 30 = unat (lf_extra_bytes format)"
      using len rl by simp
    show ?thesis
      unfolding start Inr q bind_res_simps if_not_P [OF False] prod.case l
      using last False by (simp add: point_bytes_def)
  qed
qed

section \<open>Packed bytes\<close>

lemma small_bits: "unat (w :: u8) < 2 ^ k \<Longrightarrow> k \<le> n \<Longrightarrow> \<not> bit w n"
proof
  assume a: "unat w < 2 ^ k" "k \<le> n" and b: "bit w n"
  have "(2 :: nat) ^ k \<le> 2 ^ n" using a(2) by (rule power_increasing) simp
  with a(1) have "unat w < 2 ^ n" by (rule less_le_trans)
  then have "unat w div 2 ^ n = 0" by (rule div_less)
  then have "\<not> bit (unat w) n" by (simp add: bit_iff_odd)
  then show False using b by (simp add: bit_unsigned_iff)
qed

lemma bit_below:
  "(w :: u8) \<le> 1 \<Longrightarrow> bit w n \<Longrightarrow> n = 0" "(w :: u8) \<le> 3 \<Longrightarrow> bit w n \<Longrightarrow> n < 2"
  "(w :: u8) \<le> 15 \<Longrightarrow> bit w n \<Longrightarrow> n < 4"
proof -
  show "w \<le> 1 \<Longrightarrow> bit w n \<Longrightarrow> n = 0"
    using small_bits [of w 1 n] by (cases n) (simp_all add: word_le_nat_alt)
  show "w \<le> 3 \<Longrightarrow> bit w n \<Longrightarrow> n < 2"
    using small_bits [of w 2 n] by (cases "2 \<le> n") (simp_all add: word_le_nat_alt)
  show "w \<le> 15 \<Longrightarrow> bit w n \<Longrightarrow> n < 4"
    using small_bits [of w 4 n] by (cases "4 \<le> n") (simp_all add: word_le_nat_alt)
qed

lemma byte_eqI: "(\<And>n. n < 8 \<Longrightarrow> bit (v :: u8) n \<longleftrightarrow> bit w n) \<Longrightarrow> v = w"
  by (rule bit_word_eqI) simp

lemma low_masks: "(15 :: u8) = mask 4" "(3 :: u8) = mask 2" "(1 :: u8) = mask 1"
  by (simp_all add: mask_eq_exp_minus_1)

lemma less8: "n < 8 \<Longrightarrow> n = 0 \<or> n = 1 \<or> n = 2 \<or> n = 3 \<or> n = 4 \<or> n = 5 \<or> n = 6 \<or> n = (7 :: nat)"
  by auto

lemma flag_tests:
  "(b :: u8) AND 1 = 1 \<longleftrightarrow> bit b 0" "b AND 2 = 2 \<longleftrightarrow> bit b 1" "b AND 4 = 4 \<longleftrightarrow> bit b 2" "b AND 8 = 8 \<longleftrightarrow> bit b 3"
  "drop_bit 6 b AND 1 = 1 \<longleftrightarrow> bit b 6" "drop_bit 7 b = 1 \<longleftrightarrow> bit b 7"
proof -
  have t: "c AND 2 ^ n = 2 ^ n \<longleftrightarrow> bit c n" if "n < 8" for c :: u8 and n
  proof
    assume "c AND 2 ^ n = 2 ^ n"
    then have "bit (c AND 2 ^ n) n \<longleftrightarrow> bit (2 ^ n :: u8) n" by simp
    then show "bit c n" using that by (simp add: bit_simps)
  next
    assume "bit c n"
    then show "c AND 2 ^ n = 2 ^ n" using that by (intro byte_eqI) (auto simp: bit_simps)
  qed
  show "b AND 1 = 1 \<longleftrightarrow> bit b 0" "b AND 2 = 2 \<longleftrightarrow> bit b 1" "b AND 4 = 4 \<longleftrightarrow> bit b 2" "b AND 8 = 8 \<longleftrightarrow> bit b 3"
      "drop_bit 6 b AND 1 = 1 \<longleftrightarrow> bit b 6"
    using t [where c = b and n = 0] t [where c = b and n = 1] t [where c = b and n = 2] t [where c = b and n = 3]
      t [where c = "drop_bit 6 b" and n = 0] by (simp_all add: bit_simps)
  have "drop_bit 7 b = of_bool (bit b 7)"
  proof (rule byte_eqI)
    fix n :: nat assume "n < 8"
    then show "bit (drop_bit 7 b) n \<longleftrightarrow> bit (of_bool (bit b 7) :: u8) n"
      using small_bits [of b 8 "7 + n"] unat_bound [of b]
      by (cases "n = 0") (auto simp: bit_simps add.commute)
  qed
  then show "drop_bit 7 b = 1 \<longleftrightarrow> bit b 7" by simp
qed

lemma return_byte_parts:
  assumes "cf_return_number f \<le> 15" "cf_number_of_returns f \<le> 15"
  shows "return_byte f AND 15 = cf_return_number f" "drop_bit 4 (return_byte f) AND 15 = cf_number_of_returns f"
proof -
  note below = bit_below(3) [OF assms(1)] bit_below(3) [OF assms(2)]
  show "return_byte f AND 15 = cf_return_number f"
    by (rule byte_eqI) (auto simp: return_byte_def low_masks bit_simps dest: below)
  show "drop_bit 4 (return_byte f) AND 15 = cf_number_of_returns f"
    by (rule byte_eqI) (auto simp: return_byte_def low_masks bit_simps dest: below)
qed

lemma bit0_one: "(w :: u8) \<le> 1 \<Longrightarrow> bit w 0 \<longleftrightarrow> w = 1"
proof -
  assume w: "w \<le> 1"
  have "w = of_bool (bit w 0)"
    by (rule byte_eqI) (auto simp: bit_simps dest: bit_below(1) [OF w])
  then show ?thesis by (metis of_bool_eq(1,2) zero_neq_one)
qed

lemma flag_byte_parts:
  assumes "flags_in_range f"
  shows "bit (flag_byte f) 0 \<longleftrightarrow> cf_synthetic f = 1" "bit (flag_byte f) 1 \<longleftrightarrow> cf_key_point f = 1"
    "bit (flag_byte f) 2 \<longleftrightarrow> cf_withheld f = 1" "bit (flag_byte f) 3 \<longleftrightarrow> cf_overlap f = 1"
    "bit (flag_byte f) 6 \<longleftrightarrow> cf_scan_direction_flag f = 1" "bit (flag_byte f) 7 \<longleftrightarrow> cf_edge_of_flight_line f = 1"
    "drop_bit 4 (flag_byte f) AND 3 = cf_scan_channel f"
proof -
  have r: "cf_synthetic f \<le> 1" "cf_key_point f \<le> 1" "cf_withheld f \<le> 1" "cf_overlap f \<le> 1"
      "cf_scan_direction_flag f \<le> 1" "cf_edge_of_flight_line f \<le> 1" "cf_scan_channel f \<le> 3"
    using assms by (simp_all add: flags_in_range_def)
  note below = bit_below(1) [OF r(1)] bit_below(1) [OF r(2)] bit_below(1) [OF r(3)] bit_below(1) [OF r(4)]
    bit_below(1) [OF r(5)] bit_below(2) [OF r(7)]
  note one = bit0_one [OF r(1)] bit0_one [OF r(2)] bit0_one [OF r(3)] bit0_one [OF r(4)]
    bit0_one [OF r(5)] bit0_one [OF r(6)]
  show "bit (flag_byte f) 0 \<longleftrightarrow> cf_synthetic f = 1" "bit (flag_byte f) 1 \<longleftrightarrow> cf_key_point f = 1"
    "bit (flag_byte f) 2 \<longleftrightarrow> cf_withheld f = 1" "bit (flag_byte f) 3 \<longleftrightarrow> cf_overlap f = 1"
    "bit (flag_byte f) 6 \<longleftrightarrow> cf_scan_direction_flag f = 1" "bit (flag_byte f) 7 \<longleftrightarrow> cf_edge_of_flight_line f = 1"
    unfolding one [symmetric] by (auto simp: flag_byte_def bit_simps simp del: push_bit_Suc One_nat_def dest: below)
  show "drop_bit 4 (flag_byte f) AND 3 = cf_scan_channel f"
  proof (rule byte_eqI)
    fix n :: nat assume "n < 8"
    then show "bit (drop_bit 4 (flag_byte f) AND 3) n \<longleftrightarrow> bit (cf_scan_channel f) n"
      by (auto simp: flag_byte_def low_masks bit_simps simp del: push_bit_Suc One_nat_def dest: below)
  qed
qed

section \<open>The fields of a record\<close>

lemma bslice_skip: "length xs \<le> a \<Longrightarrow> bslice (xs @ ys) a n = bslice ys (a - length xs) n"
  by (simp add: bslice_def)

lemma bslice_Cons: "0 < a \<Longrightarrow> bslice (x # ys) a n = bslice ys (a - 1) n"
  by (simp add: bslice_def drop_Cons')

lemma bslice_hit: "length xs = n \<Longrightarrow> bslice (xs @ ys) 0 n = xs"
  by (simp add: bslice_def)

lemma bslice_end: "length xs = n \<Longrightarrow> bslice xs 0 n = xs"
  by (simp add: bslice_def)

lemma point_bytes_fields:
  fixes format f and ix iy iz :: i32
  defines "bs \<equiv> point_bytes format f (ix, iy, iz)"
  shows "get_u32 bs 0 = ix" "get_u32 bs 4 = iy" "get_u32 bs 8 = iz" "get_u16 bs 12 = cf_intensity f"
    "bs ! 14 = return_byte f" "bs ! 15 = flag_byte f" "bs ! 16 = cf_classification f" "bs ! 17 = cf_user_data f"
    "get_u16 bs 18 = scan_angle_to_las_scaled (cf_scan_angle f)" "get_u16 bs 20 = cf_point_source_id f"
    "get_u64 bs 22 = cf_gps_time f"
  unfolding bs_def point_bytes_def get_u16_def get_u32_def get_u64_def
  by (simp_all add: bslice_skip bslice_Cons bslice_hit nth_append)

lemma point_bytes_color:
  assumes "lf_has_color format"
  shows "get_u16 (point_bytes format f q) 30 = cf_red f" "get_u16 (point_bytes format f q) 32 = cf_green f"
    "get_u16 (point_bytes format f q) 34 = cf_blue f" "bslice (point_bytes format f q) 36 (length (cf_extra_bytes f)) = cf_extra_bytes f"
  using assms by (cases q; simp add: point_bytes_def get_u16_def bslice_skip bslice_Cons bslice_hit bslice_end)+

lemma point_bytes_extra:
  assumes "\<not> lf_has_color format"
  shows "bslice (point_bytes format f q) 30 (length (cf_extra_bytes f)) = cf_extra_bytes f"
  using assms by (cases q) (simp add: point_bytes_def bslice_skip bslice_Cons bslice_end)

lemma length_point_bytes:
  assumes "writer_format format" "length (cf_extra_bytes f) = unat (lf_extra_bytes format)"
  shows "length (point_bytes format f q) = record_length format"
  using assms by (cases q) (simp add: point_bytes_def record_length_def writer_format_def)

text \<open>The columns a point should give.\<close>

definition field_data :: "las_format \<Rightarrow> copc_point_fields \<Rightarrow> xyz \<Rightarrow> las_dimension \<Rightarrow> column_data" where
  "field_data format f p d =
     (case d of
        Dim_X \<Rightarrow> F64 [fst p] | Dim_Y \<Rightarrow> F64 [fst (snd p)] | Dim_Z \<Rightarrow> F64 [snd (snd p)]
      | Dim_Intensity \<Rightarrow> U16 [cf_intensity f]
      | Dim_ReturnNumber \<Rightarrow> U8 [cf_return_number f]
      | Dim_NumberOfReturns \<Rightarrow> U8 [cf_number_of_returns f]
      | Dim_Classification \<Rightarrow> U8 [class_of (cf_classification f)]
      | Dim_ScanDirectionFlag \<Rightarrow> Bool [cf_scan_direction_flag f = 1]
      | Dim_EdgeOfFlightLine \<Rightarrow> Bool [cf_edge_of_flight_line f = 1]
      | Dim_ScanAngle \<Rightarrow> F32 [scan_degrees (scan_angle_to_las_scaled (cf_scan_angle f))]
      | Dim_UserData \<Rightarrow> U8 [cf_user_data f]
      | Dim_PointSourceId \<Rightarrow> U16 [cf_point_source_id f]
      | Dim_Synthetic \<Rightarrow> Bool [cf_synthetic f = 1]
      | Dim_KeyPoint \<Rightarrow> Bool [cf_key_point f = 1]
      | Dim_Withheld \<Rightarrow> Bool [cf_withheld f = 1]
      | Dim_Overlap \<Rightarrow> Bool [cf_overlap f = 1]
      | Dim_ScanChannel \<Rightarrow> U8 [cf_scan_channel f]
      | Dim_GpsTime \<Rightarrow> F64 [cf_gps_time f]
      | Dim_Red \<Rightarrow> U16 [if lf_has_color format then cf_red f else 0]
      | Dim_Green \<Rightarrow> U16 [if lf_has_color format then cf_green f else 0]
      | Dim_Blue \<Rightarrow> U16 [if lf_has_color format then cf_blue f else 0]
      | Dim_Nir \<Rightarrow> U16 [0] | Dim_WaveformPacketDescriptorIndex \<Rightarrow> U8 [0]
      | Dim_WaveformPacketByteOffset \<Rightarrow> U64 [0] | Dim_WaveformPacketSize \<Rightarrow> U32 [0]
      | Dim_WavePacketReturnPointWaveformLocation \<Rightarrow> F32 [0]
      | Dim_ExtraBytes \<Rightarrow> U8 (cf_extra_bytes f))"

lemma record_data_point_bytes:
  assumes w: "writer_format format" and r: "flags_in_range f"
    and e: "length (cf_extra_bytes f) = unat (lf_extra_bytes format)"
  shows "record_data format (point_bytes format f q) p d = field_data format f p d"
proof -
  obtain ix iy iz where q: "q = (ix, iy, iz)" by (cases q)
  have rn: "cf_return_number f \<le> 15" "cf_number_of_returns f \<le> 15" using r by (simp_all add: flags_in_range_def)
  have lay: "layout_of format = \<lparr>el_color_offset = (if lf_has_color format then Some 30 else None),
      el_nir_offset = None, el_waveform_offset = None,
      el_extra_offset = (if lf_has_color format then 36 else 30), el_extra_len = unat (lf_extra_bytes format)\<rparr>"
    using w by (simp add: layout_of_def writer_format_def Let_def)
  note facts = point_bytes_fields [of format f ix iy iz, folded q] return_byte_parts [OF rn] flag_byte_parts [OF r, unfolded One_nat_def]
    flag_tests e
  show ?thesis
    using point_bytes_color [of format f q] point_bytes_extra [of format f q]
    by (cases d) (auto simp: record_data_def field_data_def Let_def lay opt_get_def facts bit_drop_bit_eq)
qed

lemma data_append_empty:
  assumes "data_scalar x \<in> {Ty_F64, Ty_F32, Ty_U64, Ty_U32, Ty_U16, Ty_U8, Ty_Bool}"
  shows "data_append (empty_data (data_scalar x)) x = x"
  using assms by (cases x) (simp_all add: data_scalar_def empty_data_def)

lemma columns_of_one:
  assumes "list_all (spec_of_format format) specs"
  shows "columns_of format specs [(buf, p)] = map (\<lambda>sp. (sp, record_data format buf p (sp_dimension sp))) specs"
proof -
  have "column_of format [(buf, p)] sp = record_data format buf p (sp_dimension sp)" if "spec_of_format format sp" for sp
    using data_append_empty [of "record_data format buf p (sp_dimension sp)"]
      record_data_scalar [OF that] spec_scalar_range [OF that] by (simp add: column_of_def)
  then show ?thesis using assms by (simp add: columns_of_def list_all_iff)
qed

text \<open>C28: a point survives the record format: when the encoder accepts a point whose packed fields are in
  range, the reader takes the quantized coordinates and, for every selected dimension, exactly the
  encoded field out of the record; the scan angle comes back as the multiple of 0.006 degrees it was
  rounded to, and the class 12 as 1.\<close>

theorem point_record_round_trip:
  assumes "writer_format format" "flags_in_range f" "length buf = record_length format"
    and "encode_point_record f scale offset format buf = Ok bs"
  shows "length bs = record_length format \<and>
    (\<exists>ix iy iz. quantize_xyz (cf_x f) (cf_y f) (cf_z f) scale offset = Ok (ix, iy, iz) \<and>
       i32_at bs 0 = Ok ix \<and> i32_at bs 4 = Ok iy \<and> i32_at bs 8 = Ok iz) \<and>
    bind_res (layout_for_format format) (\<lambda>l.
    bind_res (selected_column_builders format selection 0) (append_columns bs l p)) =
      Ok (map (\<lambda>sp. (sp, field_data format f p (sp_dimension sp))) (selected_specs format selection))"
proof -
  obtain q where q: "quantize_xyz (cf_x f) (cf_y f) (cf_z f) scale offset = Ok q"
    and e: "length (cf_extra_bytes f) = unat (lf_extra_bytes format)" and bs: "bs = point_bytes format f q"
    using assms(4) unfolding encode_point_record_eq [OF assms(1,3)] by (auto simp: bind_res_Ok_iff split: if_splits)
  obtain ix iy iz where q': "q = (ix, iy, iz)" by (cases q)
  have len: "length bs = record_length format" unfolding bs by (rule length_point_bytes [OF assms(1) e])
  then have "12 \<le> length bs" by (simp add: record_length_def)
  then have xyz: "i32_at bs 0 = Ok ix" "i32_at bs 4 = Ok iy" "i32_at bs 8 = Ok iz"
    using point_bytes_fields(1-3) [of format f ix iy iz] by (simp_all add: at_in_range bs q')
  have ext: "lf_is_extended format" using assms(1) by (simp add: writer_format_def)
  have "append_columns bs (layout_of format) p (columns_of format (selected_specs format selection) []) =
      Ok (map (\<lambda>sp. (sp, field_data format f p (sp_dimension sp))) (selected_specs format selection))"
    unfolding append_columns_of [OF selected_specs_of_format len] append_Nil columns_of_one [OF selected_specs_of_format]
    unfolding bs record_data_point_bytes [OF assms(1,2) e] ..
  then show ?thesis
    using len q q' xyz by (simp add: layout_for_format_eq ext column_builders)
qed

definition sample_fields :: copc_point_fields where
  "sample_fields = \<lparr>cf_x = 0, cf_y = 0, cf_z = 0, cf_intensity = 7, cf_return_number = 3, cf_number_of_returns = 5,
     cf_synthetic = 1, cf_key_point = 0, cf_withheld = 1, cf_overlap = 0, cf_scan_channel = 2,
     cf_scan_direction_flag = 1, cf_edge_of_flight_line = 0, cf_classification = 6, cf_user_data = 66,
     cf_scan_angle = 0, cf_point_source_id = 51966, cf_gps_time = 0, cf_red = 1, cf_green = 2, cf_blue = 3,
     cf_extra_bytes = []\<rparr>"

lemma quantize_zero: "quantize_axis 0 f64_one 0 = Ok 0"
proof -
  have parts: "fl_sign binary64 (0 :: f64) = False" "fl_mag binary64 (0 :: f64) = 0"
    "fl_is_nan binary64 f64_one = False" "fl_is_inf binary64 f64_one = False" "fl_mag binary64 f64_one \<noteq> 0"
    "fl_sign binary64 f64_one = False" "fl_is_nan binary64 (0 :: f64) = False" "fl_is_inf binary64 (0 :: f64) = False"
    by (simp_all add: fl_sign_def fl_mag_def fl_is_nan_def fl_is_inf_def sign_weight_def inf_mag_def binary64_def)
  have neg: "fl_neg binary64 (0 :: f64) = 0x8000000000000000"
    unfolding fl_neg_def parts fl_make_def by (simp add: sign_weight_def binary64_def)
  have np: "fl_is_nan binary64 (0x8000000000000000 :: f64) = False" "fl_is_inf binary64 (0x8000000000000000 :: f64) = False"
    "fl_mag binary64 (0x8000000000000000 :: f64) = 0"
    by (simp_all add: fl_mag_def fl_is_nan_def fl_is_inf_def sign_weight_def inf_mag_def binary64_def)
  have "f64_val (0x8000000000000000 :: f64) = 0" by (simp add: fl_val_def np)
  then have sub: "f64_sub 0 0 = (0 :: f64)"
    by (simp add: fl_sub_def neg fl_add_def parts np fl_round_def fl_make_def)
  have div: "f64_div 0 f64_one = (0 :: f64)"
    by (simp add: fl_div_def parts fl_round_def fl_make_def)
  have rnd: "f64_round 0 = (0 :: f64)"
    by (simp add: fl_round_int_def parts round_away_def fl_round_def fl_make_def)
  have fin: "f64_is_finite (0 :: f64)" unfolding fl_is_finite_def parts by (simp add: inf_mag_def binary64_def)
  have lo: "\<not> f64_lt 0 (f64_of_int (- (2 ^ 31)))" and hi: "\<not> f64_lt (f64_of_int (2 ^ 31 - 1)) 0"
    unfolding fl_lt_val_iff [OF fin quantize_bounds(2)] fl_lt_val_iff [OF quantize_bounds(4) fin] quantize_bounds(1,3)
    by simp_all
  have "fl_to_int binary64 (- (2 ^ 31)) (2 ^ 31 - 1) (0 :: f64) = 0"
    by (rule fl_to_int_exact [OF fin]) simp_all
  then show ?thesis
    unfolding quantize_axis_def sub div rnd Let_def if_not_P [OF lo] using fin lo hi by simp
qed

theorem point_record_round_trip_witness:
  "\<exists>bs. encode_point_record sample_fields (f64_one, f64_one, f64_one) (0, 0, 0) sample_las_format (replicate 30 0) = Ok bs \<and>
     bind_res (layout_for_format sample_las_format) (\<lambda>l.
     bind_res (selected_column_builders sample_las_format sample_selection 0) (append_columns bs l (0, 0, 0))) =
       Ok (map (\<lambda>sp. (sp, field_data sample_las_format sample_fields (0, 0, 0) (sp_dimension sp)))
         (selected_specs sample_las_format sample_selection))"
proof -
  have w: "writer_format sample_las_format" by (simp add: writer_format_def sample_las_format_def)
  have r: "flags_in_range sample_fields" by (simp add: flags_in_range_def sample_fields_def)
  have l: "length (replicate 30 (0 :: u8)) = record_length sample_las_format"
    by (simp add: record_length_def sample_las_format_def)
  have "quantize_xyz (cf_x sample_fields) (cf_y sample_fields) (cf_z sample_fields) (f64_one, f64_one, f64_one) (0, 0, 0) = Ok (0, 0, 0)"
    by (simp add: sample_fields_def quantize_xyz_def quantize_zero)
  then have "encode_point_record sample_fields (f64_one, f64_one, f64_one) (0, 0, 0) sample_las_format (replicate 30 0) =
      Ok (point_bytes sample_las_format sample_fields (0, 0, 0))"
    unfolding encode_point_record_eq [OF w l] by (simp add: sample_fields_def sample_las_format_def)
  then show ?thesis using point_record_round_trip [OF w r l, of _ _ _ sample_selection] by blast
qed

end
