(* ===== verification/Metadata.thy ===== *)
theory Metadata
  imports Las_Out
begin

text \<open>
  The metadata a COPC write carries (\<^verbatim>\<open>copc-writer/src/metadata.rs\<close>): the LAS fields and CRS records of
  the output, built from the caller's settings or from a source header, the classification of VLRs,
  the reading of the source EVLRs, the date, and the check that a conversion loses nothing
  (\<^verbatim>\<open>validate_las_conversion_supported\<close> of \<^verbatim>\<open>validate.rs\<close>). The clock, the raw header parser and
  \<^verbatim>\<open>las::Vlr::new\<close> are parameters; a \<^verbatim>\<open>las::Header\<close> is the record of the accessors that are called.
\<close>

unbundle bit_operations_syntax

section \<open>Constants\<close>

definition LASZIP_VLR_USER_ID :: "u8 list" where "LASZIP_VLR_USER_ID = lit ''laszip encoded''"
definition LASZIP_VLR_RECORD_ID :: u16 where "LASZIP_VLR_RECORD_ID = 22204"
definition LASF_PROJECTION_USER_ID :: "u8 list" where
  "LASF_PROJECTION_USER_ID = lit ''LASF_Projection''"
definition WKT_CRS_RECORD_ID :: u16 where "WKT_CRS_RECORD_ID = 2112"
definition LASF_SPEC_USER_ID :: "u8 list" where "LASF_SPEC_USER_ID = lit ''LASF_Spec''"
definition EXTRA_BYTES_RECORD_ID :: u16 where "EXTRA_BYTES_RECORD_ID = 4"
definition WKT_GLOBAL_ENCODING_BIT :: u16 where "WKT_GLOBAL_ENCODING_BIT = 16"
definition MAX_SOURCE_EVLR_TOTAL_BYTES :: nat where
  "MAX_SOURCE_EVLR_TOTAL_BYTES = 256 * 1024 * 1024"

section \<open>Data\<close>

record write_metadata =
  wm_wkt_crs :: "u8 list option"
  wm_file_source_id :: u16
  wm_guid :: "u8 list"
  wm_system_identifier :: "u8 list option"
  wm_generating_software :: "u8 list option"
  wm_creation_date :: "(u16 \<times> u16) option"
  wm_gps_standard_time :: bool
  wm_scale :: "(f64 \<times> f64 \<times> f64) option"
  wm_offset :: "(f64 \<times> f64 \<times> f64) option"

record crs_record =
  cr_vlr :: las_vlr
  cr_is_extended :: bool

record out_metadata =
  om_file_source_id :: u16
  om_global_encoding :: u16
  om_guid :: "u8 list"
  om_system_identifier :: "u8 list"
  om_generating_software :: "u8 list"
  om_creation_day_of_year :: u16
  om_creation_year :: u16
  om_scale :: "f64 \<times> f64 \<times> f64"
  om_offset :: "(f64 \<times> f64 \<times> f64) option"
  om_crs_records :: "crs_record list"
  om_pass_through_vlrs :: "las_vlr list"
  om_pass_through_evlrs :: "las_vlr list"

text \<open>The double nearest to 0.001.\<close>

definition f64_milli :: f64 where "f64_milli = 0x3F50624DD2F1A9FC"

definition out_metadata_default :: out_metadata where
  "out_metadata_default =
     \<lparr>om_file_source_id = 0, om_global_encoding = 0, om_guid = replicate 16 0,
      om_system_identifier = lit ''copc-rust'', om_generating_software = lit ''copc-writer'',
      om_creation_day_of_year = 0, om_creation_year = 0,
      om_scale = (f64_milli, f64_milli, f64_milli), om_offset = None,
      om_crs_records = [], om_pass_through_vlrs = [], om_pass_through_evlrs = []\<rparr>"

text \<open>
  What the code calls of a source \<^verbatim>\<open>las::Header\<close>. The date holds what \<^verbatim>\<open>parse\<close> makes of its
  \<^verbatim>\<open>%Y\<close> and \<^verbatim>\<open>%j\<close> texts; the GPS time type its \<^verbatim>\<open>u16::from\<close>.
\<close>

record source_header =
  sh_vlrs :: "las_vlr list"
  sh_gps_time_type :: u16
  sh_has_synthetic_return_numbers :: bool
  sh_date :: "(u16 option \<times> u16 option) option"
  sh_file_source_id :: u16
  sh_guid :: "u8 list"
  sh_system_identifier :: "u8 list"
  sh_generating_software :: "u8 list"
  sh_scale :: "f64 \<times> f64 \<times> f64"
  sh_offset :: "f64 \<times> f64 \<times> f64"
  sh_point_format :: las_format

section \<open>Classification\<close>

definition is_laszip_vlr :: "las_vlr \<Rightarrow> bool" where
  "is_laszip_vlr v \<longleftrightarrow> lv_user_id v = LASZIP_VLR_USER_ID \<and> lv_record_id v = LASZIP_VLR_RECORD_ID"

definition is_copc_info_vlr :: "las_vlr \<Rightarrow> bool" where
  "is_copc_info_vlr v \<longleftrightarrow> lv_user_id v = lit ''copc'' \<and> lv_record_id v = 1"

definition is_copc_hierarchy_evlr :: "las_vlr \<Rightarrow> bool" where
  "is_copc_hierarchy_evlr v \<longleftrightarrow> lv_user_id v = lit ''copc'' \<and> lv_record_id v = 1000"

definition is_wkt_crs_vlr :: "las_vlr \<Rightarrow> bool" where
  "is_wkt_crs_vlr v \<longleftrightarrow> lv_user_id v = LASF_PROJECTION_USER_ID \<and> lv_record_id v = WKT_CRS_RECORD_ID"

definition is_geotiff_crs_vlr :: "las_vlr \<Rightarrow> bool" where
  "is_geotiff_crs_vlr v \<longleftrightarrow>
     lv_user_id v = LASF_PROJECTION_USER_ID \<and>
     (lv_record_id v = 34735 \<or> lv_record_id v = 34736 \<or> lv_record_id v = 34737)"

definition is_extra_bytes_descriptor_vlr :: "las_vlr \<Rightarrow> bool" where
  "is_extra_bytes_descriptor_vlr v \<longleftrightarrow>
     lv_user_id v = LASF_SPEC_USER_ID \<and> lv_record_id v = EXTRA_BYTES_RECORD_ID"

text \<open>\<^verbatim>\<open>s.trim().is_empty()\<close>: only characters with the Unicode property White_Space, in UTF-8.\<close>

fun all_white_space :: "u8 list \<Rightarrow> bool" where
  "all_white_space [] = True"
| "all_white_space (a # bs) =
     (if 9 \<le> a \<and> a \<le> 13 \<or> a = 32 then all_white_space bs
      else case bs of
        [] \<Rightarrow> False
      | b # cs \<Rightarrow>
          if a = 0xC2 \<and> (b = 0x85 \<or> b = 0xA0) then all_white_space cs
          else case cs of
            [] \<Rightarrow> False
          | c # ds \<Rightarrow>
              if a = 0xE1 \<and> b = 0x9A \<and> c = 0x80 \<or>
                 a = 0xE2 \<and> b = 0x80 \<and> (0x80 \<le> c \<and> c \<le> 0x8A \<or> c = 0xA8 \<or> c = 0xA9 \<or> c = 0xAF) \<or>
                 a = 0xE2 \<and> b = 0x81 \<and> c = 0x9F \<or>
                 a = 0xE3 \<and> b = 0x80 \<and> c = 0x80
              then all_white_space ds
              else False)"

definition normalized_crs_wkt_override :: "u8 list option \<Rightarrow> u8 list option" where
  "normalized_crs_wkt_override crs_wkt =
     (case crs_wkt of None \<Rightarrow> None | Some s \<Rightarrow> if \<not> all_white_space s then Some s else None)"

definition has_wkt_crs_record :: "source_header \<Rightarrow> las_vlr list \<Rightarrow> bool" where
  "has_wkt_crs_record header source_evlrs \<longleftrightarrow>
     list_ex is_wkt_crs_vlr (sh_vlrs header) \<or> list_ex is_wkt_crs_vlr source_evlrs"

definition has_geotiff_crs_record :: "source_header \<Rightarrow> las_vlr list \<Rightarrow> bool" where
  "has_geotiff_crs_record header source_evlrs \<longleftrightarrow>
     list_ex is_geotiff_crs_vlr (sh_vlrs header) \<or> list_ex is_geotiff_crs_vlr source_evlrs"

section \<open>CRS records\<close>

definition extract_source_wkt_crs_records :: "source_header \<Rightarrow> las_vlr list \<Rightarrow> crs_record list" where
  "extract_source_wkt_crs_records header source_evlrs =
     map (\<lambda>v. \<lparr>cr_vlr = v, cr_is_extended = False\<rparr>) (filter is_wkt_crs_vlr (sh_vlrs header)) @
     map (\<lambda>v. \<lparr>cr_vlr = v, cr_is_extended = True\<rparr>) (filter is_wkt_crs_vlr source_evlrs)"

definition null_terminated_wkt_bytes :: "u8 list \<Rightarrow> u8 list" where
  "null_terminated_wkt_bytes crs_wkt =
     (if crs_wkt \<noteq> [] \<and> last crs_wkt = 0 then crs_wkt else crs_wkt @ [0])"

definition wkt_crs_record :: "u8 list \<Rightarrow> crs_record" where
  "wkt_crs_record crs_wkt =
     \<lparr>cr_vlr = \<lparr>lv_user_id = LASF_PROJECTION_USER_ID, lv_record_id = WKT_CRS_RECORD_ID,
        lv_description = lit ''OGC WKT CRS'', lv_data = null_terminated_wkt_bytes crs_wkt\<rparr>,
      cr_is_extended = False\<rparr>"

definition extract_pass_through_vlrs :: "source_header \<Rightarrow> las_vlr list" where
  "extract_pass_through_vlrs header =
     filter (\<lambda>v. \<not> is_extra_bytes_descriptor_vlr v) (filter (\<lambda>v. \<not> is_geotiff_crs_vlr v)
       (filter (\<lambda>v. \<not> is_wkt_crs_vlr v) (filter (\<lambda>v. \<not> is_copc_hierarchy_evlr v)
         (filter (\<lambda>v. \<not> is_copc_info_vlr v) (filter (\<lambda>v. \<not> is_laszip_vlr v) (sh_vlrs header))))))"

definition extract_pass_through_evlrs :: "las_vlr list \<Rightarrow> las_vlr list" where
  "extract_pass_through_evlrs source_evlrs =
     filter (\<lambda>v. \<not> is_geotiff_crs_vlr v)
       (filter (\<lambda>v. \<not> is_wkt_crs_vlr v) (filter (\<lambda>v. \<not> is_copc_hierarchy_evlr v)
         (filter (\<lambda>v. \<not> is_copc_info_vlr v) (filter (\<lambda>v. \<not> is_laszip_vlr v) source_evlrs))))"

definition ensure_wkt_conformance :: "out_metadata \<Rightarrow> out_metadata" where
  "ensure_wkt_conformance m =
     (let m = m\<lparr>om_global_encoding := om_global_encoding m OR WKT_GLOBAL_ENCODING_BIT\<rparr>
      in if om_crs_records m = [] then m\<lparr>om_crs_records := om_crs_records m @ [wkt_crs_record []]\<rparr>
         else m)"

section \<open>Dates\<close>

definition CUMULATIVE_DAYS :: "u16 list" where
  "CUMULATIVE_DAYS = [0, 31, 59, 90, 120, 151, 181, 212, 243, 273, 304, 334]"

definition utc_date_from_unix_days :: "int \<Rightarrow> u16 \<times> u16" where
  "utc_date_from_unix_days days_since_epoch =
     (let z = days_since_epoch + 719468;
          era = z div 146097;
          doe = z mod 146097;
          yoe = (doe - doe div 1460 + doe div 36524 - doe div 146096) div 365;
          y = yoe + era * 400;
          doy_from_march = doe - (365 * yoe + yoe div 4 - yoe div 100);
          mp = (5 * doy_from_march + 2) div 153;
          day = (word_of_int (doy_from_march - (153 * mp + 2) div 5 + 1) :: u16);
          month = (word_of_int (if mp < 10 then mp + 3 else mp - 9) :: u8);
          year = (if month \<le> 2 then y + 1 else y);
          leap = (year mod 4 = 0 \<and> year mod 100 \<noteq> 0 \<or> year mod 400 = 0);
          day_of_year = CUMULATIVE_DAYS ! unat (month - 1) + day;
          day_of_year = (if leap \<and> 2 < month then day_of_year + 1 else day_of_year)
      in (day_of_year, word_of_int year))"

text \<open>The clock gives the seconds since the epoch, or fails for a time before it.\<close>

definition current_utc_date :: "u64 option \<Rightarrow> u16 \<times> u16" where
  "current_utc_date now =
     (let secs = (case now of Some elapsed \<Rightarrow> unat elapsed | None \<Rightarrow> 0)
      in utc_date_from_unix_days (int (secs div 86400)))"

section \<open>The output metadata\<close>

definition to_output :: "u64 option \<Rightarrow> write_metadata \<Rightarrow> out_metadata" where
  "to_output now w =
     (let out = out_metadata_default
            \<lparr>om_file_source_id := wm_file_source_id w, om_guid := wm_guid w,
             om_global_encoding := (if wm_gps_standard_time w then 1 else 0)\<rparr>;
          out = (case wm_system_identifier w of
              Some s \<Rightarrow> out\<lparr>om_system_identifier := s\<rparr> | None \<Rightarrow> out);
          out = (case wm_generating_software w of
              Some s \<Rightarrow> out\<lparr>om_generating_software := s\<rparr> | None \<Rightarrow> out);
          (day, year) = (case wm_creation_date w of Some d \<Rightarrow> d | None \<Rightarrow> current_utc_date now);
          out = out\<lparr>om_creation_day_of_year := day, om_creation_year := year\<rparr>;
          out = (case wm_scale w of Some s \<Rightarrow> out\<lparr>om_scale := s\<rparr> | None \<Rightarrow> out);
          out = out\<lparr>om_offset := wm_offset w\<rparr>;
          out = (case normalized_crs_wkt_override (wm_wkt_crs w) of
              Some crs_wkt \<Rightarrow> out\<lparr>om_crs_records := om_crs_records out @ [wkt_crs_record crs_wkt]\<rparr>
            | None \<Rightarrow> out)
      in ensure_wkt_conformance out)"

definition from_las_header ::
  "u64 option \<Rightarrow> source_header \<Rightarrow> las_vlr list \<Rightarrow> u8 list option \<Rightarrow> out_metadata" where
  "from_las_header now header source_evlrs crs_wkt_override =
     (let global_encoding = sh_gps_time_type header;
          global_encoding =
            (if sh_has_synthetic_return_numbers header then global_encoding OR 8
             else global_encoding);
          crs_records = extract_source_wkt_crs_records header source_evlrs;
          crs_records =
            (if crs_records = [] \<and> has_geotiff_crs_record header source_evlrs
             then case normalized_crs_wkt_override crs_wkt_override of
                 Some crs_wkt \<Rightarrow> crs_records @ [wkt_crs_record crs_wkt]
               | None \<Rightarrow> crs_records
             else crs_records);
          global_encoding =
            (if crs_records \<noteq> [] then global_encoding OR WKT_GLOBAL_ENCODING_BIT
             else global_encoding);
          (day, year) =
            (case sh_date header of
               Some (year, day) \<Rightarrow>
                 ((case day of Some d \<Rightarrow> d | None \<Rightarrow> 0), (case year of Some y \<Rightarrow> y | None \<Rightarrow> 0))
             | None \<Rightarrow> current_utc_date now)
      in ensure_wkt_conformance
        \<lparr>om_file_source_id = sh_file_source_id header, om_global_encoding = global_encoding,
         om_guid = sh_guid header, om_system_identifier = sh_system_identifier header,
         om_generating_software = sh_generating_software header,
         om_creation_day_of_year = day, om_creation_year = year,
         om_scale = sh_scale header, om_offset = Some (sh_offset header),
         om_crs_records = crs_records,
         om_pass_through_vlrs = extract_pass_through_vlrs header,
         om_pass_through_evlrs = extract_pass_through_evlrs source_evlrs\<rparr>)"

definition regular_crs_vlrs :: "out_metadata \<Rightarrow> las_vlr list" where
  "regular_crs_vlrs m = map cr_vlr (filter (\<lambda>r. \<not> cr_is_extended r) (om_crs_records m))"

definition extended_crs_evlrs :: "out_metadata \<Rightarrow> las_vlr list" where
  "extended_crs_evlrs m = map cr_vlr (filter cr_is_extended (om_crs_records m))"

definition regular_crs_vlr_count :: "out_metadata \<Rightarrow> nat" where
  "regular_crs_vlr_count m = length (filter (\<lambda>r. \<not> cr_is_extended r) (om_crs_records m))"

definition extended_crs_evlr_count :: "out_metadata \<Rightarrow> nat" where
  "extended_crs_evlr_count m = length (filter cr_is_extended (om_crs_records m))"

definition regular_crs_vlr_bytes :: "out_metadata \<Rightarrow> u32 result" where
  "regular_crs_vlr_bytes m =
     fold_res (\<lambda>v total.
       bind_res (ok_or (u16_try_from_usize (length (lv_data v)))
         (InvalidInput ''regular WKT CRS VLR is too large: {} byte(s)'')) (\<lambda>data_len.
       ok_or (checked_add total (of_nat LAS_VLR_HEADER_BYTES + ucast data_len))
         (InvalidInput ''CRS VLR byte size overflow'')))
       (regular_crs_vlrs m) 0"

definition source_evlrs_after_hierarchy :: "out_metadata \<Rightarrow> las_vlr list" where
  "source_evlrs_after_hierarchy m = extended_crs_evlrs m @ om_pass_through_evlrs m"

definition source_evlr_count_after_hierarchy :: "out_metadata \<Rightarrow> nat" where
  "source_evlr_count_after_hierarchy m =
     extended_crs_evlr_count m + length (om_pass_through_evlrs m)"

section \<open>Source EVLRs\<close>

text \<open>The fields of a \<^verbatim>\<open>raw::Vlr\<close> as \<open>read_all_source_evlrs\<close> builds it.\<close>

record raw_vlr =
  rv_reserved :: u16
  rv_user_id :: "u8 list"
  rv_record_id :: u16
  rv_record_length :: nat
  rv_description :: "u8 list"
  rv_data :: "u8 list"

text \<open>\<open>free\<close> says whether \<^verbatim>\<open>try_reserve_exact\<close> finds that many bytes.\<close>

definition read_source_evlr_step ::
  "(nat \<Rightarrow> bool) \<Rightarrow> (raw_vlr \<Rightarrow> 'vlr) \<Rightarrow> nat \<Rightarrow> nat \<Rightarrow> 'vlr list \<times> nat \<Rightarrow> ('vlr list \<times> nat) rd" where
  "read_source_evlr_step free vlr_new file_len index st =
     (let (evlrs, total_data_bytes) = st in
      rbind rposition (\<lambda>header_start.
      rbind (rlift (ok_or
        (if header_start + LAS_EVLR_HEADER_BYTES < 2 ^ 64
         then Some (header_start + LAS_EVLR_HEADER_BYTES) else None)
        (InvalidData ''source EVLR header range overflows u64''))) (\<lambda>data_start.
      rbind (rguard (\<not> file_len < data_start)
        (InvalidData ''source EVLR {} header exceeds file length {}'')) (\<lambda>_.
      rbind (read_u16 ''read source EVLR reserved'') (\<lambda>reserved.
      rbind (read_exact ''read source EVLR user id'' 16) (\<lambda>user_id.
      rbind (read_u16 ''read source EVLR record id'') (\<lambda>record_id.
      rbind (read_u64 ''read source EVLR length'') (\<lambda>data_len.
      rbind (read_exact ''read source EVLR description'' 32) (\<lambda>description.
      rbind (rlift (ok_or
        (if total_data_bytes + unat data_len < 2 ^ 64
         then Some (total_data_bytes + unat data_len) else None)
        (InvalidData ''source EVLR byte total overflows u64''))) (\<lambda>total_data_bytes.
      rbind (rguard (\<not> MAX_SOURCE_EVLR_TOTAL_BYTES < total_data_bytes)
        (InvalidData ''source EVLR data totals {} bytes, max supported is {}'')) (\<lambda>_.
      rbind (rlift (ok_or
        (if data_start + unat data_len < 2 ^ 64 then Some (data_start + unat data_len) else None)
        (InvalidData ''source EVLR data range overflows u64''))) (\<lambda>data_end.
      rbind (rguard (\<not> file_len < data_end)
        (InvalidData ''source EVLR {} data range {}..{} exceeds file length {}'')) (\<lambda>_.
      rbind (rguard (free (unat data_len))
        (InvalidData ''cannot allocate {} bytes for source EVLR {}: {}'')) (\<lambda>_.
      rbind (read_exact ''read source EVLR data'' (unat data_len)) (\<lambda>data.
      rret (evlrs @ [vlr_new \<lparr>rv_reserved = reserved, rv_user_id = user_id,
              rv_record_id = record_id, rv_record_length = unat data_len,
              rv_description = description, rv_data = data\<rparr>], total_data_bytes))))))))))))))))"

text \<open>
  \<^verbatim>\<open>raw::Header::read_from\<close> gives the start and the number of the EVLRs of a header that has
  them, or a message.
\<close>

definition read_all_source_evlrs ::
  "(nat \<Rightarrow> bool) \<Rightarrow> (raw_vlr \<Rightarrow> 'vlr) \<Rightarrow> (u8 list \<Rightarrow> string + (u64 \<times> u32) option) \<Rightarrow> u8 list \<Rightarrow>
   'vlr list result" where
  "read_all_source_evlrs free vlr_new raw_read file_bytes =
     (let file_len = length file_bytes in
      case raw_read file_bytes of
        Inl e \<Rightarrow> Err (Las (''source header: '' @ e))
      | Inr None \<Rightarrow> Ok []
      | Inr (Some (start_of_first_evlr, number_of_evlrs)) \<Rightarrow>
          if MAX_EVLR_COUNT < unat number_of_evlrs
          then Err (InvalidData ''source EVLR count {} exceeds max supported {}'')
          else if number_of_evlrs = 0 then Ok []
          else if start_of_first_evlr = 0 \<or> file_len < unat start_of_first_evlr
          then Err (InvalidData ''source first EVLR offset {} is outside file length {}'')
          else
            bind_res (rfor 0 (unat number_of_evlrs) (read_source_evlr_step free vlr_new file_len)
              ([], 0) (fcur file_bytes (unat start_of_first_evlr)))
              (\<lambda>((evlrs, _), _). Ok evlrs))"

section \<open>What a conversion can preserve\<close>

definition validate_las_conversion_supported ::
  "source_header \<Rightarrow> las_vlr list \<Rightarrow> u8 list option \<Rightarrow> unit result" where
  "validate_las_conversion_supported header source_evlrs crs_wkt_override =
     (if MAX_VLR_COUNT < length (sh_vlrs header)
      then Err (InvalidData ''source VLR count {} exceeds max supported {}'')
      else
        let format = sh_point_format header;
            unsupported = (if lf_has_nir format then [''NIR point data''] else []);
            unsupported =
              (if lf_has_waveform format then unsupported @ [''waveform point data''] else unsupported);
            source_has_wkt_crs_record = has_wkt_crs_record header source_evlrs;
            has_crs_wkt_override = normalized_crs_wkt_override crs_wkt_override \<noteq> None;
            count = (\<lambda>v n. if is_geotiff_crs_vlr v \<and> \<not> source_has_wkt_crs_record \<and> \<not> has_crs_wkt_override
                          then n + 1 else n);
            geotiff_crs_record_count =
              fold count source_evlrs (fold count (sh_vlrs header) (0 :: nat));
            unsupported =
              (if 0 < geotiff_crs_record_count
               then unsupported @ [''{} GeoTIFF CRS VLR/EVLR(s); GeoTIFF-to-WKT CRS conversion is not implemented in copc-writer'']
               else unsupported)
        in if unsupported = [] then Ok ()
           else Err (Unsupported ''LAS-to-COPC streaming conversion cannot preserve {}''))"

section \<open>What the metadata carries\<close>

text \<open>The records a write makes anew, so that those of the source are not copied.\<close>

definition regenerated :: "las_vlr \<Rightarrow> bool" where
  "regenerated v \<longleftrightarrow> is_laszip_vlr v \<or> is_copc_info_vlr v \<or> is_copc_hierarchy_evlr v"


lemma crs_classes:
  "is_wkt_crs_vlr v \<Longrightarrow> \<not> is_geotiff_crs_vlr v" "is_wkt_crs_vlr v \<Longrightarrow> \<not> regenerated v"
  "is_wkt_crs_vlr v \<Longrightarrow> \<not> is_extra_bytes_descriptor_vlr v"
  by (auto simp: is_wkt_crs_vlr_def is_geotiff_crs_vlr_def regenerated_def is_laszip_vlr_def
      is_copc_info_vlr_def is_copc_hierarchy_evlr_def is_extra_bytes_descriptor_vlr_def
      WKT_CRS_RECORD_ID_def LASZIP_VLR_RECORD_ID_def EXTRA_BYTES_RECORD_ID_def)

lemma pass_through_eq:
  "extract_pass_through_vlrs header =
    filter (\<lambda>v. \<not> regenerated v \<and> \<not> is_extra_bytes_descriptor_vlr v \<and> \<not> is_wkt_crs_vlr v \<and>
      \<not> is_geotiff_crs_vlr v) (sh_vlrs header)"
  "extract_pass_through_evlrs evlrs =
    filter (\<lambda>v. \<not> regenerated v \<and> \<not> is_wkt_crs_vlr v \<and> \<not> is_geotiff_crs_vlr v) evlrs"
  by (auto simp: extract_pass_through_vlrs_def extract_pass_through_evlrs_def regenerated_def
      intro!: filter_cong)

lemma wkt_record_is_wkt [simp]: "is_wkt_crs_vlr (cr_vlr (wkt_crs_record w))"
  by (simp add: wkt_crs_record_def is_wkt_crs_vlr_def)

lemma conformance_effect:
  "om_crs_records (ensure_wkt_conformance m) =
    (if om_crs_records m = [] then [wkt_crs_record []] else om_crs_records m)"
  "om_global_encoding (ensure_wkt_conformance m) = om_global_encoding m OR 16"
  "om_pass_through_vlrs (ensure_wkt_conformance m) = om_pass_through_vlrs m"
  "om_pass_through_evlrs (ensure_wkt_conformance m) = om_pass_through_evlrs m"
  by (simp_all add: ensure_wkt_conformance_def Let_def WKT_GLOBAL_ENCODING_BIT_def)

lemma encoding_bit_set: "(w OR 16) AND (16 :: u16) \<noteq> 0"
proof -
  have "bit ((w OR 16) AND (16 :: u16)) 4" by (simp add: bit_simps)
  then show ?thesis by (metis bit_0_eq bot_apply bot_bool_def)
qed

lemma extract_wkt_empty:
  "extract_source_wkt_crs_records header evlrs = [] \<longleftrightarrow> \<not> has_wkt_crs_record header evlrs"
  by (auto simp: extract_source_wkt_crs_records_def has_wkt_crs_record_def filter_empty_conv
      list_ex_iff)

lemma fold_count:
  "fold (\<lambda>v n. if P v then n + 1 else n) xs (k :: nat) = k + length (filter P xs)"
  by (induction xs arbitrary: k) auto

lemma validate_conversion_Ok_iff:
  "validate_las_conversion_supported header evlrs crs = Ok u \<longleftrightarrow>
    length (sh_vlrs header) \<le> 4096 \<and> \<not> lf_has_nir (sh_point_format header) \<and>
    \<not> lf_has_waveform (sh_point_format header) \<and>
    (if has_wkt_crs_record header evlrs then True
     else if has_geotiff_crs_record header evlrs then normalized_crs_wkt_override crs \<noteq> None
     else True)"
  by (auto simp: validate_las_conversion_supported_def Let_def fold_count MAX_VLR_COUNT_def
      has_geotiff_crs_record_def list_ex_iff filter_empty_conv split: if_splits)

lemma crs_records_of_header:
  "om_crs_records (from_las_header now header evlrs crs) =
    (if has_wkt_crs_record header evlrs then extract_source_wkt_crs_records header evlrs
     else if has_geotiff_crs_record header evlrs then
       (case normalized_crs_wkt_override crs of Some w \<Rightarrow> [wkt_crs_record w] | None \<Rightarrow> [wkt_crs_record []])
     else [wkt_crs_record []])"
  using extract_wkt_empty [of header evlrs]
  by (auto simp: from_las_header_def Let_def conformance_effect split: prod.splits option.splits)

lemma header_fields:
  "om_pass_through_vlrs (from_las_header now header evlrs crs) = extract_pass_through_vlrs header"
  "om_pass_through_evlrs (from_las_header now header evlrs crs) = extract_pass_through_evlrs evlrs"
  "om_global_encoding (from_las_header now header evlrs crs) AND 16 \<noteq> 0"
  by (simp_all add: from_las_header_def Let_def conformance_effect encoding_bit_set split: prod.splits)

lemma to_output_conformant:
  "om_global_encoding (to_output now w) AND 16 \<noteq> 0"
  "om_crs_records (to_output now w) =
    [wkt_crs_record (case normalized_crs_wkt_override (wm_wkt_crs w) of Some crs \<Rightarrow> crs | None \<Rightarrow> [])]"
  by (auto simp: to_output_def Let_def conformance_effect encoding_bit_set out_metadata_default_def
      split: prod.splits option.splits)

lemma crs_lists:
  assumes "has_wkt_crs_record header evlrs"
  shows "regular_crs_vlrs (from_las_header now header evlrs crs) = filter is_wkt_crs_vlr (sh_vlrs header)"
    and "extended_crs_evlrs (from_las_header now header evlrs crs) = filter is_wkt_crs_vlr evlrs"
  using assms
  by (simp_all add: crs_records_of_header regular_crs_vlrs_def extended_crs_evlrs_def
      extract_source_wkt_crs_records_def comp_def)

text \<open>
  The records of a source that are not copied, by user id and record id: the LASzip VLR, the COPC info and
  the hierarchy are made anew, CRS records are handled apart, and of the VLRs the extra bytes descriptor
  is made anew too.
\<close>

definition made_anew :: "(u8 list \<times> u16) set" where
  "made_anew = {(lit ''laszip encoded'', 22204), (lit ''copc'', 1), (lit ''copc'', 1000)}"

definition crs_wkt :: "(u8 list \<times> u16) set" where
  "crs_wkt = {(lit ''LASF_Projection'', 2112)}"

definition crs_geotiff :: "(u8 list \<times> u16) set" where
  "crs_geotiff = {(lit ''LASF_Projection'', 34735), (lit ''LASF_Projection'', 34736), (lit ''LASF_Projection'', 34737)}"

definition vlr_id :: "las_vlr \<Rightarrow> u8 list \<times> u16" where
  "vlr_id v = (lv_user_id v, lv_record_id v)"

lemma vlr_id_simps:
  "vlr_id v \<in> made_anew \<longleftrightarrow> regenerated v" "vlr_id v \<in> crs_wkt \<longleftrightarrow> is_wkt_crs_vlr v"
  "vlr_id v \<in> crs_geotiff \<longleftrightarrow> is_geotiff_crs_vlr v" "vlr_id v = (lit ''LASF_Spec'', 4) \<longleftrightarrow> is_extra_bytes_descriptor_vlr v"
  by (auto simp: vlr_id_def made_anew_def crs_wkt_def crs_geotiff_def regenerated_def is_laszip_vlr_def is_copc_info_vlr_def
      is_copc_hierarchy_evlr_def is_wkt_crs_vlr_def is_geotiff_crs_vlr_def is_extra_bytes_descriptor_vlr_def
      LASZIP_VLR_USER_ID_def LASZIP_VLR_RECORD_ID_def LASF_PROJECTION_USER_ID_def WKT_CRS_RECORD_ID_def
      LASF_SPEC_USER_ID_def EXTRA_BYTES_RECORD_ID_def)

lemma header_values:
  "om_scale (from_las_header now header evlrs crs) = sh_scale header"
  "om_offset (from_las_header now header evlrs crs) = Some (sh_offset header)"
  "om_guid (from_las_header now header evlrs crs) = sh_guid header"
  "om_file_source_id (from_las_header now header evlrs crs) = sh_file_source_id header"
  by (simp_all add: from_las_header_def ensure_wkt_conformance_def Let_def split: prod.splits)

text \<open>
  C29. What a conversion that is accepted carries over, on every branch. The scale, the offset, the GUID and
  the source id are those of the source, and the WKT bit is set. The VLRs that are passed through are, in
  order, all VLRs of the source but CRS records, those made anew and the extra bytes descriptor; the EVLRs
  all but CRS records and those made anew. The CRS: when the source has WKT records they are kept as they are,
  VLRs as VLRs and EVLRs as EVLRs, in order, and GeoTIFF records beside them are dropped; a GeoTIFF CRS without
  them is accepted only with a text of the caller that is not blank, and replaced by that one record; without
  any CRS record an empty WKT record is written.
\<close>

theorem conversion_preserves:
  assumes "validate_las_conversion_supported header evlrs crs = Ok ()"
  shows "let m = from_las_header now header evlrs crs in
    om_scale m = sh_scale header \<and> om_offset m = Some (sh_offset header) \<and>
    om_guid m = sh_guid header \<and> om_file_source_id m = sh_file_source_id header \<and>
    om_global_encoding m AND 16 \<noteq> 0 \<and>
    om_pass_through_vlrs m = filter (\<lambda>v. vlr_id v \<notin> made_anew \<union> crs_wkt \<union> crs_geotiff \<union> {(lit ''LASF_Spec'', 4)}) (sh_vlrs header) \<and>
    om_pass_through_evlrs m = filter (\<lambda>v. vlr_id v \<notin> made_anew \<union> crs_wkt \<union> crs_geotiff) evlrs \<and>
    (if \<exists>v \<in> set (sh_vlrs header @ evlrs). vlr_id v \<in> crs_wkt
     then regular_crs_vlrs m = filter (\<lambda>v. vlr_id v \<in> crs_wkt) (sh_vlrs header) \<and>
       extended_crs_evlrs m = filter (\<lambda>v. vlr_id v \<in> crs_wkt) evlrs
     else extended_crs_evlrs m = [] \<and>
       (if \<exists>v \<in> set (sh_vlrs header @ evlrs). vlr_id v \<in> crs_geotiff
        then \<exists>wkt. crs = Some wkt \<and> \<not> all_white_space wkt \<and> regular_crs_vlrs m = [cr_vlr (wkt_crs_record wkt)]
        else regular_crs_vlrs m = [cr_vlr (wkt_crs_record [])]))"
proof -
  let ?m = "from_las_header now header evlrs crs"
  have has: "(\<exists>v \<in> set (sh_vlrs header @ evlrs). vlr_id v \<in> crs_wkt) = has_wkt_crs_record header evlrs"
    "(\<exists>v \<in> set (sh_vlrs header @ evlrs). vlr_id v \<in> crs_geotiff) = has_geotiff_crs_record header evlrs"
    by (auto simp: vlr_id_simps has_wkt_crs_record_def has_geotiff_crs_record_def list_ex_iff)
  have pass: "om_pass_through_vlrs ?m =
      filter (\<lambda>v. vlr_id v \<notin> made_anew \<union> crs_wkt \<union> crs_geotiff \<union> {(lit ''LASF_Spec'', 4)}) (sh_vlrs header)"
    "om_pass_through_evlrs ?m = filter (\<lambda>v. vlr_id v \<notin> made_anew \<union> crs_wkt \<union> crs_geotiff) evlrs"
    unfolding header_fields pass_through_eq Un_iff de_Morgan_disj vlr_id_simps singleton_iff by (auto intro!: filter_cong)
  have crs: "if has_wkt_crs_record header evlrs
     then regular_crs_vlrs ?m = filter is_wkt_crs_vlr (sh_vlrs header) \<and> extended_crs_evlrs ?m = filter is_wkt_crs_vlr evlrs
     else extended_crs_evlrs ?m = [] \<and>
       (if has_geotiff_crs_record header evlrs
        then \<exists>wkt. crs = Some wkt \<and> \<not> all_white_space wkt \<and> regular_crs_vlrs ?m = [cr_vlr (wkt_crs_record wkt)]
        else regular_crs_vlrs ?m = [cr_vlr (wkt_crs_record [])])"
  proof (cases "has_wkt_crs_record header evlrs")
    case False
    then show ?thesis
      using assms by (auto simp: crs_records_of_header regular_crs_vlrs_def extended_crs_evlrs_def wkt_crs_record_def
          validate_conversion_Ok_iff normalized_crs_wkt_override_def split: option.splits if_splits)
  qed (simp add: crs_lists)
  show ?thesis unfolding Let_def has unfolding vlr_id_simps(2) using pass crs header_fields(3) header_values by simp
qed

definition sample_source :: source_header where
  "sample_source =
     \<lparr>sh_vlrs = [\<lparr>lv_user_id = lit ''LASF_Projection'', lv_record_id = 34735, lv_description = [],
         lv_data = [1, 2]\<rparr>,
        \<lparr>lv_user_id = lit ''copc'', lv_record_id = 1, lv_description = [], lv_data = []\<rparr>,
        \<lparr>lv_user_id = lit ''survey'', lv_record_id = 7, lv_description = [], lv_data = [3]\<rparr>], sh_gps_time_type = 1, sh_has_synthetic_return_numbers = False,
      sh_date = None, sh_file_source_id = 0, sh_guid = replicate 16 0, sh_system_identifier = [],
      sh_generating_software = [], sh_scale = (1, 1, 1), sh_offset = (0, 0, 0),
      sh_point_format = \<lparr>lf_has_gps_time = True, lf_has_color = False, lf_is_extended = True,
        lf_has_waveform = False, lf_has_nir = False, lf_extra_bytes = 0\<rparr>\<rparr>"

theorem conversion_preserves_witness:
  "let m = from_las_header None sample_source [] (Some (lit ''EPSG'')) in
    regular_crs_vlrs m = [cr_vlr (wkt_crs_record (lit ''EPSG''))] \<and>
    om_pass_through_vlrs m = [\<lparr>lv_user_id = lit ''survey'', lv_record_id = 7, lv_description = [], lv_data = [3]\<rparr>]"
proof -
  have blank: "\<not> all_white_space (lit ''EPSG'')" by (simp add: lit_def)
  have ok: "validate_las_conversion_supported sample_source [] (Some (lit ''EPSG'')) = Ok ()"
    using blank by (simp add: validate_conversion_Ok_iff sample_source_def normalized_crs_wkt_override_def)
  have crs: "\<not> (\<exists>v \<in> set (sh_vlrs sample_source @ []). vlr_id v \<in> crs_wkt)"
    "\<exists>v \<in> set (sh_vlrs sample_source @ []). vlr_id v \<in> crs_geotiff"
    by (simp_all add: sample_source_def vlr_id_def crs_wkt_def crs_geotiff_def lit_def)
  have pass: "filter (\<lambda>v. vlr_id v \<notin> made_anew \<union> crs_wkt \<union> crs_geotiff \<union> {(lit ''LASF_Spec'', 4)}) (sh_vlrs sample_source) =
      [\<lparr>lv_user_id = lit ''survey'', lv_record_id = 7, lv_description = [], lv_data = [3]\<rparr>]"
    by (simp add: sample_source_def vlr_id_def made_anew_def crs_wkt_def crs_geotiff_def lit_def)
  show ?thesis
    using conversion_preserves [OF ok, of None] unfolding Let_def if_not_P [OF crs(1)] if_P [OF crs(2)] pass by blast
qed

end
