(* ===== verification/Calendar.thy ===== *)
theory Calendar
  imports Metadata
begin

text \<open>
  The date arithmetic of \<^verbatim>\<open>utc_date_from_unix_days\<close> agrees with a calendar that counts one year at a
  time. Hinnant's algorithm works in eras of 400 years that begin in March; the lemmas follow it:
  the year of an era from the day of the era, then the day of the civil year.
\<close>

section \<open>The calendar\<close>

text \<open>The calendar: leap years, and the days from the epoch to the first day of the year \<open>1970 + n\<close>.\<close>

definition leap_year :: "int \<Rightarrow> bool" where
  "leap_year y \<longleftrightarrow> y mod 4 = 0 \<and> y mod 100 \<noteq> 0 \<or> y mod 400 = 0"

definition year_days :: "int \<Rightarrow> int" where
  "year_days y = (if leap_year y then 366 else 365)"

fun days_to_year :: "nat \<Rightarrow> int" where
  "days_to_year 0 = 0"
| "days_to_year (Suc n) = days_to_year n + year_days (1970 + int n)"

lemma div_pred: "0 < k \<Longrightarrow> (y :: int) div k = (y - 1) div k + (if y mod k = 0 then 1 else 0)"
proof -
  assume k: "0 < k"
  define q r where "q = y div k" and "r = y mod k"
  have y: "y = k * q + r" "0 \<le> r" "r < k" using k by (simp_all add: q_def r_def)
  have "(y - 1) div k = (if r = 0 then q - 1 else q)"
    using y by (intro int_div_pos_eq [where r = "if r = 0 then k - 1 else r - 1"])
      (auto simp: algebra_simps)
  then show ?thesis by (simp add: q_def r_def)
qed

lemma leap_step:
  "(y :: int) div 4 - y div 100 + y div 400 =
     (y - 1) div 4 - (y - 1) div 100 + (y - 1) div 400 + (if leap_year y then 1 else 0)"
proof -
  have d4: "y div 4 = (y - 1) div 4 + (if y mod 4 = 0 then 1 else 0)"
    and d100: "y div 100 = (y - 1) div 100 + (if y mod 100 = 0 then 1 else 0)"
    and d400: "y div 400 = (y - 1) div 400 + (if y mod 400 = 0 then 1 else 0)"
    by (rule div_pred, simp)+
  have m: "y mod 100 = 0 \<longrightarrow> y mod 4 = 0" "y mod 400 = 0 \<longrightarrow> y mod 100 = 0"
    using mod_mod_cancel [of 4 100 y] mod_mod_cancel [of 100 400 y] by auto
  have "(if p4 then 1 else 0) - (if p100 then 1 else 0) + (if p400 then 1 else 0) =
      (if p4 \<and> \<not> p100 \<or> p400 then 1 else 0 :: int)"
    if "p100 \<longrightarrow> p4" "p400 \<longrightarrow> p100" for p4 p100 p400 :: bool
    using that by auto
  from this [OF m] have e: "(if y mod 4 = 0 then 1 else 0) - (if y mod 100 = 0 then 1 else 0) +
      (if y mod 400 = 0 then 1 else 0) = (if leap_year y then 1 else 0 :: int)"
    by (simp only: leap_year_def)
  have "a4 + i4 - (a100 + i100) + (a400 + i400) = a4 - a100 + a400 + i"
    if "i4 - i100 + i400 = i" for a4 a100 a400 i4 i100 i400 i :: int
    using that by linarith
  from this [OF e] show ?thesis by (simp only: d4 d100 d400)
qed

lemma days_to_year_closed:
  "days_to_year n = 365 * (1970 + int n) + (1969 + int n) div 4 - (1969 + int n) div 100 +
     (1969 + int n) div 400 - 719527"
proof (induction n)
  case (Suc n)
  show ?case
    using Suc leap_step [of "1970 + int n"] by (simp add: year_days_def algebra_simps split: if_splits)
qed simp

text \<open>The year of the era as the code computes it, from the day of the era.\<close>

definition year_of_era :: "int \<Rightarrow> int" where
  "year_of_era doe = (doe - doe div 1460 + doe div 36524 - doe div 146096) div 365"

definition era_start :: "int \<Rightarrow> int" where
  "era_start y = 365 * y + y div 4 - y div 100"



lemma year_of_era_eq:
  assumes y: "0 \<le> y" "y < 400" and k: "0 \<le> k" "k \<le> 364 + (if leap_year (y + 1) then 1 else 0)"
  shows "year_of_era (era_start y + k) = y"
proof -
  define c r m s where "c = y div 100" and "r = y mod 100" and "m = y div 4" and "s = y mod 4"
  define doe where "doe = era_start y + k"
  have yc: "y = 100 * c + r" "0 \<le> r" "r < 100" and ym: "y = 4 * m + s" "0 \<le> s" "s < 4"
    by (simp_all add: c_def r_def m_def s_def)
  have c: "0 \<le> c" "c \<le> 3" using yc y by linarith+
  have mc: "25 * c \<le> m" "m \<le> 25 * c + 24" using yc ym by linarith+
  have leap3: "s = 3" if "k = 365"
  proof -
    have "leap_year (y + 1)" using that k by (auto split: if_splits)
    then have "(y + 1) mod 4 = 0"
      using mod_mod_cancel [of 4 400 "y + 1"] by (auto simp: leap_year_def)
    then show ?thesis using ym by presburger
  qed
  have leap100: "c = 3" if "k = 365" "r = 99"
  proof -
    have "leap_year (100 * (c + 1))" using that k yc by (auto split: if_splits simp: algebra_simps)
    then have "(100 * (c + 1)) mod 400 = 0" by (auto simp: leap_year_def)
    then have "400 dvd 100 * (c + 1)" by (simp add: mod_eq_0_iff_dvd)
    then have "4 dvd c + 1" using dvd_times_left_cancel_iff [of 100 4 "c + 1"] by simp
    then show ?thesis using c by presburger
  qed
  have doe_y: "doe = 365 * y + m - c + k"
    by (simp only: doe_def era_start_def m_def c_def)
  have doe_m: "doe = 1460 * m + (365 * s + m - c + k)"
    using doe_y ym(1) by linarith
  have century: "doe div 36524 - doe div 146096 = c"
  proof (cases "k = 365 \<and> r = 99")
    case True
    then have "doe = 146096" using leap100 yc ym leap3 by (simp add: doe_m)
    then show ?thesis using leap100 True by simp
  next
    case False
    have k': "k \<le> 365" using k(2) by (simp split: if_splits)
    have "365 * r + k \<le> 36499"
      using False k' yc(3) by linarith
    then have u: "365 * r + m - 25 * c + k \<le> 36523" using mc by linarith
    have doe_c: "doe = 36524 * c + (365 * r + m - 25 * c + k)"
      using doe_y yc(1) by linarith
    have l: "0 \<le> 365 * r + m - 25 * c + k" using yc mc k(1) by linarith
    have "doe div 36524 = c"
      by (rule int_div_pos_eq [OF doe_c l]) (use u in linarith)
    moreover have "doe div 146096 = 0"
      using doe_c u l c by (intro div_pos_pos_trivial) linarith+
    ultimately show ?thesis by simp
  qed
  have four: "doe div 1460 = m + (365 * s + m - c + k) div 1460"
    by (simp add: doe_m)
  have small: "365 * s + m - c \<le> 1191" "0 \<le> 365 * s + m - c" using ym mc c by linarith+
  have low: "(365 * s + m - c + k) div 1460 \<le> k"
  proof (cases "k = 0")
    case True
    then show ?thesis using small by (simp add: div_pos_pos_trivial)
  next
    case False
    have "(365 * s + m - c + k) div 1460 \<le> (1460 * k + 1459) div 1460"
      using small k(1) False by (intro zdiv_mono1) linarith+
    then show ?thesis by simp
  qed
  have high: "k - 364 \<le> (365 * s + m - c + k) div 1460"
  proof (cases "k = 365")
    case True
    have "1460 div 1460 \<le> (365 * s + m - c + k) div 1460"
      using leap3 [OF True] mc True c by (intro zdiv_mono1) linarith+
    then show ?thesis using True by simp
  next
    case False
    have "k \<le> 364" using k(2) False by (simp split: if_splits)
    moreover have "0 div 1460 \<le> (365 * s + m - c + k) div 1460"
      using small(2) k(1) by (intro zdiv_mono1) linarith+
    ultimately show ?thesis by simp
  qed
  have "(doe - doe div 1460 + c) div 365 = y"
  proof (rule int_div_pos_eq)
    show "doe - doe div 1460 + c = 365 * y + (k - (365 * s + m - c + k) div 1460)"
      using doe_y four by linarith
  qed (use low high in linarith)+
  moreover have "doe - doe div 1460 + doe div 36524 - doe div 146096 = doe - doe div 1460 + c"
    using century by linarith
  ultimately show ?thesis by (simp only: year_of_era_def doe_def)
qed


text \<open>The month and day arithmetic on the day of a year that begins in March.\<close>

definition day_of_civil_year :: "bool \<Rightarrow> int \<Rightarrow> u16 \<times> bool" where
  "day_of_civil_year leap doy_from_march =
     (let mp = (5 * doy_from_march + 2) div 153;
          day = (word_of_int (doy_from_march - (153 * mp + 2) div 5 + 1) :: u16);
          month = (word_of_int (if mp < 10 then mp + 3 else mp - 9) :: u8);
          day_of_year = CUMULATIVE_DAYS ! unat (month - 1) + day;
          day_of_year = (if leap \<and> 2 < month then day_of_year + 1 else day_of_year)
      in (day_of_year, month \<le> 2))"


lemma day_of_civil_year_eq:
  assumes "0 \<le> d" "d \<le> 365"
  shows "day_of_civil_year leap d =
    (if 306 \<le> d then (of_int (d - 305), True)
     else (of_int (d + 60 + (if leap then 1 else 0)), False))"
proof -
  define mp where "mp = (5 * d + 2) div 153"
  have mp: "153 * mp \<le> 5 * d + 2" "5 * d + 2 < 153 * mp + 153"
    using div_mult_mod_eq [of "5 * d + 2" 153] pos_mod_bound [of 153 "5 * d + 2"]
      pos_mod_sign [of 153 "5 * d + 2"]
    unfolding mp_def by linarith+
  then have "0 \<le> mp" "mp \<le> 11" using assms by linarith+
  then have "mp = 0 \<or> mp = 1 \<or> mp = 2 \<or> mp = 3 \<or> mp = 4 \<or> mp = 5 \<or> mp = 6 \<or> mp = 7 \<or>
      mp = 8 \<or> mp = 9 \<or> mp = 10 \<or> mp = 11"
    by presburger
  then show ?thesis
    by (elim disjE) (use mp in \<open>simp_all add: day_of_civil_year_def mp_def [symmetric] CUMULATIVE_DAYS_def\<close>)
qed

lemma leap_year_era: "leap_year (y + 400 * e) = leap_year y"
proof -
  have "(y + 400 * e) mod 4 = y mod 4" "(y + 400 * e) mod 100 = y mod 100" "(y + 400 * e) mod 400 = y mod 400"
    using mod_mult_self1 [of y "100 * e" 4] mod_mult_self1 [of y "4 * e" 100] by simp_all
  then show ?thesis by (simp only: leap_year_def)
qed

text \<open>The code on day \<open>k\<close> of the year \<open>y\<close> that begins in March.\<close>

lemma utc_date_civil:
  assumes k: "0 \<le> k" "k \<le> 364 + (if leap_year (y + 1) then 1 else 0)"
  shows "utc_date_from_unix_days (365 * y + y div 4 - y div 100 + y div 400 + k - 719468) =
    (let (day, early) = day_of_civil_year (leap_year (if 306 \<le> k then y + 1 else y)) k
     in (day, of_int (if early then y + 1 else y)))"
proof -
  define e y' where "e = y div 400" and "y' = y mod 400"
  have y: "y = y' + 400 * e" "0 \<le> y'" "y' < 400" by (simp_all add: e_def y'_def)
  have div: "y div 4 = y' div 4 + 100 * e" "y div 100 = y' div 100 + 4 * e"
    unfolding y(1) using div_mult_self1 [of 4 y' "100 * e"] div_mult_self1 [of 100 y' "4 * e"]
    by simp_all
  have k': "k \<le> 364 + (if leap_year (y' + 1) then 1 else 0)"
    using k(2) leap_year_era [of "y' + 1" e] by (simp add: y(1) algebra_simps)
  define doe where "doe = era_start y' + k"
  have k365: "k \<le> 365" using k(2) by (simp split: if_splits)
  have q: "0 \<le> y' div 4 - y' div 100" "y' div 4 \<le> 99" "0 \<le> y' div 100"
    using y(2,3) zdiv_mono2 [of y' 4 100] zdiv_mono1 [of y' 399 4] by simp_all
  have doe: "0 \<le> doe" "doe < 146097"
  proof -
    show "0 \<le> doe" using q y(2) k(1) by (simp add: doe_def era_start_def)
    show "doe < 146097"
    proof (cases "y' = 399")
      case True
      then show ?thesis using k365 by (simp add: doe_def era_start_def)
    next
      case False
      then have "y' \<le> 398" using y(3) by simp
      then show ?thesis using q k365 by (simp add: doe_def era_start_def)
    qed
  qed
  have z: "365 * y + y div 4 - y div 100 + y div 400 + k = 146097 * e + doe"
    unfolding div(1,2) e_def [symmetric] doe_def era_start_def using y(1) by linarith
  have zd: "(365 * y + y div 4 - y div 100 + y div 400 + k) div 146097 = e"
    "(365 * y + y div 4 - y div 100 + y div 400 + k) mod 146097 = doe"
    using doe by (simp_all add: z)
  have yoe: "(doe - doe div 1460 + doe div 36524 - doe div 146096) div 365 = y'"
    using year_of_era_eq [OF y(2,3) k(1) k'] by (simp add: year_of_era_def doe_def)
  have doy: "doe - (365 * y' + y' div 4 - y' div 100) = k"
    by (simp add: doe_def era_start_def)
  have sum: "y' + e * 400 = y" using y(1) by simp
  have leap: "(Y mod 4 = 0 \<and> Y mod 100 \<noteq> 0 \<or> Y mod 400 = 0) = leap_year Y" for Y
    by (simp only: leap_year_def)
  have early: "snd (day_of_civil_year l k) = (306 \<le> k)" for l
    using day_of_civil_year_eq [OF k(1) k365, of l] by (simp split: if_splits)
  have minus: "w - 719468 + 719468 = w" for w :: int by simp
  show ?thesis
    using early
    unfolding utc_date_from_unix_days_def day_of_civil_year_def Let_def minus zd yoe doy sum leap
    by (simp only: prod.case snd_conv)
qed

text \<open>
  C30. The date the writer puts into a header is the calendar date: day \<open>doy\<close> of the year
  \<open>1970 + n\<close> is the date computed from the number of days since the epoch, where the days
  of the years before are counted one year at a time, 366 in a leap year.
\<close>

theorem utc_date_correct:
  assumes "1 \<le> doy" "doy \<le> year_days (1970 + int n)"
  shows "utc_date_from_unix_days (days_to_year n + doy - 1) = (of_int doy, of_int (1970 + int n))"
proof -
  define y where "y = 1970 + int n"
  define l :: int where "l = (if leap_year y then 1 else 0)"
  have d: "doy \<le> 365 + l" using assms(2) by (auto simp: y_def l_def year_days_def)
  have n: "days_to_year n = 365 * y + (y - 1) div 4 - (y - 1) div 100 + (y - 1) div 400 - 719527"
    by (simp add: days_to_year_closed y_def)
  show ?thesis
  proof (cases "doy \<le> 59 + l")
    case True
    have k: "0 \<le> doy + 305" "doy + 305 \<le> 364 + (if leap_year (y - 1 + 1) then 1 else 0)"
      using assms(1) True by (simp_all add: l_def split: if_splits)
    have arg: "days_to_year n + doy - 1 = 365 * (y - 1) + (y - 1) div 4 - (y - 1) div 100 +
        (y - 1) div 400 + (doy + 305) - 719468"
      by (simp add: n)
    show ?thesis
      unfolding arg utc_date_civil [OF k] y_def [symmetric]
      using k assms(1) by (simp add: day_of_civil_year_eq split: if_splits)
  next
    case False
    define k where "k = doy - 60 - l"
    have k: "0 \<le> k" "k < 306" using False d by (auto simp: k_def)
    have arg: "days_to_year n + doy - 1 = 365 * y + y div 4 - y div 100 + y div 400 + k - 719468"
      using leap_step [of y] by (simp add: n k_def l_def)
    have k2: "k \<le> 364 + (if leap_year (y + 1) then 1 else 0)" using k by simp
    show ?thesis
      unfolding arg utc_date_civil [OF k(1) k2] y_def [symmetric]
      using k by (simp add: day_of_civil_year_eq l_def k_def split: if_splits)
  qed
qed

theorem utc_date_correct_witness:
  "utc_date_from_unix_days 19783 = (61, 2024)"
  using utc_date_correct [of 61 54] by (simp add: days_to_year_closed year_days_def leap_year_def)
end
