(* ===== verification/Column_Source.thy ===== *)
theory Column_Source
  imports Columns Validate
begin

text \<open>
  \<^verbatim>\<open>ColumnBatchSource\<close> of \<^verbatim>\<open>copc-writer/src/source.rs\<close>: a column batch as a point source of the writer.
  A slice is the list of its values and an index out of range is the error \<open>Panic\<close>.
\<close>

section \<open>Columns of a batch\<close>

definition unexpected_column_type :: "copc_error" where
  "unexpected_column_type = InvalidInput ''{dimension:?} column must be {expected}, found {:?}''"

definition required_f64_column :: "las_column_batch \<Rightarrow> las_dimension \<Rightarrow> f64 list result" where
  "required_f64_column b d =
     (case batch_column b d of
        Some (F64 values) \<Rightarrow> Ok values
      | Some other \<Rightarrow> Err unexpected_column_type
      | None \<Rightarrow> Err (InvalidInput ''ColumnBatchSource requires {dimension:?} column''))"

definition optional_f64_column :: "las_column_batch \<Rightarrow> las_dimension \<Rightarrow> f64 list option result" where
  "optional_f64_column b d =
     (case batch_column b d of
        Some (F64 values) \<Rightarrow> Ok (Some values)
      | Some other \<Rightarrow> Err unexpected_column_type
      | None \<Rightarrow> Ok None)"

definition optional_f32_column :: "las_column_batch \<Rightarrow> las_dimension \<Rightarrow> f32 list option result" where
  "optional_f32_column b d =
     (case batch_column b d of
        Some (F32 values) \<Rightarrow> Ok (Some values)
      | Some other \<Rightarrow> Err unexpected_column_type
      | None \<Rightarrow> Ok None)"

definition optional_u16_column :: "las_column_batch \<Rightarrow> las_dimension \<Rightarrow> u16 list option result" where
  "optional_u16_column b d =
     (case batch_column b d of
        Some (U16 values) \<Rightarrow> Ok (Some values)
      | Some other \<Rightarrow> Err unexpected_column_type
      | None \<Rightarrow> Ok None)"

definition optional_u8_column :: "las_column_batch \<Rightarrow> las_dimension \<Rightarrow> u8 list option result" where
  "optional_u8_column b d =
     (case batch_column b d of
        Some (U8 values) \<Rightarrow> Ok (Some values)
      | Some other \<Rightarrow> Err unexpected_column_type
      | None \<Rightarrow> Ok None)"

definition optional_bool_column :: "las_column_batch \<Rightarrow> las_dimension \<Rightarrow> bool list option result" where
  "optional_bool_column b d =
     (case batch_column b d of
        Some (Bool values) \<Rightarrow> Ok (Some values)
      | Some other \<Rightarrow> Err unexpected_column_type
      | None \<Rightarrow> Ok None)"

definition extra_bytes_step ::
  "column \<Rightarrow> (u8 list \<times> nat) option \<Rightarrow> (u8 list \<times> nat) option result" where
  "extra_bytes_step c extra_bytes =
     (case c of (sp, data) \<Rightarrow>
      if sp_dimension sp \<noteq> Dim_ExtraBytes then Ok extra_bytes
      else
        bind_res (ok_or (extra_byte_width sp)
          (InvalidInput ''ExtraBytes column requires a non-zero byte width'')) (\<lambda>w.
        if 65535 < w then Err (InvalidInput ''ExtraBytes column width {width} exceeds LAS u16 range'')
        else
          bind_res (case data of U8 values \<Rightarrow> Ok values | other \<Rightarrow> Err unexpected_column_type) (\<lambda>values.
          if extra_bytes \<noteq> None
          then Err (InvalidInput ''ColumnBatchSource supports at most one ExtraBytes column'')
          else Ok (Some (values, w)))))"

definition optional_extra_bytes_column :: "las_column_batch \<Rightarrow> (u8 list \<times> nat) option result" where
  "optional_extra_bytes_column b = fold_res extra_bytes_step (lb_columns b) None"

definition unsupported_dimension :: "las_dimension \<Rightarrow> string option" where
  "unsupported_dimension d =
     (case d of
        Dim_Nir \<Rightarrow> Some ''NIR point data''
      | Dim_WaveformPacketDescriptorIndex \<Rightarrow> Some ''waveform point data''
      | Dim_WaveformPacketByteOffset \<Rightarrow> Some ''waveform point data''
      | Dim_WaveformPacketSize \<Rightarrow> Some ''waveform point data''
      | Dim_WavePacketReturnPointWaveformLocation \<Rightarrow> Some ''waveform point data''
      | _ \<Rightarrow> None)"

definition validate_column_batch_writer_support :: "las_column_batch \<Rightarrow> unit result" where
  "validate_column_batch_writer_support b =
     (let unsupported = List.map_filter (\<lambda>(sp, _). unsupported_dimension (sp_dimension sp)) (lb_columns b)
      in if unsupported = [] then Ok ()
         else Err (Unsupported ''COPC writer cannot preserve {}''))"

definition validate_color_columns ::
  "u16 list option \<Rightarrow> u16 list option \<Rightarrow> u16 list option \<Rightarrow> unit result" where
  "validate_color_columns red green blue =
     (let present = of_bool (red \<noteq> None) + of_bool (green \<noteq> None) + of_bool (blue \<noteq> None) :: nat
      in if present = 0 \<or> present = 3 then Ok ()
         else Err (InvalidInput ''Red, Green, and Blue columns must be supplied together''))"

section \<open>The source\<close>

record column_batch_source =
  bs_batch :: las_column_batch
  bs_x :: "f64 list"
  bs_y :: "f64 list"
  bs_z :: "f64 list"
  bs_intensity :: "u16 list option"
  bs_return_number :: "u8 list option"
  bs_number_of_returns :: "u8 list option"
  bs_synthetic :: "bool list option"
  bs_key_point :: "bool list option"
  bs_withheld :: "bool list option"
  bs_overlap :: "bool list option"
  bs_scan_channel :: "u8 list option"
  bs_scan_direction_flag :: "bool list option"
  bs_edge_of_flight_line :: "bool list option"
  bs_classification :: "u8 list option"
  bs_user_data :: "u8 list option"
  bs_scan_angle :: "f32 list option"
  bs_point_source_id :: "u16 list option"
  bs_gps_time :: "f64 list option"
  bs_red :: "u16 list option"
  bs_green :: "u16 list option"
  bs_blue :: "u16 list option"
  bs_extra_bytes :: "(u8 list \<times> nat) option"

definition column_source_new :: "las_column_batch \<Rightarrow> column_batch_source result" where
  "column_source_new batch =
     bind_res (batch_validate batch) (\<lambda>_.
     bind_res (validate_column_batch_writer_support batch) (\<lambda>_.
     bind_res (required_f64_column batch Dim_X) (\<lambda>x.
     bind_res (required_f64_column batch Dim_Y) (\<lambda>y.
     bind_res (required_f64_column batch Dim_Z) (\<lambda>z.
     bind_res (optional_u16_column batch Dim_Red) (\<lambda>red.
     bind_res (optional_u16_column batch Dim_Green) (\<lambda>green.
     bind_res (optional_u16_column batch Dim_Blue) (\<lambda>blue.
     bind_res (optional_extra_bytes_column batch) (\<lambda>extra_bytes.
     bind_res (validate_color_columns red green blue) (\<lambda>_.
     bind_res (optional_u16_column batch Dim_Intensity) (\<lambda>intensity.
     bind_res (optional_u8_column batch Dim_ReturnNumber) (\<lambda>return_number.
     bind_res (optional_u8_column batch Dim_NumberOfReturns) (\<lambda>number_of_returns.
     bind_res (optional_bool_column batch Dim_Synthetic) (\<lambda>synthetic.
     bind_res (optional_bool_column batch Dim_KeyPoint) (\<lambda>key_point.
     bind_res (optional_bool_column batch Dim_Withheld) (\<lambda>withheld.
     bind_res (optional_bool_column batch Dim_Overlap) (\<lambda>overlap.
     bind_res (optional_u8_column batch Dim_ScanChannel) (\<lambda>scan_channel.
     bind_res (optional_bool_column batch Dim_ScanDirectionFlag) (\<lambda>scan_direction_flag.
     bind_res (optional_bool_column batch Dim_EdgeOfFlightLine) (\<lambda>edge_of_flight_line.
     bind_res (optional_u8_column batch Dim_Classification) (\<lambda>classification.
     bind_res (optional_u8_column batch Dim_UserData) (\<lambda>user_data.
     bind_res (optional_f32_column batch Dim_ScanAngle) (\<lambda>scan_angle.
     bind_res (optional_u16_column batch Dim_PointSourceId) (\<lambda>point_source_id.
     bind_res (optional_f64_column batch Dim_GpsTime) (\<lambda>gps_time.
     Ok \<lparr>bs_batch = batch, bs_x = x, bs_y = y, bs_z = z, bs_intensity = intensity,
         bs_return_number = return_number, bs_number_of_returns = number_of_returns,
         bs_synthetic = synthetic, bs_key_point = key_point, bs_withheld = withheld,
         bs_overlap = overlap, bs_scan_channel = scan_channel,
         bs_scan_direction_flag = scan_direction_flag, bs_edge_of_flight_line = edge_of_flight_line,
         bs_classification = classification, bs_user_data = user_data, bs_scan_angle = scan_angle,
         bs_point_source_id = point_source_id, bs_gps_time = gps_time, bs_red = red,
         bs_green = green, bs_blue = blue, bs_extra_bytes = extra_bytes\<rparr>)))))))))))))))))))))))))"

definition has_color :: "column_batch_source \<Rightarrow> bool" where
  "has_color s \<longleftrightarrow> bs_red s \<noteq> None \<and> bs_green s \<noteq> None \<and> bs_blue s \<noteq> None"

definition source_extra_byte_width :: "column_batch_source \<Rightarrow> nat" where
  "source_extra_byte_width s = (case bs_extra_bytes s of Some (_, w) \<Rightarrow> w | None \<Rightarrow> 0)"

definition index_slice :: "'a list \<Rightarrow> nat \<Rightarrow> 'a result" where
  "index_slice values index =
     (if index < length values then Ok (values ! index)
      else Err (Panic ''index out of bounds''))"

definition at_bool_u8 :: "bool list option \<Rightarrow> nat \<Rightarrow> u8 result" where
  "at_bool_u8 c index =
     (case c of Some values \<Rightarrow> bind_res (index_slice values index) (\<lambda>b. Ok (if b then 1 else 0)) | None \<Rightarrow> Ok 0)"

definition at_u8 :: "u8 list option \<Rightarrow> nat \<Rightarrow> u8 result" where
  "at_u8 c index = (case c of Some values \<Rightarrow> index_slice values index | None \<Rightarrow> Ok 0)"

definition at_u16 :: "u16 list option \<Rightarrow> nat \<Rightarrow> u16 result" where
  "at_u16 c index = (case c of Some values \<Rightarrow> index_slice values index | None \<Rightarrow> Ok 0)"

text \<open>\<^verbatim>\<open>column.map(|column| column[index]).unwrap_or(0.0)\<close>\<close>

definition at_float :: "'a::zero list option \<Rightarrow> nat \<Rightarrow> 'a result" where
  "at_float c index = (case c of Some values \<Rightarrow> index_slice values index | None \<Rightarrow> Ok 0)"

definition column_fields_into :: "column_batch_source \<Rightarrow> nat \<Rightarrow> copc_point_fields result" where
  "column_fields_into s index =
     bind_res (index_slice (bs_x s) index) (\<lambda>x.
     bind_res (index_slice (bs_y s) index) (\<lambda>y.
     bind_res (index_slice (bs_z s) index) (\<lambda>z.
     bind_res (at_u16 (bs_intensity s) index) (\<lambda>intensity.
     bind_res (at_u8 (bs_return_number s) index) (\<lambda>return_number.
     bind_res (at_u8 (bs_number_of_returns s) index) (\<lambda>number_of_returns.
     bind_res (at_bool_u8 (bs_synthetic s) index) (\<lambda>synthetic.
     bind_res (at_bool_u8 (bs_key_point s) index) (\<lambda>key_point.
     bind_res (at_bool_u8 (bs_withheld s) index) (\<lambda>withheld.
     bind_res (at_bool_u8 (bs_overlap s) index) (\<lambda>overlap.
     bind_res (at_u8 (bs_scan_channel s) index) (\<lambda>scan_channel.
     bind_res (at_bool_u8 (bs_scan_direction_flag s) index) (\<lambda>scan_direction_flag.
     bind_res (at_bool_u8 (bs_edge_of_flight_line s) index) (\<lambda>edge_of_flight_line.
     bind_res (at_u8 (bs_classification s) index) (\<lambda>classification.
     bind_res (at_u8 (bs_user_data s) index) (\<lambda>user_data.
     bind_res (at_float (bs_scan_angle s) index) (\<lambda>scan_angle.
     bind_res (at_u16 (bs_point_source_id s) index) (\<lambda>point_source_id.
     bind_res (at_float (bs_gps_time s) index) (\<lambda>gps_time.
     bind_res (at_u16 (bs_red s) index) (\<lambda>red.
     bind_res (at_u16 (bs_green s) index) (\<lambda>green.
     bind_res (at_u16 (bs_blue s) index) (\<lambda>blue.
     bind_res (case bs_extra_bytes s of
         None \<Rightarrow> Ok []
       | Some (values, w) \<Rightarrow>
           let start = index * w
           in if start + w \<le> length values then Ok (bslice values start w)
              else Err (Panic ''range end index out of range for slice'')) (\<lambda>extra_bytes.
     Ok \<lparr>cf_x = x, cf_y = y, cf_z = z, cf_intensity = intensity, cf_return_number = return_number,
         cf_number_of_returns = number_of_returns, cf_synthetic = synthetic, cf_key_point = key_point,
         cf_withheld = withheld, cf_overlap = overlap, cf_scan_channel = scan_channel,
         cf_scan_direction_flag = scan_direction_flag, cf_edge_of_flight_line = edge_of_flight_line,
         cf_classification = classification, cf_user_data = user_data, cf_scan_angle = scan_angle,
         cf_point_source_id = point_source_id, cf_gps_time = gps_time, cf_red = red,
         cf_green = green, cf_blue = blue, cf_extra_bytes = extra_bytes\<rparr>))))))))))))))))))))))"

definition column_xyz :: "column_batch_source \<Rightarrow> nat \<Rightarrow> xyz result" where
  "column_xyz s index =
     (if lb_len (bs_batch s) \<le> index
      then Err (InvalidInput ''column batch index {index} out of range (len {})'')
      else
        bind_res (index_slice (bs_x s) index) (\<lambda>x.
        bind_res (index_slice (bs_y s) index) (\<lambda>y.
        bind_res (index_slice (bs_z s) index) (\<lambda>z. Ok (x, y, z)))))"

definition column_source :: "column_batch_source \<Rightarrow> point_source" where
  "column_source s =
     \<lparr>ps_len = lb_len (bs_batch s), ps_xyz = column_xyz s, ps_fields = column_fields_into s,
      ps_extra_byte_count = of_nat (source_extra_byte_width s), ps_extra_bytes_vlrs = []\<rparr>"

definition column_bounds :: "column_batch_source \<Rightarrow> bounds result" where
  "column_bounds s =
     (if ps_is_empty (column_source s)
      then Err (InvalidInput ''cannot compute bounds for empty column batch'')
      else
        bind_res (index_slice (bs_x s) 0) (\<lambda>x.
        bind_res (index_slice (bs_y s) 0) (\<lambda>y.
        bind_res (index_slice (bs_z s) 0) (\<lambda>z.
        fold_res (\<lambda>index b.
          bind_res (index_slice (bs_x s) index) (\<lambda>x.
          bind_res (index_slice (bs_y s) index) (\<lambda>y.
          bind_res (index_slice (bs_z s) index) (\<lambda>z. Ok (bounds_extend b x y z)))))
          [1..<lb_len (bs_batch s)] (bounds_point x y z)))))"

section \<open>What the source reads\<close>

definition col_f64 :: "las_column_batch \<Rightarrow> las_dimension \<Rightarrow> f64 list option" where
  "col_f64 b d = (case batch_column b d of Some (F64 values) \<Rightarrow> Some values | _ \<Rightarrow> None)"

definition col_f32 :: "las_column_batch \<Rightarrow> las_dimension \<Rightarrow> f32 list option" where
  "col_f32 b d = (case batch_column b d of Some (F32 values) \<Rightarrow> Some values | _ \<Rightarrow> None)"

definition col_u16 :: "las_column_batch \<Rightarrow> las_dimension \<Rightarrow> u16 list option" where
  "col_u16 b d = (case batch_column b d of Some (U16 values) \<Rightarrow> Some values | _ \<Rightarrow> None)"

definition col_u8 :: "las_column_batch \<Rightarrow> las_dimension \<Rightarrow> u8 list option" where
  "col_u8 b d = (case batch_column b d of Some (U8 values) \<Rightarrow> Some values | _ \<Rightarrow> None)"

definition col_bool :: "las_column_batch \<Rightarrow> las_dimension \<Rightarrow> bool list option" where
  "col_bool b d = (case batch_column b d of Some (Bool values) \<Rightarrow> Some values | _ \<Rightarrow> None)"

lemmas col_defs = col_f64_def col_f32_def col_u16_def col_u8_def col_bool_def

text \<open>A dimension whose column, if there is one, holds values of the type \<open>t\<close>.\<close>

definition typed_as :: "las_column_batch \<Rightarrow> las_dimension \<Rightarrow> scalar_type \<Rightarrow> bool" where
  "typed_as b d t = (case batch_column b d of None \<Rightarrow> True | Some data \<Rightarrow> data_scalar data = t)"

lemma optional_eq:
  "optional_f64_column b d = (if typed_as b d Ty_F64 then Ok (col_f64 b d) else Err unexpected_column_type)"
  "optional_f32_column b d = (if typed_as b d Ty_F32 then Ok (col_f32 b d) else Err unexpected_column_type)"
  "optional_u16_column b d = (if typed_as b d Ty_U16 then Ok (col_u16 b d) else Err unexpected_column_type)"
  "optional_u8_column b d = (if typed_as b d Ty_U8 then Ok (col_u8 b d) else Err unexpected_column_type)"
  "optional_bool_column b d = (if typed_as b d Ty_Bool then Ok (col_bool b d) else Err unexpected_column_type)"
  by (simp_all add: optional_f64_column_def optional_f32_column_def optional_u16_column_def
      optional_u8_column_def optional_bool_column_def typed_as_def col_defs data_scalar_def
      split: option.splits column_data.splits)

lemma required_Ok_iff:
  "required_f64_column b d = Ok v \<longleftrightarrow> col_f64 b d = Some v"
  by (simp add: required_f64_column_def col_f64_def split: option.splits column_data.splits)

lemma bind_if_Ok_iff: "bind_res (if c then Ok v else Err e) f = Inr y \<longleftrightarrow> c \<and> f v = Inr y"
  by simp

text \<open>The extra bytes of a valid batch: its one column of that dimension.\<close>

definition col_extra :: "las_column_batch \<Rightarrow> (u8 list \<times> nat) option" where
  "col_extra b =
     (case find (\<lambda>(sp, _). sp_dimension sp = Dim_ExtraBytes) (lb_columns b) of
        Some (sp, U8 values) \<Rightarrow> map_option (\<lambda>w. (values, w)) (extra_byte_width sp)
      | _ \<Rightarrow> None)"

definition extra_width_ok :: "column \<Rightarrow> bool" where
  "extra_width_ok c \<longleftrightarrow> sp_dimension (fst c) \<noteq> Dim_ExtraBytes \<or> list_all (\<lambda>w. w \<le> 65535)
     (case extra_byte_width (fst c) of None \<Rightarrow> [] | Some w \<Rightarrow> [w])"

lemma extra_width_u8: "extra_byte_width sp = Some w \<Longrightarrow> sp_scalar sp = Ty_U8 \<and> 0 < w"
  by (auto simp: extra_byte_width_def split: las_dimension.splits scalar_type.splits option.splits if_splits)

lemma fold_extra:
  assumes "distinct (map (sp_dimension \<circ> fst) cols)" "list_all (column_typed n) cols"
    and "e = None \<or> Dim_ExtraBytes \<notin> (sp_dimension \<circ> fst) ` set cols"
  shows "fold_res extra_bytes_step cols e =
    (if list_all extra_width_ok cols
     then Ok (if e = None then col_extra \<lparr>lb_len = n, lb_columns = cols\<rparr> else e)
     else Err (InvalidInput ''ExtraBytes column width {width} exceeds LAS u16 range''))"
  using assms
proof (induction cols arbitrary: e)
  case Nil
  then show ?case by (auto simp: col_extra_def)
next
  case (Cons c cols)
  obtain sp data where c: "c = (sp, data)" by (cases c)
  show ?case
  proof (cases "sp_dimension sp = Dim_ExtraBytes")
    case False
    then have "extra_bytes_step c e = Ok e" "extra_width_ok c"
      by (simp_all add: c extra_bytes_step_def extra_width_ok_def)
    then show ?thesis using Cons False c by (simp add: col_extra_def)
  next
    case True
    then have e: "e = None" using Cons.prems(3) c by auto
    from Cons.prems(2) True c obtain w where w: "extra_byte_width sp = Some w" and s: "sp_scalar sp = data_scalar data"
      by (auto simp: column_typed_def split: option.splits)
    obtain vs where data: "data = U8 vs"
      using s extra_width_u8 [OF w] by (cases data) (auto simp: data_scalar_def)
    have rest: "Dim_ExtraBytes \<notin> (sp_dimension \<circ> fst) ` set cols"
      using Cons.prems(1) True c by auto
    show ?thesis
    proof (cases "w \<le> 65535")
      case False
      then have "extra_bytes_step c e = Err (InvalidInput ''ExtraBytes column width {width} exceeds LAS u16 range'')"
          "\<not> extra_width_ok c"
        using True w by (simp_all add: c extra_bytes_step_def extra_width_ok_def)
      then show ?thesis by simp
    next
      case le: True
      have "fold_res extra_bytes_step cols (Some (vs, w)) =
          (if list_all extra_width_ok cols then Ok (Some (vs, w))
           else Err (InvalidInput ''ExtraBytes column width {width} exceeds LAS u16 range''))"
        using Cons.IH [of "Some (vs, w)"] Cons.prems rest by simp
      moreover have "extra_bytes_step c e = Ok (Some (vs, w))" "extra_width_ok c"
        using True w le by (simp_all add: c e data extra_bytes_step_def extra_width_ok_def)
      ultimately show ?thesis using True w by (simp add: c e data col_extra_def)
    qed
  qed
qed

text \<open>What a batch must be to serve as a source.\<close>

definition batch_acceptable :: "las_column_batch \<Rightarrow> bool" where
  "batch_acceptable b \<longleftrightarrow>
     batch_validate b = Ok () \<and>
     list_all (\<lambda>(sp, data). unsupported_dimension (sp_dimension sp) = None \<and>
       accepts_scalar (sp_dimension sp) (sp_scalar sp)) (lb_columns b) \<and>
     list_all extra_width_ok (lb_columns b) \<and>
     batch_column b Dim_X \<noteq> None \<and> batch_column b Dim_Y \<noteq> None \<and> batch_column b Dim_Z \<noteq> None \<and>
     (batch_column b Dim_Red = None) = (batch_column b Dim_Green = None) \<and>
     (batch_column b Dim_Green = None) = (batch_column b Dim_Blue = None)"

text \<open>The fields of a point, read column by column: zero where the batch has no column.\<close>

definition value_at :: "'a::zero list option \<Rightarrow> nat \<Rightarrow> 'a" where
  "value_at c i = (case c of Some values \<Rightarrow> values ! i | None \<Rightarrow> 0)"

definition bit_at :: "bool list option \<Rightarrow> nat \<Rightarrow> u8" where
  "bit_at c i = (case c of Some values \<Rightarrow> if values ! i then 1 else 0 | None \<Rightarrow> 0)"

definition column_point :: "las_column_batch \<Rightarrow> nat \<Rightarrow> copc_point_fields" where
  "column_point b i =
     \<lparr>cf_x = value_at (col_f64 b Dim_X) i, cf_y = value_at (col_f64 b Dim_Y) i,
      cf_z = value_at (col_f64 b Dim_Z) i, cf_intensity = value_at (col_u16 b Dim_Intensity) i,
      cf_return_number = value_at (col_u8 b Dim_ReturnNumber) i,
      cf_number_of_returns = value_at (col_u8 b Dim_NumberOfReturns) i,
      cf_synthetic = bit_at (col_bool b Dim_Synthetic) i, cf_key_point = bit_at (col_bool b Dim_KeyPoint) i,
      cf_withheld = bit_at (col_bool b Dim_Withheld) i, cf_overlap = bit_at (col_bool b Dim_Overlap) i,
      cf_scan_channel = value_at (col_u8 b Dim_ScanChannel) i,
      cf_scan_direction_flag = bit_at (col_bool b Dim_ScanDirectionFlag) i,
      cf_edge_of_flight_line = bit_at (col_bool b Dim_EdgeOfFlightLine) i,
      cf_classification = value_at (col_u8 b Dim_Classification) i,
      cf_user_data = value_at (col_u8 b Dim_UserData) i, cf_scan_angle = value_at (col_f32 b Dim_ScanAngle) i,
      cf_point_source_id = value_at (col_u16 b Dim_PointSourceId) i,
      cf_gps_time = value_at (col_f64 b Dim_GpsTime) i, cf_red = value_at (col_u16 b Dim_Red) i,
      cf_green = value_at (col_u16 b Dim_Green) i, cf_blue = value_at (col_u16 b Dim_Blue) i,
      cf_extra_bytes = (case col_extra b of None \<Rightarrow> [] | Some (values, w) \<Rightarrow> bslice values (i * w) w)\<rparr>"

lemma typed_column:
  assumes "batch_validate b = Ok ()" "batch_column b d = Some data"
  shows "\<exists>sp. (sp, data) \<in> set (lb_columns b) \<and> sp_dimension sp = d \<and> sp_scalar sp = data_scalar data \<and>
    column_typed (lb_len b) (sp, data)"
proof -
  have v: "distinct (map (sp_dimension \<circ> fst) (lb_columns b))" "list_all (column_typed (lb_len b)) (lb_columns b)"
    using assms(1) by (simp_all add: batch_validate_Ok_iff)
  obtain sp where sp: "(sp, data) \<in> set (lb_columns b)" "sp_dimension sp = d"
    using batch_column_Some_iff [OF v(1)] assms(2) by blast
  then have "column_typed (lb_len b) (sp, data)" using v(2) by (auto simp: list_all_iff)
  with sp show ?thesis by (auto simp: column_typed_def)
qed

lemma column_length:
  assumes "batch_validate b = Ok ()" "batch_column b d = Some data" "d \<noteq> Dim_ExtraBytes"
  shows "data_len data = lb_len b"
  using typed_column [OF assms(1,2)] assms(3) by (auto simp: column_typed_def)

lemma at_columns:
  assumes b: "batch_validate b = Ok ()" and i: "i < lb_len b" and d: "d \<noteq> Dim_ExtraBytes"
  shows "at_u16 (col_u16 b d) i = Ok (value_at (col_u16 b d) i)"
    and "at_u8 (col_u8 b d) i = Ok (value_at (col_u8 b d) i)"
    and "at_bool_u8 (col_bool b d) i = Ok (bit_at (col_bool b d) i)"
    and "at_float (col_f32 b d) i = Ok (value_at (col_f32 b d) i)"
    and "at_float (col_f64 b d) i = Ok (value_at (col_f64 b d) i)"
    and "col_f64 b d = Some vs \<Longrightarrow> index_slice vs i = Ok (value_at (col_f64 b d) i)"
  using column_length [OF b _ d] i
  by (auto simp: at_u16_def at_u8_def at_bool_u8_def at_float_def value_at_def bit_at_def col_defs
      index_slice_def data_len_def split: option.splits column_data.splits)

lemma map_filter_None: "List.map_filter f xs = [] \<longleftrightarrow> list_all (\<lambda>x. f x = None) xs"
  by (induction xs) (auto simp: List.map_filter_simps split: option.splits)

text \<open>All scalar types agree with the dimensions exactly when every typed lookup succeeds.\<close>

definition all_typed :: "las_column_batch \<Rightarrow> bool" where
  "all_typed b \<longleftrightarrow>
     list_all (\<lambda>d. typed_as b d Ty_F64) [Dim_X, Dim_Y, Dim_Z, Dim_GpsTime] \<and>
     list_all (\<lambda>d. typed_as b d Ty_F32) [Dim_ScanAngle] \<and>
     list_all (\<lambda>d. typed_as b d Ty_U16) [Dim_Intensity, Dim_PointSourceId, Dim_Red, Dim_Green, Dim_Blue] \<and>
     list_all (\<lambda>d. typed_as b d Ty_U8)
       [Dim_ReturnNumber, Dim_NumberOfReturns, Dim_ScanChannel, Dim_Classification, Dim_UserData] \<and>
     list_all (\<lambda>d. typed_as b d Ty_Bool) [Dim_Synthetic, Dim_KeyPoint, Dim_Withheld, Dim_Overlap,
       Dim_ScanDirectionFlag, Dim_EdgeOfFlightLine]"

lemma typed_as_default:
  assumes b: "batch_validate b = Ok ()" and t: "default_scalar d = Some t"
  shows "typed_as b d t \<longleftrightarrow> list_all (\<lambda>(sp, _). sp_dimension sp = d \<longrightarrow> accepts_scalar d (sp_scalar sp)) (lb_columns b)"
proof -
  have v: "distinct (map (sp_dimension \<circ> fst) (lb_columns b))" "list_all (column_typed (lb_len b)) (lb_columns b)"
    using b by (simp_all add: batch_validate_Ok_iff)
  have s: "sp_scalar sp = data_scalar data" if "(sp, data) \<in> set (lb_columns b)" for sp data
    using v(2) that by (auto simp: list_all_iff column_typed_def)
  have "typed_as b d t \<longleftrightarrow> (\<forall>data. batch_column b d = Some data \<longrightarrow> data_scalar data = t)"
    by (auto simp: typed_as_def split: option.splits)
  also have "\<dots> \<longleftrightarrow> (\<forall>(sp, data) \<in> set (lb_columns b). sp_dimension sp = d \<longrightarrow> accepts_scalar d (sp_scalar sp))"
    using batch_column_Some_iff [OF v(1)] s t by (auto simp: accepts_scalar_def)
  finally show ?thesis by (auto simp: list_all_iff)
qed

definition typed_dims :: "las_dimension list" where
  "typed_dims = [Dim_X, Dim_Y, Dim_Z, Dim_GpsTime, Dim_ScanAngle, Dim_Intensity, Dim_PointSourceId, Dim_Red,
     Dim_Green, Dim_Blue, Dim_ReturnNumber, Dim_NumberOfReturns, Dim_ScanChannel, Dim_Classification,
     Dim_UserData, Dim_Synthetic, Dim_KeyPoint, Dim_Withheld, Dim_Overlap, Dim_ScanDirectionFlag,
     Dim_EdgeOfFlightLine]"

lemma typed_dims_cover: "d \<in> set typed_dims \<or> d = Dim_ExtraBytes \<or> unsupported_dimension d \<noteq> None"
  by (cases d) (simp_all add: typed_dims_def unsupported_dimension_def)

lemma typed_dims_default: "d \<in> set typed_dims \<Longrightarrow> default_scalar d \<noteq> None"
  by (cases d) (simp_all add: typed_dims_def default_scalar_def)

lemma all_typed_eq: "all_typed b \<longleftrightarrow> list_all (\<lambda>d. typed_as b d (the (default_scalar d))) typed_dims"
  by (simp add: all_typed_def typed_dims_def default_scalar_def)

lemma all_typed_iff:
  assumes b: "batch_validate b = Ok ()"
    and u: "list_all (\<lambda>(sp, data). unsupported_dimension (sp_dimension sp) = None) (lb_columns b)"
  shows "all_typed b \<longleftrightarrow> list_all (\<lambda>(sp, data). accepts_scalar (sp_dimension sp) (sp_scalar sp)) (lb_columns b)"
proof -
  have t: "typed_as b d (the (default_scalar d)) \<longleftrightarrow>
      (\<forall>(sp, _) \<in> set (lb_columns b). sp_dimension sp = d \<longrightarrow> accepts_scalar d (sp_scalar sp))"
    if "d \<in> set typed_dims" for d
    using typed_as_default [OF b, of d "the (default_scalar d)"] typed_dims_default [OF that]
    by (simp add: list_all_iff)
  have "accepts_scalar Dim_ExtraBytes sc" for sc by (simp add: accepts_scalar_def default_scalar_def)
  moreover have "sp_dimension sp \<in> set typed_dims \<or> sp_dimension sp = Dim_ExtraBytes"
    if "(sp, data) \<in> set (lb_columns b)" for sp data
    using u that typed_dims_cover [of "sp_dimension sp"] by (auto simp: list_all_iff)
  ultimately show ?thesis
    unfolding all_typed_eq list_all_iff using t by (auto simp: split_beta) (metis fst_conv prod.exhaust_sel)+
qed

definition source_of :: "las_column_batch \<Rightarrow> column_batch_source" where
  "source_of b =
     \<lparr>bs_batch = b, bs_x = the (col_f64 b Dim_X), bs_y = the (col_f64 b Dim_Y), bs_z = the (col_f64 b Dim_Z),
      bs_intensity = col_u16 b Dim_Intensity, bs_return_number = col_u8 b Dim_ReturnNumber,
      bs_number_of_returns = col_u8 b Dim_NumberOfReturns, bs_synthetic = col_bool b Dim_Synthetic,
      bs_key_point = col_bool b Dim_KeyPoint, bs_withheld = col_bool b Dim_Withheld,
      bs_overlap = col_bool b Dim_Overlap, bs_scan_channel = col_u8 b Dim_ScanChannel,
      bs_scan_direction_flag = col_bool b Dim_ScanDirectionFlag,
      bs_edge_of_flight_line = col_bool b Dim_EdgeOfFlightLine,
      bs_classification = col_u8 b Dim_Classification, bs_user_data = col_u8 b Dim_UserData,
      bs_scan_angle = col_f32 b Dim_ScanAngle, bs_point_source_id = col_u16 b Dim_PointSourceId,
      bs_gps_time = col_f64 b Dim_GpsTime, bs_red = col_u16 b Dim_Red, bs_green = col_u16 b Dim_Green,
      bs_blue = col_u16 b Dim_Blue, bs_extra_bytes = col_extra b\<rparr>"

lemma required_typed:
  "(\<exists>v. col_f64 b d = Some v) \<longleftrightarrow> batch_column b d \<noteq> None \<and> typed_as b d Ty_F64"
  by (auto simp: col_f64_def typed_as_def data_scalar_def split: option.splits column_data.splits)

lemma required_eq:
  "required_f64_column b d =
    (if batch_column b d \<noteq> None \<and> typed_as b d Ty_F64 then Ok (the (col_f64 b d))
     else Err (if batch_column b d = None then InvalidInput ''ColumnBatchSource requires {dimension:?} column''
               else unexpected_column_type))"
  by (auto simp: required_f64_column_def col_f64_def typed_as_def data_scalar_def
      split: option.splits column_data.splits)

lemma bind_unit_Ok_iff: "bind_res (m :: unit result) f = Inr y \<longleftrightarrow> m = Ok () \<and> f () = Inr y"
  by (cases m) auto

lemma column_source_new_raw:
  "column_source_new b = Ok s \<longleftrightarrow>
     batch_validate b = Ok () \<and> validate_column_batch_writer_support b = Ok () \<and>
     batch_column b Dim_X \<noteq> None \<and> batch_column b Dim_Y \<noteq> None \<and> batch_column b Dim_Z \<noteq> None \<and>
     all_typed b \<and>
     validate_color_columns (col_u16 b Dim_Red) (col_u16 b Dim_Green) (col_u16 b Dim_Blue) = Ok () \<and>
     (\<exists>e. optional_extra_bytes_column b = Ok e \<and> s = (source_of b)\<lparr>bs_extra_bytes := e\<rparr>)"
proof -
  have e: "bind_res m f = Inr y \<longleftrightarrow> (\<exists>x. m = Ok x \<and> f x = Inr y)"
    for m :: "(u8 list \<times> nat) option result" and f :: "_ \<Rightarrow> column_batch_source result" and y
    by (rule bind_res_Ok_iff)
  show ?thesis
    unfolding column_source_new_def optional_eq required_eq bind_if_Ok_iff bind_unit_Ok_iff e
      all_typed_def list.pred_inject source_of_def
    by auto
qed

lemma color_Ok_iff:
  assumes "typed_as b Dim_Red Ty_U16" "typed_as b Dim_Green Ty_U16" "typed_as b Dim_Blue Ty_U16"
  shows "validate_color_columns (col_u16 b Dim_Red) (col_u16 b Dim_Green) (col_u16 b Dim_Blue) = Ok () \<longleftrightarrow>
     (batch_column b Dim_Red = None) = (batch_column b Dim_Green = None) \<and>
     (batch_column b Dim_Green = None) = (batch_column b Dim_Blue = None)"
proof -
  have "(col_u16 b d = None) = (batch_column b d = None)" if "typed_as b d Ty_U16" for d
    using that by (auto simp: col_u16_def typed_as_def data_scalar_def split: option.splits column_data.splits)
  note n = this [OF assms(1)] this [OF assms(2)] this [OF assms(3)]
  show ?thesis unfolding validate_color_columns_def Let_def n
    by (cases "batch_column b Dim_Red"; cases "batch_column b Dim_Green"; cases "batch_column b Dim_Blue") simp_all
qed

lemma support_Ok_iff:
  "validate_column_batch_writer_support b = Ok () \<longleftrightarrow>
    list_all (\<lambda>(sp, data). unsupported_dimension (sp_dimension sp) = None) (lb_columns b)"
  by (auto simp: validate_column_batch_writer_support_def Let_def map_filter_None list_all_iff split_beta)

lemma find_SomeD: "find P xs = Some x \<Longrightarrow> x \<in> set xs \<and> P x"
  by (induction xs) (auto split: if_splits)

lemma column_source_new_Ok_iff:
  "column_source_new b = Ok s \<longleftrightarrow> batch_acceptable b \<and> s = source_of b"
proof (cases "batch_validate b = Ok () \<and> validate_column_batch_writer_support b = Ok ()")
  case False
  moreover have "batch_validate b = Ok () \<and> validate_column_batch_writer_support b = Ok ()" if "batch_acceptable b"
    using that by (auto simp: batch_acceptable_def support_Ok_iff list_all_iff)
  ultimately show ?thesis unfolding column_source_new_raw by blast
next
  case True
  then have b: "batch_validate b = Ok ()"
    and u: "list_all (\<lambda>(sp, data). unsupported_dimension (sp_dimension sp) = None) (lb_columns b)"
    by (simp_all add: support_Ok_iff)
  have extra: "optional_extra_bytes_column b =
      (if list_all extra_width_ok (lb_columns b) then Ok (col_extra b)
       else Err (InvalidInput ''ExtraBytes column width {width} exceeds LAS u16 range''))"
    using fold_extra [of "lb_columns b" "lb_len b" None] b
    by (simp add: optional_extra_bytes_column_def batch_validate_Ok_iff col_extra_def)
  have both: "list_all (\<lambda>(sp, data). unsupported_dimension (sp_dimension sp) = None \<and>
       accepts_scalar (sp_dimension sp) (sp_scalar sp)) (lb_columns b) \<longleftrightarrow> all_typed b"
    using u all_typed_iff [OF b u] by (auto simp: list_all_iff)
  have color: "validate_color_columns (col_u16 b Dim_Red) (col_u16 b Dim_Green) (col_u16 b Dim_Blue) = Ok () \<longleftrightarrow>
     (batch_column b Dim_Red = None) = (batch_column b Dim_Green = None) \<and>
     (batch_column b Dim_Green = None) = (batch_column b Dim_Blue = None)" if "all_typed b"
    using that by (intro color_Ok_iff) (simp_all add: all_typed_def)
  have s: "source_of b\<lparr>bs_extra_bytes := col_extra b\<rparr> = source_of b" by (simp add: source_of_def)
  note T = conjunct1 [OF True] conjunct2 [OF True]
  show ?thesis
  proof (cases "all_typed b")
    case False
    then show ?thesis unfolding column_source_new_raw batch_acceptable_def both by (simp only: simp_thms)
  next
    case typed: True
    show ?thesis
    proof (cases "list_all extra_width_ok (lb_columns b)")
      case False
      show ?thesis
        unfolding column_source_new_raw batch_acceptable_def both extra if_not_P [OF False]
        using False by (simp only: sum.distinct simp_thms)
    next
      case w: True
      show ?thesis
        unfolding column_source_new_raw batch_acceptable_def both extra if_P [OF w] color [OF typed]
        by (simp only: T typed w sum.inject simp_thms s conj_assoc)
    qed
  qed
qed

lemma column_source_reads:
  assumes a: "batch_acceptable b" and i: "i < lb_len b"
  shows "column_fields_into (source_of b) i = Ok (column_point b i)"
    and "column_xyz (source_of b) i =
      Ok (cf_x (column_point b i), cf_y (column_point b i), cf_z (column_point b i))"
    and "length (cf_extra_bytes (column_point b i)) = source_extra_byte_width (source_of b)"
proof -
  have b: "batch_validate b = Ok ()" using a by (simp add: batch_acceptable_def)
  obtain s where "column_source_new b = Ok s" using a column_source_new_Ok_iff by blast
  then have "all_typed b" "batch_column b Dim_X \<noteq> None" "batch_column b Dim_Y \<noteq> None"
      "batch_column b Dim_Z \<noteq> None"
    unfolding column_source_new_raw by auto
  then obtain x y z where xyz: "col_f64 b Dim_X = Some x" "col_f64 b Dim_Y = Some y" "col_f64 b Dim_Z = Some z"
    using required_typed [of b Dim_X] required_typed [of b Dim_Y] required_typed [of b Dim_Z]
    unfolding all_typed_def list.pred_inject by metis
  note at = at_columns [OF b i]
  have x: "index_slice x i = Ok (value_at (col_f64 b Dim_X) i)" by (rule at(6) [OF _ xyz(1)]) simp
  have y: "index_slice y i = Ok (value_at (col_f64 b Dim_Y) i)" by (rule at(6) [OF _ xyz(2)]) simp
  have z: "index_slice z i = Ok (value_at (col_f64 b Dim_Z) i)" by (rule at(6) [OF _ xyz(3)]) simp
  have extra: "i * w + w \<le> length vs" if "col_extra b = Some (vs, w)" for vs w
  proof -
    have "\<exists>sp. (sp, U8 vs) \<in> set (lb_columns b) \<and> sp_dimension sp = Dim_ExtraBytes \<and> extra_byte_width sp = Some w"
      using that by (auto simp: col_extra_def split: option.splits column_data.splits dest!: find_SomeD)
    then have "length vs = lb_len b * w"
      using b by (auto simp: batch_validate_Ok_iff list_all_iff column_typed_def data_len_def split: option.splits)
    moreover have "(i + 1) * w \<le> lb_len b * w" using i by (intro mult_le_mono1) simp
    ultimately show ?thesis by simp
  qed
  have e: "(case col_extra b of None \<Rightarrow> Ok []
       | Some (values, w) \<Rightarrow> let start = i * w in if start + w \<le> length values then Ok (bslice values start w)
              else Err (Panic ''range end index out of range for slice'')) =
      Ok (case col_extra b of None \<Rightarrow> [] | Some (values, w) \<Rightarrow> bslice values (i * w) w)"
    using extra by (auto simp: Let_def split: option.splits)
  show "column_fields_into (source_of b) i = Ok (column_point b i)"
    unfolding column_fields_into_def source_of_def column_point_def column_batch_source.select_convs xyz option.sel e
      at(1) [of Dim_Intensity, simplified] at(1) [of Dim_PointSourceId, simplified] at(1) [of Dim_Red, simplified]
      at(1) [of Dim_Green, simplified] at(1) [of Dim_Blue, simplified]
      at(2) [of Dim_ReturnNumber, simplified] at(2) [of Dim_NumberOfReturns, simplified]
      at(2) [of Dim_ScanChannel, simplified] at(2) [of Dim_Classification, simplified]
      at(2) [of Dim_UserData, simplified] at(3) [of Dim_Synthetic, simplified] at(3) [of Dim_KeyPoint, simplified]
      at(3) [of Dim_Withheld, simplified] at(3) [of Dim_Overlap, simplified]
      at(3) [of Dim_ScanDirectionFlag, simplified] at(3) [of Dim_EdgeOfFlightLine, simplified]
      at(4) [of Dim_ScanAngle, simplified] at(5) [of Dim_GpsTime, simplified] x y z bind_res_simps
    by (simp only: xyz)
  show "column_xyz (source_of b) i =
      Ok (cf_x (column_point b i), cf_y (column_point b i), cf_z (column_point b i))"
    using i by (simp add: column_xyz_def source_of_def column_point_def xyz x y z) 
  show "length (cf_extra_bytes (column_point b i)) = source_extra_byte_width (source_of b)"
    using extra by (auto simp: column_point_def source_extra_byte_width_def source_of_def split: option.splits)
qed


lemma extra_width_small:
  assumes "batch_acceptable b"
  shows "source_extra_byte_width (source_of b) \<le> 65535"
proof -
  have "w \<le> 65535" if "col_extra b = Some (vs, w)" for vs w
  proof -
    have "\<exists>sp. (sp, U8 vs) \<in> set (lb_columns b) \<and> sp_dimension sp = Dim_ExtraBytes \<and> extra_byte_width sp = Some w"
      using that by (auto simp: col_extra_def split: option.splits column_data.splits dest!: find_SomeD)
    then show ?thesis using assms
      by (auto simp: batch_acceptable_def list_all_iff extra_width_ok_def dest!: bspec [where P = extra_width_ok])
  qed
  then show ?thesis
    by (auto simp: source_extra_byte_width_def source_of_def split: option.splits)
qed

section \<open>Bounds\<close>

definition point_xyz :: "las_column_batch \<Rightarrow> nat \<Rightarrow> xyz" where
  "point_xyz b i = (cf_x (column_point b i), cf_y (column_point b i), cf_z (column_point b i))"

definition xyz_no_nan :: "xyz \<Rightarrow> bool" where
  "xyz_no_nan p = (case p of (x, y, z) \<Rightarrow>
     \<not> fl_is_nan binary64 x \<and> \<not> fl_is_nan binary64 y \<and> \<not> fl_is_nan binary64 z)"

definition contains_point_of :: "bounds \<Rightarrow> xyz \<Rightarrow> bool" where
  "contains_point_of bd p = (case p of (x, y, z) \<Rightarrow> contains_xyz bd x y z)"

lemma source_slices:
  assumes "batch_acceptable b" "i < lb_len b"
  shows "index_slice (bs_x (source_of b)) i = Ok (cf_x (column_point b i))"
    "index_slice (bs_y (source_of b)) i = Ok (cf_y (column_point b i))"
    "index_slice (bs_z (source_of b)) i = Ok (cf_z (column_point b i))"
proof -
  have l: "bs_batch (source_of b) = b" by (simp add: source_of_def)
  show "index_slice (bs_x (source_of b)) i = Ok (cf_x (column_point b i))"
    "index_slice (bs_y (source_of b)) i = Ok (cf_y (column_point b i))"
    "index_slice (bs_z (source_of b)) i = Ok (cf_z (column_point b i))"
    using column_source_reads(2) [OF assms] assms(2)
    by (auto simp: column_xyz_def l bind_res_Ok_iff)
qed

lemma extend_fold:
  assumes a: "batch_acceptable b" and n: "1 \<le> n" "n \<le> lb_len b"
    and no: "list_all (\<lambda>i. xyz_no_nan (point_xyz b i)) [0..<n]"
  shows "\<exists>bd. fold_res (\<lambda>index bd.
          bind_res (index_slice (bs_x (source_of b)) index) (\<lambda>x.
          bind_res (index_slice (bs_y (source_of b)) index) (\<lambda>y.
          bind_res (index_slice (bs_z (source_of b)) index) (\<lambda>z. Ok (bounds_extend bd x y z)))))
          [1..<n] (bounds_point (cf_x (column_point b 0)) (cf_y (column_point b 0)) (cf_z (column_point b 0))) = Ok bd \<and>
      list_all (\<lambda>i. contains_point_of bd (point_xyz b i)) [0..<n]"
  using n no
proof (induction n rule: nat_induct_at_least)
  case base
  then show ?case by (simp add: contains_point_of_def point_xyz_def xyz_no_nan_def contains_point)
next
  case (Suc n)
  then obtain bd where bd: "fold_res (\<lambda>index bd.
          bind_res (index_slice (bs_x (source_of b)) index) (\<lambda>x.
          bind_res (index_slice (bs_y (source_of b)) index) (\<lambda>y.
          bind_res (index_slice (bs_z (source_of b)) index) (\<lambda>z. Ok (bounds_extend bd x y z)))))
          [1..<n] (bounds_point (cf_x (column_point b 0)) (cf_y (column_point b 0)) (cf_z (column_point b 0))) = Ok bd"
      "list_all (\<lambda>i. contains_point_of bd (point_xyz b i)) [0..<n]"
    by auto
  have nn: "xyz_no_nan (point_xyz b n)" using Suc.prems(2) by simp
  let ?bd = "bounds_extend bd (cf_x (column_point b n)) (cf_y (column_point b n)) (cf_z (column_point b n))"
  have keep: "contains_point_of ?bd p" if "contains_point_of bd p" for p
    using that nn bounds_extend_contains(1) by (cases p) (auto simp: contains_point_of_def xyz_no_nan_def point_xyz_def)
  have new: "contains_point_of ?bd (point_xyz b n)"
  proof -
    have "contains_point_of bd (point_xyz b 0)" using bd(2) Suc.hyps by (simp add: list_all_iff)
    then show ?thesis using nn bounds_extend_contains(2)
      by (auto simp: contains_point_of_def xyz_no_nan_def point_xyz_def)
  qed
  have "list_all (\<lambda>i. contains_point_of ?bd (point_xyz b i)) [0..<Suc n]"
    using bd(2) keep new by (simp add: list_all_iff)
  moreover have "n < lb_len b" using Suc.prems(1) by simp
  ultimately show ?case using bd(1) Suc.hyps source_slices [OF a]
    by (simp add: fold_res_append)
qed

lemma column_bounds_contain:
  assumes a: "batch_acceptable b" and n: "lb_len b \<noteq> 0"
    and no: "list_all (\<lambda>i. xyz_no_nan (point_xyz b i)) [0..<lb_len b]"
  shows "\<exists>bd. column_bounds (source_of b) = Ok bd \<and>
    list_all (\<lambda>i. contains_point_of bd (point_xyz b i)) [0..<lb_len b]"
proof -
  have l: "bs_batch (source_of b) = b" by (simp add: source_of_def)
  have "\<not> ps_is_empty (column_source (source_of b))" using n by (simp add: ps_is_empty_def column_source_def l)
  then show ?thesis
    using extend_fold [OF a _ le_refl no] n source_slices [OF a, of 0]
    by (simp add: column_bounds_def l)
qed

text \<open>
  C31. A column batch becomes a point source exactly when it is valid, stores nothing the writer drops,
  has coordinates, types every dimension as LAS does and gives colour in full. The source then yields
  for each point the values of the columns, zero where there is none, agrees with itself on the
  coordinates, never panics, and has bounds around all points.
\<close>

theorem column_source_exact:
  "case column_source_new b of
     Inl _ \<Rightarrow> \<not> batch_acceptable b
   | Inr s \<Rightarrow>
       batch_acceptable b \<and> ps_len (column_source s) = lb_len b \<and>
       list_all (\<lambda>i. ps_fields (column_source s) i = Ok (column_point b i) \<and>
         ps_xyz (column_source s) i = Ok (point_xyz b i) \<and>
         length (cf_extra_bytes (column_point b i)) = unat (ps_extra_byte_count (column_source s))) [0..<lb_len b] \<and>
       (if lb_len b = 0 then \<not> is_ok (column_bounds s)
        else if list_all (\<lambda>i. xyz_no_nan (point_xyz b i)) [0..<lb_len b] then
          list_ex (\<lambda>bd. list_all (\<lambda>i. contains_point_of bd (point_xyz b i)) [0..<lb_len b])
            (case column_bounds s of Inl _ \<Rightarrow> [] | Inr bd \<Rightarrow> [bd])
        else True)"
proof (cases "column_source_new b")
  case (Inl e)
  then show ?thesis using column_source_new_Ok_iff [of b "source_of b"] by auto
next
  case (Inr s)
  then have a: "batch_acceptable b" and s: "s = source_of b" using column_source_new_Ok_iff by auto
  have l: "bs_batch (source_of b) = b" by (simp add: source_of_def)
  have w: "unat (of_nat (source_extra_byte_width (source_of b)) :: u16) = source_extra_byte_width (source_of b)"
    using extra_width_small [OF a] by (simp add: unat_of_nat_small)
  show ?thesis
    using column_source_reads [OF a] column_bounds_contain [OF a] w
    by (auto simp: Inr a s l column_source_def list_all_iff point_xyz_def column_bounds_def ps_is_empty_def)
qed

end
