(* ===== verification/Writer.thy ===== *)
theory Writer
  imports Metadata Spill Lod Pages Point_Record
begin

text \<open>
  The assembly of a COPC file (\<^verbatim>\<open>copc-writer/src/writer.rs\<close>): the chunks of the octree nodes, written
  by one streaming compressor or, with the feature \<^verbatim>\<open>parallel\<close>, by one compressor per node in batches,
  the hierarchy, the headers and their patches, and the commit of the output. The output is a byte
  list with a position. The LAZ compressor, its VLR and chunk table, \<^verbatim>\<open>las::point::Format\<close> and the
  file system are parameters.
\<close>

section \<open>The output\<close>

record ostream =
  os_data :: "u8 list"
  os_pos :: nat

definition os_new :: ostream where "os_new = \<lparr>os_data = [], os_pos = 0\<rparr>"

text \<open>\<^verbatim>\<open>write_all\<close> overwrites and extends; \<^verbatim>\<open>seek\<close> moves.\<close>

definition os_write :: "u8 list \<Rightarrow> ostream \<Rightarrow> ostream" where
  "os_write bs w = \<lparr>os_data = put_at (os_data w) (os_pos w) bs, os_pos = os_pos w + length bs\<rparr>"

definition os_seek :: "nat \<Rightarrow> ostream \<Rightarrow> ostream" where
  "os_seek p w = w\<lparr>os_pos := p\<rparr>"

text \<open>The functions of the \<^verbatim>\<open>las\<close> and \<^verbatim>\<open>laz\<close> crates that the writer calls; a failure is a message.\<close>

record ('v, 'z) laz_lib =
  ll_format_new :: "u8 \<Rightarrow> string + las_format"
  ll_format_len :: "las_format \<Rightarrow> u16"
  ll_build :: "u8 \<Rightarrow> u16 \<Rightarrow> string + 'v"
  ll_vlr_write :: "'v \<Rightarrow> string + u8 list"
  ll_new :: "'v \<Rightarrow> ostream \<Rightarrow> string + ('z \<times> ostream)"
  ll_compress_many :: "u8 list \<Rightarrow> 'z \<Rightarrow> ostream \<Rightarrow> string + ('z \<times> ostream)"
  ll_finish_current_chunk :: "'z \<Rightarrow> ostream \<Rightarrow> string + ('z \<times> ostream)"
  ll_done :: "'z \<Rightarrow> ostream \<Rightarrow> string + ('z \<times> ostream)"
  ll_table_write :: "(u64 \<times> u64) list \<Rightarrow> 'v \<Rightarrow> string + u8 list"

definition las_err :: "(string + 'a) \<Rightarrow> 'a result" where
  "las_err r = (case r of Inl e \<Rightarrow> Err (Las e) | Inr x \<Rightarrow> Ok x)"

section \<open>Node points\<close>

text \<open>The body of the loop of \<^verbatim>\<open>encode_node_points\<close>, on the buffer and the reader of the order file.\<close>

definition encode_node_step ::
  "point_source \<Rightarrow> nat \<Rightarrow> xyz \<Rightarrow> xyz \<Rightarrow> las_format \<Rightarrow> cancel \<Rightarrow> nat \<Rightarrow>
    u8 list \<times> bsection \<times> nat \<Rightarrow> (u8 list \<times> bsection \<times> nat) result" where
  "encode_node_step src record_len scale offset format c point_index = (\<lambda>(raw, reader, polls).
     bind_res (poll_at c point_index polls) (\<lambda>polls.
     bind_res (read_u32 ''read LOD order'' reader) (\<lambda>(source_index, reader).
     bind_res (ps_fields src (unat source_index)) (\<lambda>fields.
     bind_res (slice_at raw (point_index * record_len) record_len) (\<lambda>buf.
     bind_res (encode_point_record fields scale offset format buf) (\<lambda>buf.
       Ok (put_at raw (point_index * record_len) buf, reader, polls)))))))"

definition encode_node_points ::
  "point_source \<Rightarrow> nat \<Rightarrow> xyz \<Rightarrow> xyz \<Rightarrow> las_format \<Rightarrow> cancel \<Rightarrow> lod_node \<Rightarrow> bsection \<Rightarrow> nat \<Rightarrow>
    (u8 list \<times> bsection \<times> nat) result" where
  "encode_node_points src record_len scale offset format c node reader polls =
     bind_res (ok_or (checked_mul_usize (ln_count node) record_len)
       (InvalidInput ''node point buffer size overflows usize'')) (\<lambda>raw_len.
     fold_res (encode_node_step src record_len scale offset format c) [0..<ln_count node]
       (replicate raw_len 0, section_seek (unat (ln_start node)) reader, polls))"

definition hierarchy_entry :: "voxel_key \<Rightarrow> u64 \<Rightarrow> u64 \<Rightarrow> nat \<Rightarrow> entry result" where
  "hierarchy_entry key offset byte_size n =
     bind_res (ok_or (i32_try_from_u64 byte_size)
       (InvalidInput ''LAZ chunk exceeds COPC i32 byte size'')) (\<lambda>byte_size.
     bind_res (ok_or (if n < 2 ^ 31 then Some (of_nat n) else None)
       (InvalidInput ''node point count exceeds COPC i32 range'')) (\<lambda>point_count.
     Ok \<lparr>e_key = key, e_offset = offset, e_byte_size = byte_size, e_point_count = point_count\<rparr>))"

section \<open>The chunks, one compressor for all\<close>

definition compress_node_step ::
  "('v, 'z) laz_lib \<Rightarrow> point_source \<Rightarrow> nat \<Rightarrow> xyz \<Rightarrow> xyz \<Rightarrow> las_format \<Rightarrow> cancel \<Rightarrow> lod_node \<Rightarrow>
    'z \<times> ostream \<times> bsection \<times> entry list \<times> nat \<times> nat \<Rightarrow>
    ('z \<times> ostream \<times> bsection \<times> entry list \<times> nat \<times> nat) result" where
  "compress_node_step lib src record_len scale offset format c node =
     (\<lambda>(compressor, w, reader, hierarchy, chunk_start, polls).
     bind_res (cancel_check c polls) (\<lambda>polls.
     bind_res (encode_node_points src record_len scale offset format c node reader polls)
       (\<lambda>(raw, reader, polls).
     bind_res (las_err (ll_compress_many lib raw compressor w)) (\<lambda>(compressor, w).
     bind_res (las_err (ll_finish_current_chunk lib compressor w)) (\<lambda>(compressor, w).
     bind_res (ok_or (if chunk_start \<le> os_pos w then Some (os_pos w - chunk_start) else None)
       (InvalidData ''LAZ compressor moved before the chunk start'')) (\<lambda>byte_size.
     bind_res (hierarchy_entry (ln_key node) (of_nat chunk_start) (of_nat byte_size) (ln_count node)) (\<lambda>e.
       Ok (compressor, w, reader, hierarchy @ [e], os_pos w, polls))))))))"

definition compress_nodes ::
  "('v, 'z) laz_lib \<Rightarrow> 'v \<Rightarrow> lod_node list \<Rightarrow> u8 list \<Rightarrow> point_source \<Rightarrow> xyz \<Rightarrow> xyz \<Rightarrow> nat \<Rightarrow> las_format \<Rightarrow>
    cancel \<Rightarrow> ostream \<Rightarrow> nat \<Rightarrow> (entry list \<times> ostream \<times> nat) result" where
  "compress_nodes lib var_vlr nodes order src scale offset record_len format c w polls =
     bind_res (las_err (ll_new lib var_vlr w)) (\<lambda>(compressor, w).
     bind_res (ok_or (if os_pos w + 8 < 2 ^ 64 then Some (os_pos w + 8) else None)
       (InvalidInput ''LAZ point-data offset overflows u64'')) (\<lambda>chunk_start.
     bind_res (fold_res (compress_node_step lib src record_len scale offset format c) nodes
       (compressor, w, section_new 0 order, [], chunk_start, polls))
       (\<lambda>(compressor, w, _, hierarchy, _, polls).
     bind_res (cancel_check c polls) (\<lambda>polls.
     bind_res (las_err (ll_done lib compressor w)) (\<lambda>(_, w).
       Ok (hierarchy, w, polls))))))"

section \<open>The chunks, one compressor for each\<close>

definition compress_standalone_chunk :: "('v, 'z) laz_lib \<Rightarrow> 'v \<Rightarrow> u8 list \<Rightarrow> u8 list result" where
  "compress_standalone_chunk lib var_vlr raw =
     bind_res (las_err (ll_new lib var_vlr os_new)) (\<lambda>(compressor, w).
     bind_res (las_err (ll_compress_many lib raw compressor w)) (\<lambda>(compressor, w).
     bind_res (las_err (ll_done lib compressor w)) (\<lambda>(_, w).
     let bytes = os_data w in
     bind_res (slice_at bytes 0 8) (\<lambda>head.
     let table_position = sint (u64_from_le head) in
     if table_position < 0 then Err (InvalidData ''invalid LAZ chunk table offset'')
     else if nat table_position < 8 \<or> length bytes < nat table_position
     then Err (InvalidData ''LAZ chunk table offset out of range'')
     else Ok (bslice bytes 8 (nat table_position - 8))))))"

text \<open>\<^verbatim>\<open>slice::chunks\<close>\<close>

function slice_chunks :: "nat \<Rightarrow> 'a list \<Rightarrow> 'a list list" where
  "slice_chunks n xs = (if xs = [] \<or> n = 0 then [] else take n xs # slice_chunks n (drop n xs))"
  by pat_completeness auto
termination by (relation "measure (\<lambda>(_, xs). length xs)") auto

declare slice_chunks.simps [simp del]

definition encode_batch_step ::
  "point_source \<Rightarrow> nat \<Rightarrow> xyz \<Rightarrow> xyz \<Rightarrow> las_format \<Rightarrow> cancel \<Rightarrow> lod_node \<Rightarrow>
    u8 list list \<times> bsection \<times> nat \<Rightarrow> (u8 list list \<times> bsection \<times> nat) result" where
  "encode_batch_step src record_len scale offset format c node = (\<lambda>(raw_chunks, reader, polls).
     bind_res (encode_node_points src record_len scale offset format c node reader polls)
       (\<lambda>(raw, reader, polls). Ok (raw_chunks @ [raw], reader, polls)))"

definition write_chunk_step ::
  "lod_node \<times> u8 list result \<Rightarrow> ostream \<times> entry list \<times> (u64 \<times> u64) list \<times> nat \<Rightarrow>
    (ostream \<times> entry list \<times> (u64 \<times> u64) list \<times> nat) result" where
  "write_chunk_step = (\<lambda>(node, chunk) (w, hierarchy, chunk_table, chunk_start).
     bind_res chunk (\<lambda>chunk.
     let w = os_write chunk w in
     bind_res (hierarchy_entry (ln_key node) (of_nat chunk_start) (of_nat (length chunk)) (ln_count node)) (\<lambda>e.
     bind_res (ok_or (if chunk_start + length chunk < 2 ^ 64 then Some (chunk_start + length chunk) else None)
       (InvalidInput ''LAZ point-data offset overflows u64'')) (\<lambda>next_start.
       Ok (w, hierarchy @ [e], chunk_table @ [(of_nat (ln_count node), of_nat (length chunk))], next_start)))))"

definition compress_batch_step ::
  "('v, 'z) laz_lib \<Rightarrow> 'v \<Rightarrow> point_source \<Rightarrow> nat \<Rightarrow> xyz \<Rightarrow> xyz \<Rightarrow> las_format \<Rightarrow> cancel \<Rightarrow> lod_node list \<Rightarrow>
    ostream \<times> bsection \<times> entry list \<times> (u64 \<times> u64) list \<times> nat \<times> nat \<Rightarrow>
    (ostream \<times> bsection \<times> entry list \<times> (u64 \<times> u64) list \<times> nat \<times> nat) result" where
  "compress_batch_step lib var_vlr src record_len scale offset format c batch =
     (\<lambda>(w, reader, hierarchy, chunk_table, chunk_start, polls).
     bind_res (cancel_check c polls) (\<lambda>polls.
     bind_res (fold_res (encode_batch_step src record_len scale offset format c) batch ([], reader, polls))
       (\<lambda>(raw_chunks, reader, polls).
     let compressed = map (compress_standalone_chunk lib var_vlr) raw_chunks in
     bind_res (fold_res write_chunk_step (zip batch compressed) (w, hierarchy, chunk_table, chunk_start))
       (\<lambda>(w, hierarchy, chunk_table, chunk_start).
       Ok (w, reader, hierarchy, chunk_table, chunk_start, polls)))))"

definition compress_nodes_parallel ::
  "nat \<Rightarrow> ('v, 'z) laz_lib \<Rightarrow> 'v \<Rightarrow> lod_node list \<Rightarrow> u8 list \<Rightarrow> point_source \<Rightarrow> xyz \<Rightarrow> xyz \<Rightarrow> nat \<Rightarrow> las_format \<Rightarrow>
    cancel \<Rightarrow> ostream \<Rightarrow> nat \<Rightarrow> (entry list \<times> ostream \<times> nat) result" where
  "compress_nodes_parallel threads lib var_vlr nodes order src scale offset record_len format c w polls =
     (let table_offset_position = os_pos w;
          w = os_write (u64_to_le (word_of_int (- 1))) w;
          batch_size = max threads 1 * 2 in
     bind_res (fold_res (compress_batch_step lib var_vlr src record_len scale offset format c)
       (slice_chunks batch_size nodes)
       (w, section_new 0 order, [], [], table_offset_position + 8, polls))
       (\<lambda>(w, _, hierarchy, chunk_table, _, polls).
     bind_res (cancel_check c polls) (\<lambda>polls.
     let chunk_table_position = os_pos w in
     bind_res (case ll_table_write lib chunk_table var_vlr of
         Inl _ \<Rightarrow> Err (Io ''write chunk table'') | Inr bs \<Rightarrow> Ok bs) (\<lambda>table.
     let w = os_write table w;
         end_position = os_pos w;
         w = os_seek table_offset_position w in
     bind_res (ok_or (if chunk_table_position < 2 ^ 63 then Some (of_nat chunk_table_position) else None)
       (InvalidInput ''LAZ chunk table offset exceeds i64 range'')) (\<lambda>chunk_table_position.
     let w = os_write (u64_to_le chunk_table_position) w;
         w = os_seek end_position w
     in Ok (hierarchy, w, polls))))))"

section \<open>Preparing a write\<close>

text \<open>What is fixed before the output file is opened: the values of the first half of \<open>write_copc_inner\<close>.\<close>

record 'v write_plan =
  wp_header :: out_header
  wp_format :: las_format
  wp_record_length :: u16
  wp_scale :: xyz
  wp_offset :: xyz
  wp_stats :: point_stats
  wp_center :: xyz
  wp_halfsize :: f64
  wp_nodes :: "lod_node list"
  wp_order :: "u8 list"
  wp_var_vlr :: 'v
  wp_var_vlr_bytes :: "u8 list"
  wp_var_vlr_body_size :: u16
  wp_polls :: nat

definition u32_try_from_usize :: "nat \<Rightarrow> u32 option" where
  "u32_try_from_usize n = (if n < 2 ^ 32 then Some (of_nat n) else None)"

definition output_vlr_count :: "nat \<Rightarrow> nat \<Rightarrow> nat \<Rightarrow> u32 result" where
  "output_vlr_count crs extra pass =
     bind_res (ok_or (Option.bind (checked_add_usize 2 crs) (\<lambda>k. Option.bind (checked_add_usize k extra)
         (\<lambda>k. checked_add_usize k pass))) (InvalidInput ''VLR count overflow'')) (\<lambda>total.
     bind_res (ok_or (u32_try_from_usize total) (InvalidInput ''VLR count overflow'')) (\<lambda>number_of_vlrs.
     if MAX_VLR_COUNT < unat number_of_vlrs
     then Err (InvalidInput ''output VLR count {number_of_vlrs} exceeds max supported {MAX_VLR_COUNT}'')
     else Ok number_of_vlrs))"

definition output_evlr_count :: "nat \<Rightarrow> u32 result" where
  "output_evlr_count after_hierarchy =
     bind_res (ok_or (checked_add_usize 1 after_hierarchy) (InvalidInput ''EVLR count overflow'')) (\<lambda>total.
     bind_res (ok_or (u32_try_from_usize total) (InvalidInput ''EVLR count overflow'')) (\<lambda>number_of_evlrs.
     if MAX_EVLR_COUNT < unat number_of_evlrs
     then Err (InvalidInput ''output EVLR count {number_of_evlrs} exceeds max supported {MAX_EVLR_COUNT}'')
     else Ok number_of_evlrs))"

definition point_data_offset :: "u16 \<Rightarrow> u32 \<Rightarrow> u32 \<Rightarrow> u32 \<Rightarrow> u32 result" where
  "point_data_offset var_vlr_body_size crs_bytes extra_bytes pass_bytes =
     bind_res (ok_or (checked_add (of_nat LAS_VLR_HEADER_BYTES) (ucast var_vlr_body_size))
       (InvalidInput ''LAZ VLR byte size overflow'')) (\<lambda>var_vlr_storage_bytes.
     bind_res (ok_or
       (Option.bind (checked_add (of_nat LAS_VLR_HEADER_BYTES) (ucast (160 :: u16))) (\<lambda>t.
        Option.bind (checked_add t var_vlr_storage_bytes) (\<lambda>t.
        Option.bind (checked_add t crs_bytes) (\<lambda>t.
        Option.bind (checked_add t extra_bytes) (\<lambda>t. checked_add t pass_bytes)))))
       (InvalidInput ''VLR byte size overflow'')) (\<lambda>total_vlr_bytes.
     ok_or (checked_add 375 total_vlr_bytes) (InvalidInput ''point data offset overflow'')))"

definition write_prepare ::
  "('v, 'z) laz_lib \<Rightarrow> point_source \<Rightarrow> bool \<Rightarrow> bounds \<Rightarrow> u32 \<Rightarrow> cancel \<Rightarrow> nat \<Rightarrow> out_metadata \<Rightarrow>
    point_stats option \<Rightarrow> 'v write_plan result" where
  "write_prepare lib src has_color b max_points_per_node c polls metadata intake_stats =
     bind_res (cancel_check c polls) (\<lambda>polls.
     bind_res (ensure (max_points_per_node \<noteq> 0)
       (InvalidInput ''max_points_per_node must be greater than zero'')) (\<lambda>_.
     let point_format_id = (if has_color then 7 else 6) in
     bind_res (las_err (ll_format_new lib point_format_id)) (\<lambda>point_format.
     let extra_byte_count = ps_extra_byte_count src in
     bind_res (ok_or (checked_add (ll_format_len lib point_format) extra_byte_count)
       (InvalidInput ''point record length with {extra_byte_count} extra bytes exceeds LAS u16 range''))
       (\<lambda>point_record_length.
     let point_format = point_format\<lparr>lf_extra_bytes := extra_byte_count\<rparr>;
         scale = om_scale metadata;
         offset = (case om_offset metadata of Some offset \<Rightarrow> offset | None \<Rightarrow> b_min b) in
     bind_res (validate_write_setup b scale offset) (\<lambda>_.
     bind_res (case intake_stats of
         Some stats \<Rightarrow> Ok (stats, polls)
       | None \<Rightarrow> validate_source_points src b scale offset c polls) (\<lambda>(point_stats, polls).
     let (center, halfsize) = cube_from_bounds b in
     bind_res (build_lod_index src center halfsize max_points_per_node c polls) (\<lambda>(nodes, order, polls).
     bind_res (cancel_check c polls) (\<lambda>polls.
     bind_res (las_err (ll_build lib point_format_id extra_byte_count)) (\<lambda>var_vlr.
     bind_res (las_err (ll_vlr_write lib var_vlr)) (\<lambda>var_vlr_bytes.
     bind_res (regular_crs_vlr_bytes metadata) (\<lambda>crs_bytes.
     bind_res (regular_las_vlrs_bytes (ps_extra_bytes_vlrs src)) (\<lambda>extra_bytes.
     bind_res (regular_las_vlrs_bytes (om_pass_through_vlrs metadata)) (\<lambda>pass_bytes.
     bind_res (output_vlr_count (regular_crs_vlr_count metadata) (length (ps_extra_bytes_vlrs src))
       (length (om_pass_through_vlrs metadata))) (\<lambda>number_of_vlrs.
     bind_res (output_evlr_count (source_evlr_count_after_hierarchy metadata)) (\<lambda>number_of_evlrs.
     bind_res (ok_or (u16_try_from_usize (length var_vlr_bytes))
       (InvalidInput ''LAZ VLR byte size exceeds LAS VLR limit'')) (\<lambda>var_vlr_body_size.
     bind_res (point_data_offset var_vlr_body_size crs_bytes extra_bytes pass_bytes)
       (\<lambda>offset_to_point_data.
     Ok \<lparr>wp_header =
           \<lparr>oh_point_data_format = point_format_id OR 0x80, oh_point_record_length = point_record_length,
            oh_offset_to_point_data = offset_to_point_data, oh_number_of_vlrs = number_of_vlrs,
            oh_file_source_id = om_file_source_id metadata,
            oh_global_encoding = om_global_encoding metadata, oh_guid = om_guid metadata,
            oh_system_identifier = om_system_identifier metadata,
            oh_generating_software = om_generating_software metadata,
            oh_creation_day_of_year = om_creation_day_of_year metadata,
            oh_creation_year = om_creation_year metadata, oh_scale = scale, oh_offset = offset,
            oh_bounds = b, oh_legacy_point_count = 0,
            oh_total_point_count = of_nat (ps_len src), oh_offset_to_first_evlr = 0,
            oh_number_of_evlrs = number_of_evlrs,
            oh_extended_return_counts = extended_return_counts point_stats\<rparr>,
         wp_format = point_format, wp_record_length = point_record_length, wp_scale = scale,
         wp_offset = offset, wp_stats = point_stats, wp_center = center, wp_halfsize = halfsize,
         wp_nodes = nodes, wp_order = order, wp_var_vlr = var_vlr, wp_var_vlr_bytes = var_vlr_bytes,
         wp_var_vlr_body_size = var_vlr_body_size, wp_polls = polls\<rparr>)))))))))))))))))"

section \<open>Writing the file\<close>

text \<open>A function of the LAS writer that returns bytes, written to the output.\<close>

definition emit :: "u8 list result \<Rightarrow> ostream \<Rightarrow> ostream result" where
  "emit r w = bind_res r (\<lambda>bs. Ok (os_write bs w))"

type_synonym 'v compress_fn =
  "'v \<Rightarrow> lod_node list \<Rightarrow> u8 list \<Rightarrow> point_source \<Rightarrow> xyz \<Rightarrow> xyz \<Rightarrow> nat \<Rightarrow> las_format \<Rightarrow>
    cancel \<Rightarrow> ostream \<Rightarrow> nat \<Rightarrow> (entry list \<times> ostream \<times> nat) result"

text \<open>The headers and VLRs, up to the point data. The position of the COPC info payload is returned.\<close>

definition write_front :: "'v write_plan \<Rightarrow> point_source \<Rightarrow> out_metadata \<Rightarrow> (nat \<times> ostream) result" where
  "write_front plan src metadata =
     bind_res (emit (out_header_write (wp_header plan)) os_new) (\<lambda>w.
     bind_res (emit (write_vlr_header (lit ''copc'') 1 160 (lit ''COPC info'')) w) (\<lambda>w.
     let copc_info_payload_start = os_pos w;
         w = os_write (replicate 160 0) w in
     bind_res (emit (write_vlr_header LASZIP_VLR_USER_ID LASZIP_VLR_RECORD_ID (wp_var_vlr_body_size plan)
       (lit ''http://laszip.org'')) w) (\<lambda>w.
     let w = os_write (wp_var_vlr_bytes plan) w in
     bind_res (fold_res (\<lambda>v. emit (write_las_vlr v)) (regular_crs_vlrs metadata) w) (\<lambda>w.
     bind_res (fold_res (\<lambda>v. emit (write_las_vlr v)) (ps_extra_bytes_vlrs src) w) (\<lambda>w.
     bind_res (fold_res (\<lambda>v. emit (write_las_vlr v)) (om_pass_through_vlrs metadata) w) (\<lambda>w.
     bind_res (ensure ((of_nat (os_pos w) :: u32) = oh_offset_to_point_data (wp_header plan))
       (InvalidInput ''VLR size accounting mismatch: at {}, expected {}'')) (\<lambda>_.
       Ok (copc_info_payload_start, w))))))))"

text \<open>The hierarchy EVLR and the EVLRs after it. The result is the root page and the output.\<close>

definition write_hierarchy :: "entry list \<Rightarrow> out_metadata \<Rightarrow> ostream \<Rightarrow> (nat \<times> page_plan \<times> ostream) result" where
  "write_hierarchy hierarchy metadata w =
     (let hierarchy_evlr_start = os_pos w in
     bind_res (ok_or (if hierarchy_evlr_start + LAS_EVLR_HEADER_BYTES < 2 ^ 64
         then Some (hierarchy_evlr_start + LAS_EVLR_HEADER_BYTES) else None)
       (InvalidInput ''hierarchy EVLR offset overflow'')) (\<lambda>root_hier_offset.
     bind_res (plan_hierarchy_pages hierarchy vk_root) (\<lambda>hierarchy_pages.
     bind_res (assign_hierarchy_page_offsets hierarchy_pages root_hier_offset) (\<lambda>(hierarchy_pages, hierarchy_end).
     bind_res (ok_or (if root_hier_offset \<le> hierarchy_end then Some (hierarchy_end - root_hier_offset) else None)
       (InvalidInput ''hierarchy size overflow'')) (\<lambda>hierarchy_body_size.
     bind_res (emit (write_evlr_header (lit ''copc'') 1000 (of_nat hierarchy_body_size) (lit ''COPC hierarchy'')) w) (\<lambda>w.
     bind_res (ensure (os_pos w = root_hier_offset)
       (InvalidInput ''hierarchy offset accounting mismatch: at {}, expected {}'')) (\<lambda>_.
     bind_res (write_hierarchy_page_tree hierarchy_pages (take (os_pos w) (os_data w))) (\<lambda>out.
     let w = os_write (drop (os_pos w) out) w in
     bind_res (fold_res (\<lambda>v. emit (write_las_evlr v)) (source_evlrs_after_hierarchy metadata) w) (\<lambda>w.
       Ok (root_hier_offset, hierarchy_pages, w))))))))))"

text \<open>The COPC info payload and the offset of the first EVLR, patched into the headers.\<close>

definition write_patches :: "'v write_plan \<Rightarrow> nat \<Rightarrow> nat \<Rightarrow> nat \<Rightarrow> page_plan \<Rightarrow> ostream \<Rightarrow> ostream result" where
  "write_patches plan copc_info_payload_start hierarchy_evlr_start root_hier_offset hierarchy_pages w =
     (let w = os_seek copc_info_payload_start w;
          info = \<lparr>ci_center = wp_center plan, ci_halfsize = wp_halfsize plan,
            ci_spacing = f64_div (wp_halfsize plan) 0x4060000000000000,
            ci_root_hier_offset = of_nat root_hier_offset,
            ci_root_hier_size = of_nat (pp_byte_size hierarchy_pages),
            ci_gpstime_min = gpstime_min (wp_stats plan), ci_gpstime_max = gpstime_max (wp_stats plan)\<rparr> in
      bind_res (emit (info_write_le_bytes info) w) (\<lambda>w.
      Ok (os_write (u64_to_le (of_nat hierarchy_evlr_start)) (os_seek 235 w))))"

definition write_body ::
  "'v compress_fn \<Rightarrow> 'v write_plan \<Rightarrow> point_source \<Rightarrow> cancel \<Rightarrow> out_metadata \<Rightarrow> u8 list result" where
  "write_body compress plan src c metadata =
     bind_res (write_front plan src metadata) (\<lambda>(copc_info_payload_start, w).
     bind_res (compress (wp_var_vlr plan) (wp_nodes plan) (wp_order plan) src (wp_scale plan) (wp_offset plan)
       (unat (wp_record_length plan)) (wp_format plan) c w (wp_polls plan)) (\<lambda>(hierarchy, w, _).
     let hierarchy_evlr_start = os_pos w in
     bind_res (write_hierarchy hierarchy metadata w) (\<lambda>(root_hier_offset, hierarchy_pages, w).
     bind_res (write_patches plan copc_info_payload_start hierarchy_evlr_start root_hier_offset hierarchy_pages w)
       (\<lambda>w. Ok (os_data w)))))"

end
