(* ===== verification/Write_Entry.thy ===== *)
theory Write_Entry
  imports Writer
begin

text \<open>
  The entry points of \<^verbatim>\<open>copc-writer/src/writer.rs\<close> and \<^verbatim>\<open>PendingOutput\<close>: the file is written under a
  temporary name and renamed on success. A file system is a map from paths to contents; the outcomes
  of the system calls, the name of the temporary file and the \<^verbatim>\<open>las::Reader\<close> are parameters. The
  property is that a failed write leaves the destination alone.
\<close>

section \<open>The pending output\<close>

type_synonym 'p fs = "'p \<Rightarrow> u8 list option"

record 'p fs_env =
  fe_has_file_name :: "'p \<Rightarrow> bool"
  fe_tempfile :: "'p \<Rightarrow> 'p fs \<Rightarrow> 'p option"
  fe_reopen_ok :: bool
  fe_flush_ok :: bool
  fe_sync_ok :: bool
  fe_persist_ok :: bool
  fe_sync_dir_ok :: bool

record 'p pending_output =
  po_file :: "'p option"
  po_final_path :: 'p

definition pending_create :: "'p fs_env \<Rightarrow> 'p \<Rightarrow> 'p fs \<Rightarrow> ('p pending_output \<times> 'p fs) result" where
  "pending_create env path fs =
     (if \<not> fe_has_file_name env path then Err (InvalidInput ''output path {} has no file name'')
      else case fe_tempfile env path fs of
          None \<Rightarrow> Err (Io ''create temporary COPC file'')
        | Some tmp \<Rightarrow> Ok (\<lparr>po_file = Some tmp, po_final_path = path\<rparr>, fs(tmp \<mapsto> [])))"

definition pending_reopen :: "'p fs_env \<Rightarrow> 'p pending_output \<Rightarrow> 'p result" where
  "pending_reopen env p =
     bind_res (ok_or (po_file p) (InvalidInput ''temporary COPC file already committed'')) (\<lambda>tmp.
     if fe_reopen_ok env then Ok tmp else Err (Io ''open temporary COPC file''))"

text \<open>\<^verbatim>\<open>NamedTempFile\<close> deletes the file it still owns when it is dropped.\<close>

definition pending_drop :: "'p pending_output \<Rightarrow> 'p fs \<Rightarrow> 'p fs" where
  "pending_drop p fs = (case po_file p of Some tmp \<Rightarrow> fs(tmp := None) | None \<Rightarrow> fs)"

definition sync_parent_directory :: "'p fs_env \<Rightarrow> unit result" where
  "sync_parent_directory env =
     (if fe_sync_dir_ok env then Ok () else Err (Io ''sync COPC output directory''))"

definition pending_commit :: "'p fs_env \<Rightarrow> 'p pending_output \<Rightarrow> 'p fs \<Rightarrow> unit result \<times> 'p fs" where
  "pending_commit env p fs =
     (case po_file p of
        None \<Rightarrow> (Err (InvalidInput ''temporary COPC file already committed''), fs)
      | Some tmp \<Rightarrow>
          if \<not> fe_persist_ok env then (Err (Io ''persist COPC file''), fs(tmp := None))
          else (sync_parent_directory env, (fs(po_final_path p := fs tmp))(tmp := None)))"

definition write_copc_inner ::
  "'p fs_env \<Rightarrow> 'v compress_fn \<Rightarrow> ('v, 'z) laz_lib \<Rightarrow> 'p \<Rightarrow> point_source \<Rightarrow> bool \<Rightarrow> bounds \<Rightarrow> u32 \<Rightarrow> cancel \<Rightarrow> nat \<Rightarrow>
    out_metadata \<Rightarrow> point_stats option \<Rightarrow> 'p fs \<Rightarrow> unit result \<times> 'p fs" where
  "write_copc_inner env compress lib path src has_color b max_points_per_node c polls metadata intake_stats fs =
     (case write_prepare lib src has_color b max_points_per_node c polls metadata intake_stats of
        Inl e \<Rightarrow> (Err e, fs)
      | Inr plan \<Rightarrow>
     (case pending_create env path fs of
        Inl e \<Rightarrow> (Err e, fs)
      | Inr (pending, fs) \<Rightarrow>
     (case pending_reopen env pending of
        Inl e \<Rightarrow> (Err e, pending_drop pending fs)
      | Inr tmp \<Rightarrow>
     (case write_body compress plan src c metadata of
        Inl e \<Rightarrow> (Err e, pending_drop pending fs)
      | Inr bytes \<Rightarrow>
          if \<not> fe_flush_ok env then (Err (Io ''flush COPC file''), pending_drop pending fs)
          else if \<not> fe_sync_ok env then (Err (Io ''sync COPC file''), pending_drop pending fs)
          else pending_commit env pending (fs(tmp \<mapsto> bytes))))))"

section \<open>Entry points\<close>

definition write_copc_from_spill ::
  "'p fs_env \<Rightarrow> 'v compress_fn \<Rightarrow> ('v, 'z) laz_lib \<Rightarrow> 'p \<Rightarrow> spill_reader \<Rightarrow> u32 \<Rightarrow> cancel \<Rightarrow> nat \<Rightarrow> out_metadata \<Rightarrow>
    'p fs \<Rightarrow> unit result \<times> 'p fs" where
  "write_copc_from_spill env compress lib path reader max_points_per_node c polls metadata fs =
     (case bind_res (cancel_check c polls) (\<lambda>polls.
           bind_res (ensure (max_points_per_node \<noteq> 0)
             (InvalidInput ''max_points_per_node must be greater than zero'')) (\<lambda>_.
           bind_res (validate_streaming_layout_supported (sr_layout reader)) (\<lambda>_.
           bind_res (ensure (\<not> sr_is_empty reader)
             (InvalidInput ''cannot write empty cloud to COPC'')) (\<lambda>_. Ok polls)))) of
        Inl e \<Rightarrow> (Err e, fs)
      | Inr polls \<Rightarrow>
          write_copc_inner env compress lib path (spill_source reader) (sl_has_color (sr_layout reader))
            (sr_bounds reader) max_points_per_node c polls metadata (Some (sr_stats reader)) fs)"

text \<open>The points of a streaming write are results of an iterator.\<close>

definition push_item_step ::
  "cancel \<Rightarrow> nat \<times> las_point_record result \<Rightarrow> spill_writer \<times> nat \<Rightarrow> (spill_writer \<times> nat) result" where
  "push_item_step c = (\<lambda>(index, item) (spill, polls).
     bind_res (poll_at c index polls) (\<lambda>polls.
     bind_res item (\<lambda>record.
     bind_res (spill_push record spill) (\<lambda>spill. Ok (spill, polls)))))"

definition write_streaming_with_cancel ::
  "'p fs_env \<Rightarrow> 'v compress_fn \<Rightarrow> ('v, 'z) laz_lib \<Rightarrow> u64 option \<Rightarrow> 'p \<Rightarrow> streaming_layout \<Rightarrow>
    las_point_record result list \<Rightarrow> u32 \<Rightarrow> write_metadata \<Rightarrow> cancel \<Rightarrow> 'p fs \<Rightarrow> unit result \<times> 'p fs" where
  "write_streaming_with_cancel env compress lib now path layout points max_points_per_node metadata c fs =
     (case bind_res (cancel_check c 0) (\<lambda>polls.
           bind_res (validate_streaming_layout_supported layout) (\<lambda>_.
           bind_res (fold_res (push_item_step c) (enumerate 0 points) (spill_create layout, polls)) (\<lambda>(spill, polls).
           bind_res (cancel_check c polls) (\<lambda>polls.
           bind_res (spill_finalize spill) (\<lambda>reader. Ok (reader, polls)))))) of
        Inl e \<Rightarrow> (Err e, fs)
      | Inr (reader, polls) \<Rightarrow>
          write_copc_from_spill env compress lib path reader max_points_per_node c polls (to_output now metadata) fs)"

definition write_source_with_cancel ::
  "'p fs_env \<Rightarrow> 'v compress_fn \<Rightarrow> ('v, 'z) laz_lib \<Rightarrow> u64 option \<Rightarrow> 'p \<Rightarrow> point_source \<Rightarrow> bool \<Rightarrow> bounds \<Rightarrow> u32 \<Rightarrow>
    write_metadata \<Rightarrow> cancel \<Rightarrow> 'p fs \<Rightarrow> unit result \<times> 'p fs" where
  "write_source_with_cancel env compress lib now path src has_color b max_points_per_node metadata c fs =
     (case bind_res (cancel_check c 0) (\<lambda>polls.
           bind_res (ensure (\<not> ps_is_empty src)
             (InvalidInput ''cannot write empty cloud to COPC'')) (\<lambda>_. Ok polls)) of
        Inl e \<Rightarrow> (Err e, fs)
      | Inr polls \<Rightarrow>
          write_copc_inner env compress lib path src has_color b max_points_per_node c polls
            (to_output now metadata) None fs)"

definition write_source ::
  "'p fs_env \<Rightarrow> 'v compress_fn \<Rightarrow> ('v, 'z) laz_lib \<Rightarrow> u64 option \<Rightarrow> 'p \<Rightarrow> point_source \<Rightarrow> bool \<Rightarrow> bounds \<Rightarrow> u32 \<Rightarrow>
    write_metadata \<Rightarrow> 'p fs \<Rightarrow> unit result \<times> 'p fs" where
  "write_source env compress lib now path src has_color b max_points_per_node metadata fs =
     write_source_with_cancel env compress lib now path src has_color b max_points_per_node metadata never_cancel fs"

section \<open>Conversion of LAS files\<close>

text \<open>
  \<^verbatim>\<open>las::Reader\<close>: opening a file gives its header and the outcomes of the calls of \<^verbatim>\<open>fill_points\<close>: a
  batch of point results, the last one empty, or a message.
\<close>

record 'c las_reader =
  lr_header :: source_header
  lr_batches :: "(string + (string + 'c las_point) list) list"

definition convert_point_step ::
  "('c \<Rightarrow> u8) \<Rightarrow> cancel \<Rightarrow> (string + 'c las_point) \<Rightarrow> spill_writer \<times> nat \<times> nat \<Rightarrow> (spill_writer \<times> nat \<times> nat) result" where
  "convert_point_step class_u8 c item = (\<lambda>(spill, index, polls).
     bind_res (poll_at c index polls) (\<lambda>polls.
     bind_res (las_err item) (\<lambda>point.
     bind_res (spill_push (from_las_point class_u8 point) spill) (\<lambda>spill.
     bind_res (ok_or (checked_add_usize index 1) (InvalidInput ''source point count exceeds usize'')) (\<lambda>index.
       Ok (spill, index, polls))))))"

text \<open>A reader that runs out of batches has returned an empty one.\<close>

fun convert_batches ::
  "('c \<Rightarrow> u8) \<Rightarrow> cancel \<Rightarrow> (string + (string + 'c las_point) list) list \<Rightarrow> spill_writer \<times> nat \<times> nat \<Rightarrow>
    (spill_writer \<times> nat \<times> nat) result" where
  "convert_batches class_u8 c [] st = Ok st"
| "convert_batches class_u8 c (batch # batches) st =
     bind_res (las_err batch) (\<lambda>points.
     if points = [] then Ok st
     else
       bind_res (fold_res (convert_point_step class_u8 c) points st) (\<lambda>st.
       convert_batches class_u8 c batches st))"

definition convert_las_to_copc_streaming_inner ::
  "'p fs_env \<Rightarrow> 'v compress_fn \<Rightarrow> ('v, 'z) laz_lib \<Rightarrow> u64 option \<Rightarrow> ('c \<Rightarrow> u8) \<Rightarrow> (las_format \<Rightarrow> u8 option) \<Rightarrow>
    (u8 list \<Rightarrow> string + 'c las_reader) \<Rightarrow> (u8 list \<Rightarrow> las_vlr list result) \<Rightarrow> 'p \<Rightarrow> 'p \<Rightarrow> u32 \<Rightarrow> cancel \<Rightarrow> u8 list option \<Rightarrow>
    'p fs \<Rightarrow> unit result \<times> 'p fs" where
  "convert_las_to_copc_streaming_inner env compress lib now class_u8 to_u8 las_open read_evlrs las_path copc_path
     max_points_per_node c crs_wkt_override fs =
     (case bind_res (cancel_check c 0) (\<lambda>polls.
           bind_res (ok_or (fs las_path) (Io ''open source LAS/LAZ'')) (\<lambda>las_file.
           bind_res (las_err (las_open las_file)) (\<lambda>reader.
           bind_res (read_evlrs las_file) (\<lambda>source_evlrs.
           bind_res (validate_las_conversion_supported (lr_header reader) source_evlrs crs_wkt_override) (\<lambda>_.
           let metadata = Metadata.from_las_header now (lr_header reader) source_evlrs crs_wkt_override;
               layout = Streaming.from_las_header to_u8 (sh_point_format (lr_header reader)) (sh_vlrs (lr_header reader)) in
           bind_res (convert_batches class_u8 c (lr_batches reader) (spill_create layout, 0, polls))
             (\<lambda>(spill, _, polls).
           bind_res (cancel_check c polls) (\<lambda>polls.
           bind_res (spill_finalize spill) (\<lambda>spill_reader. Ok (spill_reader, metadata, polls))))))))) of
        Inl e \<Rightarrow> (Err e, fs)
      | Inr (spill_reader, metadata, polls) \<Rightarrow>
          write_copc_from_spill env compress lib copc_path spill_reader max_points_per_node c polls metadata fs)"

definition convert_las_to_copc_streaming ::
  "'p fs_env \<Rightarrow> 'v compress_fn \<Rightarrow> ('v, 'z) laz_lib \<Rightarrow> u64 option \<Rightarrow> ('c \<Rightarrow> u8) \<Rightarrow> (las_format \<Rightarrow> u8 option) \<Rightarrow>
    (u8 list \<Rightarrow> string + 'c las_reader) \<Rightarrow> (u8 list \<Rightarrow> las_vlr list result) \<Rightarrow> 'p \<Rightarrow> 'p \<Rightarrow> u32 \<Rightarrow> cancel \<Rightarrow>
    'p fs \<Rightarrow> unit result \<times> 'p fs" where
  "convert_las_to_copc_streaming env compress lib now class_u8 to_u8 las_open read_evlrs las_path copc_path
     max_points_per_node c fs =
     convert_las_to_copc_streaming_inner env compress lib now class_u8 to_u8 las_open read_evlrs las_path copc_path
       max_points_per_node c None fs"

definition convert_las_to_copc_streaming_with_crs_wkt_override ::
  "'p fs_env \<Rightarrow> 'v compress_fn \<Rightarrow> ('v, 'z) laz_lib \<Rightarrow> u64 option \<Rightarrow> ('c \<Rightarrow> u8) \<Rightarrow> (las_format \<Rightarrow> u8 option) \<Rightarrow>
    (u8 list \<Rightarrow> string + 'c las_reader) \<Rightarrow> (u8 list \<Rightarrow> las_vlr list result) \<Rightarrow> 'p \<Rightarrow> 'p \<Rightarrow> u32 \<Rightarrow> cancel \<Rightarrow> u8 list option \<Rightarrow>
    'p fs \<Rightarrow> unit result \<times> 'p fs" where
  "convert_las_to_copc_streaming_with_crs_wkt_override env compress lib now class_u8 to_u8 las_open read_evlrs
     las_path copc_path max_points_per_node c crs_wkt_override fs =
     convert_las_to_copc_streaming_inner env compress lib now class_u8 to_u8 las_open read_evlrs las_path copc_path
       max_points_per_node c crs_wkt_override fs"

section \<open>A failed write leaves the destination alone\<close>

text \<open>A temporary name that is free, and not the destination.\<close>

definition fresh_tempfile :: "'p fs_env \<Rightarrow> 'p \<Rightarrow> 'p fs \<Rightarrow> bool" where
  "fresh_tempfile env path fs \<longleftrightarrow>
     (case fe_tempfile env path fs of None \<Rightarrow> True | Some tmp \<Rightarrow> fs tmp = None \<and> tmp \<noteq> path)"

lemma write_copc_inner_outcomes:
  assumes "fresh_tempfile env path fs"
    and "write_copc_inner env compress lib path src has_color b n c polls metadata stats fs = (r, fs')"
  shows "is_ok r \<and> (\<exists>plan bytes. write_prepare lib src has_color b n c polls metadata stats = Ok plan \<and>
          write_body compress plan src c metadata = Ok bytes \<and> fs' = fs(path \<mapsto> bytes)) \<or>
    \<not> is_ok r \<and> fs' = fs \<or>
    r = Err (Io ''sync COPC output directory'') \<and> \<not> fe_sync_dir_ok env \<and>
      (\<exists>plan bytes. write_prepare lib src has_color b n c polls metadata stats = Ok plan \<and>
          write_body compress plan src c metadata = Ok bytes \<and> fs' = fs(path \<mapsto> bytes))"
proof (cases "write_prepare lib src has_color b n c polls metadata stats")
  case (Inl e)
  then show ?thesis using assms(2) by (auto simp: write_copc_inner_def)
next
  case plan: (Inr plan)
  show ?thesis
  proof (cases "fe_has_file_name env path")
    case False
    then show ?thesis using assms(2) by (auto simp: write_copc_inner_def plan pending_create_def)
  next
    case True
    show ?thesis
    proof (cases "fe_tempfile env path fs")
      case None
      then show ?thesis using assms(2) True by (auto simp: write_copc_inner_def plan pending_create_def)
    next
      case (Some tmp)
      then have tmp: "fs tmp = None" "tmp \<noteq> path" using assms(1) by (simp_all add: fresh_tempfile_def)
      then have undo: "fs(tmp := None) = fs" by auto
      show ?thesis
      proof (cases "fe_reopen_ok env \<and> is_ok (write_body compress plan src c metadata) \<and> fe_flush_ok env \<and>
          fe_sync_ok env \<and> fe_persist_ok env")
        case False
        then show ?thesis using assms(2) True Some undo
          by (auto simp: write_copc_inner_def plan pending_create_def pending_reopen_def pending_drop_def
              pending_commit_def split: if_splits sum.splits)
      next
        case ok: True
        then obtain bytes where bytes: "write_body compress plan src c metadata = Ok bytes"
          by (auto simp: is_ok_iff)
        have "fs' = fs(path \<mapsto> bytes)" "r = sync_parent_directory env"
          using assms(2) True Some ok bytes tmp undo
          by (auto simp: write_copc_inner_def plan pending_create_def pending_reopen_def pending_commit_def)
        then show ?thesis using bytes plan by (auto simp: sync_parent_directory_def)
      qed
    qed
  qed
qed

text \<open>
  C32. No partial output: a write either succeeds with the complete file at the destination and nothing
  else changed, or fails and leaves the file system as it was. The one exception is a failure to sync
  the directory after the rename: then the complete file is in place although an error is returned.
\<close>

theorem write_is_atomic:
  assumes "fresh_tempfile env path fs"
  shows "case write_copc_inner env compress lib path src has_color b n c polls metadata stats fs of
    (r, fs') \<Rightarrow>
      (case bind_res (write_prepare lib src has_color b n c polls metadata stats) (\<lambda>plan.
              write_body compress plan src c metadata) of
         Inl _ \<Rightarrow> \<not> is_ok r \<and> fs' = fs
       | Inr bytes \<Rightarrow>
           if is_ok r then fs' = fs(path \<mapsto> bytes)
           else fs' = fs \<or> \<not> fe_sync_dir_ok env \<and> r = Err (Io ''sync COPC output directory'') \<and> fs' = fs(path \<mapsto> bytes))"
proof -
  obtain r fs' where w: "write_copc_inner env compress lib path src has_color b n c polls metadata stats fs = (r, fs')"
    by (cases "write_copc_inner env compress lib path src has_color b n c polls metadata stats fs")
  have w0: "bind_res (write_prepare lib src has_color b n c polls metadata stats) (\<lambda>plan.
      write_body compress plan src c metadata) = Ok bytes"
    if "write_prepare lib src has_color b n c polls metadata stats = Ok plan"
      "write_body compress plan src c metadata = Ok bytes" for plan bytes
    using that by simp
  show ?thesis
    using write_copc_inner_outcomes [OF assms w] w0 unfolding w prod.case
    by (elim disjE conjE exE) (auto simp del: bind_res_simps split: sum.split)
qed

definition sample_env :: "nat fs_env" where
  "sample_env = \<lparr>fe_has_file_name = (\<lambda>_. True), fe_tempfile = (\<lambda>_ _. Some 1), fe_reopen_ok = True,
     fe_flush_ok = True, fe_sync_ok = True, fe_persist_ok = True, fe_sync_dir_ok = True\<rparr>"

definition sample_fs :: "nat fs" where
  "sample_fs = [0 \<mapsto> [7]]"

text \<open>A library of which no function succeeds, and a write to a file that exists.\<close>

definition broken_lib :: "(unit, unit) laz_lib" where
  "broken_lib = \<lparr>ll_format_new = (\<lambda>_. Inl ''gone''), ll_format_len = (\<lambda>_. 0), ll_build = (\<lambda>_ _. Inl ''gone''),
     ll_vlr_write = (\<lambda>_. Inl ''gone''), ll_new = (\<lambda>_ _. Inl ''gone''), ll_compress_many = (\<lambda>_ _ _. Inl ''gone''),
     ll_finish_current_chunk = (\<lambda>_ _. Inl ''gone''), ll_done = (\<lambda>_ _. Inl ''gone''),
     ll_table_write = (\<lambda>_ _. Inl ''gone'')\<rparr>"

definition empty_source :: point_source where
  "empty_source = \<lparr>ps_len = 0, ps_xyz = (\<lambda>_. Err Cancelled), ps_fields = (\<lambda>_. Err Cancelled),
     ps_extra_byte_count = 0, ps_extra_bytes_vlrs = []\<rparr>"

theorem write_is_atomic_witness:
  "snd (write_copc_inner sample_env (compress_nodes broken_lib) broken_lib 0 empty_source True (bounds_point 0 0 0) 10
     never_cancel 0 out_metadata_default None sample_fs) = sample_fs"
proof -
  have f: "fresh_tempfile sample_env 0 sample_fs" by (simp add: fresh_tempfile_def sample_env_def sample_fs_def)
  have p: "write_prepare broken_lib empty_source True (bounds_point 0 0 0) 10 never_cancel 0 out_metadata_default None =
      Err (Las ''gone'')"
    by (simp add: write_prepare_def Let_def broken_lib_def las_err_def)
  have "case write_copc_inner sample_env (compress_nodes broken_lib) broken_lib 0 empty_source True (bounds_point 0 0 0) 10
     never_cancel 0 out_metadata_default None sample_fs of (r, fs') \<Rightarrow> \<not> is_ok r \<and> fs' = sample_fs"
    using write_is_atomic [OF f, where compress = "compress_nodes broken_lib" and lib = broken_lib and src = empty_source
        and has_color = True and b = "bounds_point 0 0 0" and n = 10 and c = never_cancel and polls = 0
        and metadata = out_metadata_default and stats = None] unfolding p bind_res_simps sum.case .
  then show ?thesis by (simp split: prod.splits)
qed

end
