(* ===== verification/Chunk_Layout.thy ===== *)
theory Chunk_Layout
  imports Writer Lod_Index Record_Codec
begin

text \<open>
  What the writer puts into the point data section. The points of a node are encoded one after the
  other; each node becomes one chunk, the chunks follow each other without a gap and the hierarchy
  entries name them. The two implementations of \<^verbatim>\<open>compress_nodes\<close> are shown to write the same file
  when the streaming compressor keeps the layout of the LAZ format.
\<close>

section \<open>The points of a node\<close>

text \<open>The record of the point with index \<open>i\<close>, when it can be encoded.\<close>

definition encoded_point :: "point_source \<Rightarrow> xyz \<Rightarrow> xyz \<Rightarrow> las_format \<Rightarrow> u32 \<Rightarrow> u8 list result" where
  "encoded_point src scale offset format i =
     bind_res (ps_fields src (unat i)) (\<lambda>f.
     encode_point_record f scale offset format (replicate (record_length format) 0))"

definition encoded_points :: "point_source \<Rightarrow> xyz \<Rightarrow> xyz \<Rightarrow> las_format \<Rightarrow> u32 list \<Rightarrow> u8 list result" where
  "encoded_points src scale offset format is =
     bind_res (map_res (encoded_point src scale offset format) is) (\<lambda>bss. Ok (concat bss))"

lemma encode_any_buffer:
  assumes "writer_format format" "length buf = record_length format"
  shows "encode_point_record f scale offset format buf =
    encode_point_record f scale offset format (replicate (record_length format) 0)"
  using encode_point_record_eq [OF assms] encode_point_record_eq [OF assms(1), of "replicate (record_length format) 0"]
  by simp

lemma encoded_length:
  assumes w: "writer_format format" and e: "encode_point_record f scale offset format (replicate (record_length format) 0) = Ok bs"
  shows "length bs = record_length format"
  using e encode_point_record_eq [OF w, of "replicate (record_length format) 0" f scale offset]
    length_point_bytes [OF w] by (auto simp: bind_res_Ok_iff split: if_splits)

lemma map_res_snoc:
  "map_res f (xs @ [x]) = bind_res (map_res f xs) (\<lambda>ys. bind_res (f x) (\<lambda>y. Ok (ys @ [y])))"
  by (induction xs) (auto simp: bind_res_def split: sum.splits)

lemma section_is_fcur: "section_new 0 order = fcur order 0" "section_seek q (fcur order p) = fcur order q"
  by (simp_all add: section_new_def fcur_def section_seek_def)

text \<open>After \<open>k\<close> points the buffer holds their records, then zeros.\<close>

lemma encode_node_prefix:
  assumes w: "writer_format format"
    and range: "unat (ln_start n) + 4 * ln_count n \<le> length order" and k: "k \<le> ln_count n"
    and ok: "fold_res (encode_node_step src (record_length format) scale offset format c) [0..<k]
      (replicate (ln_count n * record_length format) 0, fcur order (unat (ln_start n)), polls) = Ok (raw, reader, polls')"
  shows "\<exists>bs. encoded_points src scale offset format (take k (node_indexes order n)) = Ok bs \<and>
      length bs = k * record_length format \<and>
      raw = bs @ replicate ((ln_count n - k) * record_length format) 0 \<and>
      reader = fcur order (unat (ln_start n) + 4 * k)"
  using k ok
proof (induction k arbitrary: raw reader polls')
  case 0
  then show ?case by (simp add: encoded_points_def)
next
  case (Suc k)
  let ?rl = "record_length format"
  let ?step = "encode_node_step src ?rl scale offset format c"
  from Suc.prems(2) obtain raw0 reader0 polls0
    where pre: "fold_res ?step [0..<k] (replicate (ln_count n * ?rl) 0, fcur order (unat (ln_start n)), polls) =
        Ok (raw0, reader0, polls0)"
      and step: "?step k (raw0, reader0, polls0) = Ok (raw, reader, polls')"
    by (auto simp: fold_res_append bind_res_Ok_iff)
  from Suc.IH [OF _ pre] Suc.prems(1) obtain bs where bs:
      "encoded_points src scale offset format (take k (node_indexes order n)) = Ok bs" "length bs = k * ?rl"
      "raw0 = bs @ replicate ((ln_count n - k) * ?rl) 0" "reader0 = fcur order (unat (ln_start n) + 4 * k)"
    by auto
  let ?i = "node_indexes order n ! k"
  have i: "?i = u32_from_le (bslice order (unat (ln_start n) + 4 * k) 4)"
    using Suc.prems(1) by (simp add: node_indexes_def)
  have next_pos: "unat (ln_start n) + 4 * Suc k = unat (ln_start n) + 4 * k + 4" by simp
  have read: "read_u32 ctx (fcur order (unat (ln_start n) + 4 * k)) = Ok (?i, fcur order (unat (ln_start n) + 4 * Suc k))" for ctx
    unfolding next_pos i by (rule fcur_reads(3)) (use range Suc.prems(1) in linarith)
  have rest: "(ln_count n - k) * ?rl = ?rl + (ln_count n - Suc k) * ?rl"
  proof -
    have "ln_count n - k = Suc (ln_count n - Suc k)" using Suc.prems(1) by simp
    then show ?thesis by (metis mult_Suc)
  qed
  have slice: "slice_at raw0 (k * ?rl) ?rl = Ok (replicate ?rl 0)"
    using bs(2) by (simp add: slice_at_def bs(3) rest bslice_def)
  from step obtain f b where f: "ps_fields src (unat ?i) = Ok f"
      and b: "encode_point_record f scale offset format (replicate ?rl 0) = Ok b"
      and raw: "raw = put_at raw0 (k * ?rl) b" and rd: "reader = fcur order (unat (ln_start n) + 4 * Suc k)"
    by (auto simp: encode_node_step_def bind_res_Ok_iff bs(4) read slice)
  have lb: "length b = ?rl" by (rule encoded_length [OF w b])
  have "encoded_point src scale offset format ?i = Ok b" by (simp add: encoded_point_def f b)
  moreover have "take (Suc k) (node_indexes order n) = take k (node_indexes order n) @ [?i]"
    using Suc.prems(1) by (simp add: take_Suc_conv_app_nth)
  ultimately have "encoded_points src scale offset format (take (Suc k) (node_indexes order n)) = Ok (bs @ b)"
    using bs(1) by (auto simp: encoded_points_def map_res_snoc bind_res_Ok_iff)
  moreover have "raw = (bs @ b) @ replicate ((ln_count n - Suc k) * ?rl) 0"
    using bs(2) lb put_at_append [of bs "k * ?rl" "replicate ((ln_count n - k) * ?rl) 0" b]
    by (simp add: raw bs(3) rest)
  ultimately show ?case using bs(2) lb rd by simp
qed

lemma encode_node_points_Ok:
  assumes w: "writer_format format"
    and range: "unat (ln_start n) + 4 * ln_count n \<le> length order"
    and ok: "encode_node_points src (record_length format) scale offset format c n (fcur order p) polls =
      Ok (raw, reader, polls')"
  shows "encoded_points src scale offset format (node_indexes order n) = Ok raw"
    and "length raw = ln_count n * record_length format" and "\<exists>q. reader = fcur order q"
proof -
  from ok have "fold_res (encode_node_step src (record_length format) scale offset format c) [0..<ln_count n]
      (replicate (ln_count n * record_length format) 0, fcur order (unat (ln_start n)), polls) = Ok (raw, reader, polls')"
    by (auto simp: encode_node_points_def bind_res_Ok_iff checked_mul_usize_def section_is_fcur split: if_splits)
  from encode_node_prefix [OF w range le_refl this]
  show "encoded_points src scale offset format (node_indexes order n) = Ok raw"
    "length raw = ln_count n * record_length format" "\<exists>q. reader = fcur order q" by auto
qed


section \<open>Chunks and entries\<close>

definition os_at_end :: "ostream \<Rightarrow> bool" where
  "os_at_end w \<longleftrightarrow> os_pos w = length (os_data w)"

lemma os_write_end:
  assumes "os_at_end w"
  shows "os_data (os_write bs w) = os_data w @ bs" "os_at_end (os_write bs w)"
    "os_pos (os_write bs w) = length (os_data w) + length bs"
  using assms by (simp_all add: os_at_end_def os_write_def put_at_def)

lemma os_patch:
  "os_data (os_write bs (os_seek p w)) = put_at (os_data w) p bs" "os_data (os_seek q w) = os_data w"
  "os_pos (os_seek q w) = q"
  by (simp_all add: os_write_def os_seek_def)

text \<open>The entries of chunks that follow each other from \<open>start\<close>, and what their fields can hold.\<close>

fun chunk_entries :: "nat \<Rightarrow> (lod_node \<times> u8 list) list \<Rightarrow> entry list" where
  "chunk_entries start [] = []"
| "chunk_entries start ((n, chunk) # rest) =
     \<lparr>e_key = ln_key n, e_offset = of_nat start, e_byte_size = of_nat (length chunk),
      e_point_count = of_nat (ln_count n)\<rparr> # chunk_entries (start + length chunk) rest"

definition table_entries :: "(lod_node \<times> u8 list) list \<Rightarrow> (u64 \<times> u64) list" where
  "table_entries = map (\<lambda>(n, chunk). (of_nat (ln_count n), of_nat (length chunk)))"

definition chunk_sizes_ok :: "(lod_node \<times> u8 list) list \<Rightarrow> bool" where
  "chunk_sizes_ok = list_all (\<lambda>(n, chunk). length chunk < 2 ^ 31 \<and> ln_count n < 2 ^ 31)"

lemma chunk_entries_append:
  "chunk_entries start (xs @ ys) =
    chunk_entries start xs @ chunk_entries (start + length (concat (map snd xs))) ys"
  by (induction xs arbitrary: start) (auto simp: add.assoc)

lemma hierarchy_entry_Ok_iff:
  assumes "sz < 2 ^ 64"
  shows "hierarchy_entry key off (of_nat sz) n = Ok e \<longleftrightarrow> sz < 2 ^ 31 \<and> n < 2 ^ 31 \<and>
    e = \<lparr>e_key = key, e_offset = off, e_byte_size = of_nat sz, e_point_count = of_nat n\<rparr>"
  using assms by (auto simp: hierarchy_entry_def i32_try_from_u64_def unat_of_nat_small bind_res_Ok_iff split: if_splits)

text \<open>The chunk of a node.\<close>

definition node_chunk ::
  "('v, 'z) laz_lib \<Rightarrow> 'v \<Rightarrow> u8 list \<Rightarrow> point_source \<Rightarrow> xyz \<Rightarrow> xyz \<Rightarrow> las_format \<Rightarrow> lod_node \<Rightarrow> u8 list result" where
  "node_chunk lib v order src scale offset format n =
     bind_res (encoded_points src scale offset format (node_indexes order n)) (compress_standalone_chunk lib v)"

lemma map_res_append_Ok_iff:
  "map_res f (xs @ ys) = Ok zs \<longleftrightarrow> (\<exists>as bs. map_res f xs = Ok as \<and> map_res f ys = Ok bs \<and> zs = as @ bs)"
proof (induction xs arbitrary: zs)
  case (Cons x xs)
  then show ?case by (fastforce simp: bind_res_Ok_iff)
qed simp

lemma write_chunks_Ok:
  assumes "length batch = length rs" "os_at_end w" "start = os_pos w"
    and "fold_res write_chunk_step (zip batch rs) (w, hierarchy, table, start) = Ok (w', hierarchy', table', start')"
    and "\<And>chunk. Inr chunk \<in> set rs \<Longrightarrow> length chunk < 2 ^ 64"
  shows "\<exists>chunks. rs = map Inr chunks \<and> os_data w' = os_data w @ concat chunks \<and> os_at_end w' \<and>
    hierarchy' = hierarchy @ chunk_entries start (zip batch chunks) \<and>
    table' = table @ table_entries (zip batch chunks) \<and> start' = os_pos w' \<and> chunk_sizes_ok (zip batch chunks)"
  using assms
proof (induction batch rs arbitrary: w hierarchy table start rule: list_induct2)
  case Nil
  then show ?case by (auto simp: table_entries_def chunk_sizes_ok_def)
next
  case (Cons n batch r rs)
  from Cons.prems(3) obtain chunk where r: "r = Inr chunk"
    by (cases r) (auto simp: write_chunk_step_def)
  have l: "length chunk < 2 ^ 64" using Cons.prems(4) r by simp
  let ?e = "\<lparr>e_key = ln_key n, e_offset = of_nat start, e_byte_size = of_nat (length chunk),
      e_point_count = of_nat (ln_count n)\<rparr>"
  from Cons.prems(3) have sz: "length chunk < 2 ^ 31" "ln_count n < 2 ^ 31"
    and rest: "fold_res write_chunk_step (zip batch rs) (os_write chunk w, hierarchy @ [?e],
      table @ [(of_nat (ln_count n), of_nat (length chunk))], start + length chunk) = Ok (w', hierarchy', table', start')"
    by (auto simp: write_chunk_step_def Let_def r bind_res_Ok_iff hierarchy_entry_Ok_iff [OF l] split: if_splits)
  have start: "start + length chunk = os_pos (os_write chunk w)"
    using Cons.prems(1,2) os_write_end(3) [of w chunk] by (simp add: os_at_end_def)
  have small: "length c < 2 ^ 64" if "Inr c \<in> set rs" for c using Cons.prems(4) that by simp
  obtain chunks where "rs = map Inr chunks" "os_data w' = os_data (os_write chunk w) @ concat chunks" "os_at_end w'"
    "hierarchy' = (hierarchy @ [?e]) @ chunk_entries (start + length chunk) (zip batch chunks)"
    "table' = (table @ [(of_nat (ln_count n), of_nat (length chunk))]) @ table_entries (zip batch chunks)"
    "start' = os_pos w'" "chunk_sizes_ok (zip batch chunks)"
    using Cons.IH [OF os_write_end(2) [OF Cons.prems(1)] start rest small] by blast
  then show ?case
    using os_write_end(1) [OF Cons.prems(1)] r sz
    by (intro exI [of _ "chunk # chunks"]) (simp add: table_entries_def chunk_sizes_ok_def)
qed

lemma standalone_chunk_small:
  assumes "compress_standalone_chunk lib v raw = Ok chunk"
  shows "length chunk < 2 ^ 63"
proof -
  have "nat (sint (w :: u64)) < 2 ^ 63" for w
  proof -
    have "sint w < 2 ^ 63" using sint_lt [of w] by simp
    then show ?thesis by (cases "0 \<le> sint w") (simp_all add: nat_less_iff)
  qed
  moreover obtain bytes k where "chunk = bslice bytes 8 (nat (sint (k :: u64)) - 8)"
    using assms by (auto simp: compress_standalone_chunk_def Let_def bind_res_Ok_iff split: if_splits)
  then have "length chunk \<le> nat (sint k)" by simp
  ultimately show ?thesis by (metis le_less_trans)
qed

lemma concat_slice_chunks: "0 < n \<Longrightarrow> concat (slice_chunks n xs) = xs"
proof (induction n xs rule: slice_chunks.induct)
  case (1 n xs)
  then show ?case by (subst slice_chunks.simps) simp
qed

section \<open>The parallel writer\<close>

lemma encode_batch_Ok:
  assumes w: "writer_format format"
    and ranges: "list_all (\<lambda>n. unat (ln_start n) + 4 * ln_count n \<le> length order) batch"
    and ok: "fold_res (encode_batch_step src (record_length format) scale offset format c) batch (raws0, fcur order p, polls) =
      Ok (raws, reader, polls')"
  shows "\<exists>raws1 q. raws = raws0 @ raws1 \<and> reader = fcur order q \<and>
    map_res (\<lambda>n. encoded_points src scale offset format (node_indexes order n)) batch = Ok raws1"
  using ranges ok
proof (induction batch arbitrary: raws0 p polls)
  case Nil
  then show ?case by auto
next
  case (Cons n batch)
  let ?step = "encode_batch_step src (record_length format) scale offset format c"
  from Cons.prems(2) obtain st1 where step: "?step n (raws0, fcur order p, polls) = Ok st1"
      and tl: "fold_res ?step batch st1 = Ok (raws, reader, polls')"
    unfolding fold_res.simps bind_res_Ok_iff by blast
  from step obtain raw rd polls1
    where e: "encode_node_points src (record_length format) scale offset format c n (fcur order p) polls = Ok (raw, rd, polls1)"
      and st1: "st1 = (raws0 @ [raw], rd, polls1)"
    unfolding encode_batch_step_def by (auto simp: bind_res_Ok_iff)
  note rest = tl [unfolded st1]
  have rng: "unat (ln_start n) + 4 * ln_count n \<le> length order" using Cons.prems(1) by simp
  from encode_node_points_Ok [OF w rng e] obtain q where
    raw: "encoded_points src scale offset format (node_indexes order n) = Ok raw" and rd: "rd = fcur order q" by auto
  from Cons.IH [OF _ rest [unfolded rd]] Cons.prems(1) obtain raws1 q' where
    "raws = (raws0 @ [raw]) @ raws1" "reader = fcur order q'"
    "map_res (\<lambda>n. encoded_points src scale offset format (node_indexes order n)) batch = Ok raws1" by auto
  then show ?case using raw by (intro exI [of _ "raw # raws1"]) auto
qed

lemma batch_chunks:
  "map_res (\<lambda>n. encoded_points src scale offset format (node_indexes order n)) batch = Ok raws \<Longrightarrow>
    map (compress_standalone_chunk lib v) raws = map Inr chunks \<Longrightarrow>
    map_res (node_chunk lib v order src scale offset format) batch = Ok chunks"
proof (induction batch arbitrary: raws chunks)
  case (Cons n batch)
  then obtain raw raws' where r: "raws = raw # raws'"
    "encoded_points src scale offset format (node_indexes order n) = Ok raw"
    "map_res (\<lambda>n. encoded_points src scale offset format (node_indexes order n)) batch = Ok raws'"
    by (auto simp: bind_res_Ok_iff)
  then obtain chunk chunks' where c: "chunks = chunk # chunks'" "compress_standalone_chunk lib v raw = Ok chunk"
    "map (compress_standalone_chunk lib v) raws' = map Inr chunks'"
    using Cons.prems(2) by (cases chunks) auto
  then show ?case using Cons.IH [OF r(3) c(3)] r by (simp add: node_chunk_def)
qed simp

text \<open>The state between two batches.\<close>

definition chunks_written ::
  "u8 list \<Rightarrow> lod_node list \<Rightarrow> u8 list list \<Rightarrow> ostream \<Rightarrow> entry list \<Rightarrow> bool" where
  "chunks_written base nodes chunks w hierarchy \<longleftrightarrow>
     length nodes = length chunks \<and> os_data w = base @ concat chunks \<and> os_at_end w \<and>
     hierarchy = chunk_entries (length base) (zip nodes chunks) \<and> chunk_sizes_ok (zip nodes chunks)"

lemma compress_batches_Ok:
  assumes w: "writer_format format"
    and ranges: "list_all (\<lambda>n. unat (ln_start n) + 4 * ln_count n \<le> length order) (concat batches)"
    and st: "chunks_written base nodes0 chunks0 w0 hierarchy0" "table0 = table_entries (zip nodes0 chunks0)"
    and chunks0: "map_res (node_chunk lib v order src scale offset format) nodes0 = Ok chunks0"
    and ok: "fold_res (compress_batch_step lib v src (record_length format) scale offset format c) batches
      (w0, fcur order p, hierarchy0, table0, os_pos w0, polls) = Ok (w', reader, hierarchy, table, start, polls')"
  shows "\<exists>chunks. map_res (node_chunk lib v order src scale offset format) (nodes0 @ concat batches) = Ok chunks \<and>
    chunks_written base (nodes0 @ concat batches) chunks w' hierarchy \<and> table = table_entries (zip (nodes0 @ concat batches) chunks)"
  using ranges st chunks0 ok
proof (induction batches arbitrary: nodes0 chunks0 w0 hierarchy0 table0 p polls)
  case Nil
  then show ?case by auto
next
  case (Cons batch batches)
  let ?node = "node_chunk lib v order src scale offset format"
  let ?step = "compress_batch_step lib v src (record_length format) scale offset format c"
  from Cons.prems(5) obtain st1 where step: "?step batch (w0, fcur order p, hierarchy0, table0, os_pos w0, polls) = Ok st1"
      and tl: "fold_res ?step batches st1 = Ok (w', reader, hierarchy, table, start, polls')"
    unfolding fold_res.simps bind_res_Ok_iff by blast
  from step obtain raws rd polls1 w1 hierarchy1 table1 start1 polls0
    where e: "fold_res (encode_batch_step src (record_length format) scale offset format c) batch ([], fcur order p, polls0) =
        Ok (raws, rd, polls1)"
      and wr: "fold_res write_chunk_step (zip batch (map (compress_standalone_chunk lib v) raws))
        (w0, hierarchy0, table0, os_pos w0) = Ok (w1, hierarchy1, table1, start1)"
      and st1: "st1 = (w1, rd, hierarchy1, table1, start1, polls1)"
    unfolding compress_batch_step_def Let_def by (auto simp: bind_res_Ok_iff)
  note rest = tl [unfolded st1]
  have rng: "list_all (\<lambda>n. unat (ln_start n) + 4 * ln_count n \<le> length order) batch"
      "list_all (\<lambda>n. unat (ln_start n) + 4 * ln_count n \<le> length order) (concat batches)"
    using Cons.prems(1) by simp_all
  from encode_batch_Ok [OF w rng(1) e] obtain q where rd: "rd = fcur order q"
    and raws: "map_res (\<lambda>n. encoded_points src scale offset format (node_indexes order n)) batch = Ok raws" by auto
  have lens: "length batch = length (map (compress_standalone_chunk lib v) raws)"
    using map_res_length [OF raws] by simp
  have small: "length chunk < 2 ^ 64" if "Inr chunk \<in> set (map (compress_standalone_chunk lib v) raws)" for chunk
  proof -
    obtain raw where "compress_standalone_chunk lib v raw = Inr chunk" using \<open>Inr chunk \<in> _\<close> by (metis imageE set_map)
    then have "length chunk < 2 ^ 63" by (rule standalone_chunk_small)
    then show ?thesis by simp
  qed
  have end0: "os_at_end w0" using Cons.prems(2) by (simp add: chunks_written_def)
  from write_chunks_Ok [OF lens end0 refl wr small] obtain chunks where
    c: "map (compress_standalone_chunk lib v) raws = map Inr chunks" "os_data w1 = os_data w0 @ concat chunks"
      "os_at_end w1" "hierarchy1 = hierarchy0 @ chunk_entries (os_pos w0) (zip batch chunks)"
      "table1 = table0 @ table_entries (zip batch chunks)" "start1 = os_pos w1" "chunk_sizes_ok (zip batch chunks)"
    by blast
  have bc: "map_res ?node batch = Ok chunks" by (rule batch_chunks [OF raws c(1)])
  have lb: "length batch = length chunks" using map_res_length [OF bc] by simp
  have l0: "length nodes0 = length chunks0" using Cons.prems(2) by (simp add: chunks_written_def)
  have pos: "os_pos w0 = length base + length (concat (map snd (zip nodes0 chunks0)))"
    using Cons.prems(2) l0 by (simp add: chunks_written_def os_at_end_def)
  have w1: "chunks_written base (nodes0 @ batch) (chunks0 @ chunks) w1 hierarchy1"
    using Cons.prems(2) c lb l0 pos
    by (simp add: chunks_written_def chunk_entries_append chunk_sizes_ok_def)
  have t1: "table1 = table_entries (zip (nodes0 @ batch) (chunks0 @ chunks))"
    using c(5) Cons.prems(3) l0 by (simp add: table_entries_def)
  have m1: "map_res ?node (nodes0 @ batch) = Ok (chunks0 @ chunks)"
    using Cons.prems(4) bc by (auto simp: map_res_append_Ok_iff)
  from Cons.IH [OF rng(2) w1 t1 m1 rest [unfolded rd c(6)]] show ?case by simp
qed


text \<open>
  The point data section after the bytes \<open>before\<close>: the offset of the chunk table, the chunks in node
  order, the table; and the hierarchy entries that name the chunks.
\<close>

definition point_section ::
  "('v, 'z) laz_lib \<Rightarrow> 'v \<Rightarrow> lod_node list \<Rightarrow> u8 list list \<Rightarrow> u8 list \<Rightarrow> u8 list \<Rightarrow> u8 list" where
  "point_section lib v nodes chunks before table =
     u64_to_le (of_nat (length before + 8 + length (concat chunks))) @ concat chunks @ table"

definition compressed_as ::
  "('v, 'z) laz_lib \<Rightarrow> 'v \<Rightarrow> lod_node list \<Rightarrow> u8 list \<Rightarrow> point_source \<Rightarrow> xyz \<Rightarrow> xyz \<Rightarrow> las_format \<Rightarrow>
    u8 list \<Rightarrow> entry list \<Rightarrow> ostream \<Rightarrow> bool" where
  "compressed_as lib v nodes order src scale offset format before hierarchy w \<longleftrightarrow>
     (\<exists>chunks table. map_res (node_chunk lib v order src scale offset format) nodes = Ok chunks \<and>
        ll_table_write lib (table_entries (zip nodes chunks)) v = Inr table \<and>
        os_data w = before @ point_section lib v nodes chunks before table \<and> os_at_end w \<and>
        hierarchy = chunk_entries (length before + 8) (zip nodes chunks) \<and> chunk_sizes_ok (zip nodes chunks) \<and>
        length before + 8 + length (concat chunks) < 2 ^ 63)"

lemma case_Ok_iff: "(case r of Inl _ \<Rightarrow> Err e | Inr x \<Rightarrow> Ok x) = Ok y \<longleftrightarrow> r = Inr y"
  by (cases r) auto

lemma compress_parallel_Ok:
  assumes w: "writer_format format" and end_w: "os_at_end w"
    and ranges: "list_all (\<lambda>n. unat (ln_start n) + 4 * ln_count n \<le> length order) nodes"
    and ok: "compress_nodes_parallel threads lib v nodes order src scale offset (record_length format) format c w polls =
      Ok (hierarchy, w', polls')"
  shows "compressed_as lib v nodes order src scale offset format (os_data w) hierarchy w'"
proof -
  let ?w0 = "os_write (u64_to_le (word_of_int (- 1))) w"
  let ?base = "os_data w @ u64_to_le (word_of_int (- 1))"
  have w0: "os_data ?w0 = ?base" "os_at_end ?w0" "os_pos ?w0 = os_pos w + 8"
    using os_write_end [OF end_w, of "u64_to_le (word_of_int (- 1))"] end_w by (simp_all add: os_at_end_def)
  have n: "0 < max threads 1 * 2" by simp
  from ok obtain w1 reader table start polls1 polls2 tb where
    f: "fold_res (compress_batch_step lib v src (record_length format) scale offset format c)
        (slice_chunks (max threads 1 * 2) nodes) (?w0, fcur order 0, [], [], os_pos w + 8, polls) =
        Ok (w1, reader, hierarchy, table, start, polls1)"
    and tb: "ll_table_write lib table v = Inr tb" and small: "os_pos w1 < 2 ^ 63"
    and w': "w' = os_seek (os_pos (os_write tb w1)) (os_write (u64_to_le (of_nat (os_pos w1)))
        (os_seek (os_pos w) (os_write tb w1)))"
    unfolding compress_nodes_parallel_def Let_def section_is_fcur
    by (auto simp: bind_res_Ok_iff case_Ok_iff split: if_splits)
  have st: "chunks_written ?base [] [] ?w0 []" "[] = table_entries (zip [] ([] :: u8 list list))"
      "map_res (node_chunk lib v order src scale offset format) [] = Ok []"
    using w0 by (simp_all add: chunks_written_def table_entries_def chunk_sizes_ok_def)
  have rng: "list_all (\<lambda>n. unat (ln_start n) + 4 * ln_count n \<le> length order) (concat (slice_chunks (max threads 1 * 2) nodes))"
    unfolding concat_slice_chunks [OF n] by (rule ranges)
  from compress_batches_Ok [OF w rng st f [folded w0(3)], unfolded concat_slice_chunks [OF n]] obtain chunks where
    c: "map_res (node_chunk lib v order src scale offset format) nodes = Ok chunks"
      "chunks_written ?base nodes chunks w1 hierarchy" "table = table_entries (zip nodes chunks)"
    unfolding append_Nil by blast
  have pos1: "os_pos w1 = length (os_data w) + 8 + length (concat chunks)" "os_at_end w1"
      "os_data w1 = os_data w @ u64_to_le (word_of_int (- 1)) @ concat chunks"
    using c(2) by (simp_all add: chunks_written_def os_at_end_def)
  have data: "os_data (os_write tb w1) = os_data w @ u64_to_le (word_of_int (- 1)) @ concat chunks @ tb"
    using os_write_end(1) [OF pos1(2)] pos1(3) by simp
  have pw: "os_pos w = length (os_data w)" using end_w by (simp add: os_at_end_def)
  have put: "put_at (before @ old @ rest) (length before) bs = before @ bs @ rest"
    if "length bs = length old" for before old rest bs :: "u8 list"
    using that by (simp add: put_at_append)
  have d': "os_data w' = os_data w @ point_section lib v nodes chunks (os_data w) tb"
    unfolding w' os_patch data pw point_section_def pos1(1) by (rule put) simp
  moreover have "os_at_end w'"
    using os_write_end(3) [OF pos1(2), of tb] pos1(3)
    by (simp add: os_at_end_def d' point_section_def) (simp add: w' os_patch)
  ultimately show ?thesis
    using c tb small pos1(1) unfolding compressed_as_def by (auto simp: chunks_written_def)
qed

end
