(* ===== verification/Stream_Chunks.thy ===== *)
theory Stream_Chunks
  imports Chunk_Layout
begin

text \<open>
  The streaming \<^verbatim>\<open>compress_nodes\<close> of \<^verbatim>\<open>copc-writer/src/writer.rs\<close> against the parallel one: what the LAZ format
  promises of a streaming compressor, the run of the writer over one, and the equality of the files.
\<close>

section \<open>The streaming writer\<close>

text \<open>
  What the LAZ format promises of a streaming compressor for records of \<open>rl\<close> bytes: after the bytes
  \<open>base\<close> it reserves the offset of the chunk table, a chunk is the bytes \<open>chunk raw\<close> whatever comes
  before it, and closing writes the table of \<^verbatim>\<open>ChunkTable::write_to\<close> and its offset. The state \<open>streaming\<close>
  of a compressor that has finished the chunks of \<open>raws\<close> is the library's own.
\<close>

definition raw_ok :: "nat \<Rightarrow> u8 list \<Rightarrow> bool" where
  "raw_ok rl raw \<longleftrightarrow> raw \<noteq> [] \<and> rl dvd length raw \<and> length raw < 2 ^ 49"

definition node_in_order :: "u8 list \<Rightarrow> lod_node \<Rightarrow> bool" where
  "node_in_order order n \<longleftrightarrow>
     0 < ln_count n \<and> ln_count n < 2 ^ 32 \<and> unat (ln_start n) + 4 * ln_count n \<le> length order"

lemma node_raw_ok:
  assumes "node_in_order order n" "length raw = ln_count n * record_length format"
  shows "raw_ok (record_length format) raw"
proof -
  have "record_length format < 2 ^ 17" using unat_bound [of "lf_extra_bytes format"] by (simp add: record_length_def)
  moreover have "0 < record_length format" by (simp add: record_length_def)
  ultimately have "ln_count n * record_length format < 2 ^ 32 * 2 ^ 17" "0 < ln_count n * record_length format"
    using assms(1) mult_strict_mono [of "ln_count n" "2 ^ 32" "record_length format" "2 ^ 17"]
    by (simp_all add: node_in_order_def)
  then show ?thesis using assms(2) by (auto simp: raw_ok_def)
qed

definition laz_stream_laws ::
  "('v, 'z) laz_lib \<Rightarrow> 'v \<Rightarrow> nat \<Rightarrow> (u8 list \<Rightarrow> u8 list) \<Rightarrow>
    (u8 list \<Rightarrow> u8 list list \<Rightarrow> 'z \<Rightarrow> ostream \<Rightarrow> bool) \<Rightarrow> bool" where
  "laz_stream_laws lib v rl chunk streaming \<longleftrightarrow>
     (\<forall>w. os_at_end w \<longrightarrow> (\<exists>z. ll_new lib v w = Inr (z, w) \<and> streaming (os_data w) [] z w)) \<and>
     (\<forall>base raws z w raw. streaming base raws z w \<longrightarrow> raw_ok rl raw \<longrightarrow>
        (\<exists>z1 w1 z2 w2. ll_compress_many lib raw z w = Inr (z1, w1) \<and>
           ll_finish_current_chunk lib z1 w1 = Inr (z2, w2) \<and> streaming base (raws @ [raw]) z2 w2 \<and>
           os_pos w2 = length base + 8 + length (concat (map chunk (raws @ [raw]))))) \<and>
     (\<forall>base raws z w. streaming base raws z w \<longrightarrow> raws \<noteq> [] \<longrightarrow>
        (\<exists>z' table. ll_table_write lib (map (\<lambda>raw. (of_nat (length raw div rl), of_nat (length (chunk raw)))) raws) v =
             Inr table \<and>
           (let data = base @ u64_to_le (of_nat (length base + 8 + length (concat (map chunk raws)))) @
              concat (map chunk raws) @ table
            in ll_done lib z w = Inr (z', \<lparr>os_data = data, os_pos = length data\<rparr>)))) \<and>
     (\<forall>raw. raw_ok rl raw \<longrightarrow>
        (\<exists>z w z1 w1 z2 w2 rest. ll_new lib v os_new = Inr (z, w) \<and> ll_compress_many lib raw z w = Inr (z1, w1) \<and>
           ll_done lib z1 w1 = Inr (z2, w2) \<and>
           os_data w2 = u64_to_le (of_nat (8 + length (chunk raw))) @ chunk raw @ rest \<and> 8 + length (chunk raw) < 2 ^ 63))"

lemma stream_law_new:
  assumes "laz_stream_laws lib v rl chunk streaming" "os_at_end w"
  obtains z where "ll_new lib v w = Inr (z, w)" "streaming (os_data w) [] z w"
  using assms unfolding laz_stream_laws_def by blast

lemma stream_law_chunk:
  assumes "laz_stream_laws lib v rl chunk streaming" "streaming base raws z w" "raw_ok rl raw"
  obtains z1 w1 z2 w2 where "ll_compress_many lib raw z w = Inr (z1, w1)"
    "ll_finish_current_chunk lib z1 w1 = Inr (z2, w2)" "streaming base (raws @ [raw]) z2 w2"
    "os_pos w2 = length base + 8 + length (concat (map chunk (raws @ [raw])))"
  using assms unfolding laz_stream_laws_def by blast

lemma stream_law_done:
  assumes "laz_stream_laws lib v rl chunk streaming" "streaming base raws z w" "raws \<noteq> []"
  obtains z' table where
    "ll_table_write lib (map (\<lambda>raw. (of_nat (length raw div rl), of_nat (length (chunk raw)))) raws) v = Inr table"
    "let data = base @ u64_to_le (of_nat (length base + 8 + length (concat (map chunk raws)))) @
        concat (map chunk raws) @ table
     in ll_done lib z w = Inr (z', \<lparr>os_data = data, os_pos = length data\<rparr>)"
  using assms unfolding laz_stream_laws_def by blast

lemma stream_law_standalone:
  assumes "laz_stream_laws lib v rl chunk streaming" "raw_ok rl raw"
  obtains z w z1 w1 z2 w2 rest where "ll_new lib v os_new = Inr (z, w)" "ll_compress_many lib raw z w = Inr (z1, w1)"
    "ll_done lib z1 w1 = Inr (z2, w2)"
    "os_data w2 = u64_to_le (of_nat (8 + length (chunk raw))) @ chunk raw @ rest" "8 + length (chunk raw) < 2 ^ 63"
  using assms unfolding laz_stream_laws_def by blast

lemma sint_u64_of_small_nat:
  assumes "n < 2 ^ 63"
  shows "sint (of_nat n :: u64) = int n"
  using assms signed_take_bit_int_eq_self [of 63 "int n"] by (simp add: signed_of_nat)

lemma las_err_Ok_iff: "las_err r = Ok x \<longleftrightarrow> r = Inr x"
  by (cases r) (simp_all add: las_err_def)

lemma standalone_chunk_law:
  assumes "laz_stream_laws lib v rl chunk streaming" "raw_ok rl raw"
  shows "compress_standalone_chunk lib v raw = Ok (chunk raw)"
proof -
  from assms obtain z w z1 w1 z2 w2 rest where s: "ll_new lib v os_new = Inr (z, w)"
      "ll_compress_many lib raw z w = Inr (z1, w1)" "ll_done lib z1 w1 = Inr (z2, w2)"
      "os_data w2 = u64_to_le (of_nat (8 + length (chunk raw))) @ chunk raw @ rest" "8 + length (chunk raw) < 2 ^ 63"
    by (rule stream_law_standalone)
  have sint: "sint (of_nat (8 + length (chunk raw)) :: u64) = int (8 + length (chunk raw))"
    by (rule sint_u64_of_small_nat [OF s(5)])
  have head: "slice_at (os_data w2) 0 8 = Ok (u64_to_le (of_nat (8 + length (chunk raw))))"
    by (simp add: slice_at_def s(4) bslice_def)
  have body: "bslice (os_data w2) 8 (length (chunk raw)) = chunk raw" by (simp add: s(4) bslice_def)
  have len: "\<not> length (os_data w2) < 8 + length (chunk raw)" by (simp add: s(4))
  have n: "\<not> int (8 + length (chunk raw)) < 0" "\<not> 8 + length (chunk raw) < 8"
    "8 + length (chunk raw) - 8 = length (chunk raw)" by simp_all
  show ?thesis
    unfolding compress_standalone_chunk_def s(1-3) las_err_def sum.case bind_res_simps prod.case Let_def head from_to_le sint
      nat_int n(3) body
    by (simp only: n len if_False simp_thms)
qed

lemma compress_stream_steps:
  assumes w: "writer_format format" and laws: "laz_stream_laws lib v (record_length format) chunk streaming"
    and ranges: "list_all (node_in_order order) nodes"
    and st: "streaming base raws0 z w0" "length nodes0 = length raws0" "chunk_sizes_ok (zip nodes0 (map chunk raws0))"
      "hierarchy0 = chunk_entries (length base + 8) (zip nodes0 (map chunk raws0))"
      "start = length base + 8 + length (concat (map chunk raws0))"
    and ok: "fold_res (compress_node_step lib src (record_length format) scale offset format c) nodes
      (z, w0, fcur order p, hierarchy0, start, polls) = Ok (z', w', reader, hierarchy, start', polls')"
  shows "\<exists>raws. map_res (\<lambda>n. encoded_points src scale offset format (node_indexes order n)) nodes = Ok raws \<and>
    list_all2 (\<lambda>n raw. raw_ok (record_length format) raw \<and> length raw = ln_count n * record_length format) nodes raws \<and>
    streaming base (raws0 @ raws) z' w' \<and>
    chunk_sizes_ok (zip (nodes0 @ nodes) (map chunk (raws0 @ raws))) \<and>
    hierarchy = chunk_entries (length base + 8) (zip (nodes0 @ nodes) (map chunk (raws0 @ raws)))"
  using ranges st ok
proof (induction nodes arbitrary: raws0 z w0 nodes0 hierarchy0 start p polls)
  case Nil
  then show ?case by auto
next
  case (Cons n nodes)
  let ?rl = "record_length format"
  let ?step = "compress_node_step lib src ?rl scale offset format c"
  from Cons.prems(7) obtain st1 where step: "?step n (z, w0, fcur order p, hierarchy0, start, polls) = Ok st1"
      and tl: "fold_res ?step nodes st1 = Ok (z', w', reader, hierarchy, start', polls')"
    unfolding fold_res.simps bind_res_Ok_iff by blast
  from step obtain raw rd polls0 polls1 z1 w1 z2 w2 e where
    enc: "encode_node_points src ?rl scale offset format c n (fcur order p) polls0 = Ok (raw, rd, polls1)"
    and cm: "ll_compress_many lib raw z w0 = Inr (z1, w1)" and fin: "ll_finish_current_chunk lib z1 w1 = Inr (z2, w2)"
    and e: "start \<le> os_pos w2" "hierarchy_entry (ln_key n) (of_nat start) (of_nat (os_pos w2 - start)) (ln_count n) = Ok e"
    and st1: "st1 = (z2, w2, rd, hierarchy0 @ [e], os_pos w2, polls1)"
    unfolding compress_node_step_def prod.case
    by (auto simp: bind_res_Ok_iff las_err_Ok_iff simp del: of_nat_diff split: if_splits)
  have rng: "unat (ln_start n) + 4 * ln_count n \<le> length order" and nio: "node_in_order order n" using Cons.prems(1) by (simp_all add: node_in_order_def)
  from encode_node_points_Ok [OF w rng(1) enc] obtain q where
    raw: "encoded_points src scale offset format (node_indexes order n) = Ok raw"
      "length raw = ln_count n * ?rl" and rd: "rd = fcur order q" by auto
  have rok: "raw_ok ?rl raw" by (rule node_raw_ok [OF nio raw(2)])
  from stream_law_chunk [OF laws Cons.prems(2) rok] obtain z1' w1' z2' w2' where
    law: "ll_compress_many lib raw z w0 = Inr (z1', w1')" "ll_finish_current_chunk lib z1' w1' = Inr (z2', w2')"
      "streaming base (raws0 @ [raw]) z2' w2'"
      "os_pos w2' = length base + 8 + length (concat (map chunk (raws0 @ [raw])))"
    .
  have "z2' = z2" "w2' = w2" using law(1,2) cm fin by simp_all
  note law = law(3,4) [unfolded this]
  have sz: "os_pos w2 - start = length (chunk raw)" using law(2) Cons.prems(6) by simp
  have "8 + length (chunk raw) < 2 ^ 63" by (rule stream_law_standalone [OF laws rok])
  then have "length (chunk raw) < 2 ^ 64" by simp
  note he = hierarchy_entry_Ok_iff [OF this]
  have sizes: "length (chunk raw) < 2 ^ 31" "ln_count n < 2 ^ 31"
    and e': "e = \<lparr>e_key = ln_key n, e_offset = of_nat start, e_byte_size = of_nat (length (chunk raw)), e_point_count = of_nat (ln_count n)\<rparr>"
    using e(2) unfolding sz he by simp_all
  have cs: "chunk_sizes_ok (zip (nodes0 @ [n]) (map chunk (raws0 @ [raw])))"
    using Cons.prems(3,4) sizes by (simp add: chunk_sizes_ok_def)
  have hi: "hierarchy0 @ [e] = chunk_entries (length base + 8) (zip (nodes0 @ [n]) (map chunk (raws0 @ [raw])))"
    using Cons.prems(3,5,6) by (simp add: chunk_entries_append e' map_snd_zip)
  from Cons.IH [OF _ law(1) _ cs hi law(2) tl [unfolded st1 rd]] Cons.prems(1,3) obtain raws where
    "map_res (\<lambda>n. encoded_points src scale offset format (node_indexes order n)) nodes = Ok raws"
    "list_all2 (\<lambda>n raw. raw_ok ?rl raw \<and> length raw = ln_count n * ?rl) nodes raws"
    "streaming base ((raws0 @ [raw]) @ raws) z' w'"
    "chunk_sizes_ok (zip ((nodes0 @ [n]) @ nodes) (map chunk ((raws0 @ [raw]) @ raws)))"
    "hierarchy = chunk_entries (length base + 8) (zip ((nodes0 @ [n]) @ nodes) (map chunk ((raws0 @ [raw]) @ raws)))"
    by auto
  then show ?case using raw rok by (intro exI [of _ "raw # raws"]) simp
qed

lemma chunks_of_raws:
  assumes laws: "laz_stream_laws lib v rl chunk streaming"
    and "map_res (\<lambda>n. encoded_points src scale offset format (node_indexes order n)) nodes = Ok raws"
    and "list_all2 (\<lambda>n raw. raw_ok rl raw \<and> length raw = ln_count n * rl) nodes raws"
  shows "map_res (node_chunk lib v order src scale offset format) nodes = Ok (map chunk raws)"
  using assms(2,3)
proof (induction nodes arbitrary: raws)
  case (Cons n nodes)
  then obtain raw raws' where r: "raws = raw # raws'" "encoded_points src scale offset format (node_indexes order n) = Ok raw"
    "map_res (\<lambda>n. encoded_points src scale offset format (node_indexes order n)) nodes = Ok raws'"
    by (auto simp: bind_res_Ok_iff)
  then show ?case using Cons.IH [OF r(3)] Cons.prems(2) standalone_chunk_law [OF laws]
    by (simp add: node_chunk_def)
qed simp

lemma table_of_raws:
  assumes "0 < rl" "list_all2 (\<lambda>n raw. raw_ok rl raw \<and> length raw = ln_count n * rl) nodes raws"
  shows "map (\<lambda>raw. (of_nat (length raw div rl), of_nat (length (chunk raw)))) raws = table_entries (zip nodes (map chunk raws))"
  using assms(2) assms(1) by (induction nodes raws rule: list_all2_induct) (simp_all add: table_entries_def)

lemma compress_stream_Ok:
  assumes w: "writer_format format" and end_w: "os_at_end w" and ne: "nodes \<noteq> []"
    and laws: "laz_stream_laws lib v (record_length format) chunk streaming"
    and ranges: "list_all (node_in_order order) nodes"
    and ok: "compress_nodes lib v nodes order src scale offset (record_length format) format c w polls =
      Ok (hierarchy, w', polls')"
    and small: "length (os_data w') < 2 ^ 63"
  shows "compressed_as lib v nodes order src scale offset format (os_data w) hierarchy w'"
proof -
  let ?rl = "record_length format"
  from ok obtain z w0 z1 w1 reader start polls1 z2 where
    new: "ll_new lib v w = Inr (z, w0)"
    and f: "fold_res (compress_node_step lib src ?rl scale offset format c) nodes
      (z, w0, fcur order 0, [], os_pos w0 + 8, polls) = Ok (z1, w1, reader, hierarchy, start, polls1)"
    and fin: "ll_done lib z1 w1 = Inr (z2, w')"
    unfolding compress_nodes_def section_is_fcur
    by (auto simp: bind_res_Ok_iff las_err_Ok_iff split: if_splits)
  from stream_law_new [OF laws end_w] obtain z' where "ll_new lib v w = Inr (z', w)" "streaming (os_data w) [] z' w" .
  then have st: "streaming (os_data w) [] z w" and w0: "w0 = w" using new by simp_all
  have sizes0: "chunk_sizes_ok (zip [] (map chunk []))" by (simp add: chunk_sizes_ok_def)
  have start: "os_pos w + 8 = length (os_data w) + 8 + length (concat (map chunk []))"
    using end_w by (simp add: os_at_end_def)
  from compress_stream_steps [OF w laws ranges st _ sizes0 _ start f [unfolded w0]] obtain raws where
    r: "map_res (\<lambda>n. encoded_points src scale offset format (node_indexes order n)) nodes = Ok raws"
      "list_all2 (\<lambda>n raw. raw_ok ?rl raw \<and> length raw = ln_count n * ?rl) nodes raws" "streaming (os_data w) raws z1 w1"
      "chunk_sizes_ok (zip nodes (map chunk raws))"
      "hierarchy = chunk_entries (length (os_data w) + 8) (zip nodes (map chunk raws))" by auto
  have "raws \<noteq> []" using r(2) ne by auto
  from stream_law_done [OF laws r(3) this] obtain z3 table where
    t: "ll_table_write lib (map (\<lambda>raw. (of_nat (length raw div ?rl), of_nat (length (chunk raw)))) raws) v = Inr table"
    and d: "let data = os_data w @ u64_to_le (of_nat (length (os_data w) + 8 + length (concat (map chunk raws)))) @
              concat (map chunk raws) @ table
            in ll_done lib z1 w1 = Inr (z3, \<lparr>os_data = data, os_pos = length data\<rparr>)" .
  have rl: "0 < ?rl" by (simp add: record_length_def)
  have data: "os_data w' = os_data w @ point_section lib v nodes (map chunk raws) (os_data w) table" "os_at_end w'"
    using d fin by (auto simp: Let_def point_section_def os_at_end_def)
  then have "length (os_data w) + 8 + length (concat (map chunk raws)) < 2 ^ 63"
    using small by (simp add: point_section_def)
  then show ?thesis
    using chunks_of_raws [OF laws r(1,2)] t [unfolded table_of_raws [OF rl r(2)]] data r(4,5)
    unfolding compressed_as_def by blast
qed

lemma compressed_as_unique:
  assumes "compressed_as lib v nodes order src scale offset format before h w"
    and "compressed_as lib v nodes order src scale offset format before h' w'"
  shows "h = h' \<and> w = w'"
  using assms unfolding compressed_as_def os_at_end_def by (cases w; cases w') auto

section \<open>What one writer writes, the other writes\<close>

lemma encode_node_runs:
  assumes w: "writer_format format"
    and range: "unat (ln_start n) + 4 * ln_count n \<le> length order" and k: "k \<le> ln_count n"
    and enc: "encoded_points src scale offset format (node_indexes order n) = Ok bs"
  shows "\<exists>st. fold_res (encode_node_step src (record_length format) scale offset format never_cancel) [0..<k]
      (replicate (ln_count n * record_length format) 0, fcur order (unat (ln_start n)), polls) = Ok st"
  using k
proof (induction k)
  case 0
  then show ?case by simp
next
  case (Suc k)
  let ?rl = "record_length format"
  let ?step = "encode_node_step src ?rl scale offset format never_cancel"
  from Suc obtain raw0 reader0 polls0
    where pre: "fold_res ?step [0..<k] (replicate (ln_count n * ?rl) 0, fcur order (unat (ln_start n)), polls) =
        Ok (raw0, reader0, polls0)" by (metis Suc_leD prod_cases3)
  from encode_node_prefix [OF w range _ pre] Suc.prems obtain bs0 where bs0: "length bs0 = k * ?rl"
      "raw0 = bs0 @ replicate ((ln_count n - k) * ?rl) 0" "reader0 = fcur order (unat (ln_start n) + 4 * k)"
    by auto
  let ?i = "node_indexes order n ! k"
  have i: "?i = u32_from_le (bslice order (unat (ln_start n) + 4 * k) 4)"
    using Suc.prems(1) by (simp add: node_indexes_def)
  have read: "read_u32 ctx (fcur order (unat (ln_start n) + 4 * k)) =
      Ok (?i, fcur order (unat (ln_start n) + 4 * k + 4))" for ctx
    unfolding i by (rule fcur_reads(3)) (use range Suc.prems(1) in linarith)
  have rest: "(ln_count n - k) * ?rl = ?rl + (ln_count n - Suc k) * ?rl"
  proof -
    have "ln_count n - k = Suc (ln_count n - Suc k)" using Suc.prems(1) by simp
    then show ?thesis by (metis mult_Suc)
  qed
  have slice: "slice_at raw0 (k * ?rl) ?rl = Ok (replicate ?rl 0)"
    using bs0(1) by (simp add: slice_at_def bs0(2) rest bslice_def)
  obtain bss where bss: "map_res (encoded_point src scale offset format) (node_indexes order n) = Ok bss"
    using enc by (auto simp: encoded_points_def bind_res_Ok_iff)
  have "k < length (node_indexes order n)" using Suc.prems by (simp add: node_indexes_def)
  then obtain b where "encoded_point src scale offset format ?i = Ok b"
    using bss unfolding map_res_Ok_iff list_all2_conv_all_nth by blast
  then obtain f where f: "ps_fields src (unat ?i) = Ok f"
      and b: "encode_point_record f scale offset format (replicate ?rl 0) = Ok b"
    by (auto simp: encoded_point_def bind_res_Ok_iff)
  have poll: "\<exists>q. poll_at never_cancel k polls0 = Ok q" by (auto simp: poll_at_def cancel_check_def never_cancel_def)
  then obtain q where q: "poll_at never_cancel k polls0 = Ok q" ..
  have "\<exists>st. ?step k (raw0, reader0, polls0) = Ok st"
    by (simp add: encode_node_step_def q bs0(3) read f slice b)
  then show ?case by (auto simp: fold_res_append pre)
qed

lemma encode_node_points_runs:
  assumes w: "writer_format format"
    and range: "unat (ln_start n) + 4 * ln_count n \<le> length order"
    and small: "ln_count n < 2 ^ 31"
    and enc: "encoded_points src scale offset format (node_indexes order n) = Ok bs"
  shows "\<exists>q polls'. encode_node_points src (record_length format) scale offset format never_cancel n (fcur order p) polls =
    Ok (bs, fcur order q, polls')"
proof -
  let ?rl = "record_length format"
  have "?rl < 2 ^ 17" using unat_bound [of "lf_extra_bytes format"] by (simp add: record_length_def)
  then have "ln_count n * ?rl < 2 ^ 31 * 2 ^ 17" using small by (intro mult_strict_mono) simp_all
  then have cm: "checked_mul_usize (ln_count n) ?rl = Some (ln_count n * ?rl)"
    by (simp add: checked_mul_usize_def usize_max_def)
  from encode_node_runs [OF w range le_refl enc, of polls] obtain st where
    st: "fold_res (encode_node_step src ?rl scale offset format never_cancel) [0..<ln_count n]
      (replicate (ln_count n * ?rl) 0, fcur order (unat (ln_start n)), polls) = Ok st" ..
  obtain raw rd polls' where "st = (raw, rd, polls')" by (cases st)
  then have run: "encode_node_points src ?rl scale offset format never_cancel n (fcur order p) polls = Ok (raw, rd, polls')"
    using st by (simp add: encode_node_points_def cm section_is_fcur)
  from encode_node_points_Ok [OF w range run] enc obtain q where "raw = bs" "rd = fcur order q" by auto
  then show ?thesis using run by blast
qed

lemma compress_stream_runs:
  assumes w: "writer_format format" and laws: "laz_stream_laws lib v (record_length format) chunk streaming"
    and ranges: "list_all (node_in_order order) nodes"
    and enc: "map_res (\<lambda>n. encoded_points src scale offset format (node_indexes order n)) nodes = Ok raws"
    and sizes: "chunk_sizes_ok (zip nodes (map chunk raws))"
    and st: "streaming base raws0 z w0" "start = length base + 8 + length (concat (map chunk raws0))"
  shows "\<exists>z' w' q start' polls'. fold_res (compress_node_step lib src (record_length format) scale offset format never_cancel) nodes
      (z, w0, fcur order p, hierarchy0, start, polls) =
        Ok (z', w', fcur order q, hierarchy0 @ chunk_entries start (zip nodes (map chunk raws)), start', polls') \<and>
    streaming base (raws0 @ raws) z' w'"
  using ranges enc sizes st
proof (induction nodes arbitrary: raws raws0 z w0 hierarchy0 start p polls)
  case Nil
  then show ?case by auto
next
  case (Cons n nodes)
  let ?rl = "record_length format"
  let ?step = "compress_node_step lib src ?rl scale offset format never_cancel"
  from Cons.prems(2) obtain raw raws' where r: "raws = raw # raws'"
      "encoded_points src scale offset format (node_indexes order n) = Ok raw"
      "map_res (\<lambda>n. encoded_points src scale offset format (node_indexes order n)) nodes = Ok raws'"
    by (auto simp: bind_res_Ok_iff)
  have n: "unat (ln_start n) + 4 * ln_count n \<le> length order" "node_in_order order n" "ln_count n < 2 ^ 31"
      "length (chunk raw) < 2 ^ 31" and rest: "chunk_sizes_ok (zip nodes (map chunk raws'))"
    using Cons.prems(1,3) by (simp_all add: r(1) chunk_sizes_ok_def node_in_order_def)
  from encode_node_points_runs [OF w n(1,3) r(2), of p "Suc polls"] obtain q polls1 where
    run: "encode_node_points src ?rl scale offset format never_cancel n (fcur order p) (Suc polls) = Ok (raw, fcur order q, polls1)"
    by blast
  have rok: "raw_ok ?rl raw" by (rule node_raw_ok [OF n(2) encode_node_points_Ok(2) [OF w n(1) run]])
  from stream_law_chunk [OF laws Cons.prems(4) rok] obtain z1 w1 z2 w2 where
    law: "ll_compress_many lib raw z w0 = Inr (z1, w1)" "ll_finish_current_chunk lib z1 w1 = Inr (z2, w2)"
      "streaming base (raws0 @ [raw]) z2 w2"
      "os_pos w2 = length base + 8 + length (concat (map chunk (raws0 @ [raw])))" .
  have pos: "os_pos w2 = start + length (chunk raw)" using law(4) Cons.prems(5) by simp
  have l: "length (chunk raw) < 2 ^ 64" using n(4) by simp
  let ?e = "\<lparr>e_key = ln_key n, e_offset = of_nat start, e_byte_size = of_nat (length (chunk raw)), e_point_count = of_nat (ln_count n)\<rparr>"
  have e: "hierarchy_entry (ln_key n) (of_nat start) (of_nat (length (chunk raw))) (ln_count n) = Ok ?e"
    using n(3,4) by (simp add: hierarchy_entry_Ok_iff [OF l])
  have check: "cancel_check never_cancel polls = Ok (Suc polls)" by (simp add: never_cancel_def)
  have le: "start \<le> start + length (chunk raw)" by simp
  have step: "?step n (z, w0, fcur order p, hierarchy0, start, polls) =
      Ok (z2, w2, fcur order q, hierarchy0 @ [?e], start + length (chunk raw), polls1)"
    unfolding compress_node_step_def prod.case check bind_res_simps run las_err_def law(1,2) sum.case pos
      if_P [OF le] ok_or_simps option.case diff_add_inverse e ..
  from Cons.IH [OF _ r(3) rest law(3) _, of "start + length (chunk raw)" q "hierarchy0 @ [?e]" polls1] Cons.prems(1,5)
  obtain z' w' q' start' polls' where
    "fold_res ?step nodes (z2, w2, fcur order q, hierarchy0 @ [?e], start + length (chunk raw), polls1) =
       Ok (z', w', fcur order q', (hierarchy0 @ [?e]) @ chunk_entries (start + length (chunk raw)) (zip nodes (map chunk raws')),
         start', polls')"
    "streaming base ((raws0 @ [raw]) @ raws') z' w'" by auto
  then show ?case by (intro exI [of _ z'] exI [of _ w'] exI [of _ q'] exI [of _ start'] exI [of _ polls']) (simp add: step r(1))
qed

lemma node_chunk_Ok_iff:
  "node_chunk lib v order src scale offset format n = Ok chunk \<longleftrightarrow>
    (\<exists>raw. encoded_points src scale offset format (node_indexes order n) = Ok raw \<and>
       compress_standalone_chunk lib v raw = Ok chunk)"
  by (simp add: node_chunk_def bind_res_Ok_iff)

lemma raws_of_chunks:
  assumes "map_res (node_chunk lib v order src scale offset format) nodes = Ok chunks"
  shows "\<exists>raws. map_res (\<lambda>n. encoded_points src scale offset format (node_indexes order n)) nodes = Ok raws"
  using assms
proof (induction nodes arbitrary: chunks)
  case (Cons n nodes)
  then show ?case by (auto simp: bind_res_Ok_iff node_chunk_Ok_iff)
qed simp

lemma encoded_points_length:
  assumes w: "writer_format format" and ok: "encoded_points src scale offset format is = Ok raw"
  shows "length raw = length is * record_length format"
  using ok
proof (induction "is" arbitrary: raw)
  case Nil
  then show ?case by (simp add: encoded_points_def)
next
  case (Cons i "is")
  then obtain b raw' where b: "encoded_point src scale offset format i = Ok b"
      "encoded_points src scale offset format is = Ok raw'" "raw = b @ raw'"
    by (auto simp: encoded_points_def bind_res_Ok_iff)
  obtain f where "encode_point_record f scale offset format (replicate (record_length format) 0) = Ok b"
    using b(1) by (auto simp: encoded_point_def bind_res_Ok_iff)
  then have "length b = record_length format" by (rule encoded_length [OF w])
  then show ?case using Cons.IH [OF b(2)] b(3) by simp
qed

lemma raws_ok:
  assumes w: "writer_format format"
    and ranges: "list_all (node_in_order order) nodes"
    and enc: "map_res (\<lambda>n. encoded_points src scale offset format (node_indexes order n)) nodes = Ok raws"
  shows "list_all2 (\<lambda>n raw. raw_ok (record_length format) raw \<and> length raw = ln_count n * record_length format) nodes raws"
  using ranges enc
proof (induction nodes arbitrary: raws)
  case (Cons n nodes)
  from Cons.prems(2) obtain raw raws' where r: "raws = raw # raws'"
      "encoded_points src scale offset format (node_indexes order n) = Ok raw"
      "map_res (\<lambda>n. encoded_points src scale offset format (node_indexes order n)) nodes = Ok raws'"
    by (auto simp: bind_res_Ok_iff)
  have len: "length raw = ln_count n * record_length format"
    using encoded_points_length [OF w r(2)] by (simp add: node_indexes_def)
  then have "raw_ok (record_length format) raw" using Cons.prems(1) by (auto intro: node_raw_ok)
  then show ?case using Cons.IH [OF _ r(3)] Cons.prems(1) r(1) len by simp
qed simp

text \<open>C33: The streaming writer is a replacement of the parallel one. Whenever
  \<^verbatim>\<open>compress_nodes_parallel\<close> succeeds, with any number of threads and any batching, the sequential
  \<^verbatim>\<open>compress_nodes\<close> succeeds as well and returns the same hierarchy entries and the same file bytes,
  under the layout the LAZ format promises of the streaming compressor.\<close>

theorem parallel_equals_sequential:
  assumes "writer_format format" "laz_stream_laws lib v (record_length format) chunk streaming"
    and "os_at_end w" "nodes \<noteq> []"
    and "list_all (node_in_order order) nodes"
    and "compress_nodes_parallel threads lib v nodes order src scale offset (record_length format) format c w polls =
      Ok (hierarchy, w', polls')"
  shows "\<exists>polls''. compress_nodes lib v nodes order src scale offset (record_length format) format never_cancel w polls =
    Ok (hierarchy, w', polls'')"
proof -
  let ?rl = "record_length format"
  have ranges': "list_all (\<lambda>n. unat (ln_start n) + 4 * ln_count n \<le> length order) nodes"
    using assms(5) by (rule list.pred_mono_strong) (simp add: node_in_order_def)
  from compress_parallel_Ok [OF assms(1,3) ranges' assms(6)] obtain chunks table where
    c: "map_res (node_chunk lib v order src scale offset format) nodes = Ok chunks"
      "ll_table_write lib (table_entries (zip nodes chunks)) v = Inr table"
      "os_data w' = os_data w @ point_section lib v nodes chunks (os_data w) table" "os_at_end w'"
      "hierarchy = chunk_entries (length (os_data w) + 8) (zip nodes chunks)" "chunk_sizes_ok (zip nodes chunks)"
      "length (os_data w) + 8 + length (concat chunks) < 2 ^ 63"
    unfolding compressed_as_def by blast
  from raws_of_chunks [OF c(1)] obtain raws where
    enc: "map_res (\<lambda>n. encoded_points src scale offset format (node_indexes order n)) nodes = Ok raws" ..
  note rok = raws_ok [OF assms(1,5) enc]
  have chunks: "chunks = map chunk raws" using chunks_of_raws [OF assms(2) enc rok] c(1) by simp
  obtain z where new: "ll_new lib v w = Inr (z, w)" "streaming (os_data w) [] z w"
    by (rule stream_law_new [OF assms(2,3)])
  have start: "os_pos w + 8 = length (os_data w) + 8 + length (concat (map chunk []))" "os_pos w + 8 < 2 ^ 64"
    using assms(3) c(7) by (simp_all add: os_at_end_def)
  from compress_stream_runs [OF assms(1,2,5) enc c(6) [unfolded chunks] new(2) start(1), of 0 "[]" polls]
  obtain z1 w1 q start' polls1 where
    run: "fold_res (compress_node_step lib src ?rl scale offset format never_cancel) nodes
        (z, w, fcur order 0, [], os_pos w + 8, polls) = Ok (z1, w1, fcur order q, hierarchy, start', polls1)"
      "streaming (os_data w) raws z1 w1"
    unfolding append_Nil c(5) chunks assms(3) [unfolded os_at_end_def] by blast
  have "raws \<noteq> []" using rok assms(4) by auto
  from stream_law_done [OF assms(2) run(2) this] obtain z3 table' where
    t: "ll_table_write lib (map (\<lambda>raw. (of_nat (length raw div ?rl), of_nat (length (chunk raw)))) raws) v = Inr table'"
    and d: "let data = os_data w @ u64_to_le (of_nat (length (os_data w) + 8 + length (concat (map chunk raws)))) @
              concat (map chunk raws) @ table'
            in ll_done lib z1 w1 = Inr (z3, \<lparr>os_data = data, os_pos = length data\<rparr>)" .
  have rl: "0 < ?rl" by (simp add: record_length_def)
  have "table' = table" using t c(2) unfolding table_of_raws [OF rl rok] chunks by simp
  then have "ll_done lib z1 w1 = Inr (z3, w')"
    using d c(3,4) unfolding Let_def point_section_def chunks by (simp add: os_at_end_def)
  then show ?thesis
    unfolding compress_nodes_def new(1) las_err_def sum.case bind_res_simps prod.case if_P [OF start(2)] ok_or_simps option.case
      section_is_fcur run(1) by (simp add: never_cancel_def)
qed

text \<open>A compressor that stores the records, for records of 30 bytes.\<close>

definition stored_table :: "(u64 \<times> u64) list \<Rightarrow> u8 list" where
  "stored_table entries = concat (map (\<lambda>(points, bytes). u64_to_le points @ u64_to_le bytes) entries)"

definition stored_file :: "u8 list \<Rightarrow> u8 list list \<Rightarrow> u8 list" where
  "stored_file base raws = base @ u64_to_le (of_nat (length base + 8 + length (concat raws))) @ concat raws @
     stored_table (map (\<lambda>raw. (of_nat (length raw div 30), of_nat (length raw))) raws)"

definition stored_lib :: "(unit, u8 list \<times> u8 list list \<times> u8 list) laz_lib" where
  "stored_lib = \<lparr>ll_format_new = (\<lambda>_. Inl []), ll_format_len = (\<lambda>_. 30), ll_build = (\<lambda>_ _. Inr ()),
     ll_vlr_write = (\<lambda>_. Inr []), ll_new = (\<lambda>_ w. Inr ((os_data w, [], []), w)),
     ll_compress_many = (\<lambda>raw (base, raws, cur) w.
       Inr ((base, raws, cur @ raw), os_write raw (if raws = [] \<and> cur = [] then os_write (replicate 8 0) w else w))),
     ll_finish_current_chunk = (\<lambda>(base, raws, cur) w. Inr ((base, raws @ [cur], []), w)),
     ll_done = (\<lambda>(base, raws, cur) w.
       let data = stored_file base (if cur = [] then raws else raws @ [cur])
       in Inr ((base, raws, cur), \<lparr>os_data = data, os_pos = length data\<rparr>)),
     ll_table_write = (\<lambda>entries _. Inr (stored_table entries))\<rparr>"

definition stored_streaming :: "u8 list \<Rightarrow> u8 list list \<Rightarrow> u8 list \<times> u8 list list \<times> u8 list \<Rightarrow> ostream \<Rightarrow> bool" where
  "stored_streaming base raws z w \<longleftrightarrow> z = (base, raws, []) \<and> os_at_end w \<and>
     length (os_data w) = (if raws = [] then length base else length base + 8 + length (concat raws))"

lemma stored_laws: "laz_stream_laws stored_lib () 30 (\<lambda>raw. raw) stored_streaming"
  unfolding laz_stream_laws_def
proof (intro conjI allI impI)
  fix w assume "os_at_end w"
  then show "\<exists>z. ll_new stored_lib () w = Inr (z, w) \<and> stored_streaming (os_data w) [] z w"
    by (simp add: stored_lib_def stored_streaming_def)
next
  fix base raws z w raw
  assume st: "stored_streaming base raws z w" and "raw_ok 30 raw"
  let ?w = "os_write raw (if raws = [] then os_write (replicate 8 0) w else w)"
  have "os_at_end w" using st by (simp add: stored_streaming_def)
  then have "length (os_data ?w) = length base + 8 + length (concat (raws @ [raw]))" "os_at_end ?w"
    using st by (simp_all add: os_write_end stored_streaming_def)
  then show "\<exists>z1 w1 z2 w2. ll_compress_many stored_lib raw z w = Inr (z1, w1) \<and>
      ll_finish_current_chunk stored_lib z1 w1 = Inr (z2, w2) \<and> stored_streaming base (raws @ [raw]) z2 w2 \<and>
      os_pos w2 = length base + 8 + length (concat (map (\<lambda>raw. raw) (raws @ [raw])))"
    using st by (simp add: stored_lib_def stored_streaming_def os_at_end_def)
next
  fix base raws z w
  assume "stored_streaming base raws z w" "raws \<noteq> []"
  then show "\<exists>z' table. ll_table_write stored_lib (map (\<lambda>raw. (of_nat (length raw div 30), of_nat (length raw))) raws) () =
             Inr table \<and>
           (let data = base @ u64_to_le (of_nat (length base + 8 + length (concat (map (\<lambda>raw. raw) raws)))) @
              concat (map (\<lambda>raw. raw) raws) @ table
            in ll_done stored_lib z w = Inr (z', \<lparr>os_data = data, os_pos = length data\<rparr>))"
    by (simp add: stored_lib_def stored_streaming_def stored_file_def Let_def)
next
  fix raw :: "u8 list" assume "raw_ok 30 raw"
  then show "\<exists>z w z1 w1 z2 w2 rest. ll_new stored_lib () os_new = Inr (z, w) \<and>
      ll_compress_many stored_lib raw z w = Inr (z1, w1) \<and> ll_done stored_lib z1 w1 = Inr (z2, w2) \<and>
      os_data w2 = u64_to_le (of_nat (8 + length raw)) @ raw @ rest \<and> 8 + length raw < 2 ^ 63"
    by (simp add: stored_lib_def stored_file_def raw_ok_def os_new_def Let_def)
qed

definition one_point_source :: point_source where
  "one_point_source = \<lparr>ps_len = 1, ps_xyz = (\<lambda>_. Ok (0, 0, 0)), ps_fields = (\<lambda>_. Ok sample_fields),
     ps_extra_byte_count = 0, ps_extra_bytes_vlrs = []\<rparr>"

definition one_point_node :: lod_node where
  "one_point_node = \<lparr>ln_key = vk_root, ln_start = 0, ln_count = 1\<rparr>"

lemma one_point_encoded:
  "encoded_points one_point_source (f64_one, f64_one, f64_one) (0, 0, 0) sample_las_format (node_indexes [0, 0, 0, 0] one_point_node) =
    Ok (point_bytes sample_las_format sample_fields (0, 0, 0))"
proof -
  have w: "writer_format sample_las_format" by (simp add: writer_format_def sample_las_format_def)
  have q: "quantize_xyz (cf_x sample_fields) (cf_y sample_fields) (cf_z sample_fields) (f64_one, f64_one, f64_one) (0, 0, 0) = Ok (0, 0, 0)"
    by (simp add: sample_fields_def quantize_xyz_def quantize_zero)
  have "encode_point_record sample_fields (f64_one, f64_one, f64_one) (0, 0, 0) sample_las_format
      (replicate (record_length sample_las_format) 0) = Ok (point_bytes sample_las_format sample_fields (0, 0, 0))"
    using q encode_point_record_eq [OF w, of "replicate (record_length sample_las_format) 0"]
    by (simp add: sample_fields_def sample_las_format_def)
  then show ?thesis
    by (simp add: encoded_points_def node_indexes_def one_point_node_def encoded_point_def one_point_source_def)
qed

theorem parallel_equals_sequential_witness:
  "\<exists>hierarchy w' p q.
    compress_nodes_parallel 4 stored_lib () [one_point_node] [0, 0, 0, 0] one_point_source (f64_one, f64_one, f64_one)
      (0, 0, 0) (record_length sample_las_format) sample_las_format never_cancel os_new 0 = Ok (hierarchy, w', p) \<and>
    compress_nodes stored_lib () [one_point_node] [0, 0, 0, 0] one_point_source (f64_one, f64_one, f64_one)
      (0, 0, 0) (record_length sample_las_format) sample_las_format never_cancel os_new 0 = Ok (hierarchy, w', q) \<and>
    length hierarchy = 1"
proof -
  let ?raw = "point_bytes sample_las_format sample_fields (0, 0, 0)"
  have w: "writer_format sample_las_format" by (simp add: writer_format_def sample_las_format_def)
  have rl: "record_length sample_las_format = 30" by (simp add: record_length_def sample_las_format_def)
  have node: "unat (ln_start one_point_node) + 4 * ln_count one_point_node \<le> length [0, 0, 0, 0 :: u8]"
      "ln_count one_point_node < 2 ^ 31" "list_all (node_in_order [0, 0, 0, 0]) [one_point_node]"
    by (simp_all add: one_point_node_def node_in_order_def)
  have end_new: "os_at_end os_new" by (simp add: os_at_end_def os_new_def)
  note laws = stored_laws [folded rl]
  from encode_node_points_runs [OF w node(1,2) one_point_encoded, of 0 "Suc 0"] obtain q polls where
    enc: "encode_node_points one_point_source (record_length sample_las_format) (f64_one, f64_one, f64_one) (0, 0, 0)
      sample_las_format never_cancel one_point_node (fcur [0, 0, 0, 0] 0) (Suc 0) = Ok (?raw, fcur [0, 0, 0, 0] q, polls)"
    by blast
  have len: "length ?raw = 30"
    using encode_node_points_Ok(2) [OF w node(1) enc] by (simp add: rl one_point_node_def)
  then have raw_ok: "raw_ok (record_length sample_las_format) ?raw" by (auto simp: raw_ok_def rl)
  note chunk = standalone_chunk_law [OF laws raw_ok]
  have entry: "hierarchy_entry (ln_key one_point_node) (of_nat 8) (of_nat (length ?raw)) (ln_count one_point_node) =
      Ok \<lparr>e_key = vk_root, e_offset = 8, e_byte_size = 30, e_point_count = 1\<rparr>"
    using hierarchy_entry_Ok_iff [of 30 vk_root 8 1] by (simp add: one_point_node_def len)
  have sl: "slice_chunks 8 [one_point_node] = [[one_point_node]]"
    by (simp add: slice_chunks.simps)
  have batch: "encode_batch_step one_point_source (record_length sample_las_format) (f64_one, f64_one, f64_one) (0, 0, 0)
      sample_las_format never_cancel one_point_node ([], fcur [0, 0, 0, 0] 0, Suc 0) =
      Ok ([?raw], fcur [0, 0, 0, 0] q, polls)"
    by (simp add: encode_batch_step_def enc)
  have wr: "write_chunk_step (one_point_node, Ok ?raw) (w0, [], [], 8) =
      Ok (os_write ?raw w0, [\<lparr>e_key = vk_root, e_offset = 8, e_byte_size = 30, e_point_count = 1\<rparr>],
        [(1, 30)], 38)" for w0
    using entry by (simp add: write_chunk_step_def len one_point_node_def)
  let ?w0 = "os_write (u64_to_le (word_of_int (- 1))) os_new"
  have step: "compress_batch_step stored_lib () one_point_source (record_length sample_las_format) (f64_one, f64_one, f64_one)
      (0, 0, 0) sample_las_format never_cancel [one_point_node] (?w0, fcur [0, 0, 0, 0] 0, [], [], 8, 0) =
      Ok (os_write ?raw ?w0, fcur [0, 0, 0, 0] q,
        [\<lparr>e_key = vk_root, e_offset = 8, e_byte_size = 30, e_point_count = 1\<rparr>], [(1, 30)], 38, polls)"
    by (simp add: compress_batch_step_def never_cancel_def [of 0] batch chunk wr)
  have pos: "os_pos (os_write ?raw ?w0) = 38" by (simp add: os_write_def os_new_def len)
  have "\<exists>hierarchy w' p. compress_nodes_parallel 4 stored_lib () [one_point_node] [0, 0, 0, 0] one_point_source
      (f64_one, f64_one, f64_one) (0, 0, 0) (record_length sample_las_format) sample_las_format never_cancel os_new 0 =
      Ok (hierarchy, w', p) \<and> length hierarchy = 1"
    unfolding compress_nodes_parallel_def Let_def section_is_fcur
    using step pos by (simp add: sl os_new_def stored_lib_def never_cancel_def)
  then show ?thesis
    using parallel_equals_sequential [OF w laws end_new _ node(3)] by blast
qed

end
