(* ===== verification/Chunk_Window.thy ===== *)
theory Chunk_Window
  imports Stream_IO
begin

text \<open>
  \<^verbatim>\<open>ChunkReadWindow\<close> of \<^verbatim>\<open>copc-reader/src/points.rs\<close>: the stream through which the LAZ decoder reads one
  chunk of the file. The window is shown to be indistinguishable from a cursor over the bytes of the
  chunk alone, so a decoder cannot reach the bytes before or after it.
\<close>

record chunk_window =
  cw_source :: bsection
  cw_start :: u64
  cw_end :: u64
  cw_position :: u64

definition window_new :: "bsection \<Rightarrow> chunk_window" where
  "window_new source = \<lparr>cw_source = source, cw_start = 0, cw_end = 0, cw_position = 0\<rparr>"

definition set_range :: "u64 \<Rightarrow> u64 \<Rightarrow> chunk_window \<Rightarrow> chunk_window result" where
  "set_range start byte_size w =
     bind_res (ok_or (checked_add start byte_size) (InvalidData ''COPC point chunk range overflows u64'')) (\<lambda>end_pos.
     Ok (w\<lparr>cw_source := section_seek (unat start) (cw_source w), cw_start := start, cw_end := end_pos,
           cw_position := start\<rparr>))"

text \<open>\<^verbatim>\<open>Read::read\<close> into a buffer of \<open>n\<close> bytes.\<close>

definition window_read :: "nat \<Rightarrow> chunk_window \<Rightarrow> (u8 list \<times> chunk_window) result" where
  "window_read n w =
     (let remaining = saturating_sub (cw_end w) (cw_position w) in
      if remaining = 0 then Ok ([], w)
      else
        let allowed = min (unat remaining) n in
        bind_res (section_read allowed (cw_source w)) (\<lambda>(bs, source).
        bind_res (ok_or (checked_add (cw_position w) (of_nat (length bs))) (Io ''chunk read position overflow''))
          (\<lambda>position. Ok (bs, w\<lparr>cw_source := source, cw_position := position\<rparr>))))"

datatype seek_from =
    SeekStart u64
  | SeekCurrent "64 word" \<comment> \<open>two's complement\<close>
  | SeekEnd "64 word"

text \<open>\<^verbatim>\<open>u64::checked_add_signed\<close>\<close>

definition checked_add_signed :: "u64 \<Rightarrow> 64 word \<Rightarrow> u64 option" where
  "checked_add_signed v delta =
     (let r = int (unat v) + sint delta in if 0 \<le> r \<and> r < 2 ^ 64 then Some (of_nat (nat r)) else None)"

definition window_seek :: "seek_from \<Rightarrow> chunk_window \<Rightarrow> (u64 \<times> chunk_window) result" where
  "window_seek position w =
     bind_res (ok_or
       (Option.bind
         (case position of
            SeekStart offset \<Rightarrow> Some offset
          | SeekCurrent delta \<Rightarrow> checked_add_signed (cw_position w) delta
          | SeekEnd delta \<Rightarrow> checked_add_signed (cw_end w) delta)
         (\<lambda>target. if cw_start w \<le> target \<and> target \<le> cw_end w then Some target else None))
       (Io ''seek outside COPC point chunk'')) (\<lambda>target.
     Ok (target, w\<lparr>cw_source := section_seek (unat target) (cw_source w), cw_position := target\<rparr>))"

section \<open>What a decoder sees\<close>

text \<open>A client of a stream: the calls it makes and what each returns. A failed call changes nothing.\<close>

datatype stream_op = OpRead nat | OpSeek seek_from

datatype stream_answer = Bytes "u8 list" | Position nat | Refused

definition window_step :: "stream_op \<Rightarrow> chunk_window \<Rightarrow> stream_answer \<times> chunk_window" where
  "window_step op w =
     (case op of
        OpRead n \<Rightarrow> (case window_read n w of Inl _ \<Rightarrow> (Refused, w) | Inr (bs, w) \<Rightarrow> (Bytes bs, w))
      | OpSeek p \<Rightarrow> (case window_seek p w of Inl _ \<Rightarrow> (Refused, w) | Inr (t, w) \<Rightarrow> (Position (unat t), w)))"

fun window_run :: "stream_op list \<Rightarrow> chunk_window \<Rightarrow> stream_answer list \<times> chunk_window" where
  "window_run [] w = ([], w)"
| "window_run (op # ops) w =
     (let (a, w) = window_step op w; (as, w) = window_run ops w in (a # as, w))"

text \<open>
  The specification: a chunk alone, with a position in it. Positions are reported as offsets in the
  file, in which the chunk begins at \<open>start\<close>; a seek that leaves the chunk is refused.
\<close>

definition chunk_step :: "nat \<Rightarrow> u8 list \<Rightarrow> stream_op \<Rightarrow> nat \<Rightarrow> stream_answer \<times> nat" where
  "chunk_step start chunk op pos =
     (case op of
        OpRead n \<Rightarrow> (let bs = take n (drop pos chunk) in (Bytes bs, pos + length bs))
      | OpSeek p \<Rightarrow>
          (let target = (case p of
                SeekStart offset \<Rightarrow> int (unat offset) - int start
              | SeekCurrent delta \<Rightarrow> int pos + sint delta
              | SeekEnd delta \<Rightarrow> int (length chunk) + sint delta)
           in if 0 \<le> target \<and> target \<le> int (length chunk) then (Position (start + nat target), nat target)
              else (Refused, pos)))"

fun chunk_run :: "nat \<Rightarrow> u8 list \<Rightarrow> stream_op list \<Rightarrow> nat \<Rightarrow> stream_answer list \<times> nat" where
  "chunk_run start chunk [] pos = ([], pos)"
| "chunk_run start chunk (op # ops) pos =
     (let (a, pos) = chunk_step start chunk op pos; (as, pos) = chunk_run start chunk ops pos in (a # as, pos))"

text \<open>The abstraction: a window over the file \<open>data\<close> that shows the chunk at \<open>start\<close> from position \<open>pos\<close> on.\<close>

definition window_shows :: "u8 list \<Rightarrow> nat \<Rightarrow> nat \<Rightarrow> nat \<Rightarrow> chunk_window \<Rightarrow> bool" where
  "window_shows data start sz pos w \<longleftrightarrow>
     start + sz \<le> length data \<and> start + sz < 2 ^ 64 \<and> pos \<le> sz \<and>
     w = \<lparr>cw_source = fcur data (start + pos), cw_start = of_nat start, cw_end = of_nat (start + sz),
          cw_position = of_nat (start + pos)\<rparr>"

lemma unat_of_nat_u64 [simp]: "n < 2 ^ 64 \<Longrightarrow> unat (of_nat n :: u64) = n"
  by (simp add: unat_of_nat)

lemma set_range_shows:
  assumes "cw_source w = fcur data p" "unat start + unat sz \<le> length data"
    and "set_range start sz w = Ok w'"
  shows "window_shows data (unat start) (unat sz) 0 w'"
proof -
  have e: "checked_add start sz = Some (start + sz)" "unat start + unat sz < 2 ^ 64"
    using assms(3) by (auto simp: set_range_def bind_res_Ok_iff checked_add_def split: if_splits)
  have "(of_nat (unat start + unat sz) :: u64) = start + sz" by simp
  then show ?thesis
    using assms e by (auto simp: set_range_def window_shows_def fcur_def section_seek_def)
qed

lemma window_read_shows:
  assumes "window_shows data start sz pos w"
    and bs_def: "bs = take n (drop pos (bslice data start sz))"
  shows "\<exists>w'. window_read n w = Ok (bs, w') \<and> window_shows data start sz (pos + length bs) w'"
proof -
  have w: "start + sz \<le> length data" "start + sz < 2 ^ 64" "pos \<le> sz"
    "w = \<lparr>cw_source = fcur data (start + pos), cw_start = of_nat start, cw_end = of_nat (start + sz),
          cw_position = of_nat (start + pos)\<rparr>" using assms(1) by (simp_all add: window_shows_def)
  have le: "(of_nat (start + pos) :: u64) \<le> of_nat (start + sz)"
    unfolding word_le_nat_alt using w(2,3) by (simp del: of_nat_add)
  have "unat (of_nat (start + sz) - of_nat (start + pos) :: u64) = sz - pos"
    unfolding unat_sub [OF le] using w(2,3) by (simp del: of_nat_add)
  then have rem: "unat (saturating_sub (cw_end w) (cw_position w)) = sz - pos"
    using le by (simp add: saturating_sub_def w(4) del: of_nat_add)
  have len: "length (bslice data start sz) = sz" using w(1) by simp
  show ?thesis
  proof (cases "pos = sz")
    case True
    then have "bs = []" using len by (simp add: bs_def)
    moreover have "saturating_sub (cw_end w) (cw_position w) = 0"
      using rem True by (metis diff_self_eq_0 unat_eq_0)
    ultimately show ?thesis using assms(1) by (simp add: window_read_def)
  next
    case False
    then have ne: "saturating_sub (cw_end w) (cw_position w) \<noteq> 0"
      using rem w(3) by (metis diff_is_0_eq le_antisym unat_0)
    have bs: "bs = take (min (sz - pos) n) (drop (start + pos) data)"
      using w(3) by (simp add: bs_def bslice_def drop_take min.commute add.commute)
    have lbs: "length bs = min (sz - pos) n" using len by (simp add: bs_def min.commute)
    from lbs have lb: "pos + length bs \<le> sz" using w(3) by simp
    have "section_read (min (sz - pos) n) (cw_source w) = Ok (bs, fcur data (start + pos + length bs))"
    proof -
      have m: "min (length (drop (start + pos) data)) (min (sz - pos) n) = min (sz - pos) n" using w(1) by simp
      show ?thesis using w(1,3) lbs unfolding section_read_def w(4) fcur_def Let_def by (simp add: m [simplified] bs)
    qed
    moreover have "checked_add (cw_position w) (of_nat (length bs)) = Some (of_nat (start + pos + length bs))"
      using lb w(2) by (simp add: checked_add_Some_iff w(4) del: of_nat_add)
    ultimately have "window_read n w = Ok (bs, w\<lparr>cw_source := fcur data (start + pos + length bs),
        cw_position := of_nat (start + pos + length bs)\<rparr>)"
      using ne by (simp add: window_read_def rem Let_def del: of_nat_add)
    then show ?thesis using w lb by (simp add: window_shows_def add.assoc del: of_nat_add)
  qed
qed


lemma checked_add_signed_iff: "checked_add_signed v d = Some t \<longleftrightarrow> int (unat t) = int (unat v) + sint d"
proof -
  define r where "r = int (unat v) + sint d"
  have "(if 0 \<le> r \<and> r < 2 ^ 64 then Some (of_nat (nat r)) else None) = Some t \<longleftrightarrow> int (unat t) = r"
  proof
    assume "(if 0 \<le> r \<and> r < 2 ^ 64 then Some (of_nat (nat r)) else None) = Some t"
    then have "t = of_nat (nat r)" "0 \<le> r" "nat r < 2 ^ 64" by (auto split: if_splits)
    then have "unat t = nat r" by (simp only: unat_of_nat_u64)
    then show "int (unat t) = r" using \<open>0 \<le> r\<close> by (simp only: int_nat_eq if_True)
  next
    assume r: "int (unat t) = r"
    then have "r = uint t" by simp
    then have "r < 2 ^ 64" "0 \<le> r" "nat r = unat t" using uint_bounded [of t] by simp_all
    then show "(if 0 \<le> r \<and> r < 2 ^ 64 then Some (of_nat (nat r)) else None) = Some t" by simp
  qed
  then show ?thesis unfolding checked_add_signed_def Let_def r_def .
qed

lemma window_seek_shows:
  assumes "window_shows data start sz pos w"
  shows "(case chunk_step start (bslice data start sz) (OpSeek p) pos of
      (Position t, pos') \<Rightarrow> \<exists>w'. window_seek p w = Ok (of_nat t, w') \<and> t < 2 ^ 64 \<and> window_shows data start sz pos' w'
    | (_, pos') \<Rightarrow> \<exists>e. window_seek p w = Err e \<and> pos' = pos)"
proof -
  have w: "start + sz \<le> length data" "start + sz < 2 ^ 64" "pos \<le> sz"
    "w = \<lparr>cw_source = fcur data (start + pos), cw_start = of_nat start, cw_end = of_nat (start + sz),
          cw_position = of_nat (start + pos)\<rparr>" using assms(1) by (simp_all add: window_shows_def)
  have len: "length (bslice data start sz) = sz" using w(1) by simp
  define target where "target = (case p of SeekStart offset \<Rightarrow> int (unat offset) - int start
      | SeekCurrent delta \<Rightarrow> int pos + sint delta | SeekEnd delta \<Rightarrow> int sz + sint delta)"
  define found where "found = (case p of SeekStart offset \<Rightarrow> Some offset
      | SeekCurrent delta \<Rightarrow> checked_add_signed (cw_position w) delta | SeekEnd delta \<Rightarrow> checked_add_signed (cw_end w) delta)"
  have step: "chunk_step start (bslice data start sz) (OpSeek p) pos =
      (if 0 \<le> target \<and> target \<le> int sz then (Position (start + nat target), nat target) else (Refused, pos))"
    unfolding chunk_step_def Let_def stream_op.case len target_def [symmetric] ..
  have unats: "unat (of_nat start :: u64) = start" "unat (of_nat (start + sz) :: u64) = start + sz"
    using w(2) by (simp_all del: of_nat_add)
  have found_iff: "found = Some t \<longleftrightarrow> int (unat t) = int start + target" for t
  proof (cases p)
    case (SeekStart offset)
    then have "found = Some offset" "int start + target = int (unat offset)" by (simp_all add: found_def target_def)
    then show ?thesis by (metis int_int_eq option.inject word_unat_eq_iff)
  next
    case (SeekCurrent delta)
    have "start + pos < 2 ^ 64" using w(2,3) by simp
    then show ?thesis
      by (simp add: found_def target_def SeekCurrent w(4) checked_add_signed_iff del: of_nat_add) (simp add: add.assoc)
  next
    case (SeekEnd delta)
    then show ?thesis using unats
      by (simp add: found_def target_def w(4) checked_add_signed_iff del: of_nat_add) (simp add: add.assoc)
  qed
  show ?thesis
  proof (cases "0 \<le> target \<and> target \<le> int sz")
    case True
    let ?t = "start + nat target"
    have t: "?t < 2 ^ 64" "start \<le> ?t" "?t \<le> start + sz" using True w(2) nat_le_iff [of target sz] by auto
    have "found = Some (of_nat ?t)" unfolding found_iff unat_of_nat_u64 [OF t(1)] using True by simp
    then have "window_seek p w = Ok (of_nat ?t, w\<lparr>cw_source := fcur data ?t, cw_position := of_nat ?t\<rparr>)"
      unfolding window_seek_def found_def [symmetric] using t unats
      by (simp add: w(4) word_le_nat_alt section_seek_def fcur_def del: of_nat_add)
    then show ?thesis unfolding step using True t w by (simp add: window_shows_def del: of_nat_add)
  next
    case False
    have "\<exists>e. window_seek p w = Err e"
    proof (cases found)
      case None
      then show ?thesis unfolding window_seek_def found_def [symmetric] by simp
    next
      case (Some t)
      then have "int (unat t) = int start + target" by (simp add: found_iff)
      then have "\<not> (cw_start w \<le> t \<and> t \<le> cw_end w)" unfolding w(4) word_le_nat_alt chunk_window.simps unats using False by linarith
      then show ?thesis unfolding window_seek_def found_def [symmetric] Some by simp
    qed
    then show ?thesis unfolding step if_not_P [OF False] by simp
  qed
qed

lemma window_step_shows:
  assumes "window_shows data start sz pos w" "chunk_step start (bslice data start sz) op pos = (a, pos')"
  shows "\<exists>w'. window_step op w = (a, w') \<and> window_shows data start sz pos' w'"
proof (cases op)
  case (OpRead n)
  from window_read_shows [OF assms(1) refl, of n] show ?thesis
    using assms(2) by (auto simp: OpRead window_step_def chunk_step_def Let_def)
next
  case (OpSeek p)
  have a: "(\<exists>t. a = Position t) \<or> a = Refused"
    using assms(2) by (auto simp: OpSeek chunk_step_def Let_def split: if_splits)
  from window_seek_shows [OF assms(1), of p] show ?thesis
    using a assms by (auto simp: OpSeek window_step_def)
qed

text \<open>C34: Through the window a decoder sees the chunk and nothing else. Once the range of a chunk that
  lies in the file is set, any sequence of reads and seeks gets exactly the answers that the bytes of
  the chunk alone would give: reads end with the chunk and seeks out of it are refused.\<close>

theorem window_refines_chunk:
  assumes "cw_source w = fcur data p" "unat start + unat byte_size \<le> length data"
    and "set_range start byte_size w = Ok w'"
  shows "fst (window_run ops w') =
    fst (chunk_run (unat start) (bslice data (unat start) (unat byte_size)) ops 0)"
proof -
  have "fst (window_run ops v) = fst (chunk_run (unat start) (bslice data (unat start) (unat byte_size)) ops pos)"
    if "window_shows data (unat start) (unat byte_size) pos v" for pos v
    using that
  proof (induction ops arbitrary: pos v)
    case (Cons op ops)
    obtain a pos' where step: "chunk_step (unat start) (bslice data (unat start) (unat byte_size)) op pos = (a, pos')"
      by (cases "chunk_step (unat start) (bslice data (unat start) (unat byte_size)) op pos")
    from window_step_shows [OF Cons.prems step] obtain v' where
      "window_step op v = (a, v')" "window_shows data (unat start) (unat byte_size) pos' v'" by blast
    then show ?case using Cons.IH [of pos' v'] step by (simp add: case_prod_beta)
  qed simp
  then show ?thesis using set_range_shows [OF assms] by blast
qed

theorem window_refines_chunk_witness:
  "\<exists>w'. set_range 2 3 (window_new (fcur [10, 11, 12, 13, 14, 15] 0)) = Ok w' \<and>
     fst (window_run [OpRead 2, OpSeek (SeekCurrent (- 1)), OpRead 9, OpSeek (SeekStart 6)] w') =
       [Bytes [12, 13], Position 3, Bytes [13, 14], Refused]"
proof -
  let ?w = "window_new (fcur [10, 11, 12, 13, 14, 15] 0)"
  have "\<exists>w'. set_range 2 3 ?w = Ok w'" by (simp add: set_range_def checked_add_def)
  then obtain w' where w': "set_range 2 3 ?w = Ok w'" ..
  have "cw_source ?w = fcur [10, 11, 12, 13, 14, 15] 0" by (simp add: window_new_def)
  from window_refines_chunk [OF this _ w', of "[OpRead 2, OpSeek (SeekCurrent (- 1)), OpRead 9, OpSeek (SeekStart 6)]"]
  show ?thesis using w' by (simp add: bslice_def chunk_step_def Let_def)
qed

end
