(* ===== verification/Point_Iter.thy ===== *)
theory Point_Iter
  imports Chunk_Window Column_Read
begin

text \<open>
  \<^verbatim>\<open>PointIter\<close>, \<^verbatim>\<open>QuerySetup\<close> and \<^verbatim>\<open>ChunkLazDecoder\<close> of \<^verbatim>\<open>copc-reader/src/points.rs\<close>: the points of a query,
  one at a time. The operations change the iterator also when they fail, so each returns its result
  and the new iterator. The loops end because every round uses up a candidate point.
\<close>

record ('laz, 'd) chunk_laz_decoder =
  cl_laz_vlr :: 'laz
  cl_decompressor :: 'd
  cl_window :: chunk_window
  cl_record_size :: nat

definition chunk_laz_decoder_new ::
  "('laz, 'd, chunk_window) laz_decoder \<Rightarrow> bsection \<Rightarrow> 'laz \<Rightarrow> ('laz, 'd) chunk_laz_decoder result" where
  "chunk_laz_decoder_new dz source laz_vlr =
     bind_res (configure_layered_decompressor dz laz_vlr (dz_new dz)) (\<lambda>(record_size, d).
     Ok \<lparr>cl_laz_vlr = laz_vlr, cl_decompressor = d, cl_window = window_new source, cl_record_size = record_size\<rparr>)"

definition seek_to_chunk ::
  "('laz, 'd, chunk_window) laz_decoder \<Rightarrow> u64 \<Rightarrow> u64 \<Rightarrow> ('laz, 'd) chunk_laz_decoder \<Rightarrow> ('laz, 'd) chunk_laz_decoder result" where
  "seek_to_chunk dz off byte_size cl =
     bind_res (set_range off byte_size (cl_window cl)) (\<lambda>w.
     bind_res (configure_layered_decompressor dz (cl_laz_vlr cl) (dz_reset dz (cl_decompressor cl))) (\<lambda>(record_size, d).
     Ok (cl\<lparr>cl_window := w, cl_decompressor := d, cl_record_size := record_size\<rparr>)))"

definition decompress_one ::
  "('laz, 'd, chunk_window) laz_decoder \<Rightarrow> nat \<Rightarrow> ('laz, 'd) chunk_laz_decoder \<Rightarrow> (u8 list \<times> ('laz, 'd) chunk_laz_decoder) result" where
  "decompress_one dz n cl =
     bind_res (next_record dz n (cl_decompressor cl) (cl_window cl)) (\<lambda>(buf, d, w).
     Ok (buf, cl\<lparr>cl_decompressor := d, cl_window := w\<rparr>))"

text \<open>
  The functions of the \<^verbatim>\<open>las\<close> and \<^verbatim>\<open>laz\<close> crates the iterator calls: \<^verbatim>\<open>raw::Point::read_from\<close>, the
  integer coordinates of a raw point, \<^verbatim>\<open>Point::new\<close>, \<^verbatim>\<open>Transform::direct\<close> and the decompressor.
\<close>

record ('laz, 'd, 'r, 'raw, 'p) iter_ops =
  io_log2 :: "f64 \<Rightarrow> f64"
  io_format_new :: "u8 \<Rightarrow> string + las_format"
  io_format_len :: "las_format \<Rightarrow> u16"
  io_direct :: "las_transform \<Rightarrow> i32 \<Rightarrow> f64"
  io_decoder :: "('laz, 'd, 'r) laz_decoder"
  io_raw_read :: "u8 list \<Rightarrow> las_format \<Rightarrow> string + 'raw"
  io_raw_xyz :: "'raw \<Rightarrow> i32 \<times> i32 \<times> i32"
  io_point :: "'raw \<Rightarrow> las_transforms \<Rightarrow> 'p"

record ('laz, 'd) query_setup =
  qs_chunks :: "entry list"
  qs_point_format :: las_format
  qs_transforms :: las_transforms
  qs_bounds :: "bounds option"
  qs_decoder :: "('laz, 'd) chunk_laz_decoder"
  qs_record_size :: nat

definition query_setup_new ::
  "('laz, 'd, chunk_window, 'raw, 'p) iter_ops \<Rightarrow> bsection \<Rightarrow> 'laz copc_file \<Rightarrow> point_query \<Rightarrow> ('laz, 'd) query_setup result" where
  "query_setup_new ops source f q =
     bind_res (select_point_chunks (io_log2 ops) f q) (\<lambda>chunks.
     bind_res (point_format_for (io_format_new ops) (io_format_len ops) (cf_header f)) (\<lambda>point_format.
     let transforms = transforms_for (cf_header f);
         b = (case pq_bounds q of Bounds_All \<Rightarrow> None | Bounds_Within b \<Rightarrow> Some b) in
     bind_res (chunk_laz_decoder_new (io_decoder ops) source (cf_laszip_vlr f)) (\<lambda>decoder.
     let record_size = unat (io_format_len ops point_format) in
     if cl_record_size decoder \<noteq> record_size
     then Err (InvalidData ''LASzip item size is {} bytes, but LAS point record length is {} bytes'')
     else Ok \<lparr>qs_chunks = chunks, qs_point_format = point_format, qs_transforms = transforms, qs_bounds = b,
              qs_decoder = decoder, qs_record_size = record_size\<rparr>)))"

record ('laz, 'd) point_iter =
  pi_chunks :: "entry list"
  pi_next_chunk :: nat
  pi_current_chunk_points_left :: nat
  pi_remaining_candidate_points :: nat
  pi_exact_size :: bool
  pi_point_format :: las_format
  pi_transforms :: las_transforms
  pi_bounds :: "bounds option"
  pi_decoder :: "('laz, 'd) chunk_laz_decoder"
  pi_point_buf :: "u8 list"
  pi_decoded_points :: nat
  pi_cancel :: "cancel option"
  pi_polls :: nat \<comment> \<open>cancellation polls so far\<close>
  pi_finished :: bool

definition point_iter_new ::
  "('laz, 'd, chunk_window, 'raw, 'p) iter_ops \<Rightarrow> bsection \<Rightarrow> 'laz copc_file \<Rightarrow> point_query \<Rightarrow> cancel option \<Rightarrow> ('laz, 'd) point_iter result" where
  "point_iter_new ops source f q cancel =
     bind_res (query_setup_new ops source f q) (\<lambda>s.
     bind_res (total_candidate_points (qs_chunks s)) (\<lambda>remaining.
     Ok \<lparr>pi_chunks = qs_chunks s, pi_next_chunk = 0, pi_current_chunk_points_left = 0,
         pi_remaining_candidate_points = remaining, pi_exact_size = (qs_bounds s = None),
         pi_point_format = qs_point_format s, pi_transforms = qs_transforms s, pi_bounds = qs_bounds s,
         pi_decoder = qs_decoder s, pi_point_buf = replicate (qs_record_size s) 0, pi_decoded_points = 0,
         pi_cancel = cancel, pi_polls = 0, pi_finished = False\<rparr>))"

section \<open>The loops\<close>

function load_next_chunk ::
  "('laz, 'd, chunk_window) laz_decoder \<Rightarrow> ('laz, 'd) point_iter \<Rightarrow> bool result \<times> ('laz, 'd) point_iter" where
  "load_next_chunk dz it =
     (if \<not> pi_next_chunk it < length (pi_chunks it) then (Ok False, it)
      else
        let e = pi_chunks it ! pi_next_chunk it;
            it = it\<lparr>pi_next_chunk := pi_next_chunk it + 1\<rparr> in
        if sint (e_point_count e) \<le> 0 then load_next_chunk dz it
        else if sint (e_byte_size e) < 0 then (Err (InvalidData ''negative byte size {} for {:?}''), it)
        else case seek_to_chunk dz (e_offset e) (word_of_int (sint (e_byte_size e))) (pi_decoder it) of
            Inl err \<Rightarrow> (Err err, it)
          | Inr decoder \<Rightarrow>
              (Ok True, it\<lparr>pi_decoder := decoder, pi_current_chunk_points_left := nat (sint (e_point_count e))\<rparr>))"
  by pat_completeness auto
termination by (relation "measure (\<lambda>(_, it). length (pi_chunks it) - pi_next_chunk it)") auto

declare load_next_chunk.simps [simp del]

text \<open>Points that are still to be decoded: the rest of the current chunk and the chunks to come.\<close>

definition candidates :: "('laz, 'd) point_iter \<Rightarrow> nat" where
  "candidates it = pi_current_chunk_points_left it +
     sum_list (map (\<lambda>e. nat (sint (e_point_count e))) (drop (pi_next_chunk it) (pi_chunks it)))"

text \<open>What looking for the next chunk leaves as it was, and what it establishes.\<close>

definition same_counts :: "('laz, 'd) point_iter \<Rightarrow> ('laz, 'd) point_iter \<Rightarrow> bool" where
  "same_counts it it' \<longleftrightarrow>
     pi_remaining_candidate_points it' = pi_remaining_candidate_points it \<and> pi_finished it' = pi_finished it \<and>
     pi_exact_size it' = pi_exact_size it \<and> pi_bounds it' = pi_bounds it"

definition loaded :: "('laz, 'd) point_iter \<Rightarrow> bool result \<Rightarrow> ('laz, 'd) point_iter \<Rightarrow> bool" where
  "loaded it r it' \<longleftrightarrow> same_counts it it' \<and> candidates it' \<le> candidates it \<and>
     (\<forall>found. r = Inr found \<longrightarrow> candidates it' = candidates it) \<and>
     (\<forall>e. r = Inl e \<longrightarrow> 0 < candidates it) \<and>
     (r = Inr True \<longrightarrow> 0 < pi_current_chunk_points_left it') \<and> (r = Inr False \<longrightarrow> candidates it' = 0)"

lemma load_next_chunk_spec:
  assumes "load_next_chunk dz it = (r, it')" "pi_current_chunk_points_left it = 0"
  shows "loaded it r it'"
  using assms
proof (induction dz it rule: load_next_chunk.induct)
  case (1 dz it)
  show ?case
  proof (cases "pi_next_chunk it < length (pi_chunks it)")
    case False
    then show ?thesis using 1(2,3) by (auto simp: load_next_chunk.simps [of dz it] candidates_def loaded_def same_counts_def)
  next
    case True
    define e where "e = pi_chunks it ! pi_next_chunk it"
    define it1 where "it1 = it\<lparr>pi_next_chunk := pi_next_chunk it + 1\<rparr>"
    have drop: "drop (pi_next_chunk it) (pi_chunks it) = e # drop (pi_next_chunk it + 1) (pi_chunks it)"
      using True by (simp add: e_def Cons_nth_drop_Suc)
    have cand: "candidates it = nat (sint (e_point_count e)) + candidates it1"
      using 1(3) by (simp add: candidates_def it1_def drop)
    have left: "pi_current_chunk_points_left it1 = 0" using 1(3) by (simp add: it1_def)
    have unf: "load_next_chunk dz it =
        (if sint (e_point_count e) \<le> 0 then load_next_chunk dz it1
         else if sint (e_byte_size e) < 0 then (Err (InvalidData ''negative byte size {} for {:?}''), it1)
         else case seek_to_chunk dz (e_offset e) (word_of_int (sint (e_byte_size e))) (pi_decoder it1) of
            Inl err \<Rightarrow> (Err err, it1)
          | Inr decoder \<Rightarrow>
              (Ok True, it1\<lparr>pi_decoder := decoder, pi_current_chunk_points_left := nat (sint (e_point_count e))\<rparr>))"
      unfolding load_next_chunk.simps [of dz it] Let_def e_def it1_def using True by (simp only: simp_thms if_False)
    show ?thesis
    proof (cases "sint (e_point_count e) \<le> 0")
      case neg: True
      then have "load_next_chunk dz it1 = (r, it')" using 1(2) unfolding unf by simp
      note ih = 1(1) [OF _ refl refl, folded e_def, folded it1_def, OF _ neg this left]
      have "candidates it1 = candidates it" "same_counts it it1"
        using cand neg by (simp_all add: it1_def same_counts_def)
      then show ?thesis using ih True by (simp add: loaded_def same_counts_def)
    next
      case False
      then show ?thesis using 1(2,3) cand unfolding unf
        by (auto simp: it1_def candidates_def loaded_def same_counts_def split: if_splits sum.splits)
    qed
  qed
qed

lemma load_next_chunk_found:
  "(Inr True, it') = load_next_chunk dz it \<Longrightarrow> pi_current_chunk_points_left it = 0 \<Longrightarrow>
    0 < pi_current_chunk_points_left it'"
  using load_next_chunk_spec [of dz it "Inr True" it'] by (simp add: loaded_def)

text \<open>\<^verbatim>\<open>while self.current_chunk_points_left == 0 { if !self.load_next_chunk()? { return Ok(None); } }\<close>: whether a point is left.\<close>

function refill ::
  "('laz, 'd, chunk_window) laz_decoder \<Rightarrow> ('laz, 'd) point_iter \<Rightarrow> bool result \<times> ('laz, 'd) point_iter" where
  "refill dz it =
     (if pi_current_chunk_points_left it \<noteq> 0 then (Ok True, it)
      else case load_next_chunk dz it of
          (Inl e, it') \<Rightarrow> (Err e, it')
        | (Inr False, it') \<Rightarrow> (Ok False, it')
        | (Inr True, it') \<Rightarrow> refill dz it')"
  by pat_completeness auto
termination
  by (relation "measure (\<lambda>(_, it). if pi_current_chunk_points_left it = 0 then 1 else 0)")
    (auto dest: load_next_chunk_found)

declare refill.simps [simp del]

lemma refill_spec:
  assumes "refill dz it = (r, it')"
  shows "loaded it r it'"
proof (cases "pi_current_chunk_points_left it = 0")
  case False
  then show ?thesis using assms by (auto simp: refill.simps [of dz it] loaded_def same_counts_def)
next
  case True
  obtain q it1 where l: "load_next_chunk dz it = (q, it1)" by (cases "load_next_chunk dz it")
  note spec = load_next_chunk_spec [OF l True]
  show ?thesis
  proof (cases "q = Inr True")
    case found: True
    then have "refill dz it1 = (Ok True, it1)" using spec by (simp add: refill.simps [of dz it1] loaded_def)
    then have "r = Ok True \<and> it' = it1" using assms found l True by (simp add: refill.simps [of dz it])
    then show ?thesis using spec found by simp
  next
    case False
    then have "r = q \<and> it' = it1" using assms l True
      by (cases q) (auto simp: refill.simps [of dz it] split: bool.splits if_splits)
    then show ?thesis using spec by simp
  qed
qed

text \<open>The check of the cancellation flag before every 4096th decoded point.\<close>

definition iter_poll :: "('laz, 'd) point_iter \<Rightarrow> ('laz, 'd) point_iter result" where
  "iter_poll it =
     (if CANCEL_POLL_STRIDE_READER dvd pi_decoded_points it
      then bind_res (opt_check (pi_cancel it) (pi_polls it)) (\<lambda>polls. Ok (it\<lparr>pi_polls := polls\<rparr>))
      else Ok it)"

text \<open>Decompressing a point into the buffer.\<close>

definition take_point ::
  "('laz, 'd, chunk_window) laz_decoder \<Rightarrow> ('laz, 'd) point_iter \<Rightarrow> ('laz, 'd) point_iter result" where
  "take_point dz it =
     bind_res (decompress_one dz (length (pi_point_buf it)) (pi_decoder it)) (\<lambda>(buf, decoder).
     Ok (it\<lparr>pi_decoder := decoder, pi_point_buf := buf,
            pi_current_chunk_points_left := pi_current_chunk_points_left it - 1,
            pi_remaining_candidate_points := pi_remaining_candidate_points it - 1,
            pi_decoded_points := pi_decoded_points it + 1\<rparr>))"

lemma take_point_spec:
  assumes "take_point dz it = Ok it'" "0 < pi_current_chunk_points_left it"
  shows "candidates it = Suc (candidates it') \<and>
    pi_remaining_candidate_points it' = pi_remaining_candidate_points it - 1 \<and> pi_finished it' = pi_finished it \<and>
    pi_exact_size it' = pi_exact_size it \<and> pi_bounds it' = pi_bounds it"
  using assms by (auto simp: take_point_def bind_res_Ok_iff candidates_def)

lemma iter_poll_spec:
  assumes "iter_poll it = Ok it'"
  shows "\<exists>polls. it' = it\<lparr>pi_polls := polls\<rparr>"
proof -
  have "it' = it'\<lparr>pi_polls := pi_polls it'\<rparr>" by simp
  then have same: "\<exists>polls. it' = it'\<lparr>pi_polls := polls\<rparr>" by (rule exI)
  show ?thesis
  proof (cases "CANCEL_POLL_STRIDE_READER dvd pi_decoded_points it")
    case True
    then show ?thesis using assms by (auto simp: iter_poll_def bind_res_Ok_iff)
  next
    case False
    then show ?thesis using assms same by (simp add: iter_poll_def)
  qed
qed

text \<open>One round uses up one candidate.\<close>

lemma round_spec:
  assumes "(Inr True, it1) = refill dz it" "iter_poll it1 = Inr it2" "take_point dz it2 = Inr it3"
  shows "candidates it = Suc (candidates it3) \<and>
    pi_remaining_candidate_points it3 = pi_remaining_candidate_points it - 1 \<and> pi_finished it3 = pi_finished it \<and>
    pi_exact_size it3 = pi_exact_size it \<and> pi_bounds it3 = pi_bounds it"
proof -
  note r = refill_spec [OF assms(1) [symmetric], unfolded loaded_def same_counts_def]
  obtain polls where it2: "it2 = it1\<lparr>pi_polls := polls\<rparr>" using iter_poll_spec [OF assms(2)] by blast
  then have "candidates it2 = candidates it1" by (simp add: candidates_def)
  then show ?thesis using r take_point_spec [OF assms(3)] it2 by simp
qed

function next_inner ::
  "('laz, 'd, chunk_window, 'raw, 'p) iter_ops \<Rightarrow> ('laz, 'd) point_iter \<Rightarrow> 'p option result \<times> ('laz, 'd) point_iter" where
  "next_inner ops it =
     (case refill (io_decoder ops) it of
        (Inl e, it1) \<Rightarrow> (Err e, it1)
      | (Inr False, it1) \<Rightarrow> (Ok None, it1)
      | (Inr True, it1) \<Rightarrow>
          (case iter_poll it1 of
             Inl e \<Rightarrow> (Err e, it1)
           | Inr it2 \<Rightarrow>
               (case take_point (io_decoder ops) it2 of
                  Inl e \<Rightarrow> (Err e, it2)
                | Inr it3 \<Rightarrow>
                    (case io_raw_read ops (pi_point_buf it3) (pi_point_format it3) of
                       Inl e \<Rightarrow> (Err (Las e), it3)
                     | Inr raw \<Rightarrow>
                         (case io_raw_xyz ops raw of
                            (x, y, z) \<Rightarrow>
                              if outside (pi_bounds it3) (direct_xyz (io_direct ops) (pi_transforms it3) x y z)
                              then next_inner ops it3
                              else (Ok (Some (io_point ops raw (pi_transforms it3))), it3))))))"
  by pat_completeness auto
termination
  by (relation "measure (\<lambda>(_, it). candidates it)") (auto dest: round_spec)

declare next_inner.simps [simp del]

text \<open>\<^verbatim>\<open>Iterator::next\<close> and \<^verbatim>\<open>Iterator::size_hint\<close>.\<close>

definition iter_next ::
  "('laz, 'd, chunk_window, 'raw, 'p) iter_ops \<Rightarrow> ('laz, 'd) point_iter \<Rightarrow> 'p result option \<times> ('laz, 'd) point_iter" where
  "iter_next ops it =
     (if pi_finished it then (None, it)
      else case next_inner ops it of
          (Inr (Some p), it) \<Rightarrow> (Some (Ok p), it)
        | (Inr None, it) \<Rightarrow> (None, it\<lparr>pi_finished := True\<rparr>)
        | (Inl e, it) \<Rightarrow> (Some (Err e), it\<lparr>pi_finished := True\<rparr>))"

definition size_hint :: "('laz, 'd) point_iter \<Rightarrow> nat \<times> nat option" where
  "size_hint it =
     (if pi_exact_size it then (pi_remaining_candidate_points it, Some (pi_remaining_candidate_points it))
      else (0, Some (pi_remaining_candidate_points it)))"

section \<open>Running the iterator\<close>

text \<open>What a search for the next point does to the counts.\<close>

definition advanced :: "('laz, 'd) point_iter \<Rightarrow> 'p option result \<Rightarrow> ('laz, 'd) point_iter \<Rightarrow> bool" where
  "advanced it r it' \<longleftrightarrow>
     pi_finished it' = pi_finished it \<and> pi_exact_size it' = pi_exact_size it \<and> pi_bounds it' = pi_bounds it \<and>
     (\<forall>e. r = Inl e \<longrightarrow> 0 < candidates it) \<and>
     (\<forall>q. r = Inr q \<longrightarrow> pi_remaining_candidate_points it' = candidates it') \<and>
     (r = Inr None \<longrightarrow> candidates it' = 0 \<and> (pi_bounds it = None \<longrightarrow> candidates it = 0)) \<and>
     (\<forall>p. r = Inr (Some p) \<longrightarrow> candidates it' < candidates it \<and> (pi_bounds it = None \<longrightarrow> candidates it = Suc (candidates it')))"

lemma next_inner_spec:
  assumes "pi_remaining_candidate_points it = candidates it" "next_inner ops it = (r, it')"
  shows "advanced it r it'"
  using assms
proof (induction ops it rule: next_inner.induct)
  case (1 ops it)
  obtain q it1 where rf: "refill (io_decoder ops) it = (q, it1)" by (cases "refill (io_decoder ops) it")
  note l = refill_spec [OF rf, unfolded loaded_def same_counts_def]
  show ?case
  proof (cases "q = Inr True")
    case False
    then have "r = (case q of Inl e \<Rightarrow> Inl e | Inr _ \<Rightarrow> Inr None) \<and> it' = it1"
      using 1(3) rf by (auto simp: next_inner.simps [of ops it] split: sum.splits bool.splits)
    then show ?thesis using l 1(2) False by (cases q) (auto simp: advanced_def)
  next
    case found: True
    have "0 < candidates it1" using l found by (simp add: candidates_def)
    then have cand: "0 < candidates it" using l by simp
    show ?thesis
    proof (cases "iter_poll it1")
      case (Inl e)
      then have "r = Inl e \<and> it' = it1" using 1(3) rf found by (simp add: next_inner.simps [of ops it])
      then show ?thesis using l cand by (auto simp: advanced_def)
    next
      case it2: (Inr it2)
      obtain polls where p: "it2 = it1\<lparr>pi_polls := polls\<rparr>" using iter_poll_spec [OF it2] by blast
      show ?thesis
      proof (cases "take_point (io_decoder ops) it2")
        case (Inl e)
        then have "r = Inl e \<and> it' = it2" using 1(3) rf found it2 by (simp add: next_inner.simps [of ops it])
        then show ?thesis using l cand p by (auto simp: advanced_def)
      next
        case it3: (Inr it3)
        note rd = round_spec [OF _ it2 it3, of it, unfolded rf found, OF refl]
        have inv3: "pi_remaining_candidate_points it3 = candidates it3" using rd 1(2) by simp
        show ?thesis
        proof (cases "io_raw_read ops (pi_point_buf it3) (pi_point_format it3)")
          case (Inl e)
          then have "r = Inl (Las e) \<and> it' = it3" using 1(3) rf found it2 it3 by (simp add: next_inner.simps [of ops it])
          then show ?thesis using rd cand by (auto simp: advanced_def)
        next
          case raw: (Inr raw)
          obtain x y z where xyz: "io_raw_xyz ops raw = (x, y, z)" by (cases "io_raw_xyz ops raw")
          show ?thesis
          proof (cases "outside (pi_bounds it3) (direct_xyz (io_direct ops) (pi_transforms it3) x y z)")
            case True
            then have rec: "next_inner ops it3 = (r, it')"
              using 1(3) rf found it2 it3 raw xyz by (simp add: next_inner.simps [of ops it])
            have "advanced it3 r it'"
              by (rule 1(1) [OF rf [symmetric] found refl it2 it3 raw xyz [symmetric] refl True inv3 rec])
            moreover have "pi_bounds it3 \<noteq> None" using True by (cases "pi_bounds it3") (auto simp: outside_def)
            ultimately show ?thesis using rd by (auto simp: advanced_def)
          next
            case False
            then have "r = Inr (Some (io_point ops raw (pi_transforms it3))) \<and> it' = it3"
              using 1(3) rf found it2 it3 raw xyz by (auto simp: next_inner.simps [of ops it])
            then show ?thesis using rd inv3 by (auto simp: advanced_def)
          qed
        qed
      qed
    qed
  qed
qed

text \<open>\<open>counted\<close>: the bookkeeping of an iterator that has not failed.\<close>

definition counted :: "('laz, 'd) point_iter \<Rightarrow> bool" where
  "counted it \<longleftrightarrow> pi_remaining_candidate_points it = candidates it \<and> (pi_finished it \<longrightarrow> candidates it = 0)"

lemma iter_next_spec:
  assumes "counted it" "iter_next ops it = (r, it')"
  shows "pi_exact_size it' = pi_exact_size it" "pi_bounds it' = pi_bounds it"
    and "r = None \<Longrightarrow> counted it' \<and> pi_finished it' \<and> candidates it' = 0 \<and> (pi_bounds it = None \<longrightarrow> candidates it = 0)"
    and "r = Some (Inr p) \<Longrightarrow> counted it' \<and> \<not> pi_finished it \<and> candidates it' < candidates it \<and>
      (pi_bounds it = None \<longrightarrow> candidates it = Suc (candidates it'))"
    and "r = Some (Inl e) \<Longrightarrow> pi_finished it' \<and> 0 < candidates it"
proof -
  obtain q it1 where n: "next_inner ops it = (q, it1)" by (cases "next_inner ops it")
  have adv: "advanced it q it1" if "\<not> pi_finished it" using assms(1) n by (intro next_inner_spec) (simp_all add: counted_def)
  have cand: "candidates (it1\<lparr>pi_finished := True\<rparr>) = candidates it1" by (simp add: candidates_def)
  show "pi_exact_size it' = pi_exact_size it" "pi_bounds it' = pi_bounds it"
    using assms n adv by (auto simp: iter_next_def advanced_def split: if_splits sum.splits option.splits)
  show "r = None \<Longrightarrow> counted it' \<and> pi_finished it' \<and> candidates it' = 0 \<and> (pi_bounds it = None \<longrightarrow> candidates it = 0)"
    using assms n adv cand
    by (auto simp: iter_next_def advanced_def counted_def split: if_splits sum.splits option.splits)
  show "r = Some (Inr p) \<Longrightarrow> counted it' \<and> \<not> pi_finished it \<and> candidates it' < candidates it \<and>
      (pi_bounds it = None \<longrightarrow> candidates it = Suc (candidates it'))"
    using assms n adv
    by (auto simp: iter_next_def advanced_def counted_def split: if_splits sum.splits option.splits)
  show "r = Some (Inl e) \<Longrightarrow> pi_finished it' \<and> 0 < candidates it"
    using assms n adv
    by (auto simp: iter_next_def advanced_def split: if_splits sum.splits option.splits)
qed

text \<open>The results of the first \<open>k\<close> calls, and of all calls until the first \<^verbatim>\<open>None\<close>.\<close>

fun iter_calls ::
  "('laz, 'd, chunk_window, 'raw, 'p) iter_ops \<Rightarrow> nat \<Rightarrow> ('laz, 'd) point_iter \<Rightarrow> 'p result option list \<times> ('laz, 'd) point_iter" where
  "iter_calls ops 0 it = ([], it)"
| "iter_calls ops (Suc k) it =
     (let (r, it) = iter_next ops it; (rs, it) = iter_calls ops k it in (r # rs, it))"

text \<open>A bounded run: at most \<open>fuel\<close> results, \<open>None\<close> if more would follow.\<close>

fun drain ::
  "nat \<Rightarrow> ('laz, 'd, chunk_window, 'raw, 'p) iter_ops \<Rightarrow> ('laz, 'd) point_iter \<Rightarrow> ('p list \<times> copc_error option) option" where
  "drain fuel ops it =
     (case iter_next ops it of
        (None, _) \<Rightarrow> Some ([], None)
      | (Some (Inl e), _) \<Rightarrow> Some ([], Some e)
      | (Some (Inr p), it) \<Rightarrow>
          (case fuel of 0 \<Rightarrow> None
           | Suc fuel \<Rightarrow> map_option (\<lambda>(ps, e). (p # ps, e)) (drain fuel ops it)))"

declare drain.simps [simp del]

definition error_count :: "copc_error option \<Rightarrow> nat" where
  "error_count e = (case e of None \<Rightarrow> 0 | Some _ \<Rightarrow> 1)"

text \<open>The candidates are enough fuel; points and a possible error are within the candidates.\<close>

lemma drain_spec:
  assumes "counted it" "candidates it \<le> fuel"
  shows "\<exists>ps e. drain fuel ops it = Some (ps, e) \<and> length ps + error_count e \<le> candidates it \<and>
    (pi_bounds it = None \<and> e = None \<longrightarrow> length ps = candidates it)"
  using assms
proof (induction fuel arbitrary: it)
  case 0
  obtain r it' where n: "iter_next ops it = (r, it')" by (cases "iter_next ops it")
  note sp = iter_next_spec [OF 0(1) n]
  have "r = None"
  proof (cases r)
    case (Some q)
    then show ?thesis using sp(4) [of "projr q"] sp(5) [of "projl q"] 0(2) by (cases q) auto
  qed
  then show ?case using n 0(2) by (simp add: drain.simps error_count_def)
next
  case (Suc fuel)
  obtain r it' where n: "iter_next ops it = (r, it')" by (cases "iter_next ops it")
  note sp = iter_next_spec [OF Suc(2) n]
  consider "r = None" | e where "r = Some (Inl e)" | p where "r = Some (Inr p)"
    by (metis option.exhaust sum.exhaust)
  then show ?case
  proof cases
    case 1
    then show ?thesis using n sp(3) by (auto simp: drain.simps error_count_def)
  next
    case 2
    then show ?thesis using n sp(5) by (auto simp: drain.simps error_count_def)
  next
    case 3
    note p = sp(4) [OF 3]
    with Suc(3) have "candidates it' \<le> fuel" by simp
    from Suc.IH [OF _ this] p obtain ps e where ih: "drain fuel ops it' = Some (ps, e)"
        "length ps + error_count e \<le> candidates it'" "pi_bounds it' = None \<and> e = None \<longrightarrow> length ps = candidates it'"
      by blast
    have "drain (Suc fuel) ops it = Some (p # ps, e)" using n 3 ih(1) by (simp add: drain.simps [of "Suc fuel"])
    then show ?thesis using ih(2,3) p sp(2) by auto
  qed
qed

lemma finished_calls: "pi_finished it \<Longrightarrow> iter_calls ops k it = (replicate k None, it)"
  by (induction k) (simp_all add: iter_next_def)

lemma drain_more:
  assumes "drain fuel ops it = Some (ps, e)" "iter_next ops it = (Some (Inr p), it')"
  obtains fuel' ps' where "fuel = Suc fuel'" "drain fuel' ops it' = Some (ps', e)" "ps = p # ps'"
proof (cases fuel)
  case 0
  then show thesis using assms by (simp add: drain.simps [of 0])
next
  case (Suc fuel')
  then show thesis using assms that by (auto simp: drain.simps [of "Suc fuel'" ops it])
qed

lemma drain_end:
  assumes "drain fuel ops it = Some (ps, e)"
  shows "iter_next ops it = (None, it') \<Longrightarrow> ps = [] \<and> e = None"
    and "iter_next ops it = (Some (Inl err), it') \<Longrightarrow> ps = [] \<and> e = Some err"
  using assms by (simp_all add: drain.simps [of fuel])

lemma drain_fuel:
  "drain fuel ops it = Some (ps, e) \<Longrightarrow> drain fuel' ops it = Some (ps', e') \<Longrightarrow> ps = ps' \<and> e = e'"
proof (induction fuel arbitrary: fuel' it ps ps')
  case 0
  then show ?case
    by (metis drain_end drain_more nat.distinct(1) option.exhaust sum.exhaust surj_pair)
next
  case (Suc fuel)
  obtain r it' where n: "iter_next ops it = (r, it')" by (cases "iter_next ops it")
  consider "r = None" | err where "r = Some (Inl err)" | p where "r = Some (Inr p)"
    by (metis option.exhaust sum.exhaust)
  then show ?case
  proof cases
    case (3 p)
    with n have n: "iter_next ops it = (Some (Inr p), it')" by simp
    obtain ps1 where 1: "drain fuel ops it' = Some (ps1, e)" "ps = p # ps1"
      using drain_more [OF Suc(2) n] by blast
    obtain f ps1' where "drain f ops it' = Some (ps1', e')" "ps' = p # ps1'"
      using drain_more [OF Suc(3) n] by blast
    then show ?thesis using Suc.IH [OF 1(1)] 1(2) by blast
  qed (use n drain_end [OF Suc(2)] drain_end [OF Suc(3)] in auto)
qed

lemma calls_of_drain:
  assumes "counted it" "drain fuel ops it = Some (ps, e)"
  shows "fst (iter_calls ops k it) = take k (map (Some \<circ> Ok) ps @ map (Some \<circ> Err) (case e of None \<Rightarrow> [] | Some e \<Rightarrow> [e]) @ replicate k None)"
  using assms
proof (induction k arbitrary: it fuel ps)
  case (Suc k)
  obtain r it' where n: "iter_next ops it = (r, it')" by (cases "iter_next ops it")
  note sp = iter_next_spec [OF Suc(2) n]
  consider "r = None" | err where "r = Some (Inl err)" | p where "r = Some (Inr p)"
    by (metis option.exhaust sum.exhaust)
  then show ?case
  proof cases
    case 1
    then have "ps = []" "e = None" using drain_end(1) [OF Suc(3)] n by auto
    then show ?thesis using 1 n sp(3) finished_calls [of it' ops k] by (simp add: case_prod_beta)
  next
    case 2
    then have "ps = []" "e = Some err" using drain_end(2) [OF Suc(3)] n by auto
    then show ?thesis using 2 n sp(5) finished_calls [of it' ops k]
      by (simp add: case_prod_beta take_replicate del: replicate_Suc)
  next
    case 3
    with n have n': "iter_next ops it = (Some (Inr p), it')" by simp
    from drain_more [OF Suc(3) n'] obtain fuel' ps' where "drain fuel' ops it' = Some (ps', e)" "ps = p # ps'" .
    then show ?thesis using Suc.IH [of it' fuel' ps'] sp(4) [OF 3] n'
      by (auto simp: case_prod_beta take_replicate min_def simp del: replicate_Suc)
  qed
qed simp

lemma calls_keep_counts:
  assumes "counted it" "drain fuel ops it = Some (ps, e)" "k \<le> length ps"
  shows "\<exists>fuel'. counted (snd (iter_calls ops k it)) \<and> drain fuel' ops (snd (iter_calls ops k it)) = Some (drop k ps, e) \<and>
    pi_exact_size (snd (iter_calls ops k it)) = pi_exact_size it \<and> pi_bounds (snd (iter_calls ops k it)) = pi_bounds it"
  using assms
proof (induction k arbitrary: it fuel ps)
  case 0
  then show ?case by auto
next
  case (Suc k)
  obtain r it' where n: "iter_next ops it = (r, it')" by (cases "iter_next ops it")
  note sp = iter_next_spec [OF Suc(2) n]
  have "\<exists>p. r = Some (Inr p)"
    using drain_end [OF Suc(3)] n Suc(4) by (metis list.size(3) not_less_eq_eq le0 option.exhaust sum.exhaust)
  then obtain p where r: "r = Some (Inr p)" ..
  from drain_more [OF Suc(3)] n r obtain ps' fuel' where p: "r = Some (Inr p)" "ps = p # ps'" "drain fuel' ops it' = Some (ps', e)"
    by metis
  from Suc.IH [OF _ p(3)] sp(4) [OF p(1)] Suc(4) p(2) obtain fuel'' where
    "counted (snd (iter_calls ops k it'))" "drain fuel'' ops (snd (iter_calls ops k it')) = Some (drop k ps', e)"
    "pi_exact_size (snd (iter_calls ops k it')) = pi_exact_size it'" "pi_bounds (snd (iter_calls ops k it')) = pi_bounds it'"
    by auto
  then show ?case using n p(2) sp(1,2) by (auto simp: case_prod_beta)
qed

lemma total_candidate_points_sum:
  assumes "total_candidate_points es = Ok n"
  shows "n = sum_list (map (\<lambda>e. nat (sint (e_point_count e))) es)"
proof -
  define step :: "entry \<Rightarrow> nat \<Rightarrow> nat result" where "step = (\<lambda>e total.
       bind_res (ok_or (usize_try_from_i32 (e_point_count e)) (InvalidData ''negative point count {} for {:?}'')) (\<lambda>count.
       ok_or (checked_add_usize total count) (InvalidData ''selected point count overflows usize'')))"
  have step: "k = m + nat (sint (e_point_count e))" if "step e m = Ok k" for e m k
    using that by (auto simp: step_def bind_res_Ok_iff usize_try_from_i32_def checked_add_usize_def split: if_splits)
  have "n = m + sum_list (map (\<lambda>e. nat (sint (e_point_count e))) es)" if "fold_res step es m = Ok n" for m
    using that
  proof (induction es arbitrary: m)
    case (Cons e es)
    then obtain k where "step e m = Ok k" "fold_res step es k = Ok n" by (auto simp: bind_res_Ok_iff)
    then show ?case using step Cons.IH by fastforce
  qed simp
  from this [of 0] show ?thesis using assms unfolding total_candidate_points_def step_def by simp
qed

lemma point_iter_new_counted:
  assumes "point_iter_new ops source f q cancel = Ok it"
  shows "counted it" "\<not> pi_finished it" "pi_exact_size it = (pi_bounds it = None)"
    "pi_bounds it = selection_bounds (pq_bounds q)"
  using assms total_candidate_points_sum
  by (auto simp: point_iter_new_def query_setup_new_def bind_res_Ok_iff counted_def candidates_def Let_def
      selection_bounds_def split: if_splits bounds_selection.splits)

text \<open>C35: Iterating over the points of a query ends, and stays ended: whatever the decoder does, the calls
  of \<^verbatim>\<open>next\<close> return at most as many points as the selected chunks declare, then possibly one error, then
  \<^verbatim>\<open>None\<close> for ever.\<close>

theorem iterator_terminates:
  assumes "point_iter_new ops source f q cancel = Ok it"
  shows "\<exists>points errors. length points + length errors \<le> pi_remaining_candidate_points it \<and> length errors \<le> 1 \<and>
    (\<forall>k. fst (iter_calls ops k it) =
       take k (map (Some \<circ> Ok) points @ map (Some \<circ> Err) errors @ replicate k None))"
proof -
  note new = point_iter_new_counted [OF assms]
  then have cand: "candidates it = pi_remaining_candidate_points it" by (simp add: counted_def)
  from drain_spec [OF new(1) le_refl] obtain ps e where d: "drain (candidates it) ops it = Some (ps, e)"
    "length ps + error_count e \<le> candidates it" by blast
  let ?errors = "case e of None \<Rightarrow> [] | Some e \<Rightarrow> [e]"
  have "length ?errors = error_count e" "length ?errors \<le> 1" by (simp_all add: error_count_def split: option.split)
  then show ?thesis using d(2) calls_of_drain [OF new(1) d(1)] unfolding cand by metis
qed

text \<open>The sample file of one chunk with one record of zeros.\<close>

definition sample_iter_ops :: "(unit, unit, chunk_window, unit, nat) iter_ops" where
  "sample_iter_ops = \<lparr>io_log2 = ro_log2 sample_ops, io_format_new = ro_format_new sample_ops,
     io_format_len = ro_format_len sample_ops, io_direct = (\<lambda>_ _. 0),
     io_decoder = \<lparr>dz_new = (), dz_set_fields = (\<lambda>_ _. Inr ()), dz_record_size = (\<lambda>_. 30),
       dz_reset = (\<lambda>_. ()), dz_next = (\<lambda>_ _ r. Inr (\<lambda>_. 0, (), r))\<rparr>,
     io_raw_read = (\<lambda>_ _. Inr ()), io_raw_xyz = (\<lambda>_. (0, 0, 0)), io_point = (\<lambda>_ _. 7)\<rparr>"

definition sample_iter :: "(unit, unit) point_iter" where
  "sample_iter = \<lparr>pi_chunks = [sample_entry], pi_next_chunk = 0, pi_current_chunk_points_left = 0,
     pi_remaining_candidate_points = 1, pi_exact_size = True, pi_point_format = sample_las_format,
     pi_transforms = transforms_for (cf_header sample_file), pi_bounds = None,
     pi_decoder = \<lparr>cl_laz_vlr = (), cl_decompressor = (), cl_window = window_new (fcur [0] 0), cl_record_size = 30\<rparr>,
     pi_point_buf = replicate 30 0, pi_decoded_points = 0, pi_cancel = None, pi_polls = 0, pi_finished = False\<rparr>"

lemma sample_iter_new: "point_iter_new sample_iter_ops (fcur [0] 0) sample_file query_all None = Ok sample_iter"
proof -
  have sel: "select_point_chunks (io_log2 sample_iter_ops) sample_file query_all = Ok [sample_entry]"
    and fmt: "point_format_for (io_format_new sample_iter_ops) (io_format_len sample_iter_ops) (cf_header sample_file) =
      Ok sample_las_format"
    using sample_selects sample_point_format by (simp_all add: sample_iter_ops_def)
  have len: "io_format_len sample_iter_ops sample_las_format = 30"
    by (simp add: sample_iter_ops_def sample_ops_def sample_record_length)
  have total: "total_candidate_points [sample_entry] = Ok 1"
    by (simp add: total_candidate_points_def sample_entry_def usize_try_from_i32_def checked_add_usize_def usize_max_def)
  show ?thesis
    unfolding point_iter_new_def query_setup_new_def sel fmt bind_res_simps len
    using total
    by (simp add: chunk_laz_decoder_new_def configure_layered_decompressor_def sample_iter_ops_def sample_file_def
        query_all_def Let_def sample_iter_def)
qed

text \<open>C36: \<^verbatim>\<open>size_hint\<close> is right as long as no error is met: after any number \<open>k\<close> of points, the items still to
  come are within the upper bound, and when the iteration ends without an error they are at least the
  lower bound; without query bounds both bounds are their exact number.\<close>

theorem size_hint_bounds:
  assumes "point_iter_new ops source f q cancel = Ok it"
    and "drain (pi_remaining_candidate_points it) ops it = Some (points, e)" "k \<le> length points"
  shows "\<exists>lower upper. size_hint (snd (iter_calls ops k it)) = (lower, Some upper) \<and>
    length (drop k points) + error_count e \<le> upper \<and>
    (e = None \<longrightarrow> lower \<le> length (drop k points)) \<and>
    (e = None \<and> pq_bounds q = Bounds_All \<longrightarrow> lower = upper)"
proof -
  note new = point_iter_new_counted [OF assms(1)]
  let ?it = "snd (iter_calls ops k it)"
  from calls_keep_counts [OF new(1) assms(2,3)] obtain fuel where c: "counted ?it"
    "drain fuel ops ?it = Some (drop k points, e)" "pi_exact_size ?it = pi_exact_size it" "pi_bounds ?it = pi_bounds it"
    by blast
  have "drain (candidates ?it) ops ?it = Some (drop k points, e)"
    using c(1,2) drain_spec [OF c(1) le_refl, of ops] drain_fuel by metis
  then have "length (drop k points) + error_count e \<le> candidates ?it"
    "pi_bounds it = None \<and> e = None \<longrightarrow> length (drop k points) = candidates ?it"
    using drain_spec [OF c(1) le_refl, of ops] c(4) by auto
  moreover have "pi_remaining_candidate_points ?it = candidates ?it" using c(1) by (simp add: counted_def)
  ultimately show ?thesis using c(3) new(3,4) by (auto simp: size_hint_def selection_bounds_def)
qed

lemma sample_iter_drain: "drain 1 sample_iter_ops sample_iter = Some ([7], None)"
proof -
  let ?ops = sample_iter_ops
  let ?dz = "io_decoder sample_iter_ops"
  have seek: "\<exists>cl. seek_to_chunk ?dz (e_offset sample_entry) (word_of_int (sint (e_byte_size sample_entry))) (pi_decoder sample_iter) = Ok cl"
    by (simp add: seek_to_chunk_def set_range_def checked_add_def configure_layered_decompressor_def sample_iter_ops_def
        sample_entry_def Let_def)
  then obtain cl where seek: "seek_to_chunk ?dz (e_offset sample_entry) (word_of_int (sint (e_byte_size sample_entry)))
      (pi_decoder sample_iter) = Ok cl" ..
  define it1 where "it1 = sample_iter\<lparr>pi_next_chunk := 1, pi_decoder := cl, pi_current_chunk_points_left := 1\<rparr>"
  have start: "pi_chunks sample_iter = [sample_entry]" "pi_next_chunk sample_iter = 0" "pi_current_chunk_points_left sample_iter = 0"
      "sint (e_point_count sample_entry) = 1" "sint (e_byte_size sample_entry) = 1" "pi_finished sample_iter = False"
    by (simp_all add: sample_iter_def sample_entry_def)
  have load: "load_next_chunk ?dz sample_iter = (Inr True, it1)"
    using seek start by (subst load_next_chunk.simps) (simp add: it1_def)
  have it1: "pi_current_chunk_points_left it1 = 1" "pi_next_chunk it1 = 1" "pi_chunks it1 = [sample_entry]"
      "pi_bounds it1 = None" "pi_finished it1 = False" "pi_cancel it1 = None" "pi_decoded_points it1 = 0"
    by (simp_all add: it1_def sample_iter_def)
  have refill: "refill ?dz sample_iter = (Inr True, it1)"
    using start(3) load it1(1) by (simp add: refill.simps [of ?dz])
  have poll: "iter_poll it1 = Ok it1" by (simp add: iter_poll_def it1 opt_check_def)
  obtain it3 where take: "take_point ?dz it1 = Ok it3" "pi_current_chunk_points_left it3 = 0" "pi_next_chunk it3 = 1"
      "pi_chunks it3 = [sample_entry]" "pi_bounds it3 = None" "pi_finished it3 = False"
    using it1 by (simp add: take_point_def decompress_one_def next_record_def sample_iter_ops_def)
  have out: "outside None p = False" for p by (simp add: outside_def)
  have "next_inner ?ops sample_iter = (Inr (Some 7), it3)"
    using refill poll take(1,5) out by (simp add: next_inner.simps [of ?ops sample_iter]) (simp add: sample_iter_ops_def out)
  then have first: "iter_next ?ops sample_iter = (Some (Inr 7), it3)" using start(6) by (simp add: iter_next_def)
  have "refill ?dz it3 = (Inr False, it3)"
    using take by (simp add: refill.simps [of ?dz] load_next_chunk.simps [of ?dz])
  then have "next_inner ?ops it3 = (Inr None, it3)" by (simp add: next_inner.simps [of ?ops it3])
  then have "iter_next ?ops it3 = (None, it3\<lparr>pi_finished := True\<rparr>)" using take(6) by (simp add: iter_next_def)
  then show ?thesis using first by (simp add: drain.simps)
qed

theorem iterator_terminates_witness:
  "\<exists>points errors. length points + length errors \<le> 1 \<and>
    fst (iter_calls sample_iter_ops 3 sample_iter) =
      take 3 (map (Some \<circ> Ok) points @ map (Some \<circ> Err) errors @ replicate 3 None)"
  using iterator_terminates [OF sample_iter_new] by (auto simp: sample_iter_def)

theorem size_hint_bounds_witness:
  "size_hint sample_iter = (1, Some 1) \<and> drain 1 sample_iter_ops sample_iter = Some ([7], None)"
  using size_hint_bounds [OF sample_iter_new, of "[7]" None 0] sample_iter_drain
  by (auto simp: sample_iter_def query_all_def size_hint_def)

end
