(* ===== verification/Range_Read.thy ===== *)
theory Range_Read
  imports Stream_IO
begin

text \<open>
  \<^verbatim>\<open>copc-reader/src/range_read.rs\<close>: byte-range sources. The trait \<^verbatim>\<open>RangeRead\<close> is a record of its two methods
  and a locale with what a reader relies on; the two implementations, a file and an HTTP server that
  honours \<^verbatim>\<open>Range\<close> requests, are shown to satisfy it. The HTTP client is the function that sends a
  request and returns the response.
\<close>

section \<open>The interface\<close>

text \<open>The methods change the source and may fail.\<close>

record 's range_read =
  rr_len :: "'s \<Rightarrow> u64 result \<times> 's"
  rr_read_range :: "u64 \<Rightarrow> nat \<Rightarrow> 's \<Rightarrow> u8 list result \<times> 's"

text \<open>
  \<open>holds s data\<close>: the source \<open>s\<close> serves the file \<open>data\<close>. Its length is told, ranges inside it are
  returned as they are, and a filled buffer is full.
\<close>

locale range_source =
  fixes ops :: "'s range_read"
    and holds :: "'s \<Rightarrow> u8 list \<Rightarrow> bool"
  assumes len_law: "holds s data \<Longrightarrow> \<exists>s'. rr_len ops s = (Ok (of_nat (length data)), s') \<and> holds s' data"
    and read_law: "holds s data \<Longrightarrow> unat off + n \<le> length data \<Longrightarrow>
      \<exists>s'. rr_read_range ops off n s = (Ok (bslice data (unat off) n), s') \<and> holds s' data"
    and size_law: "holds s data \<Longrightarrow> length data < 2 ^ 64"
    and full_law: "rr_read_range ops off n s = (Ok bytes, s') \<Longrightarrow> length bytes = n"
begin

text \<open>Two requests that meet give what one request for both gives.\<close>

lemma split_read:
  assumes "holds s data" "unat off + (m + n) \<le> length data"
  shows "\<exists>a b s1 s2. rr_read_range ops off m s = (Ok a, s1) \<and>
    rr_read_range ops (off + of_nat m) n s1 = (Ok b, s2) \<and> holds s2 data \<and>
    fst (rr_read_range ops off (m + n) s) = Ok (a @ b)"
proof -
  from read_law [OF assms(1), of off m] assms(2) obtain s1 where
    1: "rr_read_range ops off m s = (Ok (bslice data (unat off) m), s1)" "holds s1 data" by auto
  have u: "unat (off + of_nat m) = unat off + m"
    using assms(2) size_law [OF assms(1)] by (simp add: unat_word_ariths unat_of_nat)
  from read_law [OF 1(2), of "off + of_nat m" n] assms(2) u obtain s2 where
    2: "rr_read_range ops (off + of_nat m) n s1 = (Ok (bslice data (unat off + m) n), s2)" "holds s2 data" by auto
  from read_law [OF assms] obtain s3 where
    "rr_read_range ops off (m + n) s = (Ok (bslice data (unat off) (m + n)), s3)" by blast
  moreover have "bslice data (unat off) (m + n) = bslice data (unat off) m @ bslice data (unat off + m) n"
    by (simp add: bslice_def take_add add.commute)
  ultimately show ?thesis using 1(1) 2 by auto
qed

end

section \<open>A file\<close>

definition file_range_read :: "bsection range_read" where
  "file_range_read = \<lparr>
     rr_len = (\<lambda>s. (Ok (of_nat (length (sec_data s))), s)),
     rr_read_range = (\<lambda>off n s.
       case read_exact ''read COPC range'' n (section_seek (unat off) s) of
         Inl e \<Rightarrow> (Err e, section_seek (unat off) s)
       | Inr (bytes, s) \<Rightarrow> (Ok bytes, s))\<rparr>"

definition file_holds :: "bsection \<Rightarrow> u8 list \<Rightarrow> bool" where
  "file_holds s data \<longleftrightarrow> (\<exists>p. s = fcur data p) \<and> length data < 2 ^ 64"

interpretation file_ranges: range_source file_range_read file_holds
proof
  fix s data off n bytes s'
  show "file_holds s data \<Longrightarrow> \<exists>s'. rr_len file_range_read s = (Ok (of_nat (length data)), s') \<and> file_holds s' data"
    by (auto simp: file_holds_def file_range_read_def fcur_def)
  show "file_holds s data \<Longrightarrow> unat off + n \<le> length data \<Longrightarrow>
      \<exists>s'. rr_read_range file_range_read off n s = (Ok (bslice data (unat off) n), s') \<and> file_holds s' data"
    by (auto simp: file_holds_def file_range_read_def section_seek_def fcur_exact simp flip: fcur_def)
      (auto simp: fcur_def section_seek_def fcur_exact [unfolded fcur_def])
  show "file_holds s data \<Longrightarrow> length data < 2 ^ 64" by (simp add: file_holds_def)
  show "rr_read_range file_range_read off n s = (Ok bytes, s') \<Longrightarrow> length bytes = n"
    by (auto simp: file_range_read_def read_exact_eq length_sec_bytes split: sum.splits if_splits)
qed

section \<open>Content-Range\<close>

text \<open>\<^verbatim>\<open>str::parse::<u64>\<close>: an optional plus sign, then decimal digits below \<open>2 ^ 64\<close>.\<close>

definition is_digit :: "u8 \<Rightarrow> bool" where
  "is_digit b \<longleftrightarrow> 48 \<le> b \<and> b \<le> 57"

fun parse_digits :: "nat \<Rightarrow> u8 list \<Rightarrow> nat option" where
  "parse_digits acc [] = Some acc"
| "parse_digits acc (b # bs) =
     (if \<not> is_digit b then None
      else let acc = acc * 10 + unat (b - 48) in if acc < 2 ^ 64 then parse_digits acc bs else None)"

definition parse_u64 :: "u8 list \<Rightarrow> u64 option" where
  "parse_u64 s =
     (if s = [] \<or> s = [43] then None
      else map_option of_nat (parse_digits 0 (if hd s = 43 then tl s else s)))"

text \<open>\<^verbatim>\<open>strip_prefix\<close> and \<^verbatim>\<open>split_once\<close>\<close>

definition strip_prefix :: "u8 list \<Rightarrow> u8 list \<Rightarrow> u8 list option" where
  "strip_prefix p s = (if take (length p) s = p then Some (drop (length p) s) else None)"

definition split_once :: "u8 \<Rightarrow> u8 list \<Rightarrow> (u8 list \<times> u8 list) option" where
  "split_once c s =
     (case dropWhile (\<lambda>b. b \<noteq> c) s of [] \<Rightarrow> None | _ # rest \<Rightarrow> Some (takeWhile (\<lambda>b. b \<noteq> c) s, rest))"

definition parse_content_range :: "u8 list \<Rightarrow> (u64 \<times> u64 \<times> u64) option" where
  "parse_content_range value =
     Option.bind (strip_prefix (lit ''bytes '') value) (\<lambda>value.
     Option.bind (split_once 47 value) (\<lambda>(range, total).
     Option.bind (split_once 45 range) (\<lambda>(start, end_pos).
     Option.bind (parse_u64 start) (\<lambda>start.
     Option.bind (parse_u64 end_pos) (\<lambda>end_pos.
     Option.bind (parse_u64 total) (\<lambda>total.
     if start \<le> end_pos \<and> end_pos < total then Some (start, end_pos, total) else None))))))"

section \<open>HTTP\<close>

text \<open>A number in decimal, as \<^verbatim>\<open>format!\<close> prints it.\<close>

fun decimal :: "nat \<Rightarrow> u8 list" where
  "decimal n = (if n < 10 then [] else decimal (n div 10)) @ [48 + of_nat (n mod 10)]"

declare decimal.simps [simp del]

definition range_header :: "nat \<Rightarrow> nat \<Rightarrow> u8 list" where
  "range_header off end_inclusive = lit ''bytes='' @ decimal off @ [45] @ decimal end_inclusive"

text \<open>A response: status, the text of the header \<^verbatim>\<open>content-range\<close> when it is there and is text, body.\<close>

record http_response =
  hr_status :: nat
  hr_content_range :: "u8 list option"
  hr_body :: "u8 list"

type_synonym http_server = "u8 list \<Rightarrow> string + http_response"

text \<open>\<^verbatim>\<open>HttpRangeReader\<close>: the agent and the URL are the server; what remains is the known length.\<close>

type_synonym http_range_reader = "u64 option"

definition http_request :: "http_server \<Rightarrow> nat \<Rightarrow> nat \<Rightarrow> ((u64 \<times> u64 \<times> u64) \<times> u8 list) result" where
  "http_request server off end_inclusive =
     (case server (range_header off end_inclusive) of
        Inl e \<Rightarrow> Err (InvalidInput ''GET {}: {e}'')
      | Inr response \<Rightarrow>
          if hr_status response \<noteq> 206
          then Err (Unsupported ''GET {} returned status {}; the server must support HTTP range requests'')
          else case Option.bind (hr_content_range response) parse_content_range of
              None \<Rightarrow> Err (InvalidData ''GET {} returned no usable Content-Range header'')
            | Some r \<Rightarrow> Ok (r, hr_body response))"

text \<open>Reading exactly \<open>n\<close> bytes of a body and checking that nothing follows.\<close>

definition http_body :: "string \<Rightarrow> nat \<Rightarrow> u8 list \<Rightarrow> u8 list result" where
  "http_body ctx n body =
     (if length body < n then Err (Io ctx)
      else if n < length body then Err (InvalidData ''GET {} returned more bytes than its Content-Range'')
      else Ok body)"

definition http_len :: "http_server \<Rightarrow> http_range_reader \<Rightarrow> u64 result \<times> http_range_reader" where
  "http_len server known =
     (case known of
        Some len \<Rightarrow> (Ok len, known)
      | None \<Rightarrow>
          (case http_request server 0 0 of
             Inl e \<Rightarrow> (Err e, known)
           | Inr ((start, end_pos, len), body) \<Rightarrow>
               if (start, end_pos) \<noteq> (0, 0)
               then (Err (InvalidData ''GET {} returned Content-Range bytes {start}-{end}, expected bytes 0-0''), known)
               else if len = 0 then (Err (InvalidData ''GET {} returned a zero Content-Range total''), known)
               else case http_body ''read HTTP length probe body'' 1 body of
                   Inl e \<Rightarrow> (Err e, known)
                 | Inr _ \<Rightarrow> (Ok len, Some len)))"

definition http_read_range ::
  "http_server \<Rightarrow> u64 \<Rightarrow> nat \<Rightarrow> http_range_reader \<Rightarrow> u8 list result \<times> http_range_reader" where
  "http_read_range server off n known =
     (if n = 0 then (Ok [], known)
      else if \<not> n < 2 ^ 64 then (Err (InvalidInput ''HTTP range length exceeds u64''), known)
      else case checked_add off (of_nat (n - 1)) of
          None \<Rightarrow> (Err (InvalidInput ''HTTP range end overflows u64''), known)
        | Some end_inclusive \<Rightarrow>
            (case http_request server (unat off) (unat end_inclusive) of
               Inl e \<Rightarrow> (Err e, known)
             | Inr ((response_start, response_end, response_len), body) \<Rightarrow>
                 if (response_start, response_end) \<noteq> (off, end_inclusive)
                 then (Err (InvalidData ''GET {} returned Content-Range bytes {}-{}, expected bytes {}-{}''), known)
                 else case known of
                     Some expected_len \<Rightarrow>
                       if response_len \<noteq> expected_len
                       then (Err (InvalidData ''GET {} Content-Range total changed from {expected_len} to {response_len}''), known)
                       else (http_body ''read HTTP range body'' n body, known)
                   | None \<Rightarrow> (http_body ''read HTTP range body'' n body, Some response_len)))"

definition http_range_ops :: "http_server \<Rightarrow> http_range_reader range_read" where
  "http_range_ops server = \<lparr>rr_len = http_len server, rr_read_range = http_read_range server\<rparr>"

section \<open>Printing and parsing\<close>

lemma decimal_digits: "\<forall>b \<in> set (decimal n). is_digit b"
proof (induction n rule: decimal.induct)
  case (1 n)
  have "is_digit (48 + of_nat (n mod 10))"
  proof -
    have "unat (48 + of_nat (n mod 10) :: u8) = 48 + n mod 10"
      using mod_less_divisor [of 10 n] by (simp add: unat_word_ariths unat_of_nat)
    then show ?thesis using mod_less_divisor [of 10 n] by (simp add: is_digit_def word_le_nat_alt)
  qed
  then show ?case using 1 by (subst decimal.simps) auto
qed

lemma decimal_nonempty: "decimal n \<noteq> []"
  by (subst decimal.simps) simp

lemma digit_value: "unat ((48 + of_nat (n mod 10)) - 48 :: u8) = n mod 10"
  using mod_less_divisor [of 10 n] by (simp add: unat_of_nat)

lemma digit_of_mod: "is_digit (48 + of_nat (n mod 10))"
  using decimal_digits [of n] by (subst (asm) decimal.simps) simp

lemma parse_digits_decimal:
  "acc * 10 ^ length (decimal n) + n < 2 ^ 64 \<Longrightarrow>
    parse_digits acc (decimal n @ bs) = parse_digits (acc * 10 ^ length (decimal n) + n) bs"
proof (induction n arbitrary: bs rule: decimal.induct)
  case (1 n)
  show ?case
  proof (cases "n < 10")
    case True
    then have d: "decimal n = [48 + of_nat (n mod 10)]" by (subst decimal.simps) simp
    show ?thesis using 1(2) digit_of_mod [of n] digit_value [of n] True by (simp add: d Let_def)
  next
    case False
    then have d: "decimal n = decimal (n div 10) @ [48 + of_nat (n mod 10)]" by (subst decimal.simps) simp
    let ?k = "length (decimal (n div 10))"
    have split: "acc * 10 ^ length (decimal n) + n = (acc * 10 ^ ?k + n div 10) * 10 + n mod 10"
      by (simp add: d algebra_simps)
    have "x < y" if "x * 10 + r < y" for x r y :: nat using that by simp
    from this [OF 1(2) [unfolded split]] have "acc * 10 ^ ?k + n div 10 < 2 ^ 64" .
    from 1(1) [OF False this] show ?thesis
      using 1(2) digit_of_mod [of n] digit_value [of n] unfolding split by (simp add: d Let_def)
  qed
qed

lemma parse_decimal: "n < 2 ^ 64 \<Longrightarrow> parse_u64 (decimal n) = Some (of_nat n)"
proof -
  assume "n < 2 ^ 64"
  then have "parse_digits 0 (decimal n) = Some n" using parse_digits_decimal [of 0 n "[]"] by simp
  moreover have "is_digit (hd (decimal n))" using decimal_digits [of n] decimal_nonempty [of n] by simp
  then have "hd (decimal n) \<noteq> 43" by (auto simp: is_digit_def)
  moreover from this have "decimal n \<noteq> [43]" by auto
  ultimately show ?thesis using decimal_nonempty by (simp add: parse_u64_def)
qed

lemma split_once_first:
  assumes "\<forall>b \<in> set xs. b \<noteq> c"
  shows "split_once c (xs @ c # ys) = Some (xs, ys)"
proof -
  have "dropWhile (\<lambda>b. b \<noteq> c) (xs @ c # ys) = c # ys" "takeWhile (\<lambda>b. b \<noteq> c) (xs @ c # ys) = xs"
    using assms by (induction xs) auto
  then show ?thesis by (simp add: split_once_def)
qed

definition content_range :: "nat \<Rightarrow> nat \<Rightarrow> nat \<Rightarrow> u8 list" where
  "content_range a b t = lit ''bytes '' @ decimal a @ [45] @ decimal b @ [47] @ decimal t"

lemma parse_content_range_text:
  assumes "a < 2 ^ 64" "b < 2 ^ 64" "t < 2 ^ 64"
  shows "parse_content_range (content_range a b t) =
    (if a \<le> b \<and> b < t then Some (of_nat a, of_nat b, of_nat t) else None)"
proof -
  have no: "\<forall>x \<in> set (decimal n). x \<noteq> 45" "\<forall>x \<in> set (decimal n). x \<noteq> 47" for n
    using decimal_digits [of n] by (auto simp: is_digit_def)
  have 1: "strip_prefix (lit ''bytes '') (content_range a b t) = Some ((decimal a @ 45 # decimal b) @ 47 # decimal t)"
    by (simp add: strip_prefix_def content_range_def)
  have 2: "split_once 47 ((decimal a @ 45 # decimal b) @ 47 # decimal t) = Some (decimal a @ 45 # decimal b, decimal t)"
    by (rule split_once_first) (use no in auto)
  have 3: "split_once 45 (decimal a @ 45 # decimal b) = Some (decimal a, decimal b)"
    by (rule split_once_first) (use no in auto)
  show ?thesis
    using assms by (simp add: parse_content_range_def 1 2 [simplified] 3 parse_decimal word_le_nat_alt word_less_nat_alt unat_of_nat)
qed

section \<open>A server that honours range requests\<close>

definition serves :: "http_server \<Rightarrow> u8 list \<Rightarrow> bool" where
  "serves server data \<longleftrightarrow> 0 < length data \<and> length data < 2 ^ 64 \<and>
     (\<forall>a b. a \<le> b \<and> b < length data \<longrightarrow>
        server (range_header a b) = Inr \<lparr>hr_status = 206, hr_content_range = Some (content_range a b (length data)),
          hr_body = bslice data a (b + 1 - a)\<rparr>)"

definition http_holds :: "http_server \<Rightarrow> http_range_reader \<Rightarrow> u8 list \<Rightarrow> bool" where
  "http_holds server known data \<longleftrightarrow> serves server data \<and> (known = None \<or> known = Some (of_nat (length data)))"

lemma http_request_served:
  assumes "serves server data" "a \<le> b" "b < length data"
  shows "http_request server a b = Ok ((of_nat a, of_nat b, of_nat (length data)), bslice data a (b + 1 - a))"
proof -
  have "length data < 2 ^ 64" using assms(1) by (simp add: serves_def)
  then have "parse_content_range (content_range a b (length data)) = Some (of_nat a, of_nat b, of_nat (length data))"
    using assms by (subst parse_content_range_text) simp_all
  then show ?thesis using assms by (simp add: http_request_def serves_def)
qed

text \<open>An answer that is accepted, whoever sent it.\<close>

lemma http_read_range_Ok:
  assumes "http_read_range server off n known = (Ok bytes, known')" "0 < n"
  shows "length bytes = n \<and> unat off + n \<le> 2 ^ 64 \<and>
    (\<exists>total. http_request server (unat off) (unat off + n - 1) = Ok ((off, of_nat (unat off + n - 1), total), bytes) \<and>
      known \<in> {None, Some total} \<and> known' = Some total)"
proof -
  from assms obtain end_pos rs re total body where
    e: "checked_add off (of_nat (n - 1)) = Some end_pos" and n: "n < 2 ^ 64"
    and r: "http_request server (unat off) (unat end_pos) = Ok ((rs, re, total), body)"
    by (auto simp: http_read_range_def split: if_splits option.splits sum.splits)
  have u: "unat end_pos = unat off + n - 1" "unat off + n \<le> 2 ^ 64"
  proof -
    have k: "unat (of_nat (n - 1) :: u64) = n - 1" using n by (simp add: unat_of_nat)
    have "unat end_pos = unat off + (n - 1)" using checked_add_Some [OF e] unfolding k .
    then show "unat end_pos = unat off + n - 1" "unat off + n \<le> 2 ^ 64"
      using assms(2) unat_bound [of end_pos] by simp_all
  qed
  have "of_nat (unat end_pos) = end_pos" by simp
  then have "of_nat (unat off + n - 1) = end_pos" unfolding u(1) .
  moreover have "rs = off \<and> re = end_pos \<and> body = bytes \<and> length bytes = n \<and> known \<in> {None, Some total} \<and> known' = Some total"
    using assms e n r
    by (auto simp: http_read_range_def http_body_def split: if_splits option.splits)
  ultimately show ?thesis using r u by auto
qed

interpretation http_ranges: range_source "http_range_ops server" "http_holds server" for server
proof
  fix known data off n bytes known'
  show "\<exists>s'. rr_len (http_range_ops server) known = (Ok (of_nat (length data)), s') \<and> http_holds server s' data"
    if h: "http_holds server known data"
  proof (cases known)
    case None
    have s: "serves server data" "0 < length data" "length data < 2 ^ 64" using h by (simp_all add: http_holds_def serves_def)
    have "length (bslice data 0 1) = 1" using s(2) by (cases data) (simp_all add: bslice_def)
    moreover have "unat (of_nat (length data) :: u64) \<noteq> unat (0 :: u64)" using s(2,3) by (simp add: unat_of_nat)
    then have "(of_nat (length data) :: u64) \<noteq> 0" by metis
    moreover have "bslice data 0 (Suc 0) \<noteq> []" using s(2) by (cases data) (simp_all add: bslice_def)
    ultimately have "length (bslice data 0 1) = 1" "(of_nat (length data) :: u64) \<noteq> 0" "bslice data 0 (Suc 0) \<noteq> []"
      by simp_all
    then show ?thesis
      using http_request_served [OF s(1), of 0 0] s None
      by (simp add: http_range_ops_def http_len_def http_body_def http_holds_def)
  next
    case (Some l)
    then show ?thesis using h by (auto simp: http_range_ops_def http_len_def http_holds_def)
  qed
  show "\<exists>s'. rr_read_range (http_range_ops server) off n known = (Ok (bslice data (unat off) n), s') \<and> http_holds server s' data"
    if h: "http_holds server known data" and r: "unat off + n \<le> length data"
  proof (cases "n = 0")
    case True
    then show ?thesis using h by (auto simp: http_range_ops_def http_read_range_def bslice_def)
  next
    case False
    let ?e = "unat off + n - 1"
    have s: "serves server data" "length data < 2 ^ 64" using h by (simp_all add: http_holds_def serves_def)
    have n: "n < 2 ^ 64" "unat off + (n - 1) < 2 ^ 64" using r s(2) False by simp_all
    have k: "unat (of_nat (n - 1) :: u64) = n - 1" using n(1) by (simp add: unat_of_nat)
    have u: "unat (of_nat ?e :: u64) = ?e" by (rule unat_of_nat_small) (use n(2) False in simp)
    have e: "checked_add off (of_nat (n - 1)) = Some (of_nat ?e)"
      unfolding checked_add_Some_iff k u using n(2) False by simp
    have req: "http_request server (unat off) ?e = Ok ((of_nat (unat off), of_nat ?e, of_nat (length data)), bslice data (unat off) n)"
      using http_request_served [OF s(1), of "unat off" ?e] r False by simp
    have "length (bslice data (unat off) n) = n" using r by simp
    then show ?thesis
      unfolding http_range_ops_def range_read.simps http_read_range_def e option.case u req sum.case prod.case
      using h False n(1) by (auto simp: http_body_def http_holds_def)
  qed
  show "length data < 2 ^ 64" if "http_holds server known data" using that by (simp add: http_holds_def serves_def)
  show "length bytes = n" if "rr_read_range (http_range_ops server) off n known = (Ok bytes, known')"
  proof (cases "n = 0")
    case True
    then show ?thesis using that by (simp add: http_range_ops_def http_read_range_def)
  next
    case False
    then show ?thesis using that http_read_range_Ok [of server off n known bytes known'] by (simp add: http_range_ops_def)
  qed
qed

text \<open>C37: A range read over HTTP is exact. An answer is only accepted when its \<^verbatim>\<open>Content-Range\<close> names the
  requested bytes, its body has their number and the total agrees with the length known before; and
  from a server that honours range requests any range of the file is read, with its bytes.\<close>

theorem http_ranges_exact:
  "(case http_read_range server off n known of
      (Inl _, _) \<Rightarrow> True
    | (Inr bytes, known') \<Rightarrow> length bytes = n \<and>
        (n = 0 \<or> (\<exists>total. http_request server (unat off) (unat off + n - 1) =
             Ok ((off, of_nat (unat off + n - 1), total), bytes) \<and> known \<in> {None, Some total} \<and> known' = Some total))) \<and>
   (serves server data \<and> unat off + n \<le> length data \<longrightarrow>
     fst (http_read_range server off n None) = Ok (bslice data (unat off) n))"
proof (rule conjI, goal_cases)
  case 1
  show ?case
  proof (cases "http_read_range server off n known")
    case (Pair r known')
    then show ?thesis
      using http_read_range_Ok [of server off n known _ known']
      by (cases r; cases "n = 0") (auto simp: http_read_range_def)
  qed
next
  case 2
  show ?case
    using http_ranges.read_law [of server None data off n] by (auto simp: http_holds_def http_range_ops_def)
qed

text \<open>A server that looks the request up among all requests for the file.\<close>

definition honest_server :: "u8 list \<Rightarrow> http_server" where
  "honest_server data header =
     (case find (\<lambda>(a, b). range_header a b = header) (List.product [0..<length data] [0..<length data]) of
        None \<Rightarrow> Inl ''404''
      | Some (a, b) \<Rightarrow> Inr \<lparr>hr_status = 206, hr_content_range = Some (content_range a b (length data)),
          hr_body = bslice data a (b + 1 - a)\<rparr>)"

lemma range_header_inj:
  assumes "range_header a b = range_header a' b'" "a < 2 ^ 64" "b < 2 ^ 64" "a' < 2 ^ 64" "b' < 2 ^ 64"
  shows "a = a' \<and> b = b'"
proof -
  have no: "\<forall>x \<in> set (decimal n). x \<noteq> 45" for n using decimal_digits [of n] by (auto simp: is_digit_def)
  have "split_once 45 (decimal a @ 45 # decimal b) = split_once 45 (decimal a' @ 45 # decimal b')"
    using assms(1) by (simp add: range_header_def)
  then have "decimal a = decimal a'" "decimal b = decimal b'"
    unfolding split_once_first [OF no] by simp_all
  then have "(of_nat a :: u64) = of_nat a'" "(of_nat b :: u64) = of_nat b'"
    using parse_decimal assms(2-5) by (metis option.inject)+
  then have "unat (of_nat a :: u64) = unat (of_nat a' :: u64)" "unat (of_nat b :: u64) = unat (of_nat b' :: u64)" by simp_all
  then show ?thesis using assms(2-5) by (simp add: unat_of_nat)
qed

lemma honest_serves:
  assumes "0 < length data" "length data < 2 ^ 64"
  shows "serves (honest_server data) data"
proof -
  have "find (\<lambda>(c, d). range_header c d = range_header a b) (List.product [0..<length data] [0..<length data]) = Some (a, b)"
    if "a \<le> b" "b < length data" for a b
  proof (rule ccontr)
    let ?P = "\<lambda>(c, d). range_header c d = range_header a b"
    let ?xs = "List.product [0..<length data] [0..<length data]"
    have "(a, b) \<in> set ?xs" "?P (a, b)" using that by auto
    then have "find ?P ?xs \<noteq> None" unfolding find_None_iff by blast
    then obtain c d where f: "find ?P ?xs = Some (c, d)" by auto
    then have "?P (c, d) \<and> (c, d) \<in> set ?xs" unfolding find_Some_iff by (metis nth_mem)
    then have "?P (c, d)" "c < length data" "d < length data" by auto
    then have "c = a \<and> d = b" using range_header_inj [of c d a b] that assms(2) by auto
    moreover assume "find ?P ?xs \<noteq> Some (a, b)"
    ultimately show False using f by simp
  qed
  then show ?thesis using assms by (simp add: serves_def honest_server_def)
qed

theorem http_ranges_exact_witness:
  "fst (http_read_range (honest_server [10, 11, 12, 13]) 1 2 None) = Ok [11, 12]"
  using http_ranges_exact [where server = "honest_server [10, 11, 12, 13]" and off = 1 and n = 2 and data = "[10, 11, 12, 13]"]
    honest_serves [of "[10, 11, 12, 13]"]
  by (simp add: bslice_def)

end
