(* ===== verification/Ranged.thy ===== *)
theory Ranged
  imports Range_Read Point_Iter
begin

text \<open>
  \<^verbatim>\<open>copc-reader/src/ranged.rs\<close>: \<^verbatim>\<open>CopcRangeReader\<close>, which fetches the header, the hierarchy pages a query can
  reach and the selected chunks through a byte-range source. A reader that fails keeps what it had
  changed, so its operations return the result and the new reader.
\<close>

section \<open>State and errors\<close>

type_synonym ('a, 's) st = "'s \<Rightarrow> 'a result \<times> 's"

definition st_bind :: "('a, 's) st \<Rightarrow> ('a \<Rightarrow> ('b, 's) st) \<Rightarrow> ('b, 's) st" where
  "st_bind m k s = (case m s of (Inl e, s) \<Rightarrow> (Err e, s) | (Inr x, s) \<Rightarrow> k x s)"

definition st_ret :: "'a \<Rightarrow> ('a, 's) st" where
  "st_ret x s = (Ok x, s)"

definition st_lift :: "('s \<Rightarrow> 'a result) \<Rightarrow> ('a, 's) st" where
  "st_lift f s = (f s, s)"

definition st_update :: "('s \<Rightarrow> 's) \<Rightarrow> (unit, 's) st" where
  "st_update f s = (Ok (), f s)"

fun st_fold :: "('x \<Rightarrow> (unit, 's) st) \<Rightarrow> 'x list \<Rightarrow> (unit, 's) st" where
  "st_fold f [] = st_ret ()"
| "st_fold f (x # xs) = st_bind (f x) (\<lambda>_. st_fold f xs)"

section \<open>Chunks\<close>

definition RANGE_COALESCE_GAP_BYTES :: u64 where "RANGE_COALESCE_GAP_BYTES = 64 * 1024"
definition MAX_COALESCED_RANGE_BYTES :: u64 where "MAX_COALESCED_RANGE_BYTES = 64 * 1024 * 1024"
definition MAX_VLR_SECTION_BYTES :: nat where "MAX_VLR_SECTION_BYTES = 64 * 1024 * 1024"

record chunk_group =
  cg_start :: u64
  cg_end :: u64
  cg_entries :: "entry list"

definition coalesce_step :: "u64 \<Rightarrow> u64 \<Rightarrow> entry \<Rightarrow> chunk_group list \<Rightarrow> chunk_group list" where
  "coalesce_step gap max_range_bytes e groups =
     (let start = e_offset e;
          end_pos = e_offset e + word_of_int (max (sint (e_byte_size e)) 0) in
      if groups \<noteq> [] \<and> start \<le> saturating_add (cg_end (last groups)) gap \<and>
         saturating_sub end_pos (cg_start (last groups)) \<le> max_range_bytes
      then butlast groups @ [(last groups)\<lparr>cg_end := max (cg_end (last groups)) end_pos,
             cg_entries := cg_entries (last groups) @ [e]\<rparr>]
      else groups @ [\<lparr>cg_start = start, cg_end = end_pos, cg_entries = [e]\<rparr>])"

definition coalesce_chunks :: "entry list \<Rightarrow> u64 \<Rightarrow> u64 \<Rightarrow> chunk_group list" where
  "coalesce_chunks chunks gap max_range_bytes = fold (coalesce_step gap max_range_bytes) chunks []"

definition chunk_slice :: "u8 list \<Rightarrow> u64 \<Rightarrow> entry \<Rightarrow> (u8 list \<times> nat) result" where
  "chunk_slice group_bytes group_start e =
     bind_res (ok_or (usize_try_from_i32 (e_point_count e)) (InvalidData ''negative point count {} for {:?}'')) (\<lambda>points_in_chunk.
     let off = unat (e_offset e - group_start) in
     bind_res (ok_or (usize_try_from_i32 (e_byte_size e)) (InvalidData ''invalid byte size {} for {:?}'')) (\<lambda>byte_size.
     bind_res (ok_or
       (Option.bind (checked_add_usize off byte_size) (\<lambda>end_pos. if end_pos \<le> length group_bytes then Some end_pos else None))
       (InvalidData ''chunk range exceeds fetched group'')) (\<lambda>end_pos.
     Ok (bslice group_bytes off (end_pos - off), points_in_chunk))))"

text \<open>\<^verbatim>\<open>decode_chunk_points\<close> of \<^verbatim>\<open>points.rs\<close>: the points of a chunk's bytes, added to those before.\<close>

definition decode_point ::
  "('laz, 'd, 'r, 'raw, 'p) iter_ops \<Rightarrow> las_format \<Rightarrow> las_transforms \<Rightarrow> bounds option \<Rightarrow> nat \<Rightarrow> nat \<Rightarrow>
    'd \<times> 'r \<times> 'p list \<Rightarrow> ('d \<times> 'r \<times> 'p list) result" where
  "decode_point ops point_format transforms b record_size _ = (\<lambda>(d, r, out).
     bind_res (next_record (io_decoder ops) record_size d r) (\<lambda>(buf, d, r).
     bind_res (case io_raw_read ops buf point_format of Inl e \<Rightarrow> Err (Las e) | Inr raw \<Rightarrow> Ok raw) (\<lambda>raw.
     case io_raw_xyz ops raw of (x, y, z) \<Rightarrow>
       if outside b (direct_xyz (io_direct ops) transforms x y z) then Ok (d, r, out)
       else Ok (d, r, out @ [io_point ops raw transforms]))))"

definition decode_chunk_points ::
  "('laz, 'd, bsection, 'raw, 'p) iter_ops \<Rightarrow> u8 list \<Rightarrow> nat \<Rightarrow> 'laz \<Rightarrow> las_format \<Rightarrow> las_transforms \<Rightarrow> bounds option \<Rightarrow>
    'p list \<Rightarrow> 'p list result" where
  "decode_chunk_points ops chunk_bytes points_in_chunk laz_vlr point_format transforms b out =
     bind_res (configure_layered_decompressor (io_decoder ops) laz_vlr (dz_new (io_decoder ops))) (\<lambda>(record_size, d).
     if record_size \<noteq> unat (io_format_len ops point_format)
     then Err (InvalidData ''LASzip item size is {record_size} bytes, but LAS point record length is {} bytes'')
     else
       bind_res (fold_res (decode_point ops point_format transforms b record_size) [0..<points_in_chunk]
         (d, section_new 0 chunk_bytes, out)) (\<lambda>(_, _, out). Ok out))"

section \<open>The reader\<close>

record ('s, 'laz) range_reader =
  rg_source :: 's
  rg_file_len :: nat
  rg_header :: las_header
  rg_copc_info :: copc_info
  rg_laszip_vlr :: 'laz
  rg_hierarchy :: "(voxel_key, entry) rbt"
  rg_pending_pages :: "entry list"
  rg_visited_pages :: "(nat \<times> nat) set"
  rg_limits :: hierarchy_read_limits
  rg_loaded_point_total :: nat
  rg_data_ranges :: data_ranges
  rg_point_ranges :: chunk_ranges

type_synonym ('a, 's, 'laz) rr = "('a, ('s, 'laz) range_reader) st"

definition fetch_range :: "'s range_read \<Rightarrow> u64 \<Rightarrow> u64 \<Rightarrow> (u8 list, 's, 'laz) rr" where
  "fetch_range io start end_pos r =
     (case checked_sub end_pos start of
        None \<Rightarrow> (Err (InvalidData ''chunk range end precedes its start''), r)
      | Some len \<Rightarrow>
          (case rr_read_range io start (unat len) (rg_source r) of
             (res, source) \<Rightarrow> (res, r\<lparr>rg_source := source\<rparr>)))"

text \<open>The body of the loop over the entries of a page.\<close>

definition check_duplicate :: "entry \<Rightarrow> ('s, 'laz) range_reader \<Rightarrow> unit result" where
  "check_duplicate e r =
     (case RBT.lookup (rg_hierarchy r) (e_key e) of
        None \<Rightarrow> Ok ()
      | Some previous \<Rightarrow>
          if is_child_page previous \<and> \<not> is_child_page e then Ok ()
          else Err (InvalidData ''duplicate hierarchy key {:?}: previous {previous:?}, new {entry:?}''))"

definition load_entry :: "entry \<Rightarrow> (unit, 's, 'laz) rr" where
  "load_entry e =
     st_bind (st_lift (\<lambda>r. validate_hierarchy_entry e (rg_file_len r) (rg_data_ranges r))) (\<lambda>_.
     st_bind (st_lift (check_duplicate e)) (\<lambda>_.
     st_bind (if has_point_data e
       then st_bind (st_lift (\<lambda>r. insert_point_chunk_range e (rg_point_ranges r)))
         (\<lambda>ranges. st_update (\<lambda>r. r\<lparr>rg_point_ranges := ranges\<rparr>))
       else st_ret ()) (\<lambda>_.
     st_bind (st_update (\<lambda>r. r\<lparr>rg_hierarchy := RBT.insert (e_key e) e (rg_hierarchy r)\<rparr>)) (\<lambda>_.
     st_bind (st_lift (\<lambda>_. availability e)) (\<lambda>a.
     st_bind (case a of
         PointData point_count \<Rightarrow>
           st_bind (st_lift (\<lambda>r. ok_or
             (if rg_loaded_point_total r + unat point_count < 2 ^ 64 then Some (rg_loaded_point_total r + unat point_count) else None)
             (InvalidData ''hierarchy point total overflow'')))
           (\<lambda>total. st_update (\<lambda>r. r\<lparr>rg_loaded_point_total := total\<rparr>))
       | _ \<Rightarrow> st_ret ()) (\<lambda>_.
     if is_child_page e then st_update (\<lambda>r. r\<lparr>rg_pending_pages := rg_pending_pages r @ [e]\<rparr>) else st_ret ()))))))"

definition load_page :: "'s range_read \<Rightarrow> entry \<Rightarrow> (unit, 's, 'laz) rr" where
  "load_page io page_entry =
     st_bind (st_lift (\<lambda>_. entry_size_u64 page_entry ''child hierarchy page {:?} has negative byte size {}'')) (\<lambda>byte_size.
     st_bind (st_lift (\<lambda>r. Ok ((unat (e_offset page_entry), byte_size) \<in> rg_visited_pages r))) (\<lambda>visited.
     if visited then st_ret ()
     else
       st_bind (st_update (\<lambda>r. r\<lparr>rg_visited_pages := insert (unat (e_offset page_entry), byte_size) (rg_visited_pages r)\<rparr>)) (\<lambda>_.
       if byte_size = 0 \<or> \<not> HIERARCHY_ENTRY_BYTES dvd byte_size
       then st_lift (\<lambda>_. Err (InvalidData ''hierarchy page is {byte_size} bytes, not a multiple of {}''))
       else
         st_bind (st_lift (\<lambda>r. add_page (rg_limits r) byte_size)) (\<lambda>limits.
         st_bind (st_update (\<lambda>r. r\<lparr>rg_limits := limits\<rparr>)) (\<lambda>_.
         st_bind (st_lift (\<lambda>r. validate_range_in_file (unat (e_offset page_entry)) byte_size (rg_file_len r) ''hierarchy page'')) (\<lambda>_.
         st_bind (fetch_range io (e_offset page_entry) (e_offset page_entry + of_nat byte_size)) (\<lambda>bytes.
         st_bind (st_lift (\<lambda>_. page_from_le_bytes bytes)) (\<lambda>page.
         st_bind (st_fold load_entry (page_entries page)) (\<lambda>_.
         st_lift (\<lambda>r.
           if unat (lh_number_of_points (rg_header r)) < rg_loaded_point_total r
           then Err (InvalidData ''hierarchy point total {} exceeds LAS header point count {}'')
           else if rg_pending_pages r = [] \<and> rg_loaded_point_total r \<noteq> unat (lh_number_of_points (rg_header r))
           then Err (InvalidData ''hierarchy point total {} does not match LAS header point count {}'')
           else Ok ()))))))))))"

definition page_may_match :: "(f64 \<Rightarrow> f64) \<Rightarrow> voxel_key \<Rightarrow> copc_info \<Rightarrow> point_query \<Rightarrow> bool result" where
  "page_may_match log2 key info q =
     bind_res (level_range log2 (pq_lod q) info) (\<lambda>(_, level_max).
     if sint level_max \<le> sint (vk_level key) then Ok False
     else case pq_bounds q of
         Bounds_Within b \<Rightarrow>
           if 0 \<le> sint (vk_level key) \<and> 0 \<le> sint (vk_x key) \<and> 0 \<le> sint (vk_y key) \<and> 0 \<le> sint (vk_z key)
           then bind_res (voxel_bounds key info) (\<lambda>nb. Ok (intersects nb b))
           else Ok True
       | Bounds_All \<Rightarrow> Ok True)"

text \<open>The drained pages, those the query can reach and the others.\<close>

definition split_pending ::
  "(f64 \<Rightarrow> f64) \<Rightarrow> copc_info \<Rightarrow> point_query \<Rightarrow> entry list \<Rightarrow> (entry list \<times> entry list) result" where
  "split_pending log2 info q pages =
     fold_res (\<lambda>e (relevant, rest).
       bind_res (page_may_match log2 (e_key e) info q) (\<lambda>may_match.
       Ok (if may_match then (relevant @ [e], rest) else (relevant, rest @ [e])))) pages ([], [])"

text \<open>One pass: whether pages were loaded. A failure while draining leaves no pending page behind.\<close>

definition hierarchy_pass :: "(f64 \<Rightarrow> f64) \<Rightarrow> 's range_read \<Rightarrow> point_query \<Rightarrow> (bool, 's, 'laz) rr" where
  "hierarchy_pass log2 io q r =
     (case split_pending log2 (rg_copc_info r) q (rg_pending_pages r) of
        Inl e \<Rightarrow> (Err e, r\<lparr>rg_pending_pages := []\<rparr>)
      | Inr (relevant, rest) \<Rightarrow>
          (let r = r\<lparr>rg_pending_pages := rest\<rparr> in
           if relevant = [] then (Ok False, r)
           else st_bind (st_fold (load_page io) relevant) (\<lambda>_. st_ret True) r))"

section \<open>Reasoning about the operations\<close>

text \<open>From a state with \<open>P\<close>, success gives \<open>Q\<close> of the result and the state, failure leaves a state with \<open>I\<close>.\<close>

definition st_spec :: "('s \<Rightarrow> bool) \<Rightarrow> ('s \<Rightarrow> bool) \<Rightarrow> ('a, 's) st \<Rightarrow> ('a \<Rightarrow> 's \<Rightarrow> bool) \<Rightarrow> bool" where
  "st_spec I P m Q \<longleftrightarrow> (\<forall>s. P s \<longrightarrow> (case m s of (Inl _, s') \<Rightarrow> I s' | (Inr x, s') \<Rightarrow> Q x s'))"

lemma st_spec_bind:
  assumes "st_spec I P m Q" "\<And>x. st_spec I (Q x) (k x) R"
  shows "st_spec I P (st_bind m k) R"
  unfolding st_spec_def
proof (intro allI impI)
  fix s assume "P s"
  obtain r s' where m: "m s = (r, s')" by (cases "m s")
  show "case st_bind m k s of (Inl _, s') \<Rightarrow> I s' | (Inr x, s') \<Rightarrow> R x s'"
  proof (cases r)
    case (Inl e)
    then show ?thesis using assms(1) \<open>P s\<close> m by (auto simp: st_spec_def st_bind_def)
  next
    case (Inr x)
    then have "Q x s'" using assms(1) \<open>P s\<close> m by (auto simp: st_spec_def)
    then show ?thesis using assms(2) [of x] m Inr by (simp add: st_spec_def st_bind_def)
  qed
qed

lemma st_spec_ret: "(\<And>s. P s \<Longrightarrow> Q x s) \<Longrightarrow> st_spec I P (st_ret x) Q"
  by (simp add: st_spec_def st_ret_def)

lemma st_spec_update: "(\<And>s. P s \<Longrightarrow> Q () (f s)) \<Longrightarrow> st_spec I P (st_update f) Q"
  by (simp add: st_spec_def st_update_def)

lemma st_spec_lift:
  "(\<And>s. P s \<Longrightarrow> I s) \<Longrightarrow> (\<And>s x. P s \<Longrightarrow> f s = Inr x \<Longrightarrow> Q x s) \<Longrightarrow> st_spec I P (st_lift f) Q"
  by (auto simp: st_spec_def st_lift_def split: sum.splits)

lemma st_spec_if:
  "(b \<Longrightarrow> st_spec I P m Q) \<Longrightarrow> (\<not> b \<Longrightarrow> st_spec I P n Q) \<Longrightarrow> st_spec I P (if b then m else n) Q"
  by simp

lemma st_spec_fold:
  "(\<And>x. x \<in> set xs \<Longrightarrow> st_spec I P (f x) (\<lambda>_. P)) \<Longrightarrow> st_spec I P (st_fold f xs) (\<lambda>_. P)"
proof (induction xs)
  case Nil
  then show ?case by (simp add: st_spec_ret)
next
  case (Cons x xs)
  then show ?case by (auto intro!: st_spec_bind)
qed

lemma st_spec_pre: "st_spec I P m Q \<Longrightarrow> (\<And>s. P' s \<Longrightarrow> P s) \<Longrightarrow> st_spec I P' m Q"
  by (simp add: st_spec_def)

lemma st_spec_post: "st_spec I P m Q \<Longrightarrow> (\<And>x s. Q x s \<Longrightarrow> Q' x s) \<Longrightarrow> st_spec I P m Q'"
  by (fastforce simp: st_spec_def split: prod.splits sum.splits)

lemma st_spec_err: "st_spec I P m Q \<Longrightarrow> (\<And>s. I s \<Longrightarrow> I' s) \<Longrightarrow> st_spec I' P m Q"
  by (fastforce simp: st_spec_def split: prod.splits sum.splits)

lemma st_spec_Ok: "st_spec I P m Q \<Longrightarrow> m s = (Inr x, s') \<Longrightarrow> P s \<Longrightarrow> Q x s'"
  by (fastforce simp: st_spec_def)

lemma st_spec_Err: "st_spec I P m Q \<Longrightarrow> m s = (Inl e, s') \<Longrightarrow> P s \<Longrightarrow> I s'"
  by (fastforce simp: st_spec_def)

text \<open>What no loading changes: the file, its header and info, and the decompressor's parameters.\<close>

definition same_file :: "('s, 'laz) range_reader \<Rightarrow> ('s, 'laz) range_reader \<Rightarrow> bool" where
  "same_file r r' \<longleftrightarrow> rg_file_len r' = rg_file_len r \<and> rg_header r' = rg_header r \<and> rg_copc_info r' = rg_copc_info r \<and>
     rg_laszip_vlr r' = rg_laszip_vlr r \<and> rg_data_ranges r' = rg_data_ranges r"

lemma fetch_range_state: "\<exists>source. snd (fetch_range io a b r) = r\<lparr>rg_source := source\<rparr>"
proof -
  have "r = r\<lparr>rg_source := rg_source r\<rparr>" by simp
  then have "\<exists>source. r = r\<lparr>rg_source := source\<rparr>" by (rule exI)
  then show ?thesis by (cases "checked_sub b a") (auto simp: fetch_range_def split: prod.split)
qed

text \<open>
  The entries a reader holds: each passed the checks of a local read, and the byte ranges of the
  chunks are those recorded, which do not overlap.
\<close>

definition rg_ok :: "('s, 'laz) range_reader \<Rightarrow> bool" where
  "rg_ok r \<longleftrightarrow>
     (\<forall>k e. RBT.lookup (rg_hierarchy r) k = Some e \<longrightarrow>
        e_key e = k \<and> validate_hierarchy_entry e (rg_file_len r) (rg_data_ranges r) = Ok ()) \<and>
     ranges_disjoint (rg_point_ranges r) \<and>
     (\<forall>k e. RBT.lookup (rg_hierarchy r) k = Some e \<longrightarrow> has_point_data e \<longrightarrow>
        RBT.lookup (rg_point_ranges r) (entry_lo e) = Some (entry_hi e, k))"

definition range_recorded :: "entry \<Rightarrow> ('s, 'laz) range_reader \<Rightarrow> bool" where
  "range_recorded e r \<longleftrightarrow> (has_point_data e \<longrightarrow> RBT.lookup (rg_point_ranges r) (entry_lo e) = Some (entry_hi e, e_key e))"

lemma rg_ok_insert_range:
  assumes "rg_ok r" "validate_hierarchy_entry e n d = Ok ()" "has_point_data e"
    and "insert_point_chunk_range e (rg_point_ranges r) = Ok t"
  shows "rg_ok (r\<lparr>rg_point_ranges := t\<rparr>) \<and> range_recorded e (r\<lparr>rg_point_ranges := t\<rparr>)"
proof -
  have pos: "0 < sint (e_byte_size e)"
    using assms(2,3) point_size_pos by (auto simp: validate_hierarchy_entry_Ok_iff)
  have dis: "ranges_disjoint (rg_point_ranges r)" using assms(1) by (simp add: rg_ok_def)
  from insert_point_chunk_range_Ok_iff [OF dis pos] assms(4) have
    free: "\<And>a b k. RBT.lookup (rg_point_ranges r) a = Some (b, k) \<Longrightarrow> b \<le> entry_lo e \<or> entry_hi e \<le> a"
    and t: "t = RBT.insert (entry_lo e) (entry_hi e, e_key e) (rg_point_ranges r)" by auto
  have "RBT.lookup (rg_point_ranges r) (entry_lo e) = None"
  proof (cases "RBT.lookup (rg_point_ranges r) (entry_lo e)")
    case (Some v)
    obtain b k where "v = (b, k)" by (cases v)
    then show ?thesis using free [of "entry_lo e" b k] Some dis pos
      by (force simp: ranges_disjoint_def entry_lo_def entry_hi_def)
  qed
  then have "RBT.lookup t a = Some v" if "RBT.lookup (rg_point_ranges r) a = Some v" for a v
    using that by (auto simp: t)
  moreover have "ranges_disjoint t" by (rule insert_point_chunk_range_disjoint [OF dis pos assms(4)])
  ultimately show ?thesis using assms(1) by (auto simp: rg_ok_def range_recorded_def t)
qed

lemma rg_ok_insert_entry:
  assumes "rg_ok r" "validate_hierarchy_entry e (rg_file_len r) (rg_data_ranges r) = Ok ()" "range_recorded e r"
  shows "rg_ok (r\<lparr>rg_hierarchy := RBT.insert (e_key e) e (rg_hierarchy r)\<rparr>)"
  using assms by (auto simp: rg_ok_def range_recorded_def)

lemma rg_ok_fields:
  "rg_ok (r\<lparr>rg_loaded_point_total := n\<rparr>) = rg_ok r" "rg_ok (r\<lparr>rg_pending_pages := p\<rparr>) = rg_ok r"
  "rg_ok (r\<lparr>rg_limits := l\<rparr>) = rg_ok r" "rg_ok (r\<lparr>rg_visited_pages := v\<rparr>) = rg_ok r" "rg_ok (r\<lparr>rg_source := s\<rparr>) = rg_ok r"
  by (simp_all add: rg_ok_def)

lemma load_entry_spec:
  "st_spec (\<lambda>r. (c \<longrightarrow> rg_ok r) \<and> same_file r0 r \<and> rg_limits r = l) (\<lambda>r. (c \<longrightarrow> rg_ok r) \<and> same_file r0 r \<and> rg_limits r = l)
    (load_entry e) (\<lambda>_ r. (c \<longrightarrow> rg_ok r) \<and> same_file r0 r \<and> rg_limits r = l)"
  (is "st_spec ?I _ _ _")
proof -
  let ?valid = "\<lambda>r. validate_hierarchy_entry e (rg_file_len r) (rg_data_ranges r) = Ok ()"
  have total: "st_spec ?I ?I (case a of
         PointData point_count \<Rightarrow>
           st_bind (st_lift (\<lambda>r. ok_or
             (if rg_loaded_point_total r + unat point_count < 2 ^ 64 then Some (rg_loaded_point_total r + unat point_count) else None)
             (InvalidData ''hierarchy point total overflow'')))
           (\<lambda>total. st_update (\<lambda>r. r\<lparr>rg_loaded_point_total := total\<rparr>))
       | _ \<Rightarrow> st_ret ()) (\<lambda>_. ?I)" for a
    by (cases a; simp) (auto intro!: st_spec_bind [where Q = "\<lambda>_. ?I"] st_spec_lift st_spec_update st_spec_ret
        simp: rg_ok_fields same_file_def)
  have range: "st_spec ?I (\<lambda>r. ?I r \<and> ?valid r) (if has_point_data e
       then st_bind (st_lift (\<lambda>r. insert_point_chunk_range e (rg_point_ranges r)))
         (\<lambda>ranges. st_update (\<lambda>r. r\<lparr>rg_point_ranges := ranges\<rparr>))
       else st_ret ()) (\<lambda>_ r. ?I r \<and> ?valid r \<and> (c \<longrightarrow> range_recorded e r))"
    by (rule st_spec_if)
      (auto intro!: st_spec_bind [where Q = "\<lambda>t r. ?I r \<and> ?valid r \<and> insert_point_chunk_range e (rg_point_ranges r) = Ok t"]
        st_spec_lift st_spec_update st_spec_ret dest: rg_ok_insert_range simp: range_recorded_def same_file_def)
  have ins: "st_spec ?I (\<lambda>r. ?I r \<and> ?valid r \<and> (c \<longrightarrow> range_recorded e r))
      (st_update (\<lambda>r. r\<lparr>rg_hierarchy := RBT.insert (e_key e) e (rg_hierarchy r)\<rparr>)) (\<lambda>_. ?I)"
    by (rule st_spec_update) (auto simp: rg_ok_insert_entry same_file_def)
  have pend: "st_spec ?I ?I (if is_child_page e then st_update (\<lambda>r. r\<lparr>rg_pending_pages := rg_pending_pages r @ [e]\<rparr>)
      else st_ret ()) (\<lambda>_. ?I)"
    by (auto intro!: st_spec_update st_spec_ret simp: rg_ok_fields same_file_def)
  have val: "st_spec ?I ?I (st_lift (\<lambda>r. validate_hierarchy_entry e (rg_file_len r) (rg_data_ranges r))) (\<lambda>_ r. ?I r \<and> ?valid r)"
    by (rule st_spec_lift) auto
  have dup: "st_spec ?I (\<lambda>r. ?I r \<and> ?valid r) (st_lift (check_duplicate e)) (\<lambda>_ r. ?I r \<and> ?valid r)"
    and avail: "st_spec ?I ?I (st_lift (\<lambda>_. availability e)) (\<lambda>_. ?I)"
    by (rule st_spec_lift; simp)+
  show ?thesis
    unfolding load_entry_def
    by (intro st_spec_bind [OF val] st_spec_bind [OF dup] st_spec_bind [OF range] st_spec_bind [OF ins]
        st_spec_bind [OF avail] st_spec_bind [OF total] pend)
qed

lemma fetch_range_spec:
  assumes "\<And>r source. P r \<Longrightarrow> P (r\<lparr>rg_source := source\<rparr>)" "\<And>r. P r \<Longrightarrow> I r"
  shows "st_spec I P (fetch_range io a b) (\<lambda>_. P)"
  unfolding st_spec_def
proof (intro allI impI)
  fix r assume "P r"
  obtain res r' where f: "fetch_range io a b r = (res, r')" by (cases "fetch_range io a b r")
  then have "P r'" using fetch_range_state [of io a b r] assms(1) [OF \<open>P r\<close>] by auto
  then show "case fetch_range io a b r of (Inl _, r') \<Rightarrow> I r' | (Inr _, r') \<Rightarrow> P r'"
    using f assms(2) by (cases res) auto
qed

text \<open>A page that is loaded uses up some of the bytes allowed for all pages.\<close>

definition grown :: "('s, 'laz) range_reader \<Rightarrow> ('s, 'laz) range_reader \<Rightarrow> bool" where
  "grown r r' \<longleftrightarrow> total_bytes (rg_limits r) < total_bytes (rg_limits r') \<and> total_bytes (rg_limits r') \<le> MAX_HIERARCHY_TOTAL_BYTES"

lemma load_page_spec:
  "st_spec (\<lambda>s. (c \<longrightarrow> rg_ok s) \<and> same_file r0 s) (\<lambda>s. s = r \<and> (c \<longrightarrow> rg_ok r) \<and> same_file r0 r) (load_page io e)
    (\<lambda>_ s. (c \<longrightarrow> rg_ok s) \<and> same_file r0 s \<and> (s = r \<or> grown r s))"
  (is "st_spec ?I ?P _ ?R")
proof -
  let ?V = "\<lambda>s. ?I s \<and> rg_limits s = rg_limits r"
  have size: "st_spec ?I ?P (st_lift (\<lambda>_. entry_size_u64 e m)) (\<lambda>_. ?P)" for m
    by (rule st_spec_lift) auto
  have seen: "st_spec ?I ?P (st_lift (\<lambda>s. Ok (p \<in> rg_visited_pages s))) (\<lambda>_. ?P)" for p
    by (rule st_spec_lift) auto
  have skip: "st_spec ?I ?P (st_ret ()) ?R" by (rule st_spec_ret) auto
  have visit: "st_spec ?I ?P (st_update (\<lambda>s. s\<lparr>rg_visited_pages := insert p (rg_visited_pages s)\<rparr>)) (\<lambda>_. ?V)" for p
    by (rule st_spec_update) (auto simp: rg_ok_fields same_file_def)
  have bad: "st_spec ?I ?V (st_lift (\<lambda>_. Err err)) ?R" for err
    by (rule st_spec_lift) auto
  have add: "st_spec ?I ?V (st_lift (\<lambda>s. add_page (rg_limits s) n))
      (\<lambda>limits s. ?I s \<and> add_page (rg_limits r) n = Ok limits)" for n
    by (rule st_spec_lift) auto
  have limit: "st_spec ?I (\<lambda>s. ?I s \<and> add_page (rg_limits r) n = Ok limits) (st_update (\<lambda>s. s\<lparr>rg_limits := limits\<rparr>))
      (\<lambda>_ s. ((c \<longrightarrow> rg_ok s) \<and> same_file r0 s \<and> rg_limits s = limits) \<and> add_page (rg_limits r) n = Ok limits)" for n limits
    by (rule st_spec_update) (auto simp: rg_ok_fields same_file_def)
  have rest: "st_spec ?I (\<lambda>s. ((c \<longrightarrow> rg_ok s) \<and> same_file r0 s \<and> rg_limits s = limits) \<and> add_page (rg_limits r) n = Ok limits)
      (st_bind (st_lift (\<lambda>r. validate_range_in_file off n (rg_file_len r) l)) (\<lambda>_.
         st_bind (fetch_range io a b) (\<lambda>bytes.
         st_bind (st_lift (\<lambda>_. page_from_le_bytes bytes)) (\<lambda>page.
         st_bind (st_fold load_entry (page_entries page)) (\<lambda>_. st_lift f))))) ?R"
    if "n \<noteq> 0" for n limits off l a b f
  proof (cases "add_page (rg_limits r) n = Ok limits")
    case True
    let ?K = "\<lambda>s. (c \<longrightarrow> rg_ok s) \<and> same_file r0 s \<and> rg_limits s = limits"
    have "st_spec ?I ?K (st_lift (\<lambda>r. validate_range_in_file off n (rg_file_len r) l)) (\<lambda>_. ?K)"
      "st_spec ?I ?K (st_lift (\<lambda>_. page_from_le_bytes bytes)) (\<lambda>_. ?K)" for bytes
      by (rule st_spec_lift; simp)+
    moreover have "st_spec ?I ?K (fetch_range io a b) (\<lambda>_. ?K)"
      by (rule fetch_range_spec) (auto simp: rg_ok_fields same_file_def)
    moreover have "st_spec ?I ?K (st_fold load_entry es) (\<lambda>_. ?K)" for es
      by (rule st_spec_fold, rule st_spec_err [OF load_entry_spec]) simp
    moreover have "st_spec ?I ?K (st_lift f) ?R"
      by (rule st_spec_lift) (use True that in \<open>auto simp: add_page_Ok_iff grown_def\<close>)
    ultimately have "st_spec ?I ?K (st_bind (st_lift (\<lambda>r. validate_range_in_file off n (rg_file_len r) l)) (\<lambda>_.
         st_bind (fetch_range io a b) (\<lambda>bytes.
         st_bind (st_lift (\<lambda>_. page_from_le_bytes bytes)) (\<lambda>page.
         st_bind (st_fold load_entry (page_entries page)) (\<lambda>_. st_lift f))))) ?R"
      by (intro st_spec_bind [where Q = "\<lambda>_. ?K"]) auto
    then show ?thesis by (rule st_spec_pre) simp
  qed (simp add: st_spec_def)
  show ?thesis
    unfolding load_page_def
    by (intro st_spec_bind [OF size] st_spec_bind [OF seen] st_spec_if skip st_spec_bind [OF visit] bad
        st_spec_bind [OF add] st_spec_bind [OF limit] rest) auto
qed

lemma load_pages_spec:
  "st_spec (\<lambda>s. (c \<longrightarrow> rg_ok s) \<and> same_file r0 s)
    (\<lambda>s. (c \<longrightarrow> rg_ok s) \<and> same_file r0 s \<and> (s = r \<or> grown r s)) (st_fold (load_page io) es)
    (\<lambda>_ s. (c \<longrightarrow> rg_ok s) \<and> same_file r0 s \<and> (s = r \<or> grown r s))"
  (is "st_spec ?I ?P _ _")
proof (rule st_spec_fold)
  fix e
  show "st_spec ?I ?P (load_page io e) (\<lambda>_. ?P)"
    unfolding st_spec_def
  proof (intro allI impI)
    fix s assume P: "?P s"
    obtain res s' where l: "load_page io e s = (res, s')" by (cases "load_page io e s")
    show "case load_page io e s of (Inl _, s') \<Rightarrow> ?I s' | (Inr _, s') \<Rightarrow> ?P s'"
    proof (cases res)
      case (Inl err)
      have "?I s'" by (rule st_spec_Err [OF load_page_spec [of c r0 s io e] l [unfolded Inl]]) (use P in simp)
      then show ?thesis using l Inl by simp
    next
      case (Inr u)
      have "(c \<longrightarrow> rg_ok s') \<and> same_file r0 s' \<and> (s' = s \<or> grown s s')"
        by (rule st_spec_Ok [OF load_page_spec [of c r0 s io e] l [unfolded Inr]]) (use P in simp)
      then show ?thesis using l Inr P by (auto simp: grown_def)
    qed
  qed
qed

lemma split_pending_length:
  "split_pending log2 info q pages = Ok (relevant, rest) \<Longrightarrow> length relevant + length rest = length pages"
proof -
  define step where "step = (\<lambda>e (relevant, rest).
       bind_res (page_may_match log2 (e_key (e :: entry)) info q) (\<lambda>may_match.
       Ok (if may_match then (relevant @ [e], rest) else (relevant, rest @ [e]))))"
  have "length relevant + length rest = length pages + length a + length b"
    if "fold_res step pages (a, b) = Ok (relevant, rest)" for a b
    using that
  proof (induction pages arbitrary: a b)
    case (Cons e pages)
    then obtain st where st: "step e (a, b) = Ok st" "fold_res step pages st = Ok (relevant, rest)"
      unfolding fold_res.simps bind_res_Ok_iff by blast
    from st(1) obtain m where "st = (if m then (a @ [e], b) else (a, b @ [e]))"
      by (auto simp: step_def bind_res_Ok_iff)
    then show ?case using Cons.IH [of "fst st" "snd st"] st(2) by (cases m) auto
  qed simp
  from this [of "[]" "[]"]
  show "split_pending log2 info q pages = Ok (relevant, rest) \<Longrightarrow> length relevant + length rest = length pages"
    by (simp add: split_pending_def step_def)
qed

text \<open>A pass that loads pages either reads bytes of the hierarchy or leaves fewer pages pending.\<close>

lemma hierarchy_pass_spec:
  assumes "hierarchy_pass log2 io q r = (res, r')"
  shows "(rg_ok r \<longrightarrow> rg_ok r') \<and> same_file r r' \<and>
    (\<forall>more. res = Inr more \<longrightarrow> (more \<longrightarrow> grown r r' \<or> (total_bytes (rg_limits r') = total_bytes (rg_limits r) \<and>
       length (rg_pending_pages r') < length (rg_pending_pages r))) \<and> (\<not> more \<longrightarrow> rg_hierarchy r' = rg_hierarchy r))"
proof (cases "split_pending log2 (rg_copc_info r) q (rg_pending_pages r)")
  case (Inl e)
  then show ?thesis using assms by (auto simp: hierarchy_pass_def rg_ok_fields same_file_def)
next
  case (Inr p)
  obtain relevant rest where p: "p = (relevant, rest)" by (cases p)
  let ?r = "r\<lparr>rg_pending_pages := rest\<rparr>"
  have len: "length relevant + length rest = length (rg_pending_pages r)"
    using split_pending_length Inr p by blast
  show ?thesis
  proof (cases "relevant = []")
    case True
    then show ?thesis using assms Inr p by (auto simp: hierarchy_pass_def rg_ok_fields same_file_def)
  next
    case False
    obtain u s where f: "st_fold (load_page io) relevant ?r = (u, s)" by (cases "st_fold (load_page io) relevant ?r")
    note sp = load_pages_spec [of "rg_ok r" r ?r io relevant]
    have pre: "(rg_ok r \<longrightarrow> rg_ok ?r) \<and> same_file r ?r \<and> (?r = ?r \<or> grown ?r ?r)"
      by (simp add: rg_ok_fields same_file_def)
    have r': "r' = s" and res: "res = (case u of Inl e \<Rightarrow> Inl e | Inr _ \<Rightarrow> Inr True)"
      using assms False Inr p f by (auto simp: hierarchy_pass_def st_bind_def st_ret_def split: sum.splits)
    show ?thesis
    proof (cases u)
      case (Inl e)
      then show ?thesis using st_spec_Err [OF sp f [unfolded Inl] pre] r' res by simp
    next
      case u: (Inr x)
      have "(rg_ok r \<longrightarrow> rg_ok s) \<and> same_file r s \<and> (s = ?r \<or> grown ?r s)"
        by (rule st_spec_Ok [OF sp f [unfolded u] pre])
      moreover have "length rest < length (rg_pending_pages r)" using len False by (cases relevant) simp_all
      ultimately show ?thesis using r' res u by (auto simp: grown_def)
    qed
  qed
qed

lemma hierarchy_pass_progress:
  assumes "(Inr True, r') = hierarchy_pass log2 io q r"
  shows "MAX_HIERARCHY_TOTAL_BYTES - total_bytes (rg_limits r') < MAX_HIERARCHY_TOTAL_BYTES - total_bytes (rg_limits r) \<or>
    (MAX_HIERARCHY_TOTAL_BYTES - total_bytes (rg_limits r') = MAX_HIERARCHY_TOTAL_BYTES - total_bytes (rg_limits r) \<and>
     length (rg_pending_pages r') < length (rg_pending_pages r))"
  using hierarchy_pass_spec [OF assms [symmetric]] by (auto simp: grown_def)

text \<open>\<^verbatim>\<open>ensure_hierarchy_for\<close>: passes until no pending page is relevant.\<close>

function ensure_hierarchy_for :: "(f64 \<Rightarrow> f64) \<Rightarrow> 's range_read \<Rightarrow> point_query \<Rightarrow> (unit, 's, 'laz) rr" where
  "ensure_hierarchy_for log2 io q r =
     (case hierarchy_pass log2 io q r of
        (Inl e, r') \<Rightarrow> (Err e, r')
      | (Inr False, r') \<Rightarrow> (Ok (), r')
      | (Inr True, r') \<Rightarrow> ensure_hierarchy_for log2 io q r')"
  by pat_completeness auto
termination
  by (relation "measures [\<lambda>(_, _, _, r). MAX_HIERARCHY_TOTAL_BYTES - total_bytes (rg_limits r),
      \<lambda>(_, _, _, r). length (rg_pending_pages r)]")
    (auto dest!: hierarchy_pass_progress)

declare ensure_hierarchy_for.simps [simp del]

section \<open>Queries\<close>

definition hierarchy_for :: "(f64 \<Rightarrow> f64) \<Rightarrow> 's range_read \<Rightarrow> point_query \<Rightarrow> (entry list, 's, 'laz) rr" where
  "hierarchy_for log2 io q =
     st_bind (st_lift (\<lambda>_. validate_query q)) (\<lambda>_.
     st_bind (ensure_hierarchy_for log2 io q) (\<lambda>_.
     st_lift (\<lambda>r. select_point_chunks_from log2 (hierarchy_values (rg_hierarchy r)) (rg_copc_info r) q)))"

text \<open>The chunks of one fetched group; the accumulator is a result, as nothing of the reader changes.\<close>

definition group_chunks ::
  "(u8 list \<Rightarrow> nat \<Rightarrow> 'acc \<Rightarrow> 'acc result) \<Rightarrow> u8 list \<Rightarrow> u64 \<Rightarrow> entry \<Rightarrow> 'acc \<Rightarrow> 'acc result" where
  "group_chunks decode bytes group_start e acc =
     bind_res (chunk_slice bytes group_start e) (\<lambda>(chunk_bytes, points_in_chunk). decode chunk_bytes points_in_chunk acc)"

fun read_groups ::
  "'s range_read \<Rightarrow> (u8 list \<Rightarrow> nat \<Rightarrow> 'acc \<Rightarrow> 'acc result) \<Rightarrow> chunk_group list \<Rightarrow> 'acc \<Rightarrow> ('acc, 's, 'laz) rr" where
  "read_groups io decode [] acc = st_ret acc"
| "read_groups io decode (g # groups) acc =
     st_bind (fetch_range io (cg_start g) (cg_end g)) (\<lambda>bytes.
     st_bind (st_lift (\<lambda>_. fold_res (group_chunks decode bytes (cg_start g)) (cg_entries g) acc)) (\<lambda>acc.
     read_groups io decode groups acc))"

definition initial_capacity :: "bounds option \<Rightarrow> entry list \<Rightarrow> nat result" where
  "initial_capacity b chunks =
     (case b of
        Some _ \<Rightarrow> Ok 0
      | None \<Rightarrow> bind_res (total_candidate_points chunks) (\<lambda>n. Ok (min n MAX_INITIAL_COLUMN_RESERVE_POINTS)))"

definition decode_columns ::
  "('laz, 'd) read_ops \<Rightarrow> 'laz chunk_column_decoder \<Rightarrow> u8 list \<Rightarrow> nat \<Rightarrow> column list \<times> nat \<Rightarrow> (column list \<times> nat) result" where
  "decode_columns ops decoder chunk_bytes points_in_chunk = (\<lambda>(columns, accepted_points).
     bind_res (decode_into (ro_decoder ops) (ro_direct ops) decoder chunk_bytes points_in_chunk columns None 0)
       (\<lambda>(columns, accepted, _). Ok (columns, accepted_points + accepted)))"

definition range_read_columns ::
  "('laz, 'd) read_ops \<Rightarrow> 's range_read \<Rightarrow> point_query \<Rightarrow> column_selection \<Rightarrow> (las_column_batch, 's, 'laz) rr" where
  "range_read_columns ops io q selection =
     st_bind (hierarchy_for (ro_log2 ops) io q) (\<lambda>chunks.
     st_bind (st_lift (\<lambda>r. point_format_for (ro_format_new ops) (ro_format_len ops) (rg_header r))) (\<lambda>point_format.
     let b = selection_bounds (pq_bounds q) in
     st_bind (st_lift (\<lambda>r. chunk_column_decoder_new (ro_decoder ops) (ro_format_len ops) (rg_laszip_vlr r) point_format
       (transforms_for (rg_header r)) b)) (\<lambda>decoder.
     st_bind (st_lift (\<lambda>_. initial_capacity b chunks)) (\<lambda>capacity.
     st_bind (st_lift (\<lambda>_. selected_column_builders point_format selection capacity)) (\<lambda>columns.
     st_bind (read_groups io (decode_columns ops decoder)
       (coalesce_chunks chunks RANGE_COALESCE_GAP_BYTES MAX_COALESCED_RANGE_BYTES) (columns, 0)) (\<lambda>(columns, accepted_points).
     st_lift (\<lambda>_.
       let batch = \<lparr>lb_len = accepted_points, lb_columns = columns\<rparr>
       in bind_res (batch_validate batch) (\<lambda>_. Ok batch))))))))"

definition range_read_points ::
  "('laz, 'd, bsection, 'raw, 'p) iter_ops \<Rightarrow> 's range_read \<Rightarrow> point_query \<Rightarrow> ('p list, 's, 'laz) rr" where
  "range_read_points ops io q =
     st_bind (hierarchy_for (io_log2 ops) io q) (\<lambda>chunks.
     st_bind (st_lift (\<lambda>r. point_format_for (io_format_new ops) (io_format_len ops) (rg_header r))) (\<lambda>point_format.
     let b = selection_bounds (pq_bounds q) in
     st_bind (st_lift (\<lambda>_. initial_capacity b chunks)) (\<lambda>_.
     st_bind (st_lift (\<lambda>r. Ok (rg_laszip_vlr r, transforms_for (rg_header r)))) (\<lambda>(laszip_vlr, transforms).
     read_groups io (\<lambda>chunk_bytes points_in_chunk. decode_chunk_points ops chunk_bytes points_in_chunk laszip_vlr point_format transforms b)
       (coalesce_chunks chunks RANGE_COALESCE_GAP_BYTES MAX_COALESCED_RANGE_BYTES) []))))"

section \<open>Opening\<close>

definition validate_root_hierarchy_evlr ::
  "'s range_read \<Rightarrow> nat \<Rightarrow> copc_info \<Rightarrow> (nat \<times> nat, 's) st" where
  "validate_root_hierarchy_evlr io file_len info source =
     (case checked_sub (ci_root_hier_offset info) 60 of
        None \<Rightarrow> (Err (InvalidData ''COPC root hierarchy has no EVLR header''), source)
      | Some header_offset \<Rightarrow>
          st_bind (rr_read_range io header_offset 60) (\<lambda>header.
          let reserved = u16_from_le (bslice header 0 2);
              user_id = trim_nul (bslice header 2 16);
              record_id = u16_from_le (bslice header 18 2);
              body_size = u64_from_le (bslice header 20 8) in
          st_lift (\<lambda>_.
            if reserved \<noteq> 0 \<or> user_id \<noteq> lit ''copc'' \<or> record_id \<noteq> 1000
            then Err (InvalidData ''COPC root hierarchy must immediately follow a copc/1000 EVLR header'')
            else if body_size < ci_root_hier_size info
            then Err (InvalidData ''COPC root hierarchy size {} exceeds hierarchy EVLR body size {body_size}'')
            else
              bind_res (validate_range_in_file (unat (ci_root_hier_offset info)) (unat body_size) file_len ''COPC hierarchy EVLR body'')
                (\<lambda>_. Ok (unat (ci_root_hier_offset info), unat body_size)))) source)"

definition range_open ::
  "'s range_read \<Rightarrow> (u8 list \<Rightarrow> string + 'laz) \<Rightarrow> 's \<Rightarrow> ('s, 'laz) range_reader result" where
  "range_open io laz_read source =
     (case rr_len io source of (file_len, source) \<Rightarrow>
     bind_res file_len (\<lambda>file_len.
     let file_len = unat file_len in
     bind_res (ensure (\<not> file_len < LAS_HEADER_SIZE_14) (InvalidData ''file is {file_len} bytes; COPC requires at least {}'')) (\<lambda>_.
     case rr_read_range io 0 LAS_HEADER_SIZE_14 source of (header_bytes, source) \<Rightarrow>
     bind_res header_bytes (\<lambda>header_bytes.
     bind_res (read_las_header file_len (section_new 0 header_bytes)) (\<lambda>(header, header_section).
     let header_size = sec_pos header_section in
     bind_res (ok_or (if header_size \<le> unat (lh_offset_to_point_data header)
         then Some (unat (lh_offset_to_point_data header) - header_size) else None)
       (InvalidData ''VLR section precedes LAS header end'')) (\<lambda>vlr_section_len.
     bind_res (ensure (\<not> MAX_VLR_SECTION_BYTES < vlr_section_len)
       (InvalidData ''VLR section is {vlr_section_len} bytes, max supported is {}'')) (\<lambda>_.
     case rr_read_range io (of_nat header_size) vlr_section_len source of (vlr_bytes, source) \<Rightarrow>
     bind_res vlr_bytes (\<lambda>vlr_bytes.
     bind_res (read_vlrs (unat (lh_number_of_vlrs header)) file_len (unat (lh_offset_to_point_data header))
       (section_new header_size vlr_bytes)) (\<lambda>(vlrs, _).
     bind_res (extract_required_vlrs laz_read vlrs) (\<lambda>(copc_info, laszip_vlr).
     bind_res (validate_hierarchy_page_byte_size (unat (ci_root_hier_size copc_info))) (\<lambda>_.
     case validate_root_hierarchy_evlr io file_len copc_info source of (evlr, source) \<Rightarrow>
     bind_res evlr (\<lambda>(hier_start, hier_len).
     bind_res (data_ranges_new header hier_start hier_len) (\<lambda>data_ranges.
     let reader = \<lparr>rg_source = source, rg_file_len = file_len, rg_header = header, rg_copc_info = copc_info,
           rg_laszip_vlr = laszip_vlr, rg_hierarchy = RBT.empty, rg_pending_pages = [], rg_visited_pages = {},
           rg_limits = \<lparr>total_bytes = 0\<rparr>, rg_loaded_point_total = 0, rg_data_ranges = data_ranges,
           rg_point_ranges = RBT.empty\<rparr> in
     bind_res (ok_or (i32_try_from_u64 (ci_root_hier_size copc_info)) (InvalidData ''root hierarchy size exceeds i32'')) (\<lambda>byte_size.
     case load_page io \<lparr>e_key = vk_root, e_offset = ci_root_hier_offset copc_info, e_byte_size = byte_size, e_point_count = - 1\<rparr>
         reader of (root_loaded, reader) \<Rightarrow>
     bind_res root_loaded (\<lambda>_. Ok reader)))))))))))))))"

end
