(* ===== verification/Ranged_Spec.thy ===== *)
theory Ranged_Spec
  imports Ranged
begin

text \<open>
  What the range reader promises: fetching chunks in coalesced groups gives each chunk its own bytes; a
  source that serves a file keeps serving it; the checks made when pages are loaded hold after any
  requests, so that the chunks of a query are inside the file and apart from each other; and what a
  failed request or a leaf page leaves behind.
\<close>

section \<open>Coalescing\<close>

text \<open>A chunk that lies in the file \<open>data\<close>.\<close>

definition chunk_within :: "u8 list \<Rightarrow> entry \<Rightarrow> bool" where
  "chunk_within data e \<longleftrightarrow> 0 < sint (e_point_count e) \<and> 0 < sint (e_byte_size e) \<and> entry_hi e \<le> length data"

definition chunk_bytes_of :: "u8 list \<Rightarrow> entry \<Rightarrow> u8 list" where
  "chunk_bytes_of data e = bslice data (entry_lo e) (nat (sint (e_byte_size e)))"

definition group_ok :: "u64 \<Rightarrow> chunk_group \<Rightarrow> bool" where
  "group_ok max_range_bytes g \<longleftrightarrow>
     cg_entries g \<noteq> [] \<and> cg_start g = e_offset (hd (cg_entries g)) \<and>
     unat (cg_end g) = entry_hi (last (cg_entries g)) \<and> cg_start g \<le> cg_end g \<and>
     (\<forall>e \<in> set (cg_entries g). unat (cg_start g) \<le> entry_lo e \<and> entry_hi e \<le> unat (cg_end g)) \<and>
     (length (cg_entries g) > 1 \<longrightarrow> unat (cg_end g) - unat (cg_start g) \<le> unat max_range_bytes)"

lemma end_pos_word:
  assumes "0 < sint (e_byte_size e)" "entry_hi e < 2 ^ 64"
  shows "unat (e_offset e + word_of_int (max (sint (e_byte_size e)) 0)) = entry_hi e"
proof -
  have gen: "unat (word_of_int k :: u64) = nat k" if "0 \<le> k" "k < 2 ^ 31" for k
    using that by (simp add: unsigned_of_int take_bit_int_eq_self)
  have s: "unat (word_of_int (sint (e_byte_size e)) :: u64) = nat (sint (e_byte_size e))"
    by (rule gen) (use assms(1) sint_in_range_i32 [of "e_byte_size e"] in simp_all)
  have m: "max (sint (e_byte_size e)) 0 = sint (e_byte_size e)" using assms(1) by simp
  have "unat (e_offset e) + nat (sint (e_byte_size e)) < 2 ^ 64" using assms(2) by (simp add: entry_hi_def)
  then show ?thesis unfolding m unat_word_ariths s by (simp add: entry_hi_def)
qed

lemma saturating_sub_le: "unat (saturating_sub a b) = unat a - unat b"
proof (cases "b \<le> a")
  case True
  then show ?thesis by (simp add: saturating_sub_def unat_sub)
next
  case False
  then show ?thesis by (simp add: saturating_sub_def word_le_nat_alt)
qed

lemma coalesce_step_ok:
  assumes "list_all (group_ok mx) groups" "0 < sint (e_byte_size e)" "entry_hi e < 2 ^ 64"
    and "groups \<noteq> [] \<longrightarrow> entry_hi (last (cg_entries (last groups))) \<le> entry_lo e"
  shows "list_all (group_ok mx) (coalesce_step gap mx e groups) \<and>
    concat (map cg_entries (coalesce_step gap mx e groups)) = concat (map cg_entries groups) @ [e] \<and>
    coalesce_step gap mx e groups \<noteq> [] \<and> last (cg_entries (last (coalesce_step gap mx e groups))) = e"
proof -
  let ?hi = "e_offset e + word_of_int (max (sint (e_byte_size e)) 0)"
  have u: "unat ?hi = entry_hi e" by (rule end_pos_word [OF assms(2,3)])
  have lohi: "entry_lo e < entry_hi e" using assms(2) by (simp add: entry_lo_def entry_hi_def)
  have new: "group_ok mx \<lparr>cg_start = e_offset e, cg_end = ?hi, cg_entries = [e]\<rparr>"
    using u lohi by (simp add: group_ok_def entry_lo_def word_le_nat_alt)
  show ?thesis
  proof (cases "groups \<noteq> [] \<and> e_offset e \<le> saturating_add (cg_end (last groups)) gap \<and>
         saturating_sub ?hi (cg_start (last groups)) \<le> mx")
    case True
    define g where "g = last groups"
    have gs: "groups = butlast groups @ [g]" using True by (simp add: g_def)
    have g: "group_ok mx g" using assms(1) True by (simp add: g_def list_all_iff)
    have le: "unat (cg_end g) \<le> entry_lo e" using assms(4) True g by (simp add: g_def group_ok_def)
    then have me: "max (cg_end g) ?hi = ?hi" using u lohi by (simp add: max_def word_le_nat_alt)
    have start: "unat (cg_start g) \<le> unat (cg_end g)" using g unfolding group_ok_def word_le_nat_alt by blast
    have sz: "entry_hi e - unat (cg_start g) \<le> unat mx"
      using True unfolding g_def word_le_nat_alt saturating_sub_le u by simp
    have "group_ok mx (g\<lparr>cg_end := ?hi, cg_entries := cg_entries g @ [e]\<rparr>)"
      using g u le lohi start sz by (auto simp: group_ok_def word_le_nat_alt)
    moreover have step: "coalesce_step gap mx e groups = butlast groups @ [g\<lparr>cg_end := ?hi, cg_entries := cg_entries g @ [e]\<rparr>]"
      using True me by (simp add: coalesce_step_def Let_def g_def)
    moreover have "list_all (group_ok mx) (butlast groups)" using assms(1) by (auto simp: list_all_iff dest: in_set_butlastD)
    moreover have "concat (map cg_entries groups) = concat (map cg_entries (butlast groups)) @ cg_entries g"
      by (subst gs) simp
    ultimately show ?thesis by simp
  next
    case False
    then have "coalesce_step gap mx e groups = groups @ [\<lparr>cg_start = e_offset e, cg_end = ?hi, cg_entries = [e]\<rparr>]"
      unfolding coalesce_step_def Let_def by (rule if_not_P)
    then show ?thesis using new assms(1) by simp
  qed
qed

lemma coalesce_ok:
  assumes "list_all (chunk_within data) chunks" "sorted_wrt (\<lambda>e e'. entry_hi e \<le> entry_lo e') chunks" "length data < 2 ^ 64"
  shows "list_all (group_ok mx) (coalesce_chunks chunks gap mx) \<and> concat (map cg_entries (coalesce_chunks chunks gap mx)) = chunks"
proof -
  have "list_all (group_ok mx) (fold (coalesce_step gap mx) es groups) \<and>
      concat (map cg_entries (fold (coalesce_step gap mx) es groups)) = concat (map cg_entries groups) @ es"
    if "list_all (group_ok mx) groups" "list_all (chunk_within data) es" "sorted_wrt (\<lambda>e e'. entry_hi e \<le> entry_lo e') es"
      "groups \<noteq> [] \<longrightarrow> (\<forall>e \<in> set es. entry_hi (last (cg_entries (last groups))) \<le> entry_lo e)" for es groups
    using that
  proof (induction es arbitrary: groups)
    case (Cons e es)
    have "entry_hi e < 2 ^ 64" using Cons.prems(2) assms(3) by (simp add: chunk_within_def)
    with coalesce_step_ok [OF Cons.prems(1), of e gap] Cons.prems have
      "list_all (group_ok mx) (coalesce_step gap mx e groups)"
      "concat (map cg_entries (coalesce_step gap mx e groups)) = concat (map cg_entries groups) @ [e]"
      "last (cg_entries (last (coalesce_step gap mx e groups))) = e" by (auto simp: chunk_within_def)
    then show ?case using Cons.IH [of "coalesce_step gap mx e groups"] Cons.prems by simp
  qed simp
  from this [of "[]" chunks] show ?thesis using assms by (simp add: coalesce_chunks_def)
qed

lemma chunk_slice_group:
  assumes "group_ok mx g" "e \<in> set (cg_entries g)" "unat (cg_end g) \<le> length data" "length data < 2 ^ 64" "chunk_within data e"
  shows "chunk_slice (bslice data (unat (cg_start g)) (unat (cg_end g) - unat (cg_start g))) (cg_start g) e =
    Ok (chunk_bytes_of data e, nat (sint (e_point_count e)))"
proof -
  have g: "unat (cg_start g) \<le> entry_lo e" "entry_hi e \<le> unat (cg_end g)" using assms(1,2) unfolding group_ok_def by blast+
  then have off: "unat (e_offset e - cg_start g) = entry_lo e - unat (cg_start g)"
    by (simp add: entry_lo_def unat_sub word_le_nat_alt)
  have e: "0 < sint (e_point_count e)" "0 < sint (e_byte_size e)" "entry_hi e \<le> length data"
    using assms(5) by (simp_all add: chunk_within_def)
  have hi: "entry_hi e = entry_lo e + nat (sint (e_byte_size e))" by (simp add: entry_hi_def entry_lo_def)
  have c: "checked_add_usize (entry_lo e - unat (cg_start g)) (nat (sint (e_byte_size e))) =
      Some (entry_hi e - unat (cg_start g))"
    using g hi e(3) assms(4) by (simp add: checked_add_usize_def usize_max_def)
  have sub: "bslice (bslice data (unat (cg_start g)) (unat (cg_end g) - unat (cg_start g)))
      (entry_lo e - unat (cg_start g)) (nat (sint (e_byte_size e))) = chunk_bytes_of data e"
    using g hi assms(3) by (simp add: chunk_bytes_of_def bslice_bslice)
  show ?thesis
    using g hi e assms(3) by (simp add: chunk_slice_def usize_try_from_i32_def off c sub Let_def)
qed

section \<open>A source that serves a file\<close>

definition serving :: "('s \<Rightarrow> u8 list \<Rightarrow> bool) \<Rightarrow> u8 list \<Rightarrow> ('s, 'laz) range_reader \<Rightarrow> bool" where
  "serving holds data r \<longleftrightarrow> holds (rg_source r) data \<and> rg_file_len r = length data"

lemma serving_fields:
  "serving holds data (r\<lparr>rg_loaded_point_total := n\<rparr>) = serving holds data r"
  "serving holds data (r\<lparr>rg_pending_pages := p\<rparr>) = serving holds data r"
  "serving holds data (r\<lparr>rg_limits := l\<rparr>) = serving holds data r"
  "serving holds data (r\<lparr>rg_visited_pages := v\<rparr>) = serving holds data r"
  "serving holds data (r\<lparr>rg_hierarchy := h\<rparr>) = serving holds data r"
  "serving holds data (r\<lparr>rg_point_ranges := t\<rparr>) = serving holds data r"
  by (simp_all add: serving_def)

lemma load_entry_serving: "st_spec (serving holds data) (serving holds data) (load_entry e) (\<lambda>_. serving holds data)"
  (is "st_spec ?S _ _ _")
proof -
  have lift: "st_spec ?S ?S (st_lift f) (\<lambda>_. ?S)" for f by (rule st_spec_lift)
  have total: "st_spec ?S ?S (case a of
         PointData point_count \<Rightarrow>
           st_bind (st_lift (\<lambda>r. ok_or
             (if rg_loaded_point_total r + unat point_count < 2 ^ 64 then Some (rg_loaded_point_total r + unat point_count) else None)
             (InvalidData ''hierarchy point total overflow'')))
           (\<lambda>total. st_update (\<lambda>r. r\<lparr>rg_loaded_point_total := total\<rparr>))
       | _ \<Rightarrow> st_ret ()) (\<lambda>_. ?S)" for a
    by (cases a; simp) (auto intro!: st_spec_bind [OF lift] st_spec_update st_spec_ret simp: serving_fields)
  show ?thesis
    unfolding load_entry_def
    by (intro st_spec_bind [OF lift] st_spec_bind [OF total] st_spec_bind [where Q = "\<lambda>_. ?S"] st_spec_if
        st_spec_update st_spec_ret) (simp_all add: serving_fields)
qed

context range_source begin

lemma fetch_served:
  assumes "serving holds data r" "unat a \<le> unat b" "unat b \<le> length data"
  shows "\<exists>s. fetch_range ops a b r = (Ok (bslice data (unat a) (unat b - unat a)), r\<lparr>rg_source := s\<rparr>) \<and>
    serving holds data (r\<lparr>rg_source := s\<rparr>)"
proof -
  have c: "checked_sub b a = Some (b - a)" "unat (b - a) = unat b - unat a"
    using assms(2) by (simp_all add: checked_sub_def word_le_nat_alt unat_sub)
  from read_law [of "rg_source r" data a "unat b - unat a"] assms obtain s where
    "rr_read_range ops a (unat b - unat a) (rg_source r) = (Ok (bslice data (unat a) (unat b - unat a)), s)" "holds s data"
    by (auto simp: serving_def)
  then show ?thesis using assms(1) c by (auto simp: fetch_range_def serving_def)
qed

text \<open>Reading the groups is decoding, one after the other, the bytes of the chunks.\<close>

lemma read_groups_exact:
  assumes "serving holds data r" "list_all (group_ok mx) groups"
    and "list_all (chunk_within data) (concat (map cg_entries groups))"
  shows "fst (read_groups ops decode groups acc r) =
    fold_res (\<lambda>e. decode (chunk_bytes_of data e) (nat (sint (e_point_count e)))) (concat (map cg_entries groups)) acc"
  using assms
proof (induction groups arbitrary: acc r)
  case Nil
  then show ?case by (simp add: st_ret_def)
next
  case (Cons g groups)
  let ?step = "\<lambda>e. decode (chunk_bytes_of data e) (nat (sint (e_point_count e)))"
  have g: "group_ok mx g" "list_all (chunk_within data) (cg_entries g)" using Cons.prems(2,3) by simp_all
  have small: "length data < 2 ^ 64" using size_law [of "rg_source r" data] Cons.prems(1) by (simp add: serving_def)
  have "last (cg_entries g) \<in> set (cg_entries g)" "unat (cg_end g) = entry_hi (last (cg_entries g))"
    using g(1) unfolding group_ok_def by simp_all
  then have hi: "unat (cg_end g) \<le> length data" using g(2) by (simp add: list_all_iff chunk_within_def)
  have le: "unat (cg_start g) \<le> unat (cg_end g)" using g(1) unfolding group_ok_def word_le_nat_alt by blast
  from fetch_served [OF Cons.prems(1) le hi] obtain s where
    f: "fetch_range ops (cg_start g) (cg_end g) r =
        (Ok (bslice data (unat (cg_start g)) (unat (cg_end g) - unat (cg_start g))), r\<lparr>rg_source := s\<rparr>)"
      "serving holds data (r\<lparr>rg_source := s\<rparr>)" by blast
  have inner: "fold_res (group_chunks decode (bslice data (unat (cg_start g)) (unat (cg_end g) - unat (cg_start g))) (cg_start g)) es acc =
      fold_res ?step es acc" if "set es \<subseteq> set (cg_entries g)" for es acc
    using that
  proof (induction es arbitrary: acc)
    case (Cons e es)
    have "chunk_within data e" using g(2) Cons.prems by (simp add: list_all_iff)
    with chunk_slice_group [OF g(1) _ hi small] Cons.prems have
      "group_chunks decode (bslice data (unat (cg_start g)) (unat (cg_end g) - unat (cg_start g))) (cg_start g) e acc = ?step e acc"
      for acc by (simp add: group_chunks_def)
    then show ?case using Cons.IH Cons.prems by (auto simp: bind_res_def split: sum.splits)
  qed simp
  show ?case
  proof (cases "fold_res ?step (cg_entries g) acc")
    case (Inl e)
    then show ?thesis using inner [of "cg_entries g" acc] by (simp add: st_bind_def f st_lift_def fold_res_append)
  next
    case (Inr acc')
    then show ?thesis
      using inner [of "cg_entries g" acc] Cons.IH [OF f(2), of acc'] Cons.prems
      by (simp add: st_bind_def f st_lift_def fold_res_append)
  qed
qed

lemma load_page_serving: "st_spec (serving holds data) (serving holds data) (load_page ops e) (\<lambda>_. serving holds data)"
  (is "st_spec ?S _ _ _")
proof -
  have lift: "st_spec ?S ?S (st_lift f) (\<lambda>_. ?S)" for f by (rule st_spec_lift)
  have valid: "st_spec ?S ?S (st_lift (\<lambda>r. validate_range_in_file off n (rg_file_len r) l))
      (\<lambda>_ r. ?S r \<and> off + n \<le> length data \<and> off + n < 2 ^ 64)" for off n l
    by (rule st_spec_lift) (auto simp: validate_range_in_file_Ok_iff serving_def)
  have fetch: "st_spec ?S (\<lambda>r. ?S r \<and> unat off + n \<le> length data \<and> unat off + n < 2 ^ 64)
      (fetch_range ops off (off + of_nat n)) (\<lambda>_. ?S)" for off n
    unfolding st_spec_def
  proof (intro allI impI)
    fix r assume r: "?S r \<and> unat off + n \<le> length data \<and> unat off + n < 2 ^ 64"
    then have "unat (off + of_nat n) = unat off + n" by (simp add: unat_word_ariths unat_of_nat)
    with fetch_served [of data r off "off + of_nat n"] r
    show "case fetch_range ops off (off + of_nat n) r of (Inl _, s') \<Rightarrow> ?S s' | (Inr _, s') \<Rightarrow> ?S s'" by auto
  qed
  have fold: "st_spec ?S ?S (st_fold load_entry es) (\<lambda>_. ?S)" for es
    by (rule st_spec_fold) (rule load_entry_serving)
  have upd: "st_spec ?S ?S (st_update (\<lambda>r. r\<lparr>rg_visited_pages := f r\<rparr>)) (\<lambda>_. ?S)"
      "st_spec ?S ?S (st_update (\<lambda>r. r\<lparr>rg_limits := l\<rparr>)) (\<lambda>_. ?S)" for f l
    by (rule st_spec_update; simp add: serving_fields)+
  show ?thesis
    unfolding load_page_def
    by (intro st_spec_bind [OF valid] st_spec_bind [OF fetch] st_spec_bind [OF fold] st_spec_bind [OF upd(1)]
        st_spec_bind [OF upd(2)] st_spec_bind [OF lift] st_spec_if st_spec_ret lift)
qed

lemma hierarchy_pass_serving:
  assumes "serving holds data r" "hierarchy_pass log2 ops q r = (res, r')"
  shows "serving holds data r'"
proof -
  have fold: "st_spec (serving holds data) (serving holds data) (st_fold (load_page ops) es) (\<lambda>_. serving holds data)" for es
    by (rule st_spec_fold) (rule load_page_serving)
  show ?thesis
  proof (cases "split_pending log2 (rg_copc_info r) q (rg_pending_pages r)")
    case (Inl e)
    then show ?thesis using assms by (auto simp: hierarchy_pass_def serving_fields)
  next
    case (Inr p)
    obtain relevant rest where p: "p = (relevant, rest)" by (cases p)
    have pre: "serving holds data (r\<lparr>rg_pending_pages := rest\<rparr>)" using assms(1) by (simp add: serving_fields)
    obtain u s where f: "st_fold (load_page ops) relevant (r\<lparr>rg_pending_pages := rest\<rparr>) = (u, s)"
      by (cases "st_fold (load_page ops) relevant (r\<lparr>rg_pending_pages := rest\<rparr>)")
    have "serving holds data s"
      using st_spec_Ok [OF fold _ pre] st_spec_Err [OF fold _ pre] f
      by (cases u) auto
    then show ?thesis using assms Inr p f pre
      by (auto simp: hierarchy_pass_def st_bind_def st_ret_def Let_def split: if_splits sum.splits)
  qed
qed

lemma ensure_serving:
  assumes "serving holds data r" "ensure_hierarchy_for log2 ops q r = (res, r')"
  shows "serving holds data r'"
proof -
  have "io = ops \<Longrightarrow> serving holds data r \<Longrightarrow> ensure_hierarchy_for log2 io q r = (res, r') \<Longrightarrow> serving holds data r'" for io
  proof (induction log2 io q r arbitrary: res r' rule: ensure_hierarchy_for.induct)
    case (1 log2 io q r)
    note 1 = 1(1,3,4) [unfolded 1(2)]
    obtain u s where p: "hierarchy_pass log2 ops q r = (u, s)" by (cases "hierarchy_pass log2 ops q r")
    have s: "serving holds data s" by (rule hierarchy_pass_serving [OF 1(2) p])
    show ?case
    proof (cases "u = Inr True")
      case True
      then have "ensure_hierarchy_for log2 ops q s = (res, r')"
        using 1(3) p by (simp add: ensure_hierarchy_for.simps [of log2 ops q r])
      from 1(1) [OF p [symmetric] True refl refl s this] show ?thesis .
    next
      case False
      then show ?thesis using 1(3) p s
        by (cases u) (auto simp: ensure_hierarchy_for.simps [of log2 ops q r] split: bool.splits)
    qed
  qed
  then show ?thesis using assms by blast
qed

end

section \<open>The state of a reader\<close>

lemma ensure_spec:
  assumes "ensure_hierarchy_for log2 io q r = (res, r')"
  shows "(rg_ok r \<longrightarrow> rg_ok r') \<and> same_file r r'"
  using assms
proof (induction log2 io q r arbitrary: res r' rule: ensure_hierarchy_for.induct)
  case (1 log2 io q r)
  obtain u s where p: "hierarchy_pass log2 io q r = (u, s)" by (cases "hierarchy_pass log2 io q r")
  have s: "(rg_ok r \<longrightarrow> rg_ok s) \<and> same_file r s" using hierarchy_pass_spec [OF p] by blast
  show ?case
  proof (cases "u = Inr True")
    case True
    then have "ensure_hierarchy_for log2 io q s = (res, r')"
      using 1(2) p by (simp add: ensure_hierarchy_for.simps [of log2 io q r])
    from 1(1) [OF p [symmetric] True refl this] show ?thesis using s by (auto simp: same_file_def)
  next
    case False
    then show ?thesis using 1(2) p s
      by (cases u) (auto simp: ensure_hierarchy_for.simps [of log2 io q r] split: bool.splits)
  qed
qed

lemma hierarchy_for_ok:
  assumes "hierarchy_for log2 io q r = (res, r')"
  shows "(rg_ok r \<longrightarrow> rg_ok r') \<and> same_file r r' \<and> (\<forall>chunks. res = Ok chunks \<longrightarrow>
        select_point_chunks_from log2 (hierarchy_values (rg_hierarchy r')) (rg_copc_info r') q = Ok chunks)"
proof (cases "validate_query q")
  case (Inl e)
  then show ?thesis using assms by (auto simp: hierarchy_for_def st_bind_def st_lift_def same_file_def)
next
  case (Inr v)
  obtain u s where e: "ensure_hierarchy_for log2 io q r = (u, s)" by (cases "ensure_hierarchy_for log2 io q r")
  then show ?thesis
    using assms Inr ensure_spec [OF e] by (cases u) (auto simp: hierarchy_for_def st_bind_def st_lift_def)
qed

text \<open>The chunks a query reads: valid entries that follow each other inside the file.\<close>

lemma rg_ok_values:
  assumes "rg_ok r"
  shows "list_all (\<lambda>e. validate_hierarchy_entry e (rg_file_len r) (rg_data_ranges r) = Ok ()) (hierarchy_values (rg_hierarchy r))"
    and "sorted_wrt chunks_disjoint (filter has_point_data (hierarchy_values (rg_hierarchy r)))"
proof -
  have key: "e_key e = k" if "RBT.lookup (rg_hierarchy r) k = Some e" for k e
    using assms that by (auto simp: rg_ok_def)
  show "list_all (\<lambda>e. validate_hierarchy_entry e (rg_file_len r) (rg_data_ranges r) = Ok ()) (hierarchy_values (rg_hierarchy r))"
    using assms by (auto simp: list_all_iff set_hierarchy_values rg_ok_def)
  have s: "sorted_wrt (\<lambda>a b. e_key a < e_key b) (hierarchy_values (rg_hierarchy r))"
    using hierarchy_values_sorted [OF key] by (simp add: sorted_wrt_map)
  then have s: "sorted_wrt (\<lambda>a b. e_key a < e_key b) (filter has_point_data (hierarchy_values (rg_hierarchy r)))"
    by (rule sorted_wrt_filter)
  show "sorted_wrt chunks_disjoint (filter has_point_data (hierarchy_values (rg_hierarchy r)))"
  proof (rule sorted_wrt_mono_rel [OF _ s])
    fix a b
    assume a: "a \<in> set (filter has_point_data (hierarchy_values (rg_hierarchy r)))"
      and b: "b \<in> set (filter has_point_data (hierarchy_values (rg_hierarchy r)))" and lt: "e_key a < e_key b"
    have "RBT.lookup (rg_point_ranges r) (entry_lo x) = Some (entry_hi x, e_key x)"
      if x: "x \<in> set (filter has_point_data (hierarchy_values (rg_hierarchy r)))" for x
      using x assms key by (auto simp: set_hierarchy_values rg_ok_def)
    note this [OF a] this [OF b]
    moreover have "entry_lo a \<noteq> entry_lo b" using calculation lt by auto
    moreover have "ranges_disjoint (rg_point_ranges r)" using assms by (simp add: rg_ok_def)
    ultimately show "chunks_disjoint a b" unfolding ranges_disjoint_def chunks_disjoint_def
      by (metis linorder_neqE_nat)
  qed
qed

lemma selected_chunks:
  assumes "rg_ok r" "select_point_chunks_from log2 (hierarchy_values (rg_hierarchy r)) info q = Ok chunks"
  shows "set chunks \<subseteq> set (hierarchy_values (rg_hierarchy r))"
    and "list_all has_point_data chunks"
    and "sorted_wrt (\<lambda>a b. entry_hi a \<le> entry_lo b) chunks"
proof -
  note vals = rg_ok_values [OF assms(1)]
  have v: "list_all (\<lambda>e. entry_validate e = Ok ()) (hierarchy_values (rg_hierarchy r))"
    using vals(1) by (auto simp: list_all_iff validate_hierarchy_entry_Ok_iff)
  from assms(2) obtain levels where
    ch: "chunks = sort_key (\<lambda>e. (e_offset e, e_key e)) (filter (wanted info levels (pq_bounds q)) (hierarchy_values (rg_hierarchy r)))"
    unfolding select_valid [OF v] by (auto simp: bind_res_Ok_iff)
  let ?f = "filter (wanted info levels (pq_bounds q)) (hierarchy_values (rg_hierarchy r))"
  show "set chunks \<subseteq> set (hierarchy_values (rg_hierarchy r))" by (auto simp: ch)
  show "list_all has_point_data chunks" using wanted_has_points by (simp add: ch list_all_iff)
  have "filter (wanted info levels (pq_bounds q)) (filter has_point_data es) = filter (wanted info levels (pq_bounds q)) es" for es
    by (induction es) (auto simp: wanted_def)
  then have "sorted_wrt chunks_disjoint ?f" using sorted_wrt_filter [OF vals(2)] by metis
  moreover have "list_all (\<lambda>e. entry_validate e = Ok ()) ?f" using v by (simp add: list_all_iff)
  ultimately show "sorted_wrt (\<lambda>a b. entry_hi a \<le> entry_lo b) chunks"
    unfolding ch by (intro sort_disjoint_chunks wanted_has_points)
qed


text \<open>No request changes the file or breaks the invariant, whether it succeeds or fails.\<close>

datatype request =
    Req_Chunks point_query
  | Req_Columns point_query column_selection
  | Req_Points point_query

definition serve ::
  "('laz, 'd) read_ops \<Rightarrow> ('laz, 'd, bsection, 'raw, 'p) iter_ops \<Rightarrow> 's range_read \<Rightarrow> request \<Rightarrow>
    ('s, 'laz) range_reader \<Rightarrow> ('s, 'laz) range_reader" where
  "serve ops iops io req r =
     (case req of
        Req_Chunks q \<Rightarrow> snd (hierarchy_for (ro_log2 ops) io q r)
      | Req_Columns q selection \<Rightarrow> snd (range_read_columns ops io q selection r)
      | Req_Points q \<Rightarrow> snd (range_read_points iops io q r))"

lemma st_spec_snd: "st_spec I I m (\<lambda>_. I) \<Longrightarrow> I s \<Longrightarrow> I (snd (m s))"
  by (cases "m s") (fastforce simp: st_spec_def split: sum.splits)

lemma read_groups_spec:
  assumes "\<And>r source. I r \<Longrightarrow> I (r\<lparr>rg_source := source\<rparr>)"
  shows "st_spec I I (read_groups io decode groups acc) (\<lambda>_. I)"
proof (induction groups arbitrary: acc)
  case (Cons g groups)
  have f: "st_spec I I (fetch_range io a b) (\<lambda>_. I)" for a b by (rule fetch_range_spec) (use assms in auto)
  have lift: "st_spec I I (st_lift f) (\<lambda>_. I)" for f by (rule st_spec_lift)
  show ?case unfolding read_groups.simps by (intro st_spec_bind [OF f] st_spec_bind [OF lift] Cons.IH)
qed (simp add: st_spec_ret)

lemma serve_spec: "rg_ok r \<and> same_file r0 r \<Longrightarrow> rg_ok (serve ops iops io req r) \<and> same_file r0 (serve ops iops io req r)"
proof -
  let ?I = "\<lambda>r. rg_ok r \<and> same_file r0 r"
  have h: "st_spec ?I ?I (hierarchy_for log2 io q) (\<lambda>_. ?I)" for log2 io q
    unfolding st_spec_def
  proof (intro allI impI)
    fix s assume s: "?I s"
    obtain res s' where h: "hierarchy_for log2 io q s = (res, s')" by (cases "hierarchy_for log2 io q s")
    then show "case hierarchy_for log2 io q s of (Inl _, s') \<Rightarrow> ?I s' | (Inr _, s') \<Rightarrow> ?I s'"
      using hierarchy_for_ok [OF h] s by (cases res) (auto simp: same_file_def)
  qed
  have g: "st_spec ?I ?I (read_groups io decode groups acc) (\<lambda>_. ?I)" for decode :: "u8 list \<Rightarrow> nat \<Rightarrow> 'x \<Rightarrow> 'x result" and groups acc
    by (rule read_groups_spec) (auto simp: rg_ok_fields same_file_def)
  have lift: "st_spec ?I ?I (st_lift f) (\<lambda>_. ?I)" for f :: "_ \<Rightarrow> 'y result" by (rule st_spec_lift)
  have c: "st_spec ?I ?I (range_read_columns ops io q selection) (\<lambda>_. ?I)" for q selection
    unfolding range_read_columns_def Let_def case_prod_beta
    by (intro st_spec_bind [OF h] st_spec_bind [OF lift] st_spec_bind [OF g] lift)
  have p: "st_spec ?I ?I (range_read_points iops io q) (\<lambda>_. ?I)" for q
    unfolding range_read_points_def Let_def case_prod_beta
    by (intro st_spec_bind [OF h] st_spec_bind [OF lift] g)
  assume "?I r"
  with st_spec_snd [OF h] st_spec_snd [OF c] st_spec_snd [OF p] show ?thesis
    by (cases req) (simp_all add: serve_def)
qed

lemma data_ranges_new_points:
  "data_ranges_new h s n = Ok d \<Longrightarrow> point_data_start d = unat (lh_offset_to_point_data h) \<and>
    point_data_end d = unat (lh_offset_to_first_evlr h)"
  by (auto simp: data_ranges_new_def Let_def bind_res_Ok_iff split: if_splits)

lemma range_open_loads_root:
  assumes "range_open io laz_read source = Ok r"
  shows "\<exists>r0 e. rg_hierarchy r0 = RBT.empty \<and> rg_point_ranges r0 = RBT.empty \<and>
    point_data_start (rg_data_ranges r0) = unat (lh_offset_to_point_data (rg_header r0)) \<and>
    point_data_end (rg_data_ranges r0) = unat (lh_offset_to_first_evlr (rg_header r0)) \<and>
    load_page io e r0 = (Ok (), r)"
proof -
  from assms obtain r0 e ranges s n u where "fst (load_page io e r0) = Ok u" "Ok (snd (load_page io e r0)) = Ok r"
    "data_ranges_new (rg_header r0) s n = Ok ranges" "rg_data_ranges r0 = ranges"
    "rg_hierarchy r0 = RBT.empty" "rg_point_ranges r0 = RBT.empty"
    unfolding range_open_def Let_def case_prod_beta bind_res_Ok_iff ensure_def
    by (elim exE conjE) (rule that, assumption, assumption, simp_all)
  then show ?thesis by (intro exI [of _ r0] exI [of _ e])
    (auto dest: data_ranges_new_points simp: prod_eq_iff)
qed

lemma range_open_ok:
  assumes "range_open io laz_read source = Ok r"
  shows "rg_ok r \<and>
    point_data_start (rg_data_ranges r) = unat (lh_offset_to_point_data (rg_header r)) \<and>
    point_data_end (rg_data_ranges r) = unat (lh_offset_to_first_evlr (rg_header r))"
proof -
  obtain r0 e where r0: "rg_hierarchy r0 = RBT.empty" "rg_point_ranges r0 = RBT.empty"
    "point_data_start (rg_data_ranges r0) = unat (lh_offset_to_point_data (rg_header r0))"
    "point_data_end (rg_data_ranges r0) = unat (lh_offset_to_first_evlr (rg_header r0))" "load_page io e r0 = (Ok (), r)"
    using range_open_loads_root [OF assms] by blast
  have "(True \<longrightarrow> rg_ok r) \<and> same_file r0 r \<and> (r = r0 \<or> grown r0 r)"
    by (rule st_spec_Ok [OF load_page_spec r0(5)])
      (use r0(1,2) in \<open>simp add: rg_ok_def ranges_disjoint_def same_file_def\<close>)
  then show ?thesis using r0(3,4) by (auto simp: same_file_def)
qed

text \<open>C38: the chunks that the range reader fetches: after opening and any requests, failed ones
  too, the chunks selected for a query are valid entries of the loaded hierarchy, lie inside the file
  between the point data and the first EVLR, and each ends before the next one starts.\<close>

theorem ranged_chunks_safe:
  "case range_open io laz_read source of
     Inl _ \<Rightarrow> True
   | Inr r0 \<Rightarrow>
       (case hierarchy_for (ro_log2 ops) io q (fold (serve ops iops io) requests r0) of
          (Inl _, _) \<Rightarrow> True
        | (Inr chunks, r) \<Rightarrow>
            rg_header r = rg_header r0 \<and> rg_file_len r = rg_file_len r0 \<and>
            list_all (\<lambda>e. has_point_data e \<and> RBT.lookup (rg_hierarchy r) (e_key e) = Some e \<and>
              entry_validate e = Ok () \<and> entry_hi e \<le> rg_file_len r \<and>
              unat (lh_offset_to_point_data (rg_header r)) \<le> entry_lo e \<and>
              entry_hi e \<le> unat (lh_offset_to_first_evlr (rg_header r))) chunks \<and>
            sorted_wrt (\<lambda>a b. entry_hi a \<le> entry_lo b) chunks)"
proof (cases "range_open io laz_read source")
  case (Inr r0)
  note o = range_open_ok [OF Inr]
  let ?s = "fold (serve ops iops io) requests r0"
  have s: "rg_ok ?s \<and> same_file r0 ?s"
  proof -
    have "rg_ok r \<and> same_file r0 r \<Longrightarrow> rg_ok (fold (serve ops iops io) reqs r) \<and> same_file r0 (fold (serve ops iops io) reqs r)" for reqs r
    proof (induction reqs arbitrary: r)
      case (Cons req reqs)
      show ?case using Cons.IH [OF serve_spec [OF Cons.prems]] by simp
    qed simp
    then show ?thesis using o by (simp add: same_file_def)
  qed
  obtain res r where h: "hierarchy_for (ro_log2 ops) io q ?s = (res, r)" by (cases "hierarchy_for (ro_log2 ops) io q ?s")
  note h' = hierarchy_for_ok [OF h]
  show ?thesis
  proof (cases res)
    case res: (Inr chunks)
    have ok: "rg_ok r" and same: "same_file r0 r" using h' s by (auto simp: same_file_def)
    have sel: "select_point_chunks_from (ro_log2 ops) (hierarchy_values (rg_hierarchy r)) (rg_copc_info r) q = Ok chunks"
      using h' res by blast
    note c = selected_chunks [OF ok sel]
    have "RBT.lookup (rg_hierarchy r) (e_key e) = Some e" if "e \<in> set chunks" for e
      using c(1) ok that by (auto simp: set_hierarchy_values rg_ok_def)
    moreover have "validate_hierarchy_entry e (rg_file_len r) (rg_data_ranges r) = Ok ()" if "e \<in> set chunks" for e
      using c(1) rg_ok_values(1) [OF ok] that by (auto simp: list_all_iff)
    ultimately show ?thesis using Inr h res c(2,3) same o
      by (auto simp: list_all_iff same_file_def validate_hierarchy_entry_Ok_iff)
  qed (simp add: Inr h)
qed simp

section \<open>What a failure or a leaf page leaves behind\<close>

lemma st_spec_True: "st_spec (\<lambda>_. True) P m (\<lambda>_ _. True)"
  by (auto simp: st_spec_def split: prod.split sum.split)

text \<open>
  A page that loads must leave pages pending or complete the point count, although other pages of the
  same pass, already drained, may still have to be loaded.
\<close>

lemma load_page_completes:
  assumes "load_page io e r = (Ok (), r')"
  shows "(unat (e_offset e), nat (sint (e_byte_size e))) \<in> rg_visited_pages r \<or> rg_pending_pages r' \<noteq> [] \<or>
    rg_loaded_point_total r' = unat (lh_number_of_points (rg_header r'))"
proof -
  let ?R = "\<lambda>s. (unat (e_offset e), nat (sint (e_byte_size e))) \<in> rg_visited_pages r \<or> rg_pending_pages s \<noteq> [] \<or>
    rg_loaded_point_total s = unat (lh_number_of_points (rg_header s))"
  let ?I = "\<lambda>_ :: ('a, 'b) range_reader. True"
  have size: "st_spec ?I (\<lambda>s. s = r) (st_lift (\<lambda>_. entry_size_u64 e m)) (\<lambda>n s. s = r \<and> n = nat (sint (e_byte_size e)))" for m
    by (rule st_spec_lift) (auto simp: entry_size_u64_Ok_iff)
  have seen: "st_spec ?I (\<lambda>s. s = r \<and> n = nat (sint (e_byte_size e))) (st_lift (\<lambda>s. Ok ((unat (e_offset e), n) \<in> rg_visited_pages s)))
      (\<lambda>v s. s = r \<and> (v \<longrightarrow> ?R r))" for n
    by (rule st_spec_lift) auto
  have fin: "st_spec ?I ?I (st_lift (\<lambda>r.
           if unat (lh_number_of_points (rg_header r)) < rg_loaded_point_total r then Err a
           else if rg_pending_pages r = [] \<and> rg_loaded_point_total r \<noteq> unat (lh_number_of_points (rg_header r)) then Err b
           else Ok ())) (\<lambda>_. ?R)" for a b
    by (rule st_spec_lift) (auto split: if_splits)
  have bad: "st_spec ?I P (st_lift (\<lambda>_. Err x)) (\<lambda>_. ?R)" for P x by (rule st_spec_lift) auto
  have "st_spec ?I (\<lambda>s. s = r) (load_page io e) (\<lambda>_. ?R)"
    unfolding load_page_def
    by (intro st_spec_bind [OF size] st_spec_bind [OF seen] st_spec_if st_spec_ret st_spec_bind [OF st_spec_True] bad fin) auto
  from st_spec_Ok [OF this assms] show ?thesis by blast
qed

text \<open>
  When the source fails, the pages drained for the query are no longer pending, and nothing of the
  hierarchy is loaded: later requests are answered, without an error, from the pages loaded before.
\<close>

lemma failed_load_page:
  assumes "rr_read_range io = (\<lambda>_ _ s. (Err x, s))" "rg_hierarchy r = h" "rg_pending_pages r = p" "load_page io e r = (res, r')"
  shows "rg_hierarchy r' = h \<and> rg_pending_pages r' = p"
proof -
  let ?I = "\<lambda>s :: ('a, 'b) range_reader. rg_hierarchy s = h \<and> rg_pending_pages s = p"
  have lift: "st_spec ?I ?I (st_lift f) (\<lambda>_. ?I)" for f :: "_ \<Rightarrow> 'y result" by (rule st_spec_lift)
  have upd: "st_spec ?I ?I (st_update (\<lambda>r. r\<lparr>rg_visited_pages := f r\<rparr>)) (\<lambda>_. ?I)"
      "st_spec ?I ?I (st_update (\<lambda>r. r\<lparr>rg_limits := l\<rparr>)) (\<lambda>_. ?I)" for f l
    by (rule st_spec_update; simp)+
  have fetch: "st_spec ?I ?I (fetch_range io a b) (\<lambda>_ _. False)" for a b
    by (auto simp: st_spec_def fetch_range_def assms(1) split: option.split)
  have dead: "st_spec ?I (\<lambda>_. False) m Q" for m :: "_ \<Rightarrow> 'z result \<times> _" and Q by (simp add: st_spec_def)
  have s: "st_spec ?I ?I (load_page io e) (\<lambda>_. ?I)"
    unfolding load_page_def
    by (intro st_spec_bind [OF lift] st_spec_if st_spec_bind [OF upd(1)] st_spec_bind [OF upd(2)]
        st_spec_bind [OF fetch] dead lift st_spec_ret) simp
  show ?thesis using st_spec_snd [OF s, of r] assms(2-4) by simp
qed

lemma no_pending_pages:
  assumes "rg_pending_pages r = []"
  shows "hierarchy_for log2 io q r =
    (bind_res (validate_query q) (\<lambda>_. select_point_chunks_from log2 (hierarchy_values (rg_hierarchy r)) (rg_copc_info r) q), r)"
proof -
  have r: "r\<lparr>rg_pending_pages := []\<rparr> = r" using assms by simp
  have "hierarchy_pass log2 io q r = (Ok False, r)"
    by (simp add: hierarchy_pass_def split_pending_def assms r Let_def)
  then have "ensure_hierarchy_for log2 io q r = (Ok (), r)" by (simp add: ensure_hierarchy_for.simps)
  then show ?thesis by (cases "validate_query q") (simp_all add: hierarchy_for_def st_bind_def st_lift_def)
qed

lemma failed_fetch_forgets:
  assumes io: "rr_read_range io = (\<lambda>_ _ s. (Err x, s))"
    and split: "split_pending log2 (rg_copc_info r) q (rg_pending_pages r) = Ok (relevant, [])"
    and h: "hierarchy_pass log2 io q r = (res, r')"
  shows "hierarchy_for log2 io' q' r' =
    (bind_res (validate_query q') (\<lambda>_. select_point_chunks_from log2 (hierarchy_values (rg_hierarchy r)) (rg_copc_info r) q'), r')"
proof -
  let ?I = "\<lambda>s :: ('a, 'c) range_reader. rg_hierarchy s = rg_hierarchy r \<and> rg_pending_pages s = []"
  have page: "st_spec ?I ?I (load_page io e) (\<lambda>_. ?I)" for e
    unfolding st_spec_def
  proof (intro allI impI)
    fix s assume s: "?I s"
    obtain u t where l: "load_page io e s = (u, t)" by (cases "load_page io e s")
    show "case load_page io e s of (Inl _, t) \<Rightarrow> ?I t | (Inr _, t) \<Rightarrow> ?I t"
      using failed_load_page [OF io _ _ l] s l by (cases u) auto
  qed
  have "st_spec ?I ?I (st_fold (load_page io) relevant) (\<lambda>_. ?I)" by (rule st_spec_fold) (rule page)
  from st_spec_snd [OF this, of "r\<lparr>rg_pending_pages := []\<rparr>"] have "?I r'"
    using h by (auto simp: hierarchy_pass_def split st_bind_def st_ret_def Let_def split: if_splits sum.splits prod.splits)
  moreover have "rg_copc_info r' = rg_copc_info r" using hierarchy_pass_spec [OF h] by (simp add: same_file_def)
  ultimately show ?thesis by (simp add: no_pending_pages)
qed

end
