(* ===== verification/Page_Graph.thy ===== *)
theory Page_Graph
  imports Point_Query
begin

text \<open>
  The hierarchy pages of a file as a graph: a page is named by its place, and its child page entries lead
  to other pages. The walk of \<^verbatim>\<open>CopcFile::from_reader\<close> loads exactly the pages that can be reached from the root
  page, with the entries they store.
\<close>

section \<open>Pages\<close>

type_synonym place = "nat \<times> nat"

definition page_of :: "entry \<Rightarrow> place" where
  "page_of e = (entry_lo e, nat (sint (e_byte_size e)))"

definition stores :: "u8 list \<Rightarrow> place \<Rightarrow> entry list \<Rightarrow> bool" where
  "stores f p es \<longleftrightarrow> page_from_le_bytes (bslice f (fst p) (snd p)) = Ok \<lparr>page_entries = es\<rparr>"

inductive reaches :: "u8 list \<Rightarrow> place \<Rightarrow> place \<Rightarrow> bool" for f r where
  here: "reaches f r r"
| child: "reaches f r p \<Longrightarrow> stores f p es \<Longrightarrow> e \<in> set es \<Longrightarrow> is_child_page e \<Longrightarrow> reaches f r (page_of e)"

lemma stores_unique: "stores f p es \<Longrightarrow> stores f p es' \<Longrightarrow> es' = es"
  by (simp add: stores_def)

text \<open>
  A page that is loaded: its entries are in the map, and its child pages are known, or are among the
  entries that still have to be loaded.
\<close>

definition page_loaded :: "u8 list \<Rightarrow> (voxel_key, entry) rbt \<Rightarrow> place set \<Rightarrow> entry set \<Rightarrow> place \<Rightarrow> bool" where
  "page_loaded f h known waiting p \<longleftrightarrow>
     (\<exists>es. stores f p es \<and> (\<forall>e \<in> set es.
        (\<not> is_child_page e \<longrightarrow> RBT.lookup h (e_key e) = Some e) \<and>
        (is_child_page e \<longrightarrow> page_of e \<in> known \<or> e \<in> waiting)))"

definition keeps_entries :: "(voxel_key, entry) rbt \<Rightarrow> (voxel_key, entry) rbt \<Rightarrow> bool" where
  "keeps_entries h h' \<longleftrightarrow> (\<forall>k e. RBT.lookup h k = Some e \<longrightarrow> \<not> is_child_page e \<longrightarrow> RBT.lookup h' k = Some e)"

lemma keeps_entries_refl [simp]: "keeps_entries h h"
  by (simp add: keeps_entries_def)

lemma keeps_entries_trans: "keeps_entries a b \<Longrightarrow> keeps_entries b c \<Longrightarrow> keeps_entries a c"
  by (simp add: keeps_entries_def)

lemma page_loaded_mono:
  assumes "page_loaded f h known waiting p" "keeps_entries h h'" "known \<subseteq> known'" "\<And>e. e \<in> waiting \<Longrightarrow> page_of e \<in> known' \<or> e \<in> waiting'"
  shows "page_loaded f h' known' waiting' p"
  using assms unfolding page_loaded_def keeps_entries_def by blast

definition from_pages :: "u8 list \<Rightarrow> (voxel_key, entry) rbt \<Rightarrow> place set \<Rightarrow> bool" where
  "from_pages f h ps \<longleftrightarrow> (\<forall>k e. RBT.lookup h k = Some e \<longrightarrow> (\<exists>p \<in> ps. \<exists>es. stores f p es \<and> e \<in> set es))"

lemma from_pages_mono: "from_pages f h ps \<Longrightarrow> ps \<subseteq> ps' \<Longrightarrow> from_pages f h ps'"
  unfolding from_pages_def by blast

section \<open>The walk\<close>

lemma insert_entries:
  assumes "fold_res (insert_hierarchy_entry n r) es ws = Ok ws'"
  shows "ws_visited ws' = ws_visited ws \<and> ws_pending ws' = ws_pending ws \<and>
    keeps_entries (ws_hierarchy ws) (ws_hierarchy ws') \<and>
    (\<forall>e \<in> set es. \<not> is_child_page e \<longrightarrow> RBT.lookup (ws_hierarchy ws') (e_key e) = Some e) \<and>
    (\<forall>k e. RBT.lookup (ws_hierarchy ws') k = Some e \<longrightarrow> RBT.lookup (ws_hierarchy ws) k = Some e \<or> e \<in> set es)"
  using assms
proof (induction es arbitrary: ws)
  case (Cons e es)
  then obtain ws1 where 1: "insert_hierarchy_entry n r e ws = Ok ws1" "fold_res (insert_hierarchy_entry n r) es ws1 = Ok ws'"
    by (auto simp: bind_res_Ok_iff)
  let ?h = "RBT.insert (e_key e) e (ws_hierarchy ws)"
  have prev: "\<And>p. RBT.lookup (ws_hierarchy ws) (e_key e) = Some p \<Longrightarrow> is_child_page p"
    and ws1: "ws1 = ws\<lparr>ws_hierarchy := ?h\<rparr>" using 1(1) by (auto simp: insert_hierarchy_entry_Ok_iff)
  have k: "keeps_entries (ws_hierarchy ws) ?h" using prev by (auto simp: keeps_entries_def)
  let ?h' = "ws_hierarchy ws'"
  from Cons.IH [OF 1(2)] have same: "ws_visited ws' = ws_visited ws" "ws_pending ws' = ws_pending ws"
    and k': "keeps_entries ?h ?h'"
    and new: "\<forall>x \<in> set es. \<not> is_child_page x \<longrightarrow> RBT.lookup ?h' (e_key x) = Some x"
    and old: "\<And>k x. RBT.lookup ?h' k = Some x \<Longrightarrow> RBT.lookup ?h k = Some x \<or> x \<in> set es"
    by (simp_all add: ws1)
  have "RBT.lookup ?h' (e_key e) = Some e" if "\<not> is_child_page e" using k' that by (simp add: keeps_entries_def)
  moreover have "RBT.lookup (ws_hierarchy ws) k = Some x \<or> x \<in> set (e # es)" if "RBT.lookup ?h' k = Some x" for k x
    using old [OF that] by (auto split: if_splits)
  ultimately show ?case using same new keeps_entries_trans [OF k k'] by simp
qed simp

lemma push_children:
  assumes "fold_res push_child_page cs ws = Ok ws'"
  shows "ws_hierarchy ws' = ws_hierarchy ws \<and> ws_visited ws' = ws_visited ws \<union> page_of ` set cs \<and>
    (\<exists>new. ws_pending ws' = new @ ws_pending ws \<and> set new = page_of ` set cs - ws_visited ws \<and> distinct new)"
  using assms
proof (induction cs arbitrary: ws)
  case (Cons c cs)
  then obtain ws1 where 1: "push_child_page c ws = Ok ws1" "fold_res push_child_page cs ws1 = Ok ws'"
    by (auto simp: bind_res_Ok_iff)
  have ws1: "ws1 = (if page_of c \<in> ws_visited ws then ws
      else ws\<lparr>ws_visited := insert (page_of c) (ws_visited ws), ws_pending := page_of c # ws_pending ws\<rparr>)"
    using 1(1) by (auto simp: push_child_page_def bind_res_Ok_iff entry_size_u64_Ok_iff page_of_def entry_lo_def Let_def split: if_splits)
  from Cons.IH [OF 1(2)] obtain new where
    new: "ws_hierarchy ws' = ws_hierarchy ws1" "ws_visited ws' = ws_visited ws1 \<union> page_of ` set cs"
      "ws_pending ws' = new @ ws_pending ws1" "set new = page_of ` set cs - ws_visited ws1" "distinct new" by blast
  show ?case
  proof (cases "page_of c \<in> ws_visited ws")
    case True
    then show ?thesis using new ws1 by auto
  next
    case False
    then show ?thesis using new ws1
      by (intro conjI exI [of _ "new @ [page_of c]"]) auto
  qed
qed simp

text \<open>
  What the walk keeps: every page seen is reachable, and those that are not pending, nor among \<open>xs\<close>, are
  loaded; the map holds entries of those pages only.
\<close>

definition walk_covers :: "u8 list \<Rightarrow> place \<Rightarrow> place set \<Rightarrow> walk_state \<Rightarrow> bool" where
  "walk_covers f r xs ws \<longleftrightarrow>
     r \<in> ws_visited ws \<and> set (ws_pending ws) \<union> xs \<subseteq> ws_visited ws \<and> set (ws_pending ws) \<inter> xs = {} \<and> distinct (ws_pending ws) \<and>
     (\<forall>p \<in> ws_visited ws. reaches f r p) \<and>
     (\<forall>p \<in> ws_visited ws - set (ws_pending ws) - xs. page_loaded f (ws_hierarchy ws) (ws_visited ws) {} p) \<and>
     from_pages f (ws_hierarchy ws) (ws_visited ws - set (ws_pending ws))"

lemma queue_covers:
  assumes q: "queue_hierarchy_page page n r ws = Ok ws'" and s: "stores f p (page_entries page)"
    and c: "walk_covers f start {p} ws"
  shows "walk_covers f start {} ws'"
proof -
  let ?es = "page_entries page" and ?cs = "filter is_child_page (page_entries page)"
  obtain ws1 where 1: "fold_res (insert_hierarchy_entry n r) ?es ws = Ok ws1" "fold_res push_child_page ?cs ws1 = Ok ws'"
    using q by (auto simp: queue_hierarchy_page_def bind_res_Ok_iff)
  note i = insert_entries [OF 1(1)]
  from push_children [OF 1(2)] obtain new where
    h: "ws_hierarchy ws' = ws_hierarchy ws1" and v: "ws_visited ws' = ws_visited ws \<union> page_of ` set ?cs"
    and new: "ws_pending ws' = new @ ws_pending ws" "set new = page_of ` set ?cs - ws_visited ws" "distinct new"
    using i by auto
  note c' = c [unfolded walk_covers_def]
  have p: "reaches f start p" "p \<in> ws_visited ws" "p \<notin> set (ws_pending ws)" using c' by auto
  have old: "ws_visited ws' - set (ws_pending ws') = ws_visited ws - set (ws_pending ws)" using c' by (auto simp: v new)
  have loaded: "page_loaded f (ws_hierarchy ws') (ws_visited ws') {} a" if a: "a \<in> ws_visited ws - set (ws_pending ws)" for a
  proof (cases "a = p")
    case True
    then show ?thesis using s i by (auto simp: page_loaded_def h v)
  next
    case False
    then have "page_loaded f (ws_hierarchy ws) (ws_visited ws) {} a" using a c' by blast
    then show ?thesis by (rule page_loaded_mono) (use i in \<open>auto simp: h v\<close>)
  qed
  have reach: "reaches f start a" if "a \<in> ws_visited ws'" for a
    using that c' reaches.child [OF p(1) s] by (auto simp: v)
  have src: "from_pages f (ws_hierarchy ws') (ws_visited ws - set (ws_pending ws))"
    unfolding from_pages_def h
  proof (intro allI impI)
    fix k e assume "RBT.lookup (ws_hierarchy ws1) k = Some e"
    then have "RBT.lookup (ws_hierarchy ws) k = Some e \<or> e \<in> set ?es" using i by blast
    then show "\<exists>p \<in> ws_visited ws - set (ws_pending ws). \<exists>es. stores f p es \<and> e \<in> set es"
      using c' s p(2,3) unfolding from_pages_def by blast
  qed
  show ?thesis
    unfolding walk_covers_def old using c' loaded reach src by (auto simp: v new)
qed

lemma reads_file_page: "reads_file (read_hierarchy_page_at off n len limits)"
  unfolding read_hierarchy_page_at_def by (intro reads_file_intros)

lemma read_page_stores:
  assumes "read_hierarchy_page_at off n (length f) limits (fcur f p) = Ok ((page, limits'), t)"
  shows "stores f (off, n) (page_entries page)" "t = fcur f (sec_pos t)"
proof -
  from reads_file_cursor [OF reads_file_page assms] show "t = fcur f (sec_pos t)" .
  from assms show "stores f (off, n) (page_entries page)"
    by (auto simp: read_hierarchy_page_at_def rbind_Ok_iff read_exact_Ok_iff stores_def fcur_def sec_bytes_def split: if_splits)
qed

lemma drain_covers:
  assumes "drain_pages (length f) r ws limits s = Ok ((ws', limits'), t)" "s = fcur f q" "walk_covers f start {} ws"
  shows "walk_covers f start {} ws' \<and> ws_pending ws' = []"
proof -
  have "n = length f \<Longrightarrow> drain_pages n r ws limits s = Ok ((ws', limits'), t) \<Longrightarrow> (\<exists>q. s = fcur f q) \<Longrightarrow>
      walk_covers f start {} ws \<Longrightarrow> walk_covers f start {} ws' \<and> ws_pending ws' = []" for n
  proof (induction n r ws limits s rule: drain_pages.induct)
    case (1 n r ws limits s)
    show ?case
    proof (cases "ws_pending ws")
      case Nil
      with 1(3,5) show ?thesis by (simp add: drain_pages.simps)
    next
      case (Cons p pending)
      obtain off size where p: "p = (off, size)" by (cases p)
      obtain q where q: "s = fcur f q" using 1(4) by blast
      obtain rr ws1 where rd: "read_hierarchy_page_at off size n limits s = Ok rr"
        and qu: "queue_hierarchy_page (fst (fst rr)) n r (ws\<lparr>ws_pending := pending\<rparr>) = Ok ws1"
        and d: "drain_pages n r ws1 (snd (fst rr)) (snd rr) = Ok ((ws', limits'), t)"
        using 1(3) Cons p by (auto simp: drain_pages.simps [of n r ws] bind_res_Ok_iff)
      obtain page limits1 u where rr: "rr = ((page, limits1), u)" by (metis prod.exhaust)
      note st = read_page_stores [OF rd [unfolded rr q 1(2)]]
      have "walk_covers f start {p} (ws\<lparr>ws_pending := pending\<rparr>)"
        using 1(5) Cons by (auto simp: walk_covers_def elim: from_pages_mono)
      from queue_covers [OF qu _ this] st(1) have c: "walk_covers f start {} ws1" by (simp add: rr p)
      have "\<exists>q. snd rr = fcur f q" using st(2) by (auto simp: rr)
      with 1(1) [OF Cons p [symmetric] rd qu 1(2) d _ c] show ?thesis .
    qed
  qed
  then show ?thesis using assms by blast
qed

text \<open>The hierarchy of an opened file is that of the pages reachable from its root page.\<close>

definition root_page :: "copc_info \<Rightarrow> place" where
  "root_page info = (unat (ci_root_hier_offset info), unat (ci_root_hier_size info))"

lemma from_reader_pages:
  assumes "from_reader laz_read (fcur f 0) = Ok (cf, t)"
  shows "reaches f (root_page (cf_copc_info cf)) p \<Longrightarrow>
      page_loaded f (cf_hierarchy cf) {p. reaches f (root_page (cf_copc_info cf)) p} {} p"
    and "from_pages f (cf_hierarchy cf) {p. reaches f (root_page (cf_copc_info cf)) p}"
proof -
  let ?r = "root_page (cf_copc_info cf)"
  have "\<exists>ws. walk_covers f ?r {} ws \<and> ws_pending ws = [] \<and> cf_hierarchy cf = ws_hierarchy ws"
  proof (rule from_reader_Ok [OF assms])
    fix vlrs s1 evlrs s2 root_evlr r ws limits limits' s3
    assume rv: "read_vlrs (unat (lh_number_of_vlrs (header_at f))) (length f)
        (unat (lh_offset_to_point_data (header_at f))) (fcur f 375) = Ok (vlrs, s1)"
      and re: "read_evlr_refs (header_at f) (length f) s1 = Ok (evlrs, s2)"
      and rp: "read_hierarchy_page_at (unat (ci_root_hier_offset (cf_copc_info cf)))
        (unat (ci_root_hier_size (cf_copc_info cf))) (length f) \<lparr>total_bytes = 0\<rparr> s2 = Ok ((cf_root_hierarchy cf, limits), s3)"
      and ins: "insert_hierarchy_pages (cf_root_hierarchy cf) (length f) r
        \<lparr>ws_hierarchy = RBT.empty,
         ws_visited = {(unat (ci_root_hier_offset (cf_copc_info cf)), unat (ci_root_hier_size (cf_copc_info cf)))},
         ws_pending = []\<rparr> limits s3 = Ok ((ws, limits'), t)"
      and h: "cf_hierarchy cf = ws_hierarchy ws"
    obtain q1 where q1: "s1 = fcur f q1" using reads_file_cursor [OF reads_file_vlrs rv] by blast
    obtain q2 where q2: "s2 = fcur f q2" using reads_file_cursor [OF reads_file_evlrs re [unfolded q1]] by blast
    note st = read_page_stores [OF rp [unfolded q2]]
    obtain q3 where q3: "s3 = fcur f q3" using st(2) by blast
    let ?ws = "\<lparr>ws_hierarchy = RBT.empty, ws_visited = {?r}, ws_pending = []\<rparr>"
    obtain ws1 where qu: "queue_hierarchy_page (cf_root_hierarchy cf) (length f) r ?ws = Ok ws1"
      and d: "drain_pages (length f) r ws1 limits s3 = Ok ((ws, limits'), t)"
      using ins by (auto simp: insert_hierarchy_pages_def bind_res_Ok_iff root_page_def)
    have "walk_covers f ?r {?r} ?ws"
      by (auto simp: walk_covers_def from_pages_def reaches.here)
    from queue_covers [OF qu _ this] st(1) have "walk_covers f ?r {} ws1" by (simp add: root_page_def)
    from drain_covers [OF d q3 this] h show ?thesis by blast
  qed
  then obtain ws where ws: "walk_covers f ?r {} ws" "ws_pending ws = []" "cf_hierarchy cf = ws_hierarchy ws" by blast
  have all: "a \<in> ws_visited ws" if "reaches f ?r a" for a
    using that
  proof induction
    case here
    then show ?case using ws(1) by (simp add: walk_covers_def)
  next
    case (child p es e)
    then have "page_loaded f (ws_hierarchy ws) (ws_visited ws) {} p" using ws(1,2) by (simp add: walk_covers_def)
    with child show ?case using stores_unique unfolding page_loaded_def by blast
  qed
  have v: "ws_visited ws = {p. reaches f ?r p}" using all ws(1) by (auto simp: walk_covers_def)
  show "page_loaded f (cf_hierarchy cf) {p. reaches f ?r p} {} p" if "reaches f ?r p"
    using that ws all by (simp add: walk_covers_def flip: v)
  show "from_pages f (cf_hierarchy cf) {p. reaches f ?r p}" using ws by (simp add: walk_covers_def flip: v)
qed

end
