(* ===== verification/Ranged_Pages.thy ===== *)
theory Ranged_Pages
  imports Ranged_Spec Page_Graph
begin

text \<open>
  Which hierarchy pages a range reader has loaded: after successful requests every page it knows is loaded,
  up to pages that wait to be loaded, and a request leaves only pages waiting that the query does not reach.
\<close>

section \<open>Successful operations\<close>

lemma st_Ok_iff:
  "st_bind m k s = (Inr y, t) \<longleftrightarrow> (\<exists>x u. m s = (Inr x, u) \<and> k x u = (Inr y, t))"
  "st_ret z s = (Inr y', t) \<longleftrightarrow> y' = z \<and> t = s" "st_lift g s = (Inr w, t) \<longleftrightarrow> g s = Inr w \<and> t = s"
  "st_update h s = (Inr v, t) \<longleftrightarrow> t = h s"
  by (auto simp: st_bind_def st_ret_def st_lift_def st_update_def split: prod.splits sum.splits)

lemma load_entry_Ok:
  assumes "load_entry e r = (Ok u, r')"
  shows "keeps_entries (rg_hierarchy r) (rg_hierarchy r') \<and> rg_hierarchy r' = RBT.insert (e_key e) e (rg_hierarchy r) \<and>
    rg_visited_pages r' = rg_visited_pages r \<and> rg_pending_pages r' = rg_pending_pages r @ (if is_child_page e then [e] else [])"
proof -
  obtain a where a: "availability e = Ok a" using assms by (cases "availability e") (auto simp: load_entry_def st_Ok_iff)
  from assms have d: "check_duplicate e r = Ok ()" and h: "rg_hierarchy r' = RBT.insert (e_key e) e (rg_hierarchy r)"
    and s: "rg_visited_pages r' = rg_visited_pages r" "rg_pending_pages r' = rg_pending_pages r @ (if is_child_page e then [e] else [])"
    by (cases a; auto simp: load_entry_def st_Ok_iff a split: if_splits)+
  have "keeps_entries (rg_hierarchy r) (rg_hierarchy r')"
    using d unfolding h by (auto simp: keeps_entries_def check_duplicate_def split: option.splits if_splits)
  then show ?thesis using h s by simp
qed

lemma load_entries_Ok:
  assumes "st_fold load_entry es r = (Ok u, r')"
  shows "keeps_entries (rg_hierarchy r) (rg_hierarchy r') \<and> rg_visited_pages r' = rg_visited_pages r \<and>
    rg_pending_pages r' = rg_pending_pages r @ filter is_child_page es \<and>
    (\<forall>e \<in> set es. \<not> is_child_page e \<longrightarrow> RBT.lookup (rg_hierarchy r') (e_key e) = Some e) \<and>
    (\<forall>k e. RBT.lookup (rg_hierarchy r') k = Some e \<longrightarrow> RBT.lookup (rg_hierarchy r) k = Some e \<or> e \<in> set es)"
  using assms
proof (induction es arbitrary: r)
  case Nil
  then show ?case by (simp add: st_Ok_iff)
next
  case (Cons e es)
  then obtain v r1 where 1: "load_entry e r = (Ok v, r1)" "st_fold load_entry es r1 = (Ok u, r')" by (auto simp: st_Ok_iff)
  note l = load_entry_Ok [OF 1(1)] and ih = Cons.IH [OF 1(2)]
  have "RBT.lookup (rg_hierarchy r') (e_key e) = Some e" if "\<not> is_child_page e"
    using l ih that by (auto simp: keeps_entries_def)
  moreover have "RBT.lookup (rg_hierarchy r) k = Some x \<or> x \<in> set (e # es)" if "RBT.lookup (rg_hierarchy r') k = Some x" for k x
  proof -
    have "RBT.lookup (rg_hierarchy r1) k = Some x \<or> x \<in> set es" using ih that by blast
    then show ?thesis using l by (auto split: if_splits)
  qed
  ultimately show ?case using l ih keeps_entries_trans by auto
qed

section \<open>Pages known to a reader\<close>

definition pages_known :: "u8 list \<Rightarrow> place \<Rightarrow> entry set \<Rightarrow> ('s, 'laz) range_reader \<Rightarrow> bool" where
  "pages_known f a waiting r \<longleftrightarrow>
     (\<forall>p \<in> rg_visited_pages r. reaches f a p \<and>
        page_loaded f (rg_hierarchy r) (rg_visited_pages r) (set (rg_pending_pages r) \<union> waiting) p) \<and>
     (\<forall>c \<in> set (rg_pending_pages r) \<union> waiting. reaches f a (page_of c)) \<and>
     from_pages f (rg_hierarchy r) (rg_visited_pages r)"

lemma pages_known_source [simp]: "pages_known f a w (r\<lparr>rg_source := s\<rparr>) = pages_known f a w r"
  by (simp add: pages_known_def)

context range_source begin

lemma load_page_Ok:
  assumes "serving holds data r" "load_page ops c r = (Ok u, r')"
  shows "page_of c \<in> rg_visited_pages r \<and> r' = r \<or>
    page_of c \<notin> rg_visited_pages r \<and> (\<exists>es limits s v. stores data (page_of c) es \<and>
      st_fold load_entry es (r\<lparr>rg_visited_pages := insert (page_of c) (rg_visited_pages r), rg_limits := limits, rg_source := s\<rparr>) = (Ok v, r'))"
proof -
  let ?p = "(unat (e_offset c), nat (sint (e_byte_size c)))"
  have p: "page_of c = ?p" by (simp add: page_of_def entry_lo_def)
  show ?thesis
  proof (cases "page_of c \<in> rg_visited_pages r")
    case True
    then show ?thesis using assms(2) by (auto simp: load_page_def st_Ok_iff entry_size_u64_Ok_iff p)
  next
    case False
    let ?n = "nat (sint (e_byte_size c))" and ?off = "unat (e_offset c)"
    from assms(2) False obtain limits bytes page v r1 r2 where
      v: "?off + ?n < 2 ^ 64" "?off + ?n \<le> rg_file_len r"
      and f: "fetch_range ops (e_offset c) (e_offset c + of_nat ?n)
        (r\<lparr>rg_visited_pages := insert ?p (rg_visited_pages r), rg_limits := limits\<rparr>) = (Ok bytes, r1)"
      and pg: "page_from_le_bytes bytes = Ok page" and ld: "st_fold load_entry (page_entries page) r1 = (Ok v, r')"
      by (auto simp: load_page_def st_Ok_iff entry_size_u64_Ok_iff p validate_range_in_file_Ok_iff split: if_splits)
    have u: "unat (e_offset c + of_nat ?n) = ?off + ?n" using v(1) by (simp add: unat_word_ariths unat_of_nat)
    let ?r = "r\<lparr>rg_visited_pages := insert ?p (rg_visited_pages r), rg_limits := limits\<rparr>"
    have "serving holds data ?r" using assms(1) by (simp add: serving_def)
    from fetch_served [OF this, of "e_offset c" "e_offset c + of_nat ?n"] obtain s where
      "bytes = bslice data ?off ?n" "r1 = ?r\<lparr>rg_source := s\<rparr>"
      using f v assms(1) by (auto simp: u serving_def)
    then show ?thesis using False pg ld by (intro disjI2 conjI exI) (auto simp: p stores_def)
  qed
qed

lemma load_page_known:
  assumes "serving holds data r" "load_page ops c r = (Ok u, r')" "pages_known data a (insert c w) r"
  shows "pages_known data a w r' \<and> insert (page_of c) (rg_visited_pages r) \<subseteq> rg_visited_pages r'"
proof -
  note k = assms(3) [unfolded pages_known_def]
  consider "page_of c \<in> rg_visited_pages r" "r' = r"
    | es limits s v where "page_of c \<notin> rg_visited_pages r" "stores data (page_of c) es"
      "st_fold load_entry es (r\<lparr>rg_visited_pages := insert (page_of c) (rg_visited_pages r), rg_limits := limits, rg_source := s\<rparr>) = (Ok v, r')"
    using load_page_Ok [OF assms(1,2)] by blast
  then show ?thesis
  proof cases
    case 1
    have "page_loaded data (rg_hierarchy r) (rg_visited_pages r) (set (rg_pending_pages r) \<union> w) p"
      if "p \<in> rg_visited_pages r" for p
      by (rule page_loaded_mono [of data "rg_hierarchy r" "rg_visited_pages r" "set (rg_pending_pages r) \<union> insert c w"])
        (use that k 1 in auto)
    then show ?thesis using k 1 by (auto simp: pages_known_def)
  next
    case 2
    note l = load_entries_Ok [OF 2(3), simplified]
    let ?V = "insert (page_of c) (rg_visited_pages r)"
    have vis: "rg_visited_pages r' = ?V" and pend: "set (rg_pending_pages r') = set (rg_pending_pages r) \<union> {e \<in> set es. is_child_page e}"
      using l by auto
    have loaded: "page_loaded data (rg_hierarchy r') ?V (set (rg_pending_pages r') \<union> w) p" if p: "p \<in> ?V" for p
    proof (cases "p = page_of c")
      case True
      then show ?thesis using 2(2) l unfolding page_loaded_def pend by (intro exI [of _ es]) auto
    next
      case False
      show ?thesis
        by (rule page_loaded_mono [of data "rg_hierarchy r" "rg_visited_pages r" "set (rg_pending_pages r) \<union> insert c w"])
          (use False p k l pend in auto)
    qed
    have reach: "reaches data a (page_of c)" using k by blast
    have kids: "reaches data a (page_of e)" if "e \<in> set es" "is_child_page e" for e
      by (rule reaches.child [OF reach 2(2) that])
    have src: "from_pages data (rg_hierarchy r') ?V"
      unfolding from_pages_def
    proof (intro allI impI)
      fix j e assume "RBT.lookup (rg_hierarchy r') j = Some e"
      then have "RBT.lookup (rg_hierarchy r) j = Some e \<or> e \<in> set es" using l by blast
      then show "\<exists>p \<in> ?V. \<exists>es. stores data p es \<and> e \<in> set es"
        using k 2(2) unfolding from_pages_def by blast
    qed
    show ?thesis unfolding pages_known_def vis using loaded reach kids src k by (auto simp: pend)
  qed
qed

lemma load_pages_known:
  assumes "serving holds data r" "st_fold (load_page ops) cs r = (Ok u, r')" "pages_known data a (set cs) r"
  shows "pages_known data a {} r' \<and> serving holds data r' \<and> rg_visited_pages r \<subseteq> rg_visited_pages r'"
  using assms
proof (induction cs arbitrary: r)
  case Nil
  then show ?case by (simp add: st_Ok_iff)
next
  case (Cons c cs)
  then obtain v r1 where 1: "load_page ops c r = (Ok v, r1)" "st_fold (load_page ops) cs r1 = (Ok u, r')" by (auto simp: st_Ok_iff)
  have "serving holds data r1" using st_spec_Ok [OF load_page_serving 1(1) Cons.prems(1)] .
  moreover have "pages_known data a (set cs) r1" "rg_visited_pages r \<subseteq> rg_visited_pages r1"
    using load_page_known [OF Cons.prems(1) 1(1)] Cons.prems(3) by simp_all
  ultimately show ?case using Cons.IH 1(2) by blast
qed

end

section \<open>A request\<close>

lemma split_pending_sets:
  assumes "split_pending log2 info q pages = Ok (relevant, rest)"
  shows "set relevant \<union> set rest = set pages" "\<forall>c \<in> set rest. page_may_match log2 (e_key c) info q = Ok False"
proof -
  define step where "step = (\<lambda>e (relevant, rest).
       bind_res (page_may_match log2 (e_key (e :: entry)) info q) (\<lambda>may_match.
       Ok (if may_match then (relevant @ [e], rest) else (relevant, rest @ [e]))))"
  have "set relevant \<union> set rest = set a \<union> set b \<union> set pages \<and> (\<forall>c \<in> set rest. page_may_match log2 (e_key c) info q = Ok False)"
    if "fold_res step pages (a, b) = Ok (relevant, rest)" "\<forall>c \<in> set b. page_may_match log2 (e_key c) info q = Ok False" for a b
    using that
  proof (induction pages arbitrary: a b)
    case (Cons e pages)
    then obtain st where st: "step e (a, b) = Ok st" "fold_res step pages st = Ok (relevant, rest)"
      unfolding fold_res.simps bind_res_Ok_iff by blast
    from st(1) obtain m where m: "page_may_match log2 (e_key e) info q = Ok m" "st = (if m then (a @ [e], b) else (a, b @ [e]))"
      by (auto simp: step_def bind_res_Ok_iff)
    then show ?case using Cons.IH [of "fst st" "snd st"] Cons.prems(2) st(2) by (cases m) auto
  qed simp
  from this [of "[]" "[]"] assms
  show "set relevant \<union> set rest = set pages" "\<forall>c \<in> set rest. page_may_match log2 (e_key c) info q = Ok False"
    by (simp_all add: split_pending_def step_def)
qed

definition nothing_relevant :: "(f64 \<Rightarrow> f64) \<Rightarrow> point_query \<Rightarrow> ('s, 'laz) range_reader \<Rightarrow> bool" where
  "nothing_relevant log2 q r \<longleftrightarrow> (\<forall>c \<in> set (rg_pending_pages r). page_may_match log2 (e_key c) (rg_copc_info r) q = Ok False)"

context range_source begin

lemma hierarchy_pass_known:
  assumes "serving holds data r" "hierarchy_pass log2 ops q r = (Ok again, r')" "pages_known data a {} r"
  shows "pages_known data a {} r' \<and> rg_visited_pages r \<subseteq> rg_visited_pages r' \<and> (\<not> again \<longrightarrow> nothing_relevant log2 q r')"
proof -
  from assms(2) obtain relevant rest where s: "split_pending log2 (rg_copc_info r) q (rg_pending_pages r) = Ok (relevant, rest)"
    by (auto simp: hierarchy_pass_def split: sum.splits)
  note sp = split_pending_sets [OF s]
  let ?r = "r\<lparr>rg_pending_pages := rest\<rparr>"
  have "set rest \<union> set relevant = set (rg_pending_pages r)" using sp(1) by blast
  then have k: "pages_known data a (set relevant) ?r" using assms(3) by (simp add: pages_known_def)
  show ?thesis
  proof (cases "relevant = []")
    case True
    then show ?thesis using assms(2) s k sp(2) by (auto simp: hierarchy_pass_def nothing_relevant_def)
  next
    case False
    then obtain u where "st_fold (load_page ops) relevant ?r = (Ok u, r')" "again"
      using assms(2) s by (auto simp: hierarchy_pass_def Let_def st_Ok_iff)
    moreover have "serving holds data ?r" using assms(1) by (simp add: serving_def)
    ultimately have "pages_known data a {} r' \<and> rg_visited_pages ?r \<subseteq> rg_visited_pages r'" using load_pages_known k by blast
    then show ?thesis using \<open>again\<close> by simp
  qed
qed

lemma ensure_known:
  assumes "serving holds data r" "ensure_hierarchy_for log2 ops q r = (Ok u, r')" "pages_known data a {} r"
  shows "pages_known data a {} r' \<and> rg_visited_pages r \<subseteq> rg_visited_pages r' \<and> nothing_relevant log2 q r'"
proof -
  have "io = ops \<Longrightarrow> serving holds data r \<Longrightarrow> ensure_hierarchy_for log2 io q r = (Ok u, r') \<Longrightarrow> pages_known data a {} r \<Longrightarrow>
      pages_known data a {} r' \<and> rg_visited_pages r \<subseteq> rg_visited_pages r' \<and> nothing_relevant log2 q r'" for io
  proof (induction log2 io q r arbitrary: r' rule: ensure_hierarchy_for.induct)
    case (1 log2 io q r)
    note 1 = 1(1,3,4,5) [unfolded 1(2)]
    obtain m s where p: "hierarchy_pass log2 ops q r = (Ok m, s)"
      using 1(3) by (cases "hierarchy_pass log2 ops q r")
        (auto simp: ensure_hierarchy_for.simps [of log2 ops q r] split: sum.splits)
    note k = hierarchy_pass_known [OF 1(2) p 1(4)]
    show ?case
    proof (cases m)
      case True
      then have e: "ensure_hierarchy_for log2 ops q s = (Ok u, r')"
        using 1(3) p by (simp add: ensure_hierarchy_for.simps [of log2 ops q r])
      from 1(1) [OF p [symmetric] _ _ refl hierarchy_pass_serving [OF 1(2) p] e] k True show ?thesis by auto
    next
      case False
      then show ?thesis using 1(3) p k by (simp add: ensure_hierarchy_for.simps [of log2 ops q r])
    qed
  qed
  then show ?thesis using assms by blast
qed

lemma hierarchy_for_known:
  assumes "serving holds data r" "hierarchy_for log2 ops q r = (Ok chunks, r')" "pages_known data a {} r"
  shows "pages_known data a {} r' \<and> serving holds data r' \<and> rg_visited_pages r \<subseteq> rg_visited_pages r' \<and> nothing_relevant log2 q r'"
proof -
  from assms(2) obtain u where "ensure_hierarchy_for log2 ops q r = (Ok u, r')"
    by (auto simp: hierarchy_for_def st_Ok_iff)
  then show ?thesis using ensure_known [OF assms(1) _ assms(3)] ensure_serving [OF assms(1)] by blast
qed

end

end
