(* ===== verification/Ranged_Select.thy ===== *)
theory Ranged_Select
  imports Ranged_Pages
begin

text \<open>
  Why pages that the query does not reach need not be loaded: where the entries of a page lie under the
  key of the entry that leads to it, no entry below a page that \<^verbatim>\<open>page_may_match\<close> rejects is selected, so
  the range reader selects the chunks that the local reader selects from the whole hierarchy.
\<close>

section \<open>Entries under a key\<close>

definition box_within :: "bounds \<Rightarrow> bounds \<Rightarrow> bool" where
  "box_within b c =
     (case (b_min b, b_max b, b_min c, b_max c) of
        ((x0, y0, z0), (x1, y1, z1), (u0, v0, w0), (u1, v1, w1)) \<Rightarrow>
          f64_le u0 x0 \<and> f64_le x1 u1 \<and> f64_le v0 y0 \<and> f64_le y1 v1 \<and> f64_le w0 z0 \<and> f64_le z1 w1)"

lemma box_within_trans: "box_within a b \<Longrightarrow> box_within b c \<Longrightarrow> box_within a c"
  by (auto simp: box_within_def split: prod.splits dest: fl_le_trans)

lemma box_within_intersects: "box_within a b \<Longrightarrow> intersects a c \<Longrightarrow> intersects b c"
  by (auto simp: box_within_def intersects_def split: prod.splits dest: fl_le_trans)

text \<open>What the comment on \<^verbatim>\<open>page_may_match\<close> states: a level at least that of the key, and a box inside its voxel.\<close>

definition entry_under :: "copc_info \<Rightarrow> voxel_key \<Rightarrow> entry \<Rightarrow> bool" where
  "entry_under info k e \<longleftrightarrow> sint (vk_level k) \<le> sint (vk_level (e_key e)) \<and>
     (case (voxel_bounds (e_key e) info, voxel_bounds k info) of (Inr b, Inr c) \<Rightarrow> box_within b c | _ \<Rightarrow> False)"

lemma entry_under_trans: "entry_under info k c \<Longrightarrow> entry_under info (e_key c) e \<Longrightarrow> entry_under info k e"
  by (auto simp: entry_under_def split: sum.splits intro: box_within_trans)

definition pages_nest :: "u8 list \<Rightarrow> copc_info \<Rightarrow> bool" where
  "pages_nest f info \<longleftrightarrow>
     (\<forall>p es c es' e. reaches f (root_page info) p \<longrightarrow> stores f p es \<longrightarrow> c \<in> set es \<longrightarrow> is_child_page c \<longrightarrow>
        stores f (page_of c) es' \<longrightarrow> e \<in> set es' \<longrightarrow> entry_under info (e_key c) e)"

lemma pruned_not_wanted:
  assumes m: "page_may_match log2 k info q = Ok False" and u: "entry_under info k e"
    and l: "level_range log2 (pq_lod q) info = Ok levels"
  shows "\<not> wanted info levels (pq_bounds q) e"
proof
  assume "wanted info levels (pq_bounds q) e"
  then have w: "sint (vk_level (e_key e)) < sint (snd levels)" "box_meets info (pq_bounds q) (e_key e)"
    by (simp_all add: wanted_def levels_contain_def)
  from u obtain b c where b: "sint (vk_level k) \<le> sint (vk_level (e_key e))" "voxel_bounds (e_key e) info = Ok b"
    "voxel_bounds k info = Ok c" "box_within b c" by (auto simp: entry_under_def split: sum.splits)
  have "\<not> sint (snd levels) \<le> sint (vk_level k)" using b(1) w(1) by simp
  then obtain qb where q: "pq_bounds q = Bounds_Within qb" "\<not> intersects c qb"
    using m l b(3) by (auto simp: page_may_match_def split: bounds_selection.splits if_splits prod.splits)
  then show False using w(2) b(2) box_within_intersects [OF b(4)] by (simp add: box_meets_def)
qed

section \<open>The same chunks\<close>

text \<open>Whatever is not loaded lies under a page that waits.\<close>

lemma unloaded_under_pending:
  assumes k: "pages_known f (root_page info) {} r" and n: "pages_nest f info" and v: "root_page info \<in> rg_visited_pages r"
    and p: "reaches f (root_page info) p" "p \<notin> rg_visited_pages r" "stores f p es" "e \<in> set es"
  shows "\<exists>c \<in> set (rg_pending_pages r). entry_under info (e_key c) e"
  using p
proof (induction arbitrary: es e)
  case here
  then show ?case using v by simp
next
  case (child p es' c)
  have under: "entry_under info (e_key c) e"
    using n child.hyps child.prems(2,3) unfolding pages_nest_def by blast
  show ?case
  proof (cases "p \<in> rg_visited_pages r")
    case True
    then have "page_loaded f (rg_hierarchy r) (rg_visited_pages r) (set (rg_pending_pages r)) p"
      using k by (simp add: pages_known_def)
    then have "page_of c \<in> rg_visited_pages r \<or> c \<in> set (rg_pending_pages r)"
      using stores_unique [OF child.hyps(2)] child.hyps(3,4) unfolding page_loaded_def by blast
    then show ?thesis using under child.prems(1) by blast
  next
    case False
    from child.IH [OF this child.hyps(2,3)] show ?thesis using entry_under_trans under by blast
  qed
qed

lemma same_wanted:
  assumes k: "pages_known f (root_page info) {} r" "root_page info \<in> rg_visited_pages r" and n: "pages_nest f info"
    and q: "nothing_relevant log2 q r" "rg_copc_info r = info" "level_range log2 (pq_lod q) info = Ok levels"
    and h: "\<And>p. reaches f (root_page info) p \<Longrightarrow> page_loaded f h {p. reaches f (root_page info) p} {} p"
      "from_pages f h {p. reaches f (root_page info) p}"
    and keys: "\<And>k e. RBT.lookup h k = Some e \<Longrightarrow> e_key e = k" "\<And>k e. RBT.lookup (rg_hierarchy r) k = Some e \<Longrightarrow> e_key e = k"
  shows "filter (wanted info levels (pq_bounds q)) (hierarchy_values (rg_hierarchy r)) =
    filter (wanted info levels (pq_bounds q)) (hierarchy_values h)" (is "filter ?w ?a = filter ?w ?b")
proof (rule map_sorted_distinct_set_unique [where f = e_key])
  let ?r = "root_page info"
  have sorted: "sorted_wrt (\<lambda>a b. e_key a < e_key b) ?a" "sorted_wrt (\<lambda>a b. e_key a < e_key b) ?b"
    using hierarchy_values_sorted [OF keys(1)] hierarchy_values_sorted [OF keys(2)] by (simp_all add: sorted_wrt_map)
  then have s: "sorted_wrt (<) (map e_key (filter ?w ?a))" "sorted_wrt (<) (map e_key (filter ?w ?b))"
    by (simp_all add: sorted_wrt_map sorted_wrt_filter)
  then show "sorted (map e_key (filter ?w ?a))" "distinct (map e_key (filter ?w ?a))"
    "sorted (map e_key (filter ?w ?b))" "distinct (map e_key (filter ?w ?b))"
    by (simp_all add: strict_sorted_iff)
  have unique: "e = e'" if "e \<in> set (filter ?w ?a) \<union> set (filter ?w ?b)" "e' \<in> set (filter ?w ?a) \<union> set (filter ?w ?b)"
      "set (filter ?w ?a) = set (filter ?w ?b)" "e_key e = e_key e'" for e e'
  proof -
    have "e \<in> set ?b" "e' \<in> set ?b" using that by auto
    then show ?thesis using keys(1) that(4) by (auto simp: set_hierarchy_values)
  qed
  have sub: "?w e \<Longrightarrow> \<not> is_child_page e" for e
    by (auto simp: wanted_def has_point_data_def is_child_page_def)
  have ab: "e \<in> set ?b" if e: "e \<in> set ?a" "?w e" for e
  proof -
    obtain j where "RBT.lookup (rg_hierarchy r) j = Some e" using e(1) by (auto simp: set_hierarchy_values)
    then obtain p es where p: "p \<in> rg_visited_pages r" "stores f p es" "e \<in> set es"
      using k(1) unfolding pages_known_def from_pages_def by blast
    then have "reaches f ?r p" using k(1) by (simp add: pages_known_def)
    from h(1) [OF this] p have "RBT.lookup h (e_key e) = Some e"
      using stores_unique sub [OF e(2)] unfolding page_loaded_def by blast
    then show ?thesis by (auto simp: set_hierarchy_values)
  qed
  have ba: "e \<in> set ?a" if e: "e \<in> set ?b" "?w e" for e
  proof -
    obtain j where "RBT.lookup h j = Some e" using e(1) by (auto simp: set_hierarchy_values)
    then obtain p es where p: "reaches f ?r p" "stores f p es" "e \<in> set es"
      using h(2) unfolding from_pages_def by blast
    have v: "p \<in> rg_visited_pages r"
    proof (rule ccontr)
      assume "p \<notin> rg_visited_pages r"
      from unloaded_under_pending [OF k(1) n k(2) p(1) this p(2,3)] obtain c where
        c: "c \<in> set (rg_pending_pages r)" "entry_under info (e_key c) e" by blast
      then have "page_may_match log2 (e_key c) info q = Ok False" using q(1,2) by (simp add: nothing_relevant_def)
      from pruned_not_wanted [OF this c(2) q(3)] e(2) show False by simp
    qed
    then have "page_loaded f (rg_hierarchy r) (rg_visited_pages r) (set (rg_pending_pages r)) p"
      using k(1) by (simp add: pages_known_def)
    then have "RBT.lookup (rg_hierarchy r) (e_key e) = Some e"
      using stores_unique [OF p(2)] p(3) sub [OF e(2)] unfolding page_loaded_def by blast
    then show ?thesis by (auto simp: set_hierarchy_values)
  qed
  show "set (filter ?w ?a) = set (filter ?w ?b)" using ab ba by auto
  then show "inj_on e_key (set (filter ?w ?a) \<union> set (filter ?w ?b))"
    using unique by (intro inj_onI) blast
qed

lemma from_reader_keys:
  assumes "from_reader laz_read (fcur f 0) = Ok (cf, t)" "RBT.lookup (cf_hierarchy cf) k = Some e"
  shows "e_key e = k"
proof (rule from_reader_Ok [OF assms(1)])
  fix r ws limits limits' s3
  assume ins: "insert_hierarchy_pages (cf_root_hierarchy cf) (length f) r
      \<lparr>ws_hierarchy = RBT.empty,
       ws_visited = {(unat (ci_root_hier_offset (cf_copc_info cf)), unat (ci_root_hier_size (cf_copc_info cf)))},
       ws_pending = []\<rparr> limits s3 = Ok ((ws, limits'), t)" and h: "cf_hierarchy cf = ws_hierarchy ws"
  have "walk_ok (length f) r ws" by (rule insert_hierarchy_pages_keeps [OF ins]) (simp add: walk_ok_def)
  then show ?thesis using assms(2) by (simp add: walk_ok_def h)
qed

lemma same_selection:
  assumes k: "pages_known f (root_page (cf_copc_info cf)) {} r" "root_page (cf_copc_info cf) \<in> rg_visited_pages r"
    and n: "pages_nest f (cf_copc_info cf)" and o: "from_reader laz_read (fcur f 0) = Ok (cf, t)"
    and r: "rg_ok r" "nothing_relevant log2 q r" "rg_copc_info r = cf_copc_info cf"
  shows "select_point_chunks_from log2 (hierarchy_values (rg_hierarchy r)) (cf_copc_info cf) q = select_point_chunks log2 cf q"
proof -
  obtain rs where ok: "hierarchy_ok (length f) rs (hierarchy_values (cf_hierarchy cf)) (lh_number_of_points (cf_header cf))"
    using from_reader_hierarchy [OF o] by (auto simp: hierarchy_walk_def)
  have va: "list_all (\<lambda>e. entry_validate e = Ok ()) (hierarchy_values (rg_hierarchy r))"
    using rg_ok_values(1) [OF r(1)] by (auto simp: list_all_iff validate_hierarchy_entry_Ok_iff)
  have vb: "list_all (\<lambda>e. entry_validate e = Ok ()) (hierarchy_values (cf_hierarchy cf))"
    using ok by (auto simp: hierarchy_ok_def list_all_iff validate_hierarchy_entry_Ok_iff)
  have kb: "e_key e = k" if "RBT.lookup (cf_hierarchy cf) k = Some e" for k e
    using from_reader_keys [OF o that] .
  have ka: "e_key e = k" if "RBT.lookup (rg_hierarchy r) k = Some e" for k e
    using r(1) that by (auto simp: rg_ok_def)
  show ?thesis
  proof (cases "level_range log2 (pq_lod q) (cf_copc_info cf)")
    case (Inl e)
    then show ?thesis by (simp add: select_valid [OF va] select_point_chunks_def select_valid [OF vb])
  next
    case (Inr levels)
    have "filter (wanted (cf_copc_info cf) levels (pq_bounds q)) (hierarchy_values (rg_hierarchy r)) =
        filter (wanted (cf_copc_info cf) levels (pq_bounds q)) (hierarchy_values (cf_hierarchy cf))"
      by (rule same_wanted [OF k n r(2,3) Inr from_reader_pages [OF o] kb ka])
    then show ?thesis by (simp add: select_valid [OF va] select_point_chunks_def select_valid [OF vb] Inr)
  qed
qed

end
