(* ===== verification/Ranged_Opened.thy ===== *)
theory Ranged_Opened
  imports Ranged_Select
begin

text \<open>
  Opening by ranges against opening a file: on the file that a source serves, \<^verbatim>\<open>CopcRangeReader::open\<close> finds
  the header, the COPC info, the LASzip VLR and the hierarchy section that \<^verbatim>\<open>CopcFile::from_reader\<close> finds,
  and then loads the root page.
\<close>

section \<open>Parsing fetched sections\<close>

text \<open>The bytes of \<open>f\<close> from \<open>b\<close> to \<open>e\<close>, with the cursor at \<open>p\<close>.\<close>

definition sect :: "u8 list \<Rightarrow> nat \<Rightarrow> nat \<Rightarrow> nat \<Rightarrow> bsection" where
  "sect f b e p = \<lparr>sec_base = b, sec_data = bslice f b (e - b), sec_pos = p\<rparr>"

lemma section_new_sect: "section_new b (bslice f b (e - b)) = sect f b e b"
  by (simp add: section_new_def sect_def)

lemma sect_seek [simp]: "rseek q (sect f b e p) = Ok ((), sect f b e q)" "rposition (sect f b e p) = Ok (p, sect f b e p)"
  by (simp_all add: rseek_def section_seek_def sect_def rposition_def)

lemma sect_exact:
  assumes "b \<le> p" "p + n \<le> e" "e \<le> length f"
  shows "read_exact ctx n (sect f b e p) = Ok (bslice f p n, sect f b e (p + n))"
proof -
  have "part_of f (sect f b e p)" "holds_range (sect f b e p) p n"
    using assms by (auto simp: part_of_def sect_def holds_range_def)
  from part_of_bytes [OF this] this(2) show ?thesis by (simp add: read_exact_Ok_iff) (simp add: sect_def)
qed

lemma sect_steps:
  "rbind (rseek q) k (sect f b e p) = k () (sect f b e q)"
  "rbind rposition kp (sect f b e p) = kp p (sect f b e p)"
  "b \<le> p \<Longrightarrow> p + n \<le> e \<Longrightarrow> e \<le> length f \<Longrightarrow>
     rbind (read_exact ctx n) kb (sect f b e p) = kb (bslice f p n) (sect f b e (p + n))"
  "b \<le> p \<Longrightarrow> p + 2 \<le> e \<Longrightarrow> e \<le> length f \<Longrightarrow>
     rbind (read_u16 ctx) k2 (sect f b e p) = k2 (u16_from_le (bslice f p 2)) (sect f b e (p + 2))"
  by (simp_all add: rbind_def sect_exact read_u16_def rret_def)

lemma read_vlr_step_section:
  assumes "read_vlr_step e i vs (fcur f p) = Ok (vs', t)" "b \<le> p" "e \<le> length f"
  shows "\<exists>q. b \<le> q \<and> t = fcur f q \<and> read_vlr_step e i vs (sect f b e p) = Ok (vs', sect f b e q)"
proof -
  have h: "p + 54 \<le> e" "p + 54 < 2 ^ 64"
    using assms(1) by (simp_all add: read_vlr_step_def rbind_check_iff fcur_steps validate_range_in_file_Ok_iff VLR_HEADER_BYTES_def)
  let ?n = "unat (u16_from_le (bslice f (p + 20) 2))"
  have d: "p + 54 + ?n \<le> e" "p + 54 + ?n < 2 ^ 64"
    using assms(1,3) h
    by (auto simp: read_vlr_step_def rbind_check_iff fcur_steps validate_range_in_file_Ok_iff VLR_HEADER_BYTES_def ac_simps)
  have "t = fcur f (p + 54 + ?n) \<and> read_vlr_step e i vs (sect f b e p) = Ok (vs', sect f b e (p + 54 + ?n))"
    using assms h d
    by (auto simp: read_vlr_step_def rbind_check_iff fcur_steps sect_steps validate_range_in_file_Ok_iff VLR_HEADER_BYTES_def
        Let_def rbind_assoc ac_simps split: if_splits)
  then show ?thesis using assms(2) by (intro exI [of _ "p + 54 + ?n"]) simp
qed

lemma read_vlrs_section:
  assumes "read_vlrs n len e (fcur f p) = Ok (vs, t)" "b \<le> p" "e \<le> length f"
  shows "\<exists>q. read_vlrs n len e (sect f b e p) = Ok (vs, sect f b e q)"
proof -
  have loop: "\<exists>q. rfor i n (read_vlr_step e) acc (sect f b e p) = Ok (vs, sect f b e q)"
    if "rfor i n (read_vlr_step e) acc (fcur f p) = Ok (vs, t)" "b \<le> p" for i n acc p
    using that
  proof (induction n arbitrary: i acc p)
    case (Suc n)
    then obtain acc' u where s: "read_vlr_step e i acc (fcur f p) = Ok (acc', u)"
      "rfor (Suc i) n (read_vlr_step e) acc' u = Ok (vs, t)" by (auto simp: rbind_Ok_iff)
    from read_vlr_step_section [OF s(1) Suc.prems(2) assms(3)] obtain q where
      q: "b \<le> q" "u = fcur f q" "read_vlr_step e i acc (sect f b e p) = Ok (acc', sect f b e q)" by blast
    then show ?case using Suc.IH s(2) by (simp add: rbind_def)
  qed (auto simp: rret_def)
  from assms show ?thesis using loop
    by (simp add: read_vlrs_def rbind_check_iff)
qed

lemma read_header_section:
  assumes "header_accepted f"
  shows "read_las_header (length f) (fcur (bslice f 0 375) 0) = Ok (header_at f, fcur (bslice f 0 375) 375)"
proof -
  have "375 \<le> length f" using assms by (simp add: header_accepted_def Let_def)
  then have l: "length (bslice f 0 375) = 375" and b: "p + n \<le> 375 \<Longrightarrow> bslice (bslice f 0 375) p n = bslice f p n"
    and i: "p < 375 \<Longrightarrow> bslice f 0 375 ! p = f ! p" for p n
    by (simp_all add: bslice_bslice) (simp add: bslice_def)
  show ?thesis
    using assms unfolding read_las_header_def header_accepted_def
    by (simp add: fcur_steps rbind_check_iff header_at_def Let_def LAS_HEADER_SIZE_14_def MAX_VLR_COUNT_def MAX_EVLR_COUNT_def
        not_less l b i)
qed

section \<open>The reader that is opened\<close>

definition reader_of :: "u8 list \<Rightarrow> 'laz copc_file \<Rightarrow> 's \<Rightarrow> ('s, 'laz) range_reader" where
  "reader_of f cf source =
     (let body = unat (ci_root_hier_offset (cf_copc_info cf)) in
      \<lparr>rg_source = source, rg_file_len = length f, rg_header = cf_header cf, rg_copc_info = cf_copc_info cf,
       rg_laszip_vlr = cf_laszip_vlr cf, rg_hierarchy = RBT.empty, rg_pending_pages = [], rg_visited_pages = {},
       rg_limits = \<lparr>total_bytes = 0\<rparr>, rg_loaded_point_total = 0,
       rg_data_ranges = \<lparr>point_data_start = unat (lh_offset_to_point_data (cf_header cf)),
         point_data_end = unat (lh_offset_to_first_evlr (cf_header cf)),
         hierarchy_start = body, hierarchy_end = evlr_body_end f body\<rparr>,
       rg_point_ranges = RBT.empty\<rparr>)"

definition root_entry :: "copc_info \<Rightarrow> entry" where
  "root_entry info = \<lparr>e_key = vk_root, e_offset = ci_root_hier_offset info,
     e_byte_size = of_nat (unat (ci_root_hier_size info)), e_point_count = - 1\<rparr>"

lemma root_size_small:
  assumes "from_reader laz_read (fcur f 0) = Ok (cf, t)"
  shows "unat (ci_root_hier_size (cf_copc_info cf)) < 2 ^ 31"
  by (rule from_reader_Ok [OF assms])
    (auto simp: read_hierarchy_page_at_def rbind_check_iff add_page_Ok_iff MAX_HIERARCHY_PAGE_BYTES_def)

context range_source begin

lemma root_evlr_served:
  assumes "holds s data" "hierarchy_evlr_at data a" "evlr_body_end data a \<le> length data" "a = unat (ci_root_hier_offset info)"
    and "unat (ci_root_hier_size info) \<le> evlr_body_end data a - a"
  shows "\<exists>s'. validate_root_hierarchy_evlr ops (length data) info s = (Ok (a, evlr_body_end data a - a), s') \<and> holds s' data"
proof -
  have a: "60 \<le> a" "u16_from_le (bslice data (a - 60) 2) = 0" "trim_nul (bslice data (a - 58) 16) = lit ''copc''"
    "u16_from_le (bslice data (a - 42) 2) = 1000" using assms(2) by (simp_all add: hierarchy_evlr_at_def)
  have c: "checked_sub (ci_root_hier_offset info) 60 = Some (ci_root_hier_offset info - 60)"
    "unat (ci_root_hier_offset info - 60) = a - 60"
    using a(1) assms(4) by (simp_all add: checked_sub_def word_le_nat_alt unat_sub)
  have le: "unat (ci_root_hier_offset info - 60) + 60 \<le> length data"
    using assms(3) a(1) by (simp add: c(2) evlr_body_end_def)
  from read_law [OF assms(1) le] obtain s' where
    r: "rr_read_range ops (ci_root_hier_offset info - 60) 60 s = (Ok (bslice data (a - 60) 60), s')" "holds s' data"
    by (auto simp: c(2))
  have e: "a - 60 + 2 = a - 58" "Suc (Suc (a - 60)) = a - 58" "a - 60 + 18 = a - 42" "a - 60 + 20 = a - 40" using a(1) by arith+
  have b: "bslice (bslice data (a - 60) 60) 0 2 = bslice data (a - 60) 2" "bslice (bslice data (a - 60) 60) 2 16 = bslice data (a - 58) 16"
    "bslice (bslice data (a - 60) 60) 18 2 = bslice data (a - 42) 2" "bslice (bslice data (a - 60) 60) 20 8 = bslice data (a - 40) 8"
    using bslice_bslice [of 0 2 60 data "a - 60"] bslice_bslice [of 2 16 60 data "a - 60"]
      bslice_bslice [of 18 2 60 data "a - 60"] bslice_bslice [of 20 8 60 data "a - 60"] a(1) by (simp_all add: e)
  have n: "unat (u64_from_le (bslice data (a - 40) 8)) = evlr_body_end data a - a" by (simp add: evlr_body_end_def)
  then have sz: "\<not> u64_from_le (bslice data (a - 40) 8) < ci_root_hier_size info" using assms(5) by (simp add: word_less_nat_alt)
  have v: "validate_range_in_file a (evlr_body_end data a - a) (length data) l = Ok (evlr_body_end data a)" for l
    using assms(3) size_law [OF assms(1)] by (simp add: validate_range_in_file_Ok_iff evlr_body_end_def)
  show ?thesis
    using r by (simp add: validate_root_hierarchy_evlr_def c st_bind_def st_lift_def Let_def b a sz n v flip: assms(4))
qed

text \<open>On a file that the local reader opens, only the size of the VLR section and the root page can still fail.\<close>

lemma range_open_served:
  assumes "holds source data" "from_reader laz_read (fcur data 0) = Ok (cf, t)"
  shows "\<exists>s. holds s data \<and> range_open ops laz_read source =
    (if MAX_VLR_SECTION_BYTES < unat (lh_offset_to_point_data (cf_header cf)) - 375
     then Err (InvalidData ''VLR section is {vlr_section_len} bytes, max supported is {}'')
     else case load_page ops (root_entry (cf_copc_info cf)) (reader_of data cf s) of
         (Inl e, _) \<Rightarrow> Err e | (Inr _, r) \<Rightarrow> Ok r)"
proof (rule from_reader_Ok [OF assms(2)])
  fix vlrs s1 evlrs s2 root_evlr r ws limits limits' s3
  let ?info = "cf_copc_info cf" and ?h = "header_at data"
  let ?otpd = "unat (lh_offset_to_point_data ?h)" and ?a = "unat (ci_root_hier_offset (cf_copc_info cf))"
  assume acc: "header_accepted data" and h: "cf_header cf = ?h"
    and rv: "read_vlrs (unat (lh_number_of_vlrs ?h)) (length data) ?otpd (fcur data 375) = Ok (vlrs, s1)"
    and xt: "extract_required_vlrs laz_read vlrs = Ok (?info, cf_laszip_vlr cf)"
    and re: "read_evlr_refs ?h (length data) s1 = Ok (evlrs, s2)" "find_hierarchy_evlr evlrs = Some root_evlr"
    and off: "?a = ev_data_offset root_evlr" "unat (ci_root_hier_size ?info) \<le> ev_data_len root_evlr"
    and dr: "data_ranges_new ?h (ev_data_offset root_evlr) (ev_data_len root_evlr) = Ok r"
    and rp: "read_hierarchy_page_at ?a (unat (ci_root_hier_size ?info)) (length data) \<lparr>total_bytes = 0\<rparr> s2 =
      Ok ((cf_root_hierarchy cf, limits), s3)"
  have acc': "375 \<le> length data" "375 \<le> ?otpd" "?otpd \<le> length data" using acc by (simp_all add: header_accepted_def Let_def)
  have small: "length data < 2 ^ 64" using size_law [OF assms(1)] .
  have ev: "hierarchy_evlr_at data ?a" "evlr_body_end data ?a \<le> length data"
    and len: "ev_data_len root_evlr = evlr_body_end data ?a - ?a"
    using found_evlr [OF rv re] by (simp_all add: off(1))
  have size: "unat (ci_root_hier_size ?info) \<le> 64 * 1024 * 1024"
    using rp by (auto simp: read_hierarchy_page_at_def rbind_check_iff add_page_Ok_iff MAX_HIERARCHY_PAGE_BYTES_def)
  obtain u1 where l: "rr_len ops source = (Ok (of_nat (length data)), u1)" "holds u1 data" using len_law [OF assms(1)] by blast
  have nl: "unat (of_nat (length data) :: u64) = length data" by (rule unat_of_nat_small) (use small in simp)
  obtain u2 where hr: "rr_read_range ops 0 375 u1 = (Ok (bslice data 0 375), u2)" "holds u2 data"
    using read_law [OF l(2), of 0 375] acc'(1) by auto
  have hd: "read_las_header (length data) (section_new 0 (bslice data 0 375)) = Ok (?h, fcur (bslice data 0 375) 375)"
    using read_header_section [OF acc] by (simp add: fcur_def section_new_def)
  have pos: "sec_pos (fcur g p) = p" for g p by (simp add: fcur_def)
  show ?thesis
  proof (cases "MAX_VLR_SECTION_BYTES < ?otpd - 375")
    case True
    then show ?thesis using assms(1) acc'
      by (intro exI [of _ source]) (simp add: range_open_def l nl LAS_HEADER_SIZE_14_def Let_def ensure_def hr hd h pos)
  next
    case False
    obtain u3 where vr: "rr_read_range ops 375 (?otpd - 375) u2 = (Ok (bslice data 375 (?otpd - 375)), u3)" "holds u3 data"
      using read_law [OF hr(2), of 375 "?otpd - 375"] acc' by auto
    obtain q where vs: "read_vlrs (unat (lh_number_of_vlrs ?h)) (length data) ?otpd (section_new 375 (bslice data 375 (?otpd - 375))) =
        Ok (vlrs, sect data 375 ?otpd q)"
      using read_vlrs_section [OF rv le_refl acc'(3)] unfolding section_new_sect by blast
    obtain u4 where rt: "validate_root_hierarchy_evlr ops (length data) ?info u3 = (Ok (?a, evlr_body_end data ?a - ?a), u4)" "holds u4 data"
      using root_evlr_served [OF vr(2) ev refl] off(2) len by auto
    have d: "data_ranges_new ?h ?a (evlr_body_end data ?a - ?a) = Ok (rg_data_ranges (reader_of data cf u4))"
      using dr off(1) len by (simp add: data_ranges_new_Ok_iff reader_of_def h Let_def evlr_body_end_def)
    have z: "validate_hierarchy_page_byte_size (unat (ci_root_hier_size ?info)) = Ok ()" 
      "i32_try_from_u64 (ci_root_hier_size ?info) = Some (of_nat (unat (ci_root_hier_size ?info)))"
      using size by (simp_all add: validate_hierarchy_page_byte_size_def MAX_HIERARCHY_PAGE_BYTES_def i32_try_from_u64_def)
    have rd: "\<lparr>rg_source = u4, rg_file_len = length data, rg_header = ?h, rg_copc_info = ?info,
           rg_laszip_vlr = cf_laszip_vlr cf, rg_hierarchy = RBT.empty, rg_pending_pages = [], rg_visited_pages = {},
           rg_limits = \<lparr>total_bytes = 0\<rparr>, rg_loaded_point_total = 0, rg_data_ranges = rg_data_ranges (reader_of data cf u4),
           rg_point_ranges = RBT.empty\<rparr> = reader_of data cf u4"
      by (simp add: reader_of_def Let_def h)
    have re: "\<lparr>e_key = vk_root, e_offset = ci_root_hier_offset ?info,
        e_byte_size = of_nat (unat (ci_root_hier_size ?info)), e_point_count = - 1\<rparr> = root_entry ?info"
      by (simp add: root_entry_def)
    show ?thesis
      using False acc' rt(2)
      by (intro exI [of _ u4], cases "load_page ops (root_entry ?info) (reader_of data cf u4)", cases "fst (load_page ops (root_entry ?info) (reader_of data cf u4))")
        (simp_all del: of_nat_unat add: range_open_def l nl LAS_HEADER_SIZE_14_def Let_def ensure_def hr hd h vr vs xt z rt d rd re pos)
  qed
qed

text \<open>The reader that is opened has loaded its root page, and knows the child pages that it names.\<close>

lemma range_open_known:
  assumes "holds source data" "from_reader laz_read (fcur data 0) = Ok (cf, t)" "range_open ops laz_read source = Ok r"
  shows "serving holds data r \<and> rg_header r = cf_header cf \<and> rg_copc_info r = cf_copc_info cf \<and> rg_laszip_vlr r = cf_laszip_vlr cf \<and>
    pages_known data (root_page (cf_copc_info cf)) {} r \<and> root_page (cf_copc_info cf) \<in> rg_visited_pages r"
proof -
  let ?info = "cf_copc_info cf"
  obtain s where s: "holds s data" and o: "range_open ops laz_read source =
    (if MAX_VLR_SECTION_BYTES < unat (lh_offset_to_point_data (cf_header cf)) - 375
     then Err (InvalidData ''VLR section is {vlr_section_len} bytes, max supported is {}'')
     else case load_page ops (root_entry ?info) (reader_of data cf s) of (Inl e, _) \<Rightarrow> Err e | (Inr _, r) \<Rightarrow> Ok r)"
    using range_open_served [OF assms(1,2)] by blast
  let ?r = "reader_of data cf s"
  from o assms(3) obtain u where l: "load_page ops (root_entry ?info) ?r = (Ok u, r)"
    by (auto split: if_splits sum.splits prod.splits)
  have root: "page_of (root_entry ?info) = root_page ?info"
    using root_size_small [OF assms(2)] by (simp add: page_of_def root_entry_def root_page_def entry_lo_def sint_of_small_nat del: of_nat_unat)
  have sv: "serving holds data ?r" using s by (simp add: serving_def reader_of_def Let_def)
  have "pages_known data (root_page ?info) {root_entry ?info} ?r"
    by (simp add: pages_known_def from_pages_def reader_of_def Let_def root reaches.here)
  from load_page_known [OF sv l this] root
  have k: "pages_known data (root_page ?info) {} r" "root_page ?info \<in> rg_visited_pages r" by simp_all
  have "(False \<longrightarrow> rg_ok r) \<and> same_file ?r r \<and> (r = ?r \<or> grown ?r r)"
    by (rule st_spec_Ok [OF load_page_spec l]) (simp add: same_file_def)
  moreover have "serving holds data r" using st_spec_Ok [OF load_page_serving l sv] .
  ultimately show ?thesis using k by (simp add: same_file_def reader_of_def Let_def)
qed

end

end
