(* ===== verification/Write_File.thy ===== *)
theory Write_File
  imports Pages_Read Stream_Chunks Column_Read Write_Entry
begin

text \<open>
  The file that \<^verbatim>\<open>write_copc_inner\<close> puts together, part by part: what the first half fixes, the header and the
  VLRs, the point data, the hierarchy pages with the EVLRs after them, and the two patches at the end.
  The lemmas lead to the layout of the whole file in \<open>write_body_parts\<close>.
\<close>

section \<open>The front of the file\<close>

definition front_vlrs :: "'v write_plan \<Rightarrow> point_source \<Rightarrow> out_metadata \<Rightarrow> u8 list \<Rightarrow> las_vlr list" where
  "front_vlrs plan src metadata info =
     \<lparr>lv_user_id = lit ''copc'', lv_record_id = 1, lv_description = lit ''COPC info'', lv_data = info\<rparr> #
     \<lparr>lv_user_id = LASZIP_VLR_USER_ID, lv_record_id = LASZIP_VLR_RECORD_ID, lv_description = lit ''http://laszip.org'',
       lv_data = wp_var_vlr_bytes plan\<rparr> #
     regular_crs_vlrs metadata @ ps_extra_bytes_vlrs src @ om_pass_through_vlrs metadata"

lemma emit_Ok_iff: "emit r w = Ok w' \<longleftrightarrow> (\<exists>bs. r = Ok bs \<and> w' = os_write bs w)"
  by (auto simp: emit_def bind_res_Ok_iff)

lemma fold_emit_Ok:
  assumes "fold_res (\<lambda>v. emit (f v)) vs w = Ok w'" "os_at_end w"
  shows "\<exists>bss. map_res f vs = Ok bss \<and> os_data w' = os_data w @ concat bss \<and> os_at_end w'"
  using assms
proof (induction vs arbitrary: w)
  case (Cons v vs)
  then obtain bs where bs: "f v = Ok bs" "fold_res (\<lambda>v. emit (f v)) vs (os_write bs w) = Ok w'"
    by (auto simp: bind_res_Ok_iff emit_Ok_iff)
  from Cons.IH [OF bs(2) os_write_end(2) [OF Cons.prems(2)]] show ?case
    using os_write_end(1) [OF Cons.prems(2)] bs(1) by (auto simp: bind_res_Ok_iff)
qed simp

text \<open>A VLR whose data is exchanged for data of the same length keeps its header.\<close>

lemma write_las_vlr_data:
  assumes "write_las_vlr v = Ok bs" "length d = length (lv_data v)"
  shows "\<exists>hdr. length hdr = 54 \<and> bs = hdr @ lv_data v \<and> write_las_vlr (v\<lparr>lv_data := d\<rparr>) = Ok (hdr @ d)"
  using assms by (auto simp: write_las_vlr_def write_vlr_header_def bind_res_Ok_iff)

lemma write_front_Ok:
  assumes w: "write_front plan src metadata = Ok (p0, w)"
    and size: "length (wp_var_vlr_bytes plan) < 2 ^ 16" "wp_var_vlr_body_size plan = of_nat (length (wp_var_vlr_bytes plan))"
    and guid: "length (oh_guid (wp_header plan)) = 16" and counts: "length (oh_extended_return_counts (wp_header plan)) = 15"
    and info: "length info = 160"
  shows "\<exists>hdr h1 bss. out_header_write (wp_header plan) = Ok hdr \<and> length hdr = 375 \<and> length h1 = 54 \<and>
    map_res write_las_vlr (front_vlrs plan src metadata info) = Ok ((h1 @ info) # bss) \<and>
    os_data w = hdr @ (h1 @ replicate 160 0) @ concat bss \<and> os_at_end w \<and> p0 = 429 \<and>
    of_nat (length (os_data w)) = oh_offset_to_point_data (wp_header plan)"
proof -
  from w obtain hdr h1 h2 w1 w2 w3 w4 w5 where
    hdr: "out_header_write (wp_header plan) = Ok hdr" and w1: "w1 = os_write hdr os_new"
    and h1: "write_vlr_header (lit ''copc'') 1 160 (lit ''COPC info'') = Ok h1" and w2: "w2 = os_write h1 w1" and p0: "p0 = os_pos w2"
    and h2: "write_vlr_header LASZIP_VLR_USER_ID LASZIP_VLR_RECORD_ID (wp_var_vlr_body_size plan) (lit ''http://laszip.org'') = Ok h2"
    and w3: "w3 = os_write (wp_var_vlr_bytes plan) (os_write h2 (os_write (replicate 160 0) w2))"
    and crs: "fold_res (\<lambda>v. emit (write_las_vlr v)) (regular_crs_vlrs metadata) w3 = Ok w4"
    and ex: "fold_res (\<lambda>v. emit (write_las_vlr v)) (ps_extra_bytes_vlrs src) w4 = Ok w5"
    and pass: "fold_res (\<lambda>v. emit (write_las_vlr v)) (om_pass_through_vlrs metadata) w5 = Ok w"
    and off: "of_nat (os_pos w) = oh_offset_to_point_data (wp_header plan)"
    unfolding write_front_def Let_def by (auto simp: bind_res_Ok_iff emit_Ok_iff)
  have e0: "os_at_end os_new" "os_data os_new = []" by (simp_all add: os_new_def os_at_end_def)
  note e1 = os_write_end [OF e0(1), of hdr, folded w1]
  note e2 = os_write_end [OF e1(2), of h1, folded w2]
  note e3 = os_write_end [OF e2(2), of "replicate 160 0"]
  note e4 = os_write_end [OF e3(2), of h2]
  note e5 = os_write_end [OF e4(2), of "wp_var_vlr_bytes plan", folded w3]
  have h1len: "length h1 = 54" using h1 by (auto simp: write_vlr_header_def bind_res_Ok_iff)
  have hdrlen: "length hdr = 375" by (rule out_header_write_length [OF hdr guid counts])
  have v1: "write_las_vlr \<lparr>lv_user_id = lit ''copc'', lv_record_id = 1, lv_description = lit ''COPC info'', lv_data = info\<rparr> = Ok (h1 @ info)"
    using h1 info by (simp add: write_las_vlr_def u16_try_from_usize_def)
  have v2: "write_las_vlr \<lparr>lv_user_id = LASZIP_VLR_USER_ID, lv_record_id = LASZIP_VLR_RECORD_ID,
      lv_description = lit ''http://laszip.org'', lv_data = wp_var_vlr_bytes plan\<rparr> = Ok (h2 @ wp_var_vlr_bytes plan)"
    using h2 size by (simp add: write_las_vlr_def u16_try_from_usize_def)
  from fold_emit_Ok [OF crs e5(2)] obtain b1 where b1: "map_res write_las_vlr (regular_crs_vlrs metadata) = Ok b1"
    "os_data w4 = os_data w3 @ concat b1" "os_at_end w4" by blast
  from fold_emit_Ok [OF ex b1(3)] obtain b2 where b2: "map_res write_las_vlr (ps_extra_bytes_vlrs src) = Ok b2"
    "os_data w5 = os_data w4 @ concat b2" "os_at_end w5" by blast
  from fold_emit_Ok [OF pass b2(3)] obtain b3 where b3: "map_res write_las_vlr (om_pass_through_vlrs metadata) = Ok b3"
    "os_data w = os_data w5 @ concat b3" "os_at_end w" by blast
  have "map_res write_las_vlr (regular_crs_vlrs metadata @ ps_extra_bytes_vlrs src @ om_pass_through_vlrs metadata) = Ok (b1 @ b2 @ b3)"
    unfolding map_res_append_Ok_iff using b1(1) b2(1) b3(1) by blast
  then have "map_res write_las_vlr (front_vlrs plan src metadata info) = Ok ((h1 @ info) # (h2 @ wp_var_vlr_bytes plan) # b1 @ b2 @ b3)"
    by (simp add: front_vlrs_def v1 v2)
  moreover have "os_data w = hdr @ (h1 @ replicate 160 0) @ concat ((h2 @ wp_var_vlr_bytes plan) # b1 @ b2 @ b3)"
    using e0(2) e1(1) e2(1) e3(1) e4(1) e5(1) b1(2) b2(2) b3(2) by simp
  moreover have "p0 = 429" using p0 e0(2) e1(1) e2(3) h1len hdrlen by simp
  ultimately show ?thesis using hdr hdrlen h1len off b3(3) by (auto simp: os_at_end_def)
qed

text \<open>The patch of the first EVLR offset turns the header into that of the header with the offset.\<close>

lemma header_patched:
  assumes w: "out_header_write h = Ok bs" and guid: "length (oh_guid h) = 16"
    and counts: "length (oh_extended_return_counts h) = 15"
  shows "out_header_write (h\<lparr>oh_offset_to_first_evlr := v\<rparr>) = Ok (put_at bs 235 (u64_to_le v))"
proof -
  obtain sx sy sz ox oy oz x0 y0 z0 x1 y1 z1
    where fs: "oh_scale h = (sx, sy, sz)" "oh_offset h = (ox, oy, oz)"
      "b_min (oh_bounds h) = (x0, y0, z0)" "b_max (oh_bounds h) = (x1, y1, z1)"
    by (metis prod_cases3)
  define pre where "pre = lit ''LASF'' @ u16_to_le (oh_file_source_id h) @ u16_to_le (oh_global_encoding h) @
           oh_guid h @ [1] @ [4] @
           pad (oh_system_identifier h) 32 @ pad (oh_generating_software h) 32 @
           u16_to_le (oh_creation_day_of_year h) @ u16_to_le (oh_creation_year h) @ u16_to_le 375 @
           u32_to_le (oh_offset_to_point_data h) @ u32_to_le (oh_number_of_vlrs h) @
           [oh_point_data_format h] @ u16_to_le (oh_point_record_length h) @
           u32_to_le (oh_legacy_point_count h) @ concat (map (\<lambda>_. u32_to_le 0) [0..<5]) @
           u64_to_le sx @ u64_to_le sy @ u64_to_le sz @ u64_to_le ox @ u64_to_le oy @ u64_to_le oz @
           u64_to_le x1 @ u64_to_le x0 @ u64_to_le y1 @ u64_to_le y0 @ u64_to_le z1 @ u64_to_le z0 @ u64_to_le 0"
  define post where "post = u32_to_le (oh_number_of_evlrs h) @ u64_to_le (oh_total_point_count h) @
           concat (map u64_to_le (oh_extended_return_counts h))"
  have bs: "bs = pre @ u64_to_le (oh_offset_to_first_evlr h) @ post"
    and bs': "out_header_write (h\<lparr>oh_offset_to_first_evlr := v\<rparr>) = Ok (pre @ u64_to_le v @ post)"
    using w by (auto simp: out_header_write_def bind_res_Ok_iff fs pre_def post_def split: if_splits)
  have "length pre = 235" unfolding pre_def by (simp add: guid upt_rec)
  then have "put_at bs 235 (u64_to_le v) = pre @ u64_to_le v @ post"
    unfolding bs by (subst put_at_append) simp_all
  then show ?thesis using bs' by simp
qed


section \<open>What is prepared\<close>

text \<open>
  The documented behaviour of \<^verbatim>\<open>las::point::Format\<close> that the writer rests on: beside that of the reader,
  the formats 6 and 7 have neither near infrared nor waveforms.
\<close>

definition las_laws :: "('v, 'z) laz_lib \<Rightarrow> bool" where
  "las_laws lib \<longleftrightarrow> format_laws (ll_format_new lib) (ll_format_len lib) \<and>
     (\<forall>i fmt. (i = 6 \<or> i = 7) \<longrightarrow> ll_format_new lib i = Inr fmt \<longrightarrow> writer_format fmt)"

text \<open>
  The metadata of a write: a GUID has 16 bytes, the encoding has the WKT bit and no reserved one, and
  no VLR that is carried along is one of the two that the writer makes.
\<close>

definition metadata_ok :: "point_source \<Rightarrow> out_metadata \<Rightarrow> bool" where
  "metadata_ok src m \<longleftrightarrow> length (om_guid m) = 16 \<and> om_global_encoding m AND 0x10 \<noteq> 0 \<and> om_global_encoding m AND NOT 0x1F = 0 \<and>
     list_all (\<lambda>v. \<not> should_store_vlr (lv_user_id v) (lv_record_id v))
       (regular_crs_vlrs m @ ps_extra_bytes_vlrs src @ om_pass_through_vlrs m)"

text \<open>What the first half of \<^verbatim>\<open>write_copc_inner\<close> fixes.\<close>

definition plan_sound :: "'v write_plan \<Rightarrow> point_source \<Rightarrow> u32 \<Rightarrow> out_metadata \<Rightarrow> bool" where
  "plan_sound plan src max_points m \<longleftrightarrow>
     (let h = wp_header plan in
      (oh_point_data_format h = 6 OR 0x80 \<or> oh_point_data_format h = 7 OR 0x80) \<and> oh_global_encoding h = om_global_encoding m \<and>
      oh_guid h = om_guid m \<and> length (oh_extended_return_counts h) = 15 \<and> oh_offset_to_first_evlr h = 0 \<and>
      oh_number_of_vlrs h = of_nat (length (front_vlrs plan src m [])) \<and> length (front_vlrs plan src m []) \<le> 4096 \<and>
      oh_number_of_evlrs h = of_nat (Suc (length (source_evlrs_after_hierarchy m))) \<and>
      length (source_evlrs_after_hierarchy m) < 4096 \<and> oh_total_point_count h = of_nat (ps_len src) \<and>
      validate_header_numbers (oh_scale h) (oh_offset h) (b_min (oh_bounds h)) (b_max (oh_bounds h)) = Ok ()) \<and>
     writer_format (wp_format plan) \<and> unat (wp_record_length plan) = record_length (wp_format plan) \<and>
     length (wp_var_vlr_bytes plan) < 2 ^ 16 \<and> wp_var_vlr_body_size plan = of_nat (length (wp_var_vlr_bytes plan)) \<and>
     index_nodes_ok src max_points (wp_nodes plan) (wp_order plan)"

text \<open>The point format of the plan, as the \<^verbatim>\<open>las\<close> crate makes it.\<close>

definition plan_format :: "('v, 'z) laz_lib \<Rightarrow> 'v write_plan \<Rightarrow> point_source \<Rightarrow> bool" where
  "plan_format lib plan src \<longleftrightarrow>
     (\<exists>i fmt. (i = 6 \<or> i = 7) \<and> ll_format_new lib i = Inr fmt \<and> oh_point_data_format (wp_header plan) = i OR 0x80 \<and>
        wp_format plan = fmt\<lparr>lf_extra_bytes := ps_extra_byte_count src\<rparr> \<and>
        checked_add (ll_format_len lib fmt) (ps_extra_byte_count src) = Some (wp_record_length plan) \<and>
        oh_point_record_length (wp_header plan) = wp_record_length plan)"

lemma validate_finite_Ok_iff: "validate_finite_value x = Ok () \<longleftrightarrow> f64_is_finite x"
  by (simp add: validate_finite_value_def)

lemma write_setup_header_numbers:
  assumes "validate_write_setup b scale offset = Ok ()"
  shows "validate_header_numbers scale offset (b_min b) (b_max b) = Ok ()"
proof -
  obtain sx sy sz ox oy oz x0 y0 z0 x1 y1 z1
    where fs: "scale = (sx, sy, sz)" "offset = (ox, oy, oz)" "b_min b = (x0, y0, z0)" "b_max b = (x1, y1, z1)"
    by (metis prod_cases3)
  show ?thesis using assms
    by (auto simp: validate_write_setup_def validate_bounds_def validate_bounds_axis_def validate_transform_def
        validate_scale_def validate_header_numbers_def fs bind_res_Ok_iff validate_finite_Ok_iff ensure_def split: if_splits)
qed

lemma stats_counts:
  assumes "validate_source_points src b scale offset c polls = Ok (stats, polls')"
  shows "length (extended_return_counts stats) = 15"
proof -
  from res_spec_Ok [OF validate_points_upto [of c "ps_len src" src b scale offset polls] assms [unfolded validate_source_points_def]]
  show ?thesis by (auto simp: stats_summary_def)
qed

lemma Ok_sym: "Ok x = Ok y \<Longrightarrow> y = x"
  by simp

lemma output_vlr_count_Ok:
  assumes "output_vlr_count a b c = Ok nv"
  shows "nv = of_nat (2 + a + b + c) \<and> 2 + a + b + c \<le> 4096"
proof -
  obtain t where t: "t = 2 + a + b + c" "t < 2 ^ 32" "nv = of_nat t" "unat nv \<le> 4096"
    using assms by (auto simp: output_vlr_count_def bind_res_Ok_iff checked_add_usize_def u32_try_from_usize_def
        MAX_VLR_COUNT_def bind_eq_Some_conv simp del: of_nat_add split: if_splits)
  have "unat nv = t" unfolding t(3) by (rule unat_of_nat_small) (use t(2) in simp)
  then show ?thesis using t by metis
qed

lemma output_evlr_count_Ok:
  assumes "output_evlr_count a = Ok ne"
  shows "ne = of_nat (1 + a) \<and> 1 + a \<le> 4096"
proof -
  obtain t where t: "t = 1 + a" "t < 2 ^ 32" "ne = of_nat t" "unat ne \<le> 4096"
    using assms by (auto simp: output_evlr_count_def bind_res_Ok_iff checked_add_usize_def u32_try_from_usize_def
        MAX_EVLR_COUNT_def simp del: of_nat_add of_nat_Suc split: if_splits)
  have "unat ne = t" unfolding t(3) by (rule unat_of_nat_small) (use t(2) in simp)
  then show ?thesis using t by metis
qed

lemma write_prepare_sound:
  assumes w: "write_prepare lib src has_color b max_points c polls m stats = Ok plan"
    and laws: "las_laws lib" and m: "metadata_ok src m" and st: "\<forall>s. stats = Some s \<longrightarrow> length (extended_return_counts s) = 15"
  shows "plan_sound plan src max_points m \<and> plan_format lib plan src"
proof -
  let ?id = "if has_color then 7 else 6 :: u8"
  let ?offset = "case om_offset m of Some offset \<Rightarrow> offset | None \<Rightarrow> b_min b"
  from w obtain fmt rl polls1 sp cube ix nv ne bs vbytes where
    fmt: "ll_format_new lib ?id = Inr fmt"
    and rl: "checked_add (ll_format_len lib fmt) (ps_extra_byte_count src) = Some rl"
    and su: "validate_write_setup b (om_scale m) ?offset = Ok ()"
    and stats: "(case stats of None \<Rightarrow> validate_source_points src b (om_scale m) ?offset c polls1 | Some s \<Rightarrow> Ok (s, polls1)) = Ok sp"
    and idx: "build_lod_index src (fst cube) (snd cube) max_points c (snd sp) = Ok ix"
    and nv: "output_vlr_count (regular_crs_vlr_count m) (length (ps_extra_bytes_vlrs src)) (length (om_pass_through_vlrs m)) = Ok nv"
    and ne: "output_evlr_count (source_evlr_count_after_hierarchy m) = Ok ne"
    and bs: "u16_try_from_usize (length vbytes) = Some bs"
    and h: "oh_point_data_format (wp_header plan) = ?id OR 0x80" "oh_global_encoding (wp_header plan) = om_global_encoding m"
      "oh_guid (wp_header plan) = om_guid m" "oh_extended_return_counts (wp_header plan) = extended_return_counts (fst sp)"
      "oh_offset_to_first_evlr (wp_header plan) = 0" "oh_number_of_vlrs (wp_header plan) = nv"
      "oh_number_of_evlrs (wp_header plan) = ne" "oh_total_point_count (wp_header plan) = of_nat (ps_len src)"
      "oh_scale (wp_header plan) = om_scale m" "oh_point_record_length (wp_header plan) = rl" "oh_offset (wp_header plan) = ?offset" "oh_bounds (wp_header plan) = b"
    and p: "wp_format plan = fmt\<lparr>lf_extra_bytes := ps_extra_byte_count src\<rparr>" "wp_record_length plan = rl"
      "wp_nodes plan = fst ix" "wp_order plan = fst (snd ix)" "wp_var_vlr_bytes plan = vbytes" "wp_var_vlr_body_size plan = bs"
    unfolding write_prepare_def Let_def case_prod_beta bind_res_Ok_iff las_err_Ok_iff ok_or_Ok_iff
    apply (elim exE conjE)
    apply (drule Ok_sym)
    apply (rule that)
    apply assumption+
    apply simp_all
    done
  have sums: "regular_crs_vlr_count m = length (regular_crs_vlrs m)"
      "source_evlr_count_after_hierarchy m = length (source_evlrs_after_hierarchy m)"
    by (simp_all add: regular_crs_vlr_count_def regular_crs_vlrs_def source_evlr_count_after_hierarchy_def
        source_evlrs_after_hierarchy_def extended_crs_evlr_count_def extended_crs_evlrs_def)
  let ?nv = "2 + length (regular_crs_vlrs m) + length (ps_extra_bytes_vlrs src) + length (om_pass_through_vlrs m)"
  note nv' = output_vlr_count_Ok [OF nv, unfolded sums]
  note ne' = output_evlr_count_Ok [OF ne, unfolded sums]
  have wf: "writer_format fmt" using laws fmt by (auto simp: las_laws_def split: if_splits)
  have e0: "lf_extra_bytes fmt = 0" and x: "gps_extended fmt"
    using format_lawsD(1,2) [of "ll_format_new lib" "ll_format_len lib" ?id fmt] laws fmt by (simp_all add: las_laws_def)
  then have z: "fmt\<lparr>lf_extra_bytes := 0\<rparr> = fmt" by simp
  have "unat (ll_format_len lib fmt) = record_length fmt"
    using laws x record_length_base [OF e0] by (simp add: las_laws_def format_laws_def)
  then have len: "unat rl = record_length (fmt\<lparr>lf_extra_bytes := ps_extra_byte_count src\<rparr>)"
    using rl record_length_extra [where fmt = fmt and w = "ps_extra_byte_count src"] by (simp add: z checked_add_Some_iff)
  have counts: "length (extended_return_counts (fst sp)) = 15"
    using stats st stats_counts [of src b "om_scale m" ?offset c polls1 "fst sp" "snd sp"] by (auto split: option.splits)
  have "length vbytes < 2 ^ 16" "bs = of_nat (length vbytes)" using bs by (auto simp: u16_try_from_usize_def split: if_splits)
  moreover have "plan_format lib plan src"
    unfolding plan_format_def h(1) p(1,2) using fmt rl h by (intro exI [of _ ?id] exI [of _ fmt]) simp
  ultimately show ?thesis
    using m nv' ne' wf len counts write_setup_header_numbers [OF su] build_index_nodes [of src "fst cube" "snd cube" max_points c "snd sp" "fst ix" "fst (snd ix)" "snd (snd ix)"] idx
    by (auto simp: plan_sound_def h p front_vlrs_def metadata_ok_def writer_format_def)
qed

section \<open>The hierarchy of the file\<close>

text \<open>A page that was written holds valid entries: the writer checks each of them.\<close>

lemma write_page_entries_valid:
  "write_page_entries items out = Ok out' \<Longrightarrow> \<forall>i \<in> set items. entry_validate (item_entry i) = Ok ()"
proof (induction items arbitrary: out)
  case (Cons i items)
  from Cons.prems obtain e buf where e: "hierarchy_page_item_entry i = Ok e"
      "entry_write_le e (replicate HIERARCHY_ENTRY_BYTES 0) = Ok buf" "write_page_entries items (out @ buf) = Ok out'"
    by (auto simp: write_page_entries_def bind_res_Ok_iff)
  have "item_entry i = e"
    using e(1) by (auto simp: hierarchy_page_item_entry_def item_entry_def bind_res_Ok_iff split: page_item.splits if_splits)
  then show ?case using e(2) Cons.IH [OF e(3)] by (simp add: entry_write_le_eq HIERARCHY_ENTRY_BYTES_def bind_res_Ok_iff)
qed simp

lemma write_tree_valid:
  "write_hierarchy_page_tree p out = Ok out' \<Longrightarrow> \<forall>e \<in> set (plan_points p). entry_validate e = Ok ()"
  "write_child_pages items out = Ok out' \<Longrightarrow>
     \<forall>q \<in> set (item_pages items). \<forall>e \<in> set (item_points (pp_items q)). entry_validate e = Ok ()"
proof (induction p out and items out arbitrary: out' and out' rule: write_hierarchy_page_tree_write_child_pages.induct)
  case (1 key items off byte_size out)
  from 1(2) obtain out1 where w: "length out = off" "write_page_entries items out = Ok out1" "write_child_pages items out1 = Ok out'"
    by (auto simp: bind_res_Ok_iff split: if_splits)
  have "\<forall>e \<in> set (item_points items). entry_validate e = Ok ()"
    using write_page_entries_valid [OF w(2)] by (force simp: set_item_points item_entry_def)
  then show ?case using 1(1) [OF _ w(2,3)] w(1) by (auto simp: plan_points_def)
next
  case (4 child items out)
  from 4(3) obtain out1 where w: "write_hierarchy_page_tree child out = Ok out1" "write_child_pages items out1 = Ok out'"
    by (auto simp: bind_res_Ok_iff)
  show ?case using 4(1) [OF w(1)] 4(2) [OF w] by (auto simp: plan_points_def)
qed simp_all

lemma write_hierarchy_Ok:
  assumes w: "write_hierarchy es m w = Ok (rt, p', w')" and at: "os_at_end w" and input: "plan_input_ok es vk_root"
  shows "\<exists>p hend hdr bss. pp_key p = vk_root \<and> plan_ok p \<and> mset (plan_points p) = mset es \<and>
    rt = length (os_data w) + 60 \<and> assign_hierarchy_page_offsets p rt = Ok (p', hend) \<and>
    write_evlr_header (lit ''copc'') 1000 (of_nat (hend - rt)) (lit ''COPC hierarchy'') = Ok hdr \<and>
    map_res write_las_evlr (source_evlrs_after_hierarchy m) = Ok bss \<and>
    os_data w' = os_data w @ hdr @ concat (map page_bytes (all_pages p')) @ concat bss \<and> os_at_end w' \<and>
    (\<forall>e \<in> set es. entry_validate e = Ok ())"
proof -
  from w obtain p hend hdr w1 out w2 where rt: "rt = os_pos w + 60"
    and p: "plan_hierarchy_pages es vk_root = Ok p" and a: "assign_hierarchy_page_offsets p rt = Ok (p', hend)"
    and hdr: "write_evlr_header (lit ''copc'') 1000 (of_nat (hend - rt)) (lit ''COPC hierarchy'') = Ok hdr"
    and w1: "w1 = os_write hdr w" and tree: "write_hierarchy_page_tree p' (take (os_pos w1) (os_data w1)) = Ok out"
    and w2: "w2 = os_write (drop (os_pos w1) out) w1"
    and ev: "fold_res (\<lambda>v. emit (write_las_evlr v)) (source_evlrs_after_hierarchy m) w2 = Ok w'"
    unfolding write_hierarchy_def Let_def
    by (auto simp: bind_res_Ok_iff emit_Ok_iff LAS_EVLR_HEADER_BYTES_def split: if_splits)
  obtain q where q: "plan_hierarchy_pages es vk_root = Ok q" "pp_key q = vk_root" "plan_ok q" "mset (plan_points q) = mset es"
    using plan_exists [OF input] by blast
  then have po: "plan_ok p" "mset (plan_points p) = mset es" "pp_key p = vk_root" using p by simp_all
  note pa = assigned_pages [OF po(1) a]
  note e1 = os_write_end [OF at, of hdr, folded w1]
  have l1: "length (os_data w1) = rt"
    using e1(1) at write_evlr_header_Ok(3) [OF hdr] by (simp add: rt os_at_end_def)
  have take1: "take (os_pos w1) (os_data w1) = os_data w1" using e1(2) by (simp add: os_at_end_def)
  note valid = write_tree_valid(1) [OF tree, unfolded pa(2)]
  have out: "out = os_data w1 @ concat (map page_bytes (all_pages p'))"
    using write_tree_eq(1) [of "os_data w1" p'] pa(4,6) assigned_writable [OF po(1) a valid] tree
    by (simp add: take1 l1)
  note e2 = os_write_end [OF e1(2), of "drop (os_pos w1) out", folded w2]
  have d2: "os_data w2 = os_data w @ hdr @ concat (map page_bytes (all_pages p'))"
    using e2(1) e1(1,2) by (simp add: out os_at_end_def)
  from fold_emit_Ok [OF ev e2(2)] obtain bss where "map_res write_las_evlr (source_evlrs_after_hierarchy m) = Ok bss"
    "os_data w' = os_data w2 @ concat bss" "os_at_end w'" by blast
  moreover have "\<forall>e \<in> set es. entry_validate e = Ok ()" using valid mset_eq_setD [OF po(2)] by simp
  ultimately show ?thesis using p po a hdr d2 rt at by (auto simp: os_at_end_def)
qed

section \<open>The patches\<close>

definition plan_info :: "'v write_plan \<Rightarrow> nat \<Rightarrow> page_plan \<Rightarrow> copc_info" where
  "plan_info plan rt p =
     \<lparr>ci_center = wp_center plan, ci_halfsize = wp_halfsize plan,
      ci_spacing = f64_div (wp_halfsize plan) 0x4060000000000000, ci_root_hier_offset = of_nat rt,
      ci_root_hier_size = of_nat (pp_byte_size p), ci_gpstime_min = gpstime_min (wp_stats plan),
      ci_gpstime_max = gpstime_max (wp_stats plan)\<rparr>"

lemma put_at_left: "p + length bs \<le> length xs \<Longrightarrow> put_at (xs @ ys) p bs = put_at xs p bs @ ys"
  by (simp add: put_at_def)

lemma put_at_right: "put_at (xs @ ys) (length xs + p) bs = xs @ put_at ys p bs"
  by (simp add: put_at_def)

lemma write_patches_Ok:
  assumes w: "write_patches plan 429 e rt p w = Ok w'"
    and data: "os_data w = hdr @ (h1 @ replicate 160 0) @ rest" "length hdr = 375" "length h1 = 54"
  shows "info_validate (plan_info plan rt p) = Ok ()"
    and "os_data w' = put_at hdr 235 (u64_to_le (of_nat e)) @ (h1 @ info_bytes (plan_info plan rt p)) @ rest"
proof -
  let ?info = "info_bytes (plan_info plan rt p)"
  from w show v: "info_validate (plan_info plan rt p) = Ok ()"
    by (auto simp: write_patches_def Let_def bind_res_Ok_iff emit_Ok_iff info_write_le_bytes_eq plan_info_def)
  have "put_at (os_data w) 429 ?info = hdr @ (h1 @ ?info) @ rest"
    using put_at_right [of "hdr @ h1" "replicate 160 0 @ rest" 0 ?info] put_at_append [of "[]" 0 "replicate 160 0" ?info]
    by (simp add: data put_at_left put_at_def)
  moreover have "put_at (hdr @ (h1 @ ?info) @ rest) 235 (u64_to_le (of_nat e)) =
      put_at hdr 235 (u64_to_le (of_nat e)) @ (h1 @ ?info) @ rest"
    by (rule put_at_left) (simp add: data(2))
  moreover from w v have "os_data w' = put_at (put_at (os_data w) 429 ?info) 235 (u64_to_le (of_nat e))"
    by (auto simp: write_patches_def Let_def bind_res_Ok_iff emit_Ok_iff info_write_le_bytes_eq os_patch plan_info_def)
  ultimately show "os_data w' = put_at hdr 235 (u64_to_le (of_nat e)) @ (h1 @ ?info) @ rest" by simp
qed

section \<open>The entries of the chunks\<close>

text \<open>What the hierarchy says of the chunks \<open>ps\<close> that start at \<open>start\<close>.\<close>

definition entries_name :: "nat \<Rightarrow> (lod_node \<times> u8 list) list \<Rightarrow> entry list \<Rightarrow> bool" where
  "entries_name start ps es \<longleftrightarrow>
     map e_key es = map (ln_key \<circ> fst) ps \<and> map entry_points es = map (ln_count \<circ> fst) ps \<and>
     map (\<lambda>e. nat (sint (e_byte_size e))) es = map (length \<circ> snd) ps \<and>
     list_all (\<lambda>e. has_point_data e \<and> \<not> is_child_page e \<and> start \<le> entry_lo e \<and>
       entry_hi e \<le> start + length (concat (map snd ps))) es \<and>
     sorted_wrt chunks_disjoint es"

lemma chunk_entries_name:
  assumes "chunk_sizes_ok ps" "list_all (\<lambda>p. 0 < ln_count (fst p)) ps" "start + length (concat (map snd ps)) < 2 ^ 63"
  shows "entries_name start ps (chunk_entries start ps)"
  using assms
proof (induction start ps rule: chunk_entries.induct)
  case (2 start n chunk rest)
  let ?e = "\<lparr>e_key = ln_key n, e_offset = of_nat start, e_byte_size = of_nat (length chunk), e_point_count = of_nat (ln_count n)\<rparr>"
  have sz: "length chunk < 2 ^ 31" "ln_count n < 2 ^ 31" "0 < ln_count n" using 2(2,3) by (simp_all add: chunk_sizes_ok_def)
  have IH: "entries_name (start + length chunk) rest (chunk_entries (start + length chunk) rest)"
    using 2 by (simp add: chunk_sizes_ok_def add.assoc)
  have o: "unat (of_nat start :: u64) = start" by (rule unat_of_nat_small) (use 2(4) in simp)
  have c: "unat (of_nat (ln_count n) :: i32) = ln_count n" by (rule unat_of_nat_small) (use sz(2) in simp)
  have e: "has_point_data ?e" "\<not> is_child_page ?e" "entry_lo ?e = start" "entry_hi ?e = start + length chunk"
    "entry_points ?e = ln_count n" "nat (sint (e_byte_size ?e)) = length chunk"
    using sz sint_of_small_nat [OF sz(1)] sint_of_small_nat [OF sz(2)] o c
    by (simp_all add: has_point_data_def is_child_page_def entry_lo_def entry_hi_def entry_points_def)
  show ?case using IH e by (auto simp: entries_name_def list_all_iff chunks_disjoint_def)
qed (simp add: entries_name_def)

lemma chunk_entries_bytes:
  assumes "chunk_sizes_ok ps" "start + length (concat (map snd ps)) < 2 ^ 63"
    and "bslice f start (length (concat (map snd ps))) = concat (map snd ps)"
  shows "list_all2 (\<lambda>e chunk. bslice f (entry_lo e) (nat (sint (e_byte_size e))) = chunk) (chunk_entries start ps) (map snd ps)"
  using assms
proof (induction start ps rule: chunk_entries.induct)
  case (2 start n chunk rest)
  have o: "unat (of_nat start :: u64) = start" by (rule unat_of_nat_small) (use 2(3) in simp)
  have b: "nat (sint (of_nat (length chunk) :: i32)) = length chunk"
    using 2(2) sint_of_small_nat [of "length chunk"] by (simp add: chunk_sizes_ok_def)
  have f: "bslice f start (length chunk) = chunk"
    "bslice f (start + length chunk) (length (concat (map snd rest))) = concat (map snd rest)"
    using bslice_sub [OF 2(4), of 0 "length chunk" start]
      bslice_sub [OF 2(4), of "length chunk" "length (concat (map snd rest))" "start + length chunk"]
    by (simp_all add: bslice_def)
  show ?case using 2(1) [OF _ _ f(2)] 2(2,3) f(1) b o by (simp add: entry_lo_def chunk_sizes_ok_def add.assoc)
qed simp

lemma written_entries_ok:
  assumes name: "entries_name start ps es" and valid: "\<forall>e \<in> set es. entry_validate e = Ok ()"
    and keys: "sorted_wrt (<) (map (ln_key \<circ> fst) ps)" "list_all (\<lambda>p. sint (vk_level (ln_key (fst p))) \<le> 30) ps" "ps \<noteq> []"
  shows "writer_entries_ok es"
proof -
  have "e_key ` set es = (ln_key \<circ> fst) ` set ps" using name by (metis entries_name_def set_map)
  then have "\<exists>p \<in> set ps. e_key e = ln_key (fst p)" if "e \<in> set es" for e using that by force
  then have "sint (vk_level (e_key e)) \<le> 30" if "e \<in> set es" for e
    using keys(2) that by (metis list_all_iff)
  moreover have "es \<noteq> []" using name keys(3) by (auto simp: entries_name_def)
  ultimately show ?thesis using name valid keys(1) by (auto simp: writer_entries_ok_def entries_name_def list_all_iff)
qed

section \<open>The layout of the file\<close>

lemma vlrs_small:
  assumes "map_res write_las_vlr vs = Ok bss"
  shows "length (concat bss) \<le> 65590 * length vs"
  using assms
proof (induction vs arbitrary: bss)
  case (Cons v vs)
  then obtain bs bss' where b: "bss = bs # bss'" "write_las_vlr v = Ok bs" "map_res write_las_vlr vs = Ok bss'"
    by (auto simp: bind_res_Ok_iff)
  have "length bs \<le> 65590" using b(2)
    by (auto simp: write_las_vlr_def write_vlr_header_def bind_res_Ok_iff u16_try_from_usize_def split: if_splits)
  then show ?case using Cons.IH [OF b(3)] b(1) by simp
qed simp

text \<open>Either implementation of \<^verbatim>\<open>compress_nodes\<close>, the streaming one with a library that keeps the format's promises.\<close>

definition writer_compress ::
  "('v, 'z) laz_lib \<Rightarrow> 'v \<Rightarrow> nat \<Rightarrow> 'v compress_fn \<Rightarrow> bool" where
  "writer_compress lib v rl compress \<longleftrightarrow>
     (\<exists>threads. compress = compress_nodes_parallel threads lib) \<or>
     compress = compress_nodes lib \<and> (\<exists>chunk streaming. laz_stream_laws lib v rl chunk streaming)"

lemma writer_compress_Ok:
  assumes comp: "writer_compress lib v (record_length format) compress"
    and w: "writer_format format" "os_at_end w" "nodes \<noteq> []" "list_all (node_in_order order) nodes"
    and ok: "compress v nodes order src scale offset (record_length format) format c w polls = Ok (hierarchy, w', polls')"
    and small: "length (os_data w') < 2 ^ 63"
  shows "compressed_as lib v nodes order src scale offset format (os_data w) hierarchy w'"
proof -
  have ranges: "list_all (\<lambda>n. unat (ln_start n) + 4 * ln_count n \<le> length order) nodes"
    using w(4) by (rule list.pred_mono_strong) (simp add: node_in_order_def)
  from comp show ?thesis unfolding writer_compress_def
  proof (elim disjE exE conjE)
    fix threads assume comp: "compress = compress_nodes_parallel threads lib"
    show ?thesis by (rule compress_parallel_Ok [OF w(1,2) ranges, where threads = threads and c = c and polls = polls])
        (use ok comp in simp)
  next
    fix chunk streaming assume comp: "compress = compress_nodes lib" "laz_stream_laws lib v (record_length format) chunk streaming"
    show ?thesis by (rule compress_stream_Ok [OF w(1-3) comp(2) w(4) _ small, where c = c and polls = polls])
        (use ok comp in simp)
  qed
qed

lemma plan_nodes:
  assumes "index_nodes_ok src max_points nodes order" "0 < ps_len src" "ps_len src < 2 ^ 64"
  shows "nodes \<noteq> []" "list_all (node_in_order order) nodes" "sum_list (map ln_count nodes) = ps_len src"
    "sorted_wrt (<) (map ln_key nodes)" "list_all (\<lambda>n. 0 < ln_count n) nodes"
    "list_all (\<lambda>n. vk_validate (ln_key n) = Ok () \<and> sint (vk_level (ln_key n)) \<le> 30) nodes"
proof -
  have sum: "sum_list (map ln_count ns) = length (concat (map (node_indexes order) ns))" for ns
    by (induction ns) (simp_all add: node_indexes_def)
  have "mset (concat (map (node_indexes order) nodes)) = mset (map of_nat [0..<ps_len src])"
    using assms(1) by (simp add: index_nodes_ok_def)
  from mset_eq_length [OF this] show s: "sum_list (map ln_count nodes) = ps_len src" by (simp add: sum)
  then show "nodes \<noteq> []" using assms(2) by auto
  show "sorted_wrt (<) (map ln_key nodes)" using assms(1) by (simp add: index_nodes_ok_def)
  show "list_all (\<lambda>n. 0 < ln_count n) nodes" "list_all (node_in_order order) nodes"
    using assms(1) unat_bound [of max_points] by (auto simp: index_nodes_ok_def node_in_order_def list_all_iff)
  show "list_all (\<lambda>n. vk_validate (ln_key n) = Ok () \<and> sint (vk_level (ln_key n)) \<le> 30) nodes"
  proof -
    have "sint k \<le> 30" if "unat k \<le> 30" for k :: i32
    proof -
      have "sint k = int (unat k)" using sint_of_small_nat [of "unat k"] that by simp
      then show ?thesis using that by linarith
    qed
    then show ?thesis using assms(1) by (auto simp: index_nodes_ok_def list_all_iff)
  qed
qed

text \<open>What a write that succeeded put into the file.\<close>

definition chunks_of :: "('v, 'z) laz_lib \<Rightarrow> 'v write_plan \<Rightarrow> point_source \<Rightarrow> u8 list list result" where
  "chunks_of lib plan src = map_res
     (node_chunk lib (wp_var_vlr plan) (wp_order plan) src (wp_scale plan) (wp_offset plan) (wp_format plan)) (wp_nodes plan)"

text \<open>The entries of the chunks after a front of \<open>n\<close> bytes.\<close>

definition written_entries :: "'v write_plan \<Rightarrow> nat \<Rightarrow> u8 list list \<Rightarrow> entry list" where
  "written_entries plan n chunks = chunk_entries (n + 8) (zip (wp_nodes plan) chunks)"

lemma entry_names:
  assumes plan: "plan_sound plan src max_points m" "0 < ps_len src" "ps_len src < 2 ^ 64"
    and ch: "chunks_of lib plan src = Ok chunks" "chunk_sizes_ok (zip (wp_nodes plan) chunks)"
      "n + 8 + length (concat chunks) < 2 ^ 63"
  shows "entries_name (n + 8) (zip (wp_nodes plan) chunks) (written_entries plan n chunks)"
    and "map snd (zip (wp_nodes plan) chunks) = chunks" "map (f \<circ> fst) (zip (wp_nodes plan) chunks) = map f (wp_nodes plan)"
    and "plan_input_ok (written_entries plan n chunks) vk_root"
    and "sum_list (map entry_points (written_entries plan n chunks)) = ps_len src"
    and "\<forall>e \<in> set (written_entries plan n chunks). entry_validate e = Ok () \<Longrightarrow> writer_entries_ok (written_entries plan n chunks)"
proof -
  let ?nodes = "wp_nodes plan" and ?es = "written_entries plan n chunks"
  let ?ps = "zip ?nodes chunks"
  have ix: "index_nodes_ok src max_points ?nodes (wp_order plan)" using plan(1) by (simp add: plan_sound_def)
  note nd = plan_nodes [OF ix plan(2,3)]
  have len: "length ?nodes = length chunks" using map_res_length [OF ch(1) [unfolded chunks_of_def]] by simp
  then show snd: "map snd ?ps = chunks" by simp
  show "map (f \<circ> fst) ?ps = map f ?nodes" using len by (simp flip: map_map)
  have "list_all (\<lambda>p. 0 < ln_count (fst p)) ?ps" using nd(5) by (auto simp: list_all_iff dest: set_zip_leftD)
  then show name: "entries_name (n + 8) ?ps ?es"
    unfolding written_entries_def by (intro chunk_entries_name) (use ch snd in simp_all)
  have keys: "map e_key ?es = map ln_key ?nodes" using name len by (simp add: entries_name_def flip: map_map)
  have "map entry_points ?es = map ln_count ?nodes" using name len by (simp add: entries_name_def flip: map_map)
  then show "sum_list (map entry_points ?es) = ps_len src" using nd(3) by simp
  have "e_key ` set ?es = ln_key ` set ?nodes" using keys by (metis set_map)
  then have k: "\<exists>x \<in> set ?nodes. e_key e = ln_key x" if "e \<in> set ?es" for e using that by force
  have "page_key_ok vk_root (e_key e)" if "e \<in> set ?es" for e
    using k [OF that] nd(6) under_root by (fastforce simp: page_key_ok_def list_all_iff)
  moreover have "?es \<noteq> []" using keys nd(1) by auto
  moreover have "distinct (map e_key ?es)" using keys nd(4) strict_sorted_iff by metis
  ultimately show "plan_input_ok ?es vk_root" by (simp add: plan_input_ok_def)
  assume valid: "\<forall>e \<in> set ?es. entry_validate e = Ok ()"
  show "writer_entries_ok ?es"
  proof (rule written_entries_ok [OF name valid])
    show "sorted_wrt (<) (map (ln_key \<circ> fst) ?ps)" using nd(4) len by (simp flip: map_map)
    show "list_all (\<lambda>p. sint (vk_level (ln_key (fst p))) \<le> 30) ?ps"
      using nd(6) by (auto simp: list_all_iff dest: set_zip_leftD)
    show "?ps \<noteq> []" using nd(1) len by (cases ?nodes; cases chunks) simp_all
  qed
qed

text \<open>The output never gets shorter.\<close>

lemma os_write_grows: "length (os_data w) \<le> length (os_data (os_write bs w))"
  by (simp add: os_write_def put_at_def)

lemma fold_emit_grows:
  "fold_res (\<lambda>v. emit (f v)) vs w = Ok w' \<Longrightarrow> length (os_data w) \<le> length (os_data w')"
proof (induction vs arbitrary: w)
  case (Cons v vs)
  then obtain bs where "fold_res (\<lambda>v. emit (f v)) vs (os_write bs w) = Ok w'" by (auto simp: bind_res_Ok_iff emit_Ok_iff)
  from Cons.IH [OF this] os_write_grows [of w bs] show ?case by simp
qed simp

lemma write_hierarchy_grows:
  assumes "write_hierarchy es m w = Ok (rt, p, w')"
  shows "length (os_data w) \<le> length (os_data w')"
proof -
  from assms obtain bs1 bs2 where
    "fold_res (\<lambda>v. emit (write_las_evlr v)) (source_evlrs_after_hierarchy m) (os_write bs2 (os_write bs1 w)) = Ok w'"
    unfolding write_hierarchy_def Let_def by (auto simp: bind_res_Ok_iff emit_Ok_iff)
  from fold_emit_grows [OF this] show ?thesis using os_write_grows le_trans by blast
qed

lemma write_patches_grows:
  assumes "write_patches plan p0 e rt p w = Ok w'"
  shows "length (os_data w) \<le> length (os_data w')"
proof -
  from assms obtain bs where w': "w' = os_write (u64_to_le (of_nat e)) (os_seek 235 (os_write bs (os_seek p0 w)))"
    unfolding write_patches_def Let_def by (auto simp: bind_res_Ok_iff emit_Ok_iff)
  have "length (os_data w) \<le> length (os_data (os_write bs (os_seek p0 w)))"
    using os_write_grows [of "os_seek p0 w" bs] by (simp add: os_patch(2))
  also have "\<dots> \<le> length (os_data w')"
    using os_write_grows [of "os_seek 235 (os_write bs (os_seek p0 w))" "u64_to_le (of_nat e)"] by (simp only: w' os_patch(2))
  finally show ?thesis .
qed

text \<open>The parts of the file.\<close>

definition final_header :: "'v write_plan \<Rightarrow> nat \<Rightarrow> out_header" where
  "final_header plan e = wp_header plan\<lparr>oh_offset_to_first_evlr := of_nat e\<rparr>"

lemma write_body_parts:
  assumes w: "write_body compress plan src c m = Ok f" and plan: "plan_sound plan src max_points m"
    and m: "metadata_ok src m" and ps: "0 < ps_len src" "ps_len src < 2 ^ 64"
    and comp: "writer_compress lib (wp_var_vlr plan) (record_length (wp_format plan)) compress" and small: "length f < 2 ^ 63"
  shows "\<exists>hdr bss chunks table e p p' hend ehdr ebss.
    out_header_write (final_header plan e) = Ok hdr \<and>
    map_res write_las_vlr (front_vlrs plan src m (info_bytes (plan_info plan (e + 60) p'))) = Ok bss \<and>
    chunks_of lib plan src = Ok chunks \<and> chunk_sizes_ok (zip (wp_nodes plan) chunks) \<and>
    length (concat chunks) + 375 + length (concat bss) + 8 < 2 ^ 63 \<and>
    oh_offset_to_point_data (wp_header plan) = of_nat (375 + length (concat bss)) \<and>
    e = 375 + length (concat bss) + (8 + length (concat chunks) + length table) \<and>
    pp_key p = vk_root \<and> plan_ok p \<and> mset (plan_points p) = mset (written_entries plan (375 + length (concat bss)) chunks) \<and>
    assign_hierarchy_page_offsets p (e + 60) = Ok (p', hend) \<and>
    (\<forall>x \<in> set (written_entries plan (375 + length (concat bss)) chunks). entry_validate x = Ok ()) \<and>
    info_validate (plan_info plan (e + 60) p') = Ok () \<and>
    write_evlr_header (lit ''copc'') 1000 (of_nat (hend - (e + 60))) (lit ''COPC hierarchy'') = Ok ehdr \<and>
    map_res write_las_evlr (source_evlrs_after_hierarchy m) = Ok ebss \<and>
    f = hdr @ concat bss @ (u64_to_le (of_nat (375 + length (concat bss) + 8 + length (concat chunks))) @ concat chunks @ table) @
      ehdr @ concat (map page_bytes (all_pages p')) @ concat ebss"
proof -
  from w obtain p0 w1 hierarchy w2 polls rt p' w3 w4 where
    fr: "write_front plan src m = Ok (p0, w1)"
    and cm: "compress (wp_var_vlr plan) (wp_nodes plan) (wp_order plan) src (wp_scale plan) (wp_offset plan)
       (unat (wp_record_length plan)) (wp_format plan) c w1 (wp_polls plan) = Ok (hierarchy, w2, polls)"
    and hi: "write_hierarchy hierarchy m w2 = Ok (rt, p', w3)"
    and pt: "write_patches plan p0 (os_pos w2) rt p' w3 = Ok w4" and f: "f = os_data w4"
    unfolding write_body_def Let_def by (auto simp: bind_res_Ok_iff)
  have sound: "writer_format (wp_format plan)" "unat (wp_record_length plan) = record_length (wp_format plan)"
    "length (wp_var_vlr_bytes plan) < 2 ^ 16" "wp_var_vlr_body_size plan = of_nat (length (wp_var_vlr_bytes plan))"
    "index_nodes_ok src max_points (wp_nodes plan) (wp_order plan)"
    "length (oh_guid (wp_header plan)) = 16" "length (oh_extended_return_counts (wp_header plan)) = 15"
    using plan m by (simp_all add: plan_sound_def Let_def metadata_ok_def)
  note nd = plan_nodes [OF sound(5) ps]
  define e where "e = length (os_data w2)"
  define info where "info = info_bytes (plan_info plan (e + 60) p')"
  have l160: "length info = 160" by (simp add: info_def)
  from write_front_Ok [OF fr sound(3,4,6,7) l160] obtain hdr h1 bss where
    hdr: "out_header_write (wp_header plan) = Ok hdr" "length hdr = 375" "length h1 = 54"
    and vl: "map_res write_las_vlr (front_vlrs plan src m info) = Ok ((h1 @ info) # bss)"
    and d1: "os_data w1 = hdr @ (h1 @ replicate 160 0) @ concat bss" "os_at_end w1" "p0 = 429"
      "of_nat (length (os_data w1)) = oh_offset_to_point_data (wp_header plan)" by blast
  define n where "n = 375 + length (concat ((h1 @ info) # bss))"
  have n: "length (os_data w1) = n" using hdr(2) l160 by (simp add: d1(1) n_def)
  have small2: "length (os_data w2) < 2 ^ 63"
    using small write_hierarchy_grows [OF hi] write_patches_grows [OF pt] by (simp add: f)
  from writer_compress_Ok [OF comp sound(1) d1(2) nd(1,2) cm [unfolded sound(2)] small2] obtain chunks table where
    ch: "chunks_of lib plan src = Ok chunks"
    and d2: "os_data w2 = os_data w1 @ point_section lib (wp_var_vlr plan) (wp_nodes plan) chunks (os_data w1) table" "os_at_end w2"
    and es: "hierarchy = written_entries plan n chunks" and sz: "chunk_sizes_ok (zip (wp_nodes plan) chunks)"
      "n + 8 + length (concat chunks) < 2 ^ 63"
    unfolding compressed_as_def chunks_of_def written_entries_def n by blast
  note names = entry_names [OF plan ps ch sz]
  from write_hierarchy_Ok [OF hi d2(2), folded e_def] names(4) es obtain p hend ehdr ebss where
    key: "pp_key p = vk_root" and h: "plan_ok p" "mset (plan_points p) = mset hierarchy" "rt = e + 60"
      "assign_hierarchy_page_offsets p rt = Ok (p', hend)"
      "write_evlr_header (lit ''copc'') 1000 (of_nat (hend - rt)) (lit ''COPC hierarchy'') = Ok ehdr"
      "map_res write_las_evlr (source_evlrs_after_hierarchy m) = Ok ebss"
      "os_data w3 = os_data w2 @ ehdr @ concat (map page_bytes (all_pages p')) @ concat ebss"
      "\<forall>e \<in> set hierarchy. entry_validate e = Ok ()" by blast
  let ?rest = "concat bss @ point_section lib (wp_var_vlr plan) (wp_nodes plan) chunks (os_data w1) table @
      ehdr @ concat (map page_bytes (all_pages p')) @ concat ebss"
  have d3: "os_data w3 = hdr @ (h1 @ replicate 160 0) @ ?rest" by (simp add: h(7) d2(1) d1(1))
  have pos: "os_pos w2 = e" using d2(2) by (simp add: os_at_end_def e_def)
  note pt' = write_patches_Ok [OF pt [unfolded d1(3) pos h(3)] d3 hdr(2,3), folded info_def]
  have hdr': "out_header_write (final_header plan e) = Ok (put_at hdr 235 (u64_to_le (of_nat e)))"
    unfolding final_header_def by (rule header_patched [OF hdr(1) sound(6,7)])
  have e: "e = n + (8 + length (concat chunks) + length table)"
    unfolding e_def d2(1) length_append n by (simp add: point_section_def)
  have psec: "point_section lib (wp_var_vlr plan) (wp_nodes plan) chunks (os_data w1) table =
      u64_to_le (of_nat (n + 8 + length (concat chunks))) @ concat chunks @ table"
    unfolding point_section_def n ..
  have fb: "f = put_at hdr 235 (u64_to_le (of_nat e)) @ concat ((h1 @ info) # bss) @
      (u64_to_le (of_nat (n + 8 + length (concat chunks))) @ concat chunks @ table) @
      ehdr @ concat (map page_bytes (all_pages p')) @ concat ebss"
    unfolding f pt'(2) psec by simp
  have c1: "length (concat chunks) + 375 + length (concat ((h1 @ info) # bss)) + 8 < 2 ^ 63"
    using sz(2) by (simp add: n_def)
  have c2: "oh_offset_to_point_data (wp_header plan) = of_nat n" using d1(4) n by simp
  note c3 = h(2,4,5,8) [unfolded es h(3)]
  show ?thesis
    by (rule exI [of _ "put_at hdr 235 (u64_to_le (of_nat e))"], rule exI [of _ "(h1 @ info) # bss"],
        rule exI [of _ chunks], rule exI [of _ table], rule exI [of _ e], rule exI [of _ p], rule exI [of _ p'],
        rule exI [of _ hend], rule exI [of _ ehdr], rule exI [of _ ebss], unfold n_def [symmetric] info_def [symmetric])
      (intro conjI hdr' vl ch sz(1) c1 c2 e key h(1) c3 pt'(1) h(6) fb)
qed

end
