(* ===== verification/Write_Read.thy ===== *)
theory Write_Read
  imports Write_File
begin

text \<open>
  The writer against the reader: a file that \<^verbatim>\<open>write_copc_inner\<close> wrote is opened by \<^verbatim>\<open>CopcFile::from_reader\<close>,
  with the header, the COPC info and the hierarchy that were written, and every entry names the bytes of
  the chunk of its node.
\<close>

section \<open>Opening what was written\<close>

lemma extract_written:
  assumes "info_validate info = Ok ()" "laz_read laz_bytes = Inr laz" "length laz_bytes < 2 ^ 16"
    and "list_all (\<lambda>v. \<not> should_store_vlr (lv_user_id v) (lv_record_id v)) vs"
  shows "extract_required_vlrs laz_read (stored_vlrs 0
    (\<lparr>lv_user_id = lit ''copc'', lv_record_id = 1, lv_description = d1, lv_data = info_bytes info\<rparr> #
     \<lparr>lv_user_id = LASZIP_VLR_USER_ID, lv_record_id = LASZIP_VLR_RECORD_ID, lv_description = d2, lv_data = laz_bytes\<rparr> # vs)) =
    Ok (info, laz)"
proof -
  have "stored_vlrs i vs = []" for i
    using assms(4) by (induction vs arbitrary: i) (simp_all add: stored_vlr_def)
  then show ?thesis
    using assms(1,2)
    by (simp add: stored_vlr_def should_store_vlr_def LASZIP_VLR_USER_ID_def LASZIP_VLR_RECORD_ID_def
        extract_required_vlrs_def info_from_le_bytes_bytes lit_def)
qed

lemma from_reader_intro:
  assumes "header_accepted f"
    and "read_vlrs (unat (lh_number_of_vlrs (header_at f))) (length f)
      (unat (lh_offset_to_point_data (header_at f))) (fcur f 375) = Ok (vlrs, s1)"
    and "extract_required_vlrs laz_read vlrs = Ok (info, laz)"
    and "unat (ci_root_hier_size info) \<le> MAX_HIERARCHY_PAGE_BYTES"
    and "read_evlr_refs (header_at f) (length f) s1 = Ok (evlrs, s2)"
    and "find_hierarchy_evlr evlrs = Some root_evlr"
    and "unat (ci_root_hier_offset info) = ev_data_offset root_evlr"
    and "unat (ci_root_hier_size info) \<le> ev_data_len root_evlr"
    and "data_ranges_new (header_at f) (ev_data_offset root_evlr) (ev_data_len root_evlr) = Ok r"
    and "read_hierarchy_page_at (ev_data_offset root_evlr) (unat (ci_root_hier_size info)) (length f) \<lparr>total_bytes = 0\<rparr> s2 =
      Ok ((page, limits), s3)"
    and "insert_hierarchy_pages page (length f) r
      \<lparr>ws_hierarchy = RBT.empty, ws_visited = {(ev_data_offset root_evlr, unat (ci_root_hier_size info))},
       ws_pending = []\<rparr> limits s3 = Ok ((ws, limits'), t)"
    and "validate_point_chunk_ranges (ws_hierarchy ws) = Ok ()"
    and "validate_hierarchy_point_count (ws_hierarchy ws) (lh_number_of_points (header_at f)) = Ok ()"
  shows "from_reader laz_read (fcur f 0) =
    Ok (\<lparr>cf_header = header_at f, cf_copc_info = info, cf_laszip_vlr = laz, cf_root_hierarchy = page,
         cf_hierarchy = ws_hierarchy ws\<rparr>, t)"
proof -
  have "read_las_header (length f) (fcur f 0) = Ok (header_at f, fcur f 375)"
    using assms(1) by (simp add: read_las_header_Ok_iff)
  then show ?thesis
    using assms(2-)
    by (simp add: from_reader_def rbind_def reader_len_fcur rlift_def rguard_def rret_def
        validate_hierarchy_page_byte_size_def)
qed

lemma read_evlrs_written:
  assumes w: "write_evlr_header (lit ''copc'') 1000 (of_nat (length body)) d = Ok ehdr" "map_res write_las_evlr evs = Ok ebss"
    and f: "f = before @ ehdr @ body @ concat ebss" "length f < 2 ^ 64" "before \<noteq> []"
    and h: "unat (lh_offset_to_first_evlr h) = length before" "lh_number_of_evlrs h = of_nat (Suc (length evs))" "length evs < 4096"
  shows "\<exists>es s2. read_evlr_refs h (length f) (fcur f q) =
    Ok (\<lparr>ev_user_id = pad (lit ''copc'') 16, ev_record_id = 1000, ev_data_offset = length before + 60,
          ev_data_len = length body\<rparr> # es, fcur f s2)"
proof -
  have l60: "length ehdr = 60" by (rule write_evlr_header_Ok(3) [OF w(1)])
  have nb: "unat (of_nat (length body) :: u64) = length body" by (rule unat_of_nat_small) (use f in simp)
  have ne: "unat (of_nat (Suc (length evs)) :: u32) = Suc (length evs)" by (rule unat_of_nat_small) (use h(3) in simp)
  let ?b = "length before"
  have s1: "bslice f ?b 60 = ehdr" using l60 by (simp add: f(1) bslice_def)
  have s2: "bslice f (?b + 60 + length body) (length (concat ebss)) = concat ebss" using l60 by (simp add: f(1) bslice_def)
  have step: "read_evlr_step (length f) 0 [] (fcur f ?b) =
      Ok ([\<lparr>ev_user_id = pad (lit ''copc'') 16, ev_record_id = 1000, ev_data_offset = ?b + 60, ev_data_len = length body\<rparr>],
        fcur f (?b + 60 + length body))"
    using read_evlr_step_written [OF w(1) s1 _ f(2), unfolded nb, of 0 "[]"] l60 by (simp add: f(1))
  have lawful: "list_all2 (\<lambda>v bs. write_las_evlr v = Ok bs) evs ebss" using w(2) by (simp add: map_res_Ok_iff)
  have le: "?b + 60 + length body + length (concat ebss) \<le> length f" using l60 by (simp add: f(1))
  from read_evlr_loop_written [OF lawful s2 le f(2), of 1 "[\<lparr>ev_user_id = pad (lit ''copc'') 16, ev_record_id = 1000,
        ev_data_offset = ?b + 60, ev_data_len = length body\<rparr>]"] obtain es where
    rest: "rfor 1 (length evs) (read_evlr_step (length f)) [\<lparr>ev_user_id = pad (lit ''copc'') 16, ev_record_id = 1000,
        ev_data_offset = ?b + 60, ev_data_len = length body\<rparr>] (fcur f (?b + 60 + length body)) =
      Ok ([\<lparr>ev_user_id = pad (lit ''copc'') 16, ev_record_id = 1000,
        ev_data_offset = ?b + 60, ev_data_len = length body\<rparr>] @ es, fcur f (?b + 60 + length body + length (concat ebss)))" by blast
  have "0 < ?b" using f(3) by simp
  then have h0: "lh_offset_to_first_evlr h \<noteq> 0" "lh_number_of_evlrs h \<noteq> 0" using h ne by (auto simp: unat_eq_zero)
  have r: "validate_range_in_file ?b EVLR_HEADER_BYTES (length f) l = Ok (?b + 60)" for l
    using f(2) l60 by (simp add: validate_range_in_file_Ok_iff EVLR_HEADER_BYTES_def f(1))
  have "rfor 0 (Suc (length evs)) (read_evlr_step (length f)) [] (fcur f ?b) =
      Ok (\<lparr>ev_user_id = pad (lit ''copc'') 16, ev_record_id = 1000, ev_data_offset = ?b + 60, ev_data_len = length body\<rparr> # es,
        fcur f (?b + 60 + length body + length (concat ebss)))"
    unfolding rfor_split step using rest by simp
  then show ?thesis
    using h0 r h(3) ne
    by (simp add: read_evlr_refs_def h(1,2) rbind_def rguard_def rlift_def fcur_steps MAX_EVLR_COUNT_def
        del: of_nat_Suc rfor.simps) blast
qed

lemma hierarchy_checks_written:
  assumes ok: "walk_ok len r ws" and es: "filter (\<lambda>e. \<not> is_child_page e) (hierarchy_values (ws_hierarchy ws)) = es"
    and dis: "sorted_wrt chunks_disjoint (filter has_point_data es)" and sum: "sum_list (map entry_points es) = unat n"
  shows "validate_point_chunk_ranges (ws_hierarchy ws) = Ok ()" "validate_hierarchy_point_count (ws_hierarchy ws) n = Ok ()"
proof -
  let ?vs = "hierarchy_values (ws_hierarchy ws)"
  have f: "filter has_point_data es = filter has_point_data ?vs"
    unfolding es [symmetric] filter_filter by (rule filter_cong) (auto simp: has_point_data_def is_child_page_def)
  have "sum_list (map entry_points vs) = sum_list (map entry_points (filter (\<lambda>e. \<not> is_child_page e) vs))" for vs
    by (induction vs) (simp_all add: entry_points_def is_child_page_def has_point_data_def)
  then have "sum_list (map entry_points ?vs) = unat n" unfolding sum [symmetric] es [symmetric] .
  moreover have "list_all (\<lambda>e. validate_hierarchy_entry e len r = Ok ()) ?vs" "sorted_wrt (<) (map e_key ?vs)"
    using ok hierarchy_values_sorted [of "ws_hierarchy ws"] by (auto simp: walk_ok_def list_all_iff set_hierarchy_values)
  ultimately have "hierarchy_ok len r ?vs n" using dis by (simp add: hierarchy_ok_def f)
  then show "validate_point_chunk_ranges (ws_hierarchy ws) = Ok ()" "validate_hierarchy_point_count (ws_hierarchy ws) n = Ok ()"
    using hierarchy_checks_iff [OF ok, of n] by simp_all
qed

text \<open>A file made of the parts that a write puts one after the other.\<close>

lemma file_opens:
  assumes hdr: "out_header_write h = Ok hdr" "out_header_readable h (length f)"
    and f: "f = hdr @ concat bss @ psec @ ehdr @ pages @ concat ebss" "length f < 2 ^ 64"
    and vlrs: "map_res write_las_vlr vs = Ok bss" "oh_number_of_vlrs h = of_nat (length vs)" "length vs \<le> 4096"
      "unat (oh_offset_to_point_data h) = 375 + length (concat bss)"
      "extract_required_vlrs laz_read (stored_vlrs 0 vs) = Ok (info, laz)"
    and evlr: "e = 375 + length (concat bss) + length psec" "unat (oh_offset_to_first_evlr h) = e"
      "write_evlr_header (lit ''copc'') 1000 (of_nat (length pages)) d = Ok ehdr"
      "map_res write_las_evlr evs = Ok ebss" "oh_number_of_evlrs h = of_nat (Suc (length evs))" "length evs < 4096"
    and pages: "pages = concat (map page_bytes (all_pages p'))" "plan_ok p" "mset (plan_points p) = mset es"
      "assign_hierarchy_page_offsets p (e + 60) = Ok (p', hend)" "length pages \<le> MAX_HIERARCHY_TOTAL_BYTES"
      "ci_root_hier_offset info = of_nat (e + 60)" "ci_root_hier_size info = of_nat (pp_byte_size p')"
    and es: "writer_entries_ok es"
      "\<forall>x \<in> set es. validate_hierarchy_entry x (length f) \<lparr>point_data_start = 375 + length (concat bss), point_data_end = e,
         hierarchy_start = e + 60, hierarchy_end = e + 60 + length pages\<rparr> = Ok ()"
      "sorted_wrt chunks_disjoint (filter has_point_data es)" "sum_list (map entry_points es) = unat (oh_total_point_count h)"
  shows "\<exists>cf t. from_reader laz_read (fcur f 0) = Ok (cf, t) \<and> cf_header cf = las_header_of_out h \<and>
    cf_copc_info cf = info \<and> cf_laszip_vlr cf = laz \<and> filter (\<lambda>x. \<not> is_child_page x) (hierarchy_walk cf) = es"
proof -
  let ?r = "\<lparr>point_data_start = 375 + length (concat bss), point_data_end = e,
      hierarchy_start = e + 60, hierarchy_end = e + 60 + length pages\<rparr>"
  have gc: "length (oh_guid h) = 16" "length (oh_extended_return_counts h) = 15" using hdr(2) by (simp_all add: out_header_readable_def)
  have l375: "length hdr = 375" by (rule out_header_write_length [OF hdr(1) gc])
  have l60: "length ehdr = 60" by (rule write_evlr_header_Ok(3) [OF evlr(3)])
  note hdr2 = hdr(2) [unfolded f(1)]
  have acc: "header_accepted f" unfolding f(1) by (rule header_accepted_written [OF hdr(1) hdr2])
  have ha: "header_at f = las_header_of_out h" unfolding f(1) by (rule header_at_written(1) [OF hdr(1) gc])
  have lf: "length f = e + 60 + length pages + length (concat ebss)" by (simp add: f(1) l375 l60 evlr(1))
  have nv: "unat (oh_number_of_vlrs h) = length vs" unfolding vlrs(2) by (rule unat_of_nat_small) (use vlrs(3) in simp)
  have rv: "read_vlrs (length vs) (length f) (375 + length (concat bss)) (fcur f 375) =
      Ok (stored_vlrs 0 vs, fcur f (375 + length (concat bss)))"
    by (rule read_vlrs_written [OF vlrs(1) _ le_refl _ f(2) vlrs(3)]) (use l375 in \<open>simp_all add: f(1) bslice_def\<close>)
  let ?before = "hdr @ concat bss @ psec"
  have before: "length ?before = e" "?before \<noteq> []" using l375 by (auto simp: evlr(1))
  have f': "f = ?before @ ehdr @ pages @ concat ebss" by (simp add: f(1))
  have fe: "unat (lh_offset_to_first_evlr (las_header_of_out h)) = length ?before"
    "lh_number_of_evlrs (las_header_of_out h) = of_nat (Suc (length evs))"
    unfolding before(1) by (simp_all add: las_header_of_out_def evlr(2,5))
  let ?root = "\<lparr>ev_user_id = pad (lit ''copc'') 16, ev_record_id = 1000, ev_data_offset = e + 60, ev_data_len = length pages\<rparr>"
  from read_evlrs_written [OF evlr(3,4) f' f(2) before(2) fe evlr(6), of "375 + length (concat bss)", unfolded before(1)]
  obtain evl s2 where re: "read_evlr_refs (las_header_of_out h) (length f) (fcur f (375 + length (concat bss))) =
      Ok (?root # evl, fcur f s2)" by blast
  have fnd: "find_hierarchy_evlr (?root # evl) = Some ?root"
    using write_evlr_header_Ok(2) [OF evlr(3)] by (simp add: find_hierarchy_evlr_def)
  note pa = assigned_pages [OF pages(2,4)]
  have szs: "pages_size ps = length (concat (map page_bytes ps))" if "list_all sized ps" for ps
    using that by (induction ps) (simp_all add: length_page_bytes sized_def)
  have hend: "hend = e + 60 + length pages" using pa(5) szs [OF pa(6)] by (simp add: pages(1))
  have root: "pp_byte_size p' \<le> 131072" "pp_byte_size p' \<le> length pages"
    using pa(1) all_pages_self [of p'] hend by (fastforce simp: pa(8))+
  have ro: "unat (ci_root_hier_offset info) = e + 60" unfolding pages(6) by (rule unat_of_nat_small) (use f(2) lf in simp)
  have rs: "unat (ci_root_hier_size info) = pp_byte_size p'" unfolding pages(7) by (rule unat_of_nat_small) (use root(1) in simp)
  have dr: "data_ranges_new (las_header_of_out h) (e + 60) (length pages) = Ok ?r"
    using f(2) lf by (simp add: data_ranges_new_Ok_iff las_header_of_out_def vlrs(4) evlr(2)) (simp add: evlr(1))
  have body: "bslice f (e + 60) (hend - (e + 60)) = concat (map page_bytes (all_pages p'))"
    using l60 before(1) by (simp add: f' hend bslice_def pages(1) [symmetric])
  have le: "hend \<le> length f" "hierarchy_start ?r \<le> e + 60" "hend \<le> hierarchy_end ?r" "hend - (e + 60) \<le> MAX_HIERARCHY_TOTAL_BYTES"
    using lf hend pages(5) by simp_all
  from pages_walked [OF es(1) pages(2,3,4) body le(1) f(2) le(2,3) es(2) le(4), of s2] obtain ws limits' pos where
    rd: "read_hierarchy_page_at (e + 60) (pp_byte_size p') (length f) \<lparr>total_bytes = 0\<rparr> (fcur f s2) =
      Ok ((\<lparr>page_entries = page_entries_of p'\<rparr>, \<lparr>total_bytes = pp_byte_size p'\<rparr>), fcur f (e + 60 + pp_byte_size p'))"
    and ins: "insert_hierarchy_pages \<lparr>page_entries = page_entries_of p'\<rparr> (length f) ?r
      \<lparr>ws_hierarchy = RBT.empty, ws_visited = {(e + 60, pp_byte_size p')}, ws_pending = []\<rparr>
      \<lparr>total_bytes = pp_byte_size p'\<rparr> (fcur f (e + 60 + pp_byte_size p')) = Ok ((ws, limits'), fcur f pos)"
    and fl: "filter (\<lambda>e. \<not> is_child_page e) (hierarchy_values (ws_hierarchy ws)) = es" and ok: "walk_ok (length f) ?r ws" by blast
  note checks = hierarchy_checks_written [OF ok fl es(3,4)]
  have "from_reader laz_read (fcur f 0) = Ok (\<lparr>cf_header = header_at f, cf_copc_info = info, cf_laszip_vlr = laz,
      cf_root_hierarchy = \<lparr>page_entries = page_entries_of p'\<rparr>, cf_hierarchy = ws_hierarchy ws\<rparr>, fcur f pos)"
    by (rule from_reader_intro [OF acc _ vlrs(5) _ _ fnd])
      (use rv re dr rd ins checks root in \<open>simp_all add: ha ro rs las_header_of_out_def nv vlrs(4) MAX_HIERARCHY_PAGE_BYTES_def\<close>)
  then show ?thesis using ha fl by (simp add: hierarchy_walk_def)
qed

section \<open>The whole file\<close>

lemma pages_small:
  assumes "plan_ok p" "assign_hierarchy_page_offsets p off = Ok (p', hend)" "mset (plan_points p) = mset es" "pp_key p = vk_root"
  shows "hend - off \<le> 992 * length es"
proof -
  note pa = assigned_pages [OF assms(1,2)]
  have "plan_ok p'" using pa(1) by (simp add: plan_ok_def)
  then have "entry_total (all_pages p') \<le> 31 * length (plan_points p')"
    using plan_entries_bound [of p'] pa(3) assms(4) by (simp add: vk_root_def)
  moreover have "pages_size ps = 32 * entry_total ps" if "list_all sized ps" for ps
    using that by (induction ps) (simp_all add: sized_def)
  ultimately show ?thesis using pa(2,5,6) mset_eq_length [OF assms(3)] by simp
qed

lemma front_vlrs_length: "length (front_vlrs plan src m i) = length (front_vlrs plan src m j)"
  by (simp add: front_vlrs_def)

lemma final_header_readable:
  assumes plan: "plan_sound plan src max_points m" "metadata_ok src m"
    and off: "oh_offset_to_point_data (wp_header plan) = of_nat n" "375 \<le> n" "n < 2 ^ 32" "n \<le> e" "e \<le> len" "len < 2 ^ 63"
  shows "out_header_readable (final_header plan e) len"
    and "unat (oh_offset_to_point_data (final_header plan e)) = n" "unat (oh_offset_to_first_evlr (final_header plan e)) = e"
proof -
  show n: "unat (oh_offset_to_point_data (final_header plan e)) = n"
    using off(1,3) by (simp add: final_header_def unat_of_nat_small)
  show e: "unat (oh_offset_to_first_evlr (final_header plan e)) = e"
    using off(5,6) by (simp add: final_header_def unat_of_nat_small)
  have "unat (oh_number_of_vlrs (wp_header plan)) \<le> 4096" "unat (oh_number_of_evlrs (wp_header plan)) \<le> 4096"
    using plan(1) by (auto simp: plan_sound_def Let_def unat_of_nat_small simp del: of_nat_Suc)
  moreover have "oh_point_data_format (wp_header plan) AND 0xC0 \<noteq> 0" "oh_point_data_format (wp_header plan) AND 0x3F \<in> {6, 7, 8}"
    using plan(1) by (auto simp: plan_sound_def Let_def)
  ultimately show "out_header_readable (final_header plan e) len"
    using plan n e off by (simp add: out_header_readable_def final_header_def plan_sound_def Let_def metadata_ok_def)
qed

text \<open>The reader's own limits, which the writer does not enforce: the sizes of a chunk and of the hierarchy.\<close>

definition within_reader_limits :: "('v, 'z) laz_lib \<Rightarrow> 'v write_plan \<Rightarrow> point_source \<Rightarrow> u8 list \<Rightarrow> bool" where
  "within_reader_limits lib plan src f \<longleftrightarrow>
     length f < 2 ^ 63 \<and> 992 * length (wp_nodes plan) \<le> MAX_HIERARCHY_TOTAL_BYTES \<and>
     (case chunks_of lib plan src of Inl _ \<Rightarrow> True
        | Inr chunks \<Rightarrow> list_all (\<lambda>chunk. length chunk \<le> MAX_POINT_CHUNK_BYTES) chunks)"

text \<open>What an opened file \<open>cf\<close> shows of the plan it was written by, and of its chunks.\<close>

definition shows_plan :: "u8 list \<Rightarrow> 'v write_plan \<Rightarrow> u8 list list \<Rightarrow> 'laz \<Rightarrow> 'laz copc_file \<Rightarrow> bool" where
  "shows_plan f plan chunks laz cf \<longleftrightarrow>
     (\<exists>e. cf_header cf = las_header_of_out (final_header plan e)) \<and> cf_laszip_vlr cf = laz \<and>
     ci_center (cf_copc_info cf) = wp_center plan \<and> ci_halfsize (cf_copc_info cf) = wp_halfsize plan \<and>
     ci_gpstime_min (cf_copc_info cf) = gpstime_min (wp_stats plan) \<and>
     ci_gpstime_max (cf_copc_info cf) = gpstime_max (wp_stats plan) \<and>
     (let es = filter (\<lambda>x. \<not> is_child_page x) (hierarchy_walk cf) in
      map e_key es = map ln_key (wp_nodes plan) \<and> map entry_points es = map ln_count (wp_nodes plan) \<and>
      list_all2 (\<lambda>e chunk. bslice f (entry_lo e) (nat (sint (e_byte_size e))) = chunk) es chunks)"

lemma entries_readable:
  assumes name: "entries_name start ps es" and valid: "\<forall>x \<in> set es. entry_validate x = Ok ()"
    and chunks: "list_all (\<lambda>chunk. length chunk \<le> MAX_POINT_CHUNK_BYTES) (map snd ps)"
    and r: "point_data_start r \<le> start" "start + length (concat (map snd ps)) \<le> point_data_end r" "point_data_end r \<le> len" "len < 2 ^ 64"
  shows "\<forall>x \<in> set es. validate_hierarchy_entry x len r = Ok ()"
proof
  fix x assume x: "x \<in> set es"
  have "map (\<lambda>e. nat (sint (e_byte_size e))) es = map length (map snd ps)" using name by (simp add: entries_name_def)
  then have "(\<lambda>e. nat (sint (e_byte_size e))) ` set es = length ` set (map snd ps)" by (metis set_map)
  then have "nat (sint (e_byte_size x)) \<in> length ` set (map snd ps)" using x by (metis imageI)
  then have "sint (e_byte_size x) \<le> int MAX_POINT_CHUNK_BYTES" using chunks by (auto simp: list_all_iff)
  moreover have "has_point_data x" "\<not> is_child_page x" "start \<le> entry_lo x" "entry_hi x \<le> start + length (concat (map snd ps))"
    using name x by (simp_all add: entries_name_def list_all_iff)
  ultimately show "validate_hierarchy_entry x len r = Ok ()"
    using valid x r by (auto simp: validate_hierarchy_entry_Ok_iff)
qed

lemma written_opens:
  assumes w: "write_body compress plan src c m = Ok f" and plan: "plan_sound plan src max_points m"
    and m: "metadata_ok src m" and ps: "0 < ps_len src" "ps_len src < 2 ^ 64"
    and comp: "writer_compress lib (wp_var_vlr plan) (record_length (wp_format plan)) compress"
    and laz: "laz_read (wp_var_vlr_bytes plan) = Inr laz" and fits: "within_reader_limits lib plan src f"
  shows "\<exists>chunks cf t. chunks_of lib plan src = Ok chunks \<and> from_reader laz_read (fcur f 0) = Ok (cf, t) \<and>
    shows_plan f plan chunks laz cf"
proof -
  have small: "length f < 2 ^ 63" "length f < 2 ^ 64" using fits by (simp_all add: within_reader_limits_def)
  from write_body_parts [OF w plan m ps comp small(1)] obtain hdr bss chunks table e p p' hend ehdr ebss where
    hdr: "out_header_write (final_header plan e) = Ok hdr"
    and vl: "map_res write_las_vlr (front_vlrs plan src m (info_bytes (plan_info plan (e + 60) p'))) = Ok bss"
    and ch: "chunks_of lib plan src = Ok chunks" "chunk_sizes_ok (zip (wp_nodes plan) chunks)"
      "length (concat chunks) + 375 + length (concat bss) + 8 < 2 ^ 63"
    and off: "oh_offset_to_point_data (wp_header plan) = of_nat (375 + length (concat bss))"
    and e: "e = 375 + length (concat bss) + (8 + length (concat chunks) + length table)"
    and p: "pp_key p = vk_root" "plan_ok p" "mset (plan_points p) = mset (written_entries plan (375 + length (concat bss)) chunks)"
      "assign_hierarchy_page_offsets p (e + 60) = Ok (p', hend)"
    and valid: "\<forall>x \<in> set (written_entries plan (375 + length (concat bss)) chunks). entry_validate x = Ok ()"
    and info: "info_validate (plan_info plan (e + 60) p') = Ok ()"
    and ehdr: "write_evlr_header (lit ''copc'') 1000 (of_nat (hend - (e + 60))) (lit ''COPC hierarchy'') = Ok ehdr"
    and ebss: "map_res write_las_evlr (source_evlrs_after_hierarchy m) = Ok ebss"
    and f: "f = hdr @ concat bss @ (u64_to_le (of_nat (375 + length (concat bss) + 8 + length (concat chunks))) @ concat chunks @ table) @
      ehdr @ concat (map page_bytes (all_pages p')) @ concat ebss" by blast
  let ?n = "375 + length (concat bss)"
  let ?es = "written_entries plan ?n chunks" and ?ps = "zip (wp_nodes plan) chunks" and ?h = "final_header plan e"
  let ?pages = "concat (map page_bytes (all_pages p'))"
  let ?psec = "u64_to_le (of_nat (?n + 8 + length (concat chunks))) @ concat chunks @ table"
  let ?vs = "front_vlrs plan src m (info_bytes (plan_info plan (e + 60) p'))"
  have s3: "?n + 8 + length (concat chunks) < 2 ^ 63" using ch(3) by simp
  note names = entry_names [OF plan ps ch(1,2) s3]
  have vs: "length ?vs \<le> 4096" "oh_number_of_vlrs ?h = of_nat (length ?vs)"
    using plan unfolding front_vlrs_length [of plan src m "info_bytes (plan_info plan (e + 60) p')" "[]"]
    by (simp_all add: plan_sound_def Let_def final_header_def)
  have nb: "375 \<le> ?n" "?n < 2 ^ 32" using vlrs_small [OF vl] vs(1) by simp_all
  have l: "length hdr = 375"
    by (rule out_header_write_length [OF hdr]) (use plan m in \<open>simp_all add: plan_sound_def metadata_ok_def Let_def final_header_def\<close>)
  note pa = assigned_pages [OF p(2,4)]
  have "pages_size ps = length (concat (map page_bytes ps))" if "list_all sized ps" for ps
    using that by (induction ps) (simp_all add: length_page_bytes sized_def)
  then have pages: "length ?pages = hend - (e + 60)" using pa(5,6) by simp
  have lf: "e \<le> length f" using l by (simp add: f e)
  have ne: "?n \<le> e" by (simp add: e)
  note readable = final_header_readable [OF plan m off nb ne lf small(1)]
  have named: "map e_key ?es = map ln_key (wp_nodes plan)" "map entry_points ?es = map ln_count (wp_nodes plan)"
    using names(1,3) by (simp_all add: entries_name_def)
  have "length ?es = length (wp_nodes plan)" using arg_cong [OF named(1), of length] by simp
  then have pmax: "length ?pages \<le> MAX_HIERARCHY_TOTAL_BYTES"
    using pages_small [OF p(2,4,3,1)] fits by (simp add: pages within_reader_limits_def)
  let ?r = "\<lparr>point_data_start = ?n, point_data_end = e, hierarchy_start = e + 60, hierarchy_end = e + 60 + length ?pages\<rparr>"
  have ev: "\<forall>x \<in> set ?es. validate_hierarchy_entry x (length f) ?r = Ok ()"
    using entries_readable [OF names(1) valid, of ?r "length f"] fits ch(1) lf small(2) ne e unfolding names(2)
    by (simp add: within_reader_limits_def)
  have "filter has_point_data ?es = ?es" using names(1) by (auto simp: entries_name_def list_all_iff filter_id_conv)
  then have dis: "sorted_wrt chunks_disjoint (filter has_point_data ?es)" using names(1) by (simp add: entries_name_def)
  have sum: "sum_list (map entry_points ?es) = unat (oh_total_point_count ?h)"
    using names(5) plan ps(2) by (simp add: plan_sound_def Let_def final_header_def unat_of_nat_small)
  have xt: "extract_required_vlrs laz_read (stored_vlrs 0 ?vs) = Ok (plan_info plan (e + 60) p', laz)"
    unfolding front_vlrs_def by (rule extract_written [OF info, of laz_read, OF laz]) (use plan m in \<open>simp_all add: plan_sound_def metadata_ok_def\<close>)
  have evs: "oh_number_of_evlrs ?h = of_nat (Suc (length (source_evlrs_after_hierarchy m)))" "length (source_evlrs_after_hierarchy m) < 4096"
    using plan by (simp_all add: plan_sound_def Let_def final_header_def)
  have ci: "ci_root_hier_offset (plan_info plan (e + 60) p') = of_nat (e + 60)"
    "ci_root_hier_size (plan_info plan (e + 60) p') = of_nat (pp_byte_size p')" by (simp_all add: plan_info_def)
  have e': "e = 375 + length (concat bss) + length ?psec" by (simp add: e)
  from file_opens [OF hdr readable(1) f small(2) vl vs(2,1) readable(2) xt e' readable(3)
      ehdr [folded pages] ebss evs refl p(2,3,4) pmax ci names(6) [OF valid] ev dis sum]
  obtain cf t where cf: "from_reader laz_read (fcur f 0) = Ok (cf, t)" "cf_header cf = las_header_of_out ?h"
    "cf_copc_info cf = plan_info plan (e + 60) p'" "cf_laszip_vlr cf = laz"
    "filter (\<lambda>x. \<not> is_child_page x) (hierarchy_walk cf) = ?es" by (elim exE conjE)
  have "bslice f (?n + 8) (length (concat chunks)) = concat chunks"
    using l by (simp add: f bslice_def)
  then have bytes: "list_all2 (\<lambda>e chunk. bslice f (entry_lo e) (nat (sint (e_byte_size e))) = chunk) ?es chunks"
    using chunk_entries_bytes [OF ch(2), of "?n + 8" f] s3 names(2) by (simp add: written_entries_def)
  have "shows_plan f plan chunks laz cf"
    using cf(2-5) bytes named by (auto simp: shows_plan_def plan_info_def)
  then show ?thesis using ch(1) cf(1) by blast
qed

section \<open>Properties\<close>

text \<open>
  C2: The writer refines to the reader. A file that \<^verbatim>\<open>write_copc_inner\<close> writes, with either compressor, is
  accepted by \<^verbatim>\<open>CopcFile::from_reader\<close>. The opened file has the header that was prepared (its first EVLR offset
  patched in), the COPC info, the LASzip VLR and as many points as the source; the entries of its hierarchy are the
  nodes of the octree, in key order and with their counts, and the bytes each of them names are the compressed chunk
  of the node's points. The only limits are those of the reader on chunk and hierarchy sizes.
\<close>

theorem written_file_opens:
  assumes "write_prepare lib src has_color b max_points c polls m stats = Ok plan"
    and "write_body compress plan src c m = Ok f"
    and "writer_compress lib (wp_var_vlr plan) (record_length (wp_format plan)) compress"
    and "las_laws lib" "metadata_ok src m" "\<forall>s. stats = Some s \<longrightarrow> length (extended_return_counts s) = 15"
    and "0 < ps_len src" "ps_len src < 2 ^ 64"
    and "laz_read (wp_var_vlr_bytes plan) = Inr laz" "within_reader_limits lib plan src f"
  shows "\<exists>chunks cf t. chunks_of lib plan src = Ok chunks \<and> from_reader laz_read (fcur f 0) = Ok (cf, t) \<and>
    shows_plan f plan chunks laz cf \<and> unat (lh_number_of_points (cf_header cf)) = ps_len src"
proof -
  have plan: "plan_sound plan src max_points m" using write_prepare_sound [OF assms(1,4,5,6)] by blast
  obtain chunks cf t where cf: "chunks_of lib plan src = Ok chunks" "from_reader laz_read (fcur f 0) = Ok (cf, t)"
    "shows_plan f plan chunks laz cf"
    using written_opens [OF assms(2) plan assms(5,7,8,3), where laz_read = laz_read, OF assms(9,10)] by blast
  then have "unat (lh_number_of_points (cf_header cf)) = ps_len src"
    using plan assms(8)
    by (auto simp: shows_plan_def final_header_def las_header_of_out_def plan_sound_def Let_def unat_of_nat_small)
  with cf show ?thesis by blast
qed

text \<open>The smallest write: one point, a compressor that stores the records.\<close>

definition las_store :: "(unit, u8 list \<times> u8 list list \<times> u8 list) laz_lib" where
  "las_store = stored_lib\<lparr>ll_format_new := (\<lambda>_. Inr sample_las_format),
     ll_format_len := (\<lambda>format. of_nat (record_length format))\<rparr>"

definition sample_metadata :: out_metadata where
  "sample_metadata = out_metadata_default\<lparr>om_global_encoding := 16, om_creation_day_of_year := 1,
     om_creation_year := 2024, om_scale := (f64_one, f64_one, f64_one), om_offset := Some (0, 0, 0)\<rparr>"

definition sample_stats :: point_stats where
  "sample_stats = \<lparr>gpstime_min = 0, gpstime_max = 0, extended_return_counts = 1 # replicate 14 0\<rparr>"

lemma parts0:
  "fl_sign binary64 (0 :: f64) = False" "fl_mag binary64 (0 :: f64) = 0" "fl_is_nan binary64 (0 :: f64) = False" "fl_is_inf binary64 (0 :: f64) = False"
  "fl_sign binary64 f64_half = False" "fl_is_nan binary64 f64_half = False" "fl_is_inf binary64 f64_half = False"
  "fl_sign binary64 (0x8000000000000000 :: f64) = True" "fl_mag binary64 (0x8000000000000000 :: f64) = 0"
  "fl_is_nan binary64 (0x8000000000000000 :: f64) = False" "fl_is_inf binary64 (0x8000000000000000 :: f64) = False"
  "fl_neg binary64 (0 :: f64) = 0x8000000000000000" "mag_val binary64 0 = 0"
  by (simp_all add: fl_neg_def fl_make_def fl_sign_def fl_mag_def fl_is_nan_def fl_is_inf_def sign_weight_def inf_mag_def binary64_def mag_val_def)

lemma arith0: "f64_sub 0 0 = 0" "f64_add 0 0 = 0" "f64_mul 0 f64_half = 0" "f64_max 0 0 = 0"
  by (simp_all add: fl_sub_def fl_add_def fl_mul_def fl_max_def fl_val_def parts0 fl_round_def fl_make_def)

lemma cube0: "cube_from_bounds (bounds_point 0 0 0) = ((0, 0, 0), 0x3EB0C6F7A0B5ED8D)"
  unfolding cube_from_bounds_def bounds_point_def bounds.select_convs prod.case Let_def arith0
  by (simp add: fl_max_def fl_is_nan_def fl_ord_def fl_sign_def fl_mag_def sign_weight_def inf_mag_def binary64_def)

lemma spacing0: "f64_div 0x3EB0C6F7A0B5ED8D 0x4060000000000000 = 0x3E40C6F7A0B5ED8D"
proof -
  have v: "mag_val binary64 0x3EB0C6F7A0B5ED8D / mag_val binary64 0x4060000000000000 = mag_val binary64 0x3E40C6F7A0B5ED8D"
    by (simp add: mag_val_def emin_def binary64_def)
  have pos: "0 < mag_val binary64 0x3E40C6F7A0B5ED8D"
    by (simp add: mag_val_def emin_def binary64_def)
  have p: "fl_sign binary64 (0x3EB0C6F7A0B5ED8D :: f64) = False" "fl_mag binary64 (0x3EB0C6F7A0B5ED8D :: f64) = 0x3EB0C6F7A0B5ED8D"
    "fl_is_nan binary64 (0x3EB0C6F7A0B5ED8D :: f64) = False" "fl_is_inf binary64 (0x3EB0C6F7A0B5ED8D :: f64) = False"
    "fl_sign binary64 (0x4060000000000000 :: f64) = False" "fl_mag binary64 (0x4060000000000000 :: f64) = 0x4060000000000000"
    "fl_is_nan binary64 (0x4060000000000000 :: f64) = False" "fl_is_inf binary64 (0x4060000000000000 :: f64) = False"
    by (simp_all add: fl_sign_def fl_mag_def fl_is_nan_def fl_is_inf_def sign_weight_def inf_mag_def binary64_def)
  have "min (inf_mag binary64) 0x3E40C6F7A0B5ED8D = 0x3E40C6F7A0B5ED8D" by (simp add: inf_mag_def binary64_def)
  then show ?thesis
    using pos by (simp add: fl_div_def p fl_val_def v fl_round_def round_mag_mag_val fl_make_def)
qed

lemma fin0: "validate_finite_value 0 = Ok ()" "validate_finite_value f64_one = Ok ()" "validate_scale f64_one = Ok ()" 
  by (simp_all add: validate_finite_value_def validate_scale_def fl_is_finite_def fl_mag_def inf_mag_def
      sign_weight_def binary64_def fl_le_def fl_lt_def fl_is_nan_def fl_ord_def fl_sign_def ensure_def)

lemma axis0: "validate_bounds_axis 0 0 = Ok ()"
  unfolding validate_bounds_axis_def arith0 fin0 by (simp add: fl_lt_def ensure_def)

lemma setup0: "validate_write_setup (bounds_point 0 0 0) (f64_one, f64_one, f64_one) (0, 0, 0) = Ok ()"
  by (simp add: validate_write_setup_def validate_bounds_def validate_transform_def bounds_point_def fin0 axis0)

lemma zero_le: "u32_to_le 0 = [0, 0, 0, 0]"
  by code_simp

lemma root0: "\<exists>q. write_root_index_run 1 never_cancel p = Ok (\<lparr>ir_file = [0, 0, 0, 0], ir_start = 0, ir_count = Suc 0\<rparr>, q)"
  by (simp add: write_root_index_run_def poll_at_def never_cancel_def zero_le)

lemma order0: "\<exists>st. append_index_run_to_order never_cancel \<lparr>ir_file = [0, 0, 0, 0], ir_start = 0, ir_count = Suc 0\<rparr>
    \<lparr>ls_order = [], ls_offset = 0, ls_nodes = [], ls_polls = p\<rparr> = Ok st \<and> ls_order st = [0, 0, 0, 0] \<and> ls_nodes st = [] \<and> ls_offset st = 4"
proof -
  have r: "read_u32 ctx (fcur [0, 0, 0, 0] 0) = Ok (0, fcur [0, 0, 0, 0] 4)" for ctx
    using fcur_reads(3) [of 0 "[0, 0, 0, 0]" ctx] by (simp add: bslice_def u32_from_le_def)
  show ?thesis
  by (simp add: append_index_run_to_order_def append_run_step_def poll_at_def never_cancel_def
    open_index_run_def section_is_fcur r append_index_to_order_def checked_add_def INDEX_RECORD_BYTES_def zero_le)
qed

lemma index0: "\<exists>q. build_lod_index one_point_source center hs 10 never_cancel p = Ok ([one_point_node], [0, 0, 0, 0], q)"
proof -
  obtain q where r: "write_root_index_run 1 never_cancel (Suc p) = Ok (\<lparr>ir_file = [0, 0, 0, 0], ir_start = 0, ir_count = Suc 0\<rparr>, q)"
    using root0 by blast
  obtain st where st: "append_index_run_to_order never_cancel \<lparr>ir_file = [0, 0, 0, 0], ir_start = 0, ir_count = Suc 0\<rparr>
    \<lparr>ls_order = [], ls_offset = 0, ls_nodes = [], ls_polls = Suc q\<rparr> = Ok st" "ls_order st = [0, 0, 0, 0]" "ls_nodes st = []"
    using order0 by blast
  have c: "cancel_check never_cancel n = Ok (Suc n)" for n by (simp add: never_cancel_def)
  have "assign one_point_source 10 never_cancel vk_root \<lparr>ir_file = [0, 0, 0, 0], ir_start = 0, ir_count = Suc 0\<rparr> bk
      \<lparr>ls_order = [], ls_offset = 0, ls_nodes = [], ls_polls = q\<rparr> = Ok (push_node vk_root 0 (Suc 0) st)" for bk
    by (subst assign.simps) (simp add: c Let_def st(1) never_cancel_def)
  then show ?thesis
    using r by (simp add: build_lod_index_def never_cancel_def one_point_source_def push_node_def st one_point_node_def)
qed

definition sample_plan :: "nat \<Rightarrow> unit write_plan" where
  "sample_plan q =
     \<lparr>wp_header =
           \<lparr>oh_point_data_format = 0x86, oh_point_record_length = 30, oh_offset_to_point_data = 643, oh_number_of_vlrs = 2,
            oh_file_source_id = 0, oh_global_encoding = 16, oh_guid = replicate 16 0,
            oh_system_identifier = lit ''copc-rust'', oh_generating_software = lit ''copc-writer'',
            oh_creation_day_of_year = 1, oh_creation_year = 2024, oh_scale = (f64_one, f64_one, f64_one), oh_offset = (0, 0, 0),
            oh_bounds = bounds_point 0 0 0, oh_legacy_point_count = 0, oh_total_point_count = 1, oh_offset_to_first_evlr = 0,
            oh_number_of_evlrs = 1, oh_extended_return_counts = 1 # replicate 14 0\<rparr>,
         wp_format = sample_las_format, wp_record_length = 30, wp_scale = (f64_one, f64_one, f64_one), wp_offset = (0, 0, 0),
         wp_stats = sample_stats, wp_center = (0, 0, 0), wp_halfsize = 0x3EB0C6F7A0B5ED8D,
         wp_nodes = [one_point_node], wp_order = [0, 0, 0, 0], wp_var_vlr = (), wp_var_vlr_bytes = [],
         wp_var_vlr_body_size = 0, wp_polls = q\<rparr>"

lemma prepare0: "\<exists>q. write_prepare las_store one_point_source False (bounds_point 0 0 0) 10 never_cancel 0 sample_metadata
    (Some sample_stats) = Ok (sample_plan q)"
proof -
  obtain q where q: "build_lod_index one_point_source (0, 0, 0) 0x3EB0C6F7A0B5ED8D 10 never_cancel (Suc 0) = Ok ([one_point_node], [0, 0, 0, 0], q)"
    using index0 by blast
  have c: "cancel_check never_cancel n = Ok (Suc n)" for n by (simp add: never_cancel_def)
  have m: "om_offset sample_metadata = Some (0, 0, 0)" "om_scale sample_metadata = (f64_one, f64_one, f64_one)"
    by (simp_all add: sample_metadata_def)
  have s: "ps_extra_byte_count one_point_source = 0" "ps_extra_bytes_vlrs one_point_source = []" "ps_len one_point_source = 1"
    by (simp_all add: one_point_source_def)
  have lib: "ll_format_new las_store i = Inr sample_las_format" "ll_format_len las_store sample_las_format = 30"
    "ll_build las_store i w = Inr ()" "ll_vlr_write las_store v = Inr []" for i w v
    by (simp_all add: las_store_def stored_lib_def record_length_def sample_las_format_def)
  have x: "sample_las_format\<lparr>lf_extra_bytes := 0\<rparr> = sample_las_format" by (simp add: sample_las_format_def)
  have lens: "regular_crs_vlr_bytes sample_metadata = Ok 0" "regular_las_vlrs_bytes [] = Ok 0" "om_pass_through_vlrs sample_metadata = []"
    "output_vlr_count (regular_crs_vlr_count sample_metadata) 0 0 = Ok 2" "output_evlr_count (source_evlr_count_after_hierarchy sample_metadata) = Ok 1"
    by (simp_all add: regular_crs_vlr_bytes_def sample_metadata_def out_metadata_default_def regular_crs_vlrs_def
      regular_las_vlrs_bytes_def output_vlr_count_def output_evlr_count_def regular_crs_vlr_count_def checked_add_usize_def usize_max_def
      source_evlr_count_after_hierarchy_def extended_crs_evlr_count_def u32_try_from_usize_def MAX_VLR_COUNT_def MAX_EVLR_COUNT_def)
  have p: "point_data_offset 0 0 0 0 = Ok 643"
    by (simp add: point_data_offset_def checked_add_def LAS_VLR_HEADER_BYTES_def)
  have a: "checked_add (30 :: u16) 0 = Some 30" by (simp add: checked_add_def)
  show ?thesis
    by (simp add: write_prepare_def c m s lib x setup0 cube0 q lens p a las_err_def Let_def sample_plan_def u16_try_from_usize_def)
      (simp add: sample_metadata_def out_metadata_default_def sample_stats_def)
qed


lemma las_store_laws: "laz_stream_laws las_store () 30 (\<lambda>raw. raw) stored_streaming"
  using stored_laws by (simp add: laz_stream_laws_def las_store_def)

lemma vlr_header0: "\<exists>h. write_vlr_header (lit ''copc'') 1 160 (lit ''COPC info'') = Ok h \<and> length h = 54"
  "\<exists>h. write_vlr_header LASZIP_VLR_USER_ID LASZIP_VLR_RECORD_ID 0 (lit ''http://laszip.org'') = Ok h \<and> length h = 54"
  "\<exists>h. write_evlr_header (lit ''copc'') 1000 32 (lit ''COPC hierarchy'') = Ok h \<and> length h = 60"
  by (simp_all add: write_vlr_header_def write_evlr_header_def LASZIP_VLR_USER_ID_def lit_def validate_las_string_def)

lemma front0:
  "\<exists>w. write_front (sample_plan q) one_point_source sample_metadata = Ok (429, w) \<and> os_at_end w \<and> length (os_data w) = 643"
proof -
  let ?h = "wp_header (sample_plan q)"
  have hl: "length (oh_guid ?h) = 16" "length (oh_extended_return_counts ?h) = 15" by (simp_all add: sample_plan_def)
  obtain hdr where hdr: "out_header_write ?h = Ok hdr"
    by (simp add: out_header_write_def sample_plan_def bounds_point_def lit_def validate_las_string_def)
  have l: "length hdr = 375" by (rule out_header_write_length [OF hdr hl])
  obtain h1 h2 where h: "write_vlr_header (lit ''copc'') 1 160 (lit ''COPC info'') = Ok h1" "length h1 = 54"
    "write_vlr_header LASZIP_VLR_USER_ID LASZIP_VLR_RECORD_ID 0 (lit ''http://laszip.org'') = Ok h2" "length h2 = 54"
    using vlr_header0 by blast
  have e0: "os_at_end os_new" "os_data os_new = []" by (simp_all add: os_new_def os_at_end_def)
  note e1 = os_write_end [OF e0(1), of hdr]
  note e2 = os_write_end [OF e1(2), of h1]
  note e3 = os_write_end [OF e2(2), of "replicate 160 0"]
  note e4 = os_write_end [OF e3(2), of h2]
  note e5 = os_write_end [OF e4(2), of "[]"]
  have p: "wp_var_vlr_bytes (sample_plan q) = []" "wp_var_vlr_body_size (sample_plan q) = 0" "oh_offset_to_point_data ?h = 643"
    "regular_crs_vlrs sample_metadata = []" "ps_extra_bytes_vlrs one_point_source = []" "om_pass_through_vlrs sample_metadata = []"
    by (simp_all add: sample_plan_def sample_metadata_def out_metadata_default_def regular_crs_vlrs_def one_point_source_def)
  show ?thesis
    unfolding write_front_def Let_def emit_def hdr h bind_res_simps p fold_res.simps prod.case e5(3) e2(3)
    using e5 e4 e3 e2 e1 e0 l h by (simp add: ensure_def)
qed

lemma sample_raw:
  "writer_format sample_las_format" "record_length sample_las_format = 30"
  "length (point_bytes sample_las_format sample_fields (0, 0, 0)) = 30"
proof -
  show w: "writer_format sample_las_format" by (simp add: writer_format_def sample_las_format_def)
  show rl: "record_length sample_las_format = 30" by (simp add: record_length_def sample_las_format_def)
  have "length (cf_extra_bytes sample_fields) = unat (lf_extra_bytes sample_las_format)"
    by (simp add: sample_fields_def sample_las_format_def)
  then show "length (point_bytes sample_las_format sample_fields (0, 0, 0)) = 30"
    by (simp only: length_point_bytes [OF w] rl)
qed

lemma compress0:
  assumes "os_at_end w" "length (os_data w) = 643"
  shows "\<exists>w' p. compress_nodes las_store () [one_point_node] [0, 0, 0, 0] one_point_source (f64_one, f64_one, f64_one) (0, 0, 0) 30
      sample_las_format never_cancel w polls =
      Ok ([\<lparr>e_key = vk_root, e_offset = 651, e_byte_size = 30, e_point_count = 1\<rparr>], w', p) \<and>
    os_at_end w' \<and> length (os_data w') = 697"
proof -
  let ?raw = "point_bytes sample_las_format sample_fields (0, 0, 0)"
  note w = sample_raw(1) and rl = sample_raw(2) and len = sample_raw(3)
  have ranges: "list_all (node_in_order [0, 0, 0, 0]) [one_point_node]" by (simp add: one_point_node_def node_in_order_def)
  have enc: "map_res (\<lambda>n. encoded_points one_point_source (f64_one, f64_one, f64_one) (0, 0, 0) sample_las_format
      (node_indexes [0, 0, 0, 0] n)) [one_point_node] = Ok [?raw]" by (simp add: one_point_encoded)
  have sizes: "chunk_sizes_ok (zip [one_point_node] (map (\<lambda>raw. raw) [?raw]))"
    by (simp add: chunk_sizes_ok_def len one_point_node_def)
  obtain z where new: "ll_new las_store () w = Inr (z, w)" "stored_streaming (os_data w) [] z w"
    by (rule stream_law_new [OF las_store_laws assms(1)])
  have pos: "os_pos w = 643" using assms by (simp add: os_at_end_def)
  have start: "651 = length (os_data w) + 8 + length (concat (map (\<lambda>raw. raw) []))" by (simp add: assms(2))
  from compress_stream_runs [OF w las_store_laws [folded rl] ranges enc sizes new(2) start, of 0 "[]" polls]
  obtain z1 w1 q start' polls1 where
    run: "fold_res (compress_node_step las_store one_point_source 30 (f64_one, f64_one, f64_one) (0, 0, 0) sample_las_format never_cancel)
        [one_point_node] (z, w, fcur [0, 0, 0, 0] 0, [], 651, polls) =
        Ok (z1, w1, fcur [0, 0, 0, 0] q, chunk_entries 651 [(one_point_node, ?raw)], start', polls1)"
      "stored_streaming (os_data w) [?raw] z1 w1"
    unfolding rl by auto
  obtain z2 table where
    d: "ll_table_write las_store (map (\<lambda>raw. (of_nat (length raw div 30), of_nat (length raw))) [?raw]) () = Inr table"
      "let data = os_data w @ u64_to_le (of_nat (length (os_data w) + 8 + length (concat (map (\<lambda>raw. raw) [?raw])))) @
        concat (map (\<lambda>raw. raw) [?raw]) @ table
       in ll_done las_store z1 w1 = Inr (z2, \<lparr>os_data = data, os_pos = length data\<rparr>)"
    by (rule stream_law_done [OF las_store_laws run(2)]) simp_all
  have "length table = 16" using d(1) by (auto simp: las_store_def stored_lib_def stored_table_def)
  then have "\<exists>w'. ll_done las_store z1 w1 = Inr (z2, w') \<and> os_at_end w' \<and> length (os_data w') = 697"
    using d(2) assms(2) len by (auto simp: os_at_end_def Let_def)
  then obtain w' where dn: "ll_done las_store z1 w1 = Inr (z2, w')" "os_at_end w'" "length (os_data w') = 697" by blast
  have en: "chunk_entries 651 [(one_point_node, ?raw)] = [\<lparr>e_key = vk_root, e_offset = 651, e_byte_size = 30, e_point_count = 1\<rparr>]"
    by (simp add: one_point_node_def len)
  show ?thesis
    unfolding compress_nodes_def new(1) las_err_def sum.case bind_res_simps prod.case pos section_is_fcur
    using run(1) [unfolded en] dn by (simp add: never_cancel_def)
qed


definition one_chunk_entry :: entry where
  "one_chunk_entry = \<lparr>e_key = vk_root, e_offset = 651, e_byte_size = 30, e_point_count = 1\<rparr>"

lemma one_chunk_valid: "entry_validate one_chunk_entry = Ok ()"
  by (simp add: one_chunk_entry_def entry_validate_def vk_root_def vk_validate_def availability_def
      u32_try_from_i32_def Let_def)

lemma hierarchy0:
  assumes "os_at_end w" "length (os_data w) = 697"
  shows "\<exists>w'. write_hierarchy [one_chunk_entry] sample_metadata w =
      Ok (757, PagePlan vk_root [PointItem one_chunk_entry] 757 32, w') \<and> length (os_data w') = 789"
proof -
  obtain h where h: "write_evlr_header (lit ''copc'') 1000 32 (lit ''COPC hierarchy'') = Ok h" "length h = 60"
    using vlr_header0 by blast
  have p: "plan_hierarchy_pages [one_chunk_entry] vk_root = Ok (PagePlan vk_root [PointItem one_chunk_entry] 0 0)"
    "assign_hierarchy_page_offsets (PagePlan vk_root [PointItem one_chunk_entry] 0 0) 757 =
      Ok (PagePlan vk_root [PointItem one_chunk_entry] 757 32, 789)"
    by (simp_all add: plan_hierarchy_pages.simps HIERARCHY_PAGE_MAX_ENTRIES_def page_size_eq)
  have pos: "os_pos w = 697" using assms by (simp add: os_at_end_def)
  note e1 = os_write_end [OF assms(1), of h]
  let ?d = "os_data (os_write h w)"
  have l: "length ?d = 757" using e1(1) h(2) assms(2) by simp
  have t: "write_hierarchy_page_tree (PagePlan vk_root [PointItem one_chunk_entry] 757 32) ?d = Ok (?d @ entry_bytes one_chunk_entry)"
    using l one_chunk_valid by (simp add: write_page_entries_def hierarchy_page_item_entry_def entry_write_le_eq HIERARCHY_ENTRY_BYTES_def)
  have after: "source_evlrs_after_hierarchy sample_metadata = []"
    by (simp add: source_evlrs_after_hierarchy_def extended_crs_evlrs_def sample_metadata_def out_metadata_default_def)
  have ev: "LAS_EVLR_HEADER_BYTES = 60" by (simp add: LAS_EVLR_HEADER_BYTES_def)
  have pos1: "os_pos (os_write h w) = 757" using e1(3) h(2) assms(2) by simp
  have tk: "take 757 ?d = ?d" using l by simp
  note e2 = os_write_end [OF e1(2), of "entry_bytes one_chunk_entry"]
  show ?thesis
    unfolding write_hierarchy_def Let_def pos ev emit_def
    using l e2(1) p h t by (simp add: pos1 tk after ensure_def)
qed

lemma patches0:
  assumes "length (os_data w) = 789"
  shows "\<exists>w'. write_patches (sample_plan q) 429 697 757 (PagePlan vk_root [PointItem one_chunk_entry] 757 32) w = Ok w' \<and>
    length (os_data w') = 789"
proof -
  let ?i = "plan_info (sample_plan q) 757 (PagePlan vk_root [PointItem one_chunk_entry] 757 32)"
  have i: "?i = \<lparr>ci_center = (0, 0, 0), ci_halfsize = 0x3EB0C6F7A0B5ED8D, ci_spacing = 0x3E40C6F7A0B5ED8D,
      ci_root_hier_offset = 757, ci_root_hier_size = 32, ci_gpstime_min = 0, ci_gpstime_max = 0\<rparr>"
    by (simp add: plan_info_def sample_plan_def sample_stats_def spacing0)
  have v: "info_validate ?i = Ok ()"
    unfolding i by (simp add: info_validate_def ensure_def HIERARCHY_ENTRY_BYTES_def
      fl_is_finite_def fl_mag_def inf_mag_def sign_weight_def binary64_def fl_le_def fl_lt_def fl_is_nan_def fl_ord_def fl_sign_def)
  have "length (os_data (os_write (u64_to_le 697) (os_seek 235 (os_write (info_bytes ?i) (os_seek 429 w))))) = 789"
    using assms by (simp add: os_write_def os_seek_def put_at_def)
  then show ?thesis using v
    by (simp add: write_patches_def Let_def emit_def info_write_le_bytes_eq plan_info_def)
qed

lemma body0: "\<exists>f. write_body (compress_nodes las_store) (sample_plan q) one_point_source never_cancel sample_metadata = Ok f \<and> length f = 789"
proof -
  obtain w1 where fr: "write_front (sample_plan q) one_point_source sample_metadata = Ok (429, w1)" "os_at_end w1" "length (os_data w1) = 643"
    using front0 by blast
  obtain w2 p where cm: "compress_nodes las_store () [one_point_node] [0, 0, 0, 0] one_point_source (f64_one, f64_one, f64_one) (0, 0, 0) 30
      sample_las_format never_cancel w1 q = Ok ([one_chunk_entry], w2, p)" "os_at_end w2" "length (os_data w2) = 697"
    using compress0 [OF fr(2,3), of q, folded one_chunk_entry_def] by blast
  obtain w3 where hi: "write_hierarchy [one_chunk_entry] sample_metadata w2 =
      Ok (757, PagePlan vk_root [PointItem one_chunk_entry] 757 32, w3)" "length (os_data w3) = 789"
    using hierarchy0 [OF cm(2,3)] by blast
  obtain w4 where pt: "write_patches (sample_plan q) 429 697 757 (PagePlan vk_root [PointItem one_chunk_entry] 757 32) w3 = Ok w4"
    "length (os_data w4) = 789" using patches0 [OF hi(2)] by blast
  have pos: "os_pos w2 = 697" using cm(2,3) by (simp add: os_at_end_def)
  have pl: "wp_var_vlr (sample_plan q) = ()" "wp_nodes (sample_plan q) = [one_point_node]" "wp_order (sample_plan q) = [0, 0, 0, 0]"
    "wp_scale (sample_plan q) = (f64_one, f64_one, f64_one)" "wp_offset (sample_plan q) = (0, 0, 0)"
    "unat (wp_record_length (sample_plan q)) = 30" "wp_format (sample_plan q) = sample_las_format" "wp_polls (sample_plan q) = q"
    by (simp_all add: sample_plan_def)
  show ?thesis
    unfolding write_body_def fr bind_res_simps prod.case pl cm Let_def pos hi pt using pt(2) by blast
qed

lemma chunks0:
  "\<exists>raw. chunks_of las_store (sample_plan q) one_point_source = Ok [raw] \<and> length raw = 30"
proof -
  have "raw_ok 30 (point_bytes sample_las_format sample_fields (0, 0, 0))" using sample_raw(3) by (auto simp: raw_ok_def)
  then show ?thesis
    using standalone_chunk_law [OF las_store_laws] one_point_encoded sample_raw(3)
    by (simp add: chunks_of_def sample_plan_def node_chunk_def)
qed

lemma sample_plan_written:
  assumes "write_body (compress_nodes las_store) (sample_plan q) one_point_source never_cancel sample_metadata = Ok f" "length f = 789"
  shows "writer_compress las_store (wp_var_vlr (sample_plan q)) (record_length (wp_format (sample_plan q))) (compress_nodes las_store)"
    and "las_laws las_store" "metadata_ok one_point_source sample_metadata"
    and "\<forall>s. Some sample_stats = Some s \<longrightarrow> length (extended_return_counts s) = 15"
    and "0 < ps_len one_point_source" "ps_len one_point_source < 2 ^ 64"
    and "within_reader_limits las_store (sample_plan q) one_point_source f"
proof -
  have rl: "record_length (wp_format (sample_plan q)) = 30" by (simp add: sample_plan_def sample_raw(2))
  show "writer_compress las_store (wp_var_vlr (sample_plan q)) (record_length (wp_format (sample_plan q))) (compress_nodes las_store)"
    unfolding writer_compress_def rl using las_store_laws by (intro disjI2 conjI exI) simp_all
  show "las_laws las_store"
    by (auto simp: las_laws_def format_laws_def gps_extended_def las_store_def sample_las_format_def writer_format_def unat_of_nat_small)
  show "metadata_ok one_point_source sample_metadata"
    by (simp add: metadata_ok_def sample_metadata_def out_metadata_default_def regular_crs_vlrs_def one_point_source_def)
  show "\<forall>s. Some sample_stats = Some s \<longrightarrow> length (extended_return_counts s) = 15" by (simp add: sample_stats_def)
  show "0 < ps_len one_point_source" "ps_len one_point_source < 2 ^ 64" by (simp_all add: one_point_source_def)
  show "within_reader_limits las_store (sample_plan q) one_point_source f"
    using chunks0 [of q] assms(2)
    by (auto simp: within_reader_limits_def sample_plan_def MAX_HIERARCHY_TOTAL_BYTES_def MAX_POINT_CHUNK_BYTES_def)
qed

theorem written_file_opens_witness:
  "\<exists>plan f cf t.
    write_prepare las_store one_point_source False (bounds_point 0 0 0) 10 never_cancel 0 sample_metadata (Some sample_stats) = Ok plan \<and>
    write_body (compress_nodes las_store) plan one_point_source never_cancel sample_metadata = Ok f \<and> length f = 789 \<and>
    from_reader (\<lambda>_. Inr ()) (fcur f 0) = Ok (cf, t) \<and> unat (lh_number_of_points (cf_header cf)) = 1"
proof -
  obtain q where p: "write_prepare las_store one_point_source False (bounds_point 0 0 0) 10 never_cancel 0 sample_metadata
      (Some sample_stats) = Ok (sample_plan q)" using prepare0 by blast
  obtain f where f: "write_body (compress_nodes las_store) (sample_plan q) one_point_source never_cancel sample_metadata = Ok f"
    "length f = 789" using body0 by blast
  note s = sample_plan_written [OF f]
  from written_file_opens [OF p f(1) s(1-6), of "\<lambda>_. Inr ()", OF refl s(7)] show ?thesis
    using p f by (auto simp: one_point_source_def)
qed

end
