(* ===== verification/Ranged_Sample.thy ===== *)
theory Ranged_Sample
  imports Ranged_Opened Write_Read
begin

text \<open>
  A COPC file of one point whose hierarchy has two pages: the root page names a child page, and the child page
  holds the entry of the chunk. Both readers open it; the range reader has then loaded the root page only.
\<close>

section \<open>The file\<close>

definition nested_key :: voxel_key where
  "nested_key = VoxelKey 1 0 0 0"

definition nested_chunk :: entry where
  "nested_chunk = \<lparr>e_key = nested_key, e_offset = 643, e_byte_size = 30, e_point_count = 1\<rparr>"

definition nested_page :: entry where
  "nested_page = \<lparr>e_key = nested_key, e_offset = 765, e_byte_size = 32, e_point_count = - 1\<rparr>"

definition nested_info :: copc_info where
  "nested_info = \<lparr>ci_center = (0, 0, 0), ci_halfsize = f64_one, ci_spacing = f64_one,
     ci_root_hier_offset = 733, ci_root_hier_size = 32, ci_gpstime_min = 0, ci_gpstime_max = 0\<rparr>"

definition nested_plan :: "nat \<Rightarrow> nat \<Rightarrow> nat \<Rightarrow> page_plan" where
  "nested_plan root_offset child_offset byte_size =
     PagePlan vk_root [ChildItem (PagePlan nested_key [PointItem nested_chunk] child_offset byte_size)] root_offset byte_size"

definition nested_header :: out_header where
  "nested_header = wp_header (sample_plan 0)\<lparr>oh_offset_to_first_evlr := 673\<rparr>"

lemma nested_entries:
  "page_entries_of (nested_plan 733 765 32) = [nested_page]"
  "page_entries_of (PagePlan nested_key [PointItem nested_chunk] 765 32) = [nested_chunk]"
  by (simp_all add: page_entries_of_def item_entry_def nested_plan_def nested_page_def)

lemma nested_valid: "entry_validate nested_chunk = Ok ()" "entry_validate nested_page = Ok ()"
  by (simp_all add: nested_chunk_def nested_page_def nested_key_def entry_validate_def vk_validate_def availability_def
      u32_try_from_i32_def Let_def)

lemma nested_plan_ok: "plan_ok (nested_plan 0 0 0)"
  by (simp add: plan_ok_def nested_plan_def page_ok_def page_view_def item_view_def view_key_def nested_chunk_def nested_key_def
      vk_root_def HIERARCHY_PAGE_MAX_ENTRIES_def page_key_ok_def under_def vk_validate_Ok_iff)

lemma nested_plan_assigned: "assign_hierarchy_page_offsets (nested_plan 0 0 0) 733 = Ok (nested_plan 733 765 32, 797)"
  by (simp add: nested_plan_def page_size_eq)

lemma nested_info_valid: "info_validate nested_info = Ok ()"
  by (simp add: nested_info_def info_validate_def ensure_def HIERARCHY_ENTRY_BYTES_def
      fl_is_finite_def fl_mag_def inf_mag_def sign_weight_def binary64_def fl_le_def fl_lt_def fl_is_nan_def fl_ord_def fl_sign_def)

lemma nested_header_readable: "out_header_readable nested_header 797"
  by (simp add: out_header_readable_def nested_header_def sample_plan_def bounds_point_def validate_header_numbers_def ensure_def
      fl_is_finite_def fl_mag_def inf_mag_def sign_weight_def binary64_def fl_le_def fl_lt_def fl_is_nan_def fl_ord_def fl_sign_def)

lemma nested_header_written: "\<exists>hdr. out_header_write nested_header = Ok hdr"
  by (simp add: out_header_write_def nested_header_def sample_plan_def bounds_point_def lit_def validate_las_string_def)

definition nested_vlrs :: "las_vlr list" where
  "nested_vlrs =
    [\<lparr>lv_user_id = lit ''copc'', lv_record_id = 1, lv_description = lit ''COPC info'', lv_data = info_bytes nested_info\<rparr>,
     \<lparr>lv_user_id = LASZIP_VLR_USER_ID, lv_record_id = LASZIP_VLR_RECORD_ID, lv_description = lit ''http://laszip.org'', lv_data = []\<rparr>]"

lemma nested_vlrs_written: "\<exists>bss. map_res write_las_vlr nested_vlrs = Ok bss \<and> length (concat bss) = 268"
proof -
  obtain h1 h2 where h: "write_vlr_header (lit ''copc'') 1 160 (lit ''COPC info'') = Ok h1" "length h1 = 54"
    "write_vlr_header LASZIP_VLR_USER_ID LASZIP_VLR_RECORD_ID 0 (lit ''http://laszip.org'') = Ok h2" "length h2 = 54"
    using vlr_header0 by blast
  show ?thesis
    by (simp add: nested_vlrs_def write_las_vlr_def u16_try_from_usize_def h)
qed

lemma nested_extract: "extract_required_vlrs (\<lambda>_. Inr ()) (stored_vlrs 0 nested_vlrs) = Ok (nested_info, ())"
  using extract_written [OF nested_info_valid, of "\<lambda>_. Inr ()" "[]" "()" "[]"] by (simp add: nested_vlrs_def)

text \<open>What both readers find in the file.\<close>

definition nested_file :: "u8 list \<Rightarrow> unit copc_file \<Rightarrow> bool" where
  "nested_file f cf \<longleftrightarrow> length f = 797 \<and> cf_header cf = las_header_of_out nested_header \<and> cf_copc_info cf = nested_info \<and>
     stores f (733, 32) [nested_page] \<and> stores f (765, 32) [nested_chunk] \<and> evlr_body_end f 733 = 797"

lemma nested_opens: "\<exists>f cf t. from_reader (\<lambda>_. Inr ()) (fcur f 0) = Ok (cf, t) \<and> nested_file f cf"
proof -
  obtain hdr where hdr: "out_header_write nested_header = Ok hdr" using nested_header_written by blast
  have gc: "length (oh_guid nested_header) = 16" "length (oh_extended_return_counts nested_header) = 15"
    by (simp_all add: nested_header_def sample_plan_def)
  have l375: "length hdr = 375" by (rule out_header_write_length [OF hdr gc])
  obtain bss where bss: "map_res write_las_vlr nested_vlrs = Ok bss" "length (concat bss) = 268" using nested_vlrs_written by blast
  obtain ehdr where ehdr: "write_evlr_header (lit ''copc'') 1000 64 (lit ''COPC hierarchy'') = Ok ehdr"
    by (simp add: write_evlr_header_def lit_def validate_las_string_def)
  note eh = write_evlr_header_Ok [OF ehdr]
  let ?p = "nested_plan 733 765 32" and ?psec = "replicate 30 (0 :: u8)"
  define pages where "pages = concat (map page_bytes (all_pages ?p))"
  have pl: "length pages = 64" and pb: "pages = entry_bytes nested_page @ entry_bytes nested_chunk"
    using nested_entries by (simp_all add: pages_def page_bytes_def nested_plan_def)
  define f where "f = hdr @ concat bss @ ?psec @ ehdr @ pages @ concat []"
  have lf: "length f = 797" by (simp add: f_def l375 bss(2) eh(3) pl)
  let ?r = "\<lparr>point_data_start = 375 + length (concat bss), point_data_end = 673, hierarchy_start = 673 + 60, hierarchy_end = 673 + 60 + length pages\<rparr>"
  have valid: "\<forall>x \<in> set [nested_chunk]. validate_hierarchy_entry x (length f) ?r = Ok ()"
    using nested_valid(1) by (simp add: validate_hierarchy_entry_Ok_iff lf bss(2) nested_chunk_def has_point_data_def is_child_page_def
        entry_lo_def entry_hi_def MAX_POINT_CHUNK_BYTES_def)
  have "\<exists>cf t. from_reader (\<lambda>_. Inr ()) (fcur f 0) = Ok (cf, t) \<and> cf_header cf = las_header_of_out nested_header \<and>
    cf_copc_info cf = nested_info \<and> cf_laszip_vlr cf = () \<and> filter (\<lambda>x. \<not> is_child_page x) (hierarchy_walk cf) = [nested_chunk]"
  proof (rule file_opens [where e = 673])
    show "out_header_write nested_header = Ok hdr" "map_res write_las_vlr nested_vlrs = Ok bss" by (rule hdr, rule bss(1))
    show "out_header_readable nested_header (length f)" using nested_header_readable by (simp add: lf)
    show "f = hdr @ concat bss @ ?psec @ ehdr @ pages @ concat []" "pages = concat (map page_bytes (all_pages ?p))"
      by (rule f_def, rule pages_def)
    show "length f < 2 ^ 64" "length nested_vlrs \<le> 4096" "length ([] :: las_vlr list) < 4096" "length pages \<le> MAX_HIERARCHY_TOTAL_BYTES"
      "(673 :: nat) = 375 + length (concat bss) + length ?psec"
      by (simp_all add: lf nested_vlrs_def pl bss(2) MAX_HIERARCHY_TOTAL_BYTES_def)
    show "oh_number_of_vlrs nested_header = of_nat (length nested_vlrs)" "unat (oh_offset_to_first_evlr nested_header) = 673"
      "unat (oh_offset_to_point_data nested_header) = 375 + length (concat bss)"
      "oh_number_of_evlrs nested_header = of_nat (Suc (length ([] :: las_vlr list)))"
      "sum_list (map entry_points [nested_chunk]) = unat (oh_total_point_count nested_header)"
      by (simp_all add: nested_header_def sample_plan_def nested_vlrs_def bss(2) nested_chunk_def entry_points_def has_point_data_def)
    show "extract_required_vlrs (\<lambda>_. Inr ()) (stored_vlrs 0 nested_vlrs) = Ok (nested_info, ())" by (rule nested_extract)
    show "write_evlr_header (lit ''copc'') 1000 (of_nat (length pages)) (lit ''COPC hierarchy'') = Ok ehdr" "map_res write_las_evlr [] = Ok []"
      using ehdr by (simp_all add: pl)
    show "plan_ok (nested_plan 0 0 0)" "assign_hierarchy_page_offsets (nested_plan 0 0 0) (673 + 60) = Ok (?p, 797)"
      using nested_plan_ok nested_plan_assigned by simp_all
    show "mset (plan_points (nested_plan 0 0 0)) = mset [nested_chunk]" by (simp add: nested_plan_def plan_points_def)
    show "ci_root_hier_offset nested_info = of_nat (673 + 60)" "ci_root_hier_size nested_info = of_nat (pp_byte_size ?p)"
      by (simp_all add: nested_info_def nested_plan_def)
    show "writer_entries_ok [nested_chunk]"
      using nested_valid(1) by (simp add: writer_entries_ok_def nested_chunk_def is_child_page_def nested_key_def)
    show "\<forall>x \<in> set [nested_chunk]. validate_hierarchy_entry x (length f)
        \<lparr>point_data_start = 375 + length (concat bss), point_data_end = 673, hierarchy_start = 673 + 60,
         hierarchy_end = 673 + 60 + length pages\<rparr> = Ok ()" by (rule valid)
    show "sorted_wrt chunks_disjoint (filter has_point_data [nested_chunk])" by simp
  qed
  then obtain cf t where cf: "from_reader (\<lambda>_. Inr ()) (fcur f 0) = Ok (cf, t)" "cf_header cf = las_header_of_out nested_header"
    "cf_copc_info cf = nested_info" by blast
  have pages: "bslice f 733 32 = entry_bytes nested_page" "bslice f 765 32 = entry_bytes nested_chunk"
    by (simp_all add: f_def bslice_def l375 bss(2) eh(3) pb)
  have st: "stores f (733, 32) [nested_page]" "stores f (765, 32) [nested_chunk]"
    using page_from_le_bytes_concat [of "[nested_page]"] page_from_le_bytes_concat [of "[nested_chunk]"] nested_valid
    by (simp_all add: stores_def pages)
  have "bslice f 693 8 = u64_to_le 64"
    by (simp add: f_def bslice_def l375 bss(2) eh(1))
  then have "evlr_body_end f 733 = 797" by (simp add: evlr_body_end_def)
  then show ?thesis using cf st lf by (auto simp: nested_file_def)
qed

section \<open>Loading its pages\<close>

text \<open>A page of one entry, loaded from a source that serves the file.\<close>

lemma load_child_page_entry:
  assumes "validate_hierarchy_entry e (rg_file_len r) (rg_data_ranges r) = Ok ()" "RBT.lookup (rg_hierarchy r) (e_key e) = None" "is_child_page e"
    and "availability e = Ok a" "\<And>n. a \<noteq> PointData n"
  shows "load_entry e r = (Ok (), r\<lparr>rg_hierarchy := RBT.insert (e_key e) e (rg_hierarchy r), rg_pending_pages := rg_pending_pages r @ [e]\<rparr>)"
proof -
  have "\<not> has_point_data e" using assms(3) by (simp add: has_point_data_def is_child_page_def)
  then show ?thesis
    using assms by (cases a) (auto simp: load_entry_def st_bind_def st_lift_def st_ret_def st_update_def check_duplicate_def)
qed

lemma load_chunk_entry:
  assumes "validate_hierarchy_entry e (rg_file_len r) (rg_data_ranges r) = Ok ()"
    and "case RBT.lookup (rg_hierarchy r) (e_key e) of None \<Rightarrow> True | Some c \<Rightarrow> is_child_page c" "has_point_data e"
    and "insert_point_chunk_range e (rg_point_ranges r) = Ok ranges" "availability e = Ok (PointData n)"
    and "rg_loaded_point_total r + unat n < 2 ^ 64"
  shows "load_entry e r = (Ok (), r\<lparr>rg_point_ranges := ranges, rg_hierarchy := RBT.insert (e_key e) e (rg_hierarchy r),
    rg_loaded_point_total := rg_loaded_point_total r + unat n\<rparr>)"
proof -
  have "\<not> is_child_page e" using assms(3) by (simp add: has_point_data_def is_child_page_def)
  then show ?thesis
    using assms by (auto simp: load_entry_def st_bind_def st_lift_def st_ret_def st_update_def check_duplicate_def split: option.splits)
qed

context range_source begin

lemma load_single_page:
  assumes "serving holds data r" "page_of c \<notin> rg_visited_pages r" "stores data (page_of c) [e]"
    and "0 < sint (e_byte_size c)" "32 dvd nat (sint (e_byte_size c))" "add_page (rg_limits r) (nat (sint (e_byte_size c))) = Ok limits"
    and "entry_lo c + nat (sint (e_byte_size c)) \<le> length data"
  shows "\<exists>s. holds s data \<and> (\<forall>r'. load_entry e
      (r\<lparr>rg_visited_pages := insert (page_of c) (rg_visited_pages r), rg_limits := limits, rg_source := s\<rparr>) = (Ok (), r') \<longrightarrow>
    rg_loaded_point_total r' \<le> unat (lh_number_of_points (rg_header r')) \<longrightarrow>
    rg_pending_pages r' \<noteq> [] \<or> rg_loaded_point_total r' = unat (lh_number_of_points (rg_header r')) \<longrightarrow>
    load_page ops c r = (Ok (), r'))"
proof -
  let ?n = "nat (sint (e_byte_size c))" and ?off = "unat (e_offset c)"
  have p: "page_of c = (?off, ?n)" by (simp add: page_of_def entry_lo_def)
  let ?r = "r\<lparr>rg_visited_pages := insert (page_of c) (rg_visited_pages r), rg_limits := limits\<rparr>"
  have len: "rg_file_len r = length data" "length data < 2 ^ 64" using assms(1) size_law [of "rg_source r" data] by (simp_all add: serving_def)
  have v: "validate_range_in_file ?off ?n (length data) l = Ok (?off + ?n)" for l
    using assms(7) len(2) by (simp add: validate_range_in_file_Ok_iff entry_lo_def)
  have u: "unat (e_offset c + of_nat ?n) = ?off + ?n"
    using assms(7) len(2) by (simp add: unat_word_ariths unat_of_nat entry_lo_def)
  have "serving holds data ?r" using assms(1) by (simp add: serving_def)
  from fetch_served [OF this, of "e_offset c" "e_offset c + of_nat ?n"] assms(7) obtain s where
    f: "fetch_range ops (e_offset c) (e_offset c + of_nat ?n) ?r = (Ok (bslice data ?off ?n), ?r\<lparr>rg_source := s\<rparr>)" "holds s data"
    by (auto simp: u entry_lo_def serving_def)
  have pg: "page_from_le_bytes (bslice data ?off ?n) = Ok \<lparr>page_entries = [e]\<rparr>" using assms(3) by (simp add: stores_def p)
  have sz: "entry_size_u64 c m = Ok ?n" for m using assms(4) by (simp add: entry_size_u64_Ok_iff)
  show ?thesis
    using f assms(4-6)
    by (intro exI [of _ s])
      (auto simp: load_page_def st_bind_def st_lift_def st_ret_def st_update_def sz assms(2) p [symmetric] len v pg HIERARCHY_ENTRY_BYTES_def)
qed

end

section \<open>Opening it by ranges\<close>

definition nested_opened :: "u8 list \<Rightarrow> unit copc_file \<Rightarrow> bsection \<Rightarrow> (bsection, unit) range_reader" where
  "nested_opened f cf s = (reader_of f cf s)\<lparr>rg_hierarchy := RBT.insert nested_key nested_page RBT.empty,
     rg_pending_pages := [nested_page], rg_visited_pages := {(733, 32)}, rg_limits := \<lparr>total_bytes = 32\<rparr>\<rparr>"

definition nested_ranges :: data_ranges where
  "nested_ranges = \<lparr>point_data_start = 643, point_data_end = 673, hierarchy_start = 733, hierarchy_end = 797\<rparr>"

lemma nested_in_ranges:
  "validate_hierarchy_entry nested_page 797 nested_ranges = Ok ()" "validate_hierarchy_entry nested_chunk 797 nested_ranges = Ok ()"
  using nested_valid
  by (simp_all add: validate_hierarchy_entry_Ok_iff nested_ranges_def nested_page_def nested_chunk_def has_point_data_def is_child_page_def
      entry_lo_def entry_hi_def MAX_POINT_CHUNK_BYTES_def)

lemma no_entries: "RBT.entries RBT.empty = []" (is "?es = []")
proof (cases ?es)
  case (Cons p ps)
  then have "(fst p, snd p) \<in> set ?es" by simp
  then show ?thesis unfolding RBT.lookup_in_tree [symmetric] by simp
qed

lemma nested_fields:
  "e_key nested_page = nested_key" "e_key nested_chunk = nested_key" "is_child_page nested_page" "has_point_data nested_chunk"
  "page_of nested_page = (765, 32)" "entry_lo nested_page = 765" "sint (e_byte_size nested_page) = 32"
  "page_of (root_entry nested_info) = (733, 32)" "entry_lo (root_entry nested_info) = 733" "sint (e_byte_size (root_entry nested_info)) = 32"
  "availability nested_chunk = Ok (PointData 1)" "availability nested_page = Ok ChildPage"
  "insert_point_chunk_range nested_chunk RBT.empty = Ok (RBT.insert 643 (673, nested_key) RBT.empty)"
  by (simp_all add: nested_page_def nested_chunk_def is_child_page_def has_point_data_def page_of_def entry_lo_def root_entry_def
      nested_info_def availability_def u32_try_from_i32_def insert_point_chunk_range_def entry_size_u64_def u64_try_from_i32_def
      checked_range_end_def range_to_last_def range_from_first_def no_entries)

lemma nested_reader:
  assumes "nested_file f cf"
  shows "rg_file_len (reader_of f cf s) = 797" "rg_data_ranges (reader_of f cf s) = nested_ranges"
    "unat (lh_number_of_points (rg_header (reader_of f cf s))) = 1" "rg_copc_info (reader_of f cf s) = nested_info"
    "rg_hierarchy (reader_of f cf s) = RBT.empty" "rg_pending_pages (reader_of f cf s) = []" "rg_visited_pages (reader_of f cf s) = {}"
    "rg_limits (reader_of f cf s) = \<lparr>total_bytes = 0\<rparr>" "rg_loaded_point_total (reader_of f cf s) = 0"
    "rg_point_ranges (reader_of f cf s) = RBT.empty" "rg_source (reader_of f cf s) = s"
  using assms
  by (simp_all add: reader_of_def Let_def nested_file_def las_header_of_out_def nested_header_def sample_plan_def nested_info_def nested_ranges_def)

lemma nested_range_open:
  assumes "from_reader (\<lambda>_. Inr ()) (fcur f 0) = Ok (cf, t)" "nested_file f cf"
  shows "\<exists>s. file_holds s f \<and> range_open file_range_read (\<lambda>_. Inr ()) (fcur f 0) = Ok (nested_opened f cf s)"
proof -
  note n = assms(2) [unfolded nested_file_def]
  note rd = nested_reader [OF assms(2)]
  have h0: "file_holds (fcur f 0) f" using n by (auto simp: file_holds_def)
  have "\<not> MAX_VLR_SECTION_BYTES < unat (lh_offset_to_point_data (cf_header cf)) - 375"
    using n by (simp add: las_header_of_out_def nested_header_def sample_plan_def MAX_VLR_SECTION_BYTES_def)
  with file_ranges.range_open_served [OF h0 assms(1)] n obtain s where s: "file_holds s f"
    "range_open file_range_read (\<lambda>_. Inr ()) (fcur f 0) =
      (case load_page file_range_read (root_entry nested_info) (reader_of f cf s) of (Inl e, _) \<Rightarrow> Err e | (Inr _, r) \<Rightarrow> Ok r)" by auto
  let ?r = "reader_of f cf s"
  have sv: "serving file_holds f ?r" using s(1) n by (simp add: serving_def rd)
  have pg: "page_of (root_entry nested_info) \<notin> rg_visited_pages ?r" "stores f (page_of (root_entry nested_info)) [nested_page]"
    "0 < sint (e_byte_size (root_entry nested_info))" "32 dvd nat (sint (e_byte_size (root_entry nested_info)))"
    "add_page (rg_limits ?r) (nat (sint (e_byte_size (root_entry nested_info)))) = Ok \<lparr>total_bytes = 32\<rparr>"
    "entry_lo (root_entry nested_info) + nat (sint (e_byte_size (root_entry nested_info))) \<le> length f"
    using n by (simp_all add: rd nested_fields add_page_Ok_iff MAX_HIERARCHY_PAGE_BYTES_def MAX_HIERARCHY_TOTAL_BYTES_def)
  from file_ranges.load_single_page [OF sv pg] obtain s' where s': "file_holds s' f"
    and l: "\<And>r'. load_entry nested_page (?r\<lparr>rg_visited_pages := insert (page_of (root_entry nested_info)) (rg_visited_pages ?r),
        rg_limits := \<lparr>total_bytes = 32\<rparr>, rg_source := s'\<rparr>) = (Ok (), r') \<Longrightarrow>
      rg_loaded_point_total r' \<le> unat (lh_number_of_points (rg_header r')) \<Longrightarrow>
      rg_pending_pages r' \<noteq> [] \<or> rg_loaded_point_total r' = unat (lh_number_of_points (rg_header r')) \<Longrightarrow>
      load_page file_range_read (root_entry nested_info) ?r = (Ok (), r')" by blast
  have "load_page file_range_read (root_entry nested_info) ?r = (Ok (), nested_opened f cf s')"
  proof (rule l)
    show "load_entry nested_page (?r\<lparr>rg_visited_pages := insert (page_of (root_entry nested_info)) (rg_visited_pages ?r),
        rg_limits := \<lparr>total_bytes = 32\<rparr>, rg_source := s'\<rparr>) = (Ok (), nested_opened f cf s')"
      by (subst load_child_page_entry [where a = ChildPage])
        (simp_all add: rd nested_fields nested_in_ranges, simp add: nested_opened_def reader_of_def Let_def)
  qed (simp_all add: nested_opened_def rd)
  then show ?thesis using s s'(1) by auto
qed

section \<open>Querying it\<close>

text \<open>A query loads the child page, and selects the chunk.\<close>

lemma nested_pass:
  assumes "nested_file f cf" "file_holds s f"
  shows "\<exists>r. hierarchy_pass log2 file_range_read query_all (nested_opened f cf s) = (Ok True, r) \<and> rg_pending_pages r = [] \<and>
    rg_hierarchy r = RBT.insert nested_key nested_chunk (RBT.insert nested_key nested_page RBT.empty) \<and> rg_copc_info r = nested_info"
proof -
  note n = assms(1) [unfolded nested_file_def]
  note rd = nested_reader [OF assms(1)]
  let ?r = "nested_opened f cf s\<lparr>rg_pending_pages := []\<rparr>"
  have flds: "rg_file_len ?r = 797" "rg_data_ranges ?r = nested_ranges" "unat (lh_number_of_points (rg_header ?r)) = 1"
    "rg_copc_info ?r = nested_info" "rg_hierarchy ?r = RBT.insert nested_key nested_page RBT.empty" "rg_pending_pages ?r = []"
    "rg_visited_pages ?r = {(733, 32)}" "rg_limits ?r = \<lparr>total_bytes = 32\<rparr>" "rg_loaded_point_total ?r = 0"
    "rg_point_ranges ?r = RBT.empty" "rg_source ?r = s"
    by (simp_all add: nested_opened_def rd)
  have sp: "split_pending log2 nested_info query_all [nested_page] = Ok ([nested_page], [])"
    by (simp add: split_pending_def page_may_match_def query_all_def level_range_def nested_fields nested_key_def i32_max_def)
  have sv: "serving file_holds f ?r" using assms(2) n by (simp add: serving_def flds)
  have pg: "page_of nested_page \<notin> rg_visited_pages ?r" "stores f (page_of nested_page) [nested_chunk]"
    "0 < sint (e_byte_size nested_page)" "32 dvd nat (sint (e_byte_size nested_page))"
    "add_page (rg_limits ?r) (nat (sint (e_byte_size nested_page))) = Ok \<lparr>total_bytes = 64\<rparr>"
    "entry_lo nested_page + nat (sint (e_byte_size nested_page)) \<le> length f"
    using n by (simp_all add: flds nested_fields add_page_Ok_iff MAX_HIERARCHY_PAGE_BYTES_def MAX_HIERARCHY_TOTAL_BYTES_def)
  from file_ranges.load_single_page [OF sv pg] obtain s' where
    l: "\<And>r'. load_entry nested_chunk (?r\<lparr>rg_visited_pages := insert (page_of nested_page) (rg_visited_pages ?r),
        rg_limits := \<lparr>total_bytes = 64\<rparr>, rg_source := s'\<rparr>) = (Ok (), r') \<Longrightarrow>
      rg_loaded_point_total r' \<le> unat (lh_number_of_points (rg_header r')) \<Longrightarrow>
      rg_pending_pages r' \<noteq> [] \<or> rg_loaded_point_total r' = unat (lh_number_of_points (rg_header r')) \<Longrightarrow>
      load_page file_range_read nested_page ?r = (Ok (), r')" by blast
  let ?r1 = "?r\<lparr>rg_visited_pages := insert (page_of nested_page) (rg_visited_pages ?r), rg_limits := \<lparr>total_bytes = 64\<rparr>, rg_source := s'\<rparr>"
  let ?r2 = "?r1\<lparr>rg_point_ranges := RBT.insert 643 (673, nested_key) RBT.empty,
    rg_hierarchy := RBT.insert (e_key nested_chunk) nested_chunk (rg_hierarchy ?r1),
    rg_loaded_point_total := rg_loaded_point_total ?r1 + unat (1 :: u32)\<rparr>"
  have ld: "load_page file_range_read nested_page ?r = (Ok (), ?r2)"
  proof (rule l)
    show "load_entry nested_chunk ?r1 = (Ok (), ?r2)"
      by (rule load_chunk_entry) (simp_all add: nested_opened_def rd nested_in_ranges nested_fields)
  qed (use flds in simp_all)
  have hp: "hierarchy_pass log2 file_range_read query_all (nested_opened f cf s) = (Ok True, ?r2)"
  proof -
    have "rg_copc_info (nested_opened f cf s) = nested_info" "rg_pending_pages (nested_opened f cf s) = [nested_page]"
      by (simp_all add: nested_opened_def rd)
    then show ?thesis using ld by (simp add: hierarchy_pass_def sp st_bind_def st_ret_def)
  qed
  have "rg_pending_pages ?r2 = []" "rg_copc_info ?r2 = nested_info"
    "rg_hierarchy ?r2 = RBT.insert nested_key nested_chunk (RBT.insert nested_key nested_page RBT.empty)"
    using flds by (simp_all add: nested_fields)
  with hp show ?thesis by blast
qed

lemma nested_query:
  assumes "nested_file f cf" "file_holds s f"
  shows "\<exists>r. hierarchy_for log2 file_range_read query_all (nested_opened f cf s) = (Ok [nested_chunk], r)"
proof -
  obtain r where p: "hierarchy_pass log2 file_range_read query_all (nested_opened f cf s) = (Ok True, r)"
    and r: "rg_pending_pages r = []" "rg_copc_info r = nested_info"
      "rg_hierarchy r = RBT.insert nested_key nested_chunk (RBT.insert nested_key nested_page RBT.empty)"
    using nested_pass [OF assms] by blast
  have "ensure_hierarchy_for log2 file_range_read query_all (nested_opened f cf s) = ensure_hierarchy_for log2 file_range_read query_all r"
    by (simp add: ensure_hierarchy_for.simps [of log2 file_range_read query_all "nested_opened f cf s"] p)
  moreover have q: "validate_query query_all = Ok ()" by (simp add: query_all_def validate_query_def)
  ultimately have e: "hierarchy_for log2 file_range_read query_all (nested_opened f cf s) = hierarchy_for log2 file_range_read query_all r"
    by (simp add: hierarchy_for_def st_bind_def st_lift_def)
  have v: "hierarchy_values (rg_hierarchy r) = [nested_chunk]"
  proof -
    have "RBT.entries (RBT.insert nested_key nested_chunk (RBT.insert nested_key nested_page RBT.empty)) = [(nested_key, nested_chunk)]"
      by code_simp
    then show ?thesis by (simp add: hierarchy_values_def r(3))
  qed
  have "select_point_chunks_from log2 [nested_chunk] nested_info query_all = Ok [nested_chunk]"
    by (simp add: select_point_chunks_from_def query_all_def validate_query_def level_range_def select_step_def nested_fields i32_max_def
        nested_key_def) (simp add: nested_chunk_def)
  then show ?thesis
    using no_pending_pages [OF r(1), of log2 file_range_read query_all] v r(2) q by (simp add: e)
qed

section \<open>Its pages nest\<close>

abbreviation f64_minus_one :: f64 where "f64_minus_one \<equiv> 0xBFF0000000000000"

lemma unit_parts:
  "fl_sign binary64 f64_one = False" "fl_mag binary64 f64_one = 0x3FF0000000000000"
  "fl_sign binary64 f64_two = False" "fl_mag binary64 f64_two = 0x4000000000000000"
  "fl_sign binary64 f64_minus_one = True" "fl_mag binary64 f64_minus_one = 0x3FF0000000000000"
  "fl_is_nan binary64 f64_one = False" "fl_is_nan binary64 f64_two = False" "fl_is_nan binary64 f64_minus_one = False"
  "fl_is_inf binary64 f64_one = False" "fl_is_inf binary64 f64_two = False" "fl_is_inf binary64 f64_minus_one = False"
  "fl_is_finite binary64 f64_one" "fl_is_finite binary64 f64_two" "fl_is_finite binary64 f64_minus_one"
  "fl_neg binary64 f64_one = f64_minus_one"
  by (simp_all add: fl_neg_def fl_make_def fl_sign_def fl_mag_def fl_is_nan_def fl_is_inf_def fl_is_finite_def sign_weight_def inf_mag_def binary64_def)

lemma unit_vals: "f64_val f64_one = 1" "f64_val f64_two = 2" "f64_val f64_minus_one = - 1"
  by (simp_all add: fl_val_def unit_parts) (simp_all add: mag_val_def emin_def binary64_def)

lemma unit_rounds:
  "fl_round binary64 s 1 = f64_one" "fl_round binary64 s 2 = f64_two" "fl_round binary64 s (- 1) = f64_minus_one"
  "fl_round binary64 False 0 = f64_zero"
  using fl_round_val [of binary64 f64_one s] fl_round_val [of binary64 f64_two s] fl_round_val [of binary64 f64_minus_one s]
  by (simp_all add: unit_parts unit_vals) (simp add: fl_round_def fl_make_def)

lemma nested_box: "voxel_bounds nested_key nested_info =
    Ok (bounds_new (f64_minus_one, f64_minus_one, f64_minus_one) (f64_zero, f64_zero, f64_zero))"
proof -
  have side: "f64_div (f64_mul f64_one f64_two) (f64_powi2 1) = f64_one"
    by (simp add: fl_mul_def fl_div_def f64_powi2_def unit_parts unit_vals unit_rounds)
  have root: "f64_sub f64_zero f64_one = f64_minus_one"
    by (simp add: fl_sub_def fl_add_def unit_parts unit_vals unit_rounds parts0)
  have "f64_mul (f64_of_int 0) f64_one = f64_zero" "f64_add f64_minus_one f64_zero = f64_minus_one" "f64_add f64_minus_one f64_one = f64_zero"
    by (simp_all add: fl_mul_def fl_add_def fl_of_int_def unit_parts unit_vals unit_rounds parts0)
  moreover have "vk_validate (VoxelKey 1 0 0 0) = Ok ()" by (simp add: vk_validate_Ok_iff)
  ultimately show ?thesis
    by (simp add: voxel_bounds_def nested_key_def nested_info_def side root Let_def)
qed

lemma nested_pages_nest:
  assumes "nested_file f cf"
  shows "pages_nest f nested_info"
proof -
  have st: "stores f (733, 32) es \<longleftrightarrow> es = [nested_page]" "stores f (765, 32) es \<longleftrightarrow> es = [nested_chunk]" for es
    using assms stores_unique by (auto simp: nested_file_def)
  have root: "root_page nested_info = (733, 32)" by (simp add: root_page_def nested_info_def)
  have leaf: "\<not> is_child_page nested_chunk" by (simp add: nested_chunk_def is_child_page_def)
  have only: "p = (733, 32) \<or> p = (765, 32)" if "reaches f (733, 32) p" for p
    using that by induction (auto simp: st nested_fields leaf)
  have "box_within b b" if "b = bounds_new (f64_minus_one, f64_minus_one, f64_minus_one) (f64_zero, f64_zero, f64_zero)" for b
    by (simp add: that box_within_def bounds_new_def fl_le_def unit_parts parts0)
  then have "entry_under nested_info nested_key nested_chunk"
    by (simp add: entry_under_def nested_fields nested_box)
  then show ?thesis
    unfolding pages_nest_def root
  proof (intro allI impI)
    fix p es c es' e
    assume "reaches f (733, 32) p" and s: "stores f p es" "c \<in> set es" "is_child_page c" "stores f (page_of c) es'" "e \<in> set es'"
    from only [OF this(1)] s(1-3) have "c = nested_page" using leaf by (auto simp: st)
    then show "entry_under nested_info (e_key c) e"
      using s(4,5) \<open>entry_under nested_info nested_key nested_chunk\<close> by (auto simp: st nested_fields)
  qed
qed

section \<open>Boxes that do not nest\<close>

text \<open>
  Far from the origin the boxes of voxels are rounded, and the box of a descendant can stick out of the box of its
  ancestor: a query may then skip the page of a voxel below which there are chunks that it selects.
\<close>

abbreviation far :: f64 where "far \<equiv> 0x4340000000000000"
abbreviation far_next :: f64 where "far_next \<equiv> 0x4340000000000001"

definition far_info :: copc_info where
  "far_info = nested_info\<lparr>ci_center := (far_next, far_next, far_next), ci_halfsize := f64_two\<rparr>"

lemma far_parts:
  "fl_sign binary64 far = False" "fl_mag binary64 far = 0x4340000000000000" "fl_sign binary64 far_next = False" "fl_mag binary64 far_next = 0x4340000000000001"
  "fl_is_nan binary64 far = False" "fl_is_nan binary64 far_next = False" "fl_is_inf binary64 far = False" "fl_is_inf binary64 far_next = False"
  "fl_is_finite binary64 far" "fl_is_finite binary64 far_next"
  "fl_sign binary64 (0x4010000000000000 :: f64) = False" "fl_mag binary64 (0x4010000000000000 :: f64) = 0x4010000000000000"
  "fl_is_nan binary64 (0x4010000000000000 :: f64) = False" "fl_is_inf binary64 (0x4010000000000000 :: f64) = False" "f64_is_finite 0x4010000000000000"
  "fl_sign binary64 (0x4020000000000000 :: f64) = False" "fl_mag binary64 (0x4020000000000000 :: f64) = 0x4020000000000000"
  "fl_is_nan binary64 (0x4020000000000000 :: f64) = False" "fl_is_inf binary64 (0x4020000000000000 :: f64) = False" "f64_is_finite 0x4020000000000000"
  "fl_sign binary64 (0x3FF8000000000000 :: f64) = False" "fl_mag binary64 (0x3FF8000000000000 :: f64) = 0x3FF8000000000000"
  "fl_is_nan binary64 (0x3FF8000000000000 :: f64) = False" "fl_is_inf binary64 (0x3FF8000000000000 :: f64) = False" "f64_is_finite 0x3FF8000000000000"
  "fl_sign binary64 (0x4008000000000000 :: f64) = False" "fl_mag binary64 (0x4008000000000000 :: f64) = 0x4008000000000000"
  "fl_is_nan binary64 (0x4008000000000000 :: f64) = False" "fl_is_inf binary64 (0x4008000000000000 :: f64) = False" "f64_is_finite 0x4008000000000000"
  "f64_is_finite f64_half" "fl_mag binary64 f64_half = 0x3FE0000000000000"
  "fl_neg binary64 f64_two = 0xC000000000000000"
  "fl_sign binary64 (0xC000000000000000 :: f64) = True" "fl_mag binary64 (0xC000000000000000 :: f64) = 0x4000000000000000"
  "fl_is_nan binary64 (0xC000000000000000 :: f64) = False" "fl_is_inf binary64 (0xC000000000000000 :: f64) = False"
  by (simp_all add: fl_neg_def fl_make_def fl_sign_def fl_mag_def fl_is_nan_def fl_is_inf_def fl_is_finite_def sign_weight_def inf_mag_def binary64_def)

lemma far_vals: "f64_val far = 9007199254740992" "f64_val far_next = 9007199254740994" "f64_val 0x4010000000000000 = 4"
  "f64_val 0x4020000000000000 = 8" "f64_val 0x3FF8000000000000 = 3 / 2" "f64_val 0x4008000000000000 = 3" "f64_val f64_half = 1 / 2"
  "f64_val 0xC000000000000000 = - 2"
  by (simp_all add: fl_val_def far_parts parts0) (simp_all add: mag_val_def emin_def binary64_def)

lemma far_exact: "fl_round binary64 s 9007199254740992 = far" "fl_round binary64 s 4 = (0x4010000000000000 :: f64)"
  "fl_round binary64 s 8 = (0x4020000000000000 :: f64)" "fl_round binary64 s (3 / 2) = (0x3FF8000000000000 :: f64)"
  "fl_round binary64 s 3 = (0x4008000000000000 :: f64)" "fl_round binary64 s (1 / 2) = f64_half"
  using fl_round_val [of binary64 far s] fl_round_val [of binary64 "0x4010000000000000 :: f64" s]
    fl_round_val [of binary64 "0x4020000000000000 :: f64" s] fl_round_val [of binary64 "0x3FF8000000000000 :: f64" s]
    fl_round_val [of binary64 "0x4008000000000000 :: f64" s] fl_round_val [of binary64 f64_half s]
  by (simp_all add: far_parts far_vals parts0)

lemma far_round:
  assumes "9007199254740992 \<le> r" "r < 18014398509481984"
  shows "fl_round binary64 s r = (of_nat (nat (1075 * 4503599627370496 + rne (r / 2))) :: f64)"
proof -
  have l: "ilog2 r = 53" by (rule ilog2_unique) (use assms in simp_all)
  have "rne (r / 2) \<le> 9007199254740992" by (rule rne_le_of_int) (use assms(2) in simp)
  moreover have "0 \<le> rne (r / 2)" using rne_of_int_le [of 0 "r / 2"] assms(1) by simp
  ultimately have "round_mag binary64 r = nat (1075 * 4503599627370496 + rne (r / 2))"
    using assms(1) by (simp add: round_mag_def l emin_def binary64_def inf_mag_def Let_def)
  then show ?thesis using assms(1) by (simp add: fl_round_def fl_make_def)
qed

lemma far_sums: "f64_add far f64_one = far" "f64_add far 0x3FF8000000000000 = far_next" "f64_add far_next f64_half = far_next"
  "f64_sub far_next f64_two = far"
proof -
  have h: "\<lfloor>9007199254740993 / 2 :: rat\<rfloor> = 4503599627370496" "\<lfloor>18014398509481987 / 4 :: rat\<rfloor> = 4503599627370496"
    "\<lfloor>18014398509481989 / 4 :: rat\<rfloor> = 4503599627370497"
    by (simp_all add: floor_eq_iff)
  have "rne (9007199254740993 / 2) = 4503599627370496" "rne (18014398509481987 / 4) = 4503599627370497"
    "rne (18014398509481989 / 4) = 4503599627370497"
    unfolding rne_def Let_def h by simp_all
  then have "fl_round binary64 False 9007199254740993 = far" "fl_round binary64 False (18014398509481987 / 2) = far_next"
    "fl_round binary64 False (18014398509481989 / 2) = far_next"
    by (simp_all add: far_round)
  then show "f64_add far f64_one = far" "f64_add far 0x3FF8000000000000 = far_next" "f64_add far_next f64_half = far_next"
    "f64_sub far_next f64_two = far"
    by (simp_all add: fl_sub_def fl_add_def far_parts far_vals unit_parts unit_vals parts0 far_exact)
qed

lemma far_boxes:
  "voxel_bounds (VoxelKey 2 1 1 1) far_info = Ok (bounds_new (far, far, far) (far, far, far))"
  "voxel_bounds (VoxelKey 3 3 3 3) far_info = Ok (bounds_new (far_next, far_next, far_next) (far_next, far_next, far_next))"
proof -
  have side: "f64_div (f64_mul f64_two f64_two) (f64_powi2 2) = f64_one" "f64_div (f64_mul f64_two f64_two) (f64_powi2 3) = f64_half"
    by (simp_all add: fl_mul_def fl_div_def f64_powi2_def unit_parts unit_vals unit_rounds far_exact far_parts far_vals)
  have pos: "f64_mul (f64_of_int 1) f64_one = f64_one" "f64_mul (f64_of_int 3) f64_half = 0x3FF8000000000000"
    by (simp_all add: fl_mul_def fl_of_int_def unit_parts unit_vals unit_rounds far_exact far_parts far_vals parts0)
  have v: "vk_validate (VoxelKey 2 1 1 1) = Ok ()" "vk_validate (VoxelKey 3 3 3 3) = Ok ()"
    by (simp_all add: vk_validate_Ok_iff)
  show "voxel_bounds (VoxelKey 2 1 1 1) far_info = Ok (bounds_new (far, far, far) (far, far, far))"
    "voxel_bounds (VoxelKey 3 3 3 3) far_info = Ok (bounds_new (far_next, far_next, far_next) (far_next, far_next, far_next))"
    by (simp_all add: voxel_bounds_def far_info_def v side pos far_sums Let_def)
qed

lemma pruned_page_can_match:
  "\<exists>k k' info q. under k k' \<and> vk_validate k = Ok () \<and> vk_validate k' = Ok () \<and> info_validate info = Ok () \<and> validate_query q = Ok () \<and>
    page_may_match log2 k info q = Ok False \<and> box_meets info (pq_bounds q) k'"
proof -
  let ?q = "\<lparr>pq_lod = Lod_All, pq_bounds = Bounds_Within (bounds_new (far_next, far_next, far_next) (far_next, far_next, far_next))\<rparr>"
  have "under (VoxelKey 2 1 1 1) (VoxelKey 3 3 3 3)" by (simp add: under_def)
  moreover have "vk_validate (VoxelKey 2 1 1 1) = Ok ()" "vk_validate (VoxelKey 3 3 3 3) = Ok ()" by (simp_all add: vk_validate_Ok_iff)
  moreover have "info_validate far_info = Ok ()"
    by (simp add: far_info_def nested_info_def info_validate_def ensure_def HIERARCHY_ENTRY_BYTES_def
      fl_is_finite_def fl_mag_def inf_mag_def sign_weight_def binary64_def fl_le_def fl_lt_def fl_is_nan_def fl_ord_def fl_sign_def)
  moreover have "validate_query ?q = Ok ()"
    by (simp add: validate_query_def bounds_new_def far_parts fl_lt_def)
  moreover have "page_may_match log2 (VoxelKey 2 1 1 1) far_info ?q = Ok False" "box_meets far_info (pq_bounds ?q) (VoxelKey 3 3 3 3)"
    by (simp_all add: page_may_match_def level_range_def i32_max_def far_boxes box_meets_def intersects_def bounds_new_def fl_le_def
        fl_ord_def far_parts)
  ultimately show ?thesis by blast
qed

end
