(* ===== verification/Ranged_Local.thy ===== *)
theory Ranged_Local
  imports Ranged_Sample
begin

text \<open>
  The range reader against the local one: a column read over any source that serves a file, after any
  requests that could load their pages, is the column read of \<^verbatim>\<open>lib.rs\<close> on that file, opened locally.
\<close>

section \<open>A column read over a served file\<close>

lemma decode_one_polls:
  assumes "decode_one dz direct ck None i (d, t, columns, accepted, 0) = Ok (d', t', columns', accepted', polls')"
  shows "polls' = 0"
proof -
  have "opt_check None 0 = Ok 0" by (simp add: opt_check_def)
  then show ?thesis using assms
    by (auto simp: decode_one_def bind_res_Ok_iff Let_def split: if_splits)
qed

lemma decode_into_polls:
  assumes "decode_into dz direct ck bytes n columns None 0 = Ok (columns', accepted, polls)"
  shows "polls = 0"
proof -
  have "fold_res (decode_one dz direct ck None) is (d, t, c, a, 0) = Ok (d', t', c', a', p') \<Longrightarrow> p' = 0" for "is" d t c a d' t' c' a' p'
  proof (induction "is" arbitrary: d t c a)
    case (Cons i "is")
    then obtain x where x: "decode_one dz direct ck None i (d, t, c, a, 0) = Ok x"
        "fold_res (decode_one dz direct ck None) is x = Ok (d', t', c', a', p')"
      unfolding fold_res.simps bind_res_Ok_iff by blast
    obtain d1 t1 c1 a1 p1 where x': "x = (d1, t1, c1, a1, p1)" by (cases x)
    then show ?case using decode_one_polls [of dz direct ck i d t c a] x Cons.IH by blast
  qed simp
  then show ?thesis using assms by (auto simp: decode_into_def bind_res_Ok_iff)
qed

lemma chunk_bytes_read:
  assumes "chunk_within data e"
  shows "read_chunk_bytes e (fcur data p) = Ok ((chunk_bytes_of data e, nat (sint (e_point_count e))), fcur data (entry_hi e))"
proof -
  have "unat (e_offset e) + nat (sint (e_byte_size e)) \<le> length data" "entry_hi e = unat (e_offset e) + nat (sint (e_byte_size e))"
    using assms by (simp_all add: chunk_within_def entry_hi_def)
  then show ?thesis using assms
    by (simp add: read_chunk_bytes_def chunk_within_def usize_try_from_i32_def rbind_check_iff rlift_def rret_def
        fcur_steps rbind_def fcur_exact chunk_bytes_of_def entry_lo_def)
qed

lemma read_chunks_decode:
  assumes "list_all (chunk_within data) es"
  shows "bind_res (fold_res (read_chunk_columns (ro_decoder ops) (ro_direct ops) ck None) es (columns, accepted, 0, fcur data p))
      (\<lambda>(columns, accepted, _, _). Ok (columns, accepted)) =
    fold_res (\<lambda>e. decode_columns ops ck (chunk_bytes_of data e) (nat (sint (e_point_count e)))) es (columns, accepted)"
  using assms
proof (induction es arbitrary: columns accepted p)
  case (Cons e es)
  have b: "read_chunk_bytes e (fcur data p) = Ok ((chunk_bytes_of data e, nat (sint (e_point_count e))), fcur data (entry_hi e))"
    by (rule chunk_bytes_read) (use Cons.prems in simp)
  let ?d = "decode_into (ro_decoder ops) (ro_direct ops) ck (chunk_bytes_of data e) (nat (sint (e_point_count e))) columns None 0"
  have step: "read_chunk_columns (ro_decoder ops) (ro_direct ops) ck None e (columns, accepted, 0, fcur data p) =
    bind_res ?d (\<lambda>(c, a, polls). Ok (c, accepted + a, polls, fcur data (entry_hi e)))"
    by (simp add: read_chunk_columns_def opt_check_def b)
  show ?case
  proof (cases ?d)
    case (Inl x)
    then show ?thesis by (simp add: step decode_columns_def)
  next
    case (Inr x)
    obtain c a polls where x: "x = (c, a, polls)" by (cases x)
    have "polls = 0" using decode_into_polls Inr x by blast
    then show ?thesis using Cons.IH [of c "accepted + a" "entry_hi e"] Cons.prems Inr x
      by (simp add: step decode_columns_def)
  qed
qed simp

lemma chunk_withinI:
  assumes "validate_hierarchy_entry e (length data) d = Ok ()" "has_point_data e"
  shows "chunk_within data e"
  using assms point_size_pos [of e] by (auto simp: validate_hierarchy_entry_Ok_iff chunk_within_def has_point_data_def)

context range_source begin

text \<open>Reading the groups of the selected chunks changes nothing but the source.\<close>

lemma read_groups_state:
  assumes "serving holds data r" "list_all (group_ok mx) groups" "list_all (chunk_within data) (concat (map cg_entries groups))"
  shows "\<exists>s. snd (read_groups ops decode groups acc r) = r\<lparr>rg_source := s\<rparr> \<and> holds s data"
  using assms
proof (induction groups arbitrary: acc r)
  case Nil
  then show ?case by (intro exI [of _ "rg_source r"]) (simp add: st_ret_def serving_def)
next
  case (Cons g groups)
  have g: "group_ok mx g" "list_all (chunk_within data) (cg_entries g)" using Cons.prems(2,3) by simp_all
  have "last (cg_entries g) \<in> set (cg_entries g)" "unat (cg_end g) = entry_hi (last (cg_entries g))"
    using g(1) unfolding group_ok_def by simp_all
  then have hi: "unat (cg_end g) \<le> length data" using g(2) by (simp add: list_all_iff chunk_within_def)
  have le: "unat (cg_start g) \<le> unat (cg_end g)" using g(1) unfolding group_ok_def word_le_nat_alt by blast
  from fetch_served [OF Cons.prems(1) le hi] obtain s bytes where
    f: "fetch_range ops (cg_start g) (cg_end g) r = (Ok bytes, r\<lparr>rg_source := s\<rparr>)"
      "serving holds data (r\<lparr>rg_source := s\<rparr>)" by blast
  show ?case
  proof (cases "fold_res (group_chunks decode bytes (cg_start g)) (cg_entries g) acc")
    case (Inl e)
    then show ?thesis using f by (intro exI [of _ s]) (simp add: st_bind_def st_lift_def serving_def)
  next
    case (Inr acc')
    then show ?thesis using Cons.IH [OF f(2), of acc'] Cons.prems(2,3) by (simp add: st_bind_def f st_lift_def)
  qed
qed

lemma selected_groups:
  assumes "serving holds data r" "rg_ok r"
    and "select_point_chunks_from log2 (hierarchy_values (rg_hierarchy r)) (rg_copc_info r) q = Ok chunks"
  shows "list_all (chunk_within data) chunks"
    and "list_all (group_ok mx) (coalesce_chunks chunks gap mx) \<and> concat (map cg_entries (coalesce_chunks chunks gap mx)) = chunks"
proof -
  note c = selected_chunks [OF assms(2,3)]
  show within: "list_all (chunk_within data) chunks"
    using c(1,2) rg_ok_values(1) [OF assms(2)] assms(1) unfolding list_all_iff serving_def by (metis chunk_withinI subsetD)
  have "length data < 2 ^ 64" using size_law [of "rg_source r" data] assms(1) by (simp add: serving_def)
  from coalesce_ok [OF within c(3) this]
  show "list_all (group_ok mx) (coalesce_chunks chunks gap mx) \<and> concat (map cg_entries (coalesce_chunks chunks gap mx)) = chunks" .
qed

lemma range_columns_served:
  assumes r: "serving holds data r'" "rg_ok r'" and h: "hierarchy_for (ro_log2 rops) ops q r = (Ok chunks, r')"
    and fields: "cf_header cf = rg_header r'" "cf_laszip_vlr cf = rg_laszip_vlr r'"
    and sel': "select_point_chunks (ro_log2 rops) cf q = Ok chunks"
  shows "fst (range_read_columns rops ops q selection r) =
    bind_res (read_columns_inner rops cf q selection None 0 (fcur data p)) (\<lambda>(batch, _). Ok batch)"
proof -
  have s: "serving holds data r'" using r(1) .
  have sel: "select_point_chunks_from (ro_log2 rops) (hierarchy_values (rg_hierarchy r')) (rg_copc_info r') q = Ok chunks"
    using hierarchy_for_ok [OF h] by blast
  let ?groups = "coalesce_chunks chunks RANGE_COALESCE_GAP_BYTES MAX_COALESCED_RANGE_BYTES"
  note within = selected_groups(1) [OF r sel]
    and co = selected_groups(2) [OF r sel, of MAX_COALESCED_RANGE_BYTES RANGE_COALESCE_GAP_BYTES]
  have groups: "fst (read_groups ops decode ?groups acc r') =
      fold_res (\<lambda>e. decode (chunk_bytes_of data e) (nat (sint (e_point_count e)))) chunks acc" for decode and acc :: 'x
    using read_groups_exact [OF s, of MAX_COALESCED_RANGE_BYTES ?groups] co within by simp
  let ?b = "selection_bounds (pq_bounds q)"
  show ?thesis
  proof (cases "point_format_for (ro_format_new rops) (ro_format_len rops) (rg_header r')")
    case (Inl e)
    then show ?thesis by (simp add: range_read_columns_def read_columns_inner_def column_setup_def st_bind_def st_lift_def h sel' fields)
  next
    case fmt: (Inr format)
    show ?thesis
    proof (cases "chunk_column_decoder_new (ro_decoder rops) (ro_format_len rops) (rg_laszip_vlr r') format (transforms_for (rg_header r')) ?b")
      case (Inl e)
      then show ?thesis
        by (simp add: range_read_columns_def read_columns_inner_def column_setup_def st_bind_def st_lift_def h sel' fields fmt Let_def)
    next
      case ck: (Inr ck)
      have cb: "ck_bounds ck = ?b" using ck by (auto simp: chunk_column_decoder_new_def bind_res_Ok_iff Let_def)
      have cap: "(case ck_bounds ck of Some _ \<Rightarrow> Ok 0
           | None \<Rightarrow> bind_res (total_candidate_points chunks) (\<lambda>n. Ok (min n MAX_INITIAL_COLUMN_RESERVE_POINTS))) =
          initial_capacity ?b chunks"
        by (simp add: initial_capacity_def cb)
      let ?builders = "bind_res (initial_capacity ?b chunks) (selected_column_builders format selection)"
      have local: "read_columns_inner rops (cf) q selection None 0 (fcur data p) =
          bind_res ?builders (\<lambda>columns.
          bind_res (fold_res (read_chunk_columns (ro_decoder rops) (ro_direct rops) ck None) chunks (columns, 0, 0, fcur data p))
            finish_batch)"
        unfolding read_columns_inner_def column_setup_def sel' fields fmt ck bind_res_simps cap
        by (auto simp: bind_res_def split: sum.split)
      let ?step = "\<lambda>e. decode_columns rops ck (chunk_bytes_of data e) (nat (sint (e_point_count e)))"
      have remote: "fst (range_read_columns rops ops q selection r) =
          bind_res ?builders (\<lambda>columns. bind_res (fold_res ?step chunks (columns, 0)) (\<lambda>(columns, accepted_points).
            let batch = \<lparr>lb_len = accepted_points, lb_columns = columns\<rparr>
            in bind_res (batch_validate batch) (\<lambda>_. Ok batch)))"
      proof (cases ?builders)
        case (Inl e)
        then show ?thesis
          by (cases "initial_capacity ?b chunks") (simp_all add: range_read_columns_def st_bind_def st_lift_def h fmt ck Let_def)
      next
        case (Inr columns)
        obtain res t where g: "read_groups ops (decode_columns rops ck) ?groups (columns, 0) r' = (res, t)"
          by (cases "read_groups ops (decode_columns rops ck) ?groups (columns, 0) r'")
        then have res: "res = fold_res ?step chunks (columns, 0)" using groups [of "decode_columns rops ck" "(columns, 0)"] by simp
        show ?thesis
          using Inr g by (cases "initial_capacity ?b chunks"; cases res)
            (simp_all add: range_read_columns_def st_bind_def st_lift_def h fmt ck Let_def res [symmetric] split: prod.split)
      qed
      show ?thesis
      proof (cases ?builders)
        case (Inr columns)
        let ?f = "fold_res (read_chunk_columns (ro_decoder rops) (ro_direct rops) ck None) chunks (columns, 0, 0, fcur data p)"
        have "fold_res ?step chunks (columns, 0) = bind_res ?f (\<lambda>(columns, accepted, _, _). Ok (columns, accepted))"
          by (rule read_chunks_decode [OF within, symmetric])
        then show ?thesis unfolding local remote Inr bind_res_simps
          by (cases ?f) (auto simp: finish_batch_def Let_def bind_res_def split: sum.split)
      qed (simp add: local remote)
    qed
  qed
qed

end

section \<open>After any requests\<close>

text \<open>A reader that serves the file and knows the pages it has not loaded.\<close>

definition tracks :: "('s \<Rightarrow> u8 list \<Rightarrow> bool) \<Rightarrow> u8 list \<Rightarrow> copc_info \<Rightarrow> ('s, 'laz) range_reader \<Rightarrow> bool" where
  "tracks holds data info r \<longleftrightarrow> serving holds data r \<and> rg_ok r \<and>
     pages_known data (root_page info) {} r \<and> root_page info \<in> rg_visited_pages r"

lemma tracks_source: "tracks holds data info r \<Longrightarrow> holds s data \<Longrightarrow> tracks holds data info (r\<lparr>rg_source := s\<rparr>)"
  by (simp add: tracks_def serving_def rg_ok_fields)

text \<open>A request whose pages can be loaded; decoding its chunks may still fail.\<close>

definition request_loads ::
  "('laz, 'd) read_ops \<Rightarrow> ('laz, 'd, bsection, 'raw, 'p) iter_ops \<Rightarrow> 's range_read \<Rightarrow> request \<Rightarrow>
    ('s, 'laz) range_reader \<Rightarrow> bool" where
  "request_loads ops iops io req r \<longleftrightarrow>
     (case req of
        Req_Chunks q \<Rightarrow> (\<exists>chunks. fst (hierarchy_for (ro_log2 ops) io q r) = Ok chunks)
      | Req_Columns q _ \<Rightarrow> (\<exists>chunks. fst (hierarchy_for (ro_log2 ops) io q r) = Ok chunks)
      | Req_Points q \<Rightarrow> (\<exists>chunks. fst (hierarchy_for (io_log2 iops) io q r) = Ok chunks))"

inductive requests_run ::
  "('laz, 'd) read_ops \<Rightarrow> ('laz, 'd, bsection, 'raw, 'p) iter_ops \<Rightarrow> 's range_read \<Rightarrow>
    ('s, 'laz) range_reader \<Rightarrow> ('s, 'laz) range_reader \<Rightarrow> bool" for ops iops io r0 where
  opened: "requests_run ops iops io r0 r0"
| served: "requests_run ops iops io r0 r \<Longrightarrow> request_loads ops iops io req r \<Longrightarrow>
    requests_run ops iops io r0 (serve ops iops io req r)"

context range_source begin

lemma hierarchy_for_tracks:
  assumes "tracks holds data info r" "hierarchy_for log2 ops q r = (Ok chunks, r')"
  shows "tracks holds data info r' \<and> nothing_relevant log2 q r'"
proof -
  have r: "serving holds data r" "rg_ok r" "pages_known data (root_page info) {} r" "root_page info \<in> rg_visited_pages r"
    using assms(1) by (simp_all add: tracks_def)
  from hierarchy_for_known [OF r(1) assms(2) r(3)] r(4) hierarchy_for_ok [OF assms(2)] r(2)
  show ?thesis by (auto simp: tracks_def)
qed

lemma groups_tracks:
  assumes "tracks holds data info r'" "hierarchy_for log2 ops q r = (Ok chunks, r')"
  shows "tracks holds data info (snd (read_groups ops decode (coalesce_chunks chunks gap mx) acc r'))"
proof -
  have r: "serving holds data r'" "rg_ok r'" using assms(1) by (simp_all add: tracks_def)
  have "select_point_chunks_from log2 (hierarchy_values (rg_hierarchy r')) (rg_copc_info r') q = Ok chunks"
    using hierarchy_for_ok [OF assms(2)] by blast
  note g = selected_groups [OF r this]
  have "list_all (chunk_within data) (concat (map cg_entries (coalesce_chunks chunks gap mx)))" using g by simp
  from read_groups_state [OF r(1) conjunct1 [OF g(2)] this, where decode = decode and acc = acc] obtain s where
    "snd (read_groups ops decode (coalesce_chunks chunks gap mx) acc r') = r'\<lparr>rg_source := s\<rparr>" "holds s data" by blast
  then show ?thesis using tracks_source [OF assms(1)] by simp
qed

lemma bind_tracks:
  assumes "tracks holds data info (snd (m r))" "\<And>x. fst (m r) = Inr x \<Longrightarrow> tracks holds data info (snd (k x (snd (m r))))"
  shows "tracks holds data info (snd (st_bind m k r))"
  using assms by (auto simp: st_bind_def split: prod.split sum.split)

lemma snd_lift: "snd (st_lift f r) = r"
  by (simp add: st_lift_def)

lemma serve_tracks:
  assumes "tracks holds data info r" "request_loads rops iops ops req r"
  shows "tracks holds data info (serve rops iops ops req r)"
proof -
  have h: "\<exists>r'. hierarchy_for log2 ops q r = (Ok chunks, r') \<and> tracks holds data info r'"
    if f: "fst (hierarchy_for log2 ops q r) = Ok chunks" for log2 q chunks
  proof -
    from f have e: "hierarchy_for log2 ops q r = (Ok chunks, snd (hierarchy_for log2 ops q r))" by (metis prod.collapse)
    from hierarchy_for_tracks [OF assms(1) e] e show ?thesis by blast
  qed
  show ?thesis
  proof (cases req)
    case (Req_Chunks q)
    with assms(2) obtain chunks where "fst (hierarchy_for (ro_log2 rops) ops q r) = Ok chunks" by (auto simp: request_loads_def)
    from h [OF this] show ?thesis by (auto simp: serve_def Req_Chunks)
  next
    case (Req_Columns q selection)
    with assms(2) obtain chunks where "fst (hierarchy_for (ro_log2 rops) ops q r) = Ok chunks" by (auto simp: request_loads_def)
    from h [OF this] obtain r' where c: "hierarchy_for (ro_log2 rops) ops q r = (Ok chunks, r')" "tracks holds data info r'" by blast
    note g = groups_tracks [OF c(2,1)]
    show ?thesis
      unfolding Req_Columns serve_def request.case range_read_columns_def Let_def
      by (rule bind_tracks) (auto simp: c snd_lift intro!: bind_tracks g split: prod.split)
  next
    case (Req_Points q)
    with assms(2) obtain chunks where "fst (hierarchy_for (io_log2 iops) ops q r) = Ok chunks" by (auto simp: request_loads_def)
    from h [OF this] obtain r' where c: "hierarchy_for (io_log2 iops) ops q r = (Ok chunks, r')" "tracks holds data info r'" by blast
    note g = groups_tracks [OF c(2,1)]
    show ?thesis
      unfolding Req_Points serve_def request.case range_read_points_def Let_def
      by (rule bind_tracks) (auto simp: c snd_lift intro!: bind_tracks g split: prod.split)
  qed
qed

end

section \<open>Properties\<close>

lemma requests_track:
  assumes "range_source io holds" "holds source data" "range_open io laz_read source = Ok r0"
    and "from_reader laz_read (fcur data 0) = Ok (cf, t)" "requests_run ops iops io r0 r"
  shows "tracks holds data (cf_copc_info cf) r \<and> same_file r0 r"
  using assms(5)
proof induction
  case opened
  have "rg_ok r0" using range_open_ok [OF assms(3)] by blast
  with range_source.range_open_known [OF assms(1,2,4,3)] show ?case by (simp add: tracks_def same_file_def)
next
  case (served r req)
  then have "tracks holds data (cf_copc_info cf) (serve ops iops io req r)"
    using range_source.serve_tracks [OF assms(1)] by blast
  moreover have "rg_ok r" using served.IH by (simp add: tracks_def)
  ultimately show ?case using serve_spec [of r r0] served.IH by blast
qed

text \<open>C39: a column read by ranges and a column read of the local file. Take a source that serves a file, a range
  reader opened on it and then used for any requests that could load their pages, and the local reader that
  opened the same file and has walked the whole hierarchy; the entries of a child page lie under the
  key of the entry that leads to it. If the pages for a query can be loaded, the range reader, which has loaded
  only the pages the query may need, selects the chunks the local reader selects, and fetching them in coalesced
  groups gives exactly the batch, or the error, of the local reader; if they cannot, the read returns
  that error.\<close>

theorem ranged_columns_equal_local:
  assumes "range_source io holds" and "holds source data"
    and "range_open io laz_read source = Ok r0" and "requests_run ops iops io r0 r"
    and "from_reader laz_read (fcur data 0) = Ok (cf, t)" and "pages_nest data (cf_copc_info cf)"
  shows "case hierarchy_for (ro_log2 ops) io q r of
     (Inl e, _) \<Rightarrow> fst (range_read_columns ops io q selection r) = Err e
   | (Inr chunks, _) \<Rightarrow> select_point_chunks (ro_log2 ops) cf q = Ok chunks \<and>
       fst (range_read_columns ops io q selection r) =
         bind_res (read_columns_inner ops cf q selection None 0 (fcur data p)) (\<lambda>(batch, _). Ok batch)"
proof -
  note k = requests_track [OF assms(1-3,5,4)]
  obtain res r' where h: "hierarchy_for (ro_log2 ops) io q r = (res, r')" by (cases "hierarchy_for (ro_log2 ops) io q r")
  show ?thesis
  proof (cases res)
    case (Inl e)
    then show ?thesis by (simp add: h range_read_columns_def st_bind_def)
  next
    case (Inr chunks)
    note h' = h [unfolded Inr]
    have t: "tracks holds data (cf_copc_info cf) r'" "nothing_relevant (ro_log2 ops) q r'"
      using range_source.hierarchy_for_tracks [OF assms(1) _ h'] k by blast+
    have "same_file r0 r'" using hierarchy_for_ok [OF h'] k by (auto simp: same_file_def)
    then have f: "rg_header r' = cf_header cf" "rg_copc_info r' = cf_copc_info cf" "rg_laszip_vlr r' = cf_laszip_vlr cf"
      using range_source.range_open_known [OF assms(1,2,5,3)] by (simp_all add: same_file_def)
    have sel: "select_point_chunks (ro_log2 ops) cf q = Ok chunks"
      using same_selection [OF _ _ assms(6,5) _ t(2) f(2)] t(1) hierarchy_for_ok [OF h'] f(2) by (simp add: tracks_def)
    have "serving holds data r'" "rg_ok r'" using t(1) by (simp_all add: tracks_def)
    from range_source.range_columns_served [OF assms(1) this h' _ _ sel] f
    have "fst (range_read_columns ops io q selection r) =
        bind_res (read_columns_inner ops cf q selection None 0 (fcur data p)) (\<lambda>(batch, _). Ok batch)" by simp
    then show ?thesis using h' sel by simp
  qed
qed

text \<open>On the file of two pages: the query loads the child page, which is pending after the opening.\<close>

theorem ranged_columns_equal_local_witness:
  "\<exists>f cf t r0 r. from_reader (\<lambda>_. Inr ()) (fcur f 0) = Ok (cf, t) \<and>
    range_open file_range_read (\<lambda>_. Inr ()) (fcur f 0) = Ok r0 \<and> rg_pending_pages r0 = [nested_page] \<and>
    hierarchy_for (ro_log2 sample_ops) file_range_read query_all r0 = (Ok [nested_chunk], r) \<and>
    select_point_chunks (ro_log2 sample_ops) cf query_all = Ok [nested_chunk] \<and>
    fst (range_read_columns sample_ops file_range_read query_all sample_selection r0) =
      bind_res (read_columns_inner sample_ops cf query_all sample_selection None 0 (fcur f 0)) (\<lambda>(batch, _). Ok batch)"
proof -
  obtain f cf t where o: "from_reader (\<lambda>_. Inr ()) (fcur f 0) = Ok (cf, t)" and n: "nested_file f cf" using nested_opens by blast
  obtain s where s: "file_holds s f" "range_open file_range_read (\<lambda>_. Inr ()) (fcur f 0) = Ok (nested_opened f cf s)"
    using nested_range_open [OF o n] by blast
  obtain r where r: "hierarchy_for (ro_log2 sample_ops) file_range_read query_all (nested_opened f cf s) = (Ok [nested_chunk], r)"
    using nested_query [OF n s(1)] by blast
  have h: "file_holds (fcur f 0) f" "pages_nest f (cf_copc_info cf)"
    using n nested_pages_nest [OF n] by (auto simp: file_holds_def nested_file_def)
  have "rg_pending_pages (nested_opened f cf s) = [nested_page]" by (simp add: nested_opened_def)
  with ranged_columns_equal_local [OF file_ranges.range_source_axioms h(1) s(2) requests_run.opened o h(2), of sample_ops query_all sample_selection 0]
  show ?thesis using o s(2) r by (intro exI conjI) (assumption | simp)+
qed

end
