(* ===== verification/Parallel_Columns.thy ===== *)
theory Parallel_Columns
  imports Column_Read Chunk_Layout
begin

text \<open>
  The column read of \<^verbatim>\<open>points.rs\<close> with the feature \<^verbatim>\<open>parallel\<close>: batches of chunks are read one after
  the other, decoded by the thread pool into columns of their own, and merged in chunk order. The pool
  returns the results in the order of its inputs and runs every task, whatever the others return.
\<close>

section \<open>Merging\<close>

definition merge_data :: "column_data \<Rightarrow> column_data \<Rightarrow> column_data result" where
  "merge_data dst src =
     (case (dst, src) of
        (F64 dst, F64 src) \<Rightarrow> Ok (F64 (dst @ src))
      | (F32 dst, F32 src) \<Rightarrow> Ok (F32 (dst @ src))
      | (I64 dst, I64 src) \<Rightarrow> Ok (I64 (dst @ src))
      | (I32 dst, I32 src) \<Rightarrow> Ok (I32 (dst @ src))
      | (I16 dst, I16 src) \<Rightarrow> Ok (I16 (dst @ src))
      | (I8 dst, I8 src) \<Rightarrow> Ok (I8 (dst @ src))
      | (U64 dst, U64 src) \<Rightarrow> Ok (U64 (dst @ src))
      | (U32 dst, U32 src) \<Rightarrow> Ok (U32 (dst @ src))
      | (U16 dst, U16 src) \<Rightarrow> Ok (U16 (dst @ src))
      | (U8 dst, U8 src) \<Rightarrow> Ok (U8 (dst @ src))
      | (Bool dst, Bool src) \<Rightarrow> Ok (Bool (dst @ src))
      | _ \<Rightarrow> Err (InvalidData ''chunk column scalar mismatch during merge''))"

definition merge_column :: "column \<times> column \<Rightarrow> column result" where
  "merge_column = (\<lambda>((dst_spec, dst_data), (src_spec, src_data)).
     if dst_spec \<noteq> src_spec
     then Err (InvalidData ''chunk column spec mismatch: found {src_spec:?}, expected {dst_spec:?}'')
     else bind_res (merge_data dst_data src_data) (\<lambda>data. Ok (dst_spec, data)))"

definition merge_columns :: "column list \<Rightarrow> column list \<Rightarrow> column list result" where
  "merge_columns dst src =
     (if length dst \<noteq> length src then Err (InvalidData ''chunk produced {} columns, expected {}'')
      else map_res merge_column (zip dst src))"

section \<open>Reading\<close>

text \<open>The bytes of a batch, read in order; the task of one chunk; the results, merged in order.\<close>

definition read_batch_entry ::
  "entry \<Rightarrow> (u8 list \<times> nat) list \<times> bsection \<Rightarrow> ((u8 list \<times> nat) list \<times> bsection) result" where
  "read_batch_entry e = (\<lambda>(batch_bytes, s).
     bind_res (read_chunk_bytes e s) (\<lambda>(chunk, s). Ok (batch_bytes @ [chunk], s)))"

definition decode_task ::
  "('laz, 'd) read_ops \<Rightarrow> las_format \<Rightarrow> column_selection \<Rightarrow> 'laz chunk_column_decoder \<Rightarrow> u8 list \<times> nat \<Rightarrow>
    (column list \<times> nat) result" where
  "decode_task ops format selection decoder = (\<lambda>(chunk_bytes, points_in_chunk).
     bind_res (selected_column_builders format selection (min points_in_chunk MAX_INITIAL_COLUMN_RESERVE_POINTS)) (\<lambda>chunk_columns.
     bind_res (decode_into (ro_decoder ops) (ro_direct ops) decoder chunk_bytes points_in_chunk chunk_columns None 0)
       (\<lambda>(chunk_columns, accepted, _). Ok (chunk_columns, accepted))))"

definition merge_result :: "(column list \<times> nat) result \<Rightarrow> column list \<times> nat \<Rightarrow> (column list \<times> nat) result" where
  "merge_result result = (\<lambda>(columns, accepted_points).
     bind_res result (\<lambda>(chunk_columns, accepted).
     bind_res (merge_columns columns chunk_columns) (\<lambda>columns. Ok (columns, accepted_points + accepted))))"

definition read_batch_columns ::
  "('laz, 'd) read_ops \<Rightarrow> las_format \<Rightarrow> column_selection \<Rightarrow> 'laz chunk_column_decoder \<Rightarrow> cancel option \<Rightarrow>
    entry list \<Rightarrow> column list \<times> nat \<times> nat \<times> bsection \<Rightarrow> (column list \<times> nat \<times> nat \<times> bsection) result" where
  "read_batch_columns ops format selection decoder cancel batch = (\<lambda>(columns, accepted_points, polls, s).
     bind_res (opt_check cancel polls) (\<lambda>polls.
     bind_res (fold_res read_batch_entry batch ([], s)) (\<lambda>(batch_bytes, s).
     let decoded = map (decode_task ops format selection decoder) batch_bytes in
     bind_res (fold_res merge_result decoded (columns, accepted_points)) (\<lambda>(columns, accepted_points).
     Ok (columns, accepted_points, polls, s)))))"

definition read_columns_parallel ::
  "('laz, 'd) read_ops \<Rightarrow> 'laz copc_file \<Rightarrow> point_query \<Rightarrow> column_selection \<Rightarrow> cancel option \<Rightarrow> nat \<Rightarrow> nat \<Rightarrow> bsection \<Rightarrow>
    (las_column_batch \<times> nat \<times> bsection) result" where
  "read_columns_parallel ops f q selection cancel threads polls s =
     bind_res (column_setup ops f q selection) (\<lambda>(chunks, format, decoder, columns).
     let batch_size = max threads 1 * 2 in
     bind_res (fold_res (read_batch_columns ops format selection decoder cancel) (slice_chunks batch_size chunks)
         (columns, 0, polls, s)) finish_batch)"

section \<open>Merging columns of records\<close>

lemma merge_data_append:
  "data_scalar a = data_scalar b \<Longrightarrow> data_scalar a \<in> {Ty_F64, Ty_F32, Ty_U64, Ty_U32, Ty_U16, Ty_U8, Ty_Bool} \<Longrightarrow>
    merge_data a b = Ok (data_append a b)"
  by (induction a b rule: data_append.induct) (simp_all add: data_scalar_def merge_data_def)

lemma data_append_assoc:
  "data_scalar a = data_scalar b \<Longrightarrow> data_scalar b = data_scalar c \<Longrightarrow>
    data_append (data_append a b) c = data_append a (data_append b c)"
  by (cases a; cases b; cases c) (simp_all add: data_scalar_def)

lemma data_append_empty_right: "data_append a (empty_data (data_scalar a)) = a"
  by (cases a) (simp_all add: data_scalar_def empty_data_def)

lemma column_of_append:
  assumes "spec_of_format format sp"
  shows "data_append (column_of format a sp) (column_of format b sp) = column_of format (a @ b) sp"
proof (induction b rule: rev_induct)
  case Nil
  then show ?case using data_append_empty_right [of "column_of format a sp"] by (simp add: column_of_def [of _ "[]"])
next
  case (snoc r b)
  obtain buf p where r: "r = (buf, p)" by (cases r)
  have "data_append (column_of format a sp) (column_of format (b @ [r]) sp) =
      data_append (data_append (column_of format a sp) (column_of format b sp)) (record_data format buf p (sp_dimension sp))"
    unfolding r column_of_snoc by (rule data_append_assoc [symmetric]) (simp_all add: record_data_scalar [OF assms])
  also have "\<dots> = column_of format (a @ b @ [r]) sp"
    using column_of_snoc [of format "a @ b" buf p sp] by (simp add: snoc r)
  finally show ?case .
qed

lemma merge_columns_of:
  assumes "list_all (spec_of_format format) specs"
  shows "merge_columns (columns_of format specs a) (columns_of format specs b) = Ok (columns_of format specs (a @ b))"
proof -
  have "merge_data (column_of format a sp) (column_of format b sp) = Ok (column_of format (a @ b) sp)"
    if "spec_of_format format sp" for sp
    using merge_data_append [of "column_of format a sp" "column_of format b sp"] spec_scalar_range [OF that]
    by (simp add: column_of_append [OF that])
  then have "map_res merge_column (zip (columns_of format specs a) (columns_of format specs b)) = Ok (columns_of format specs (a @ b))"
    using assms unfolding columns_of_def by (induction specs) (simp_all add: merge_column_def)
  then show ?thesis by (simp add: merge_columns_def columns_of_def)
qed

section \<open>Tasks and batches\<close>

lemma decode_task_exact:
  assumes "decoder_for format ck"
  shows "decode_task ops format selection ck (bytes, n) =
    bind_res (chunk_records (ro_decoder ops) (ro_direct ops) ck bytes n)
      (\<lambda>recs. Ok (columns_of format (selected_specs format selection) recs, length recs))"
proof -
  have b: "selected_column_builders format selection (min n MAX_INITIAL_COLUMN_RESERVE_POINTS) =
      Ok (columns_of format (selected_specs format selection) [])" by (rule column_builders) simp
  note d = decode_into_spec [OF assms selected_specs_of_format [of format selection], where dz = "ro_decoder ops" and direct = "ro_direct ops" and bytes = bytes
      and n = n and recs = "[]" and cancel = None and polls = 0]
  show ?thesis
    using d by (cases "decode_into (ro_decoder ops) (ro_direct ops) ck bytes n
        (columns_of format (selected_specs format selection) []) None 0") (auto simp: decode_task_def b)
qed

lemma read_batch_spec:
  assumes "same_stream s t"
  shows "res_spec (\<lambda>_. \<exists>x. map_res (entry_records dz direct ck s) batch = Err x)
    (\<lambda>(bs, t'). same_stream s t' \<and> map (\<lambda>(bytes, n). chunk_records dz direct ck bytes n) bs = map (entry_records dz direct ck s) batch)
    (fold_res read_batch_entry batch ([], t))"
proof -
  let ?I = "\<lambda>es (bs, t'). same_stream s t' \<and>
    map (\<lambda>(bytes, n). chunk_records dz direct ck bytes n) bs = map (entry_records dz direct ck s) es"
  show ?thesis
  proof (rule res_spec_fold [where I = ?I])
    fix es e rest u assume b: "batch = es @ e # rest" and u: "?I es u"
    obtain bs t' where u': "u = (bs, t')" by (cases u)
    have same: "same_stream s t'" using u u' by simp
    have entry: "entry_records dz direct ck s e = bind_res (read_chunk_bytes e t') (\<lambda>((bytes, n), _). chunk_records dz direct ck bytes n)"
      using entry_records_same [OF same] by (simp add: entry_records_def)
    show "res_spec (\<lambda>_. \<exists>x. map_res (entry_records dz direct ck s) batch = Err x) (?I (es @ [e])) (read_batch_entry e u)"
    proof (cases "read_chunk_bytes e t'")
      case (Inl x)
      then have "entry_records dz direct ck s e = Err x" using entry by simp
      then have "\<exists>x. map_res (entry_records dz direct ck s) batch = Err x"
        by (cases "map_res (entry_records dz direct ck s) es") (simp_all add: b map_res_append)
      then show ?thesis by (simp add: read_batch_entry_def u' Inl)
    next
      case (Inr y)
      obtain bytes n t2 where y: "y = ((bytes, n), t2)" by (metis surj_pair)
      have "same_stream s t2" using same read_chunk_bytes_stream [of e t' "(bytes, n)" t2] Inr y by (simp add: same_stream_def)
      then show ?thesis using u u' entry by (simp add: read_batch_entry_def Inr y)
    qed
  qed (use assms in simp)
qed

lemma merge_results_spec:
  assumes "list_all (spec_of_format format) specs"
  shows "res_spec (\<lambda>_. \<exists>x. map_res id rs = Err x)
    (\<lambda>(columns, n). \<exists>recs. map_res id rs = Ok recs \<and> columns = columns_of format specs (a @ concat recs) \<and>
       n = length a + length (concat recs))
    (fold_res merge_result (map (\<lambda>r. bind_res r (\<lambda>recs. Ok (columns_of format specs recs, length recs))) rs)
      (columns_of format specs a, length a))"
proof (induction rs arbitrary: a)
  case (Cons r rs)
  show ?case
  proof (cases r)
    case (Inr recs)
    have "merge_result (Ok (columns_of format specs recs, length recs)) (columns_of format specs a, length a) =
        Ok (columns_of format specs (a @ recs), length (a @ recs))"
      by (simp add: merge_result_def merge_columns_of [OF assms])
    then show ?thesis using Cons.IH [of "a @ recs"] Inr
      by (auto elim!: res_spec_mono)
  qed (simp add: merge_result_def)
qed simp


lemma map_res_id_map: "map_res id (map f xs) = map_res f xs"
  by (induction xs) simp_all

lemma read_batch_columns_spec:
  assumes ck: "decoder_for format ck"
    and st: "read_to (ro_decoder ops) (ro_direct ops) ck format (selected_specs format selection) s es st"
  shows "res_spec (\<lambda>err. cancels cancel err \<or>
      (\<exists>x. map_res (entry_records (ro_decoder ops) (ro_direct ops) ck s) (es @ batch @ rest) = Err x))
    (read_to (ro_decoder ops) (ro_direct ops) ck format (selected_specs format selection) s (es @ batch))
    (read_batch_columns ops format selection ck cancel batch st)"
proof -
  let ?rec = "entry_records (ro_decoder ops) (ro_direct ops) ck s"
  let ?chunk = "\<lambda>(bytes, n). chunk_records (ro_decoder ops) (ro_direct ops) ck bytes n"
  let ?specs = "selected_specs format selection"
  let ?E = "\<lambda>err. cancels cancel err \<or> (\<exists>x. map_res ?rec (es @ batch @ rest) = Err x)"
  obtain columns accepted polls t where st_eq: "st = (columns, accepted, polls, t)" by (cases st)
  obtain recs where same: "same_stream s t" and recs: "map_res ?rec es = Ok recs"
    and cols: "columns = columns_of format ?specs (concat recs)" "accepted = length (concat recs)"
    using st by (auto simp: st_eq read_to_def)
  have err: "?E err" if "map_res ?rec batch = Err x" for x err using that recs by (simp add: map_res_append)
  show ?thesis
    unfolding st_eq read_batch_columns_def prod.case
  proof (rule res_spec_bind [where P = "\<lambda>_. True"])
    show "res_spec ?E (\<lambda>_. True) (opt_check cancel polls)"
      by (rule res_spec_mono [OF opt_check_spec]) simp_all
  next
    fix polls'
    show "res_spec ?E (read_to (ro_decoder ops) (ro_direct ops) ck format ?specs s (es @ batch))
      (bind_res (fold_res read_batch_entry batch ([], t)) (\<lambda>(batch_bytes, s).
       let decoded = map (decode_task ops format selection ck) batch_bytes in
       bind_res (fold_res merge_result decoded (columns, accepted)) (\<lambda>(columns, accepted_points).
       Ok (columns, accepted_points, polls', s))))"
    proof (rule res_spec_bind)
      show "res_spec ?E (\<lambda>(bs, t'). same_stream s t' \<and> map ?chunk bs = map ?rec batch) (fold_res read_batch_entry batch ([], t))"
        by (rule res_spec_mono [OF read_batch_spec [OF same]]) (use err in auto)
    next
      fix y assume y: "case y of (bs, t') \<Rightarrow> same_stream s t' \<and> map ?chunk bs = map ?rec batch"
      obtain bs t' where y': "y = (bs, t')" by (cases y)
      let ?task = "\<lambda>r. bind_res r (\<lambda>recs. Ok (columns_of format ?specs recs, length recs))"
      have "map (decode_task ops format selection ck) bs = map ?task (map ?chunk bs)"
        by (simp add: decode_task_exact [OF ck] split: prod.split)
      moreover have "map ?chunk bs = map ?rec batch" using y unfolding y' prod.case by blast
      ultimately have tasks: "map (decode_task ops format selection ck) bs = map ?task (map ?rec batch)" by (simp only:)
      note m = merge_results_spec [OF selected_specs_of_format, of "map ?rec batch" format selection "concat recs",
          folded cols]
      show "res_spec ?E (read_to (ro_decoder ops) (ro_direct ops) ck format ?specs s (es @ batch))
        (case y of (batch_bytes, s) \<Rightarrow>
          let decoded = map (decode_task ops format selection ck) batch_bytes in
          bind_res (fold_res merge_result decoded (columns, accepted)) (\<lambda>(columns, accepted_points).
          Ok (columns, accepted_points, polls', s)))"
        unfolding y' prod.case Let_def tasks
        using m y [unfolded y' prod.case] recs err cols(2)
        by (cases "fold_res merge_result (map ?task (map ?rec batch)) (columns, accepted)")
          (auto simp: map_res_id_map map_res_append read_to_def)
    qed
  qed
qed

lemma read_batches_spec:
  assumes ck: "decoder_for format ck" and n: "0 < n"
  shows "res_spec (\<lambda>err. cancels cancel err \<or> (\<exists>x. map_res (entry_records (ro_decoder ops) (ro_direct ops) ck s) es = Err x))
    (read_to (ro_decoder ops) (ro_direct ops) ck format (selected_specs format selection) s es)
    (fold_res (read_batch_columns ops format selection ck cancel) (slice_chunks n es)
      (columns_of format (selected_specs format selection) [], 0, polls, s))"
proof -
  let ?to = "read_to (ro_decoder ops) (ro_direct ops) ck format (selected_specs format selection) s"
  have "res_spec (\<lambda>err. cancels cancel err \<or> (\<exists>x. map_res (entry_records (ro_decoder ops) (ro_direct ops) ck s) es = Err x))
    (?to (concat (slice_chunks n es))) (fold_res (read_batch_columns ops format selection ck cancel) (slice_chunks n es)
      (columns_of format (selected_specs format selection) [], 0, polls, s))"
  proof (rule res_spec_fold [where I = "\<lambda>bs. ?to (concat bs)"])
    fix bs b rest u assume bs: "slice_chunks n es = bs @ b # rest" and u: "?to (concat bs) u"
    have "es = concat bs @ b @ concat rest" using concat_slice_chunks [OF n, of es] by (simp add: bs)
    then show "res_spec (\<lambda>err. cancels cancel err \<or> (\<exists>x. map_res (entry_records (ro_decoder ops) (ro_direct ops) ck s) es = Err x))
        (?to (concat (bs @ [b]))) (read_batch_columns ops format selection ck cancel b u)"
      using read_batch_columns_spec [OF ck u, of cancel b "concat rest"] by simp
  qed (simp add: read_to_def)
  then show ?thesis by (simp add: concat_slice_chunks [OF n])
qed


text \<open>C40: the parallel column read: whatever the number of threads, it returns exactly the batch that
  the sequential read returns without cancellation; and it fails only with the error of the
  cancellation, or where the sequential read fails.\<close>

theorem parallel_columns_equal:
  assumes laws: "format_laws (ro_format_new ops) (ro_format_len ops)"
    and ok: "hierarchy_ok len r (hierarchy_walk cf) n"
  shows "case read_columns_parallel ops cf q selection cancel threads polls s of
      Inl e \<Rightarrow> cancels cancel e \<or> (\<exists>e. read_columns_inner ops cf q selection None polls s = Err e)
    | Inr (batch, _) \<Rightarrow> \<exists>p t. read_columns_inner ops cf q selection None polls s = Ok (batch, p, t)"
  using laws ok
proof (cases rule: column_setup_cases [where q = q and selection = selection])
  case (fails e)
  then show ?thesis by (simp add: read_columns_parallel_def read_columns_inner_def)
next
  case (reads chunks format ck)
  let ?m = "map_res (entry_records (ro_decoder ops) (ro_direct ops) ck s) chunks"
  let ?start = "(columns_of format (selected_specs format selection) [], 0, polls, s)"
  let ?to = "read_to (ro_decoder ops) (ro_direct ops) ck format (selected_specs format selection) s chunks"
  let ?p = "fold_res (read_batch_columns ops format selection ck cancel) (slice_chunks (max threads 1 * 2) chunks) ?start"
  let ?f = "fold_res (read_chunk_columns (ro_decoder ops) (ro_direct ops) ck None) chunks ?start"
  have p: "res_spec (\<lambda>err. cancels cancel err \<or> (\<exists>x. ?m = Err x)) ?to ?p"
    by (rule read_batches_spec [OF reads(2)]) simp
  have f: "res_spec (\<lambda>err. cancels None err \<or> ?m = Err err) ?to ?f"
    by (rule read_chunks_spec [OF reads(2) selected_specs_of_format])
  have par: "read_columns_parallel ops cf q selection cancel threads polls s = bind_res ?p finish_batch"
    and inner: "read_columns_inner ops cf q selection None polls s = bind_res ?f finish_batch"
    by (simp_all add: read_columns_parallel_def read_columns_inner_def reads(1) Let_def)
  show ?thesis
  proof (cases ?m)
    case (Inl x)
    have "\<not> ?to st" for st using Inl by (cases st) (simp add: read_to_def)
    then show ?thesis using p f Inl by (cases ?p; cases ?f) (simp_all add: par inner)
  next
    case (Inr recs)
    obtain st where st: "?f = Ok st" "?to st" using f Inr by (cases ?f) auto
    note fin = finish_batch_read(1) [OF _ reads(2) Inr]
    show ?thesis
    proof (cases ?p)
      case (Inl e)
      then show ?thesis using p Inr by (simp add: par)
    next
      case (Inr st')
      then show ?thesis using fin [OF st(2)] fin [of selection st'] p unfolding par inner st(1) Inr by auto
    qed
  qed
qed

theorem parallel_columns_equal_witness:
  "case read_columns_parallel sample_ops sample_file query_all sample_selection None 8 0 (section_new 0 [0]) of
     Inl e \<Rightarrow> \<exists>e. read_columns_inner sample_ops sample_file query_all sample_selection None 0 (section_new 0 [0]) = Err e
   | Inr (batch, _) \<Rightarrow> \<exists>p t. read_columns_inner sample_ops sample_file query_all sample_selection None 0 (section_new 0 [0]) = Ok (batch, p, t)"
  using parallel_columns_equal [OF sample_format_len sample_file_ok, where q = query_all
      and selection = sample_selection and cancel = None and threads = 8 and polls = 0 and s = "section_new 0 [0]"]
  by (auto split: sum.splits)

end
