(* ===== verification/Write_Points.thy ===== *)
theory Write_Points
  imports Write_Read
begin

text \<open>
  The points of a written file: a read of everything gives the encoded record of every source point
  exactly once, when the decompressor inverts the compressor.
\<close>

section \<open>Records and chunks\<close>

lemma map_res_mset:
  assumes "map_res f xs = Ok ys" "mset xs' = mset xs"
  shows "\<exists>ys'. map_res f xs' = Ok ys' \<and> mset ys' = mset ys"
proof -
  have each: "\<exists>y. f x = Ok y" if "x \<in> set xs" for x
    using assms(1) that by (auto simp: map_res_Ok_iff list_all2_conv_all_nth in_set_conv_nth)
  define g where "g x = (case f x of Inr y \<Rightarrow> y)" for x
  have g: "f x = Ok (g x)" if "x \<in> set xs" for x using each [OF that] by (auto simp: g_def)
  have m: "map_res f zs = Ok (map g zs)" if "set zs \<subseteq> set xs" for zs
    using that g by (induction zs) simp_all
  have "set xs' \<subseteq> set xs" using assms(2) mset_eq_setD by blast
  then have "map_res f xs' = Ok (map g xs')" by (rule m)
  moreover have "ys = map g xs" using m [of xs] assms(1) by simp
  ultimately show ?thesis using assms(2) by simp
qed

lemma concat_blocks_eq:
  assumes "concat xs = concat ys" "list_all (\<lambda>x. length x = n) xs" "list_all (\<lambda>y. length y = n) ys" "0 < n"
  shows "xs = ys"
  using assms(1-3)
proof (induction xs arbitrary: ys)
  case Nil
  then show ?case using assms(4) by (cases ys) auto
next
  case (Cons x xs)
  then show ?case using assms(4) by (cases ys) auto
qed

text \<open>
  The documented behaviour of the LAZ decompressor: it can be set up for the records of the VLR, and the chunk
  that the compressor made of some records gives those records, one after the other.
\<close>

definition decodes :: "('laz, 'd, bsection) laz_decoder \<Rightarrow> ('v, 'z) laz_lib \<Rightarrow> 'v \<Rightarrow> 'laz \<Rightarrow> nat \<Rightarrow> bool" where
  "decodes dz lib v laz rl \<longleftrightarrow>
     (\<exists>d. dz_set_fields dz laz (dz_new dz) = Inr d \<and> dz_record_size dz d = rl \<and>
        (\<forall>raw chunk. raw_ok rl raw \<longrightarrow> compress_standalone_chunk lib v raw = Ok chunk \<longrightarrow>
           (\<exists>bufs d' r'. run_records dz rl (length raw div rl) d (section_new 0 chunk) = Ok (bufs, d', r') \<and> concat bufs = raw)))"

lemma encoded_points_blocks:
  assumes w: "writer_format format" and ok: "encoded_points src scale offset format is = Ok raw"
  shows "\<exists>bss. map_res (encoded_point src scale offset format) is = Ok bss \<and> raw = concat bss \<and>
    list_all (\<lambda>b. length b = record_length format) bss"
proof -
  obtain bss where b: "map_res (encoded_point src scale offset format) is = Ok bss" "raw = concat bss"
    using ok by (auto simp: encoded_points_def bind_res_Ok_iff)
  have len: "length b = record_length format" if "encoded_point src scale offset format i = Ok b" for i b
  proof -
    from that obtain x where "encode_point_record x scale offset format (replicate (record_length format) 0) = Ok b"
      by (auto simp: encoded_point_def bind_res_Ok_iff)
    then show ?thesis by (rule encoded_length [OF w])
  qed
  have "list_all (\<lambda>b. length b = record_length format) bss"
    using b(1) unfolding map_res_Ok_iff by (induction rule: list_all2_induct) (use len in auto)
  then show ?thesis using b by blast
qed

lemma chunk_records_written:
  assumes w: "writer_format format" and dec: "decodes dz lib v laz (record_length format)"
    and n: "node_in_order order n" and ch: "node_chunk lib v order src scale offset format n = Ok chunk"
    and ck: "ck_laz_vlr ck = laz" "ck_record_size ck = record_length format" "ck_bounds ck = None"
  shows "\<exists>recs. chunk_records dz direct ck chunk (ln_count n) = Ok recs \<and>
    map_res (encoded_point src scale offset format) (node_indexes order n) = Ok (map fst recs)"
proof -
  let ?rl = "record_length format"
  obtain raw where raw: "encoded_points src scale offset format (node_indexes order n) = Ok raw"
    "compress_standalone_chunk lib v raw = Ok chunk" using ch by (auto simp: node_chunk_Ok_iff)
  obtain bss where b: "map_res (encoded_point src scale offset format) (node_indexes order n) = Ok bss" "raw = concat bss"
    "list_all (\<lambda>b. length b = ?rl) bss" using encoded_points_blocks [OF w raw(1)] by blast
  have rl: "0 < ?rl" by (simp add: record_length_def)
  have len: "length raw = ln_count n * ?rl" using encoded_points_length [OF w raw(1)] by (simp add: node_indexes_def)
  have rok: "raw_ok ?rl raw" by (rule node_raw_ok [OF n len])
  have count: "length raw div ?rl = ln_count n" using len rl by simp
  from dec obtain d where d: "dz_set_fields dz laz (dz_new dz) = Inr d" "dz_record_size dz d = ?rl"
    and law: "\<And>raw chunk. raw_ok ?rl raw \<Longrightarrow> compress_standalone_chunk lib v raw = Ok chunk \<Longrightarrow>
      \<exists>bufs d' r'. run_records dz ?rl (length raw div ?rl) d (section_new 0 chunk) = Ok (bufs, d', r') \<and> concat bufs = raw"
    unfolding decodes_def by blast
  from law [OF rok raw(2), unfolded count] obtain bufs d' r' where
    run: "run_records dz ?rl (ln_count n) d (section_new 0 chunk) = Ok (bufs, d', r')" "concat bufs = raw" by blast
  have "bufs = bss"
    using concat_blocks_eq [of bufs bss ?rl] run(2) b(2,3) run_records_length [OF run(1)] rl by simp
  moreover have "accepted_records direct t None bufs = map (locate direct t) bufs" for t
    by (simp add: accepted_records_def outside_def)
  moreover have "map fst (map (locate direct t) bs) = bs" for t bs by (induction bs) (simp_all add: locate_def)
  ultimately show ?thesis
    using d rl run(1) b(1) by (simp add: chunk_records_def ck configure_layered_decompressor_def Let_def)
qed

section \<open>Reading a written file\<close>

lemma read_written_chunk:
  assumes "has_point_data e" "bslice f (entry_lo e) (nat (sint (e_byte_size e))) = chunk"
    and "0 \<le> sint (e_byte_size e)" "entry_hi e \<le> length f"
  shows "\<exists>q. read_chunk_bytes e (fcur f p) = Ok ((chunk, entry_points e), fcur f q)"
proof -
  have "0 \<le> sint (e_point_count e)" using assms(1) by (simp add: has_point_data_def)
  moreover from this have "nat (sint (e_point_count e)) = entry_points e"
    using assms(1) unat_of_pos [of "e_point_count e"] by (simp add: entry_points_def has_point_data_def)
  ultimately show ?thesis
    using assms(2-4) fcur_exact [of "nat (sint (e_byte_size e))" "unat (e_offset e)" f]
    by (auto simp: read_chunk_bytes_def usize_try_from_i32_def rbind_def rlift_def rret_def entry_lo_def entry_hi_def)
qed

lemma written_format:
  assumes laws: "las_laws lib" and plan: "plan_format lib plan src" "unat (wp_record_length plan) = record_length (wp_format plan)"
  shows "point_format_for (ll_format_new lib) (ll_format_len lib) (las_header_of_out (final_header plan e)) = Ok (wp_format plan)"
    and "unat (ll_format_len lib (wp_format plan)) = record_length (wp_format plan)"
proof -
  from plan(1) obtain i fmt where i: "i = 6 \<or> i = 7" and fmt: "ll_format_new lib i = Inr fmt"
    and h: "oh_point_data_format (wp_header plan) = i OR 0x80" "oh_point_record_length (wp_header plan) = wp_record_length plan"
    and f: "wp_format plan = fmt\<lparr>lf_extra_bytes := ps_extra_byte_count src\<rparr>"
    and len: "checked_add (ll_format_len lib fmt) (ps_extra_byte_count src) = Some (wp_record_length plan)"
    by (auto simp: plan_format_def)
  have rl: "wp_record_length plan = ll_format_len lib fmt + ps_extra_byte_count src"
    using len by (auto simp: checked_add_def split: if_splits)
  have "unat (wp_record_length plan) = unat (ll_format_len lib fmt) + unat (ps_extra_byte_count src)"
    using len unfolding checked_add_Some_iff by simp
  then have "\<not> wp_record_length plan < ll_format_len lib fmt" by (simp add: word_less_nat_alt)
  moreover have id: "(i OR 0x80) AND 0x3F = i" using i by auto
  moreover have x: "gps_extended fmt" using format_lawsD(1) [of "ll_format_new lib" "ll_format_len lib" i fmt] laws fmt i
    by (auto simp: las_laws_def)
  ultimately show "point_format_for (ll_format_new lib) (ll_format_len lib) (las_header_of_out (final_header plan e)) = Ok (wp_format plan)"
    using i fmt by (auto simp: point_format_for_def las_header_of_out_def final_header_def h id Let_def f rl)
  have "record_length (wp_format plan) < 2 ^ 16" using plan(2) unat_bound [of "wp_record_length plan"] by simp
  then show "unat (ll_format_len lib (wp_format plan)) = record_length (wp_format plan)"
    using laws x by (simp add: las_laws_def format_laws_def f)
qed

lemma written_decoder:
  assumes "writer_format format" "decodes dz lib v laz (record_length format)" "unat (format_len format) = record_length format"
  shows "\<exists>ck. chunk_column_decoder_new dz format_len laz format t b = Ok ck"
  using assms
  by (auto simp: chunk_column_decoder_new_def layout_for_format_eq writer_format_def validated_record_size_def
      configure_layered_decompressor_def decodes_def Let_def record_length_def)

text \<open>A query for everything selects every entry with points.\<close>

lemma select_all:
  assumes ok: "hierarchy_ok len r (hierarchy_walk cf) n"
    and levels: "\<forall>e \<in> set (filter has_point_data (hierarchy_walk cf)). sint (vk_level (e_key e)) \<le> 30"
  shows "\<exists>chunks. select_point_chunks log2 cf query_all = Ok chunks \<and>
    mset chunks = mset (filter has_point_data (hierarchy_walk cf))"
proof -
  note v = open_entries_valid [OF ok]
  have max: "sint i32_max = 2147483647" by (simp add: i32_max_def)
  have "filter (wanted (cf_copc_info cf) (0, i32_max) Bounds_All) (hierarchy_walk cf) = filter has_point_data (hierarchy_walk cf)"
    by (rule filter_cong)
      (use v levels in \<open>auto simp: wanted_def levels_contain_def box_meets_def max list_all_iff entry_validate_Ok_iff vk_validate_Ok_iff\<close>)
  then show ?thesis
    unfolding select_point_chunks_def hierarchy_walk_def [symmetric] select_valid [OF v]
    by (simp add: query_all_def validate_query_def level_range_def)
qed

text \<open>The chunks of the nodes, read back one after the other.\<close>

definition gives_back ::
  "(entry \<Rightarrow> point_rec list result) \<Rightarrow> (u32 \<Rightarrow> u8 list result) \<Rightarrow> u8 list \<Rightarrow> entry \<Rightarrow> lod_node \<Rightarrow> bool" where
  "gives_back rd enc order e n \<longleftrightarrow>
     (\<exists>recs. rd e = Ok recs \<and> map_res enc (node_indexes order n) = Ok (map fst recs))"

lemma gives_back_all:
  assumes "list_all2 (gives_back rd enc order) es nodes"
  shows "\<exists>recss. map_res rd es = Ok recss \<and>
    map_res enc (concat (map (node_indexes order) nodes)) = Ok (map fst (concat recss))"
  using assms
proof (induction rule: list_all2_induct)
  case (Cons e es n nodes)
  then obtain recss recs where "map_res rd es = Ok recss" "rd e = Ok recs"
    "map_res enc (concat (map (node_indexes order) nodes)) = Ok (map fst (concat recss))"
    "map_res enc (node_indexes order n) = Ok (map fst recs)" by (auto simp: gives_back_def)
  then show ?case by (auto simp: map_res_append_Ok_iff)
qed simp

lemma shown_entries:
  assumes sh: "shows_plan f plan chunks laz cf" and nodes: "list_all (\<lambda>n. 0 < ln_count n) (wp_nodes plan)"
  shows "filter has_point_data (hierarchy_walk cf) = filter (\<lambda>x. \<not> is_child_page x) (hierarchy_walk cf)"
proof (rule filter_cong [OF refl])
  fix e assume e: "e \<in> set (hierarchy_walk cf)"
  let ?es = "filter (\<lambda>x. \<not> is_child_page x) (hierarchy_walk cf)"
  have "map entry_points ?es = map ln_count (wp_nodes plan)" using sh by (simp add: shows_plan_def Let_def)
  then have "entry_points ` set ?es = ln_count ` set (wp_nodes plan)" by (metis set_map)
  then have "0 < entry_points e" if "\<not> is_child_page e"
    using e that nodes by (force simp: list_all_iff)
  then show "has_point_data e = (\<not> is_child_page e)"
    by (auto simp: entry_points_def has_point_data_def is_child_page_def split: if_splits)
qed

lemma entries_give_back:
  assumes w: "writer_format (wp_format plan)" and nodes: "list_all (node_in_order (wp_order plan)) (wp_nodes plan)"
    and ch: "chunks_of lib plan src = Ok chunks" and sh: "shows_plan f plan chunks laz cf"
    and ok: "hierarchy_ok (length f) r (hierarchy_walk cf) n"
    and dec: "decodes dz lib (wp_var_vlr plan) laz (record_length (wp_format plan))"
    and ck: "ck_laz_vlr ck = laz" "ck_record_size ck = record_length (wp_format plan)" "ck_bounds ck = None"
  shows "list_all2 (gives_back (entry_records dz direct ck (fcur f p))
      (encoded_point src (wp_scale plan) (wp_offset plan) (wp_format plan)) (wp_order plan))
    (filter has_point_data (hierarchy_walk cf)) (wp_nodes plan)"
proof -
  let ?nodes = "wp_nodes plan" and ?es = "filter has_point_data (hierarchy_walk cf)"
  have pos: "list_all (\<lambda>n. 0 < ln_count n) ?nodes" using nodes by (simp add: list_all_iff node_in_order_def)
  note es = sh [unfolded shows_plan_def Let_def, folded shown_entries [OF sh pos]]
  have counts: "map entry_points ?es = map ln_count ?nodes"
    and bytes: "list_all2 (\<lambda>e chunk. bslice f (entry_lo e) (nat (sint (e_byte_size e))) = chunk) ?es chunks"
    using es by blast+
  have chs: "list_all2 (\<lambda>n chunk. node_chunk lib (wp_var_vlr plan) (wp_order plan) src (wp_scale plan) (wp_offset plan)
      (wp_format plan) n = Ok chunk) ?nodes chunks"
    using ch by (simp add: chunks_of_def map_res_Ok_iff)
  have len: "length ?es = length ?nodes" using arg_cong [OF counts, of length] by simp
  show ?thesis
    unfolding list_all2_conv_all_nth
  proof (intro conjI allI impI len)
    fix i assume i: "i < length ?es"
    let ?e = "?es ! i" and ?n = "?nodes ! i"
    have e: "has_point_data ?e" "?e \<in> set (hierarchy_walk cf)" using nth_mem [OF i] by auto
    then have v: "validate_hierarchy_entry ?e (length f) r = Ok ()" using ok by (simp add: hierarchy_ok_def list_all_iff)
    then have hi: "entry_hi ?e \<le> length f" "0 \<le> sint (e_byte_size ?e)"
      using e(1) point_size_pos [of ?e] by (auto simp: validate_hierarchy_entry_Ok_iff)
    have c: "entry_points ?e = ln_count ?n" using arg_cong [OF counts, of "\<lambda>xs. xs ! i"] i len by simp
    have b: "bslice f (entry_lo ?e) (nat (sint (e_byte_size ?e))) = chunks ! i"
      using bytes i by (simp add: list_all2_conv_all_nth)
    have nc: "node_chunk lib (wp_var_vlr plan) (wp_order plan) src (wp_scale plan) (wp_offset plan) (wp_format plan) ?n = Ok (chunks ! i)"
      using chs i len by (simp add: list_all2_conv_all_nth)
    have n: "node_in_order (wp_order plan) ?n" using nodes i len by (simp add: list_all_length)
    obtain recs where recs: "chunk_records dz direct ck (chunks ! i) (ln_count ?n) = Ok recs"
      "map_res (encoded_point src (wp_scale plan) (wp_offset plan) (wp_format plan)) (node_indexes (wp_order plan) ?n) = Ok (map fst recs)"
      using chunk_records_written [OF w dec n nc ck] by blast
    obtain q where "read_chunk_bytes ?e (fcur f p) = Ok ((chunks ! i, entry_points ?e), fcur f q)"
      using read_written_chunk [OF e(1) b hi(2,1)] by blast
    then show "gives_back (entry_records dz direct ck (fcur f p))
        (encoded_point src (wp_scale plan) (wp_offset plan) (wp_format plan)) (wp_order plan) ?e ?n"
      using recs by (simp add: gives_back_def entry_records_def c)
  qed
qed

text \<open>The records of the whole file.\<close>

lemma written_records:
  assumes laws: "las_laws lib" and plan: "plan_sound plan src max_points m" "plan_format lib plan src"
    and ps: "0 < ps_len src" "ps_len src < 2 ^ 64"
    and ch: "chunks_of lib plan src = Ok chunks" and cf: "from_reader laz_read (fcur f 0) = Ok (cf, t)"
    and sh: "shows_plan f plan chunks laz cf"
    and ops: "ro_format_new ops = ll_format_new lib" "ro_format_len ops = ll_format_len lib"
      "decodes (ro_decoder ops) lib (wp_var_vlr plan) laz (record_length (wp_format plan))"
  shows "\<exists>recs encoded. read_points ops cf query_all (fcur f p) = Ok (wp_format plan, recs) \<and>
    map_res (encoded_point src (wp_scale plan) (wp_offset plan) (wp_format plan)) (map of_nat [0..<ps_len src]) = Ok encoded \<and>
    mset (map fst recs) = mset encoded"
proof -
  let ?enc = "encoded_point src (wp_scale plan) (wp_offset plan) (wp_format plan)"
  have sound: "writer_format (wp_format plan)" "unat (wp_record_length plan) = record_length (wp_format plan)"
    "index_nodes_ok src max_points (wp_nodes plan) (wp_order plan)"
    using plan(1) by (simp_all add: plan_sound_def)
  note nd = plan_nodes [OF sound(3) ps]
  obtain r where ok: "hierarchy_ok (length f) r (hierarchy_walk cf) (lh_number_of_points (cf_header cf))"
    using from_reader_hierarchy [OF cf] by blast
  obtain e where hd: "cf_header cf = las_header_of_out (final_header plan e)" and lz: "cf_laszip_vlr cf = laz"
    using sh by (auto simp: shows_plan_def)
  note fmt = written_format [OF laws plan(2) sound(2), folded ops(1,2)]
  obtain ck where ck: "chunk_column_decoder_new (ro_decoder ops) (ro_format_len ops) laz (wp_format plan)
      (transforms_for (cf_header cf)) None = Ok ck"
    using written_decoder [where format = "wp_format plan" and dz = "ro_decoder ops" and lib = lib and v = "wp_var_vlr plan" and laz = laz and format_len = "ro_format_len ops", OF sound(1) ops(3) fmt(2)] by blast
  note dc = decoder_new [OF ck fmt(2)]
  have ck': "ck_laz_vlr ck = laz" "ck_record_size ck = record_length (wp_format plan)" "ck_bounds ck = None"
    using dc by (simp_all add: decoder_for_def)
  let ?rd = "entry_records (ro_decoder ops) (ro_direct ops) ck (fcur f p)"
  let ?es = "filter has_point_data (hierarchy_walk cf)"
  from gives_back_all [OF entries_give_back [OF sound(1) nd(2) ch sh ok ops(3) ck']] obtain recss where
    recss: "map_res ?rd ?es = Ok recss" "map_res ?enc (concat (map (node_indexes (wp_order plan)) (wp_nodes plan))) = Ok (map fst (concat recss))"
    by blast
  have keys: "map e_key ?es = map ln_key (wp_nodes plan)"
    unfolding shown_entries [OF sh nd(5)] using sh by (simp add: shows_plan_def Let_def)
  have "e_key ` set ?es = ln_key ` set (wp_nodes plan)" using arg_cong [OF keys, of set] by (simp only: set_map)
  then have "\<exists>n \<in> set (wp_nodes plan). e_key x = ln_key n" if "x \<in> set ?es" for x using that by blast
  then have lv: "\<forall>x \<in> set ?es. sint (vk_level (e_key x)) \<le> 30" using nd(6) unfolding list_all_iff by force
  from select_all [OF ok lv] obtain sel where sel: "select_point_chunks (ro_log2 ops) cf query_all = Ok sel" "mset sel = mset ?es"
    by blast
  from map_res_mset [OF recss(1) sel(2)] obtain recss' where recss': "map_res ?rd sel = Ok recss'" "mset recss' = mset recss"
    by blast
  have "mset (concat xss) = sum_mset (image_mset mset (mset xss))" for xss :: "point_rec list list"
    by (induction xss) simp_all
  then have recs: "mset (concat recss') = mset (concat recss)" using recss'(2) by simp
  have idx: "mset (map of_nat [0..<ps_len src]) = mset (concat (map (node_indexes (wp_order plan)) (wp_nodes plan)))"
    using sound(3) by (simp only: index_nodes_ok_def)
  from map_res_mset [OF recss(2) idx] obtain encoded where
    encoded: "map_res ?enc (map of_nat [0..<ps_len src]) = Ok encoded" "mset encoded = mset (map fst (concat recss))" by blast
  have "read_points ops cf query_all (fcur f p) = Ok (wp_format plan, concat recss')"
    unfolding read_points_def sel(1) bind_res_simps hd fmt(1) lz using ck recss'(1)
    by (simp add: query_all_def selection_bounds_def hd)
  then show ?thesis using encoded recs by (metis mset_map)
qed

text \<open>What a column read makes of the records, without cancellation.\<close>

lemma columns_of_records:
  assumes laws: "format_laws (ro_format_new ops) (ro_format_len ops)"
    and cf: "from_reader laz_read (fcur f 0) = Ok (cf, t)" and recs: "read_points ops cf query_all s = Ok (format, recs)"
  shows "\<exists>rest. read_columns_inner ops cf query_all selection None polls s =
    Ok (\<lparr>lb_len = length recs, lb_columns = columns_of format (selected_specs format selection) recs\<rparr>, rest)"
proof -
  obtain len r n where ok: "hierarchy_ok len r (hierarchy_walk cf) n" using from_reader_hierarchy [OF cf] by blast
  show ?thesis
    using read_columns_spec [OF laws ok, where q = query_all and selection = selection and cancel = None and polls = polls and s = s] recs
    by (auto split: sum.splits prod.splits)
qed

section \<open>Properties\<close>

text \<open>
  C1: What is written is read back. When the decompressor inverts the compressor and the reader knows the same
  point formats, a file that \<^verbatim>\<open>write_copc_inner\<close> wrote is opened by \<^verbatim>\<open>CopcFile::from_reader\<close>, and a read of
  all points succeeds and gives the encoded record of every point of the source exactly once. A column
  read of any selection returns, for each selected dimension, one value per point, taken from those records.
\<close>

theorem written_points_read:
  assumes "write_prepare lib src has_color b max_points c polls m stats = Ok plan"
    and "write_body compress plan src c m = Ok f"
    and "writer_compress lib (wp_var_vlr plan) (record_length (wp_format plan)) compress"
    and "las_laws lib" "metadata_ok src m" "\<forall>s. stats = Some s \<longrightarrow> length (extended_return_counts s) = 15"
    and "0 < ps_len src" "ps_len src < 2 ^ 64"
    and "laz_read (wp_var_vlr_bytes plan) = Inr laz" "within_reader_limits lib plan src f"
    and "ro_format_new ops = ll_format_new lib" "ro_format_len ops = ll_format_len lib"
    and "decodes (ro_decoder ops) lib (wp_var_vlr plan) laz (record_length (wp_format plan))"
  shows "\<exists>cf t recs encoded rest. from_reader laz_read (fcur f 0) = Ok (cf, t) \<and>
    read_points ops cf query_all (fcur f p) = Ok (wp_format plan, recs) \<and>
    map_res (encoded_point src (wp_scale plan) (wp_offset plan) (wp_format plan)) (map of_nat [0..<ps_len src]) = Ok encoded \<and>
    mset (map fst recs) = mset encoded \<and>
    read_columns_inner ops cf query_all selection None n (fcur f p) =
      Ok (\<lparr>lb_len = ps_len src, lb_columns = columns_of (wp_format plan) (selected_specs (wp_format plan) selection) recs\<rparr>, rest)"
proof -
  have plan: "plan_sound plan src max_points m" "plan_format lib plan src" using write_prepare_sound [OF assms(1,4,5,6)] by blast+
  obtain chunks cf t where cf: "chunks_of lib plan src = Ok chunks" "from_reader laz_read (fcur f 0) = Ok (cf, t)"
    "shows_plan f plan chunks laz cf"
    using written_opens [OF assms(2) plan(1) assms(5,7,8,3), where laz_read = laz_read, OF assms(9,10)] by blast
  obtain recs encoded where r: "read_points ops cf query_all (fcur f p) = Ok (wp_format plan, recs)"
    "map_res (encoded_point src (wp_scale plan) (wp_offset plan) (wp_format plan)) (map of_nat [0..<ps_len src]) = Ok encoded"
    "mset (map fst recs) = mset encoded"
    using written_records [OF assms(4) plan assms(7,8) cf assms(11,12,13)] by blast
  have len: "length recs = ps_len src" using map_res_length [OF r(2)] mset_eq_length [OF r(3)] by simp
  have laws: "format_laws (ro_format_new ops) (ro_format_len ops)" using assms(4) by (simp add: las_laws_def assms(11,12))
  from columns_of_records [OF laws cf(2) r(1), of selection n, unfolded len] show ?thesis using cf(2) r by blast
qed

text \<open>A decompressor for stored records, and the read of the smallest file.\<close>

definition store_ops :: "(unit, unit) read_ops" where
  "store_ops = \<lparr>ro_log2 = (\<lambda>x. x), ro_format_new = ll_format_new las_store, ro_format_len = ll_format_len las_store,
     ro_direct = (\<lambda>_ _. 0),
     ro_decoder = \<lparr>dz_new = (), dz_set_fields = (\<lambda>_ _. Inr ()), dz_record_size = (\<lambda>_. 30), dz_reset = (\<lambda>_. ()),
       dz_next = (\<lambda>n _ r. Inr (\<lambda>i. sec_data r ! (sec_pos r + i), (), r\<lparr>sec_pos := sec_pos r + n\<rparr>))\<rparr>\<rparr>"

lemma store_run:
  assumes "30 * k \<le> length data"
  shows "\<exists>bufs. run_records (ro_decoder store_ops) 30 k () (section_new 0 data) = Ok (bufs, (), fcur data (30 * k)) \<and>
    concat bufs = take (30 * k) data"
  using assms
proof (induction k)
  case (Suc k)
  then obtain bufs where b: "run_records (ro_decoder store_ops) 30 k () (section_new 0 data) = Ok (bufs, (), fcur data (30 * k))"
    "concat bufs = take (30 * k) data" by auto
  have "map (\<lambda>i. data ! (30 * k + i)) [0..<30] = take 30 (drop (30 * k) data)"
    using Suc.prems by (intro nth_equalityI) simp_all
  then have "next_record (ro_decoder store_ops) 30 () (fcur data (30 * k)) =
      Ok (take 30 (drop (30 * k) data), (), fcur data (30 * Suc k))"
    by (simp add: next_record_def store_ops_def fcur_def del: upt_rec_numeral)
  moreover have "take (30 * Suc k) data = take (30 * k) data @ take 30 (drop (30 * k) data)"
    using take_add [of "30 * k" 30 data] by (simp add: add.commute)
  ultimately show ?case using b by simp
qed (simp add: section_is_fcur)

lemma store_decodes: "decodes (ro_decoder store_ops) las_store () () 30"
proof -
  have "\<exists>bufs d' r'. run_records (ro_decoder store_ops) 30 (length raw div 30) () (section_new 0 chunk) = Ok (bufs, d', r') \<and> concat bufs = raw"
    if "raw_ok 30 raw" "compress_standalone_chunk las_store () raw = Ok chunk" for raw chunk
  proof -
    have "chunk = raw" using standalone_chunk_law [OF las_store_laws that(1)] that(2) by simp
    moreover have "30 * (length raw div 30) = length raw" using that(1) by (simp add: raw_ok_def)
    ultimately show ?thesis using store_run [of "length raw div 30" raw] by auto
  qed
  then show ?thesis by (simp add: decodes_def) (simp add: store_ops_def)
qed

theorem written_points_read_witness:
  "\<exists>plan f cf t xyz rest.
    write_prepare las_store one_point_source False (bounds_point 0 0 0) 10 never_cancel 0 sample_metadata (Some sample_stats) = Ok plan \<and>
    write_body (compress_nodes las_store) plan one_point_source never_cancel sample_metadata = Ok f \<and>
    from_reader (\<lambda>_. Inr ()) (fcur f 0) = Ok (cf, t) \<and>
    read_points store_ops cf query_all (fcur f 0) =
      Ok (sample_las_format, [(point_bytes sample_las_format sample_fields (0, 0, 0), xyz)]) \<and>
    read_columns_inner store_ops cf query_all sample_selection None 0 (fcur f 0) = Ok rest \<and> lb_len (fst rest) = 1"
proof -
  obtain q where p: "write_prepare las_store one_point_source False (bounds_point 0 0 0) 10 never_cancel 0 sample_metadata
      (Some sample_stats) = Ok (sample_plan q)" using prepare0 by blast
  obtain f where f: "write_body (compress_nodes las_store) (sample_plan q) one_point_source never_cancel sample_metadata = Ok f"
    "length f = 789" using body0 by blast
  note s = sample_plan_written [OF f]
  have dec: "decodes (ro_decoder store_ops) las_store (wp_var_vlr (sample_plan q)) () (record_length (wp_format (sample_plan q)))"
    using store_decodes by (simp add: sample_plan_def sample_raw(2))
  have ops: "ro_format_new store_ops = ll_format_new las_store" "ro_format_len store_ops = ll_format_len las_store"
    by (simp_all add: store_ops_def)
  from written_points_read [OF p f(1) s(1-6) refl s(7) ops dec, of 0 sample_selection 0] obtain cf t recs encoded rest where
    r: "from_reader (\<lambda>_. Inr ()) (fcur f 0) = Ok (cf, t)"
    "read_points store_ops cf query_all (fcur f 0) = Ok (wp_format (sample_plan q), recs)"
    "map_res (encoded_point one_point_source (wp_scale (sample_plan q)) (wp_offset (sample_plan q)) (wp_format (sample_plan q)))
      (map of_nat [0..<ps_len one_point_source]) = Ok encoded"
    "mset (map fst recs) = mset encoded"
    "read_columns_inner store_ops cf query_all sample_selection None 0 (fcur f 0) =
      Ok (\<lparr>lb_len = ps_len one_point_source, lb_columns = columns_of (wp_format (sample_plan q))
        (selected_specs (wp_format (sample_plan q)) sample_selection) recs\<rparr>, rest)" by blast
  have len: "ps_len one_point_source = 1" by (simp add: one_point_source_def)
  have pl: "wp_format (sample_plan q) = sample_las_format" "wp_scale (sample_plan q) = (f64_one, f64_one, f64_one)"
    "wp_offset (sample_plan q) = (0, 0, 0)" by (simp_all add: sample_plan_def)
  have "u32_from_le (bslice [0, 0, 0, 0] 0 4) = 0" by (simp add: u32_from_le_def bslice_def)
  then have "encoded = [point_bytes sample_las_format sample_fields (0, 0, 0)]"
    using r(3) one_point_encoded unfolding pl len
    by (auto simp: encoded_points_def node_indexes_def one_point_node_def bind_res_Ok_iff)
  with r(4) have "map fst recs = [point_bytes sample_las_format sample_fields (0, 0, 0)]"
    by (simp only: mset.simps mset_single_iff add_mset_add_single [symmetric] flip: mset_map)
  then obtain xyz where "recs = [(point_bytes sample_las_format sample_fields (0, 0, 0), xyz)]"
    by (cases recs) auto
  then show ?thesis using p f(1) r(1,2,5) unfolding pl len by fastforce
qed

end
