(* ===== verification/Spec2Isabelle.thy ===== *)
theory Spec2Isabelle
  imports Bounds Copc_Info Hierarchy Hierarchy_Walk Pages_Read Streaming Lod_Index Spill Record_Codec Calendar Column_Source Write_Entry Stream_Chunks Point_Iter Range_Read Ranged_Local Parallel_Columns Write_Points
begin

text \<open>
  A verification development for the \<^verbatim>\<open>copc-rust\<close> workspace: \<^verbatim>\<open>copc-core\<close> (shared types and byte formats),
  \<^verbatim>\<open>copc-reader\<close> (opening and querying COPC files, locally and by byte ranges) and \<^verbatim>\<open>copc-writer\<close> (building a
  COPC file from points). A COPC file is a LAS 1.4 file whose points are compressed in independent
  chunks, one per node of an octree; a hierarchy of pages at the end of the file maps octree keys to
  chunks.

  The program. A write validates the points and sums them up, builds the octree over index files,
  writes the LAS header and VLRs, one LAZ chunk per node, the hierarchy pages, and patches the header;
  the file appears under its name only when it is complete. Points arrive as a source: a streaming
  write spills them to a file of fixed-width records first, a column batch is a source itself. A read
  parses the header and VLRs, walks the pages into a map of entries, selects the entries of a query
  and decompresses their chunks, into columns or one point at a time. The range reader does the same
  lazily over byte-range requests.

  Library and core.
  \<^item> \<open>Prelude\<close>: \<^verbatim>\<open>error.rs\<close>, results (\<open>Inl\<close> is the error) and their combinators, integers at their width,
    little-endian codes, slices. \<open>Codec\<close>: the locale of a fixed-width record code, interpreted on spill
    records (\<open>Streaming\<close>), hierarchy entries (\<open>Hierarchy\<close>) and point indexes (\<open>Lod_Spec\<close>).
  \<^item> \<open>Floats\<close>: IEEE 754 arithmetic on bit patterns, computing with rational numbers; \<open>Bounds\<close>: \<^verbatim>\<open>bounds.rs\<close>.
  \<^item> \<open>Hierarchy\<close>: \<^verbatim>\<open>hierarchy.rs\<close> (keys, entries, pages); \<open>Copc_Info\<close>: \<^verbatim>\<open>info.rs\<close>; \<open>Columns\<close>: \<^verbatim>\<open>columns.rs\<close>;
    \<open>Streaming\<close>: \<^verbatim>\<open>streaming.rs\<close>; \<open>Las_Types\<close>: the data types of the \<^verbatim>\<open>las\<close> crate; \<open>Key_Tree\<close>: the octree order
    of keys; \<open>Stream_IO\<close>: \<^verbatim>\<open>SectionReader\<close> of \<^verbatim>\<open>ranged.rs\<close> and the parser combinators.

  Writer (\<^verbatim>\<open>copc-writer/src\<close>).
  \<^item> \<open>Point_Source\<close> (\<^verbatim>\<open>source.rs\<close>, \<^verbatim>\<open>cancel.rs\<close>), \<open>Validate\<close> (\<^verbatim>\<open>validate.rs\<close>), \<open>Spill\<close> (\<^verbatim>\<open>spill.rs\<close>), \<open>Column_Source\<close>
    (\<^verbatim>\<open>ColumnBatchSource\<close>): what is written. A point that is accepted is encoded without saturation, the
    statistics are those of the points, spilled records come back at their index.
  \<^item> \<open>Lod\<close> (\<^verbatim>\<open>lod.rs\<close>), with the specification \<open>Lod_Spec\<close>, the refinement \<open>Lod_Tree\<close> and its consequences
    \<open>Lod_Index\<close>: every point is in exactly one node, in the box of its key; the parents of a node are
    full nodes; the errors that can occur, and when none does.
  \<^item> \<open>Metadata\<close> (\<^verbatim>\<open>metadata.rs\<close>) and \<open>Calendar\<close>: what a conversion keeps, and the date.
  \<^item> \<open>Las_Out\<close> (\<^verbatim>\<open>las_out.rs\<close>): what is written is read back by \<open>Las_Reader\<close>. \<open>Pages\<close> (\<^verbatim>\<open>hierarchy_pages.rs\<close>) and
    \<open>Pages_Read\<close>: the planned pages hold every entry once, and the reader's walk finds exactly those.
  \<^item> \<open>Point_Record\<close> (\<^verbatim>\<open>encode_point_record\<close>), \<open>Writer\<close> and \<open>Write_Entry\<close> (\<^verbatim>\<open>writer.rs\<close>); \<open>Chunk_Layout\<close> and
    \<open>Stream_Chunks\<close>: the layout of the point data, and that both \<^verbatim>\<open>compress_nodes\<close> write the same file.
    \<open>Write_File\<close> and \<open>Write_Read\<close>: the layout of a whole file, and that the reader opens it with the header,
    the octree and the chunks that were written. \<open>Write_Points\<close>: a read of everything gives the encoded record
    of every source point exactly once.

  Reader (\<^verbatim>\<open>copc-reader/src\<close>).
  \<^item> \<open>Las_Reader\<close>, \<open>Hierarchy_Walk\<close> (\<^verbatim>\<open>lib.rs\<close>): exactly which headers are accepted, and what an opened file
    guarantees. \<open>Point_Query\<close> (\<^verbatim>\<open>points.rs\<close>): what a query selects.
  \<^item> \<open>Point_Record\<close>, \<open>Record_Columns\<close>, \<open>Chunk_Decode\<close>, \<open>Column_Read\<close>, \<open>Parallel_Columns\<close>, \<open>Record_Codec\<close> (\<^verbatim>\<open>points.rs\<close>):
    column reads, sequential and parallel, and the round trip of a point through the writer's encoder.
    \<open>Chunk_Window\<close> and \<open>Point_Iter\<close>: the point iterator and the window through which it decodes a chunk.
  \<^item> \<open>Range_Read\<close> (\<^verbatim>\<open>range_read.rs\<close>): the locale of byte-range sources, interpreted on files and on HTTP;
    \<open>Ranged\<close>, \<open>Ranged_Spec\<close> (\<^verbatim>\<open>ranged.rs\<close>): the range reader, and the checks that hold after any requests.
    \<open>Page_Graph\<close>: the hierarchy pages of a file as a graph, of which the local reader has walked all that is reachable;
    \<open>Ranged_Pages\<close>: what the range reader knows of that graph; \<open>Ranged_Select\<close>: that the pages it skips hold nothing
    the query selects; \<open>Ranged_Opened\<close>: that both readers open a file alike; \<open>Ranged_Local\<close>: the agreement of their column
    reads; \<open>Ranged_Sample\<close>: a file with a child page, and voxels whose boxes do not nest.

  Conventions. A \<^verbatim>\<open>Result\<close> is a sum; messages keep the format string without its arguments. A panic of a
  slice or index is the error \<open>Panic\<close>. \<^verbatim>\<open>u8\<close> to \<^verbatim>\<open>u64\<close> and \<^verbatim>\<open>i32\<close> are words, offsets and sizes that are compared and
  added are natural numbers with every overflow check of the code written out; \<^verbatim>\<open>usize\<close> has 64 bits and
  \<^verbatim>\<open>as\<close>-conversions wrap or saturate as in Rust, arithmetic wraps as in a release build. Maps are red-black
  trees. A stream is a byte list with a position; a function that changes its object also when it
  fails returns the result and the new object. A cancellation check is a function of the number of
  calls made so far, and every operation threads that number.

  Termination. The hierarchy walk and the range reader are bounded by \<open>MAX_HIERARCHY_TOTAL_BYTES\<close>, since
  every page adds at least 32 bytes to a total; page planning descends one level of the octree per
  step and the levels of valid keys are bounded; the octree builder stops at level 30; the iterator
  uses up a candidate point per round. All of these are \<open>function\<close>s with a termination
  proof, so no fuel bounds any result; \<open>drain\<close> of \<open>Point_Iter\<close> has a number of calls as an argument, and
  \<open>iterator_terminates\<close> shows how many are enough.

  Parameters: the \<^verbatim>\<open>laz\<close> crate (\<open>laz_lib\<close>, \<open>laz_decoder\<close>), \<^verbatim>\<open>las::point::Format\<close>, \<^verbatim>\<open>las::Transform::direct\<close>,
  \<^verbatim>\<open>las::raw::Point\<close>, \<^verbatim>\<open>las::Reader\<close>, \<^verbatim>\<open>f64::log2\<close>, the clock, the HTTP server, and the outcomes of the system
  calls around the output file. What a theorem needs of them is a named hypothesis, such as \<open>format_laws\<close>
  (the formats 6 to 8 are extended with GPS time, and the length of such a format), \<open>las_laws\<close>,
  \<open>laz_stream_laws\<close> or \<open>decodes\<close>, with a witness that satisfies it. That the boxes of the entries of a page nest in the
  voxel that leads to it, which the range reader takes for granted, is the hypothesis \<open>pages_nest\<close> on the file.

  Not modelled: I/O errors in the middle of a stream (a read fails only at the end of the bytes; the
  temporary files of the writer do not fail), the capacity of vectors beyond the checked sizes, the
  arguments of error messages, the getters of the readers (they are the fields of the records), the
  LAZ coding itself, and the tests, benchmarks and fuzz targets.
\<close>

end
